(* ===== verification/Prelude.thy ===== *)
theory Prelude
  imports Main "HOL-Library.Word" "HOL-Library.Multiset"
begin

unbundle bit_operations_syntax

text \<open>
  Shared vocabulary of the development: the outcome of running a piece of kernel code, the
  sequencing of such pieces, C integers, byte arrays, and the scan for the first table slot
  that satisfies a test (the loop shape of \<open>allocproc\<close>, \<open>filealloc\<close>, \<open>fdalloc\<close>, \<open>iget\<close>,
  \<open>mycpu\<close> and others).

  A piece of kernel code that runs on behalf of a process is a function from the kernel state
  to an \<open>outcome\<close>:
  \<^item> \<open>Ok r s\<close>: it returned \<open>r\<close> in state \<open>s\<close>;
  \<^item> \<open>Panic m s\<close>: it called \<open>panic(m)\<close>;
  \<^item> \<open>Switch s k\<close>: it called \<open>swtch\<close> in \<open>sched()\<close> and gave up the CPU in state \<open>s\<close>; when the
    scheduler picks it again, in whatever state \<open>t\<close> the others left, it continues as \<open>k t\<close>;
  \<^item> \<open>Spin s\<close>: it busy-waits on a word that only another CPU can change;
  \<^item> \<open>Fault m s\<close>: it performed an access the C language leaves undefined (an array index out
    of range, a null pointer).
\<close>

section \<open>Outcomes and sequencing\<close>

codatatype ('a, 's) outcome =
    Ok (o_res: 'a) (o_fin: 's)
  | Panic (o_msg: string) (o_fin: 's)
  | Switch (o_fin: 's) (o_next: "'s \<Rightarrow> ('a, 's) outcome")
  | Spin (o_fin: 's)
  | Fault (o_msg: string) (o_fin: 's)

type_synonym ('a, 's) code = "'s \<Rightarrow> ('a, 's) outcome"

text \<open>Running code can go on for ever, switching again and again, so outcomes are a codatatype.
  Everything that builds one step by step is an instance of \<open>unfold_outcome\<close>, which asks \<open>g\<close> for
  the next observation.\<close>

datatype ('a, 's, 'c) ostep =
    SOk (s_res: 'a) (s_fin: 's)
  | SPanic (s_msg: string) (s_fin: 's)
  | SSwitch (s_fin: 's) (s_next: "'s \<Rightarrow> 'c")
  | SSpin (s_fin: 's)
  | SFault (s_msg: string) (s_fin: 's)

primcorec unfold_outcome :: "('c \<Rightarrow> ('a, 's, 'c) ostep) \<Rightarrow> 'c \<Rightarrow> ('a, 's) outcome" where
  "unfold_outcome g c =
     (case g c of
        SOk a s \<Rightarrow> Ok a s
      | SPanic m s \<Rightarrow> Panic m s
      | SSwitch s k \<Rightarrow> Switch s (\<lambda>t. unfold_outcome g (k t))
      | SSpin s \<Rightarrow> Spin s
      | SFault m s \<Rightarrow> Fault m s)"

primrec ostep_of :: "(('a, 's) outcome \<Rightarrow> 'c) \<Rightarrow> ('a, 's, ('a, 's) outcome) ostep \<Rightarrow> ('a, 's, 'c) ostep" where
  "ostep_of h (SOk a s) = SOk a s"
| "ostep_of h (SPanic m s) = SPanic m s"
| "ostep_of h (SSwitch s k) = SSwitch s (\<lambda>t. h (k t))"
| "ostep_of h (SSpin s) = SSpin s"
| "ostep_of h (SFault m s) = SFault m s"

definition observe :: "('a, 's) outcome \<Rightarrow> ('a, 's, ('a, 's) outcome) ostep" where
  "observe r =
     (case r of
        Ok a s \<Rightarrow> SOk a s
      | Panic m s \<Rightarrow> SPanic m s
      | Switch s k \<Rightarrow> SSwitch s k
      | Spin s \<Rightarrow> SSpin s
      | Fault m s \<Rightarrow> SFault m s)"

text \<open>Run the second piece where the first one ends: \<open>Inl\<close> is still in the first, \<open>Inr\<close> in the
  second.\<close>

definition bind_step ::
  "('a \<Rightarrow> ('b, 's) code) \<Rightarrow> ('a, 's) outcome + ('b, 's) outcome \<Rightarrow>
   ('b, 's, ('a, 's) outcome + ('b, 's) outcome) ostep" where
  "bind_step f c =
     (case c of
        Inr r \<Rightarrow> ostep_of Inr (observe r)
      | Inl r \<Rightarrow>
        (case r of
           Ok a s \<Rightarrow> ostep_of Inr (observe (f a s))
         | Panic m s \<Rightarrow> SPanic m s
         | Switch s k \<Rightarrow> SSwitch s (\<lambda>t. Inl (k t))
         | Spin s \<Rightarrow> SSpin s
         | Fault m s \<Rightarrow> SFault m s))"

definition bind_outcome :: "('a, 's) outcome \<Rightarrow> ('a \<Rightarrow> ('b, 's) code) \<Rightarrow> ('b, 's) outcome" where
  "bind_outcome r f = unfold_outcome (bind_step f) (Inl r)"

text \<open>
  The waiting loops of the kernel (\<open>while (cond) sleep(...)\<close>, \<open>for (;;) { ...; sleep(...); }\<close>):
  the body runs until it gives a value. Every round that does not end the loop sleeps, that is,
  switches; a round that neither ends nor switches would keep the CPU for ever, \<open>Spin\<close>.
\<close>

definition kloop_step :: "('a option, 's) code \<Rightarrow> ('a option, 's) outcome \<Rightarrow>
  ('a, 's, ('a option, 's) outcome) ostep" where
  "kloop_step b r =
     (case (case r of Ok None s \<Rightarrow> b s | _ \<Rightarrow> r) of
        Ok None s \<Rightarrow> SSpin s
      | Ok (Some a) s \<Rightarrow> SOk a s
      | Panic m s \<Rightarrow> SPanic m s
      | Switch s k \<Rightarrow> SSwitch s k
      | Spin s \<Rightarrow> SSpin s
      | Fault m s \<Rightarrow> SFault m s)"

definition kloop :: "('a option, 's) code \<Rightarrow> ('a, 's) code" where
  "kloop b s = unfold_outcome (kloop_step b) (Ok None s)"

definition kbind :: "('a, 's) code \<Rightarrow> ('a \<Rightarrow> ('b, 's) code) \<Rightarrow> ('b, 's) code" where
  "kbind m f s = bind_outcome (m s) f"

definition kthen :: "('a, 's) code \<Rightarrow> ('b, 's) code \<Rightarrow> ('b, 's) code" where
  "kthen m n s = bind_outcome (m s) (\<lambda>_. n)"

definition kreturn :: "'a \<Rightarrow> ('a, 's) code" where
  "kreturn a s = Ok a s"

definition kget :: "('s \<Rightarrow> 'a) \<Rightarrow> ('a, 's) code" where
  "kget f s = Ok (f s) s"

definition kmod :: "('s \<Rightarrow> 's) \<Rightarrow> (unit, 's) code" where
  "kmod f s = Ok () (f s)"

definition kpanic :: "string \<Rightarrow> ('a, 's) code" where
  "kpanic m s = Panic m s"

definition kfault :: "string \<Rightarrow> ('a, 's) code" where
  "kfault m s = Fault m s"

definition kwhen :: "bool \<Rightarrow> (unit, 's) code \<Rightarrow> (unit, 's) code" where
  "kwhen b m = (if b then m else kreturn ())"

primrec kiter :: "('i \<Rightarrow> (unit, 's) code) \<Rightarrow> 'i list \<Rightarrow> (unit, 's) code" where
  "kiter f [] = kreturn ()"
| "kiter f (i # is) = kthen (f i) (kiter f is)"

section \<open>C integers and bytes\<close>

type_synonym uint = "32 word"
type_synonym uchar = "8 word"

text \<open>The value of a 32-bit two's complement \<open>int\<close> after arithmetic that may wrap.\<close>

definition i32 :: "int \<Rightarrow> int" where
  "i32 x = (x + 2 ^ 31) mod 2 ^ 32 - 2 ^ 31"

definition int_range :: "int \<Rightarrow> bool" where
  "int_range x \<longleftrightarrow> - (2 ^ 31) \<le> x \<and> x < 2 ^ 31"

text \<open>C division truncates towards zero.\<close>

definition c_div :: "int \<Rightarrow> int \<Rightarrow> int" where
  "c_div a b = sgn a * sgn b * (\<bar>a\<bar> div \<bar>b\<bar>)"

section \<open>Scanning a table\<close>

fun first_from :: "nat \<Rightarrow> ('a \<Rightarrow> bool) \<Rightarrow> 'a list \<Rightarrow> nat option" where
  "first_from i P [] = None"
| "first_from i P (x # xs) = (if P x then Some i else first_from (Suc i) P xs)"

definition first_idx :: "('a \<Rightarrow> bool) \<Rightarrow> 'a list \<Rightarrow> nat option" where
  "first_idx P xs = first_from 0 P xs"

section \<open>Lemma collections\<close>

named_theorems kdefs \<open>unfolding of the sequencing combinators\<close>
named_theorems wps \<open>weakest preconditions of the combinators\<close>
named_theorems frame \<open>fields an operation leaves alone\<close>

section \<open>Laws of sequencing\<close>

lemmas kcode_defs [kdefs] =
  kbind_def kthen_def kreturn_def kget_def kmod_def kpanic_def kfault_def

lemma unfold_outcome_eq:
  "unfold_outcome g c =
     (case g c of
        SOk a s \<Rightarrow> Ok a s
      | SPanic m s \<Rightarrow> Panic m s
      | SSwitch s k \<Rightarrow> Switch s (\<lambda>t. unfold_outcome g (k t))
      | SSpin s \<Rightarrow> Spin s
      | SFault m s \<Rightarrow> Fault m s)"
  by (subst unfold_outcome.code) (rule refl)

lemma unfold_bind_Inr [simp]: "unfold_outcome (bind_step f) (Inr r) = r"
proof (coinduction arbitrary: r rule: outcome.coinduct_strong)
  case (Eq_outcome r)
  show ?case
    by (subst (1 2 3 4 5 6 7 8 9 10 11 12) unfold_outcome_eq)
      (cases r; auto simp: bind_step_def observe_def rel_fun_def)
qed

lemma bind_outcome_simps [simp]:
  "bind_outcome (Ok a s) f = f a s"
  "bind_outcome (Panic m s) f = Panic m s"
  "bind_outcome (Switch s k) f = Switch s (\<lambda>t. bind_outcome (k t) f)"
  "bind_outcome (Spin s) f = Spin s"
  "bind_outcome (Fault m s) f = Fault m s"
proof -
  show "bind_outcome (Ok a s) f = f a s"
    unfolding bind_outcome_def
    by (subst unfold_outcome_eq) (cases "f a s"; simp add: bind_step_def observe_def)
qed (unfold bind_outcome_def, (subst unfold_outcome_eq, simp add: bind_step_def)+)

lemma kbind_Ok: "m s = Ok a t \<Longrightarrow> kbind m f s = f a t"
  by (simp add: kbind_def)

lemma kthen_Ok: "m s = Ok a t \<Longrightarrow> kthen m n s = n t"
  by (simp add: kthen_def)

lemma kbind_Switch: "m s = Switch t k \<Longrightarrow> kbind m f s = Switch t (\<lambda>u. bind_outcome (k u) f)"
  by (simp add: kbind_def)

lemma kthen_Switch: "m s = Switch t k \<Longrightarrow> kthen m n s = Switch t (\<lambda>u. bind_outcome (k u) (\<lambda>_. n))"
  by (simp add: kthen_def)

lemma bind_outcome_Ok_iff:
  "bind_outcome r f = Ok b u \<longleftrightarrow> (\<exists>a t. r = Ok a t \<and> f a t = Ok b u)"
  by (cases r) auto

lemma kbind_Ok_iff: "kbind m f s = Ok b u \<longleftrightarrow> (\<exists>a t. m s = Ok a t \<and> f a t = Ok b u)"
  by (simp add: kbind_def bind_outcome_Ok_iff)

lemma kthen_Ok_iff: "kthen m n s = Ok b u \<longleftrightarrow> (\<exists>a t. m s = Ok a t \<and> n t = Ok b u)"
  by (simp add: kthen_def bind_outcome_Ok_iff)

lemma bind_outcome_assoc:
  "bind_outcome (bind_outcome r f) g = bind_outcome r (\<lambda>a. kbind (f a) g)"
proof (coinduction arbitrary: r rule: outcome.coinduct_strong)
  case (Eq_outcome r)
  show ?case by (cases r) (auto simp: kbind_def rel_fun_def)
qed

lemma bind_outcome_kreturn [simp]: "bind_outcome r kreturn = r"
proof (coinduction arbitrary: r rule: outcome.coinduct_strong)
  case (Eq_outcome r)
  show ?case by (cases r) (auto simp: kreturn_def rel_fun_def)
qed

lemma kbind_assoc: "kbind (kbind m f) g = kbind m (\<lambda>a. kbind (f a) g)"
  by (rule ext) (simp add: kbind_def [of "kbind m f"] kbind_def [of m] bind_outcome_assoc)

lemma kwhen_run [kdefs]: "kwhen b m s = (if b then m s else Ok () s)"
  by (simp add: kwhen_def kreturn_def)

text \<open>One round of a waiting loop; the rounds after a switch are those of the same loop.\<close>

lemma unfold_kloop_simps:
  "unfold_outcome (kloop_step b) (Ok (Some a) s) = Ok a s"
  "unfold_outcome (kloop_step b) (Ok None s) = kloop b s"
  "unfold_outcome (kloop_step b) (Panic m s) = Panic m s"
  "unfold_outcome (kloop_step b) (Switch s k) = Switch s (\<lambda>t. unfold_outcome (kloop_step b) (k t))"
  "unfold_outcome (kloop_step b) (Spin s) = Spin s"
  "unfold_outcome (kloop_step b) (Fault m s) = Fault m s"
  by (subst unfold_outcome_eq, simp add: kloop_step_def)
    (simp add: kloop_def, (subst unfold_outcome_eq, simp add: kloop_step_def)+)

lemma unfold_kloop:
  "unfold_outcome (kloop_step b) r =
   bind_outcome r (\<lambda>x. case x of Some a \<Rightarrow> kreturn a | None \<Rightarrow> kloop b)"
proof (coinduction arbitrary: r rule: outcome.coinduct_strong)
  case (Eq_outcome r)
  show ?case
  proof (cases r)
    case (Ok x s)
    then show ?thesis by (cases x) (simp_all add: unfold_kloop_simps kreturn_def rel_fun_def)
  qed (auto simp: unfold_kloop_simps rel_fun_def)
qed

lemma kloop_eq:
  "kloop b s =
     (case b s of
        Ok None t \<Rightarrow> Spin t
      | Ok (Some a) t \<Rightarrow> Ok a t
      | Panic m t \<Rightarrow> Panic m t
      | Switch t k \<Rightarrow> Switch t (\<lambda>u. bind_outcome (k u) (\<lambda>x. case x of Some a \<Rightarrow> kreturn a | None \<Rightarrow> kloop b))
      | Spin t \<Rightarrow> Spin t
      | Fault m t \<Rightarrow> Fault m t)"
  unfolding kloop_def
  by (subst unfold_outcome_eq)
    (simp add: kloop_step_def unfold_kloop split: outcome.splits option.splits)

lemma kthen_kbind: "kthen m n = kbind m (\<lambda>_. n)"
  by (rule ext) (simp add: kthen_def kbind_def)

lemma kiter_append: "kiter f (xs @ ys) = kthen (kiter f xs) (kiter f ys)"
proof (induction xs)
  case Nil
  show ?case by (rule ext) (simp add: kdefs)
next
  case (Cons x xs)
  then show ?case by (simp add: kthen_kbind kbind_assoc)
qed

section \<open>Establishing a postcondition\<close>

text \<open>\<open>wp m P s\<close>: from \<open>s\<close> the code \<open>m\<close> returns, without panic, fault or switch, and its value and
  final state satisfy \<open>P\<close>.\<close>

definition wp :: "('a, 's) code \<Rightarrow> ('a \<Rightarrow> 's \<Rightarrow> bool) \<Rightarrow> 's \<Rightarrow> bool" where
  "wp m P s \<longleftrightarrow> (\<exists>a t. m s = Ok a t \<and> P a t)"

lemma wpI: "m s = Ok a t \<Longrightarrow> P a t \<Longrightarrow> wp m P s"
  by (auto simp: wp_def)

lemma wp_mono: "wp m P s \<Longrightarrow> (\<And>a t. P a t \<Longrightarrow> Q a t) \<Longrightarrow> wp m Q s"
  by (auto simp: wp_def)

lemma wp_conj: "wp m P s \<Longrightarrow> wp m Q s \<Longrightarrow> wp m (\<lambda>a t. P a t \<and> Q a t) s"
  by (auto simp: wp_def)

lemma wp_kbind [wps]: "wp (kbind m f) P = wp m (\<lambda>a. wp (f a) P)"
  by (rule ext) (auto simp: wp_def kbind_Ok_iff)

lemma wp_kthen [wps]: "wp (kthen m n) P = wp m (\<lambda>_. wp n P)"
  by (rule ext) (auto simp: wp_def kthen_Ok_iff)

lemma wp_prims [wps]:
  "wp (kreturn a) P s \<longleftrightarrow> P a s" "wp (kget f) Q s \<longleftrightarrow> Q (f s) s" "wp (kmod g) R s \<longleftrightarrow> R () (g s)"
  "wp (kpanic m) P' s \<longleftrightarrow> False" "wp (kfault m) Q' s \<longleftrightarrow> False"
  by (auto simp: wp_def kcode_defs)

lemma wp_kwhen [wps]: "wp (kwhen b m) P s \<longleftrightarrow> (if b then wp m P s else P () s)"
  by (simp add: kwhen_def wp_prims)

lemma wp_if [wps]: "wp (if b then m else n) P s \<longleftrightarrow> (if b then wp m P s else wp n P s)"
  by simp

lemma wp_case_option [wps]:
  "wp (case x of None \<Rightarrow> m | Some a \<Rightarrow> n a) P s \<longleftrightarrow> (case x of None \<Rightarrow> wp m P s | Some a \<Rightarrow> wp (n a) P s)"
  by (cases x) simp_all

lemma wp_kloop: "wp b (\<lambda>x t. \<exists>a. x = Some a \<and> P a t) s \<Longrightarrow> wp (kloop b) P s"
  by (auto simp: wp_def kloop_eq)

text \<open>A loop over a list keeps an invariant indexed by what is done and what is left.\<close>

lemma wp_kiter:
  assumes "I xs s" "\<And>x ys t. I (x # ys) t \<Longrightarrow> wp (f x) (\<lambda>_. I ys) t" "\<And>t. I [] t \<Longrightarrow> P () t"
  shows "wp (kiter f xs) P s"
  using assms(1)
proof (induction xs arbitrary: s)
  case Nil
  then show ?case using assms(3) by (simp add: wp_prims)
next
  case (Cons x xs)
  show ?case
    unfolding kiter.simps wp_kthen by (rule wp_mono [OF assms(2) [OF Cons.prems]]) (rule Cons.IH)
qed

section \<open>Laws of the integers\<close>

lemma i32_id [simp]: "int_range x \<Longrightarrow> i32 x = x"
  by (simp add: i32_def int_range_def)

lemma i32_range [simp]: "int_range (i32 x)"
proof -
  have "0 \<le> (x + 2 ^ 31) mod 2 ^ 32 \<and> (x + 2 ^ 31) mod 2 ^ 32 < 2 ^ 32" by simp
  then show ?thesis by (simp add: i32_def int_range_def)
qed

lemma c_div_nonneg: "0 \<le> a \<Longrightarrow> 0 < b \<Longrightarrow> c_div a b = a div b"
  by (cases "a = 0") (simp_all add: c_div_def)

section \<open>Laws of the table scan\<close>

lemma first_from_Some:
  "first_from i P xs = Some j \<longleftrightarrow>
     i \<le> j \<and> j < i + length xs \<and> P (xs ! (j - i)) \<and> (\<forall>k < j - i. \<not> P (xs ! k))"
proof (induction xs arbitrary: i)
  case Nil
  then show ?case by simp
next
  case (Cons x xs)
  show ?case
  proof (cases "P x")
    case True
    then show ?thesis by (auto simp: nth_Cons split: nat.splits)
  next
    case False
    have all: "(\<forall>k < j - i. \<not> P ((x # xs) ! k)) \<longleftrightarrow> (\<forall>k < j - Suc i. \<not> P (xs ! k))"
      if "Suc i \<le> j"
    proof -
      have "j - i = Suc (j - Suc i)" using that by arith
      then show ?thesis using False by (simp only: All_less_Suc2) simp
    qed
    have nth: "(x # xs) ! (j - i) = xs ! (j - Suc i)" if "Suc i \<le> j"
      using that by (simp add: nth_Cons')
    have "Suc i \<le> j" if "i \<le> j" "P ((x # xs) ! (j - i))"
      using that False by (cases "i = j") auto
    then show ?thesis using False all nth by (auto simp: Cons.IH)
  qed
qed

lemma first_from_None: "first_from i P xs = None \<longleftrightarrow> (\<forall>x \<in> set xs. \<not> P x)"
  by (induction xs arbitrary: i) auto

lemma first_idx_Some:
  "first_idx P xs = Some j \<longleftrightarrow> j < length xs \<and> P (xs ! j) \<and> (\<forall>k < j. \<not> P (xs ! k))"
  by (simp add: first_idx_def first_from_Some)

lemma first_idx_SomeD:
  assumes "first_idx P xs = Some j"
  shows "j < length xs" and "P (xs ! j)"
  using assms by (simp_all add: first_idx_Some)

lemma first_idx_None: "first_idx P xs = None \<longleftrightarrow> (\<forall>x \<in> set xs. \<not> P x)"
  by (simp add: first_idx_def first_from_None)

lemma first_idx_None_nth: "first_idx P xs = None \<longleftrightarrow> (\<forall>i < length xs. \<not> P (xs ! i))"
  by (simp add: first_idx_None all_set_conv_all_nth)

lemma first_idx_ex: "i < length xs \<Longrightarrow> P (xs ! i) \<Longrightarrow> \<exists>j \<le> i. first_idx P xs = Some j"
proof -
  assume i: "i < length xs" "P (xs ! i)"
  then have "first_idx P xs \<noteq> None" by (auto simp: first_idx_None_nth)
  then obtain j where j: "first_idx P xs = Some j" by blast
  moreover have "j \<le> i" using j i by (auto simp: first_idx_Some intro: leI)
  ultimately show ?thesis by blast
qed

section \<open>Lists updated by index\<close>

lemma map_update_const: "map f (xs[i := x]) = (map f xs)[i := f x]"
  by (simp add: map_update)

lemma map_eq_nth:
  assumes "map f xs = map f ys" "i < length ys"
  shows "i < length xs \<and> f (xs ! i) = f (ys ! i)"
  using assms by (metis length_map nth_map)

lemma list_update_absorb: "i < length xs \<Longrightarrow> f x = f (xs ! i) \<Longrightarrow> map f (xs[i := x]) = map f xs"
  by (simp add: map_update list_update_same_conv)

lemma length_filter_update:
  "i < length xs \<Longrightarrow>
   length (filter P (xs[i := y])) + (if P (xs ! i) then 1 else 0) = length (filter P xs) + (if P y then 1 else 0)"
proof (induction xs arbitrary: i)
  case (Cons x xs)
  then show ?case by (cases i) auto
qed simp

end
