(* ===== verification/StrideHeap.thy ===== *)
theory StrideHeap
  imports Prelude
begin

text \<open>
  The binary min-heap of pass values behind the stride scheduler (\<open>src/xv6-public/proc.c\<close>,
  \<open>heap\<close>, \<open>heap_count\<close>, \<open>swap\<close>, \<open>push\<close>, \<open>pop\<close>). The array has \<open>NPROC + 1\<close> cells and is used
  from index 1. An access outside the array is undefined in C; \<open>push\<close> and \<open>pop\<close> return \<open>None\<close>
  there, so that the absence of such accesses is something to prove.

  \<open>min_pq\<close> is the contract of a bounded priority queue that the scheduler relies on; the heap
  is shown to satisfy it (interpretation \<open>sq\<close>).
\<close>

section \<open>The heap of proc.c\<close>

abbreviation NPROC :: nat where "NPROC \<equiv> 64"

record sheap =
  heap :: "int list"
  heap_count :: int

definition init_heap :: sheap where
  "init_heap = \<lparr>heap = replicate (NPROC + 1) 0, heap_count = 0\<rparr>"

definition swap_h :: "int list \<Rightarrow> nat \<Rightarrow> nat \<Rightarrow> int list" where
  "swap_h h a b = h[a := h ! b, b := h ! a]"

function push_loop :: "int list \<Rightarrow> nat \<Rightarrow> int list" where
  "push_loop h child =
     (if child > 1 \<and> h ! child < h ! (child div 2)
      then push_loop (swap_h h child (child div 2)) (child div 2)
      else h)"
  by pat_completeness auto
termination
  by (relation "measure snd") auto

definition push :: "int \<Rightarrow> sheap \<Rightarrow> sheap option" where
  "push x q =
     (let c = heap_count q + 1
      in if 0 \<le> c \<and> c < int (length (heap q))
         then Some (q\<lparr>heap_count := c, heap := push_loop ((heap q)[nat c := x]) (nat c)\<rparr>)
         else None)"

definition pick_child :: "int list \<Rightarrow> nat \<Rightarrow> nat \<Rightarrow> nat" where
  "pick_child h n parent =
     (let child = parent * 2
      in if child + 1 \<le> n then (if h ! child < h ! (child + 1) then child else child + 1)
         else child)"

function pop_loop :: "int list \<Rightarrow> nat \<Rightarrow> nat \<Rightarrow> int list" where
  "pop_loop h n parent =
     (if pick_child h n parent \<le> n \<and> h ! pick_child h n parent < h ! parent
      then pop_loop (swap_h h (pick_child h n parent) parent) n (pick_child h n parent)
      else h)"
  by pat_completeness auto
termination
proof (relation "measure (\<lambda>(h, n, p). n - p)")
  show "wf (measure (\<lambda>(h, n, p). n - p))" by simp
next
  fix h :: "int list" and n p :: nat
  assume a: "pick_child h n p \<le> n \<and> h ! pick_child h n p < h ! p"
  then have "pick_child h n p \<noteq> p" by auto
  moreover have "p \<le> pick_child h n p" by (auto simp: pick_child_def Let_def)
  ultimately show "((swap_h h (pick_child h n p) p, n, pick_child h n p), h, n, p)
      \<in> measure (\<lambda>(h, n, p). n - p)"
    using a by auto
qed

definition pop :: "sheap \<Rightarrow> (int \<times> sheap) option" where
  "pop q =
     (if 0 \<le> heap_count q \<and> heap_count q < int (length (heap q)) \<and> 1 < length (heap q)
      then let min_pass = heap q ! 1;
               h = swap_h (heap q) 1 (nat (heap_count q));
               c = heap_count q - 1
           in Some (min_pass, q\<lparr>heap_count := c, heap := pop_loop h (nat c) 1\<rparr>)
      else None)"

section \<open>Invariant and abstraction\<close>

definition heap_ok :: "int list \<Rightarrow> nat \<Rightarrow> bool" where
  "heap_ok h n \<longleftrightarrow> (\<forall>i. 2 \<le> i \<and> i \<le> n \<longrightarrow> h ! (i div 2) \<le> h ! i)"

definition heap_inv :: "sheap \<Rightarrow> bool" where
  "heap_inv q \<longleftrightarrow> length (heap q) = NPROC + 1 \<and> 0 \<le> heap_count q \<and> heap_count q \<le> int NPROC
     \<and> heap_ok (heap q) (nat (heap_count q))"

definition heap_elems :: "sheap \<Rightarrow> int multiset" where
  "heap_elems q = mset (take (nat (heap_count q)) (tl (heap q)))"

text \<open>One defect on the way up: only \<open>c\<close> may be smaller than its parent.\<close>

definition up_ok :: "int list \<Rightarrow> nat \<Rightarrow> nat \<Rightarrow> bool" where
  "up_ok h n c \<longleftrightarrow> (\<forall>i. 2 \<le> i \<and> i \<le> n \<and> i \<noteq> c \<longrightarrow> h ! (i div 2) \<le> h ! i)
     \<and> (\<forall>i. 2 \<le> i \<and> i \<le> n \<and> i div 2 = c \<and> 1 < c \<longrightarrow> h ! (c div 2) \<le> h ! i)"

text \<open>One defect on the way down: only \<open>p\<close> may be larger than a child.\<close>

definition down_ok :: "int list \<Rightarrow> nat \<Rightarrow> nat \<Rightarrow> bool" where
  "down_ok h n p \<longleftrightarrow> (\<forall>i. 2 \<le> i \<and> i \<le> n \<and> i div 2 \<noteq> p \<longrightarrow> h ! (i div 2) \<le> h ! i)
     \<and> (\<forall>i. 2 \<le> i \<and> i \<le> n \<and> i div 2 = p \<and> 1 < p \<longrightarrow> h ! (p div 2) \<le> h ! i)"

text \<open>A run of insertions, and a run of deletions with what they return.\<close>

fun push_list :: "int list \<Rightarrow> sheap \<Rightarrow> sheap option" where
  "push_list [] q = Some q"
| "push_list (x # xs) q = (case push x q of None \<Rightarrow> None | Some q' \<Rightarrow> push_list xs q')"

fun pop_list :: "nat \<Rightarrow> sheap \<Rightarrow> (int list \<times> sheap) option" where
  "pop_list 0 q = Some ([], q)"
| "pop_list (Suc n) q =
     (case pop q of
        None \<Rightarrow> None
      | Some (x, q') \<Rightarrow> map_option (\<lambda>r. (x # fst r, snd r)) (pop_list n q'))"

section \<open>The contract of a bounded priority queue\<close>

locale min_pq =
  fixes pinsert :: "int \<Rightarrow> 'q \<Rightarrow> 'q option"
    and pdelmin :: "'q \<Rightarrow> (int \<times> 'q) option"
    and pmin :: "'q \<Rightarrow> int"
    and invar :: "'q \<Rightarrow> bool"
    and elems :: "'q \<Rightarrow> int multiset"
    and cap :: nat
  assumes insert_ok: "invar q \<Longrightarrow> size (elems q) < cap \<Longrightarrow>
      \<exists>q'. pinsert x q = Some q' \<and> invar q' \<and> elems q' = add_mset x (elems q)"
    and delmin_ok: "invar q \<Longrightarrow> elems q \<noteq> {#} \<Longrightarrow>
      \<exists>q'. pdelmin q = Some (pmin q, q') \<and> invar q' \<and> elems q = add_mset (pmin q) (elems q')"
    and min_le: "invar q \<Longrightarrow> x \<in># elems q \<Longrightarrow> pmin q \<le> x"
    and size_cap: "invar q \<Longrightarrow> size (elems q) \<le> cap"
begin

lemma pmin_in: "invar q \<Longrightarrow> elems q \<noteq> {#} \<Longrightarrow> pmin q \<in># elems q"
  using delmin_ok [of q] by auto

text \<open>
  Replacing the minimum: what a scheduling turn does. It never runs out of room, it keeps every
  other element, and the new minimum is not below the old one if the replacement is not.
\<close>

lemma replace_min:
  assumes "invar q" and "elems q \<noteq> {#}"
  shows "\<exists>q1 q2. pdelmin q = Some (pmin q, q1) \<and> pinsert v q1 = Some q2 \<and> invar q2
    \<and> elems q2 = add_mset v (elems q - {#pmin q#})"
proof -
  obtain q1 where q1: "pdelmin q = Some (pmin q, q1)" "invar q1"
      "elems q = add_mset (pmin q) (elems q1)"
    using delmin_ok [OF assms] by blast
  have "size (elems q1) < cap" using size_cap [OF assms(1)] q1(3) by simp
  then obtain q2 where "pinsert v q1 = Some q2" "invar q2" "elems q2 = add_mset v (elems q1)"
    using insert_ok [OF q1(2)] by blast
  then show ?thesis using q1 by auto
qed

lemma replace_min_mono:
  assumes "invar q" "elems q \<noteq> {#}" "pmin q \<le> v"
    and "invar q2" "elems q2 = add_mset v (elems q - {#pmin q#})"
  shows "pmin q \<le> pmin q2"
proof -
  have "pmin q2 \<in># elems q2" by (rule pmin_in) (use assms in auto)
  then have "pmin q2 = v \<or> pmin q2 \<in># elems q" using assms(5) by (auto dest: in_diffD)
  then show ?thesis using assms(1,3) min_le by auto
qed

end

section \<open>Exchanging two cells\<close>

lemma length_swap_h [simp]: "length (swap_h h a b) = length h"
  by (simp add: swap_h_def)

lemma nth_swap_h:
  "a < length h \<Longrightarrow> b < length h \<Longrightarrow>
   swap_h h a b ! i = (if i = a then h ! b else if i = b then h ! a else h ! i)"
  by (auto simp: swap_h_def nth_list_update)

lemma mset_take_swap_h:
  assumes "1 \<le> a" "a \<le> n" "1 \<le> b" "b \<le> n" "n < length h"
  shows "mset (take n (tl (swap_h h a b))) = mset (take n (tl h))"
proof -
  let ?t = "take n (tl h)"
  obtain x t where h: "h = x # t" using assms by (cases h) auto
  obtain a' b' where ab: "a = Suc a'" "b = Suc b'" using assms by (cases a; cases b) auto
  have "take n (tl (swap_h h a b)) = ?t[a' := ?t ! b', b' := ?t ! a']"
    using assms by (simp add: h ab swap_h_def take_update_swap)
  also have "mset \<dots> = mset ?t"
    using assms by (intro mset_swap) (auto simp: h ab)
  finally show ?thesis .
qed

section \<open>Sifting up and down\<close>

declare push_loop.simps [simp del] pop_loop.simps [simp del]

lemma length_push_loop [simp]: "length (push_loop h c) = length h"
  by (induction h c rule: push_loop.induct) (subst push_loop.simps, simp)

lemma length_pop_loop [simp]: "length (pop_loop h n p) = length h"
  by (induction h n p rule: pop_loop.induct) (subst pop_loop.simps, simp)

lemma up_ok_swap:
  assumes "up_ok h n c" "1 < c" "c \<le> n" "n < length h" "h ! c < h ! (c div 2)"
  shows "up_ok (swap_h h c (c div 2)) n (c div 2)"
proof -
  let ?p = "c div 2" and ?h = "swap_h h c (c div 2)"
  have len: "c < length h" "?p < length h" using assms by auto
  have ord: "h ! (i div 2) \<le> h ! i" if "2 \<le> i" "i \<le> n" "i \<noteq> c" for i
    using assms(1) that by (auto simp: up_ok_def)
  have gc: "h ! ?p \<le> h ! i" if "2 \<le> i" "i \<le> n" "i div 2 = c" for i
    using assms(1,2) that by (auto simp: up_ok_def)
  have "?h ! (i div 2) \<le> ?h ! i" if i: "2 \<le> i" "i \<le> n" "i \<noteq> ?p" for i
  proof -
    consider "i = c" | "i \<noteq> c" "i div 2 = c" | "i \<noteq> c" "i div 2 = ?p" | "i \<noteq> c" "i div 2 \<noteq> c" "i div 2 \<noteq> ?p"
      by blast
    then show ?thesis
    proof cases
      case 1
      then show ?thesis using assms(2,5) len by (simp add: nth_swap_h)
    next
      case 2
      then show ?thesis using gc [OF i(1,2)] i(3) assms(2) len by (simp add: nth_swap_h)
    next
      case 3
      then show ?thesis using ord [OF i(1,2)] i(3) assms(2,5) len by (simp add: nth_swap_h)
    next
      case 4
      then show ?thesis using ord [OF i(1,2)] i(3) len by (simp add: nth_swap_h)
    qed
  qed
  moreover have "?h ! (?p div 2) \<le> ?h ! i"
    if i: "2 \<le> i" "i \<le> n" "i div 2 = ?p" "1 < ?p" for i
  proof -
    have pp: "h ! (?p div 2) \<le> h ! ?p" using ord [of ?p] i(4) assms(3) by auto
    have ne: "?p div 2 \<noteq> c" "?p div 2 \<noteq> ?p" "i \<noteq> ?p" using i assms(2) by auto
    show ?thesis
    proof (cases "i = c")
      case True
      then show ?thesis using pp ne len by (simp add: nth_swap_h)
    next
      case False
      then show ?thesis using pp ord [OF i(1,2) False] i(3) ne len by (simp add: nth_swap_h)
    qed
  qed
  ultimately show ?thesis by (auto simp: up_ok_def)
qed

lemma push_loop_ok:
  "up_ok h n c \<Longrightarrow> 1 \<le> c \<Longrightarrow> c \<le> n \<Longrightarrow> n < length h \<Longrightarrow>
   heap_ok (push_loop h c) n \<and> mset (take n (tl (push_loop h c))) = mset (take n (tl h))"
proof (induction h c rule: push_loop.induct)
  case (1 h c)
  show ?case
  proof (cases "1 < c \<and> h ! c < h ! (c div 2)")
    case True
    let ?h = "swap_h h c (c div 2)"
    have "up_ok ?h n (c div 2)" using True "1.prems" by (intro up_ok_swap) auto
    moreover have "1 \<le> c div 2" "c div 2 \<le> n" using True "1.prems" by auto
    ultimately have "heap_ok (push_loop ?h (c div 2)) n
        \<and> mset (take n (tl (push_loop ?h (c div 2)))) = mset (take n (tl ?h))"
      using "1.IH" True "1.prems" by simp
    moreover have "mset (take n (tl ?h)) = mset (take n (tl h))"
      using True "1.prems" \<open>1 \<le> c div 2\<close> by (intro mset_take_swap_h) auto
    ultimately show ?thesis using True by (simp add: push_loop.simps [of h c])
  next
    case False
    have "heap_ok h n"
      unfolding heap_ok_def
    proof (intro allI impI)
      fix i assume i: "2 \<le> i \<and> i \<le> n"
      show "h ! (i div 2) \<le> h ! i"
        using False i "1.prems"(1) by (cases "i = c") (auto simp: up_ok_def)
    qed
    moreover have "push_loop h c = h" using False by (subst push_loop.simps) auto
    ultimately show ?thesis by simp
  qed
qed

lemma pick_child_cases:
  "pick_child h n p = 2 * p \<or> (pick_child h n p = 2 * p + 1 \<and> 2 * p + 1 \<le> n)"
  by (auto simp: pick_child_def Let_def)

lemma pick_child_min:
  assumes "pick_child h n p \<le> n" "i \<le> n" "i div 2 = p"
  shows "h ! pick_child h n p \<le> h ! i"
proof -
  have "i = 2 * p \<or> i = 2 * p + 1" using assms(3) by arith
  then show ?thesis using assms by (auto simp: pick_child_def Let_def ac_simps split: if_splits)
qed

lemma down_ok_swap:
  assumes "down_ok h n p" "1 \<le> p" "n < length h"
    and "pick_child h n p \<le> n" "h ! pick_child h n p < h ! p"
  shows "down_ok (swap_h h (pick_child h n p) p) n (pick_child h n p)"
proof -
  let ?c = "pick_child h n p" and ?h = "swap_h h (pick_child h n p) p"
  have c: "?c div 2 = p" "2 \<le> ?c" "?c \<noteq> p" using pick_child_cases [of h n p] assms(2) by auto
  have len: "?c < length h" "p < length h" using assms c by auto
  have ord: "h ! (i div 2) \<le> h ! i" if "2 \<le> i" "i \<le> n" "i div 2 \<noteq> p" for i
    using assms(1) that by (auto simp: down_ok_def)
  have gp: "h ! (p div 2) \<le> h ! i" if "2 \<le> i" "i \<le> n" "i div 2 = p" "1 < p" for i
    using assms(1) that by (auto simp: down_ok_def)
  have "?h ! (i div 2) \<le> ?h ! i" if i: "2 \<le> i" "i \<le> n" "i div 2 \<noteq> ?c" for i
  proof (cases "i div 2 = p")
    case True
    have "i \<noteq> p" using i(1) True by auto
    then show ?thesis
      using True pick_child_min [OF assms(4) i(2) True] assms(5) c len by (simp add: nth_swap_h)
  next
    case False
    have ic: "i \<noteq> ?c" using False c by auto
    show ?thesis
    proof (cases "i = p")
      case True
      then show ?thesis using gp [of ?c] c i assms(4) len by (simp add: nth_swap_h)
    next
      case ip: False
      then show ?thesis using ord [OF i(1,2) False] False ic i(3) len by (simp add: nth_swap_h)
    qed
  qed
  moreover have "?h ! (?c div 2) \<le> ?h ! i" if i: "2 \<le> i" "i \<le> n" "i div 2 = ?c" for i
  proof -
    have "i \<noteq> ?c" "i \<noteq> p" using i c by auto
    then show ?thesis using ord [OF i(1,2)] i(3) c len by (simp add: nth_swap_h)
  qed
  ultimately show ?thesis by (auto simp: down_ok_def)
qed

lemma pop_loop_ok:
  "down_ok h n p \<Longrightarrow> 1 \<le> p \<Longrightarrow> n < length h \<Longrightarrow>
   heap_ok (pop_loop h n p) n \<and> mset (take n (tl (pop_loop h n p))) = mset (take n (tl h))"
proof (induction h n p rule: pop_loop.induct)
  case (1 h n p)
  let ?c = "pick_child h n p"
  have c: "?c div 2 = p" "2 \<le> ?c" using pick_child_cases [of h n p] "1.prems"(2) by auto
  show ?case
  proof (cases "?c \<le> n \<and> h ! ?c < h ! p")
    case True
    let ?h = "swap_h h ?c p"
    have "down_ok ?h n ?c" using True "1.prems" by (intro down_ok_swap) auto
    moreover have "1 \<le> ?c" using c by auto
    ultimately have "heap_ok (pop_loop ?h n ?c) n
        \<and> mset (take n (tl (pop_loop ?h n ?c))) = mset (take n (tl ?h))"
      using "1.IH" [OF True] "1.prems" by simp
    moreover have "p \<le> n" using True c by auto
    ultimately show ?thesis
      using True "1.prems" c by (simp add: pop_loop.simps [of h n p] mset_take_swap_h)
  next
    case False
    have "heap_ok h n"
      unfolding heap_ok_def
    proof (intro allI impI)
      fix i assume i: "2 \<le> i \<and> i \<le> n"
      show "h ! (i div 2) \<le> h ! i"
      proof (cases "i div 2 = p")
        case True
        have "?c \<le> n" using i True by (auto simp: pick_child_def Let_def)
        then show ?thesis using False pick_child_min [of h n p i] i True by auto
      next
        case ip: False
        then show ?thesis using i "1.prems"(1) by (auto simp: down_ok_def)
      qed
    qed
    moreover have "pop_loop h n p = h" using False by (subst pop_loop.simps) auto
    ultimately show ?thesis by simp
  qed
qed

section \<open>The operations meet the contract\<close>

lemma heap_min:
  assumes "heap_ok h n"
  shows "1 \<le> i \<Longrightarrow> i \<le> n \<Longrightarrow> h ! 1 \<le> h ! i"
proof (induction i rule: less_induct)
  case (less i)
  show ?case
  proof (cases "i = 1")
    case False
    then have "h ! 1 \<le> h ! (i div 2)" using less by auto
    also have "\<dots> \<le> h ! i" using assms False less.prems by (auto simp: heap_ok_def)
    finally show ?thesis .
  qed simp
qed

lemma heap_elems_nth:
  assumes "heap_inv q" "x \<in># heap_elems q"
  shows "\<exists>i. 1 \<le> i \<and> i \<le> nat (heap_count q) \<and> heap q ! i = x"
proof -
  obtain k where "k < nat (heap_count q)" "k < length (tl (heap q))" "tl (heap q) ! k = x"
    using assms(2) by (auto simp: heap_elems_def in_set_conv_nth)
  then show ?thesis by (intro exI [of _ "Suc k"]) (auto simp: nth_tl)
qed

lemma size_heap_elems: "heap_inv q \<Longrightarrow> size (heap_elems q) = nat (heap_count q)"
  by (auto simp: heap_elems_def heap_inv_def)

lemma push_ok:
  assumes "heap_inv q" "size (heap_elems q) < NPROC"
  shows "\<exists>q'. push x q = Some q' \<and> heap_inv q' \<and> heap_elems q' = add_mset x (heap_elems q)"
proof -
  let ?n = "nat (heap_count q)" and ?c = "nat (heap_count q + 1)"
  let ?h = "(heap q)[?c := x]"
  have cnt: "0 \<le> heap_count q" "heap_count q < 64" "length (heap q) = 65"
    using assms size_heap_elems [OF assms(1)] by (auto simp: heap_inv_def)
  then have c: "?c = Suc ?n" "?c < 65" by auto
  have "up_ok ?h ?c ?c"
    using assms(1) c cnt by (auto simp: up_ok_def heap_inv_def heap_ok_def nth_list_update)
  then have ok: "heap_ok (push_loop ?h ?c) ?c"
      "mset (take ?c (tl (push_loop ?h ?c))) = mset (take ?c (tl ?h))"
    using push_loop_ok [of ?h ?c ?c] c cnt by auto
  have "take ?c (tl ?h) = take ?n (tl (heap q)) @ [x]"
  proof -
    obtain y t where q: "heap q = y # t" using cnt by (cases "heap q") auto
    then have "take ?c (tl ?h) = take (Suc ?n) (t[?n := x])" by (simp add: c)
    also have "\<dots> = take ?n t @ [x]"
      using cnt q c by (simp add: take_Suc_conv_app_nth)
    finally show ?thesis by (simp add: q)
  qed
  then show ?thesis
    using ok c cnt by (simp add: push_def Let_def heap_inv_def heap_elems_def)
qed

lemma pop_ok:
  assumes "heap_inv q" "heap_elems q \<noteq> {#}"
  shows "\<exists>q'. pop q = Some (heap q ! 1, q') \<and> heap_inv q' \<and>
    heap_elems q = add_mset (heap q ! 1) (heap_elems q')"
proof -
  let ?n = "nat (heap_count q)" and ?c = "nat (heap_count q - 1)"
  let ?h = "swap_h (heap q) 1 ?n"
  have "size (heap_elems q) \<noteq> 0" using assms(2) by simp
  then have cnt: "0 < heap_count q" "heap_count q \<le> 64" "length (heap q) = 65"
    using assms(1) size_heap_elems [OF assms(1)] by (auto simp: heap_inv_def)
  then have c: "?n = Suc ?c" "?c < 64" by auto
  have "down_ok ?h ?c 1"
    unfolding down_ok_def
  proof (intro conjI allI impI)
    fix i assume "2 \<le> i \<and> i \<le> ?c \<and> i div 2 \<noteq> 1"
    then show "?h ! (i div 2) \<le> ?h ! i"
      using assms(1) c cnt by (auto simp: nth_swap_h heap_inv_def heap_ok_def)
  qed auto
  then have ok: "heap_ok (pop_loop ?h ?c 1) ?c"
      "mset (take ?c (tl (pop_loop ?h ?c 1))) = mset (take ?c (tl ?h))"
    using pop_loop_ok [of ?h ?c 1] c cnt by auto
  have "mset (take ?n (tl (heap q))) = mset (take ?n (tl ?h))"
    using cnt c by (subst mset_take_swap_h) auto
  also have "take ?n (tl ?h) = take ?c (tl ?h) @ [heap q ! 1]"
    using cnt c by (simp add: take_Suc_conv_app_nth nth_tl nth_swap_h)
  finally show ?thesis
    using ok c cnt by (simp add: pop_def Let_def heap_inv_def heap_elems_def)
qed

interpretation sq: min_pq push pop "\<lambda>q. heap q ! 1" heap_inv heap_elems NPROC
proof unfold_locales
  fix q x assume "heap_inv q" "x \<in># heap_elems q"
  then show "heap q ! 1 \<le> x"
    using heap_elems_nth heap_min by (metis heap_inv_def)
next
  fix q assume q: "heap_inv q"
  then show "size (heap_elems q) \<le> NPROC" using size_heap_elems [OF q] by (auto simp: heap_inv_def)
qed (rule push_ok pop_ok; assumption)+

lemma heap_inv_init: "heap_inv init_heap"
  by (simp add: heap_inv_def init_heap_def heap_ok_def)

lemma heap_elems_init: "heap_elems init_heap = {#}"
  by (simp add: heap_elems_def init_heap_def)

lemma heap_elems_empty_iff: "heap_inv q \<Longrightarrow> heap_elems q = {#} \<longleftrightarrow> heap_count q = 0"
proof -
  assume q: "heap_inv q"
  have "heap_elems q = {#} \<longleftrightarrow> size (heap_elems q) = 0" by simp
  then show ?thesis using size_heap_elems [OF q] q by (auto simp: heap_inv_def)
qed

lemma push_full: "heap_inv q \<Longrightarrow> heap_count q = int NPROC \<Longrightarrow> push x q = None"
  by (simp add: push_def heap_inv_def)

lemma push_count: "push x q = Some q' \<Longrightarrow> heap_count q' = heap_count q + 1"
  by (auto simp: push_def Let_def split: if_splits)

lemma pop_count: "pop q = Some (m, q') \<Longrightarrow> heap_count q' = heap_count q - 1"
  by (auto simp: pop_def Let_def split: if_splits)

section \<open>Insertions and deletions in sequence\<close>

lemma push_list_ok:
  "heap_inv q \<Longrightarrow> size (heap_elems q) + length xs \<le> NPROC \<Longrightarrow>
   \<exists>q'. push_list xs q = Some q' \<and> heap_inv q' \<and> heap_elems q' = mset xs + heap_elems q"
proof (induction xs arbitrary: q)
  case (Cons x xs)
  then obtain q1 where q1: "push x q = Some q1" "heap_inv q1" "heap_elems q1 = add_mset x (heap_elems q)"
    using push_ok [of q x] by auto
  then show ?case using Cons.IH [OF q1(2)] Cons.prems(2) by auto
qed simp

lemma pop_list_ok:
  "heap_inv q \<Longrightarrow> size (heap_elems q) = n \<Longrightarrow>
   \<exists>q'. pop_list n q = Some (sorted_list_of_multiset (heap_elems q), q') \<and> heap_inv q' \<and> heap_elems q' = {#}"
proof (induction n arbitrary: q)
  case (Suc n)
  then have ne: "heap_elems q \<noteq> {#}" by auto
  obtain q1 where q1: "pop q = Some (heap q ! 1, q1)" "heap_inv q1"
      "heap_elems q = add_mset (heap q ! 1) (heap_elems q1)"
    using pop_ok [OF Suc.prems(1) ne] by auto
  then have "size (heap_elems q1) = n" using Suc.prems(2) by simp
  from Suc.IH [OF q1(2) this] obtain q' where
    "pop_list n q1 = Some (sorted_list_of_multiset (heap_elems q1), q')" "heap_inv q'" "heap_elems q' = {#}" by auto
  moreover have "\<forall>x \<in># heap_elems q1. heap q ! 1 \<le> x"
    using sq.min_le [OF Suc.prems(1)] q1(3) by simp
  then have "sorted_list_of_multiset (heap_elems q) = (heap q ! 1) # sorted_list_of_multiset (heap_elems q1)"
    unfolding q1(3) sorted_list_of_multiset_insert by (intro insort_is_Cons) simp
  ultimately show ?case using q1(1) by simp
qed simp

text \<open>C8: Pushing up to \<open>NPROC\<close> pass values into the empty heap and popping as many returns them in
  ascending order and leaves the heap empty: no value is lost, duplicated or out of order, and
  no array access is out of range.\<close>

theorem heap_sorts:
  assumes "length xs \<le> NPROC"
  shows "\<exists>q q'. push_list xs init_heap = Some q \<and> pop_list (length xs) q = Some (sort xs, q')
    \<and> heap_count q' = 0"
proof -
  obtain q where q: "push_list xs init_heap = Some q" "heap_inv q" "heap_elems q = mset xs"
    using push_list_ok [OF heap_inv_init, of xs] assms by (auto simp: heap_elems_init)
  moreover obtain q' where "pop_list (length xs) q = Some (sort xs, q')" "heap_inv q'" "heap_elems q' = {#}"
    using pop_list_ok [OF q(2), of "length xs"] q(3) by (auto simp: sorted_list_of_multiset_mset)
  ultimately show ?thesis using heap_elems_empty_iff by blast
qed

theorem heap_sorts_witness:
  "\<exists>q q'. push_list [3, 1, 2] init_heap = Some q \<and> pop_list 3 q = Some ([1, 2, 3], q') \<and> heap_count q' = 0"
  using heap_sorts [of "[3, 1, 2]"] by (simp add: numeral_3_eq_3)
end
