(* ===== verification/Spinlock.thy ===== *)
theory Spinlock
  imports Prelude
begin

text \<open>
  Interrupt nesting and spin locks (\<open>src/xv6-public/spinlock.c\<close>, and \<open>mycpu\<close>, \<open>cpuid\<close>,
  \<open>myproc\<close> of \<open>proc.c\<close>). The state is seen from one CPU: its interrupt flag and its local
  APIC id are \<open>eflags_if\<close> and \<open>lapicid\<close>; \<open>cpus\<close> and \<open>locks\<close> are shared memory. The call-stack
  trace \<open>pcs\<close> that \<open>acquire\<close> stores for the debugger is not modelled.

  The lemmas at the end reduce a well-nested \<open>acquire\<close>/\<open>release\<close> to closed state transformers
  \<open>acq\<close> and \<open>rel\<close>, and show that a critical section gives the lock and the interrupt state
  back (\<open>rel_acq\<close>).
\<close>

section \<open>State\<close>

text \<open>Every spin lock of the kernel: the table locks, one per pipe, and the guard lock inside
  each sleep lock (of a buffer or an inode).\<close>

datatype sleepid = SBuf nat | SInode nat

datatype lockid =
    LPtable | LTicks | LKmem | LBcache | LLog | LIcache | LFtable | LCons
  | LPipe nat | LSleep sleepid

record spinlock =
  locked :: bool
  lcpu :: "nat option"

record cpu =
  apicid :: int
  ncli :: int
  intena :: bool
  cproc :: "nat option"

record lockst =
  cpus :: "cpu list"
  lapicid :: int
  eflags_if :: bool
  locks :: "lockid \<Rightarrow> spinlock"

section \<open>Operations\<close>

definition mycpu :: "(nat, 'a lockst_scheme) code" where
  "mycpu s =
     (if eflags_if s then Panic (''mycpu called with interrupts enabled'' @ [CHR 0x0A]) s
      else case first_idx (\<lambda>c. apicid c = lapicid s) (cpus s) of
             Some i \<Rightarrow> Ok i s
           | None \<Rightarrow> Panic (''unknown apicid'' @ [CHR 0x0A]) s)"

definition upd_cpu :: "nat \<Rightarrow> (cpu \<Rightarrow> cpu) \<Rightarrow> 'a lockst_scheme \<Rightarrow> 'a lockst_scheme" where
  "upd_cpu i f s = s\<lparr>cpus := (cpus s)[i := f (cpus s ! i)]\<rparr>"

definition upd_lock :: "lockid \<Rightarrow> (spinlock \<Rightarrow> spinlock) \<Rightarrow> 'a lockst_scheme \<Rightarrow> 'a lockst_scheme" where
  "upd_lock l f s = s\<lparr>locks := (locks s)(l := f (locks s l))\<rparr>"

definition pushcli :: "(unit, 'a lockst_scheme) code" where
  "pushcli =
     kbind (kget eflags_if) (\<lambda>eflags.
     kthen (kmod (\<lambda>s. s\<lparr>eflags_if := False\<rparr>)) (
     kbind mycpu (\<lambda>i.
     kbind (kget (\<lambda>s. ncli (cpus s ! i))) (\<lambda>n.
     kthen (kwhen (n = 0) (kmod (upd_cpu i (\<lambda>c. c\<lparr>intena := eflags\<rparr>)))) (
     kmod (upd_cpu i (\<lambda>c. c\<lparr>ncli := ncli c + 1\<rparr>)))))))"

definition popcli :: "(unit, 'a lockst_scheme) code" where
  "popcli =
     kbind (kget eflags_if) (\<lambda>eflags.
     if eflags then kpanic ''popcli - interruptible''
     else
       kbind mycpu (\<lambda>i.
       kthen (kmod (upd_cpu i (\<lambda>c. c\<lparr>ncli := ncli c - 1\<rparr>))) (
       kbind (kget (\<lambda>s. cpus s ! i)) (\<lambda>c.
       if ncli c < 0 then kpanic ''popcli''
       else kwhen (ncli c = 0 \<and> intena c) (kmod (\<lambda>s. s\<lparr>eflags_if := True\<rparr>))))))"

definition myproc :: "(nat option, 'a lockst_scheme) code" where
  "myproc =
     kthen pushcli (
     kbind mycpu (\<lambda>c.
     kbind (kget (\<lambda>s. cproc (cpus s ! c))) (\<lambda>p.
     kthen popcli (
     kreturn p))))"

definition initlock :: "lockid \<Rightarrow> (unit, 'a lockst_scheme) code" where
  "initlock l = kmod (upd_lock l (\<lambda>_. \<lparr>locked = False, lcpu = None\<rparr>))"

definition holding :: "lockid \<Rightarrow> (bool, 'a lockst_scheme) code" where
  "holding l =
     kthen pushcli (
     kbind mycpu (\<lambda>c.
     kbind (kget (\<lambda>s. locked (locks s l) \<and> lcpu (locks s l) = Some c)) (\<lambda>r.
     kthen popcli (
     kreturn r))))"

definition acquire :: "lockid \<Rightarrow> (unit, 'a lockst_scheme) code" where
  "acquire l =
     kthen pushcli (
     kbind (holding l) (\<lambda>h.
     if h then kpanic ''acquire''
     else
       kbind (kget (\<lambda>s. locked (locks s l))) (\<lambda>busy.
       if busy then Spin
       else
         kthen (kmod (upd_lock l (\<lambda>k. k\<lparr>locked := True\<rparr>))) (
         kbind mycpu (\<lambda>c.
         kmod (upd_lock l (\<lambda>k. k\<lparr>lcpu := Some c\<rparr>)))))))"

definition release :: "lockid \<Rightarrow> (unit, 'a lockst_scheme) code" where
  "release l =
     kbind (holding l) (\<lambda>h.
     if \<not> h then kpanic ''release''
     else
       kthen (kmod (upd_lock l (\<lambda>k. k\<lparr>lcpu := None\<rparr>))) (
       kthen (kmod (upd_lock l (\<lambda>k. k\<lparr>locked := False\<rparr>)))
       popcli))"

section \<open>Well-formed lock states and closed forms\<close>

definition me :: "'a lockst_scheme \<Rightarrow> nat" where
  "me s = (case first_idx (\<lambda>c. apicid c = lapicid s) (cpus s) of Some i \<Rightarrow> i | None \<Rightarrow> 0)"

definition my_ncli :: "'a lockst_scheme \<Rightarrow> int" where
  "my_ncli s = ncli (cpus s ! me s)"

definition curproc :: "'a lockst_scheme \<Rightarrow> nat option" where
  "curproc s = cproc (cpus s ! me s)"

text \<open>The CPU is registered, and interrupts are off whenever a \<open>pushcli\<close> is outstanding.\<close>

definition cpu_ok :: "'a lockst_scheme \<Rightarrow> bool" where
  "cpu_ok s \<longleftrightarrow> first_idx (\<lambda>c. apicid c = lapicid s) (cpus s) = Some (me s)
     \<and> 0 \<le> my_ncli s \<and> (eflags_if s \<longrightarrow> my_ncli s = 0)"

definition lock_free :: "lockid \<Rightarrow> 'a lockst_scheme \<Rightarrow> bool" where
  "lock_free l s \<longleftrightarrow> locks s l = \<lparr>locked = False, lcpu = None\<rparr>"

definition held :: "lockid \<Rightarrow> 'a lockst_scheme \<Rightarrow> bool" where
  "held l s \<longleftrightarrow> locks s l = \<lparr>locked = True, lcpu = Some (me s)\<rparr>"

text \<open>What a balanced \<open>pushcli\<close>/\<open>popcli\<close> pair leaves: at nesting depth 0 the saved interrupt
  flag is now the current one.\<close>

definition settle :: "'a lockst_scheme \<Rightarrow> 'a lockst_scheme" where
  "settle s = (if my_ncli s = 0 then upd_cpu (me s) (\<lambda>c. c\<lparr>intena := eflags_if s\<rparr>) s else s)"

definition push_st :: "'a lockst_scheme \<Rightarrow> 'a lockst_scheme" where
  "push_st s = (upd_cpu (me s) (\<lambda>c. c\<lparr>ncli := ncli c + 1\<rparr>) (settle s))\<lparr>eflags_if := False\<rparr>"

definition pop_st :: "'a lockst_scheme \<Rightarrow> 'a lockst_scheme" where
  "pop_st s = (upd_cpu (me s) (\<lambda>c. c\<lparr>ncli := ncli c - 1\<rparr>) s)
     \<lparr>eflags_if := (my_ncli s = 1 \<and> intena (cpus s ! me s))\<rparr>"

definition acq :: "lockid \<Rightarrow> 'a lockst_scheme \<Rightarrow> 'a lockst_scheme" where
  "acq l s = upd_lock l (\<lambda>_. \<lparr>locked = True, lcpu = Some (me s)\<rparr>) (push_st s)"

definition rel :: "lockid \<Rightarrow> 'a lockst_scheme \<Rightarrow> 'a lockst_scheme" where
  "rel l s = pop_st (upd_lock l (\<lambda>_. \<lparr>locked = False, lcpu = None\<rparr>) s)"

section \<open>The lock discipline\<close>

lemma cpu_ok_me: "cpu_ok s \<Longrightarrow> me s < length (cpus s)"
  unfolding cpu_ok_def using first_idx_SomeD by blast

lemma first_idx_apic_update:
  assumes "apicid (f (cs ! i)) = apicid (cs ! i)"
  shows "first_idx (\<lambda>c. apicid c = a) (cs[i := f (cs ! i)]) = first_idx (\<lambda>c. apicid c = a) cs"
proof -
  have "map apicid (cs[i := f (cs ! i)]) = map apicid cs"
    using assms by (cases "i < length cs") (simp_all add: map_update list_update_same_conv list_update_beyond)
  moreover have "first_idx (\<lambda>c. apicid c = a) xs = first_from 0 (\<lambda>x. x = a) (map apicid xs)" for xs
  proof -
    have "first_from k (\<lambda>c. apicid c = a) xs = first_from k (\<lambda>x. x = a) (map apicid xs)" for k
      by (induction xs arbitrary: k) auto
    then show ?thesis by (simp add: first_idx_def)
  qed
  ultimately show ?thesis by metis
qed

lemma first_idx_upd_cpu:
  assumes "\<And>c. apicid (f c) = apicid c"
  shows "first_idx (\<lambda>c. apicid c = a) (cpus (upd_cpu i f s)) = first_idx (\<lambda>c. apicid c = a) (cpus s)"
  using first_idx_apic_update [of f "cpus s" i a] assms by (simp add: upd_cpu_def)

lemma upd_cpu_fields [simp]:
  "lapicid (upd_cpu i f s) = lapicid s" "eflags_if (upd_cpu i f s) = eflags_if s"
  "locks (upd_cpu i f s) = locks s" "length (cpus (upd_cpu i f s)) = length (cpus s)"
  by (simp_all add: upd_cpu_def)

lemma me_upd_cpu: "(\<And>c. apicid (f c) = apicid c) \<Longrightarrow> me (upd_cpu i f s) = me s"
  by (simp add: me_def first_idx_upd_cpu)

lemma spinlock_eq: "(k :: spinlock)\<lparr>lcpu := a, locked := b\<rparr> = \<lparr>locked = b, lcpu = a\<rparr>"
  "(k :: spinlock)\<lparr>locked := b, lcpu := a\<rparr> = \<lparr>locked = b, lcpu = a\<rparr>"
  by (cases k; simp)+

lemma upd_lock_fields [simp]:
  "cpus (upd_lock l f s) = cpus s" "lapicid (upd_lock l f s) = lapicid s"
  "eflags_if (upd_lock l f s) = eflags_if s"
  by (simp_all add: upd_lock_def)

lemma me_cong:
  "cpus t = cpus s \<Longrightarrow> lapicid t = lapicid s \<Longrightarrow> me t = me s"
  by (simp add: me_def)

lemma me_locks [simp]: "me (locks_update g s) = me s" "me (eflags_if_update g' s) = me s"
  "me (upd_lock l f s) = me s"
  by (simp_all add: me_def)

lemma me_ncli_update [simp]:
  "me (upd_cpu i (\<lambda>c. c\<lparr>ncli := g c\<rparr>) s) = me s" "me (upd_cpu i (\<lambda>c. c\<lparr>intena := b\<rparr>) s) = me s"
  by (simp_all add: me_upd_cpu)

lemma settle_fields [simp]:
  "me (settle s) = me s" "lapicid (settle s) = lapicid s" "eflags_if (settle s) = eflags_if s"
  "locks (settle s) = locks s" "length (cpus (settle s)) = length (cpus s)"
  by (simp_all add: settle_def)

lemma push_st_fields [simp]:
  "me (push_st s) = me s" "lapicid (push_st s) = lapicid s" "eflags_if (push_st s) = False"
  "locks (push_st s) = locks s" "length (cpus (push_st s)) = length (cpus s)"
  by (simp_all add: push_st_def)

lemma nth_upd_cpu: "i < length (cpus s) \<Longrightarrow> cpus (upd_cpu i f s) ! i = f (cpus s ! i)"
  by (simp add: upd_cpu_def)

lemma my_ncli_settle [simp]: "me s < length (cpus s) \<Longrightarrow> my_ncli (settle s) = my_ncli s"
  by (simp add: settle_def my_ncli_def nth_upd_cpu)

lemma my_ncli_push_st [simp]: "me s < length (cpus s) \<Longrightarrow> my_ncli (push_st s) = my_ncli s + 1"
proof -
  assume "me s < length (cpus s)"
  then have "ncli (cpus (settle s) ! me s) = ncli (cpus s ! me s)"
    using my_ncli_settle [of s] by (simp add: my_ncli_def)
  with \<open>me s < length (cpus s)\<close> show ?thesis
    by (simp add: push_st_def my_ncli_def nth_upd_cpu)
qed

lemma cpu_ok_settle [simp]: "cpu_ok s \<Longrightarrow> cpu_ok (settle s)"
  using cpu_ok_me [of s] by (auto simp: cpu_ok_def settle_def first_idx_upd_cpu)
     (simp add: my_ncli_def nth_upd_cpu)+

lemma first_idx_settle:
  "first_idx (\<lambda>c. apicid c = a) (cpus (settle s)) = first_idx (\<lambda>c. apicid c = a) (cpus s)"
  by (simp add: settle_def first_idx_upd_cpu)

lemma first_idx_push_st:
  "first_idx (\<lambda>c. apicid c = a) (cpus (push_st s)) = first_idx (\<lambda>c. apicid c = a) (cpus s)"
  by (simp add: push_st_def first_idx_upd_cpu first_idx_settle)

lemma cpu_ok_push_st [simp]: "cpu_ok s \<Longrightarrow> cpu_ok (push_st s)"
  using cpu_ok_me [of s] by (simp add: cpu_ok_def first_idx_push_st)

lemma mycpu_ok: "cpu_ok s \<Longrightarrow> \<not> eflags_if s \<Longrightarrow> mycpu s = Ok (me s) s"
  by (simp add: mycpu_def cpu_ok_def)

lemma pushcli_ok:
  assumes "cpu_ok s"
  shows "pushcli s = Ok () (push_st s)"
proof -
  have m: "mycpu (s\<lparr>eflags_if := False\<rparr>) = Ok (me s) (s\<lparr>eflags_if := False\<rparr>)"
    using assms by (simp add: mycpu_def cpu_ok_def)
  show ?thesis
    by (simp add: pushcli_def kdefs m push_st_def settle_def my_ncli_def)
      (simp add: upd_cpu_def)
qed

lemma popcli_ok:
  assumes "cpu_ok s" "0 < my_ncli s"
  shows "popcli s = Ok () (pop_st s)"
proof -
  have e: "\<not> eflags_if s" using assms by (auto simp: cpu_ok_def)
  note m = mycpu_ok [OF assms(1) e] and l = cpu_ok_me [OF assms(1)]
  show ?thesis
    using assms(2) e l
    by (auto simp: popcli_def kdefs m pop_st_def nth_upd_cpu my_ncli_def kwhen_def)
qed

lemma pop_push_st:
  assumes "cpu_ok s"
  shows "pop_st (push_st s) = settle s"
proof -
  note l = cpu_ok_me [OF assms]
  have c: "cpus (push_st s) ! me s = (cpus (settle s) ! me s)\<lparr>ncli := my_ncli s + 1\<rparr>"
    using l my_ncli_settle [OF l] by (simp add: push_st_def nth_upd_cpu my_ncli_def)
  have i: "my_ncli s = 0 \<Longrightarrow> intena (cpus (settle s) ! me s) = eflags_if s"
    using l by (simp add: settle_def nth_upd_cpu)
  have n: "ncli (cpus (settle s) ! me s) = my_ncli s"
    using my_ncli_settle [OF l] by (simp add: my_ncli_def)
  have e: "(my_ncli s = 0 \<and> intena (cpus (settle s) ! me s)) = eflags_if s"
    using i assms by (auto simp: cpu_ok_def)
  have "pop_st (push_st s) =
      (upd_cpu (me s) (\<lambda>c. c\<lparr>ncli := ncli c - 1\<rparr>)
        (upd_cpu (me s) (\<lambda>c. c\<lparr>ncli := ncli c + 1\<rparr>) (settle s)))\<lparr>eflags_if := eflags_if s\<rparr>"
    using l c e by (simp add: pop_st_def) (simp add: push_st_def upd_cpu_def)
  also have "\<dots> = (settle s)\<lparr>eflags_if := eflags_if s\<rparr>"
    using l by (simp add: upd_cpu_def)
  also have "\<dots> = settle s"
    by (simp add: settle_def upd_cpu_def)
  finally show ?thesis .
qed

lemma push_pop_query:
  assumes "cpu_ok s"
  shows "kthen pushcli (kbind mycpu (\<lambda>c. kbind (kget (f c)) (\<lambda>p. kthen popcli (kreturn p)))) s
    = Ok (f (me s) (push_st s)) (settle s)"
proof -
  have "mycpu (push_st s) = Ok (me s) (push_st s)"
    using mycpu_ok [of "push_st s"] assms by simp
  moreover have "popcli (push_st s) = Ok () (settle s)"
  proof -
    have "0 < my_ncli (push_st s)" using assms cpu_ok_me [OF assms] by (simp add: cpu_ok_def)
    then show ?thesis using popcli_ok [of "push_st s"] assms by (simp add: pop_push_st)
  qed
  ultimately show ?thesis
    by (simp add: pushcli_ok [OF assms] kdefs)
qed

lemma myproc_ok: "cpu_ok s \<Longrightarrow> myproc s = Ok (curproc s) (settle s)"
proof -
  assume s: "cpu_ok s"
  have "cproc (cpus (push_st s) ! me s) = cproc (cpus s ! me s)"
    using cpu_ok_me [OF s] by (simp add: push_st_def settle_def nth_upd_cpu)
  then show ?thesis
    unfolding myproc_def by (simp add: push_pop_query [OF s] curproc_def)
qed

lemma holding_ok:
  "cpu_ok s \<Longrightarrow> holding l s = Ok (locked (locks s l) \<and> lcpu (locks s l) = Some (me s)) (settle s)"
  unfolding holding_def by (simp add: push_pop_query)

lemma settle_id: "0 < my_ncli s \<Longrightarrow> settle s = s"
  by (simp add: settle_def)

lemma acquire_ok:
  assumes "cpu_ok s" "lock_free l s"
  shows "acquire l s = Ok () (acq l s)"
proof -
  let ?s = "push_st s"
  have n: "0 < my_ncli ?s" using assms(1) cpu_ok_me [OF assms(1)] by (simp add: cpu_ok_def)
  have h: "holding l ?s = Ok False ?s"
    using assms by (simp add: holding_ok settle_id [OF n] lock_free_def)
  have m: "mycpu (upd_lock l f ?s) = Ok (me s) (upd_lock l f ?s)" for f
    using assms(1) by (simp add: mycpu_def cpu_ok_def first_idx_push_st)
  show ?thesis
    using assms(2)
    by (simp add: acquire_def pushcli_ok [OF assms(1)] h kdefs
        m lock_free_def acq_def) (simp add: upd_lock_def)
qed

lemma acquire_twice:
  assumes "cpu_ok s" "held l s"
  shows "\<exists>t. acquire l s = Panic ''acquire'' t"
proof -
  have "cpu_ok (push_st s)" using assms by simp
  then have "holding l (push_st s) = Ok True (settle (push_st s))"
    using assms(2) by (simp add: holding_ok held_def)
  then show ?thesis
    by (simp add: acquire_def pushcli_ok [OF assms(1)] kdefs)
qed

lemma release_ok:
  assumes "cpu_ok s" "held l s" "0 < my_ncli s"
  shows "release l s = Ok () (rel l s)"
proof -
  have h: "holding l s = Ok True s"
    using assms by (simp add: holding_ok settle_id held_def)
  let ?t = "upd_lock l (\<lambda>_. \<lparr>locked = False, lcpu = None\<rparr>) s"
  have t: "cpu_ok ?t" "0 < my_ncli ?t" using assms by (simp_all add: cpu_ok_def my_ncli_def)
  have "upd_lock l (\<lambda>k. k\<lparr>locked := False\<rparr>) (upd_lock l (\<lambda>k. k\<lparr>lcpu := None\<rparr>) s) = ?t"
    by (simp add: upd_lock_def spinlock_eq)
  then show ?thesis
    by (simp add: release_def h kdefs popcli_ok [OF t] rel_def)
qed

lemma release_not_held:
  assumes "cpu_ok s" "lock_free l s"
  shows "\<exists>t. release l s = Panic ''release'' t"
  using assms by (simp add: release_def holding_ok lock_free_def kdefs)

section \<open>A critical section gives everything back\<close>

lemma acq_props:
  assumes "cpu_ok s"
  shows "cpu_ok (acq l s)" "held l (acq l s)" "0 < my_ncli (acq l s)" "me (acq l s) = me s"
    "my_ncli (acq l s) = my_ncli s + 1" "\<not> eflags_if (acq l s)"
proof -
  have m: "my_ncli (acq l s) = my_ncli (push_st s)" by (simp add: acq_def my_ncli_def)
  show "my_ncli (acq l s) = my_ncli s + 1" using m cpu_ok_me [OF assms] by simp
  then show "0 < my_ncli (acq l s)" using assms by (simp add: cpu_ok_def)
  show "me (acq l s) = me s" by (simp add: acq_def)
  then show "held l (acq l s)" by (simp add: held_def) (simp add: acq_def upd_lock_def)
  show "\<not> eflags_if (acq l s)" by (simp add: acq_def)
  have "cpu_ok (push_st s)" using assms by simp
  then show "cpu_ok (acq l s)" using m by (simp add: cpu_ok_def acq_def)
qed

lemma rel_acq:
  assumes "cpu_ok s" "lock_free l s"
  shows "rel l (acq l s) = settle s"
proof -
  let ?f = "\<lambda>_. \<lparr>locked = False, lcpu = None\<rparr>"
  have "upd_lock l ?f (acq l s) = push_st s"
    using assms(2) by (simp add: acq_def) (simp add: upd_lock_def lock_free_def fun_upd_idem)
  then show ?thesis using pop_push_st [OF assms(1)] by (simp add: rel_def)
qed

end
