(* ===== verification/ProcTable.thy ===== *)
theory ProcTable
  imports StrideHeap Spinlock
begin

text \<open>
  The process table (\<open>src/xv6-public/proc.h\<close>, \<open>proc.c\<close>) and the operations that only touch it:
  \<open>sched\<close>, \<open>yield\<close>, \<open>sleep\<close>, \<open>wakeup\<close>, \<open>kill\<close>, \<open>cleanup_lwp\<close>, and the address-space switch
  of \<open>vm.c\<close> that \<open>scheduler\<close> needs. A \<open>struct proc *\<close> is an index into the table, a null
  pointer is \<open>None\<close>. Creation and exit of processes are in the theories above the file and
  memory layers.
\<close>

section \<open>State\<close>

datatype procstate = UNUSED | EMBRYO | SLEEPING | RUNNABLE | RUNNING | ZOMBIE

text \<open>What a process can sleep on: in the source an address, here the object at that address.
  \<open>CUser\<close> is an address of user memory (a condition variable).\<close>

datatype chan =
    CProc nat | CTicks | CLog | CPipeRead nat | CPipeWrite nat | CSleepLock sleepid
  | CInput | CUser uint

record trapframe =
  tf_edi :: uint
  tf_esi :: uint
  tf_ebp :: uint
  tf_ebx :: uint
  tf_edx :: uint
  tf_ecx :: uint
  tf_eax :: uint
  tf_es :: uint
  tf_ds :: uint
  tf_trapno :: uint
  tf_err :: uint
  tf_eip :: uint
  tf_cs :: uint
  tf_eflags :: uint
  tf_esp :: uint
  tf_ss :: uint

text \<open>Where a process resumes when it is switched to: in \<open>forkret\<close> the first time, in \<open>sched\<close>
  (the continuation of its \<open>Switch\<close>) afterwards.\<close>

datatype kcontext = CtxNone | CtxForkret

record proc =
  p_sz :: uint
  p_pgdir :: uint
  p_kstack :: uint
  p_state :: procstate
  p_pid :: int
  p_parent :: "nat option"
  p_tf :: trapframe
  p_context :: kcontext
  p_chan :: "chan option"
  p_killed :: bool
  p_ofile :: "nat option list"
  p_cwd :: "nat option"
  p_name :: "uchar list"
  p_level :: int
  p_ticks :: int
  p_runtime :: int
  p_pass_value :: int
  p_stride :: int
  p_portion :: int
  p_tid :: int
  p_manager :: "nat option"
  p_nexttid :: int
  p_stack :: "uint list"
  p_stack_count :: int
  p_retval :: uint

record ptab =
  procs :: "proc list"
  nextpid :: int
  initproc :: "nat option"
  pheap :: sheap
  stride_tickets :: int
  kpgdir :: uint
  cr3 :: uint
  esp0 :: uint

record pstate = lockst +
  pt :: ptab

text \<open>Static memory starts out zero.\<close>

definition zero_tf :: trapframe where
  "zero_tf = \<lparr>tf_edi = 0, tf_esi = 0, tf_ebp = 0, tf_ebx = 0, tf_edx = 0, tf_ecx = 0, tf_eax = 0,
     tf_es = 0, tf_ds = 0, tf_trapno = 0, tf_err = 0, tf_eip = 0, tf_cs = 0, tf_eflags = 0,
     tf_esp = 0, tf_ss = 0\<rparr>"

definition zero_proc :: proc where
  "zero_proc = \<lparr>p_sz = 0, p_pgdir = 0, p_kstack = 0, p_state = UNUSED, p_pid = 0, p_parent = None,
     p_tf = zero_tf, p_context = CtxNone, p_chan = None, p_killed = False,
     p_ofile = replicate 16 None, p_cwd = None, p_name = replicate 16 0, p_level = 0, p_ticks = 0,
     p_runtime = 0, p_pass_value = 0, p_stride = 0, p_portion = 0, p_tid = 0, p_manager = None,
     p_nexttid = 0, p_stack = replicate NPROC 0, p_stack_count = 0, p_retval = 0\<rparr>"

definition init_ptab :: ptab where
  "init_ptab = \<lparr>procs = replicate NPROC zero_proc, nextpid = 1, initproc = None,
     pheap = init_heap, stride_tickets = 0, kpgdir = 0, cr3 = 0, esp0 = 0\<rparr>"

text \<open>A machine with one CPU, no lock held, running \<open>p\<close>: the setting of the examples.\<close>

definition one_cpu :: "nat option \<Rightarrow> ptab \<Rightarrow> pstate" where
  "one_cpu p t = \<lparr>cpus = [\<lparr>apicid = 0, ncli = 0, intena = False, cproc = p\<rparr>], lapicid = 0,
     eflags_if = False, locks = (\<lambda>_. \<lparr>locked = False, lcpu = None\<rparr>), pt = t\<rparr>"

definition upd_pt :: "(ptab \<Rightarrow> ptab) \<Rightarrow> 'a pstate_scheme \<Rightarrow> 'a pstate_scheme" where
  "upd_pt f s = s\<lparr>pt := f (pt s)\<rparr>"

definition set_proc :: "nat \<Rightarrow> (proc \<Rightarrow> proc) \<Rightarrow> ptab \<Rightarrow> ptab" where
  "set_proc i f t = t\<lparr>procs := (procs t)[i := f (procs t ! i)]\<rparr>"

definition upd_proc :: "nat \<Rightarrow> (proc \<Rightarrow> proc) \<Rightarrow> (unit, 'a pstate_scheme) code" where
  "upd_proc i f = kmod (upd_pt (set_proc i f))"

definition get_proc :: "nat \<Rightarrow> (proc \<Rightarrow> 'b) \<Rightarrow> ('b, 'a pstate_scheme) code" where
  "get_proc i f = kget (\<lambda>s. f (procs (pt s) ! i))"

text \<open>\<open>myproc()->\<close>: dereferencing a null result is undefined.\<close>

definition my :: "(nat, 'a pstate_scheme) code" where
  "my = kbind myproc (\<lambda>p. case p of Some i \<Rightarrow> kreturn i | None \<Rightarrow> kfault ''myproc() == 0'')"

section \<open>Switching\<close>

definition swtch :: "(unit, 's) code" where
  "swtch s = Switch s (Ok ())"

definition sched :: "(unit, 'a pstate_scheme) code" where
  "sched =
     kbind my (\<lambda>p.
     kbind (holding LPtable) (\<lambda>h.
     if \<not> h then kpanic ''sched ptable.lock''
     else
       kbind mycpu (\<lambda>c.
       kbind (kget (\<lambda>s. ncli (cpus s ! c))) (\<lambda>n.
       if n \<noteq> 1 then kpanic ''sched locks''
       else
         kbind (get_proc p p_state) (\<lambda>st.
         if st = RUNNING then kpanic ''sched running''
         else
           kbind (kget eflags_if) (\<lambda>e.
           if e then kpanic ''sched interruptible''
           else
             kbind mycpu (\<lambda>c.
             kbind (kget (\<lambda>s. intena (cpus s ! c))) (\<lambda>ien.
             kthen swtch (
             kbind mycpu (\<lambda>c'.
             kmod (upd_cpu c' (\<lambda>k. k\<lparr>intena := ien\<rparr>))))))))))))"

definition yield :: "(unit, 'a pstate_scheme) code" where
  "yield =
     kthen (acquire LPtable) (
     kbind my (\<lambda>p.
     kthen (upd_proc p (\<lambda>q. q\<lparr>p_state := RUNNABLE\<rparr>)) (
     kthen sched (
     release LPtable))))"

definition sleep :: "chan \<Rightarrow> lockid option \<Rightarrow> (unit, 'a pstate_scheme) code" where
  "sleep chan lk =
     kbind myproc (\<lambda>mp.
     case mp of
       None \<Rightarrow> kpanic ''sleep''
     | Some p \<Rightarrow>
       (case lk of
          None \<Rightarrow> kpanic ''sleep without lk''
        | Some l \<Rightarrow>
          kthen (kwhen (l \<noteq> LPtable) (kthen (acquire LPtable) (release l))) (
          kthen (upd_proc p (\<lambda>q. q\<lparr>p_chan := Some chan\<rparr>)) (
          kthen (upd_proc p (\<lambda>q. q\<lparr>p_state := SLEEPING\<rparr>)) (
          kthen sched (
          kthen (upd_proc p (\<lambda>q. q\<lparr>p_chan := None\<rparr>)) (
          kwhen (l \<noteq> LPtable) (kthen (release LPtable) (acquire l)))))))))"

definition wake :: "chan \<Rightarrow> proc \<Rightarrow> proc" where
  "wake chan p =
     (if p_state p = SLEEPING \<and> p_chan p = Some chan then p\<lparr>p_state := RUNNABLE\<rparr> else p)"

definition wakeup1 :: "chan \<Rightarrow> (unit, 'a pstate_scheme) code" where
  "wakeup1 chan = kmod (upd_pt (\<lambda>t. t\<lparr>procs := map (wake chan) (procs t)\<rparr>))"

definition wakeup :: "chan \<Rightarrow> (unit, 'a pstate_scheme) code" where
  "wakeup chan =
     kthen (acquire LPtable) (
     kthen (wakeup1 chan) (
     release LPtable))"

definition kill_proc :: "proc \<Rightarrow> proc" where
  "kill_proc p =
     (let p' = p\<lparr>p_killed := True\<rparr>
      in if p_state p' = SLEEPING then p'\<lparr>p_state := RUNNABLE\<rparr> else p')"

definition kill :: "int \<Rightarrow> (int, 'a pstate_scheme) code" where
  "kill pid =
     kthen (acquire LPtable) (
     kbind (kget (\<lambda>s. first_idx (\<lambda>p. p_pid p = pid) (procs (pt s)))) (\<lambda>f.
     case f of
       Some i \<Rightarrow> kthen (upd_proc i kill_proc) (kthen (release LPtable) (kreturn 0))
     | None \<Rightarrow> kthen (release LPtable) (kreturn (-1))))"

text \<open>\<open>cleanup_lwp(mgr, lwp)\<close>: mark every live thread of \<open>mgr\<close> but \<open>lwp\<close> as killed.\<close>

definition cleanup1 :: "nat option \<Rightarrow> nat option \<Rightarrow> nat \<Rightarrow> proc \<Rightarrow> proc" where
  "cleanup1 mgr lwp i p =
     (if Some i \<noteq> lwp \<and> p_manager p = mgr \<and> p_state p \<noteq> ZOMBIE then kill_proc p else p)"

definition cleanup_lwp :: "nat option \<Rightarrow> nat option \<Rightarrow> (unit, 'a pstate_scheme) code" where
  "cleanup_lwp mgr lwp =
     kthen (acquire LPtable) (
     kthen (kmod (upd_pt (\<lambda>t. t\<lparr>procs := map2 (cleanup1 mgr lwp) [0..<length (procs t)] (procs t)\<rparr>))) (
     release LPtable))"

text \<open>\<open>switchuvm\<close> and \<open>switchkvm\<close> of \<open>vm.c\<close>: the page-table register and the kernel stack the
  hardware takes on the next trap. \<open>KERNBASE\<close> is \<open>0x80000000\<close>, \<open>KSTACKSIZE\<close> is 4096.\<close>

definition V2P :: "uint \<Rightarrow> uint" where
  "V2P a = a - 0x80000000"

definition P2V :: "uint \<Rightarrow> uint" where
  "P2V a = a + 0x80000000"

definition switchkvm :: "(unit, 'a pstate_scheme) code" where
  "switchkvm = kmod (upd_pt (\<lambda>t. t\<lparr>cr3 := V2P (kpgdir t)\<rparr>))"

definition switchuvm :: "nat option \<Rightarrow> (unit, 'a pstate_scheme) code" where
  "switchuvm mp =
     (case mp of
        None \<Rightarrow> kpanic ''switchuvm: no process''
      | Some p \<Rightarrow>
        kbind (get_proc p id) (\<lambda>q.
        if p_kstack q = 0 then kpanic ''switchuvm: no kstack''
        else if p_pgdir q = 0 then kpanic ''switchuvm: no pgdir''
        else
          kthen pushcli (
          kthen (kmod (upd_pt (\<lambda>t. t\<lparr>esp0 := p_kstack q + 4096\<rparr>))) (
          kthen (kmod (upd_pt (\<lambda>t. t\<lparr>cr3 := V2P (p_pgdir q)\<rparr>)))
          popcli))))"

section \<open>The table and the locks are independent\<close>

lemma upd_pt_lock [simp]:
  "cpus (upd_pt f s) = cpus s" "lapicid (upd_pt f s) = lapicid s"
  "eflags_if (upd_pt f s) = eflags_if s" "locks (upd_pt f s) = locks s"
  "pt (upd_pt f s) = f (pt s)"
  by (simp_all add: upd_pt_def)

lemma lock_pt [simp]:
  "pt (upd_cpu i g s) = pt s" "pt (upd_lock l h s) = pt s" "pt (eflags_if_update e s) = pt s"
  by (simp_all add: upd_cpu_def upd_lock_def)

lemma lock_st_pt [simp]:
  "pt (settle s) = pt s" "pt (push_st s) = pt s" "pt (pop_st s) = pt s"
  "pt (acq l s) = pt s" "pt (rel l s) = pt s"
  by (simp_all add: settle_def push_st_def pop_st_def acq_def rel_def)

lemma upd_pt_preds [simp]:
  "me (upd_pt f s) = me s" "my_ncli (upd_pt f s) = my_ncli s" "curproc (upd_pt f s) = curproc s"
  "cpu_ok (upd_pt f s) = cpu_ok s" "lock_free l (upd_pt f s) = lock_free l s"
  "held l (upd_pt f s) = held l s"
  by (simp_all add: me_def my_ncli_def curproc_def cpu_ok_def lock_free_def held_def)

lemma upd_pt_comm [simp]:
  "settle (upd_pt f s) = upd_pt f (settle s)"
  "push_st (upd_pt f s) = upd_pt f (push_st s)"
  "pop_st (upd_pt f s) = upd_pt f (pop_st s)"
  "rel l (upd_pt f s) = upd_pt f (rel l s)"
  "acq l (upd_pt f s) = upd_pt f (acq l s)"
proof -
  show a: "settle (upd_pt f s) = upd_pt f (settle s)" for s :: "'a pstate_scheme"
    unfolding settle_def by (simp add: me_def upd_cpu_def upd_pt_def my_ncli_def)
  show b: "push_st (upd_pt f s) = upd_pt f (push_st s)"
    unfolding push_st_def a by (simp add: upd_cpu_def upd_pt_def me_def)
  show c: "pop_st (upd_pt f s) = upd_pt f (pop_st s)" for s :: "'a pstate_scheme"
    unfolding pop_st_def by (simp add: me_def upd_cpu_def upd_pt_def my_ncli_def)
  have l: "upd_lock l h (upd_pt f s) = upd_pt f (upd_lock l h s)" for h and s :: "'a pstate_scheme"
    by (simp add: upd_lock_def upd_pt_def)
  show "rel l (upd_pt f s) = upd_pt f (rel l s)" unfolding rel_def l c ..
  show "acq l (upd_pt f s) = upd_pt f (acq l s)" unfolding acq_def b
    by (simp add: l)
qed

lemma upd_pt_upd_pt [simp]: "upd_pt f (upd_pt g s) = upd_pt (f \<circ> g) s"
  by (simp add: upd_pt_def)

lemma upd_pt_id [simp]: "upd_pt (\<lambda>_. pt s) s = s"
  by (simp add: upd_pt_def)

lemma set_proc_procs [simp]:
  "procs (set_proc m f t) = (procs t)[m := f (procs t ! m)]"
  "pheap (set_proc m f t) = pheap t" "stride_tickets (set_proc m f t) = stride_tickets t"
  "nextpid (set_proc m f t) = nextpid t" "initproc (set_proc m f t) = initproc t"
  by (simp_all add: set_proc_def)

lemma set_proc_set_proc [simp]: "set_proc p g (set_proc p f t) = set_proc p (\<lambda>r. g (f r)) t"
  by (cases "p < length (procs t)") (simp_all add: set_proc_def list_update_beyond)

lemma set_proc_fields [simp]:
  "set_proc p f (t\<lparr>stride_tickets := x\<rparr>) = (set_proc p f t)\<lparr>stride_tickets := x\<rparr>"
  "set_proc p f (t\<lparr>pheap := q\<rparr>) = (set_proc p f t)\<lparr>pheap := q\<rparr>"
  by (simp_all add: set_proc_def)

lemma set_proc_same: "p < length (procs t) \<Longrightarrow> f (procs t ! p) = procs t ! p \<Longrightarrow> set_proc p f t = t"
  by (simp add: set_proc_def)

lemma upd_cpu_upd_pt: "upd_cpu c g (upd_pt f s) = upd_pt f (upd_cpu c g s)"
  by (simp add: upd_cpu_def upd_pt_def)

lemma settle_settle [simp]:
  assumes "cpu_ok s"
  shows "settle (settle s) = settle s"
  using cpu_ok_me [OF assms]
  by (cases "my_ncli s = 0") (simp_all add: settle_def upd_cpu_def my_ncli_def me_upd_cpu [unfolded upd_cpu_def])

lemma curproc_settle [simp]: "cpu_ok s \<Longrightarrow> curproc (settle s) = curproc s"
  using cpu_ok_me [of s] by (simp add: curproc_def settle_def nth_upd_cpu)

lemma curproc_acq [simp]: "cpu_ok s \<Longrightarrow> curproc (acq l s) = curproc s"
  using cpu_ok_me [of s]
  by (simp add: curproc_def acq_def) (simp add: push_st_def settle_def nth_upd_cpu)

lemma lock_free_settle [simp]: "lock_free l (settle s) = lock_free l s"
  by (simp add: lock_free_def)

lemma settle_acq [simp]: "cpu_ok s \<Longrightarrow> settle (acq l s) = acq l s"
  by (rule settle_id) (rule acq_props)

text \<open>A critical section whose body transforms the process table.\<close>

lemma acquire_run: "cpu_ok s \<Longrightarrow> lock_free l s \<Longrightarrow> acquire l s = Ok () (acq l s)"
  by (rule acquire_ok)

lemma release_run:
  assumes "cpu_ok s" "lock_free l s"
  shows "release l (upd_pt f (acq l s)) = Ok () (upd_pt f (settle s))"
    and "release l (acq l s) = Ok () (settle s)"
proof -
  have a: "cpu_ok (acq l s)" "held l (acq l s)" "0 < my_ncli (acq l s)"
    using acq_props [OF assms(1)] by blast+
  have "release l (upd_pt f (acq l s)) = Ok () (rel l (upd_pt f (acq l s)))"
    using a by (intro release_ok) simp_all
  then show "release l (upd_pt f (acq l s)) = Ok () (upd_pt f (settle s))"
    by (simp add: rel_acq [OF assms])
  show "release l (acq l s) = Ok () (settle s)"
    using release_ok [OF a] by (simp add: rel_acq [OF assms])
qed

lemmas lock_run = acquire_run release_run

lemma my_ok: "cpu_ok s \<Longrightarrow> curproc s = Some p \<Longrightarrow> my s = Ok p (settle s)"
  by (simp add: my_def kdefs myproc_ok)

lemma my_acq: "cpu_ok s \<Longrightarrow> curproc s = Some p \<Longrightarrow> my (acq l s) = Ok p (acq l s)"
  using my_ok [of "acq l s" p] acq_props [of s l] by simp

section \<open>Switching away\<close>

lemma sched_ok:
  assumes "cpu_ok s" "curproc s = Some p" "held LPtable s" "my_ncli s = 1"
    and "p_state (procs (pt s) ! p) \<noteq> RUNNING"
  shows "sched s = Switch s (kbind mycpu (\<lambda>c. kmod (upd_cpu c (\<lambda>k. k\<lparr>intena := intena (cpus s ! me s)\<rparr>))))"
proof -
  have e: "\<not> eflags_if s" using assms by (auto simp: cpu_ok_def)
  have st: "settle s = s" using assms(4) by (simp add: settle_id)
  have "my s = Ok p s" using my_ok [OF assms(1,2)] st by simp
  moreover have "holding LPtable s = Ok True s"
    using assms(3) by (simp add: holding_ok [OF assms(1)] st held_def)
  moreover have "mycpu s = Ok (me s) s" by (rule mycpu_ok [OF assms(1) e])
  moreover have "ncli (cpus s ! me s) = 1" using assms(4) by (simp add: my_ncli_def)
  ultimately show ?thesis
    using assms(5) e by (simp add: sched_def get_proc_def swtch_def kdefs kbind_def [abs_def])
qed

text \<open>Coming back from \<open>swtch\<close>: the scheduler hands over the table lock.\<close>

definition resumed :: "nat \<Rightarrow> 'a pstate_scheme \<Rightarrow> bool" where
  "resumed p u \<longleftrightarrow> cpu_ok u \<and> held LPtable u \<and> my_ncli u = 1 \<and> curproc u = Some p"

definition resume_st :: "bool \<Rightarrow> 'a pstate_scheme \<Rightarrow> 'a pstate_scheme" where
  "resume_st ien u = rel LPtable (upd_cpu (me u) (\<lambda>k. k\<lparr>intena := ien\<rparr>) u)"

lemma resume_ok:
  assumes "resumed p u"
  shows "bind_outcome (kbind mycpu (\<lambda>c. kmod (upd_cpu c (\<lambda>k. k\<lparr>intena := ien\<rparr>))) u) (\<lambda>_. release LPtable)
    = Ok () (resume_st ien u)"
proof -
  let ?u = "upd_cpu (me u) (\<lambda>k. k\<lparr>intena := ien\<rparr>) u"
  have u: "cpu_ok u" "held LPtable u" "my_ncli u = 1" using assms by (auto simp: resumed_def)
  note l = cpu_ok_me [OF u(1)]
  have n: "my_ncli ?u = 1" using u(3) l by (simp add: my_ncli_def nth_upd_cpu)
  have "\<not> eflags_if u" using u by (auto simp: cpu_ok_def)
  moreover have "cpu_ok ?u"
    using u(1) n calculation by (simp add: cpu_ok_def first_idx_upd_cpu)
  moreover have "held LPtable ?u" using u(2) by (simp add: held_def)
  ultimately show ?thesis
    using n mycpu_ok [OF u(1)] release_ok [of ?u LPtable] by (simp add: kdefs resume_st_def)
qed

lemma resume_st_pt [simp]: "pt (resume_st ien u) = pt u"
  by (simp add: resume_st_def)

lemma resume_st_props:
  assumes "resumed p u"
  shows "cpu_ok (resume_st ien u)" "lock_free LPtable (resume_st ien u)"
    "curproc (resume_st ien u) = Some p" "my_ncli (resume_st ien u) = 0" "me (resume_st ien u) = me u"
proof -
  have u: "cpu_ok u" "my_ncli u = 1" "curproc u = Some p" using assms by (auto simp: resumed_def)
  note l = cpu_ok_me [OF u(1)]
  show m: "me (resume_st ien u) = me u"
    by (simp add: resume_st_def rel_def pop_st_def)
  show "lock_free LPtable (resume_st ien u)"
    by (simp add: resume_st_def rel_def pop_st_def lock_free_def) (simp add: upd_lock_def)
  have c: "cpus (resume_st ien u) ! me u = (cpus u ! me u)\<lparr>intena := ien, ncli := 0\<rparr>"
    using l u(2) by (simp add: resume_st_def rel_def pop_st_def nth_upd_cpu my_ncli_def)
  show n: "my_ncli (resume_st ien u) = 0" using c m by (simp add: my_ncli_def)
  show "curproc (resume_st ien u) = Some p" using c m u(3) by (simp add: curproc_def)
  have "first_idx (\<lambda>c. apicid c = lapicid u) (cpus (resume_st ien u)) = Some (me u)"
    using u(1) by (simp add: resume_st_def rel_def pop_st_def first_idx_upd_cpu cpu_ok_def)
  moreover have "lapicid (resume_st ien u) = lapicid u"
    by (simp add: resume_st_def rel_def pop_st_def)
  ultimately show "cpu_ok (resume_st ien u)" using n m by (simp add: cpu_ok_def)
qed

text \<open>\<open>yield\<close>: the caller becomes runnable and leaves the CPU; when it is resumed it returns with
  the table lock released.\<close>

definition yield_st :: "nat \<Rightarrow> 'a pstate_scheme \<Rightarrow> 'a pstate_scheme" where
  "yield_st p s = upd_pt (set_proc p (\<lambda>q. q\<lparr>p_state := RUNNABLE\<rparr>)) (acq LPtable s)"

lemma yield_ok:
  assumes "cpu_ok s" "curproc s = Some p" "lock_free LPtable s" "my_ncli s = 0"
    and "p < length (procs (pt s))"
  shows "\<exists>k ien. yield s = Switch (yield_st p s) k \<and> (\<forall>u. resumed p u \<longrightarrow> k u = Ok () (resume_st ien u))"
proof -
  have "held LPtable (yield_st p s)" "cpu_ok (yield_st p s)" "my_ncli (yield_st p s) = 1"
      "curproc (yield_st p s) = Some p"
    using acq_props [OF assms(1), of LPtable] assms(1,2,4) by (simp_all add: yield_st_def)
  moreover have "p_state (procs (pt (yield_st p s)) ! p) \<noteq> RUNNING"
    using assms(5) by (simp add: yield_st_def set_proc_def)
  ultimately show ?thesis
    using assms sched_ok [of "yield_st p s" p]
    by (intro exI [of _ "\<lambda>u. bind_outcome (kbind mycpu (\<lambda>c. kmod (upd_cpu c
        (\<lambda>k. k\<lparr>intena := intena (cpus (yield_st p s) ! me (yield_st p s))\<rparr>))) u) (\<lambda>_. release LPtable)"]
        exI [of _ "intena (cpus (yield_st p s) ! me (yield_st p s))"])
      (auto simp: yield_def acquire_run my_acq upd_proc_def resume_ok yield_st_def
        kthen_def kbind_def [of my] kmod_def [of "upd_pt _"])
qed

lemma wakeup_ok:
  assumes "cpu_ok s" "lock_free LPtable s"
  shows "wakeup c s = Ok () (upd_pt (\<lambda>t. t\<lparr>procs := map (wake c) (procs t)\<rparr>) (settle s))"
  using assms by (simp add: wakeup_def wakeup1_def kdefs lock_run)

lemma one_cpu_simps [simp]:
  "cpu_ok (one_cpu p t)" "curproc (one_cpu p t) = p" "lock_free l (one_cpu p t)"
  "my_ncli (one_cpu p t) = 0" "me (one_cpu p t) = 0" "pt (one_cpu p t) = t"
  by (simp_all add: one_cpu_def cpu_ok_def me_def curproc_def lock_free_def my_ncli_def first_idx_def)

end
