(* ===== verification/Sched.thy ===== *)
theory Sched
  imports ProcTable
begin

text \<open>
  The scheduler of project 1 (\<open>proc.c\<close>: \<open>scheduler\<close>, \<open>set_cpu_share\<close>, \<open>priority_boost\<close>;
  \<open>trap.c\<close>: the timer tail of \<open>trap\<close>; \<open>sysproc.c\<close>: \<open>sys_yield\<close>, \<open>sys_getlev\<close>). Of every 100
  turns, \<open>stride_tickets\<close> go to the processes under stride scheduling, the one with the least pass
  value first; the others go to a three-level feedback queue.

  The body of the scheduler's inner loop, from the test of \<open>p->state\<close> to the label
  \<open>execution\<close>, is the function \<open>visit\<close>: it decides whether the visited slot gets the CPU
  and how \<open>sched_ticks\<close>, \<open>count\<close>, the heap and the pass values change. \<open>None\<close> stands for an
  access the C program leaves undefined.
\<close>

section \<open>Asking for a share\<close>

definition push_code :: "int \<Rightarrow> (unit, 'a pstate_scheme) code" where
  "push_code x =
     kbind (kget (\<lambda>s. push x (pheap (pt s)))) (\<lambda>r.
     case r of
       None \<Rightarrow> kfault ''heap index out of range''
     | Some q \<Rightarrow> kmod (upd_pt (\<lambda>t. t\<lparr>pheap := q\<rparr>)))"

definition pop_code :: "(int, 'a pstate_scheme) code" where
  "pop_code =
     kbind (kget (\<lambda>s. pop (pheap (pt s)))) (\<lambda>r.
     case r of
       None \<Rightarrow> kfault ''heap index out of range''
     | Some (m, q) \<Rightarrow> kthen (kmod (upd_pt (\<lambda>t. t\<lparr>pheap := q\<rparr>))) (kreturn m))"

definition set_cpu_share :: "int \<Rightarrow> (int, 'a pstate_scheme) code" where
  "set_cpu_share percent =
     (if percent \<le> 0 then kreturn (-1)
      else
        kbind (kget (\<lambda>s. stride_tickets (pt s))) (\<lambda>tk.
        if i32 (percent + tk) \<le> 80
        then
          kthen (kmod (upd_pt (\<lambda>t. t\<lparr>stride_tickets := i32 (tk + percent)\<rparr>))) (
          kbind (kget (\<lambda>s. pheap (pt s))) (\<lambda>q.
          kthen (if heap_count q = 0 then push_code 0 else push_code (heap q ! 1)) (
          kbind (kget (\<lambda>s. heap (pheap (pt s)) ! 1)) (\<lambda>m.
          kthen (kbind my (\<lambda>p. upd_proc p (\<lambda>r. r\<lparr>p_pass_value := m\<rparr>))) (
          kthen (kbind my (\<lambda>p. upd_proc p (\<lambda>r. r\<lparr>p_stride := c_div 1000 percent\<rparr>))) (
          kthen (kbind my (\<lambda>p. upd_proc p (\<lambda>r. r\<lparr>p_portion := percent\<rparr>))) (
          kreturn 0)))))))
        else kreturn (-1)))"

section \<open>One turn of the scheduler loop\<close>

definition mgr_of :: "nat \<Rightarrow> proc \<Rightarrow> nat option" where
  "mgr_of i p = (if p_tid p > 0 then p_manager p else Some i)"

definition stride_turn :: "nat \<Rightarrow> ptab \<Rightarrow> ptab option" where
  "stride_turn m t =
     (case pop (pheap t) of
        None \<Rightarrow> None
      | Some (_, q) \<Rightarrow>
        (let pv = i32 (p_pass_value (procs t ! m) + p_stride (procs t ! m))
         in case push pv q of
              None \<Rightarrow> None
            | Some q' \<Rightarrow> Some ((set_proc m (\<lambda>r. r\<lparr>p_pass_value := pv\<rparr>) t)\<lparr>pheap := q'\<rparr>)))"

definition higher_level_runnable :: "proc \<Rightarrow> ptab \<Rightarrow> bool" where
  "higher_level_runnable p t =
     list_ex (\<lambda>q. p_state q = RUNNABLE \<and> p_pass_value q = -1 \<and> p_level q < p_level p) (procs t)"

definition next_count :: "int \<Rightarrow> int" where
  "next_count cnt = (if cnt + 1 > 100 then 1 else cnt + 1)"

definition visit :: "nat \<Rightarrow> int \<times> int \<Rightarrow> ptab \<Rightarrow> (bool \<times> (int \<times> int) \<times> ptab) option" where
  "visit i loc t =
     (let p = procs t ! i; sched_ticks = fst loc; cnt = snd loc
      in if p_state p \<noteq> RUNNABLE then Some (False, (sched_ticks, cnt), t)
         else if sched_ticks + 1 > 1000 then Some (True, (1, cnt), t)
         else
           let sched_ticks = sched_ticks + 1; cnt = next_count cnt
           in if cnt \<le> stride_tickets t
              then (case mgr_of i p of
                      None \<Rightarrow> None
                    | Some m \<Rightarrow>
                      if heap_count (pheap t) > 0 \<and> p_pass_value (procs t ! m) = heap (pheap t) ! 1
                      then (case stride_turn m t of
                              None \<Rightarrow> None
                            | Some t' \<Rightarrow> Some (True, (sched_ticks, cnt), t'))
                      else Some (False, (sched_ticks, cnt - 1), t))
              else if p_pass_value p \<noteq> -1 then Some (False, (sched_ticks, cnt - 1), t)
              else if p_level p > 0 \<and> higher_level_runnable p t
              then Some (False, (sched_ticks, cnt - 1), t)
              else Some (True, (sched_ticks, cnt), t))"

text \<open>The label \<open>execution\<close>: run the chosen process until it comes back through \<open>sched\<close>.\<close>

definition dispatch :: "nat \<Rightarrow> nat \<Rightarrow> (unit, 'a pstate_scheme) code" where
  "dispatch c i =
     kthen (kmod (upd_cpu c (\<lambda>k. k\<lparr>cproc := Some i\<rparr>))) (
     kthen (switchuvm (Some i)) (
     kthen (upd_proc i (\<lambda>q. q\<lparr>p_state := RUNNING\<rparr>)) (
     kthen swtch (
     kthen switchkvm (
     kmod (upd_cpu c (\<lambda>k. k\<lparr>cproc := None\<rparr>)))))))"

primrec scan :: "nat \<Rightarrow> nat list \<Rightarrow> int \<times> int \<Rightarrow> (int \<times> int, 'a pstate_scheme) code" where
  "scan c [] loc = kreturn loc"
| "scan c (i # is) loc =
     kbind (kget (\<lambda>s. visit i loc (pt s))) (\<lambda>r.
     case r of
       None \<Rightarrow> kfault ''scheduler''
     | Some (run, loc', t) \<Rightarrow>
       kthen (kmod (upd_pt (\<lambda>_. t))) (
       kthen (kwhen run (dispatch c i)) (
       scan c is loc')))"

definition scheduler_round :: "nat \<Rightarrow> int \<times> int \<Rightarrow> (int \<times> int, 'a pstate_scheme) code" where
  "scheduler_round c loc =
     kthen (kmod (\<lambda>s. s\<lparr>eflags_if := True\<rparr>)) (
     kthen (acquire LPtable) (
     kbind (scan c [0..<NPROC] loc) (\<lambda>loc'.
     kthen (release LPtable) (
     kreturn loc'))))"

text \<open>\<open>scheduler()\<close> never returns; this is its first \<open>n\<close> rounds.\<close>

primrec scheduler_rounds :: "nat \<Rightarrow> nat \<Rightarrow> int \<times> int \<Rightarrow> (int \<times> int, 'a pstate_scheme) code" where
  "scheduler_rounds c 0 loc = kreturn loc"
| "scheduler_rounds c (Suc n) loc = kbind (scheduler_round c loc) (scheduler_rounds c n)"

definition scheduler :: "nat \<Rightarrow> (int \<times> int, 'a pstate_scheme) code" where
  "scheduler n =
     kbind mycpu (\<lambda>c.
     kthen (kmod (upd_cpu c (\<lambda>k. k\<lparr>cproc := None\<rparr>))) (
     scheduler_rounds c n (0, 0)))"

section \<open>Accounting\<close>

definition boost :: "proc \<Rightarrow> proc" where
  "boost p = p\<lparr>p_level := 0, p_ticks := 0, p_runtime := 0\<rparr>"

definition priority_boost :: "(unit, 'a pstate_scheme) code" where
  "priority_boost =
     kthen (acquire LPtable) (
     kthen (kmod (upd_pt (\<lambda>t. t\<lparr>procs := map boost (procs t)\<rparr>))) (
     release LPtable))"

definition quantum :: "int list" where "quantum = [5, 10, 20]"

definition allotment :: "int list" where "allotment = [20, 40]"

text \<open>The decision of the timer tail for a process that is not a thread: the new accounting
  fields, and whether it has to yield now.\<close>

definition tick_account :: "proc \<Rightarrow> bool \<times> proc" where
  "tick_account p =
     (if p_pass_value p \<noteq> -1
      then (if p_ticks p \<ge> 5 then (True, p\<lparr>p_ticks := 0, p_runtime := 0\<rparr>) else (False, p))
      else if p_ticks p \<ge> quantum ! nat (p_level p)
      then (let q = p\<lparr>p_ticks := 0\<rparr>
            in (True,
                if p_level q < 2 \<and> p_runtime q \<ge> allotment ! nat (p_level q)
                then q\<lparr>p_level := p_level q + 1, p_runtime := 0\<rparr> else q))
      else (False, p))"

definition count_tick :: "proc \<Rightarrow> proc" where
  "count_tick p = p\<lparr>p_ticks := p_ticks p + 1, p_runtime := p_runtime p + 1\<rparr>"

definition timer_tail :: "(unit, 'a pstate_scheme) code" where
  "timer_tail =
     kbind myproc (\<lambda>mp.
     case mp of
       None \<Rightarrow> kreturn ()
     | Some p \<Rightarrow>
       kbind (get_proc p id) (\<lambda>q.
       if p_state q \<noteq> RUNNING then kreturn ()
       else if p_tid q = 0
       then
         (if p_pass_value q = -1 \<and> \<not> (0 \<le> p_level q \<and> p_level q \<le> 2)
          then kfault ''quantum index out of range''
          else
            kthen (upd_proc p (\<lambda>_. snd (tick_account q))) (
            kthen (kwhen (fst (tick_account q)) yield) (
            kbind my (\<lambda>p. upd_proc p count_tick))))
       else
         kthen yield (
         kbind my (\<lambda>p.
         kbind (get_proc p p_manager) (\<lambda>mgr.
         case mgr of
           None \<Rightarrow> kfault ''manager == 0''
         | Some m \<Rightarrow> upd_proc m count_tick)))))"

definition yield_account :: "proc \<Rightarrow> proc" where
  "yield_account p =
     (let q = p\<lparr>p_ticks := p_ticks p + 1, p_runtime := p_runtime p + 1\<rparr>
      in if p_level q < 2 \<and> p_runtime q \<ge> allotment ! nat (p_level q)
         then q\<lparr>p_level := p_level q + 1, p_runtime := 0, p_ticks := 0\<rparr> else q)"

definition sys_yield :: "(int, 'a pstate_scheme) code" where
  "sys_yield =
     kbind myproc (\<lambda>mp.
     kthen (case mp of
              None \<Rightarrow> kreturn ()
            | Some p \<Rightarrow>
              kbind (get_proc p p_level) (\<lambda>l.
              if l < 0 then kfault ''allotment index out of range''
              else upd_proc p yield_account)) (
     kthen yield (
     kreturn 0)))"

definition sys_getlev :: "(int, 'a pstate_scheme) code" where
  "sys_getlev =
     kbind my (\<lambda>p.
     kbind (get_proc p p_pass_value) (\<lambda>pv.
     if pv = -1 then get_proc p p_level else kreturn (-1)))"

section \<open>Invariants\<close>

definition level_ok :: "proc \<Rightarrow> bool" where
  "level_ok p \<longleftrightarrow> 0 \<le> p_level p \<and> p_level p \<le> 2 \<and> 0 \<le> p_ticks p \<and> 0 \<le> p_runtime p"

text \<open>The heap holds exactly the pass values of the processes under stride scheduling.\<close>

definition stride_passes :: "ptab \<Rightarrow> int multiset" where
  "stride_passes t = filter_mset (\<lambda>v. v \<noteq> -1) (mset (map p_pass_value (procs t)))"

definition stride_sync :: "ptab \<Rightarrow> bool" where
  "stride_sync t \<longleftrightarrow> heap_inv (pheap t) \<and> heap_elems (pheap t) = stride_passes t"

text \<open>No pass value is about to overflow an \<open>int\<close> or to become the mark of the feedback queue.\<close>

definition pass_room :: "ptab \<Rightarrow> bool" where
  "pass_room t \<longleftrightarrow> (\<forall>p \<in> set (procs t). p_pass_value p \<noteq> -1 \<longrightarrow>
     0 \<le> p_pass_value p \<and> 0 \<le> p_stride p \<and> p_pass_value p + p_stride p < 2 ^ 31)"

text \<open>Every thread points at a slot of the table.\<close>

definition managers_ok :: "ptab \<Rightarrow> bool" where
  "managers_ok t \<longleftrightarrow> (\<forall>p \<in> set (procs t). p_tid p > 0 \<longrightarrow>
     (case p_manager p of None \<Rightarrow> False | Some m \<Rightarrow> m < length (procs t)))"

fun pick :: "nat list \<Rightarrow> int \<times> int \<Rightarrow> ptab \<Rightarrow> nat option" where
  "pick [] loc t = None"
| "pick (i # is) loc t =
     (case visit i loc t of
        None \<Rightarrow> None
      | Some (run, loc', t') \<Rightarrow> if run then Some i else pick is loc' t')"

fun turns :: "(nat \<times> ptab) list \<Rightarrow> int \<times> int \<Rightarrow> bool list option" where
  "turns [] loc = Some []"
| "turns ((i, t) # vs) loc =
     (case visit i loc t of
        None \<Rightarrow> None
      | Some (run, loc', _) \<Rightarrow>
        map_option (\<lambda>ks. if run then (snd loc' \<le> stride_tickets t) # ks else ks) (turns vs loc'))"

section \<open>Lemmas on a turn\<close>

lemma visit_skip_same:
  assumes "visit i loc t = Some (False, loc', t')"
  shows "t' = t"
    and "p_state (procs t ! i) = RUNNABLE \<Longrightarrow> fst loc' = fst loc + 1 \<and> fst loc < 1000"
    and "p_state (procs t ! i) \<noteq> RUNNABLE \<Longrightarrow> loc' = loc"
    and "snd loc \<le> 99 \<Longrightarrow> snd loc' = snd loc"
  using assms
  by (auto simp: visit_def Let_def next_count_def split: if_splits option.splits)

lemma stride_turn_ok:
  assumes "heap_inv (pheap t)" "0 < heap_count (pheap t)"
    and "p_pass_value (procs t ! m) = heap (pheap t) ! 1"
  shows "\<exists>t'. stride_turn m t = Some t' \<and> heap_inv (pheap t')
     \<and> procs t' = (procs t)[m := (procs t ! m)\<lparr>p_pass_value :=
          i32 (p_pass_value (procs t ! m) + p_stride (procs t ! m))\<rparr>]
     \<and> heap_elems (pheap t') =
          add_mset (i32 (p_pass_value (procs t ! m) + p_stride (procs t ! m)))
            (heap_elems (pheap t) - {#heap (pheap t) ! 1#})
     \<and> stride_tickets t' = stride_tickets t"
proof -
  let ?v = "i32 (p_pass_value (procs t ! m) + p_stride (procs t ! m))"
  have "heap_elems (pheap t) \<noteq> {#}" using assms heap_elems_empty_iff by force
  then obtain q1 q2 where "pop (pheap t) = Some (heap (pheap t) ! 1, q1)" "push ?v q1 = Some q2"
      "heap_inv q2" "heap_elems q2 = add_mset ?v (heap_elems (pheap t) - {#heap (pheap t) ! 1#})"
    using sq.replace_min [OF assms(1), of ?v] by blast
  then show ?thesis by (simp add: stride_turn_def Let_def set_proc_def)
qed

lemma stride_passes_update:
  assumes "m < length (procs t)" "p_pass_value (procs t ! m) \<noteq> -1" "v \<noteq> -1"
  shows "stride_passes (t\<lparr>procs := (procs t)[m := (procs t ! m)\<lparr>p_pass_value := v\<rparr>], pheap := q\<rparr>)
    = add_mset v (stride_passes t - {#p_pass_value (procs t ! m)#})"
  using assms by (simp add: stride_passes_def map_update mset_update)

lemma pass_in_stride_passes:
  "m < length (procs t) \<Longrightarrow> p_pass_value (procs t ! m) \<noteq> -1 \<Longrightarrow>
   p_pass_value (procs t ! m) \<in># stride_passes t"
  by (auto simp: stride_passes_def)

lemma stride_min_le:
  assumes "stride_sync t" "q \<in> set (procs t)" "p_pass_value q \<noteq> -1"
  shows "heap (pheap t) ! 1 \<le> p_pass_value q"
  using assms sq.min_le [of "pheap t" "p_pass_value q"]
  by (auto simp: stride_sync_def stride_passes_def)

lemma stride_min_not_mark:
  assumes "stride_sync t" "0 < heap_count (pheap t)"
  shows "heap (pheap t) ! 1 \<noteq> -1" "heap (pheap t) ! 1 \<in># stride_passes t"
proof -
  have "heap_elems (pheap t) \<noteq> {#}"
    using assms heap_elems_empty_iff by (force simp: stride_sync_def)
  then have "heap (pheap t) ! 1 \<in># heap_elems (pheap t)"
    using sq.pmin_in [of "pheap t"] assms(1) by (simp add: stride_sync_def)
  then show "heap (pheap t) ! 1 \<in># stride_passes t" using assms(1) by (simp add: stride_sync_def)
  then show "heap (pheap t) ! 1 \<noteq> -1" by (auto simp: stride_passes_def)
qed

lemma stride_turn_sync:
  assumes "stride_sync t" "pass_room t" "0 < heap_count (pheap t)" "m < length (procs t)"
    and "p_pass_value (procs t ! m) = heap (pheap t) ! 1"
  shows "\<exists>t'. stride_turn m t = Some t' \<and> stride_sync t' \<and> stride_tickets t' = stride_tickets t
    \<and> heap (pheap t) ! 1 \<le> heap (pheap t') ! 1"
proof -
  let ?p = "procs t ! m"
  let ?v = "p_pass_value ?p + p_stride ?p"
  have ne: "p_pass_value ?p \<noteq> -1" using stride_min_not_mark(1) [OF assms(1,3)] assms(5) by simp
  then have room: "0 \<le> p_pass_value ?p" "0 \<le> p_stride ?p" "?v < 2 ^ 31"
    using assms(2,4) by (auto simp: pass_room_def)
  then have v: "i32 ?v = ?v" by (intro i32_id) (simp add: int_range_def)
  have hi: "heap_inv (pheap t)" "heap_elems (pheap t) = stride_passes t"
    using assms(1) by (simp_all add: stride_sync_def)
  obtain t' where t': "stride_turn m t = Some t'" "heap_inv (pheap t')"
      "procs t' = (procs t)[m := ?p\<lparr>p_pass_value := ?v\<rparr>]"
      "heap_elems (pheap t') = add_mset ?v (heap_elems (pheap t) - {#heap (pheap t) ! 1#})"
      "stride_tickets t' = stride_tickets t"
    using stride_turn_ok [OF hi(1) assms(3,5)] unfolding v by blast
  have "stride_passes t' = add_mset ?v (stride_passes t - {#p_pass_value ?p#})"
    using stride_passes_update [OF assms(4) ne, of ?v] room t'(3)
    by (simp add: stride_passes_def)
  then have "stride_sync t'" using t' hi assms(5) by (simp add: stride_sync_def)
  moreover have "heap (pheap t) ! 1 \<le> heap (pheap t') ! 1"
  proof (rule sq.replace_min_mono)
    show "heap_elems (pheap t) \<noteq> {#}" using heap_elems_empty_iff [OF hi(1)] assms(3) by simp
    show "heap (pheap t) ! 1 \<le> ?v" using room assms(5) by simp
  qed (use t' hi in auto)
  ultimately show ?thesis using t' by blast
qed

lemma visit_sync:
  assumes "stride_sync t" "pass_room t" "managers_ok t" "i < length (procs t)"
  shows "\<exists>run loc' t'. visit i loc t = Some (run, loc', t') \<and> stride_sync t'
    \<and> stride_tickets t' = stride_tickets t
    \<and> (0 < heap_count (pheap t) \<longrightarrow> heap (pheap t) ! 1 \<le> heap (pheap t') ! 1)"
proof -
  let ?p = "procs t ! i"
  obtain m where m: "mgr_of i ?p = Some m" "m < length (procs t)"
  proof (cases "p_tid ?p > 0")
    case True
    then show ?thesis
      using that assms(3,4) by (auto simp: managers_ok_def mgr_of_def split: option.splits)
  next
    case False
    then show ?thesis using that assms(4) by (simp add: mgr_of_def)
  qed
  define turn where
    "turn \<longleftrightarrow> heap_count (pheap t) > 0 \<and> p_pass_value (procs t ! m) = heap (pheap t) ! 1"
  have turn: "\<exists>t'. stride_turn m t = Some t' \<and> stride_sync t' \<and> stride_tickets t' = stride_tickets t
      \<and> heap (pheap t) ! 1 \<le> heap (pheap t') ! 1" if turn
    using stride_turn_sync [OF assms(1,2)] m that by (simp add: turn_def)
  have "visit i loc t \<noteq> None"
  proof
    assume "visit i loc t = None"
    then show False using m turn
      by (auto simp: visit_def Let_def turn_def split: if_splits option.splits)
  qed
  then obtain run loc' t' where v: "visit i loc t = Some (run, loc', t')" by auto
  then have "t' = t \<or> (turn \<and> stride_turn m t = Some t')"
    using m by (auto simp: visit_def Let_def turn_def split: if_splits option.splits)
  then show ?thesis using v turn assms(1) by auto
qed

lemma pick_progress:
  assumes "stride_sync t" "pass_room t" "managers_ok t"
  shows "\<forall>i \<in> set is. i < length (procs t) \<Longrightarrow> fst loc \<le> 1000 \<Longrightarrow>
    1000 - fst loc < int (length (filter (\<lambda>i. p_state (procs t ! i) = RUNNABLE) is)) \<Longrightarrow>
    \<exists>i \<in> set is. pick is loc t = Some i \<and> p_state (procs t ! i) = RUNNABLE"
proof (induction "is" arbitrary: loc)
  case (Cons i "is")
  obtain run loc' t' where v: "visit i loc t = Some (run, loc', t')"
    using visit_sync [OF assms, of i loc] Cons.prems(1) by auto
  show ?case
  proof (cases run)
    case True
    then show ?thesis using v by (auto simp: visit_def Let_def split: if_splits)
  next
    case False
    then have "visit i loc t = Some (False, loc', t')" using v by simp
    note skip = visit_skip_same [OF this]
    have "fst loc' \<le> 1000 \<and> 1000 - fst loc' <
        int (length (filter (\<lambda>i. p_state (procs t ! i) = RUNNABLE) is))"
      using skip(2,3) Cons.prems by (cases "p_state (procs t ! i) = RUNNABLE") auto
    then have "\<exists>j \<in> set is. pick is loc' t = Some j \<and> p_state (procs t ! j) = RUNNABLE"
      using Cons.IH Cons.prems(1) by simp
    then show ?thesis using v False skip(1) by auto
  qed
qed simp

lemma filter_rounds:
  "i \<in> set xs \<Longrightarrow> P i \<Longrightarrow> n \<le> length (filter P (concat (replicate n xs)))"
proof (induction n)
  case (Suc n)
  then have "filter P xs \<noteq> []" by (auto simp: filter_empty_conv)
  then have "1 \<le> length (filter P xs)" by (cases "filter P xs") auto
  then show ?case using Suc by simp
qed simp

lemma pick_rounds:
  assumes "stride_sync t" "pass_room t" "managers_ok t" "0 \<le> sched_ticks" "sched_ticks \<le> 1000"
    and "j < length (procs t)" "p_state (procs t ! j) = RUNNABLE" "1000 < n"
  shows "\<exists>i < length (procs t). p_state (procs t ! i) = RUNNABLE \<and>
    pick (concat (replicate n [0..<length (procs t)])) (sched_ticks, cnt) t = Some i"
proof -
  let ?is = "concat (replicate n [0..<length (procs t)])"
  let ?r = "\<lambda>i. p_state (procs t ! i) = RUNNABLE"
  have "n \<le> length (filter ?r ?is)" by (rule filter_rounds [of j]) (use assms in auto)
  then have "1000 - sched_ticks < int (length (filter ?r ?is))" using assms by linarith
  moreover have "\<forall>i \<in> set ?is. i < length (procs t)" by auto
  ultimately have "\<exists>i \<in> set ?is. pick ?is (sched_ticks, cnt) t = Some i \<and> ?r i"
    using pick_progress [OF assms(1-3), of ?is "(sched_ticks, cnt)"] assms(5) by simp
  then show ?thesis using \<open>\<forall>i \<in> set ?is. i < length (procs t)\<close> by blast
qed

lemma visit_count:
  assumes "visit i (st, int c) t = Some (run, loc', t')" "st < 1000" "c \<le> 100"
  shows "fst loc' \<le> st + 1" "run \<Longrightarrow> snd loc' = int (c mod 100 + 1)"
    "\<not> run \<Longrightarrow> \<exists>c'. snd loc' = int c' \<and> c' \<le> 100 \<and> c' mod 100 = c mod 100"
proof -
  have n: "next_count (int c) = int (c mod 100 + 1)"
    using assms(3) by (cases "c = 100") (auto simp: next_count_def)
  show "fst loc' \<le> st + 1" "run \<Longrightarrow> snd loc' = int (c mod 100 + 1)"
    using assms(1,2) n by (auto simp: visit_def Let_def split: if_splits option.splits)
  show "\<exists>c'. snd loc' = int c' \<and> c' \<le> 100 \<and> c' mod 100 = c mod 100" if "\<not> run"
  proof (cases "p_state (procs t ! i) = RUNNABLE")
    case True
    then have "snd loc' = int (c mod 100)"
      using assms(1,2) n that by (auto simp: visit_def Let_def split: if_splits option.splits)
    then show ?thesis by (intro exI [of _ "c mod 100"]) auto
  next
    case False
    then show ?thesis using assms(1,3) by (auto simp: visit_def Let_def)
  qed
qed

lemma turns_shape:
  "turns vs (st, int c) = Some ks \<Longrightarrow> \<forall>(i, t) \<in> set vs. stride_tickets t = int tk \<Longrightarrow>
   st + int (length vs) \<le> 1000 \<Longrightarrow> c \<le> 100 \<Longrightarrow>
   ks = map (\<lambda>k. (c + k) mod 100 + 1 \<le> tk) [0..<length ks]"
proof (induction vs arbitrary: st c ks)
  case (Cons v vs)
  obtain i t where [simp]: "v = (i, t)" by (cases v)
  obtain run loc' t' ks' where v: "visit i (st, int c) t = Some (run, loc', t')"
      and ks': "turns vs loc' = Some ks'"
      and ks: "ks = (if run then (snd loc' \<le> stride_tickets t) # ks' else ks')"
    using Cons.prems(1) by (auto split: option.splits)
  have st: "st < 1000" using Cons.prems(3) by simp
  note vc = visit_count [OF v st Cons.prems(4)]
  show ?case
  proof (cases run)
    case True
    obtain st' where loc': "loc' = (st', int (c mod 100 + 1))" "st' \<le> st + 1"
      using vc(1) vc(2) [OF True] by (cases loc') auto
    have "ks' = map (\<lambda>k. (c mod 100 + 1 + k) mod 100 + 1 \<le> tk) [0..<length ks']"
      by (rule Cons.IH [of st' "c mod 100 + 1"]) (use ks' loc' Cons.prems in auto)
    also have "\<dots> = map (\<lambda>k. (c + Suc k) mod 100 + 1 \<le> tk) [0..<length ks']"
    proof -
      have "(c mod 100 + 1 + k) mod 100 = (c + Suc k) mod 100" for k
        using mod_add_left_eq [of c 100 "Suc k"] by simp
      then show ?thesis by simp
    qed
    finally have "ks' = map ((\<lambda>k. (c + k) mod 100 + 1 \<le> tk) \<circ> Suc) [0..<length ks']"
      by (simp add: comp_def)
    moreover have "(int (c mod 100 + 1) \<le> int tk) = (c mod 100 + 1 \<le> tk)" by linarith
    ultimately show ?thesis
      using True ks loc' Cons.prems(2) by (simp add: upt_conv_Cons map_Suc_upt [symmetric] del: upt_Suc)
  next
    case False
    obtain st' c' where loc': "loc' = (st', int c')" "st' \<le> st + 1" "c' \<le> 100" "c' mod 100 = c mod 100"
      using vc(1) vc(3) [OF False] by (cases loc') auto
    have "ks' = map (\<lambda>k. (c' + k) mod 100 + 1 \<le> tk) [0..<length ks']"
      by (rule Cons.IH [of st' c']) (use ks' loc' Cons.prems in auto)
    moreover have "(c' + k) mod 100 = (c + k) mod 100" for k
      using loc'(4) by (metis mod_add_left_eq)
    ultimately show ?thesis using False ks by simp
  qed
qed simp

lemma mset_rotate: "mset (rotate n xs) = mset xs"
proof (induction n)
  case (Suc n)
  have "mset (rotate1 ys) = mset ys" for ys :: "'a list" by (cases ys) auto
  then show ?case using Suc by (simp add: rotate_Suc)
qed simp

lemma count_residues: "tk \<le> n \<Longrightarrow> length (filter (\<lambda>k. (c + k) mod n < tk) [0..<n]) = tk"
proof -
  assume "tk \<le> n"
  have "map (\<lambda>k. (c + k) mod n) [0..<n] = rotate c [0..<n]"
    by (rule nth_equalityI) (simp_all add: nth_rotate)
  then have "filter (\<lambda>x. x < tk) (rotate c [0..<n]) =
      filter (\<lambda>x. x < tk) (map (\<lambda>k. (c + k) mod n) [0..<n])"
    by simp
  also have "\<dots> = map (\<lambda>k. (c + k) mod n) (filter (\<lambda>k. (c + k) mod n < tk) [0..<n])"
    by (simp add: filter_map comp_def)
  finally have "length (filter (\<lambda>k. (c + k) mod n < tk) [0..<n]) = length (filter (\<lambda>x. x < tk) (rotate c [0..<n]))"
    by simp
  also have "\<dots> = size (mset (filter (\<lambda>x. x < tk) (rotate c [0..<n])))" by (simp only: size_mset)
  also have "\<dots> = size (mset (filter (\<lambda>x. x < tk) [0..<n]))"
    by (simp only: mset_filter mset_rotate)
  also have "filter (\<lambda>x. x < tk) [0..<n] = [0..<tk]"
  proof -
    have "[0..<n] = [0..<tk] @ [tk..<n]"
      using \<open>tk \<le> n\<close> by (metis le_add_diff_inverse plus_nat.add_0 upt_add_eq_append zero_le)
    then show ?thesis by (simp add: filter_empty_conv)
  qed
  finally show ?thesis by simp
qed


end
