(* ===== verification/Sleeplock.thy ===== *)
theory Sleeplock
  imports Sched
begin

text \<open>
  Sleep locks (\<open>src/xv6-public/sleeplock.c\<close>) and the reasoning layer for code that runs on behalf
  of a process: \<open>ctx p L s\<close> says that process \<open>p\<close> runs and this CPU holds exactly the spin locks
  \<open>L\<close>. The rules for \<open>acquire\<close>, \<open>release\<close>, \<open>myproc\<close> and \<open>wakeup\<close> keep track of \<open>L\<close>; what they do
  to the rest of the state is \<open>only_wakes\<close>: sleeping processes may become runnable, nothing else.
\<close>

section \<open>State and operations\<close>

record sleeplock =
  sl_locked :: bool
  sl_pid :: int

record slstate = pstate +
  slocks :: "sleepid \<Rightarrow> sleeplock"

definition upd_sl :: "sleepid \<Rightarrow> (sleeplock \<Rightarrow> sleeplock) \<Rightarrow> 'a slstate_scheme \<Rightarrow> 'a slstate_scheme" where
  "upd_sl i f s = s\<lparr>slocks := (slocks s)(i := f (slocks s i))\<rparr>"

definition initsleeplock :: "sleepid \<Rightarrow> (unit, 'a slstate_scheme) code" where
  "initsleeplock i =
     kthen (initlock (LSleep i)) (
     kthen (kmod (upd_sl i (\<lambda>k. k\<lparr>sl_locked := False\<rparr>))) (
     kmod (upd_sl i (\<lambda>k. k\<lparr>sl_pid := 0\<rparr>))))"

definition acquiresleep :: "sleepid \<Rightarrow> (unit, 'a slstate_scheme) code" where
  "acquiresleep i =
     kthen (acquire (LSleep i)) (
     kthen (kloop (
       kbind (kget (\<lambda>s. sl_locked (slocks s i))) (\<lambda>busy.
       if busy then kthen (sleep (CSleepLock i) (Some (LSleep i))) (kreturn None)
       else kreturn (Some ())))) (
     kthen (kmod (upd_sl i (\<lambda>k. k\<lparr>sl_locked := True\<rparr>))) (
     kbind my (\<lambda>p.
     kbind (get_proc p p_pid) (\<lambda>pid.
     kthen (kmod (upd_sl i (\<lambda>k. k\<lparr>sl_pid := pid\<rparr>))) (
     release (LSleep i)))))))"

definition releasesleep :: "sleepid \<Rightarrow> (unit, 'a slstate_scheme) code" where
  "releasesleep i =
     kthen (acquire (LSleep i)) (
     kthen (kmod (upd_sl i (\<lambda>k. k\<lparr>sl_locked := False\<rparr>))) (
     kthen (kmod (upd_sl i (\<lambda>k. k\<lparr>sl_pid := 0\<rparr>))) (
     kthen (wakeup (CSleepLock i)) (
     release (LSleep i)))))"

definition holdingsleep :: "sleepid \<Rightarrow> (bool, 'a slstate_scheme) code" where
  "holdingsleep i =
     kthen (acquire (LSleep i)) (
     kbind (kget (\<lambda>s. slocks s i)) (\<lambda>k.
     kbind (if sl_locked k
            then kbind my (\<lambda>p. kbind (get_proc p p_pid) (\<lambda>pid. kreturn (sl_pid k = pid)))
            else kreturn False) (\<lambda>r.
     kthen (release (LSleep i)) (
     kreturn r))))"

section \<open>Running process and held locks\<close>

definition ctx :: "nat \<Rightarrow> lockid set \<Rightarrow> 'a pstate_scheme \<Rightarrow> bool" where
  "ctx p L s \<longleftrightarrow> cpu_ok s \<and> finite L \<and> my_ncli s = int (card L) \<and> curproc s = Some p
     \<and> p < length (procs (pt s)) \<and> (\<forall>l \<in> L. held l s) \<and> (\<forall>l. l \<notin> L \<longrightarrow> lock_free l s)"

definition mypid :: "'a pstate_scheme \<Rightarrow> int" where
  "mypid s = (case curproc s of Some p \<Rightarrow> p_pid (procs (pt s) ! p) | None \<Rightarrow> 0)"

definition woken :: "proc \<Rightarrow> proc \<Rightarrow> bool" where
  "woken q p \<longleftrightarrow> q = p \<or> (p_state p = SLEEPING \<and> q = p\<lparr>p_state := RUNNABLE\<rparr>)"

definition only_wakes :: "ptab \<Rightarrow> ptab \<Rightarrow> bool" where
  "only_wakes t u \<longleftrightarrow> list_all2 woken (procs t) (procs u) \<and> u\<lparr>procs := procs t\<rparr> = t"

lemma ctxD:
  assumes "ctx p L s"
  shows "cpu_ok s" "finite L" "my_ncli s = int (card L)" "curproc s = Some p"
    "p < length (procs (pt s))" "l \<in> L \<Longrightarrow> held l s" "l \<notin> L \<Longrightarrow> lock_free l s"
  using assms by (auto simp: ctx_def)

lemma woken_refl [simp]: "woken p p"
  by (simp add: woken_def)

lemma woken_trans: "woken p q \<Longrightarrow> woken q r \<Longrightarrow> woken p r"
  by (auto simp: woken_def)

lemma woken_wake [simp]: "woken (wake c p) p"
  by (simp add: woken_def wake_def)

lemma woken_pid: "woken q p \<Longrightarrow> p_pid q = p_pid p"
  by (auto simp: woken_def)

lemma only_wakes_refl [simp]: "only_wakes t t"
  by (simp add: only_wakes_def list_all2_refl)

lemma only_wakes_trans:
  assumes "only_wakes t u" "only_wakes u v"
  shows "only_wakes t v"
proof -
  have "list_all2 woken (procs t) (procs v)"
    using assms list_all2_trans [of woken woken woken "procs t" "procs u" "procs v"] woken_trans
    by (auto simp: only_wakes_def)
  moreover have "v\<lparr>procs := procs u\<rparr> = u" using assms(2) by (simp add: only_wakes_def)
  from arg_cong [OF this, of "\<lambda>w. w\<lparr>procs := procs t\<rparr>"]
  have "v\<lparr>procs := procs t\<rparr> = u\<lparr>procs := procs t\<rparr>" by simp
  ultimately show ?thesis using assms(1) by (simp add: only_wakes_def)
qed

lemma only_wakes_wake [simp]: "only_wakes (t\<lparr>procs := map (wake c) (procs t)\<rparr>) t"
  by (simp add: only_wakes_def list_all2_conv_all_nth)

lemma only_wakes_length: "only_wakes t u \<Longrightarrow> length (procs t) = length (procs u)"
  by (auto simp: only_wakes_def dest: list_all2_lengthD)

lemma only_wakes_pid:
  "only_wakes t u \<Longrightarrow> i < length (procs u) \<Longrightarrow> p_pid (procs t ! i) = p_pid (procs u ! i)"
  by (auto simp: only_wakes_def list_all2_conv_all_nth intro: woken_pid)

lemma ctx_upd_pt:
  "ctx p L s \<Longrightarrow> length (procs (f (pt s))) = length (procs (pt s)) \<Longrightarrow> ctx p L (upd_pt f s)"
  by (simp add: ctx_def)

lemma held_settle [simp]: "held l (settle s) = held l s"
  by (simp add: held_def)

lemma ctx_settle [simp]:
  assumes "ctx p L s"
  shows "ctx p L (settle s)"
  using assms cpu_ok_me [of s] by (auto simp: ctx_def)

lemma acq_locks: "locks (acq l s) = (locks s)(l := \<lparr>locked = True, lcpu = Some (me s)\<rparr>)"
  by (simp add: acq_def) (simp add: upd_lock_def)

lemma rel_locks: "locks (rel l s) = (locks s)(l := \<lparr>locked = False, lcpu = None\<rparr>)"
  by (simp add: rel_def pop_st_def) (simp add: upd_lock_def)

lemma ctx_acq:
  assumes "ctx p L s" "l \<notin> L"
  shows "ctx p (insert l L) (acq l s)"
proof -
  note s = ctxD [OF assms(1)]
  note a = acq_props [OF s(1), of l]
  have "held k (acq l s)" if "k \<in> insert l L" for k
    using that s(6) a(2,4) by (auto simp: held_def acq_locks)
  moreover have "lock_free k (acq l s)" if "k \<notin> insert l L" for k
    using that s(7) [of k] by (simp add: lock_free_def acq_locks)
  ultimately show ?thesis using a s assms by (simp add: ctx_def)
qed

lemma rel_props:
  assumes "cpu_ok s" "0 < my_ncli s"
  shows "cpu_ok (rel l s)" "me (rel l s) = me s" "my_ncli (rel l s) = my_ncli s - 1"
    "curproc (rel l s) = curproc s"
proof -
  note m = cpu_ok_me [OF assms(1)]
  show me: "me (rel l s) = me s" by (simp add: rel_def pop_st_def)
  have c: "cpus (rel l s) ! me s = (cpus s ! me s)\<lparr>ncli := my_ncli s - 1\<rparr>"
    using m by (simp add: rel_def pop_st_def nth_upd_cpu my_ncli_def)
  show n: "my_ncli (rel l s) = my_ncli s - 1" "curproc (rel l s) = curproc s"
    using c me by (simp_all add: my_ncli_def curproc_def)
  have "first_idx (\<lambda>c. apicid c = lapicid s) (cpus (rel l s)) = Some (me s)"
    using assms(1) by (simp add: rel_def pop_st_def first_idx_upd_cpu cpu_ok_def)
  moreover have "lapicid (rel l s) = lapicid s" "eflags_if (rel l s) \<longrightarrow> my_ncli s = 1"
    by (simp_all add: rel_def pop_st_def my_ncli_def)
  ultimately show "cpu_ok (rel l s)" using n me assms(2) by (auto simp: cpu_ok_def)
qed

lemma ctx_rel:
  assumes "ctx p (insert l L) s" "l \<notin> L"
  shows "ctx p L (rel l s)"
proof -
  note s = ctxD [OF assms(1)]
  have f: "finite L" "my_ncli s = int (card L) + 1" using s(2,3) assms(2) by simp_all
  note r = rel_props [OF s(1), of l]
  have "held k (rel l s)" if "k \<in> L" for k
    using that s(6) [of k] assms(2) f r(2) by (auto simp: held_def rel_locks)
  moreover have "lock_free k (rel l s)" if "k \<notin> L" for k
    using that s(7) [of k] by (cases "k = l") (auto simp: lock_free_def rel_locks)
  ultimately show ?thesis using r s f by (simp add: ctx_def)
qed

section \<open>Rules\<close>

lemma wp_acquire: "ctx p L s \<Longrightarrow> l \<notin> L \<Longrightarrow> P () (acq l s) \<Longrightarrow> wp (acquire l) P s"
  by (rule wpI [OF acquire_ok]) (auto dest: ctxD)

lemma wp_release: "ctx p L s \<Longrightarrow> l \<in> L \<Longrightarrow> P () (rel l s) \<Longrightarrow> wp (release l) P s"
  by (rule wpI [OF release_ok]) (auto simp: ctx_def card_gt_0_iff)

lemma wp_my: "ctx p L s \<Longrightarrow> P p (settle s) \<Longrightarrow> wp my P s"
  by (rule wpI [OF my_ok]) (auto dest: ctxD)

lemma wp_myproc: "ctx p L s \<Longrightarrow> P (Some p) (settle s) \<Longrightarrow> wp myproc P s"
  by (rule wpI [OF myproc_ok]) (auto dest: ctxD)

lemma wp_wakeup:
  "ctx p L s \<Longrightarrow> LPtable \<notin> L \<Longrightarrow> P () (upd_pt (\<lambda>t. t\<lparr>procs := map (wake c) (procs t)\<rparr>) (settle s)) \<Longrightarrow>
   wp (wakeup c) P s"
  by (rule wpI [OF wakeup_ok]) (auto dest: ctxD)

lemma wp_get_proc [wps]: "wp (get_proc i f) P s \<longleftrightarrow> P (f (procs (pt s) ! i)) s"
  by (simp add: get_proc_def wps)

lemma wp_upd_proc [wps]: "wp (upd_proc i f) P s \<longleftrightarrow> P () (upd_pt (set_proc i f) s)"
  by (simp add: upd_proc_def wps)

text \<open>The sleep locks and whatever lies above them in the state are untouched by the spin locks.\<close>

lemma slocks_frame [simp]:
  "slocks (settle s) = slocks s" "slocks (acq l s) = slocks s" "slocks (rel l s) = slocks s"
  "slocks (upd_pt f s) = slocks s"
  "slstate.more (settle s) = slstate.more s" "slstate.more (acq l s) = slstate.more s"
  "slstate.more (rel l s) = slstate.more s" "slstate.more (upd_pt f s) = slstate.more s"
  by (simp_all add: settle_def acq_def push_st_def rel_def pop_st_def upd_cpu_def upd_lock_def upd_pt_def)

lemma upd_sl_frame [simp]:
  "pt (upd_sl i f s) = pt s" "slstate.more (upd_sl i f s) = slstate.more s"
  "slocks (upd_sl i f s) = (slocks s)(i := f (slocks s i))"
  "ctx p L (upd_sl i f s) = ctx p L s"
  by (simp_all add: upd_sl_def ctx_def cpu_ok_def me_def my_ncli_def curproc_def held_def lock_free_def)

text \<open>What a step of a process that comes back with the same locks does at most, apart from its
  own layer of the state.\<close>

definition keeps :: "nat \<Rightarrow> lockid set \<Rightarrow> 'a slstate_scheme \<Rightarrow> 'a slstate_scheme \<Rightarrow> bool" where
  "keeps p L t s \<longleftrightarrow> ctx p L t \<and> only_wakes (pt t) (pt s)"

lemma keepsD: "keeps p L t s \<Longrightarrow> ctx p L t" "keeps p L t s \<Longrightarrow> only_wakes (pt t) (pt s)"
  by (auto simp: keeps_def)

lemma keeps_trans: "keeps p L u t \<Longrightarrow> keeps p L t s \<Longrightarrow> keeps p L u s"
  by (auto simp: keeps_def intro: only_wakes_trans)

lemma keeps_mypid: "ctx p L s \<Longrightarrow> keeps p L t s \<Longrightarrow> mypid t = mypid s"
  by (auto simp: keeps_def mypid_def ctx_def intro: only_wakes_pid)

lemma acquiresleep_free:
  assumes "ctx p L s" "LSleep i \<notin> L" "\<not> sl_locked (slocks s i)"
  shows "wp (acquiresleep i) (\<lambda>_ t. keeps p L t s \<and> slstate.more t = slstate.more s
    \<and> slocks t = (slocks s)(i := \<lparr>sl_locked = True, sl_pid = mypid s\<rparr>)) s"
proof -
  note c = ctx_acq [OF assms(1,2)]
  have pid: "p_pid (procs (pt s) ! p) = mypid s" using ctxD(4) [OF assms(1)] by (simp add: mypid_def)
  have eq: "(k :: sleeplock)\<lparr>sl_locked := a, sl_pid := b\<rparr> = \<lparr>sl_locked = a, sl_pid = b\<rparr>" for k a b
    by (cases k) simp
  show ?thesis
    unfolding acquiresleep_def wps
    apply (rule wp_acquire [OF assms(1,2)])
    apply (rule wp_kloop)
    apply (simp add: wps assms(3))
    apply (rule wp_my [of p "insert (LSleep i) L"])
     apply (simp add: c)
    apply (rule wp_release [of p "insert (LSleep i) L"])
    using c assms(2) by (simp_all add: keeps_def ctx_rel pid eq)
qed

lemma releasesleep_ok:
  assumes "ctx p L s" "LSleep i \<notin> L" "LPtable \<notin> L"
  shows "wp (releasesleep i) (\<lambda>_ t. keeps p L t s \<and> slstate.more t = slstate.more s
    \<and> slocks t = (slocks s)(i := \<lparr>sl_locked = False, sl_pid = 0\<rparr>)) s"
proof -
  note c = ctx_acq [OF assms(1,2)]
  have eq: "(k :: sleeplock)\<lparr>sl_locked := a, sl_pid := b\<rparr> = \<lparr>sl_locked = a, sl_pid = b\<rparr>" for k a b
    by (cases k) simp
  show ?thesis
    unfolding releasesleep_def wps
    apply (rule wp_acquire [OF assms(1,2)])
    apply (rule wp_wakeup [of p "insert (LSleep i) L"])
      apply (simp add: c)
     apply (simp add: assms(3))
    apply (rule wp_release [of p "insert (LSleep i) L"])
    using c assms(2) by (simp_all add: keeps_def ctx_rel ctx_upd_pt eq)
qed

lemma holdingsleep_ok:
  assumes "ctx p L s" "LSleep i \<notin> L"
  shows "wp (holdingsleep i) (\<lambda>r t. keeps p L t s \<and> slstate.more t = slstate.more s \<and> slocks t = slocks s
    \<and> r = (sl_locked (slocks s i) \<and> sl_pid (slocks s i) = mypid s)) s"
proof -
  note c = ctx_acq [OF assms(1,2)]
  have pid: "p_pid (procs (pt s) ! p) = mypid s" using ctxD(4) [OF assms(1)] by (simp add: mypid_def)
  show ?thesis
    unfolding holdingsleep_def wps
    apply (rule wp_acquire [OF assms(1,2)])
    apply (cases "sl_locked (slocks s i)")
     apply simp
     apply (rule wp_my [of p "insert (LSleep i) L"])
      apply (simp add: c)
     apply (rule wp_release [of p "insert (LSleep i) L"])
    using c assms(2) pid apply (simp_all add: keeps_def ctx_rel)
    apply (rule wp_release [of p "insert (LSleep i) L"])
    using c assms(2) by (simp_all add: keeps_def ctx_rel)
qed

end
