(* ===== verification/Bio.thy ===== *)
theory Bio
  imports Sleeplock
begin

text \<open>
  The buffer cache (\<open>src/xv6-public/bio.c\<close>, \<open>buf.h\<close>) over the disk driver with the interface of
  \<open>memide.c\<close>, which transfers a block at once. A \<open>struct buf *\<close> is an index into \<open>bufs\<close>; the list
  through \<open>prev\<close> and \<open>next\<close> is \<open>border\<close>, from \<open>head.next\<close> (most recently used) on. \<open>dtrace\<close> is the
  sequence of block writes the disk has received since it was switched on; a crash keeps a prefix
  of it.

  \<open>blk s b\<close> is the contents of block \<open>b\<close> as its users see it: that of the cached copy if there is a
  valid one, that of the disk otherwise. The lemmas show what \<open>bread\<close>, \<open>bwrite\<close> and \<open>brelse\<close> do to
  it, and that they keep \<open>bio_inv\<close>: at most one buffer per block, and a clean unlocked buffer agrees
  with the disk.
\<close>

section \<open>State and operations\<close>

abbreviation BSIZE :: nat where "BSIZE \<equiv> 512"
abbreviation NBUF :: nat where "NBUF \<equiv> 30"
abbreviation ROOTDEV :: nat where "ROOTDEV \<equiv> 1"

record buf =
  b_valid :: bool
  b_dirty :: bool
  b_dev :: nat
  b_blockno :: nat
  b_refcnt :: nat
  b_data :: "uchar list"

record bstate = slstate +
  bufs :: "buf list"
  border :: "nat list"
  disk :: "uchar list list"
  dtrace :: "(nat \<times> uchar list) list"

definition upd_buf :: "nat \<Rightarrow> (buf \<Rightarrow> buf) \<Rightarrow> 'a bstate_scheme \<Rightarrow> 'a bstate_scheme" where
  "upd_buf i f s = s\<lparr>bufs := (bufs s)[i := f (bufs s ! i)]\<rparr>"

definition binit :: "(unit, 'a bstate_scheme) code" where
  "binit =
     kthen (initlock LBcache) (
     kthen (kmod (\<lambda>s. s\<lparr>border := []\<rparr>)) (
     kiter (\<lambda>i. kthen (initsleeplock (SBuf i)) (kmod (\<lambda>s. s\<lparr>border := i # border s\<rparr>))) [0..<NBUF]))"

definition iderw :: "nat \<Rightarrow> (unit, 'a bstate_scheme) code" where
  "iderw i =
     kbind (holdingsleep (SBuf i)) (\<lambda>h.
     kbind (kget (\<lambda>s. bufs s ! i)) (\<lambda>b.
     kbind (kget (\<lambda>s. length (disk s))) (\<lambda>disksize.
     if \<not> h then kpanic ''iderw: buf not locked''
     else if b_valid b \<and> \<not> b_dirty b then kpanic ''iderw: nothing to do''
     else if b_dev b \<noteq> 1 then kpanic ''iderw: request not for disk 1''
     else if b_blockno b \<ge> disksize then kpanic ''iderw: block out of range''
     else
       kthen (if b_dirty b
              then kthen (kmod (upd_buf i (\<lambda>b. b\<lparr>b_dirty := False\<rparr>))) (
                   kmod (\<lambda>s. s\<lparr>disk := (disk s)[b_blockno b := b_data b],
                                dtrace := dtrace s @ [(b_blockno b, b_data b)]\<rparr>))
              else kmod (\<lambda>s. upd_buf i (\<lambda>c. c\<lparr>b_data := disk s ! b_blockno b\<rparr>) s)) (
       kmod (upd_buf i (\<lambda>b. b\<lparr>b_valid := True\<rparr>))))))"

definition bget :: "nat \<Rightarrow> nat \<Rightarrow> (nat, 'a bstate_scheme) code" where
  "bget dev blockno =
     kthen (acquire LBcache) (
     kbind (kget (\<lambda>s. find (\<lambda>i. b_dev (bufs s ! i) = dev \<and> b_blockno (bufs s ! i) = blockno) (border s))) (\<lambda>f.
     case f of
       Some i \<Rightarrow>
         kthen (kmod (upd_buf i (\<lambda>b. b\<lparr>b_refcnt := b_refcnt b + 1\<rparr>))) (
         kthen (release LBcache) (
         kthen (acquiresleep (SBuf i)) (
         kreturn i)))
     | None \<Rightarrow>
       kbind (kget (\<lambda>s. find (\<lambda>i. b_refcnt (bufs s ! i) = 0 \<and> \<not> b_dirty (bufs s ! i)) (rev (border s)))) (\<lambda>f.
       case f of
         Some i \<Rightarrow>
           kthen (kmod (upd_buf i (\<lambda>b. b\<lparr>b_dev := dev, b_blockno := blockno,
                    b_valid := False, b_dirty := False, b_refcnt := 1\<rparr>))) (
           kthen (release LBcache) (
           kthen (acquiresleep (SBuf i)) (
           kreturn i)))
       | None \<Rightarrow> kpanic ''bget: no buffers'')))"

definition bread :: "nat \<Rightarrow> nat \<Rightarrow> (nat, 'a bstate_scheme) code" where
  "bread dev blockno =
     kbind (bget dev blockno) (\<lambda>i.
     kbind (kget (\<lambda>s. b_valid (bufs s ! i))) (\<lambda>v.
     kthen (kwhen (\<not> v) (iderw i)) (
     kreturn i)))"

definition bwrite :: "nat \<Rightarrow> (unit, 'a bstate_scheme) code" where
  "bwrite i =
     kbind (holdingsleep (SBuf i)) (\<lambda>h.
     if \<not> h then kpanic ''bwrite''
     else
       kthen (kmod (upd_buf i (\<lambda>b. b\<lparr>b_dirty := True\<rparr>)))
       (iderw i))"

text \<open>The critical section at the end of \<open>brelse\<close>.\<close>

definition bunref :: "nat \<Rightarrow> (unit, 'a bstate_scheme) code" where
  "bunref i =
     kthen (acquire LBcache) (
     kthen (kmod (upd_buf i (\<lambda>b. b\<lparr>b_refcnt := (b_refcnt b + 2 ^ 32 - 1) mod 2 ^ 32\<rparr>))) (
     kbind (kget (\<lambda>s. b_refcnt (bufs s ! i))) (\<lambda>n.
     kthen (kwhen (n = 0) (kmod (\<lambda>s. s\<lparr>border := i # remove1 i (border s)\<rparr>))) (
     release LBcache))))"

definition brelse :: "nat \<Rightarrow> (unit, 'a bstate_scheme) code" where
  "brelse i =
     kbind (holdingsleep (SBuf i)) (\<lambda>h.
     if \<not> h then kpanic ''brelse''
     else
       kthen (releasesleep (SBuf i)) (
       bunref i))"

section \<open>Views and invariant\<close>

definition locked_buf :: "'a slstate_scheme \<Rightarrow> nat \<Rightarrow> bool" where
  "locked_buf s i \<longleftrightarrow> sl_locked (slocks s (SBuf i))"

definition blk_of :: "buf list \<Rightarrow> uchar list list \<Rightarrow> nat \<Rightarrow> uchar list" where
  "blk_of bs d b =
     (case find (\<lambda>c. b_dev c = ROOTDEV \<and> b_blockno c = b \<and> b_valid c) bs of
        Some c \<Rightarrow> b_data c
      | None \<Rightarrow> d ! b)"

definition blk :: "'a bstate_scheme \<Rightarrow> nat \<Rightarrow> uchar list" where
  "blk s b = blk_of (bufs s) (disk s) b"

definition pinned :: "buf \<Rightarrow> bool" where
  "pinned b \<longleftrightarrow> b_refcnt b \<noteq> 0 \<or> b_dirty b"

definition npinned :: "'a bstate_scheme \<Rightarrow> nat" where
  "npinned s = length (filter pinned (bufs s))"

text \<open>Everything below the file system, for a process that is alone in the cache: every buffer
  in use is locked by it.\<close>

definition buf_ok :: "'a bstate_scheme \<Rightarrow> nat \<Rightarrow> bool" where
  "buf_ok s i \<longleftrightarrow>
     (let b = bufs s ! i
      in length (b_data b) = BSIZE
         \<and> (b_dirty b \<longrightarrow> b_valid b \<and> b_dev b = ROOTDEV)
         \<and> (b_dev b = ROOTDEV \<longrightarrow> b_blockno b < length (disk s))
         \<and> (b_valid b \<and> b_dev b = ROOTDEV \<and> \<not> b_dirty b \<and> \<not> locked_buf s i \<longrightarrow> b_data b = disk s ! b_blockno b)
         \<and> b_refcnt b = (if locked_buf s i then 1 else 0)
         \<and> (locked_buf s i \<longrightarrow> b_valid b \<and> b_dev b = ROOTDEV \<and> sl_pid (slocks s (SBuf i)) = mypid s))"

definition bio_inv :: "'a bstate_scheme \<Rightarrow> bool" where
  "bio_inv s \<longleftrightarrow> length (bufs s) = NBUF \<and> distinct (border s) \<and> set (border s) = {..<NBUF}
     \<and> (\<forall>d \<in> set (disk s). length d = BSIZE)
     \<and> (\<forall>i < NBUF. buf_ok s i)
     \<and> (\<forall>i < NBUF. \<forall>j < NBUF. b_dev (bufs s ! i) = ROOTDEV \<and> b_dev (bufs s ! j) = ROOTDEV
          \<and> b_blockno (bufs s ! i) = b_blockno (bufs s ! j) \<longrightarrow> i = j)"

definition caches :: "'a bstate_scheme \<Rightarrow> nat \<Rightarrow> nat \<Rightarrow> bool" where
  "caches s i b \<longleftrightarrow> i < NBUF \<and> b_dev (bufs s ! i) = ROOTDEV \<and> b_blockno (bufs s ! i) = b"

text \<open>What a user of the cache sees of \<open>bread\<close>.\<close>

definition bread_post :: "nat \<Rightarrow> 'a bstate_scheme \<Rightarrow> nat \<Rightarrow> nat \<Rightarrow> 'a bstate_scheme \<Rightarrow> bool" where
  "bread_post p s b i t \<longleftrightarrow> keeps p {} t s \<and> bstate.more t = bstate.more s \<and> bio_inv t
     \<and> caches t i b \<and> \<not> locked_buf s i \<and> locked_buf t i \<and> b_data (bufs t ! i) = blk s b
     \<and> blk t = blk s \<and> disk t = disk s \<and> dtrace t = dtrace s
     \<and> npinned t \<le> npinned s + 1 \<and> (b_dirty (bufs t ! i) \<longrightarrow> npinned t = npinned s)
     \<and> (b_dirty (bufs t ! i) \<or> b_data (bufs t ! i) = disk t ! b)
     \<and> b_dirty (bufs t ! i) = (\<exists>j. caches s j b \<and> b_dirty (bufs s ! j))
     \<and> (\<forall>j. j \<noteq> i \<longrightarrow> locked_buf t j = locked_buf s j)
     \<and> (\<forall>j. j \<noteq> i \<longrightarrow> bufs t ! j = bufs s ! j)
     \<and> (b_dirty (bufs s ! i) \<longrightarrow> caches s i b)
     \<and> (\<forall>k. (\<forall>j. k \<noteq> SBuf j) \<longrightarrow> slocks t k = slocks s k)"

definition bwrite_post :: "nat \<Rightarrow> 'a bstate_scheme \<Rightarrow> nat \<Rightarrow> 'a bstate_scheme \<Rightarrow> bool" where
  "bwrite_post p s i t \<longleftrightarrow> keeps p {} t s \<and> bstate.more t = bstate.more s \<and> bio_inv t \<and> blk t = blk s
     \<and> slocks t = slocks s \<and> border t = border s
     \<and> disk t = (disk s)[b_blockno (bufs s ! i) := b_data (bufs s ! i)]
     \<and> dtrace t = dtrace s @ [(b_blockno (bufs s ! i), b_data (bufs s ! i))]
     \<and> bufs t = (bufs s)[i := (bufs s ! i)\<lparr>b_dirty := False\<rparr>] \<and> npinned t = npinned s"

definition brelse_post :: "nat \<Rightarrow> 'a bstate_scheme \<Rightarrow> nat \<Rightarrow> 'a bstate_scheme \<Rightarrow> bool" where
  "brelse_post p s i t \<longleftrightarrow> keeps p {} t s \<and> bstate.more t = bstate.more s \<and> bio_inv t \<and> blk t = blk s
     \<and> disk t = disk s \<and> dtrace t = dtrace s \<and> bufs t = (bufs s)[i := (bufs s ! i)\<lparr>b_refcnt := 0\<rparr>]
     \<and> \<not> locked_buf t i \<and> (\<forall>j. j \<noteq> i \<longrightarrow> locked_buf t j = locked_buf s j)
     \<and> npinned t + (if b_dirty (bufs s ! i) then 0 else 1) = npinned s
     \<and> (\<forall>k. (\<forall>j. k \<noteq> SBuf j) \<longrightarrow> slocks t k = slocks s k)"

section \<open>Frames\<close>

lemma bstate_frame [simp]:
  "bufs (settle s) = bufs s" "bufs (acq l s) = bufs s" "bufs (rel l s) = bufs s"
  "bufs (upd_pt f s) = bufs s" "bufs (upd_sl k g s) = bufs s"
  "border (settle s) = border s" "border (acq l s) = border s" "border (rel l s) = border s"
  "disk (settle s) = disk s" "disk (acq l s) = disk s" "disk (rel l s) = disk s"
  "dtrace (settle s) = dtrace s" "dtrace (acq l s) = dtrace s" "dtrace (rel l s) = dtrace s"
  "bstate.more (settle s) = bstate.more s" "bstate.more (acq l s) = bstate.more s"
  "bstate.more (rel l s) = bstate.more s" "bstate.more (upd_pt f s) = bstate.more s"
  by (simp_all add: settle_def acq_def push_st_def rel_def pop_st_def upd_cpu_def upd_lock_def upd_pt_def upd_sl_def)

lemma slmore_eq:
  "slstate.more t = slstate.more s \<longleftrightarrow> bufs t = bufs s \<and> border t = border s \<and> disk t = disk s
     \<and> dtrace t = dtrace s \<and> bstate.more t = bstate.more s"
  by (cases s; cases t; simp)

lemma ctx_bstate [simp]:
  "ctx p L (s\<lparr>bufs := x\<rparr>) = ctx p L s" "ctx p L (s\<lparr>border := y\<rparr>) = ctx p L s"
  "ctx p L (s\<lparr>disk := z\<rparr>) = ctx p L s" "ctx p L (s\<lparr>dtrace := w\<rparr>) = ctx p L s"
  by (simp_all add: ctx_def cpu_ok_def me_def my_ncli_def curproc_def held_def lock_free_def)

lemma upd_buf_frame [simp]:
  "pt (upd_buf i f s) = pt s" "slocks (upd_buf i f s) = slocks s" "border (upd_buf i f s) = border s"
  "disk (upd_buf i f s) = disk s" "dtrace (upd_buf i f s) = dtrace s"
  "bstate.more (upd_buf i f s) = bstate.more s"
  "bufs (upd_buf i f s) = (bufs s)[i := f (bufs s ! i)]" "ctx p L (upd_buf i f s) = ctx p L s"
  by (simp_all add: upd_buf_def)

section \<open>The driver\<close>

lemma iderw_reads:
  assumes "ctx p {} s" "sl_locked (slocks s (SBuf i))" "sl_pid (slocks s (SBuf i)) = mypid s"
    and "\<not> b_valid (bufs s ! i)" "\<not> b_dirty (bufs s ! i)" "b_dev (bufs s ! i) = ROOTDEV"
    and "b_blockno (bufs s ! i) < length (disk s)" "i < length (bufs s)"
  shows "wp (iderw i) (\<lambda>_ t. keeps p {} t s \<and> slocks t = slocks s \<and> border t = border s \<and> disk t = disk s
    \<and> dtrace t = dtrace s \<and> bstate.more t = bstate.more s
    \<and> bufs t = (bufs s)[i := (bufs s ! i)\<lparr>b_data := disk s ! b_blockno (bufs s ! i), b_valid := True\<rparr>]) s"
  unfolding iderw_def wps
  using assms
  by (intro wp_mono [OF holdingsleep_ok [OF assms(1)]])
    (auto simp: slmore_eq keeps_def)

lemma iderw_writes:
  assumes "ctx p {} s" "sl_locked (slocks s (SBuf i))" "sl_pid (slocks s (SBuf i)) = mypid s"
    and "b_dirty (bufs s ! i)" "b_dev (bufs s ! i) = ROOTDEV"
    and "b_blockno (bufs s ! i) < length (disk s)" "i < length (bufs s)"
  shows "wp (iderw i) (\<lambda>_ t. keeps p {} t s \<and> slocks t = slocks s \<and> border t = border s
    \<and> disk t = (disk s)[b_blockno (bufs s ! i) := b_data (bufs s ! i)]
    \<and> dtrace t = dtrace s @ [(b_blockno (bufs s ! i), b_data (bufs s ! i))]
    \<and> bstate.more t = bstate.more s
    \<and> bufs t = (bufs s)[i := (bufs s ! i)\<lparr>b_dirty := False, b_valid := True\<rparr>]) s"
  unfolding iderw_def wps
  using assms
  by (intro wp_mono [OF holdingsleep_ok [OF assms(1)]])
    (auto simp: slmore_eq keeps_def)

section \<open>Getting a buffer\<close>

lemma bget_cached:
  assumes "ctx p {} s" "find (\<lambda>i. b_dev (bufs s ! i) = dev \<and> b_blockno (bufs s ! i) = b) (border s) = Some i"
    and "\<not> locked_buf s i"
  shows "wp (bget dev b) (\<lambda>j t. j = i \<and> keeps p {} t s \<and> border t = border s \<and> disk t = disk s
    \<and> dtrace t = dtrace s \<and> bstate.more t = bstate.more s
    \<and> slocks t = (slocks s)(SBuf i := \<lparr>sl_locked = True, sl_pid = mypid s\<rparr>)
    \<and> bufs t = (bufs s)[i := (bufs s ! i)\<lparr>b_refcnt := b_refcnt (bufs s ! i) + 1\<rparr>]) s"
proof -
  let ?a = "upd_buf i (\<lambda>b. b\<lparr>b_refcnt := b_refcnt b + 1\<rparr>) (acq LBcache s)"
  have c: "ctx p {LBcache} (acq LBcache s)" using ctx_acq [OF assms(1), of LBcache] by simp
  then have r: "ctx p {} (rel LBcache ?a)" using ctx_rel [of p LBcache "{}" ?a] by simp
  have "wp (acquiresleep (SBuf i)) (\<lambda>_ t. keeps p {} t (rel LBcache ?a) \<and> slstate.more t = slstate.more (rel LBcache ?a)
      \<and> slocks t = (slocks (rel LBcache ?a))(SBuf i := \<lparr>sl_locked = True, sl_pid = mypid (rel LBcache ?a)\<rparr>)) (rel LBcache ?a)"
    using acquiresleep_free [OF r, of "SBuf i"] assms(3) by (simp add: locked_buf_def)
  moreover have "mypid (rel LBcache ?a) = mypid s"
    using ctxD(4) [OF r] ctxD(4) [OF assms(1)] by (simp add: mypid_def)
  ultimately show ?thesis
    unfolding bget_def wps
    apply -
    apply (rule wp_acquire [OF assms(1)], simp)
    apply (simp add: wps assms(2))
    apply (rule wp_release [OF _ insertI1, of p _ "{}"])
    using c apply simp
    apply (erule wp_mono)
    by (auto simp: slmore_eq keeps_def)
qed

lemma bget_recycles:
  assumes "ctx p {} s" "find (\<lambda>i. b_dev (bufs s ! i) = dev \<and> b_blockno (bufs s ! i) = b) (border s) = None"
    and "find (\<lambda>i. b_refcnt (bufs s ! i) = 0 \<and> \<not> b_dirty (bufs s ! i)) (rev (border s)) = Some i"
    and "\<not> locked_buf s i"
  shows "wp (bget dev b) (\<lambda>j t. j = i \<and> keeps p {} t s \<and> border t = border s \<and> disk t = disk s
    \<and> dtrace t = dtrace s \<and> bstate.more t = bstate.more s
    \<and> slocks t = (slocks s)(SBuf i := \<lparr>sl_locked = True, sl_pid = mypid s\<rparr>)
    \<and> bufs t = (bufs s)[i := (bufs s ! i)\<lparr>b_dev := dev, b_blockno := b, b_valid := False, b_dirty := False, b_refcnt := 1\<rparr>]) s"
proof -
  let ?a = "upd_buf i (\<lambda>c. c\<lparr>b_dev := dev, b_blockno := b, b_valid := False, b_dirty := False, b_refcnt := 1\<rparr>) (acq LBcache s)"
  have c: "ctx p {LBcache} (acq LBcache s)" using ctx_acq [OF assms(1), of LBcache] by simp
  then have r: "ctx p {} (rel LBcache ?a)" using ctx_rel [of p LBcache "{}" ?a] by simp
  have "wp (acquiresleep (SBuf i)) (\<lambda>_ t. keeps p {} t (rel LBcache ?a) \<and> slstate.more t = slstate.more (rel LBcache ?a)
      \<and> slocks t = (slocks (rel LBcache ?a))(SBuf i := \<lparr>sl_locked = True, sl_pid = mypid (rel LBcache ?a)\<rparr>)) (rel LBcache ?a)"
    using acquiresleep_free [OF r, of "SBuf i"] assms(4) by (simp add: locked_buf_def)
  moreover have "mypid (rel LBcache ?a) = mypid s"
    using ctxD(4) [OF r] ctxD(4) [OF assms(1)] by (simp add: mypid_def)
  ultimately show ?thesis
    unfolding bget_def wps
    apply -
    apply (rule wp_acquire [OF assms(1)], simp)
    apply (simp add: wps assms(2,3))
    apply (rule wp_release [OF _ insertI1, of p _ "{}"])
    using c apply simp
    apply (erule wp_mono)
    by (auto simp: slmore_eq keeps_def)
qed



section \<open>The cached view\<close>

lemma bio_invD:
  assumes "bio_inv s"
  shows "length (bufs s) = NBUF" "distinct (border s)" "set (border s) = {..<NBUF}"
    "d \<in> set (disk s) \<Longrightarrow> length d = BSIZE" "i < NBUF \<Longrightarrow> buf_ok s i"
    "caches s i b \<Longrightarrow> caches s j b \<Longrightarrow> i = j"
  using assms by (auto simp: bio_inv_def caches_def)

lemma bio_invI:
  assumes "length (bufs s) = NBUF" "distinct (border s)" "set (border s) = {..<NBUF}"
    and "\<And>d. d \<in> set (disk s) \<Longrightarrow> length d = BSIZE" "\<And>i. i < NBUF \<Longrightarrow> buf_ok s i"
    and "\<And>i j b. caches s i b \<Longrightarrow> caches s j b \<Longrightarrow> i = j"
  shows "bio_inv s"
  unfolding bio_inv_def using assms by (metis caches_def)

lemma blk_cached:
  assumes "bio_inv s" "caches s i b" "b_valid (bufs s ! i)"
  shows "blk s b = b_data (bufs s ! i)"
proof -
  let ?P = "\<lambda>c. b_dev c = ROOTDEV \<and> b_blockno c = b \<and> b_valid c"
  have l: "length (bufs s) = NBUF" by (rule bio_invD [OF assms(1)])
  have "find ?P (bufs s) \<noteq> None"
    using assms(2,3) l by (auto simp: find_None_iff caches_def in_set_conv_nth)
  then obtain c where c: "find ?P (bufs s) = Some c" by auto
  then obtain j where j: "j < NBUF" "c = bufs s ! j" "?P c" using l by (auto simp: find_Some_iff)
  then have "caches s j b" by (simp add: caches_def)
  then have "j = i" using bio_invD(6) [OF assms(1)] assms(2) by blast
  then show ?thesis using c j by (simp add: blk_def blk_of_def)
qed

lemma blk_uncached:
  assumes "bio_inv s" "\<And>i. caches s i b \<Longrightarrow> \<not> b_valid (bufs s ! i)"
  shows "blk s b = disk s ! b"
proof -
  have "find (\<lambda>c. b_dev c = ROOTDEV \<and> b_blockno c = b \<and> b_valid c) (bufs s) = None"
    using assms(2) bio_invD(1) [OF assms(1)] by (auto simp: find_None_iff caches_def in_set_conv_nth)
  then show ?thesis by (simp add: blk_def blk_of_def)
qed

lemma blk_cases:
  assumes "bio_inv s"
  obtains i where "caches s i b" "b_valid (bufs s ! i)" "blk s b = b_data (bufs s ! i)"
  | "\<And>i. caches s i b \<Longrightarrow> \<not> b_valid (bufs s ! i)" "blk s b = disk s ! b"
  using blk_cached [OF assms] blk_uncached [OF assms] by metis

lemma length_blk:
  assumes "bio_inv s" "b < length (disk s)"
  shows "length (blk s b) = BSIZE"
proof (rule blk_cases [OF assms(1), of b])
  fix i assume "caches s i b" "blk s b = b_data (bufs s ! i)"
  then show ?thesis using bio_invD(5) [OF assms(1), of i] by (simp add: caches_def buf_ok_def Let_def)
next
  assume "blk s b = disk s ! b"
  then show ?thesis using bio_invD(4) [OF assms(1)] assms(2) by simp
qed

lemma blk_clean:
  assumes "bio_inv s" "\<And>i. caches s i b \<Longrightarrow> \<not> b_dirty (bufs s ! i) \<and> \<not> locked_buf s i"
  shows "blk s b = disk s ! b"
proof (rule blk_cases [OF assms(1), of b])
  fix i assume "caches s i b" "b_valid (bufs s ! i)" "blk s b = b_data (bufs s ! i)"
  then show ?thesis using bio_invD(5) [OF assms(1), of i] assms(2) [of i] by (simp add: caches_def buf_ok_def Let_def)
qed

text \<open>Putting a buffer for block \<open>b\<close> into slot \<open>i\<close> and locking it does not change the view.\<close>

lemma install_buf:
  assumes s: "bio_inv s" "i < NBUF" "\<not> locked_buf s i" "\<And>j. caches s j b \<Longrightarrow> j = i" "b < length (disk s)"
    and nb: "b_dev nb = ROOTDEV" "b_blockno nb = b" "b_valid nb" "b_refcnt nb = 1" "b_data nb = blk s b"
      "b_dirty nb = b_dirty (bufs s ! i)" "b_dirty (bufs s ! i) \<Longrightarrow> caches s i b"
    and t: "bufs t = (bufs s)[i := nb]" "slocks t = (slocks s)(SBuf i := \<lparr>sl_locked = True, sl_pid = mypid s\<rparr>)"
      "border t = border s" "disk t = disk s" "mypid t = mypid s"
  shows "bio_inv t" "blk t = blk s" "caches t i b"
proof -
  note inv = bio_invD [OF s(1)]
  have nth: "bufs t ! j = (if j = i then nb else bufs s ! j)" if "j < NBUF" for j
    using that inv(1) s(2) by (simp add: t(1))
  have lk: "locked_buf t j = (j = i \<or> locked_buf s j)" for j by (simp add: locked_buf_def t(2))
  show ci: "caches t i b" using s(2) nb(1,2) by (simp add: caches_def nth)
  have cj: "caches t j c \<longleftrightarrow> (if j = i then c = b else caches s j c)" for j c
    using nth [of j] nb(1,2) s(2) by (auto simp: caches_def)
  have "buf_ok t j" if "j < NBUF" for j
  proof (cases "j = i")
    case True
    then show ?thesis
      using nb s(2,5) length_blk [OF s(1,5)] by (simp add: buf_ok_def Let_def nth lk t(2,4,5))
  next
    case False
    then show ?thesis
      using inv(5) [OF that] that by (simp add: buf_ok_def Let_def nth lk t(2,4,5) fun_upd_def)
  qed
  moreover have "j = k" if "caches t j c" "caches t k c" for j k c
    using that inv(6) s(4) by (auto simp: cj split: if_splits)
  ultimately show bt: "bio_inv t" using inv(1-4) by (intro bio_invI) (auto simp: t)
  show "blk t = blk s"
  proof
    fix c
    show "blk t c = blk s c"
    proof (cases "c = b")
      case True
      then show ?thesis using blk_cached [OF bt ci] nb(3,5) s(2) by (simp add: nth)
    next
      case False
      have old: "blk s c = disk s ! c" if "caches s i c"
      proof (rule blk_clean [OF s(1)])
        fix j assume "caches s j c"
        then have "j = i" using inv(6) that by blast
        then show "\<not> b_dirty (bufs s ! j) \<and> \<not> locked_buf s j"
          using s(3) nb(7) that False by (auto simp: caches_def)
      qed
      show ?thesis
      proof (rule blk_cases [OF bt, of c])
        fix j assume j: "caches t j c" "b_valid (bufs t ! j)" "blk t c = b_data (bufs t ! j)"
        then have "caches s j c" "j \<noteq> i" using False by (auto simp: cj split: if_splits)
        moreover have "j < NBUF" using j(1) by (simp add: caches_def)
        ultimately show ?thesis using blk_cached [OF s(1), of j c] j nth [of j] by simp
      next
        assume c: "\<And>j. caches t j c \<Longrightarrow> \<not> b_valid (bufs t ! j)" "blk t c = disk t ! c"
        have "blk s c = disk s ! c"
        proof (cases "caches s i c")
          case True
          then show ?thesis by (rule old)
        next
          case no: False
          show ?thesis
          proof (rule blk_uncached [OF s(1)])
            fix j assume "caches s j c"
            then have "j \<noteq> i" "j < NBUF" using no by (auto simp: caches_def)
            then show "\<not> b_valid (bufs s ! j)" using c(1) [of j] \<open>caches s j c\<close> nth [of j] by (simp add: cj)
          qed
        qed
        then show ?thesis using c(2) t(4) by simp
      qed
    qed
  qed
qed



lemma unpinned_ex:
  assumes "bio_inv s" "npinned s < NBUF"
  shows "\<exists>i. find (\<lambda>i. b_refcnt (bufs s ! i) = 0 \<and> \<not> b_dirty (bufs s ! i)) (rev (border s)) = Some i
    \<and> i < NBUF \<and> b_refcnt (bufs s ! i) = 0 \<and> \<not> b_dirty (bufs s ! i)"
proof -
  let ?P = "\<lambda>i. b_refcnt (bufs s ! i) = 0 \<and> \<not> b_dirty (bufs s ! i)"
  have l: "length (bufs s) = NBUF" and st: "set (border s) = {..<NBUF}" using bio_invD [OF assms(1)] by auto
  have "\<exists>c \<in> set (bufs s). \<not> pinned c"
  proof (rule ccontr)
    assume "\<not> ?thesis"
    then have "filter pinned (bufs s) = bufs s" by (auto simp: filter_id_conv)
    then show False using assms(2) l by (simp add: npinned_def)
  qed
  then obtain i where "i < NBUF" "?P i" using l by (auto simp: in_set_conv_nth pinned_def)
  then have "find ?P (rev (border s)) \<noteq> None" using st by (auto simp: find_None_iff)
  then obtain j where j: "find ?P (rev (border s)) = Some j" by auto
  then have "?P j" "j \<in> set (rev (border s))" by (auto simp: find_Some_iff) (metis length_rev nth_mem set_rev)
  then show ?thesis using j st by auto
qed

lemma unlocked_refcnt:
  "bio_inv s \<Longrightarrow> i < NBUF \<Longrightarrow> b_refcnt (bufs s ! i) = 0 \<longleftrightarrow> \<not> locked_buf s i"
  using bio_invD(5) [of s i] by (auto simp: buf_ok_def Let_def)

lemma bread_post_I:
  assumes s: "bio_inv s" "i < NBUF" "\<not> locked_buf s i" "\<And>j. caches s j b \<Longrightarrow> j = i" "b < length (disk s)"
    and nb: "b_dev nb = ROOTDEV" "b_blockno nb = b" "b_valid nb" "b_refcnt nb = 1" "b_data nb = blk s b"
      "b_dirty nb = b_dirty (bufs s ! i)" "b_dirty (bufs s ! i) \<Longrightarrow> caches s i b"
    and t: "bufs t = (bufs s)[i := nb]" "slocks t = (slocks s)(SBuf i := \<lparr>sl_locked = True, sl_pid = mypid s\<rparr>)"
      "border t = border s" "disk t = disk s" "mypid t = mypid s"
    and r: "keeps p {} t s" "bstate.more t = bstate.more s" "dtrace t = dtrace s"
  shows "bread_post p s b i t"
proof -
  note ib = install_buf [OF s nb t]
  have l: "length (bufs s) = NBUF" using bio_invD(1) [OF s(1)] .
  have "npinned t \<le> npinned s + 1" "b_dirty nb \<Longrightarrow> npinned t = npinned s"
    using length_filter_update [of i "bufs s" pinned nb] s(2) l nb(6)
    by (auto simp: npinned_def t(1) pinned_def split: if_splits)
  moreover have "b_dirty nb \<or> b_data nb = disk t ! b"
    using blk_clean [OF s(1), of b] s(3,4) nb(5,6) t(4) by metis
  moreover have "b_dirty nb = (\<exists>j. caches s j b \<and> b_dirty (bufs s ! j))" using nb(6,7) s(4) by auto
  moreover have "locked_buf t i" by (simp add: locked_buf_def t(2))
  moreover have "locked_buf t j = locked_buf s j" if "j \<noteq> i" for j using that by (simp add: locked_buf_def t(2))
  ultimately show ?thesis using ib r s(2,3) t nb l by (auto simp: bread_post_def)
qed

lemma bread_ok:
  assumes "ctx p {} s" "bio_inv s" "b < length (disk s)" "npinned s < NBUF \<or> (\<exists>i. caches s i b)"
    and "\<And>i. caches s i b \<Longrightarrow> \<not> locked_buf s i"
  shows "wp (bread ROOTDEV b) (bread_post p s b) s"
proof (cases "find (\<lambda>i. b_dev (bufs s ! i) = ROOTDEV \<and> b_blockno (bufs s ! i) = b) (border s)")
  case (Some i)
  then obtain j where "j < length (border s)" "i = border s ! j" "b_dev (bufs s ! i) = ROOTDEV"
      "b_blockno (bufs s ! i) = b"
    by (auto simp: find_Some_iff)
  then have i: "caches s i b" using bio_invD(3) [OF assms(2)] nth_mem by (fastforce simp: caches_def)
  then have il: "i < NBUF" "\<not> locked_buf s i" using assms(5) by (auto simp: caches_def)
  have uniq: "\<And>j. caches s j b \<Longrightarrow> j = i" using i bio_invD(6) [OF assms(2)] by blast
  have rc: "b_refcnt (bufs s ! i) = 0" using unlocked_refcnt [OF assms(2) il(1)] il(2) by simp
  have l: "length (bufs s) = NBUF" using bio_invD(1) [OF assms(2)] .
  have dirty: "b_dirty (bufs s ! i) \<Longrightarrow> b_valid (bufs s ! i)"
    using bio_invD(5) [OF assms(2) il(1)] by (simp add: buf_ok_def Let_def)
  show ?thesis
    unfolding bread_def wps
  proof (rule wp_mono [OF bget_cached [OF assms(1) Some il(2)]], clarify)
    fix t
    assume t: "keeps p {} t s" "border t = border s" "disk t = disk s" "dtrace t = dtrace s"
      "bstate.more t = bstate.more s" "slocks t = (slocks s)(SBuf i := \<lparr>sl_locked = True, sl_pid = mypid s\<rparr>)"
      "bufs t = (bufs s)[i := (bufs s ! i)\<lparr>b_refcnt := b_refcnt (bufs s ! i) + 1\<rparr>]"
    have pid: "mypid t = mypid s" using keeps_mypid [OF assms(1) t(1)] .
    show "if \<not> b_valid (bufs t ! i) then wp (iderw i) (\<lambda>_. bread_post p s b i) t else bread_post p s b i t"
    proof (cases "b_valid (bufs s ! i)")
      case True
      have "bread_post p s b i t"
        using bread_post_I [OF assms(2) il uniq assms(3) _ _ _ _ _ _ _ t(7,6,2,3) pid t(1,5,4)]
          i True rc blk_cached [OF assms(2) i True] by (auto simp: caches_def)
      then show ?thesis using True il l by (simp add: t(7))
    next
      case False
      have nd: "\<not> b_dirty (bufs s ! i)" using dirty False by blast
      have bs: "blk s b = disk s ! b" using blk_uncached [OF assms(2), of b] uniq False by blast
      have "wp (iderw i) (\<lambda>_. bread_post p s b i) t"
      proof (rule wp_mono [OF iderw_reads [of p t i]])
        fix u assume u: "keeps p {} u t \<and> slocks u = slocks t \<and> border u = border t \<and> disk u = disk t
          \<and> dtrace u = dtrace t \<and> bstate.more u = bstate.more t
          \<and> bufs u = (bufs t)[i := (bufs t ! i)\<lparr>b_data := disk t ! b_blockno (bufs t ! i), b_valid := True\<rparr>]"
        have ub: "bufs u = (bufs s)[i := (bufs s ! i)\<lparr>b_refcnt := b_refcnt (bufs s ! i) + 1, b_data := disk s ! b, b_valid := True\<rparr>]"
          using u t(3,7) il l i by (simp add: caches_def)
        have ku: "keeps p {} u s" using u t(1) keeps_trans by blast
        show "bread_post p s b i u"
          by (rule bread_post_I [OF assms(2) il uniq assms(3) _ _ _ _ _ _ _ ub])
            (use u t ku keeps_mypid [OF assms(1) ku] i rc nd bs in \<open>auto simp: caches_def\<close>)
      qed (use t False nd i il l assms(3) pid in \<open>auto simp: caches_def keeps_def\<close>)
      then show ?thesis using False il l by (simp add: t(7))
    qed
  qed
next
  case None
  have nc: "\<not> caches s j b" for j
    using None bio_invD(3) [OF assms(2)] by (auto simp: find_None_iff caches_def)
  then have room: "npinned s < NBUF" using assms(4) by blast
  obtain i where i: "find (\<lambda>i. b_refcnt (bufs s ! i) = 0 \<and> \<not> b_dirty (bufs s ! i)) (rev (border s)) = Some i"
      "i < NBUF" "b_refcnt (bufs s ! i) = 0" "\<not> b_dirty (bufs s ! i)"
    using unpinned_ex [OF assms(2) room] by blast
  have nl: "\<not> locked_buf s i" using unlocked_refcnt [OF assms(2) i(2)] i(3) by simp
  have bs: "blk s b = disk s ! b" using blk_uncached [OF assms(2), of b] nc by blast
  have l: "length (bufs s) = NBUF" using bio_invD(1) [OF assms(2)] .
  show ?thesis
    unfolding bread_def wps
  proof (rule wp_mono [OF bget_recycles [OF assms(1) None i(1) nl]], clarify)
    fix t
    assume t: "keeps p {} t s" "border t = border s" "disk t = disk s" "dtrace t = dtrace s"
      "bstate.more t = bstate.more s" "slocks t = (slocks s)(SBuf i := \<lparr>sl_locked = True, sl_pid = mypid s\<rparr>)"
      "bufs t = (bufs s)[i := (bufs s ! i)\<lparr>b_dev := ROOTDEV, b_blockno := b, b_valid := False, b_dirty := False, b_refcnt := 1\<rparr>]"
    have pid: "mypid t = mypid s" using keeps_mypid [OF assms(1) t(1)] .
    have "wp (iderw i) (\<lambda>_. bread_post p s b i) t"
    proof (rule wp_mono [OF iderw_reads [of p t i]])
      fix u assume u: "keeps p {} u t \<and> slocks u = slocks t \<and> border u = border t \<and> disk u = disk t
        \<and> dtrace u = dtrace t \<and> bstate.more u = bstate.more t
        \<and> bufs u = (bufs t)[i := (bufs t ! i)\<lparr>b_data := disk t ! b_blockno (bufs t ! i), b_valid := True\<rparr>]"
      have ub: "bufs u = (bufs s)[i := (bufs s ! i)\<lparr>b_dev := ROOTDEV, b_blockno := b, b_dirty := False,
          b_refcnt := 1, b_data := disk s ! b, b_valid := True\<rparr>]"
        using u t(3,7) i(2) l by simp
      have ku: "keeps p {} u s" using u t(1) keeps_trans by blast
      show "bread_post p s b i u"
        by (rule bread_post_I [OF assms(2) i(2) nl _ assms(3) _ _ _ _ _ _ _ ub])
          (use u t ku keeps_mypid [OF assms(1) ku] i(4) nc bs in auto)
    qed (use t i(2) l assms(3) pid in \<open>auto simp: keeps_def\<close>)
    then show "if \<not> b_valid (bufs t ! i) then wp (iderw i) (\<lambda>_. bread_post p s b i) t else bread_post p s b i t"
      using i(2) l by (simp add: t(7))
  qed
qed



lemma locked_props:
  assumes "bio_inv s" "i < NBUF" "locked_buf s i"
  shows "b_valid (bufs s ! i)" "b_dev (bufs s ! i) = ROOTDEV" "b_blockno (bufs s ! i) < length (disk s)"
    "sl_locked (slocks s (SBuf i))" "sl_pid (slocks s (SBuf i)) = mypid s" "b_refcnt (bufs s ! i) = 1"
    "length (b_data (bufs s ! i)) = BSIZE" "i < length (bufs s)"
  using bio_invD(5) [OF assms(1,2)] assms bio_invD(1) [OF assms(1)]
  by (auto simp: buf_ok_def Let_def locked_buf_def)

lemma mypid_upd_buf [simp]: "mypid (upd_buf i f s) = mypid s"
proof -
  have "cpus (upd_buf i f s) = cpus s" "lapicid (upd_buf i f s) = lapicid s" by (simp_all add: upd_buf_def)
  then show ?thesis by (simp add: mypid_def curproc_def me_def split: option.split)
qed

text \<open>Changing the contents of a locked buffer changes the view of its block.\<close>

lemma set_data:
  assumes "bio_inv s" "caches s i b" "locked_buf s i" "length d = BSIZE"
    and "bufs t = (bufs s)[i := (bufs s ! i)\<lparr>b_data := d, b_dirty := dt\<rparr>]" "slocks t = slocks s"
      "border t = border s" "disk t = disk s" "mypid t = mypid s"
  shows "bio_inv t" "blk t = (blk s)(b := d)"
proof -
  have i: "i < NBUF" using assms(2) by (simp add: caches_def)
  note lp = locked_props [OF assms(1) i assms(3)] and inv = bio_invD [OF assms(1)]
  have nth: "bufs t ! j = (if j = i then (bufs s ! i)\<lparr>b_data := d, b_dirty := dt\<rparr> else bufs s ! j)" if "j < NBUF" for j
    using that lp(8) by (simp add: assms(5))
  have lk: "locked_buf t = locked_buf s" by (rule ext) (simp add: locked_buf_def assms(6))
  have cj: "caches t j c = caches s j c" for j c by (cases "j = i") (auto simp: caches_def nth)
  have "buf_ok t j" if "j < NBUF" for j
    using inv(5) [OF that] lp assms(3,4) that by (auto simp: buf_ok_def Let_def nth lk assms(6,8,9))
  then show bt: "bio_inv t"
    using inv(1-4,6) by (intro bio_invI) (auto simp: assms(5,7,8) cj)
  show "blk t = (blk s)(b := d)"
  proof
    fix c
    show "blk t c = ((blk s)(b := d)) c"
    proof (cases "c = b")
      case True
      then show ?thesis using blk_cached [OF bt, of i b] assms(2) lp(1) i by (simp add: cj nth)
    next
      case False
      have ne: "j \<noteq> i" "j < NBUF" if "caches s j c" for j using that assms(2) False by (auto simp: caches_def)
      show ?thesis
      proof (rule blk_cases [OF assms(1), of c])
        fix j assume j: "caches s j c" "b_valid (bufs s ! j)" "blk s c = b_data (bufs s ! j)"
        then show ?thesis using blk_cached [OF bt, of j c] ne [OF j(1)] False by (simp add: cj nth)
      next
        assume j: "\<And>j. caches s j c \<Longrightarrow> \<not> b_valid (bufs s ! j)" "blk s c = disk s ! c"
        have "blk t c = disk t ! c"
          by (rule blk_uncached [OF bt]) (use j(1) ne nth in \<open>auto simp: cj\<close>)
        then show ?thesis using j(2) False assms(8) by simp
      qed
    qed
  qed
qed

lemma bwrite_state:
  assumes "bio_inv s" "i < NBUF" "locked_buf s i"
    and "slocks t = slocks s" "border t = border s"
      "disk t = (disk s)[b_blockno (bufs s ! i) := b_data (bufs s ! i)]"
      "bufs t = (bufs s)[i := (bufs s ! i)\<lparr>b_dirty := False\<rparr>]" "mypid t = mypid s"
  shows "bio_inv t" "blk t = blk s" "npinned t = npinned s"
proof -
  note lp = locked_props [OF assms(1-3)] and inv = bio_invD [OF assms(1)]
  let ?b = "b_blockno (bufs s ! i)"
  have nth: "bufs t ! j = (if j = i then (bufs s ! i)\<lparr>b_dirty := False\<rparr> else bufs s ! j)" if "j < NBUF" for j
    using that lp(8) by (simp add: assms(7))
  have lk: "locked_buf t = locked_buf s" by (rule ext) (simp add: locked_buf_def assms(4))
  have cj: "caches t j c = caches s j c" for j c by (cases "j = i") (auto simp: caches_def nth)
  have ci: "caches s i ?b" using assms(2) lp(2) by (simp add: caches_def)
  have d: "disk t ! c = (if c = ?b then b_data (bufs s ! i) else disk s ! c)" for c
    using lp(3) by (simp add: assms(6))
  have "buf_ok t j" if j: "j < NBUF" for j
  proof (cases "j = i")
    case True
    then show ?thesis using inv(5) [OF j] lp j assms(3) by (simp add: buf_ok_def Let_def nth lk assms(4,6,8))
  next
    case False
    have "b_blockno (bufs s ! j) \<noteq> ?b" if "b_dev (bufs s ! j) = ROOTDEV"
    proof
      assume "b_blockno (bufs s ! j) = ?b"
      then have "caches s j ?b" using that j by (simp add: caches_def)
      then show False using inv(6) ci False by blast
    qed
    then show ?thesis using inv(5) [OF j] False j by (auto simp: buf_ok_def Let_def nth lk assms(4,6,8))
  qed
  moreover have "length e = BSIZE" if "e \<in> set (disk t)" for e
    using that inv(4) lp(7) set_update_subset_insert by (fastforce simp: assms(6))
  ultimately show bt: "bio_inv t"
    using inv(1-3,6) by (intro bio_invI) (auto simp: assms(5,7) cj)
  show "blk t = blk s"
  proof
    fix c show "blk t c = blk s c"
    proof (rule blk_cases [OF assms(1), of c])
      fix j assume j: "caches s j c" "b_valid (bufs s ! j)" "blk s c = b_data (bufs s ! j)"
      then have "j < NBUF" by (simp add: caches_def)
      then show ?thesis using blk_cached [OF bt, of j c] j by (cases "j = i") (simp_all add: cj nth)
    next
      assume j: "\<And>j. caches s j c \<Longrightarrow> \<not> b_valid (bufs s ! j)" "blk s c = disk s ! c"
      have "c \<noteq> ?b" using j(1) ci lp(1) by blast
      moreover have "blk t c = disk t ! c"
      proof (rule blk_uncached [OF bt])
        fix k assume "caches t k c"
        then have "caches s k c" "k < NBUF" by (simp_all add: cj) (simp add: caches_def)
        then show "\<not> b_valid (bufs t ! k)" using j(1) by (auto simp: nth)
      qed
      ultimately show ?thesis using j(2) d by simp
    qed
  qed
  show "npinned t = npinned s"
    using length_filter_update [of i "bufs s" pinned "(bufs s ! i)\<lparr>b_dirty := False\<rparr>"] lp(6,8)
    by (simp add: npinned_def assms(7) pinned_def)
qed

lemma bwrite_ok:
  assumes "ctx p {} s" "bio_inv s" "i < NBUF" "locked_buf s i"
  shows "wp (bwrite i) (\<lambda>_. bwrite_post p s i) s"
  unfolding bwrite_def wps
proof (rule wp_mono [OF holdingsleep_ok [OF assms(1)]])
  note lp = locked_props [OF assms(2-4)]
  fix h t
  assume "keeps p {} t s \<and> slstate.more t = slstate.more s \<and> slocks t = slocks s
    \<and> h = (sl_locked (slocks s (SBuf i)) \<and> sl_pid (slocks s (SBuf i)) = mypid s)"
  then have t: "keeps p {} t s" "bufs t = bufs s" "border t = border s" "disk t = disk s" "dtrace t = dtrace s"
      "bstate.more t = bstate.more s" "slocks t = slocks s" "h"
    using lp by (auto simp: slmore_eq)
  let ?d = "upd_buf i (\<lambda>b. b\<lparr>b_dirty := True\<rparr>) t"
  have pid: "mypid t = mypid s" using keeps_mypid [OF assms(1) t(1)] .
  have "mypid ?d = mypid t" by (rule mypid_upd_buf)
  have "wp (iderw i) (\<lambda>_. bwrite_post p s i) ?d"
  proof (rule wp_mono [OF iderw_writes [of p ?d i]])
    fix u
    assume u: "keeps p {} u ?d \<and> slocks u = slocks ?d \<and> border u = border ?d
      \<and> disk u = (disk ?d)[b_blockno (bufs ?d ! i) := b_data (bufs ?d ! i)]
      \<and> dtrace u = dtrace ?d @ [(b_blockno (bufs ?d ! i), b_data (bufs ?d ! i))]
      \<and> bstate.more u = bstate.more ?d
      \<and> bufs u = (bufs ?d)[i := (bufs ?d ! i)\<lparr>b_dirty := False, b_valid := True\<rparr>]"
    have ku: "keeps p {} u s" using u t(1) only_wakes_trans by (auto simp: keeps_def)
    have "(bufs s ! i)\<lparr>b_dirty := False, b_valid := True\<rparr> = (bufs s ! i)\<lparr>b_dirty := False\<rparr>"
      using lp(1) by (cases "bufs s ! i") simp
    then have ub: "bufs u = (bufs s)[i := (bufs s ! i)\<lparr>b_dirty := False\<rparr>]"
      using u t(2) lp(8) by simp
    show "bwrite_post p s i u"
      using bwrite_state [OF assms(2-4) _ _ _ ub keeps_mypid [OF assms(1) ku]] u t ub ku lp(8)
      by (simp add: bwrite_post_def)
  qed (use t lp pid \<open>mypid ?d = mypid t\<close> in \<open>auto simp: keeps_def\<close>)
  then show "if \<not> h then False else wp (iderw i) (\<lambda>_. bwrite_post p s i) ?d"
    using t(8) by simp
qed simp

lemma brelse_state:
  assumes "bio_inv s" "i < NBUF" "locked_buf s i"
    and "b_dirty (bufs s ! i) \<or> b_data (bufs s ! i) = disk s ! b_blockno (bufs s ! i)"
    and "slocks t = (slocks s)(SBuf i := \<lparr>sl_locked = False, sl_pid = 0\<rparr>)"
      "border t = i # remove1 i (border s)" "disk t = disk s"
      "bufs t = (bufs s)[i := (bufs s ! i)\<lparr>b_refcnt := 0\<rparr>]" "mypid t = mypid s"
  shows "bio_inv t" "blk t = blk s" "npinned t + (if b_dirty (bufs s ! i) then 0 else 1) = npinned s"
proof -
  note lp = locked_props [OF assms(1-3)] and inv = bio_invD [OF assms(1)]
  have nth: "bufs t ! j = (if j = i then (bufs s ! i)\<lparr>b_refcnt := 0\<rparr> else bufs s ! j)" if "j < NBUF" for j
    using that lp(8) by (simp add: assms(8))
  have lk: "locked_buf t j = (j \<noteq> i \<and> locked_buf s j)" for j by (simp add: locked_buf_def assms(5))
  have cj: "caches t j c = caches s j c" for j c by (cases "j = i") (auto simp: caches_def nth)
  have "buf_ok t j" if j: "j < NBUF" for j
  proof (cases "j = i")
    case True
    then show ?thesis using inv(5) [OF j] lp j assms(4) by (auto simp: buf_ok_def Let_def nth lk assms(5,7,9))
  next
    case False
    then show ?thesis using inv(5) [OF j] j by (simp add: buf_ok_def Let_def nth lk assms(5,7,9))
  qed
  moreover have "distinct (border t)" "set (border t) = {..<NBUF}"
    using inv(2,3) assms(2) by (auto simp: assms(6) distinct_remove1 set_remove1_eq)
  ultimately show bt: "bio_inv t"
    using inv(1,4,6) by (intro bio_invI) (auto simp: assms(7,8) cj)
  show "blk t = blk s"
  proof
    fix c show "blk t c = blk s c"
    proof (rule blk_cases [OF assms(1), of c])
      fix j assume j: "caches s j c" "b_valid (bufs s ! j)" "blk s c = b_data (bufs s ! j)"
      then have "j < NBUF" by (simp add: caches_def)
      then show ?thesis using blk_cached [OF bt, of j c] j by (cases "j = i") (simp_all add: cj nth)
    next
      assume j: "\<And>j. caches s j c \<Longrightarrow> \<not> b_valid (bufs s ! j)" "blk s c = disk s ! c"
      have "blk t c = disk t ! c"
      proof (rule blk_uncached [OF bt])
        fix k assume "caches t k c"
        then have "caches s k c" "k < NBUF" by (simp_all add: cj) (simp add: caches_def)
        then show "\<not> b_valid (bufs t ! k)" using j(1) by (auto simp: nth)
      qed
      then show ?thesis using j(2) assms(7) by simp
    qed
  qed
  show "npinned t + (if b_dirty (bufs s ! i) then 0 else 1) = npinned s"
    using length_filter_update [of i "bufs s" pinned "(bufs s ! i)\<lparr>b_refcnt := 0\<rparr>"] lp(6,8)
    by (auto simp: npinned_def assms(8) pinned_def)
qed

lemma brelse_ok:
  assumes "ctx p {} s" "bio_inv s" "i < NBUF" "locked_buf s i"
    and "b_dirty (bufs s ! i) \<or> b_data (bufs s ! i) = disk s ! b_blockno (bufs s ! i)"
  shows "wp (brelse i) (\<lambda>_. brelse_post p s i) s"
  unfolding brelse_def wps
proof (rule wp_mono [OF holdingsleep_ok [OF assms(1)]])
  note lp = locked_props [OF assms(2-4)]
  fix h t
  assume "keeps p {} t s \<and> slstate.more t = slstate.more s \<and> slocks t = slocks s
    \<and> h = (sl_locked (slocks s (SBuf i)) \<and> sl_pid (slocks s (SBuf i)) = mypid s)"
  then have t: "keeps p {} t s" "bufs t = bufs s" "border t = border s" "disk t = disk s" "dtrace t = dtrace s"
      "bstate.more t = bstate.more s" "slocks t = slocks s" "h"
    using lp by (auto simp: slmore_eq)
  have ct: "ctx p {} t" using t(1) by (rule keepsD)
  have "wp (releasesleep (SBuf i)) (\<lambda>_. wp (bunref i) (\<lambda>_. brelse_post p s i)) t"
  proof (rule wp_mono [OF releasesleep_ok [OF ct]])
    fix u
    assume "keeps p {} u t \<and> slstate.more u = slstate.more t
      \<and> slocks u = (slocks t)(SBuf i := \<lparr>sl_locked = False, sl_pid = 0\<rparr>)"
    then have u: "keeps p {} u s" "bufs u = bufs s" "border u = border s" "disk u = disk s" "dtrace u = dtrace s"
        "bstate.more u = bstate.more s" "slocks u = (slocks s)(SBuf i := \<lparr>sl_locked = False, sl_pid = 0\<rparr>)"
      using t keeps_trans by (auto simp: slmore_eq)
    have cu: "ctx p {} u" using u(1) by (rule keepsD)
    have ca: "ctx p {LBcache} (acq LBcache u)" using ctx_acq [OF cu, of LBcache] by simp
    let ?a = "upd_buf i (\<lambda>b. b\<lparr>b_refcnt := (b_refcnt b + 2 ^ 32 - 1) mod 2 ^ 32\<rparr>) (acq LBcache u)"
    let ?v = "?a\<lparr>border := i # remove1 i (border s)\<rparr>"
    have cr: "ctx p {} (rel LBcache ?v)" using ctx_rel [of p LBcache "{}" ?v] ca by simp
    have kv: "keeps p {} (rel LBcache ?v) s" using cr u(1) by (simp add: keeps_def)
    have bv: "bufs (rel LBcache ?v) = (bufs s)[i := (bufs s ! i)\<lparr>b_refcnt := 0\<rparr>]"
      using u(2) lp(6) by simp
    have "brelse_post p s i (rel LBcache ?v)"
      using brelse_state [OF assms(2-5) _ _ _ bv keeps_mypid [OF assms(1) kv]] u bv kv
      by (simp add: brelse_post_def locked_buf_def)
    moreover have "b_refcnt (bufs ?a ! i) = 0" using u(2) lp(6,8) by simp
    ultimately show "wp (bunref i) (\<lambda>_. brelse_post p s i) u"
      unfolding bunref_def wps using u(3) ca
      by (intro wp_acquire [OF cu]) (auto intro!: wp_release [of p "{LBcache}"])
  qed simp_all
  then show "if \<not> h then False else wp (releasesleep (SBuf i)) (\<lambda>_. wp (bunref i) (\<lambda>_. brelse_post p s i)) t"
    using t(8) by simp
qed simp

end
