(* ===== verification/Bytes.thy ===== *)
theory Bytes
  imports Prelude
begin

text \<open>
  How the kernel lays out integers in a block of bytes: 16 and 32 bit little-endian fields, read and
  written in place (the casts \<open>(uint*)bp->data\<close>, \<open>(struct dinode*)bp->data + ...\<close>,
  \<open>(struct logheader*)buf->data\<close>, and \<open>struct dirent\<close>), and copies of byte ranges
  (\<open>memmove\<close> between disjoint buffers).
\<close>

section \<open>Ranges of bytes\<close>

definition slice :: "nat \<Rightarrow> nat \<Rightarrow> 'a list \<Rightarrow> 'a list" where
  "slice off n bs = take n (drop off bs)"

definition splice :: "nat \<Rightarrow> 'a list \<Rightarrow> 'a list \<Rightarrow> 'a list" where
  "splice off xs bs = take off bs @ xs @ drop (off + length xs) bs"

fun le_bytes :: "nat \<Rightarrow> nat \<Rightarrow> uchar list" where
  "le_bytes 0 n = []"
| "le_bytes (Suc k) n = of_nat (n mod 256) # le_bytes k (n div 256)"

fun de_bytes :: "uchar list \<Rightarrow> nat" where
  "de_bytes [] = 0"
| "de_bytes (b # bs) = unat b + 256 * de_bytes bs"

definition get32 :: "uchar list \<Rightarrow> nat \<Rightarrow> nat" where
  "get32 bs off = de_bytes (slice off 4 bs)"

definition put32 :: "nat \<Rightarrow> nat \<Rightarrow> uchar list \<Rightarrow> uchar list" where
  "put32 off n bs = splice off (le_bytes 4 n) bs"

definition get16 :: "uchar list \<Rightarrow> nat \<Rightarrow> nat" where
  "get16 bs off = de_bytes (slice off 2 bs)"

definition put16 :: "nat \<Rightarrow> nat \<Rightarrow> uchar list \<Rightarrow> uchar list" where
  "put16 off n bs = splice off (le_bytes 2 n) bs"

text \<open>Signed fields.\<close>

definition geti32 :: "uchar list \<Rightarrow> nat \<Rightarrow> int" where
  "geti32 bs off = i32 (int (get32 bs off))"

definition puti32 :: "nat \<Rightarrow> int \<Rightarrow> uchar list \<Rightarrow> uchar list" where
  "puti32 off v bs = put32 off (nat (v mod 2 ^ 32)) bs"

definition i16 :: "int \<Rightarrow> int" where
  "i16 x = (x + 2 ^ 15) mod 2 ^ 16 - 2 ^ 15"

definition geti16 :: "uchar list \<Rightarrow> nat \<Rightarrow> int" where
  "geti16 bs off = i16 (int (get16 bs off))"

definition puti16 :: "nat \<Rightarrow> int \<Rightarrow> uchar list \<Rightarrow> uchar list" where
  "puti16 off v bs = put16 off (nat (v mod 2 ^ 16)) bs"

section \<open>Laws\<close>

lemma length_slice [simp]: "length (slice off n bs) = min n (length bs - off)"
  by (simp add: slice_def)

lemma length_splice [simp]: "off + length xs \<le> length bs \<Longrightarrow> length (splice off xs bs) = length bs"
  by (simp add: splice_def)

lemma slice_splice_same: "off \<le> length bs \<Longrightarrow> slice off (length xs) (splice off xs bs) = xs"
  by (simp add: slice_def splice_def)

lemma nth_splice:
  assumes "off + length xs \<le> length bs" "i < length bs"
  shows "splice off xs bs ! i = (if off \<le> i \<and> i < off + length xs then xs ! (i - off) else bs ! i)"
  using assms by (auto simp: splice_def nth_append)

lemma nth_slice: "i < n \<Longrightarrow> off + i < length bs \<Longrightarrow> slice off n bs ! i = bs ! (off + i)"
  by (simp add: slice_def)

lemma slice_splice_disjoint:
  assumes "off + length xs \<le> length bs" "o' + n \<le> off \<or> off + length xs \<le> o'"
  shows "slice o' n (splice off xs bs) = slice o' n bs"
proof (rule nth_equalityI)
  show "length (slice o' n (splice off xs bs)) = length (slice o' n bs)" using assms by simp
  fix i assume "i < length (slice o' n (splice off xs bs))"
  then have i: "i < n" "o' + i < length bs" using assms by auto
  then have "slice o' n (splice off xs bs) ! i = splice off xs bs ! (o' + i)"
    using assms(1) by (intro nth_slice) simp_all
  also have "\<dots> = bs ! (o' + i)" using i assms by (auto simp: nth_splice)
  finally show "slice o' n (splice off xs bs) ! i = slice o' n bs ! i" using i by (simp add: nth_slice)
qed

lemma length_le_bytes [simp]: "length (le_bytes k n) = k"
  by (induction k arbitrary: n) auto

lemma de_le_bytes: "de_bytes (le_bytes k n) = n mod 256 ^ k"
proof (induction k arbitrary: n)
  case (Suc k)
  have "unat (of_nat (n mod 256) :: uchar) = n mod 256"
    by (simp add: unat_of_nat)
  then have "de_bytes (le_bytes (Suc k) n) = n mod 256 + 256 * (n div 256 mod 256 ^ k)"
    using Suc by simp
  also have "\<dots> = n mod (256 * 256 ^ k)" by (simp only: mod_mult2_eq)
  finally show ?case by simp
qed simp

lemma de_bytes_bound: "de_bytes bs < 256 ^ length bs"
proof (induction bs)
  case (Cons b bs)
  have "unat b < 256" using unsigned_less [of b, where ?'a = nat] by simp
  then show ?case using Cons by simp
qed simp

lemma le_de_bytes: "le_bytes (length bs) (de_bytes bs) = bs"
proof (induction bs)
  case (Cons b bs)
  have "unat b < 256" using unsigned_less [of b, where ?'a = nat] by simp
  then have "(unat b + 256 * de_bytes bs) mod 256 = unat b" "(unat b + 256 * de_bytes bs) div 256 = de_bytes bs"
    by auto
  then show ?case using Cons by simp
qed simp

lemma length_put [simp]:
  "off + 4 \<le> length bs \<Longrightarrow> length (put32 off n bs) = length bs"
  "off + 2 \<le> length bs \<Longrightarrow> length (put16 off n bs) = length bs"
  "off + 4 \<le> length bs \<Longrightarrow> length (puti32 off v bs) = length bs"
  "off + 2 \<le> length bs \<Longrightarrow> length (puti16 off v bs) = length bs"
  by (simp_all add: put32_def put16_def puti32_def puti16_def)

lemma get32_put32_same: "off + 4 \<le> length bs \<Longrightarrow> get32 (put32 off n bs) off = n mod 2 ^ 32"
  using slice_splice_same [of off bs "le_bytes 4 n"] by (simp add: get32_def put32_def de_le_bytes)

lemma get16_put16_same: "off + 2 \<le> length bs \<Longrightarrow> get16 (put16 off n bs) off = n mod 2 ^ 16"
  using slice_splice_same [of off bs "le_bytes 2 n"] by (simp add: get16_def put16_def de_le_bytes)

lemma get_put_other:
  "off + 4 \<le> length bs \<Longrightarrow> o' + 4 \<le> off \<or> off + 4 \<le> o' \<Longrightarrow> get32 (put32 off n bs) o' = get32 bs o'"
  "off + 2 \<le> length bs \<Longrightarrow> o' + 4 \<le> off \<or> off + 2 \<le> o' \<Longrightarrow> get32 (put16 off n bs) o' = get32 bs o'"
  "off + 4 \<le> length bs \<Longrightarrow> o' + 2 \<le> off \<or> off + 4 \<le> o' \<Longrightarrow> get16 (put32 off n bs) o' = get16 bs o'"
  "off + 2 \<le> length bs \<Longrightarrow> o' + 2 \<le> off \<or> off + 2 \<le> o' \<Longrightarrow> get16 (put16 off n bs) o' = get16 bs o'"
  by (simp_all add: get32_def put32_def get16_def put16_def slice_splice_disjoint)

lemma get32_bound: "get32 bs off < 2 ^ 32"
proof -
  have "de_bytes (slice off 4 bs) < 256 ^ length (slice off 4 bs)" by (rule de_bytes_bound)
  also have "\<dots> \<le> 256 ^ 4" by (rule power_increasing) simp_all
  finally show ?thesis by (simp add: get32_def)
qed

lemma i32_wrap: "i32 (x mod 2 ^ 32) = i32 x"
  by (simp add: i32_def mod_add_left_eq)

lemma i16_wrap: "i16 (x mod 2 ^ 16) = i16 x"
  by (simp add: i16_def mod_add_left_eq)

lemma geti32_puti32_same: "off + 4 \<le> length bs \<Longrightarrow> int_range v \<Longrightarrow> geti32 (puti32 off v bs) off = v"
  using i32_wrap [of v] by (simp add: geti32_def puti32_def get32_put32_same nat_mod_distrib)

lemma geti16_puti16_same:
  "off + 2 \<le> length bs \<Longrightarrow> - (2 ^ 15) \<le> v \<Longrightarrow> v < 2 ^ 15 \<Longrightarrow> geti16 (puti16 off v bs) off = v"
  using i16_wrap [of v] by (simp add: geti16_def puti16_def get16_put16_same i16_def)

lemma geti_puti_other:
  "off + 4 \<le> length bs \<Longrightarrow> o' + 4 \<le> off \<or> off + 4 \<le> o' \<Longrightarrow> geti32 (puti32 off v bs) o' = geti32 bs o'"
  "off + 4 \<le> length bs \<Longrightarrow> o' + 4 \<le> off \<or> off + 4 \<le> o' \<Longrightarrow> get32 (puti32 off v bs) o' = get32 bs o'"
  by (simp_all add: geti32_def puti32_def get_put_other)

lemma get32_zeros [simp]: "get32 (replicate n 0) off = 0"
proof -
  have "de_bytes (replicate k 0) = 0" for k by (induction k) auto
  then show ?thesis by (simp add: get32_def slice_def)
qed

end
