(* ===== verification/Log.thy ===== *)
theory Log
  imports Bio Bytes
begin

text \<open>
  The redo log (\<open>src/xv6-public/log.c\<close>, and \<open>readsb\<close> of \<open>fs.c\<close>). The log header on disk is a count
  and as many block numbers; the logged blocks follow it. \<open>commit\<close> writes the modified blocks to the
  log, then the header (the transaction is committed), then the blocks to their homes, then an empty
  header. \<open>recover_from_log\<close> runs at boot.

  The lemmas give the disk writes each phase performs. The theory \<open>LogCrash\<close> uses them to show that
  a crash at any point leaves either the old or the new contents after recovery.
\<close>

section \<open>State\<close>

abbreviation LOGSIZE :: nat where "LOGSIZE \<equiv> 30"
abbreviation MAXOPBLOCKS :: nat where "MAXOPBLOCKS \<equiv> 10"

record logst =
  lg_start :: int
  lg_size :: int
  lg_outstanding :: int
  lg_committing :: bool
  lg_dev :: nat
  lh_n :: int
  lh_block :: "int list"

record superblock =
  sb_size :: nat
  sb_nblocks :: nat
  sb_ninodes :: nat
  sb_nlog :: nat
  sb_logstart :: nat
  sb_inodestart :: nat
  sb_bmapstart :: nat

record lstate = bstate +
  lg :: logst

definition upd_lg :: "(logst \<Rightarrow> logst) \<Rightarrow> 'a lstate_scheme \<Rightarrow> 'a lstate_scheme" where
  "upd_lg f s = s\<lparr>lg := f (lg s)\<rparr>"

definition get_lg :: "(logst \<Rightarrow> 'b) \<Rightarrow> ('b, 'a lstate_scheme) code" where
  "get_lg f = kget (\<lambda>s. f (lg s))"

text \<open>The conversion of an \<open>int\<close> to the \<open>uint\<close> parameter of \<open>bread\<close>.\<close>

definition ublk :: "int \<Rightarrow> nat" where
  "ublk v = nat (v mod 2 ^ 32)"

definition set_bdata :: "nat \<Rightarrow> (uchar list \<Rightarrow> uchar list) \<Rightarrow> (unit, 'a bstate_scheme) code" where
  "set_bdata i f = kmod (upd_buf i (\<lambda>b. b\<lparr>b_data := f (b_data b)\<rparr>))"

definition get_bdata :: "nat \<Rightarrow> (uchar list, 'a bstate_scheme) code" where
  "get_bdata i = kget (\<lambda>s. b_data (bufs s ! i))"

section \<open>Operations\<close>

definition sb_of_bytes :: "uchar list \<Rightarrow> superblock" where
  "sb_of_bytes d = \<lparr>sb_size = get32 d 0, sb_nblocks = get32 d 4, sb_ninodes = get32 d 8, sb_nlog = get32 d 12,
     sb_logstart = get32 d 16, sb_inodestart = get32 d 20, sb_bmapstart = get32 d 24\<rparr>"

definition readsb :: "nat \<Rightarrow> (superblock, 'a bstate_scheme) code" where
  "readsb dev =
     kbind (bread dev 1) (\<lambda>bp.
     kbind (get_bdata bp) (\<lambda>d.
     kthen (brelse bp) (
     kreturn (sb_of_bytes d))))"

text \<open>\<open>log.lh.block[i]\<close>, an array of \<open>LOGSIZE\<close> ints.\<close>

definition get_block :: "nat \<Rightarrow> (int, 'a lstate_scheme) code" where
  "get_block i = (if i < LOGSIZE then get_lg (\<lambda>g. lh_block g ! i) else kfault ''log.lh.block index out of range'')"

definition set_block :: "nat \<Rightarrow> int \<Rightarrow> (unit, 'a lstate_scheme) code" where
  "set_block i v =
     (if i < LOGSIZE then kmod (upd_lg (\<lambda>g. g\<lparr>lh_block := (lh_block g)[i := v]\<rparr>))
      else kfault ''log.lh.block index out of range'')"

definition install1 :: "nat \<Rightarrow> (unit, 'a lstate_scheme) code" where
  "install1 tail =
     kbind (get_lg lg_dev) (\<lambda>dev.
     kbind (get_lg lg_start) (\<lambda>start.
     kbind (bread dev (ublk (start + int tail + 1))) (\<lambda>lbuf.
     kbind (get_block tail) (\<lambda>b.
     kbind (bread dev (ublk b)) (\<lambda>dbuf.
     kbind (get_bdata lbuf) (\<lambda>d.
     kthen (set_bdata dbuf (\<lambda>_. d)) (
     kthen (bwrite dbuf) (
     kthen (brelse lbuf) (
     brelse dbuf)))))))))"

definition install_trans :: "(unit, 'a lstate_scheme) code" where
  "install_trans = kbind (get_lg lh_n) (\<lambda>n. kiter install1 [0..<nat n])"

definition read_head :: "(unit, 'a lstate_scheme) code" where
  "read_head =
     kbind (get_lg lg_dev) (\<lambda>dev.
     kbind (get_lg lg_start) (\<lambda>start.
     kbind (bread dev (ublk start)) (\<lambda>buf.
     kbind (get_bdata buf) (\<lambda>d.
     kthen (kmod (upd_lg (\<lambda>g. g\<lparr>lh_n := geti32 d 0\<rparr>))) (
     kthen (kiter (\<lambda>i. set_block i (geti32 d (4 + 4 * i))) [0..<nat (geti32 d 0)]) (
     brelse buf))))))"

definition write_head :: "(unit, 'a lstate_scheme) code" where
  "write_head =
     kbind (get_lg lg_dev) (\<lambda>dev.
     kbind (get_lg lg_start) (\<lambda>start.
     kbind (bread dev (ublk start)) (\<lambda>buf.
     kbind (get_lg lh_n) (\<lambda>n.
     kthen (set_bdata buf (puti32 0 n)) (
     kthen (kiter (\<lambda>i. kbind (get_block i) (\<lambda>b. set_bdata buf (puti32 (4 + 4 * i) b))) [0..<nat n]) (
     kthen (bwrite buf) (
     brelse buf)))))))"

definition recover_from_log :: "(unit, 'a lstate_scheme) code" where
  "recover_from_log =
     kthen read_head (
     kthen install_trans (
     kthen (kmod (upd_lg (\<lambda>g. g\<lparr>lh_n := 0\<rparr>)))
     write_head))"

definition initlog :: "nat \<Rightarrow> (unit, 'a lstate_scheme) code" where
  "initlog dev =
     kthen (initlock LLog) (
     kbind (readsb dev) (\<lambda>sb.
     kthen (kmod (upd_lg (\<lambda>g. g\<lparr>lg_start := i32 (int (sb_logstart sb)), lg_size := i32 (int (sb_nlog sb)), lg_dev := dev\<rparr>)))
     recover_from_log))"

definition begin_op :: "(unit, 'a lstate_scheme) code" where
  "begin_op =
     kthen (acquire LLog) (
     kloop (
       kbind (kget lg) (\<lambda>g.
       if lg_committing g then kthen (sleep CLog (Some LLog)) (kreturn None)
       else if lh_n g + (lg_outstanding g + 1) * int MAXOPBLOCKS > int LOGSIZE
       then kthen (sleep CLog (Some LLog)) (kreturn None)
       else
         kthen (kmod (upd_lg (\<lambda>g. g\<lparr>lg_outstanding := lg_outstanding g + 1\<rparr>))) (
         kthen (release LLog) (
         kreturn (Some ()))))))"

definition write_log1 :: "nat \<Rightarrow> (unit, 'a lstate_scheme) code" where
  "write_log1 tail =
     kbind (get_lg lg_dev) (\<lambda>dev.
     kbind (get_lg lg_start) (\<lambda>start.
     kbind (bread dev (ublk (start + int tail + 1))) (\<lambda>to.
     kbind (get_block tail) (\<lambda>b.
     kbind (bread dev (ublk b)) (\<lambda>from.
     kbind (get_bdata from) (\<lambda>d.
     kthen (set_bdata to (\<lambda>_. d)) (
     kthen (bwrite to) (
     kthen (brelse from) (
     brelse to)))))))))"

definition write_log :: "(unit, 'a lstate_scheme) code" where
  "write_log = kbind (get_lg lh_n) (\<lambda>n. kiter write_log1 [0..<nat n])"

definition commit :: "(unit, 'a lstate_scheme) code" where
  "commit =
     kbind (get_lg lh_n) (\<lambda>n.
     kwhen (n > 0) (
       kthen write_log (
       kthen write_head (
       kthen install_trans (
       kthen (kmod (upd_lg (\<lambda>g. g\<lparr>lh_n := 0\<rparr>)))
       write_head)))))"

definition end_op :: "(unit, 'a lstate_scheme) code" where
  "end_op =
     kthen (acquire LLog) (
     kthen (kmod (upd_lg (\<lambda>g. g\<lparr>lg_outstanding := lg_outstanding g - 1\<rparr>))) (
     kbind (kget lg) (\<lambda>g.
     if lg_committing g then kpanic ''log.committing''
     else
       kbind (if lg_outstanding g = 0
              then kthen (kmod (upd_lg (\<lambda>g. g\<lparr>lg_committing := True\<rparr>))) (kreturn True)
              else kthen (wakeup CLog) (kreturn False)) (\<lambda>do_commit.
       kthen (release LLog) (
       kwhen do_commit (
         kthen commit (
         kthen (acquire LLog) (
         kthen (kmod (upd_lg (\<lambda>g. g\<lparr>lg_committing := False\<rparr>))) (
         kthen (wakeup CLog) (
         release LLog))))))))))"

definition log_write :: "nat \<Rightarrow> (unit, 'a lstate_scheme) code" where
  "log_write b =
     kbind (kget lg) (\<lambda>g.
     if lh_n g \<ge> int LOGSIZE \<or> lh_n g \<ge> lg_size g - 1 then kpanic ''too big a transaction''
     else if lg_outstanding g < 1 then kpanic ''log_write outside of trans''
     else
       kthen (acquire LLog) (
       kbind (kget (\<lambda>s. b_blockno (bufs s ! b))) (\<lambda>bno.
       kbind (get_lg (\<lambda>g. case first_idx (\<lambda>v. ublk v = bno) (take (nat (lh_n g)) (lh_block g)) of
                            Some i \<Rightarrow> i | None \<Rightarrow> nat (lh_n g))) (\<lambda>i.
       kthen (set_block i (i32 (int bno))) (
       kbind (get_lg lh_n) (\<lambda>n.
       kthen (kwhen (int i = n) (kmod (upd_lg (\<lambda>g. g\<lparr>lh_n := lh_n g + 1\<rparr>)))) (
       kthen (kmod (upd_buf b (\<lambda>b. b\<lparr>b_dirty := True\<rparr>))) (
       release LLog))))))))"

section \<open>Frames\<close>

lemma lg_frame [simp]:
  "lg (settle s) = lg s" "lg (acq l s) = lg s" "lg (rel l s) = lg s" "lg (upd_pt f s) = lg s"
  "lg (upd_buf i g s) = lg s" "lg (upd_sl k h s) = lg s"
  "lstate.more (settle s) = lstate.more s" "lstate.more (acq l s) = lstate.more s"
  "lstate.more (rel l s) = lstate.more s" "lstate.more (upd_pt f s) = lstate.more s"
  "lstate.more (upd_buf i g s) = lstate.more s"
  by (simp_all add: settle_def acq_def push_st_def rel_def pop_st_def upd_cpu_def upd_lock_def upd_pt_def
      upd_buf_def upd_sl_def)

lemma bmore_eq: "bstate.more t = bstate.more s \<longleftrightarrow> lg t = lg s \<and> lstate.more t = lstate.more s"
  by (cases s; cases t; simp)

lemma upd_lg_frame [simp]:
  "pt (upd_lg f s) = pt s" "slocks (upd_lg f s) = slocks s" "bufs (upd_lg f s) = bufs s"
  "border (upd_lg f s) = border s" "disk (upd_lg f s) = disk s" "dtrace (upd_lg f s) = dtrace s"
  "lg (upd_lg f s) = f (lg s)" "lstate.more (upd_lg f s) = lstate.more s"
  by (simp_all add: upd_lg_def)

lemma upd_lg_preds [simp]:
  "ctx p L (upd_lg f s) = ctx p L s" "mypid (upd_lg f s) = mypid s" "blk (upd_lg f s) = blk s"
  "npinned (upd_lg f s) = npinned s" "caches (upd_lg f s) = caches s" "locked_buf (upd_lg f s) = locked_buf s"
  "bio_inv (upd_lg f s) = bio_inv s"
proof -
  have c: "cpus (upd_lg f s) = cpus s" "lapicid (upd_lg f s) = lapicid s" "locks (upd_lg f s) = locks s"
      "eflags_if (upd_lg f s) = eflags_if s"
    by (simp_all add: upd_lg_def)
  then show "ctx p L (upd_lg f s) = ctx p L s"
    by (simp add: ctx_def cpu_ok_def me_def my_ncli_def curproc_def held_def lock_free_def)
  show m: "mypid (upd_lg f s) = mypid s"
    using c by (simp add: mypid_def curproc_def me_def split: option.split)
  show "blk (upd_lg f s) = blk s" by (rule ext) (simp add: blk_def)
  show "npinned (upd_lg f s) = npinned s" by (simp add: npinned_def)
  show "caches (upd_lg f s) = caches s" by (intro ext) (simp add: caches_def)
  show l: "locked_buf (upd_lg f s) = locked_buf s" by (rule ext) (simp add: locked_buf_def)
  have "buf_ok (upd_lg f s) i = buf_ok s i" for i using m l by (simp add: buf_ok_def)
  then show "bio_inv (upd_lg f s) = bio_inv s" by (simp add: bio_inv_def)
qed

end
