(* ===== verification/LogCrash.thy ===== *)
theory LogCrash
  imports Log
begin

text \<open>
  What the write-ahead log of \<open>log.c\<close> promises. A state is \<open>quiet\<close> when a process runs with no spin
  lock and no buffer locked; then a block has one content, \<open>blk s b\<close>, in the cache or on the disk, and
  \<open>dirtyb s b\<close> says that the cache copy is newer. \<open>wrote p s ws t\<close> describes a piece of code that writes
  exactly the blocks \<open>ws\<close> to the disk, in this order, and leaves the rest of the state alone; the
  phases of a commit are specified with it: \<open>write_log_ok\<close>, \<open>write_head_ok\<close>, \<open>install_ok\<close>, and from them
  \<open>commit_ok\<close>. \<open>recover_ok\<close> is the boot-time recovery.

  The main theorem, \<open>commit_crash_safe\<close>, stops the machine after any prefix of the disk writes of a
  commit and boots it again.
\<close>

section \<open>Definitions\<close>

definition quiet :: "nat \<Rightarrow> 'a bstate_scheme \<Rightarrow> bool" where
  "quiet p s \<longleftrightarrow> ctx p {} s \<and> bio_inv s \<and> (\<forall>i < NBUF. \<not> locked_buf s i)"

definition dirtyb :: "'a bstate_scheme \<Rightarrow> nat \<Rightarrow> bool" where
  "dirtyb s b \<longleftrightarrow> (\<exists>i. caches s i b \<and> b_dirty (bufs s ! i))"

text \<open>Two different blocks read, the second while the first is held.\<close>

definition two_bufs :: "nat \<Rightarrow> 'a bstate_scheme \<Rightarrow> nat \<Rightarrow> nat \<Rightarrow> nat \<Rightarrow> nat \<Rightarrow> 'a bstate_scheme \<Rightarrow> bool" where
  "two_bufs p s x y i j t \<longleftrightarrow> keeps p {} t s \<and> bstate.more t = bstate.more s \<and> bio_inv t \<and> i \<noteq> j
     \<and> caches t i x \<and> caches t j y \<and> (\<forall>k < NBUF. locked_buf t k \<longleftrightarrow> k = i \<or> k = j)
     \<and> b_data (bufs t ! i) = blk s x \<and> b_data (bufs t ! j) = blk s y \<and> blk t = blk s
     \<and> disk t = disk s \<and> dtrace t = dtrace s
     \<and> (b_dirty (bufs t ! i) \<or> b_data (bufs t ! i) = disk s ! x)
     \<and> (b_dirty (bufs t ! j) \<or> b_data (bufs t ! j) = disk s ! y)
     \<and> (\<forall>c. dirtyb t c = dirtyb s c)"

definition copy_post :: "nat \<Rightarrow> 'a bstate_scheme \<Rightarrow> nat \<Rightarrow> uchar list \<Rightarrow> 'a bstate_scheme \<Rightarrow> bool" where
  "copy_post p s x D t \<longleftrightarrow> quiet p t \<and> keeps p {} t s \<and> bstate.more t = bstate.more s
     \<and> disk t = (disk s)[x := D] \<and> dtrace t = dtrace s @ [(x, D)] \<and> blk t = (blk s)(x := D)
     \<and> (\<forall>c. dirtyb t c \<longleftrightarrow> dirtyb s c \<and> c \<noteq> x)"

text \<open>The two blocks a round of \<open>write_log\<close> or \<open>install_trans\<close> works on.\<close>

definition log_slot :: "logst \<Rightarrow> nat \<Rightarrow> nat" where
  "log_slot g i = ublk (lg_start g + int i + 1)"

definition home :: "logst \<Rightarrow> nat \<Rightarrow> nat" where
  "home g i = ublk (lh_block g ! i)"

definition head_bytes :: "int \<Rightarrow> int list \<Rightarrow> uchar list \<Rightarrow> uchar list" where
  "head_bytes n bl d = fold (\<lambda>i d. puti32 (4 + 4 * i) (bl ! i) d) [0..<nat n] (puti32 0 n d)"

primrec apply_writes :: "(nat \<times> uchar list) list \<Rightarrow> uchar list list \<Rightarrow> uchar list list" where
  "apply_writes [] d = d"
| "apply_writes (w # ws) d = apply_writes ws (d[fst w := snd w])"

primrec apply_fun :: "(nat \<times> uchar list) list \<Rightarrow> (nat \<Rightarrow> uchar list) \<Rightarrow> nat \<Rightarrow> uchar list" where
  "apply_fun [] h = h"
| "apply_fun (w # ws) h = apply_fun ws (h(fst w := snd w))"

definition wrote :: "nat \<Rightarrow> 'a bstate_scheme \<Rightarrow> (nat \<times> uchar list) list \<Rightarrow> 'a bstate_scheme \<Rightarrow> bool" where
  "wrote p s ws t \<longleftrightarrow> quiet p t \<and> keeps p {} t s \<and> bstate.more t = bstate.more s
     \<and> disk t = apply_writes ws (disk s) \<and> dtrace t = dtrace s @ ws
     \<and> blk t = apply_fun ws (blk s)
     \<and> (\<forall>c. dirtyb t c \<longleftrightarrow> dirtyb s c \<and> c \<notin> fst ` set ws)"

text \<open>The layout the log needs: the header, \<open>n\<close> log slots and the \<open>n\<close> home blocks are different
  blocks of the disk.\<close>

definition log_wf :: "logst \<Rightarrow> nat \<Rightarrow> nat \<Rightarrow> bool" where
  "log_wf g n len \<longleftrightarrow> lg_dev g = ROOTDEV \<and> n \<le> LOGSIZE \<and> length (lh_block g) = LOGSIZE \<and> ublk (lg_start g) < len
     \<and> (\<forall>i < n. log_slot g i < len \<and> home g i < len \<and> log_slot g i \<noteq> ublk (lg_start g) \<and> home g i \<noteq> ublk (lg_start g))
     \<and> (\<forall>i < n. \<forall>j < n. log_slot g i \<noteq> home g j)
     \<and> distinct (map (log_slot g) [0..<n]) \<and> distinct (map (home g) [0..<n])"

definition read_blocks :: "uchar list \<Rightarrow> nat list \<Rightarrow> int list \<Rightarrow> int list" where
  "read_blocks d ks bl = fold (\<lambda>k bl. bl[k := geti32 d (4 + 4 * k)]) ks bl"

definition read_head_post :: "nat \<Rightarrow> 'a lstate_scheme \<Rightarrow> 'a lstate_scheme \<Rightarrow> bool" where
  "read_head_post p s t \<longleftrightarrow>
     (let d = blk s (ublk (lg_start (lg s)))
      in quiet p t \<and> keeps p {} t s \<and> disk t = disk s \<and> dtrace t = dtrace s \<and> blk t = blk s
         \<and> dirtyb t = dirtyb s \<and> lstate.more t = lstate.more s
         \<and> lg t = (lg s)\<lparr>lh_n := geti32 d 0, lh_block := read_blocks d [0..<nat (geti32 d 0)] (lh_block (lg s))\<rparr>)"

text \<open>The writes of a commit of \<open>n\<close> blocks with new contents \<open>new\<close>.\<close>

definition log_writes :: "logst \<Rightarrow> nat \<Rightarrow> (nat \<Rightarrow> uchar list) \<Rightarrow> (nat \<times> uchar list) list" where
  "log_writes g n new = map (\<lambda>i. (log_slot g i, new (home g i))) [0..<n]"

definition home_writes :: "logst \<Rightarrow> nat \<Rightarrow> (nat \<Rightarrow> uchar list) \<Rightarrow> (nat \<times> uchar list) list" where
  "home_writes g n new = map (\<lambda>i. (home g i, new (home g i))) [0..<n]"

definition commit_writes :: "logst \<Rightarrow> nat \<Rightarrow> (nat \<Rightarrow> uchar list) \<Rightarrow> (nat \<times> uchar list) list" where
  "commit_writes g n new =
     (let h = ublk (lg_start g); H = head_bytes (int n) (lh_block g) (new h)
      in log_writes g n new @ [(h, H)] @ home_writes g n new @ [(h, head_bytes 0 (lh_block g) H)])"

text \<open>The in-memory log after its header was read from block contents \<open>d\<close>.\<close>

definition with_head :: "uchar list \<Rightarrow> logst \<Rightarrow> logst" where
  "with_head d g = g\<lparr>lh_n := geti32 d 0, lh_block := read_blocks d [0..<nat (geti32 d 0)] (lh_block g)\<rparr>"

definition recover_writes :: "logst \<Rightarrow> nat \<Rightarrow> uchar list list \<Rightarrow> (nat \<times> uchar list) list" where
  "recover_writes g n d = map (\<lambda>i. (home g i, d ! log_slot g i)) [0..<n]"

text \<open>The blocks of the log itself, for a transaction of \<open>n\<close> blocks.\<close>

definition log_area :: "logst \<Rightarrow> nat \<Rightarrow> nat set" where
  "log_area g n = insert (ublk (lg_start g)) (log_slot g ` {..<n})"

text \<open>A freshly booted machine whose disk has contents \<open>d\<close>: the cache holds no modified block.\<close>

definition rebooted :: "nat \<Rightarrow> int \<Rightarrow> uchar list list \<Rightarrow> 'a lstate_scheme \<Rightarrow> bool" where
  "rebooted q start d u \<longleftrightarrow> quiet q u \<and> (\<forall>c. \<not> dirtyb u c) \<and> disk u = d
     \<and> lg_dev (lg u) = ROOTDEV \<and> lg_start (lg u) = start \<and> length (lh_block (lg u)) = LOGSIZE"

text \<open>An example: block 6 was changed in a transaction, and the log starts at block 2 of an empty disk.\<close>

definition tx_buf :: buf where
  "tx_buf = \<lparr>b_valid = True, b_dirty = True, b_dev = 1, b_blockno = 6, b_refcnt = 0, b_data = replicate 512 7\<rparr>"

definition tx_log :: logst where
  "tx_log = \<lparr>lg_start = 2, lg_size = 5, lg_outstanding = 0, lg_committing = True, lg_dev = 1, lh_n = 1,
     lh_block = 6 # replicate 29 0\<rparr>"

definition tx_state :: lstate where
  "tx_state = \<lparr>cpus = [\<lparr>apicid = 0, ncli = 0, intena = True, cproc = Some 0\<rparr>], lapicid = 0, eflags_if = True,
     locks = (\<lambda>_. \<lparr>locked = False, lcpu = None\<rparr>), pt = init_ptab\<lparr>procs := [zero_proc]\<rparr>,
     slocks = (\<lambda>_. \<lparr>sl_locked = False, sl_pid = 0\<rparr>),
     bufs = tx_buf # replicate 29 \<lparr>b_valid = False, b_dirty = False, b_dev = 0, b_blockno = 0, b_refcnt = 0, b_data = replicate 512 0\<rparr>,
     border = [0..<NBUF], disk = replicate 8 (replicate 512 0), dtrace = [], lg = tx_log\<rparr>"

section \<open>Copying a block through the cache\<close>

lemma quietD:
  assumes "quiet p s"
  shows "ctx p {} s" "bio_inv s" "i < NBUF \<Longrightarrow> \<not> locked_buf s i" "caches s i b \<Longrightarrow> \<not> locked_buf s i"
  using assms by (auto simp: quiet_def caches_def)

lemma dirtyb_caches: "bio_inv s \<Longrightarrow> caches s i b \<Longrightarrow> dirtyb s b \<longleftrightarrow> b_dirty (bufs s ! i)"
  using bio_invD(6) [of s] by (auto simp: dirtyb_def)

lemma bread_dirtyb:
  assumes "bread_post p s b i t" "bio_inv s"
  shows "dirtyb t c = dirtyb s c"
proof -
  have t: "caches t i b" "bio_inv t" "b_dirty (bufs t ! i) = dirtyb s b" "\<And>j. j \<noteq> i \<Longrightarrow> bufs t ! j = bufs s ! j"
      "b_dirty (bufs s ! i) \<Longrightarrow> caches s i b"
    using assms(1) by (auto simp: bread_post_def dirtyb_def)
  show ?thesis
  proof (cases "c = b")
    case True
    then show ?thesis using t(3) dirtyb_caches [OF t(2,1)] by simp
  next
    case False
    have "caches t j c \<and> b_dirty (bufs t ! j) \<longleftrightarrow> caches s j c \<and> b_dirty (bufs s ! j)" for j
    proof (cases "j = i")
      case True
      have "\<not> caches t i c" using t(1) False by (auto simp: caches_def)
      moreover have "\<not> (caches s i c \<and> b_dirty (bufs s ! i))" using t(5) False by (auto simp: caches_def)
      ultimately show ?thesis using True by blast
    next
      case False
      then show ?thesis using t(4) by (simp add: caches_def)
    qed
    then show ?thesis by (simp add: dirtyb_def)
  qed
qed

lemma two_reads:
  assumes "quiet p s" "x \<noteq> y" "x < length (disk s)" "y < length (disk s)"
    and "npinned s + 1 < NBUF \<or> npinned s < NBUF \<and> dirtyb s y"
  shows "wp (bread ROOTDEV x) (\<lambda>i. wp (bread ROOTDEV y) (\<lambda>j. two_bufs p s x y i j)) s"
proof (rule wp_mono [OF bread_ok [of p s x]])
  note q = quietD [OF assms(1)]
  fix i t assume bt: "bread_post p s x i t"
  then have t: "keeps p {} t s" "bstate.more t = bstate.more s" "bio_inv t" "caches t i x" "locked_buf t i"
      "b_data (bufs t ! i) = blk s x" "blk t = blk s" "disk t = disk s" "dtrace t = dtrace s" "npinned t \<le> npinned s + 1"
      "\<And>k. k \<noteq> i \<Longrightarrow> locked_buf t k = locked_buf s k" "\<And>k. k \<noteq> i \<Longrightarrow> bufs t ! k = bufs s ! k"
      "b_dirty (bufs t ! i) \<or> b_data (bufs t ! i) = disk s ! x" "b_dirty (bufs s ! i) \<Longrightarrow> caches s i x"
    by (auto simp: bread_post_def)
  have ct: "ctx p {} t" using t(1) by (rule keepsD)
  note dt = bread_dirtyb [OF bt q(2)]
  have room: "npinned t < NBUF \<or> (\<exists>k. caches t k y)"
    using assms(5) t(10) dt [of y] by (auto simp: dirtyb_def)
  have free: "\<not> locked_buf t k" if "caches t k y" for k
  proof -
    have "k \<noteq> i" using that t(4) assms(2) by (auto simp: caches_def)
    then show ?thesis using t(11) q(3) that by (auto simp: caches_def)
  qed
  have y: "y < length (disk t)" using t(8) assms(4) by simp
  show "wp (bread ROOTDEV y) (\<lambda>j. two_bufs p s x y i j) t"
  proof (rule wp_mono [OF bread_ok [OF ct t(3) y room free]])
    fix j u assume bu: "bread_post p t y j u"
    then have u: "keeps p {} u t" "bstate.more u = bstate.more t" "bio_inv u" "caches u j y" "locked_buf u j"
        "\<not> locked_buf t j" "b_data (bufs u ! j) = blk t y" "blk u = blk t" "disk u = disk t" "dtrace u = dtrace t"
        "\<And>k. k \<noteq> j \<Longrightarrow> locked_buf u k = locked_buf t k" "\<And>k. k \<noteq> j \<Longrightarrow> bufs u ! k = bufs t ! k"
        "b_dirty (bufs u ! j) \<or> b_data (bufs u ! j) = disk u ! y"
      by (auto simp: bread_post_def)
    have ij: "i \<noteq> j" using t(5) u(6) by auto
    have "caches u i x" using t(4) u(12) [OF ij] by (simp add: caches_def)
    moreover have "locked_buf u k \<longleftrightarrow> k = i \<or> k = j" if "k < NBUF" for k
      using t(5,11) u(5,11) q(3) [OF that] by metis
    moreover have "keeps p {} u s" using t(1) u(1) keeps_trans by blast
    ultimately show "two_bufs p s x y i j u"
      using t u ij dt bread_dirtyb [OF bu t(3)] by (simp add: two_bufs_def)
  qed
next
  show "npinned s < NBUF \<or> (\<exists>i. caches s i x)" using assms(5) by auto
qed (use assms quietD [OF assms(1)] in auto)

lemma npinned_quiet:
  assumes "quiet p s"
  shows "npinned s = card {b. dirtyb s b}"
proof -
  note q = quietD [OF assms] and inv = bio_invD [OF quietD(2) [OF assms]]
  let ?D = "{i. i < NBUF \<and> b_dirty (bufs s ! i)}"
  have pin: "pinned (bufs s ! i) \<longleftrightarrow> b_dirty (bufs s ! i)" if "i < NBUF" for i
    using unlocked_refcnt [OF q(2) that] q(3) [OF that] by (simp add: pinned_def)
  have dev: "b_dev (bufs s ! i) = ROOTDEV" if "i \<in> ?D" for i
    using inv(5) [of i] that by (simp add: buf_ok_def Let_def)
  have "npinned s = card {i. i < NBUF \<and> pinned (bufs s ! i)}"
    unfolding npinned_def using inv(1) by (simp add: length_filter_conv_card)
  also have "{i. i < NBUF \<and> pinned (bufs s ! i)} = ?D" using pin by auto
  also have "card ?D = card ((\<lambda>i. b_blockno (bufs s ! i)) ` ?D)"
  proof (rule card_image [symmetric], rule inj_onI)
    fix i j assume "i \<in> ?D" "j \<in> ?D" "b_blockno (bufs s ! i) = b_blockno (bufs s ! j)"
    then show "i = j" using inv(6) [of i "b_blockno (bufs s ! i)" j] dev [of i] dev [of j] by (simp add: caches_def)
  qed
  also have "(\<lambda>i. b_blockno (bufs s ! i)) ` ?D = {b. dirtyb s b}"
    using dev by (auto simp: dirtyb_def caches_def image_iff)
  finally show ?thesis .
qed

lemma dirtyb_eqI:
  assumes "\<And>i. caches t i c = caches s i c" "\<And>i. caches s i c \<Longrightarrow> b_dirty (bufs t ! i) = b_dirty (bufs s ! i)"
  shows "dirtyb t c = dirtyb s c"
  using assms by (auto simp: dirtyb_def)

lemma finish_write:
  assumes t: "ctx p {} t" "bio_inv t" "d < NBUF" "locked_buf t d" "length D = BSIZE" "caches t d x"
  shows "wp (kthen (set_bdata d (\<lambda>_. D)) (bwrite d)) (\<lambda>_ u. keeps p {} u t \<and> bstate.more u = bstate.more t
    \<and> bio_inv u \<and> slocks u = slocks t \<and> disk u = (disk t)[x := D] \<and> dtrace u = dtrace t @ [(x, D)]
    \<and> blk u = (blk t)(x := D) \<and> bufs u = (bufs t)[d := (bufs t ! d)\<lparr>b_data := D, b_dirty := False\<rparr>]) t"
proof -
  let ?s = "upd_buf d (\<lambda>b. b\<lparr>b_data := D\<rparr>) t"
  have l: "length (bufs t) = NBUF" using bio_invD(1) [OF t(2)] .
  have bs: "bufs ?s = (bufs t)[d := (bufs t ! d)\<lparr>b_data := D, b_dirty := b_dirty (bufs t ! d)\<rparr>]" by simp
  note sd = set_data [OF t(2) t(6) t(4) t(5) bs]
  have s: "bio_inv ?s" "blk ?s = (blk t)(x := D)" using sd by simp_all
  have lk: "locked_buf ?s d" using t(4) by (simp add: locked_buf_def)
  have no: "b_blockno (bufs ?s ! d) = x" "b_data (bufs ?s ! d) = D" using t(3,6) l by (simp_all add: caches_def)
  have c: "ctx p {} ?s" using t(1) by simp
  show ?thesis
    unfolding set_bdata_def wps
  proof (rule wp_mono [OF bwrite_ok [OF c s(1) t(3) lk]])
    fix u assume u: "bwrite_post p ?s d u"
    then show "keeps p {} u t \<and> bstate.more u = bstate.more t
      \<and> bio_inv u \<and> slocks u = slocks t \<and> disk u = (disk t)[x := D] \<and> dtrace u = dtrace t @ [(x, D)]
      \<and> blk u = (blk t)(x := D) \<and> bufs u = (bufs t)[d := (bufs t ! d)\<lparr>b_data := D, b_dirty := False\<rparr>]"
      using s(2) no l t(3) by (simp add: bwrite_post_def keeps_def)
  qed
qed

lemma finish_copy:
  assumes t: "ctx p {} t" "bio_inv t" "d \<noteq> e" "caches t d x" "caches t e y" "x \<noteq> y"
    and lk: "\<And>k. k < NBUF \<Longrightarrow> locked_buf t k \<longleftrightarrow> k = d \<or> k = e"
    and src: "b_dirty (bufs t ! e) \<or> b_data (bufs t ! e) = disk t ! y" and D: "length D = BSIZE"
  shows "wp (kthen (set_bdata d (\<lambda>_. D)) (kthen (bwrite d) (kthen (brelse e) (brelse d)))) (\<lambda>_. copy_post p t x D) t"
proof -
  have de: "d < NBUF" "e < NBUF" using t by (auto simp: caches_def)
  have l: "length (bufs t) = NBUF" using bio_invD(1) [OF t(2)] .
  have "wp (kthen (set_bdata d (\<lambda>_. D)) (bwrite d)) (\<lambda>_. wp (kthen (brelse e) (brelse d)) (\<lambda>_. copy_post p t x D)) t"
  proof (rule wp_mono [OF finish_write [OF t(1,2) de(1) _ D t(4)]])
    show "locked_buf t d" using lk de by simp
    fix u
    assume "keeps p {} u t \<and> bstate.more u = bstate.more t
      \<and> bio_inv u \<and> slocks u = slocks t \<and> disk u = (disk t)[x := D] \<and> dtrace u = dtrace t @ [(x, D)]
      \<and> blk u = (blk t)(x := D) \<and> bufs u = (bufs t)[d := (bufs t ! d)\<lparr>b_data := D, b_dirty := False\<rparr>]"
    then have u: "keeps p {} u t" "bstate.more u = bstate.more t" "bio_inv u" "slocks u = slocks t"
        "disk u = (disk t)[x := D]" "dtrace u = dtrace t @ [(x, D)]" "blk u = (blk t)(x := D)"
        "bufs u = (bufs t)[d := (bufs t ! d)\<lparr>b_data := D, b_dirty := False\<rparr>]" by auto
    have lu: "locked_buf u k = locked_buf t k" for k by (simp add: locked_buf_def u(4))
    have cu: "ctx p {} u" using u(1) by (rule keepsD)
    have ye: "b_blockno (bufs t ! e) = y" "b_blockno (bufs t ! d) = x" using t by (auto simp: caches_def)
    have x: "x < length (disk t)" using bio_invD(5) [OF t(2) de(1)] t(4) by (simp add: caches_def buf_ok_def Let_def)
    have "b_dirty (bufs u ! e) \<or> b_data (bufs u ! e) = disk u ! b_blockno (bufs u ! e)"
      using src t(3,6) ye by (simp add: u(5,8))
    from brelse_ok [OF cu u(3) de(2) _ this] lu lk de
    have "wp (brelse e) (\<lambda>_. brelse_post p u e) u" by simp
    then show "wp (kthen (brelse e) (brelse d)) (\<lambda>_. copy_post p t x D) u"
      unfolding wps
    proof (rule wp_mono)
      fix v assume "brelse_post p u e v"
      then have v: "keeps p {} v u" "bstate.more v = bstate.more u" "bio_inv v" "blk v = blk u" "disk v = disk u"
          "dtrace v = dtrace u" "bufs v = (bufs u)[e := (bufs u ! e)\<lparr>b_refcnt := 0\<rparr>]" "\<not> locked_buf v e"
          "\<And>k. k \<noteq> e \<Longrightarrow> locked_buf v k = locked_buf u k"
        by (auto simp: brelse_post_def)
      have cv: "ctx p {} v" using v(1) by (rule keepsD)
      have "b_dirty (bufs v ! d) \<or> b_data (bufs v ! d) = disk v ! b_blockno (bufs v ! d)"
        using x t(3) de l ye by (simp add: v(5,7) u(5,8))
      from brelse_ok [OF cv v(3) de(1) _ this] v(9) [of d] t(3) lu lk de
      have "wp (brelse d) (\<lambda>_. brelse_post p v d) v" by simp
      then show "wp (brelse d) (\<lambda>_. copy_post p t x D) v"
      proof (rule wp_mono)
        fix w assume "brelse_post p v d w"
        then have w: "keeps p {} w v" "bstate.more w = bstate.more v" "bio_inv w" "blk w = blk v" "disk w = disk v"
            "dtrace w = dtrace v" "bufs w = (bufs v)[d := (bufs v ! d)\<lparr>b_refcnt := 0\<rparr>]" "\<not> locked_buf w d"
            "\<And>k. k \<noteq> d \<Longrightarrow> locked_buf w k = locked_buf v k"
          by (auto simp: brelse_post_def)
        have nl: "\<not> locked_buf w k" if "k < NBUF" for k
          using that lk lu v(8,9) w(8,9) by metis
        have bw: "bufs w ! k = (if k = d then (bufs t ! d)\<lparr>b_data := D, b_dirty := False, b_refcnt := 0\<rparr>
            else if k = e then (bufs t ! e)\<lparr>b_refcnt := 0\<rparr> else bufs t ! k)" if "k < NBUF" for k
          using that l t(3) by (simp add: w(7) v(7) u(8))
        have ca: "caches w k c = caches t k c" for k c
          by (cases "k < NBUF") (simp_all add: caches_def bw)
        have "dirtyb w c \<longleftrightarrow> dirtyb t c \<and> c \<noteq> x" for c
        proof (cases "c = x")
          case True
          then show ?thesis using dirtyb_caches [OF w(3), of d x] ca [of d x] t(4) bw [OF de(1)] by simp
        next
          case False
          have "dirtyb w c = dirtyb t c"
          proof (rule dirtyb_eqI [OF ca])
            fix k assume k: "caches t k c"
            then have "k \<noteq> d" "k < NBUF" using False t(4) by (auto simp: caches_def)
            then show "b_dirty (bufs w ! k) = b_dirty (bufs t ! k)" by (simp add: bw)
          qed
          then show ?thesis using False by simp
        qed
        moreover have kw: "keeps p {} w t" using u(1) v(1) w(1) keeps_trans by blast
        ultimately show "copy_post p t x D w"
          using u v w nl keepsD(1) [OF kw] by (simp add: copy_post_def quiet_def)
      qed
    qed
  qed
  then show ?thesis by (simp add: wps)
qed

lemma copy_post_two:
  assumes "two_bufs p s x y i j t" "copy_post p t z D u"
  shows "copy_post p s z D u"
  using assms by (auto simp: two_bufs_def copy_post_def intro: keeps_trans)

lemma length_blk_quiet: "quiet p s \<Longrightarrow> b < length (disk s) \<Longrightarrow> length (blk s b) = BSIZE"
  by (rule length_blk) (auto dest: quietD)

lemma two_lg: "two_bufs p s x y i j t \<Longrightarrow> lg t = lg s"
  by (simp add: two_bufs_def bmore_eq)

lemma bread_lg: "bread_post p s b i t \<Longrightarrow> lg t = lg s"
  by (simp add: bread_post_def bmore_eq)

lemma wp_get_lg [wps]: "wp (get_lg f) P s \<longleftrightarrow> P (f (lg s)) s"
  by (simp add: get_lg_def wps)

lemma wp_get_block: "i < LOGSIZE \<Longrightarrow> wp (get_block i) P s \<longleftrightarrow> P (lh_block (lg s) ! i) s"
  by (simp add: get_block_def wps)

lemma wp_get_bdata [wps]: "wp (get_bdata i) P s \<longleftrightarrow> P (b_data (bufs s ! i)) s"
  by (simp add: get_bdata_def wps)

lemma two_reads_log:
  assumes "quiet p s" "log_slot (lg s) k \<noteq> home (lg s) k" "log_slot (lg s) k < length (disk s)"
    and "home (lg s) k < length (disk s)" "k < LOGSIZE"
    and "npinned s + 1 < NBUF \<or> npinned s < NBUF \<and> dirtyb s (home (lg s) k)"
  shows "wp (bread ROOTDEV (log_slot (lg s) k)) (\<lambda>i. wp (get_block k) (\<lambda>b. wp (bread ROOTDEV (ublk b))
    (\<lambda>j. two_bufs p s (log_slot (lg s) k) (home (lg s) k) i j))) s"
proof -
  have "wp (bread ROOTDEV (log_slot (lg s) k)) (\<lambda>i t. bread_post p s (log_slot (lg s) k) i t
      \<and> wp (bread ROOTDEV (home (lg s) k)) (\<lambda>j. two_bufs p s (log_slot (lg s) k) (home (lg s) k) i j) t) s"
    by (rule wp_conj [OF bread_ok two_reads [OF assms(1-4,6)]])
      (use assms quietD [OF assms(1)] in auto)
  then show ?thesis
    by (rule wp_mono) (auto simp: wp_get_block [OF assms(5)] bread_lg home_def)
qed

lemma write_log1_ok:
  assumes "quiet p s" "log_slot (lg s) k \<noteq> home (lg s) k" "log_slot (lg s) k < length (disk s)"
    and "home (lg s) k < length (disk s)" "k < LOGSIZE" "lg_dev (lg s) = ROOTDEV"
    and "npinned s + 1 < NBUF \<or> npinned s < NBUF \<and> dirtyb s (home (lg s) k)"
  shows "wp (write_log1 k) (\<lambda>_. copy_post p s (log_slot (lg s) k) (blk s (home (lg s) k))) s"
  unfolding write_log1_def wps assms(6) log_slot_def [symmetric]
proof (rule wp_mono [OF two_reads_log [OF assms(1-5,7)]], erule wp_mono, erule wp_mono)
  fix i j t assume two: "two_bufs p s (log_slot (lg s) k) (home (lg s) k) i j t"
  then have "wp (kthen (set_bdata i (\<lambda>_. b_data (bufs t ! j))) (kthen (bwrite i) (kthen (brelse j) (brelse i))))
      (\<lambda>_. copy_post p t (log_slot (lg s) k) (blk s (home (lg s) k))) t"
    using finish_copy [of p t i j "log_slot (lg s) k" "home (lg s) k" "blk s (home (lg s) k)"]
      assms(2) length_blk_quiet [OF assms(1,4)]
    by (auto simp: two_bufs_def keeps_def disj_commute)
  then show "wp (set_bdata i (\<lambda>_. b_data (bufs t ! j))) (\<lambda>_. wp (bwrite i) (\<lambda>_. wp (brelse j) (\<lambda>_. wp (brelse i)
      (\<lambda>_. copy_post p s (log_slot (lg s) k) (blk s (home (lg s) k)))))) t"
    unfolding wps by (auto elim!: wp_mono intro: copy_post_two [OF two])
qed

lemma install1_ok:
  assumes "quiet p s" "log_slot (lg s) k \<noteq> home (lg s) k" "log_slot (lg s) k < length (disk s)"
    and "home (lg s) k < length (disk s)" "k < LOGSIZE" "lg_dev (lg s) = ROOTDEV"
    and "npinned s + 1 < NBUF \<or> npinned s < NBUF \<and> dirtyb s (home (lg s) k)"
  shows "wp (install1 k) (\<lambda>_. copy_post p s (home (lg s) k) (blk s (log_slot (lg s) k))) s"
  unfolding install1_def wps assms(6) log_slot_def [symmetric]
proof (rule wp_mono [OF two_reads_log [OF assms(1-5,7)]], erule wp_mono, erule wp_mono)
  fix i j t assume two: "two_bufs p s (log_slot (lg s) k) (home (lg s) k) i j t"
  then have "wp (kthen (set_bdata j (\<lambda>_. b_data (bufs t ! i))) (kthen (bwrite j) (kthen (brelse i) (brelse j))))
      (\<lambda>_. copy_post p t (home (lg s) k) (blk s (log_slot (lg s) k))) t"
    using finish_copy [of p t j i "home (lg s) k" "log_slot (lg s) k" "blk s (log_slot (lg s) k)"]
      assms(2) length_blk_quiet [OF assms(1,3)]
    by (auto simp: two_bufs_def keeps_def disj_commute)
  then show "wp (set_bdata j (\<lambda>_. b_data (bufs t ! i))) (\<lambda>_. wp (bwrite j) (\<lambda>_. wp (brelse i) (\<lambda>_. wp (brelse j)
      (\<lambda>_. copy_post p s (home (lg s) k) (blk s (log_slot (lg s) k)))))) t"
    unfolding wps by (auto elim!: wp_mono intro: copy_post_two [OF two])
qed

section \<open>The header\<close>

lemma upd_buf_upd_buf [simp]: "upd_buf i f (upd_buf i g s) = upd_buf i (\<lambda>b. f (g b)) s"
  by (cases "i < length (bufs s)") (simp_all add: upd_buf_def list_update_beyond)

lemma upd_buf_cong: "f (bufs s ! i) = g (bufs s ! i) \<Longrightarrow> upd_buf i f s = upd_buf i g s"
  by (simp add: upd_buf_def)

lemma wp_set_bdata [wps]: "wp (set_bdata i f) P s \<longleftrightarrow> P () (upd_buf i (\<lambda>b. b\<lparr>b_data := f (b_data b)\<rparr>) s)"
  by (simp add: set_bdata_def wps)

lemma wp_write_blocks:
  "\<forall>k \<in> set ks. k < LOGSIZE \<Longrightarrow>
   wp (kiter (\<lambda>k. kbind (get_block k) (\<lambda>b. set_bdata i (puti32 (4 + 4 * k) b))) ks) P s \<longleftrightarrow>
   P () (upd_buf i (\<lambda>b. b\<lparr>b_data := fold (\<lambda>k d. puti32 (4 + 4 * k) (lh_block (lg s) ! k) d) ks (b_data b)\<rparr>) s)"
proof (induction ks arbitrary: s)
  case Nil
  have "upd_buf i (\<lambda>b. b\<lparr>b_data := b_data b\<rparr>) s = s" by (simp add: upd_buf_def)
  then show ?case by (simp add: wps)
next
  case (Cons k ks)
  then show ?case by (simp add: wps wp_get_block)
qed

lemma finish_one:
  assumes "quiet p s" "bread_post p s x i t" "length D = BSIZE"
  shows "wp (kthen (set_bdata i (\<lambda>_. D)) (kthen (bwrite i) (brelse i))) (\<lambda>_. copy_post p s x D) t"
proof -
  note q = quietD [OF assms(1)]
  have t: "keeps p {} t s" "bstate.more t = bstate.more s" "bio_inv t" "caches t i x" "locked_buf t i"
      "blk t = blk s" "disk t = disk s" "dtrace t = dtrace s"
      "\<And>k. k \<noteq> i \<Longrightarrow> locked_buf t k = locked_buf s k"
    using assms(2) by (auto simp: bread_post_def)
  have ct: "ctx p {} t" using t(1) by (rule keepsD)
  have i: "i < NBUF" using t(4) by (simp add: caches_def)
  have l: "length (bufs t) = NBUF" using bio_invD(1) [OF t(3)] .
  have x: "x < length (disk t)" using bio_invD(5) [OF t(3) i] t(4) by (simp add: caches_def buf_ok_def Let_def)
  have "wp (kthen (set_bdata i (\<lambda>_. D)) (bwrite i)) (\<lambda>_. wp (brelse i) (\<lambda>_. copy_post p s x D)) t"
  proof (rule wp_mono [OF finish_write [OF ct t(3) i t(5) assms(3) t(4)]])
    fix u
    assume "keeps p {} u t \<and> bstate.more u = bstate.more t
      \<and> bio_inv u \<and> slocks u = slocks t \<and> disk u = (disk t)[x := D] \<and> dtrace u = dtrace t @ [(x, D)]
      \<and> blk u = (blk t)(x := D) \<and> bufs u = (bufs t)[i := (bufs t ! i)\<lparr>b_data := D, b_dirty := False\<rparr>]"
    then have u: "keeps p {} u t" "bstate.more u = bstate.more t" "bio_inv u" "slocks u = slocks t"
        "disk u = (disk t)[x := D]" "dtrace u = dtrace t @ [(x, D)]" "blk u = (blk t)(x := D)"
        "bufs u = (bufs t)[i := (bufs t ! i)\<lparr>b_data := D, b_dirty := False\<rparr>]" by auto
    have lu: "locked_buf u k = locked_buf t k" for k by (simp add: locked_buf_def u(4))
    have cu: "ctx p {} u" using u(1) by (rule keepsD)
    have "b_dirty (bufs u ! i) \<or> b_data (bufs u ! i) = disk u ! b_blockno (bufs u ! i)"
      using x i l t(4) by (simp add: u(5,8) caches_def)
    from brelse_ok [OF cu u(3) i _ this] lu t(5)
    have "wp (brelse i) (\<lambda>_. brelse_post p u i) u" by simp
    then show "wp (brelse i) (\<lambda>_. copy_post p s x D) u"
    proof (rule wp_mono)
      fix w assume "brelse_post p u i w"
      then have w: "keeps p {} w u" "bstate.more w = bstate.more u" "bio_inv w" "blk w = blk u" "disk w = disk u"
          "dtrace w = dtrace u" "bufs w = (bufs u)[i := (bufs u ! i)\<lparr>b_refcnt := 0\<rparr>]" "\<not> locked_buf w i"
          "\<And>k. k \<noteq> i \<Longrightarrow> locked_buf w k = locked_buf u k"
        by (auto simp: brelse_post_def)
      have nl: "\<not> locked_buf w k" if "k < NBUF" for k
        using that lu w(8,9) t(9) q(3) by metis
      have bw: "bufs w ! k = (if k = i then (bufs t ! i)\<lparr>b_data := D, b_dirty := False, b_refcnt := 0\<rparr> else bufs t ! k)"
        if "k < NBUF" for k using that l by (simp add: w(7) u(8))
      have ca: "caches w k c = caches t k c" for k c
        by (cases "k < NBUF") (simp_all add: caches_def bw)
      have "dirtyb w c \<longleftrightarrow> dirtyb s c \<and> c \<noteq> x" for c
      proof (cases "c = x")
        case True
        then show ?thesis using dirtyb_caches [OF w(3), of i x] ca [of i x] t(4) bw [OF i] by simp
      next
        case False
        have "dirtyb w c = dirtyb t c"
        proof (rule dirtyb_eqI [OF ca])
          fix k assume k: "caches t k c"
          then have "k \<noteq> i" "k < NBUF" using False t(4) by (auto simp: caches_def)
          then show "b_dirty (bufs w ! k) = b_dirty (bufs t ! k)" by (simp add: bw)
        qed
        then show ?thesis using False bread_dirtyb [OF assms(2) q(2)] by simp
      qed
      moreover have kw: "keeps p {} w s" using t(1) u(1) w(1) keeps_trans by blast
      ultimately show "copy_post p s x D w"
        using t u w nl keepsD(1) [OF kw] by (simp add: copy_post_def quiet_def)
    qed
  qed
  then show ?thesis by (simp add: wps)
qed

lemma length_head_bytes:
  "length d = BSIZE \<Longrightarrow> n \<le> int LOGSIZE \<Longrightarrow> length (head_bytes n bl d) = BSIZE"
proof -
  assume d: "length d = BSIZE" and n: "n \<le> int LOGSIZE"
  have *: "length (fold (\<lambda>i d. puti32 (4 + 4 * i) (bl ! i) d) ks e) = BSIZE"
    if "\<forall>k \<in> set ks. k < LOGSIZE" "length e = BSIZE" for ks e
    using that by (induction ks arbitrary: e) auto
  show ?thesis unfolding head_bytes_def by (rule *) (use d n in auto)
qed

lemma write_head_ok:
  assumes "quiet p s" "lg_dev (lg s) = ROOTDEV" "ublk (lg_start (lg s)) < length (disk s)"
    and "npinned s < NBUF" "lh_n (lg s) \<le> int LOGSIZE"
  shows "wp write_head (\<lambda>_. copy_post p s (ublk (lg_start (lg s)))
    (head_bytes (lh_n (lg s)) (lh_block (lg s)) (blk s (ublk (lg_start (lg s)))))) s"
proof -
  let ?h = "ublk (lg_start (lg s))"
  let ?D = "head_bytes (lh_n (lg s)) (lh_block (lg s)) (blk s ?h)"
  have ks: "\<forall>k \<in> set [0..<nat (lh_n (lg s))]. k < LOGSIZE" using assms(5) by auto
  have lD: "length ?D = BSIZE" using length_head_bytes length_blk_quiet [OF assms(1,3)] assms(5) by blast
  show ?thesis
    unfolding write_head_def wps assms(2)
  proof (rule wp_mono [OF bread_ok [of p s ?h]])
    fix i t assume bt: "bread_post p s ?h i t"
    then have lg: "lg t = lg s" and bd: "b_data (bufs t ! i) = blk s ?h" by (simp_all add: bread_lg) (simp add: bread_post_def)
    let ?u = "upd_buf i (\<lambda>b. b\<lparr>b_data := puti32 0 (lh_n (lg s)) (b_data b)\<rparr>) t"
    have "upd_buf i (\<lambda>b. b\<lparr>b_data := fold (\<lambda>k d. puti32 (4 + 4 * k) (lh_block (lg ?u) ! k) d)
        [0..<nat (lh_n (lg s))] (b_data b)\<rparr>) ?u = upd_buf i (\<lambda>b. b\<lparr>b_data := ?D\<rparr>) t"
      unfolding upd_buf_upd_buf by (rule upd_buf_cong) (simp add: bd lg head_bytes_def)
    moreover have "wp (kthen (set_bdata i (\<lambda>_. ?D)) (kthen (bwrite i) (brelse i))) (\<lambda>_. copy_post p s ?h ?D) t"
      by (rule finish_one [OF assms(1) bt lD])
    ultimately show "wp (kiter (\<lambda>k. kbind (get_block k) (\<lambda>b. set_bdata i (puti32 (4 + 4 * k) b))) [0..<nat (lh_n (lg t))])
        (\<lambda>_. wp (bwrite i) (\<lambda>_. wp (brelse i) (\<lambda>_. copy_post p s ?h ?D)))
        (upd_buf i (\<lambda>b. b\<lparr>b_data := puti32 0 (lh_n (lg t)) (b_data b)\<rparr>) t)"
      unfolding lg wp_write_blocks [OF ks] by (simp add: wps)
  qed (use assms quietD [OF assms(1)] in auto)
qed

section \<open>Sequences of writes\<close>

lemma wrote_Nil: "quiet p s \<Longrightarrow> wrote p s [] s"
  by (auto simp: wrote_def keeps_def quiet_def)

lemma copy_wrote: "copy_post p s x D t = wrote p s [(x, D)] t"
  by (simp add: copy_post_def wrote_def)

lemma length_apply_writes [simp]: "length (apply_writes ws d) = length d"
  by (induction ws arbitrary: d) auto

lemma apply_writes_append: "apply_writes (ws @ vs) d = apply_writes vs (apply_writes ws d)"
  by (induction ws arbitrary: d) auto

lemma apply_fun_append: "apply_fun (ws @ vs) h = apply_fun vs (apply_fun ws h)"
  by (induction ws arbitrary: h) auto

lemma wrote_trans: "wrote p s ws t \<Longrightarrow> wrote p t vs u \<Longrightarrow> wrote p s (ws @ vs) u"
  by (auto simp: wrote_def apply_writes_append apply_fun_append intro: keeps_trans)

lemma apply_writes_other: "b \<notin> fst ` set ws \<Longrightarrow> apply_writes ws d ! b = d ! b"
  by (induction ws arbitrary: d) auto

lemma apply_writes_map:
  assumes "distinct (map f xs)" "x \<in> set xs" "f x < length d"
  shows "apply_writes (map (\<lambda>x. (f x, g x)) xs) d ! f x = g x"
  using assms
proof (induction xs arbitrary: d)
  case (Cons y ys)
  show ?case
  proof (cases "x \<in> set ys")
    case True
    then show ?thesis using Cons by simp
  next
    case False
    then have xy: "x = y" using Cons.prems by simp
    have "f x \<notin> fst ` set (map (\<lambda>x. (f x, g x)) ys)"
      using Cons.prems(1) xy by (auto simp: image_image)
    then have "apply_writes (map (\<lambda>x. (f x, g x)) ys) (d[f x := g x]) ! f x = d[f x := g x] ! f x"
      by (rule apply_writes_other)
    then show ?thesis using Cons.prems(3) xy by simp
  qed
qed simp

lemma apply_fun_other: "b \<notin> fst ` set ws \<Longrightarrow> apply_fun ws h b = h b"
  by (induction ws arbitrary: h) auto

lemma apply_fun_map:
  assumes "distinct (map f xs)" "x \<in> set xs"
  shows "apply_fun (map (\<lambda>x. (f x, g x)) xs) h (f x) = g x"
  using assms
proof (induction xs arbitrary: h)
  case (Cons y ys)
  show ?case
  proof (cases "x \<in> set ys")
    case True
    then show ?thesis using Cons by simp
  next
    case False
    then have xy: "x = y" using Cons.prems by simp
    have "f x \<notin> fst ` set (map (\<lambda>x. (f x, g x)) ys)"
      using Cons.prems(1) xy by (auto simp: image_image)
    from apply_fun_other [OF this, of "h(f x := g x)"] show ?thesis using xy by simp
  qed
qed simp

lemma finite_dirtyb: "finite {b. dirtyb s b}"
proof (rule finite_subset)
  show "{b. dirtyb s b} \<subseteq> (\<lambda>i. b_blockno (bufs s ! i)) ` {..<NBUF}" by (auto simp: dirtyb_def caches_def)
qed simp

lemma wrote_npinned: "quiet p s \<Longrightarrow> wrote p s ws t \<Longrightarrow> npinned t \<le> npinned s"
proof -
  assume "quiet p s" "wrote p s ws t"
  then have "npinned t = card {b. dirtyb t b}" "npinned s = card {b. dirtyb s b}" "{b. dirtyb t b} \<subseteq> {b. dirtyb s b}"
    by (auto simp: npinned_quiet wrote_def)
  then show ?thesis using card_mono [OF finite_dirtyb] by metis
qed

lemma wrote_simps:
  assumes "wrote p s ws t"
  shows "quiet p t" "lg t = lg s" "length (disk t) = length (disk s)"
    "b \<notin> fst ` set ws \<Longrightarrow> blk t b = blk s b" "dirtyb t b \<longleftrightarrow> dirtyb s b \<and> b \<notin> fst ` set ws"
  using assms apply_fun_other [of b ws "blk s"] by (auto simp: wrote_def bmore_eq)

section \<open>Writing the log and installing it\<close>

lemma kiter_snoc: "wp (kiter f ([0..<Suc n])) P s \<longleftrightarrow> wp (kiter f [0..<n]) (\<lambda>_. wp (f n) P) s"
proof -
  have "(\<lambda>_ :: unit. wp (kreturn ()) P) = P" by (intro ext) (simp add: wp_prims)
  then show ?thesis by (simp add: kiter_append wps)
qed

lemma notin_mapI: "(\<And>i. i < n \<Longrightarrow> f i \<noteq> b) \<Longrightarrow> b \<notin> fst ` set (map (\<lambda>i. (f i, g i)) [0..<n])"
  by (fastforce simp: image_image)

lemma log_slot_notin:
  assumes "log_wf g N len" "n < N"
  shows "home g n \<notin> fst ` set (map (\<lambda>i. (log_slot g i, F i)) [0..<n])"
    "log_slot g n \<notin> fst ` set (map (\<lambda>i. (home g i, F i)) [0..<n])"
    "home g n \<notin> fst ` set (map (\<lambda>i. (home g i, F i)) [0..<n])"
proof -
  have "home g i \<noteq> home g n" if "i < n" for i
    using assms that nth_eq_iff_index_eq [of "map (home g) [0..<N]" i n] by (auto simp: log_wf_def)
  then show "home g n \<notin> fst ` set (map (\<lambda>i. (home g i, F i)) [0..<n])" by (rule notin_mapI)
  have "log_slot g i \<noteq> home g n" "home g i \<noteq> log_slot g n" if "i < n" for i
    using assms that by (simp_all add: log_wf_def) (metis order.strict_trans)
  note ne = this
  show "home g n \<notin> fst ` set (map (\<lambda>i. (log_slot g i, F i)) [0..<n])" by (rule notin_mapI [OF ne(1)])
  show "log_slot g n \<notin> fst ` set (map (\<lambda>i. (home g i, F i)) [0..<n])" by (rule notin_mapI [OF ne(2)])
qed

lemma write_log_ok:
  assumes "quiet p s" "log_wf (lg s) N (length (disk s))" "npinned s < NBUF" "\<forall>i < N. dirtyb s (home (lg s) i)"
  shows "n \<le> N \<Longrightarrow> wp (kiter write_log1 [0..<n])
    (\<lambda>_. wrote p s (map (\<lambda>i. (log_slot (lg s) i, blk s (home (lg s) i))) [0..<n])) s"
proof (induction n)
  case 0
  then show ?case using wrote_Nil [OF assms(1)] by (simp add: wps)
next
  case (Suc n)
  let ?ws = "map (\<lambda>i. (log_slot (lg s) i, blk s (home (lg s) i))) [0..<n]"
  have n: "n < N" "n < LOGSIZE" using Suc.prems assms(2) by (auto simp: log_wf_def)
  note nin = log_slot_notin [OF assms(2) n(1)]
  show ?case unfolding kiter_snoc
  proof (rule wp_mono [OF Suc.IH])
    fix t assume wt: "wrote p s ?ws t"
    note t = wrote_simps [OF wt]
    have b: "blk t (home (lg s) n) = blk s (home (lg s) n)" "dirtyb t (home (lg s) n)"
      using t(4) [OF nin(1)] t(5) [THEN iffD2, OF conjI, OF _ nin(1)] assms(4) n(1) by auto
    have "wp (write_log1 n) (\<lambda>_. copy_post p t (log_slot (lg t) n) (blk t (home (lg t) n))) t"
      by (rule write_log1_ok [OF t(1)])
        (use assms(2,3) n t(2,3) b wrote_npinned [OF assms(1) wt] in \<open>auto simp: log_wf_def\<close>)
    then show "wp (write_log1 n) (\<lambda>_. wrote p s (map (\<lambda>i. (log_slot (lg s) i, blk s (home (lg s) i))) [0..<Suc n])) t"
      unfolding copy_wrote t(2) b(1) by (rule wp_mono) (use wrote_trans [OF wt] in simp)
  qed (use Suc.prems in simp)
qed

lemma install_ok:
  assumes "quiet p s" "log_wf (lg s) N (length (disk s))"
    and "npinned s + 1 < NBUF \<or> npinned s < NBUF \<and> (\<forall>i < N. dirtyb s (home (lg s) i))"
  shows "n \<le> N \<Longrightarrow> wp (kiter install1 [0..<n])
    (\<lambda>_. wrote p s (map (\<lambda>i. (home (lg s) i, blk s (log_slot (lg s) i))) [0..<n])) s"
proof (induction n)
  case 0
  then show ?case using wrote_Nil [OF assms(1)] by (simp add: wps)
next
  case (Suc n)
  let ?ws = "map (\<lambda>i. (home (lg s) i, blk s (log_slot (lg s) i))) [0..<n]"
  have n: "n < N" "n < LOGSIZE" using Suc.prems assms(2) by (auto simp: log_wf_def)
  note nin = log_slot_notin [OF assms(2) n(1)]
  show ?case unfolding kiter_snoc
  proof (rule wp_mono [OF Suc.IH])
    fix t assume wt: "wrote p s ?ws t"
    note t = wrote_simps [OF wt]
    have b: "blk t (log_slot (lg s) n) = blk s (log_slot (lg s) n)" using t(4) [OF nin(2)] .
    have room: "npinned t + 1 < NBUF \<or> npinned t < NBUF \<and> dirtyb t (home (lg t) n)"
      using assms(3) wrote_npinned [OF assms(1) wt] t(2) t(5) [of "home (lg s) n"] nin(3) n(1) by fastforce
    have "wp (install1 n) (\<lambda>_. copy_post p t (home (lg t) n) (blk t (log_slot (lg t) n))) t"
      by (rule install1_ok [OF t(1) _ _ _ _ _ room])
        (use assms(2) n t(2,3) in \<open>auto simp: log_wf_def\<close>)
    then show "wp (install1 n) (\<lambda>_. wrote p s (map (\<lambda>i. (home (lg s) i, blk s (log_slot (lg s) i))) [0..<Suc n])) t"
      unfolding copy_wrote t(2) b(1) by (rule wp_mono) (use wrote_trans [OF wt] in simp)
  qed (use Suc.prems in simp)
qed

section \<open>Reading the header back\<close>

lemma head_bytes_get:
  assumes "length d = BSIZE" "0 \<le> n" "n \<le> int LOGSIZE" "\<forall>i < nat n. int_range (bl ! i)"
  shows "geti32 (head_bytes n bl d) 0 = n"
    and "i < nat n \<Longrightarrow> geti32 (head_bytes n bl d) (4 + 4 * i) = bl ! i"
proof -
  let ?F = "\<lambda>m. fold (\<lambda>i d. puti32 (4 + 4 * i) (bl ! i) d) [0..<m] (puti32 0 n d)"
  have F: "length (?F m) = BSIZE \<and> geti32 (?F m) 0 = n \<and> (\<forall>i < m. geti32 (?F m) (4 + 4 * i) = bl ! i)"
    if "m \<le> nat n" for m
    using that
  proof (induction m)
    case 0
    then show ?case using assms by (simp add: geti32_puti32_same int_range_def)
  next
    case (Suc m)
    then have m: "m < LOGSIZE" "length (?F m) = BSIZE" "geti32 (?F m) 0 = n" "int_range (bl ! m)"
        "\<forall>i < m. geti32 (?F m) (4 + 4 * i) = bl ! i"
      using assms(3,4) by auto
    then show ?case by (auto simp: geti32_puti32_same geti_puti_other less_Suc_eq)
  qed
  show "geti32 (head_bytes n bl d) 0 = n" using F [of "nat n"] by (simp add: head_bytes_def)
  show "geti32 (head_bytes n bl d) (4 + 4 * i) = bl ! i" if "i < nat n"
    using F [of "nat n"] that by (simp add: head_bytes_def)
qed

lemma wp_set_blocks:
  "\<forall>k \<in> set ks. k < LOGSIZE \<Longrightarrow>
   wp (kiter (\<lambda>k. set_block k (geti32 d (4 + 4 * k))) ks) P s \<longleftrightarrow>
   P () (upd_lg (\<lambda>g. g\<lparr>lh_block := read_blocks d ks (lh_block g)\<rparr>) s)"
proof (induction ks arbitrary: s)
  case Nil
  have "upd_lg (\<lambda>g. g\<lparr>lh_block := lh_block g\<rparr>) s = s" by (simp add: upd_lg_def)
  then show ?case by (simp add: wps read_blocks_def)
next
  case (Cons k ks)
  have "upd_lg f (upd_lg g s) = upd_lg (\<lambda>x. f (g x)) s" for f g by (simp add: upd_lg_def)
  then show ?case using Cons by (simp add: wps set_block_def read_blocks_def)
qed

lemma nth_read_blocks:
  "length bl = LOGSIZE \<Longrightarrow> n \<le> LOGSIZE \<Longrightarrow> i < n \<Longrightarrow> read_blocks d [0..<n] bl ! i = geti32 d (4 + 4 * i)
   \<and> length (read_blocks d [0..<n] bl) = LOGSIZE"
proof (induction n)
  case (Suc n)
  have l: "length (read_blocks d ks bl) = LOGSIZE" for ks
    using Suc.prems(1) unfolding read_blocks_def by (induction ks arbitrary: bl) auto
  show ?case
  proof (cases "i = n")
    case True
    then show ?thesis using l [of "[0..<n]"] l [of "[0..<Suc n]"] Suc.prems(2) by (simp add: read_blocks_def)
  next
    case False
    then show ?thesis using Suc l [of "[0..<Suc n]"] by (simp add: read_blocks_def)
  qed
qed simp

lemma length_read_blocks: "length (read_blocks d ks bl) = length bl"
  unfolding read_blocks_def by (induction ks arbitrary: bl) auto

lemma dirtyb_upd_lg [simp]: "dirtyb (upd_lg f s) = dirtyb s" "quiet p (upd_lg f s) = quiet p s"
  by (auto simp: dirtyb_def quiet_def fun_eq_iff)

lemma read_head_ok:
  assumes "quiet p s" "lg_dev (lg s) = ROOTDEV" "ublk (lg_start (lg s)) < length (disk s)"
    and "npinned s < NBUF" "geti32 (blk s (ublk (lg_start (lg s)))) 0 \<le> int LOGSIZE"
  shows "wp read_head (\<lambda>_. read_head_post p s) s"
proof -
  note q = quietD [OF assms(1)]
  let ?h = "ublk (lg_start (lg s))"
  let ?d = "blk s ?h"
  have ks: "\<forall>k \<in> set [0..<nat (geti32 ?d 0)]. k < LOGSIZE" using assms(5) by auto
  show ?thesis
    unfolding read_head_def wps assms(2)
  proof (rule wp_mono [OF bread_ok [of p s ?h]])
    fix i t assume bt: "bread_post p s ?h i t"
    then have t: "keeps p {} t s" "lg t = lg s" "lstate.more t = lstate.more s" "bio_inv t" "caches t i ?h"
        "locked_buf t i" "b_data (bufs t ! i) = ?d" "blk t = blk s" "disk t = disk s" "dtrace t = dtrace s"
        "b_dirty (bufs t ! i) \<or> b_data (bufs t ! i) = disk t ! ?h" "\<And>k. k \<noteq> i \<Longrightarrow> locked_buf t k = locked_buf s k"
      by (auto simp: bread_post_def bmore_eq)
    let ?u = "upd_lg (\<lambda>g. g\<lparr>lh_block := read_blocks ?d [0..<nat (geti32 ?d 0)] (lh_block g)\<rparr>)
        (upd_lg (\<lambda>g. g\<lparr>lh_n := geti32 ?d 0\<rparr>) t)"
    have i: "i < NBUF" using t(5) by (simp add: caches_def)
    have "wp (brelse i) (\<lambda>_. brelse_post p ?u i) ?u"
      by (rule brelse_ok) (use keepsD(1) [OF t(1)] t i in \<open>auto simp: caches_def\<close>)
    then have "wp (brelse i) (\<lambda>_. read_head_post p s) ?u"
    proof (rule wp_mono)
      fix w assume bw: "brelse_post p ?u i w"
      then have w: "keeps p {} w ?u" "lg w = lg ?u" "lstate.more w = lstate.more t" "bio_inv w" "blk w = blk s"
          "disk w = disk s" "dtrace w = dtrace s" "bufs w = (bufs t)[i := (bufs t ! i)\<lparr>b_refcnt := 0\<rparr>]"
          "\<not> locked_buf w i" "\<And>k. k \<noteq> i \<Longrightarrow> locked_buf w k = locked_buf t k"
        using t by (auto simp: brelse_post_def bmore_eq)
      have kw: "keeps p {} w s" using w(1) t(1) only_wakes_trans by (auto simp: keeps_def)
      have nl: "\<not> locked_buf w k" if "k < NBUF" for k using that w(9,10) t(12) q(3) by metis
      have bw: "bufs w ! k = (if k = i then (bufs t ! i)\<lparr>b_refcnt := 0\<rparr> else bufs t ! k)" if "k < NBUF" for k
        using that bio_invD(1) [OF t(4)] by (simp add: w(8))
      have ca: "caches w k c = caches t k c" for k c by (cases "k < NBUF") (simp_all add: caches_def bw)
      have "dirtyb w c = dirtyb t c" for c
        by (rule dirtyb_eqI [OF ca]) (auto simp: caches_def bw)
      then have "dirtyb w = dirtyb s" using bread_dirtyb [OF bt q(2)] by (intro ext) simp
      then show "read_head_post p s w"
        using w t nl kw keepsD(1) [OF kw] by (simp add: read_head_post_def Let_def quiet_def)
    qed
    then show "wp (kiter (\<lambda>k. set_block k (geti32 (b_data (bufs t ! i)) (4 + 4 * k))) [0..<nat (geti32 (b_data (bufs t ! i)) 0)])
        (\<lambda>_. wp (brelse i) (\<lambda>_. read_head_post p s)) (upd_lg (\<lambda>g. g\<lparr>lh_n := geti32 (b_data (bufs t ! i)) 0\<rparr>) t)"
      unfolding t(7) wp_set_blocks [OF ks] .
  qed (use assms q in auto)
qed

section \<open>Commit\<close>

lemma quiet_blk: "quiet p s \<Longrightarrow> \<not> dirtyb s b \<Longrightarrow> blk s b = disk s ! b"
  by (rule blk_clean) (auto dest: quietD simp: dirtyb_def)

lemma writes_targets:
  "fst ` set (log_writes g n new) = log_slot g ` {..<n}" "fst ` set (home_writes g n new) = home g ` {..<n}"
  unfolding log_writes_def home_writes_def by (auto simp: image_image)

lemma head_notin:
  assumes "log_wf g n len"
  shows "ublk (lg_start g) \<notin> fst ` set (log_writes g n new)"
    "ublk (lg_start g) \<notin> fst ` set (home_writes g n new)"
    "i < n \<Longrightarrow> home g i \<notin> fst ` set (log_writes g n new)"
    "i < n \<Longrightarrow> log_slot g i \<notin> fst ` set (home_writes g n new)"
proof -
  note wf = assms [unfolded log_wf_def]
  show "ublk (lg_start g) \<notin> fst ` set (log_writes g n new)" "ublk (lg_start g) \<notin> fst ` set (home_writes g n new)"
    unfolding writes_targets using wf by auto
  show "home g i \<notin> fst ` set (log_writes g n new)" if "i < n" unfolding writes_targets using wf that by (metis imageE lessThan_iff)
  show "log_slot g i \<notin> fst ` set (home_writes g n new)" if "i < n" unfolding writes_targets using wf that by auto
qed

lemma commit_ok:
  assumes "quiet p s" "lh_n (lg s) = int n" "0 < n" "log_wf (lg s) n (length (disk s))" "n < NBUF"
    and "\<And>c. dirtyb s c \<longleftrightarrow> c \<in> home (lg s) ` {..<n}"
  shows "wp commit (\<lambda>_ t. quiet p t \<and> dtrace t = dtrace s @ commit_writes (lg s) n (blk s)
    \<and> disk t = apply_writes (commit_writes (lg s) n (blk s)) (disk s) \<and> (\<forall>c. \<not> dirtyb t c)
    \<and> lg t = (lg s)\<lparr>lh_n := 0\<rparr>) s"
proof -
  let ?g = "lg s" and ?h = "ublk (lg_start (lg s))"
  let ?H = "head_bytes (int n) (lh_block ?g) (blk s ?h)"
  note wf = assms(4) [unfolded log_wf_def]
  have pin: "npinned s < NBUF"
  proof -
    have "npinned s = card (home ?g ` {..<n})" using npinned_quiet [OF assms(1)] assms(6) by simp
    also have "\<dots> \<le> n" using card_image_le [of "{..<n}" "home ?g"] by simp
    finally show ?thesis using assms(5) by simp
  qed
  have dirty: "\<forall>i < n. dirtyb s (home ?g i)" using assms(6) by auto
  have "wp write_log (\<lambda>_. wrote p s (log_writes ?g n (blk s))) s"
    using write_log_ok [OF assms(1,4) pin dirty order.refl] by (simp add: write_log_def wps assms(2) log_writes_def)
  then have "wp write_log (\<lambda>_. wp write_head (\<lambda>_. wp install_trans (\<lambda>_ t. wp write_head
      (\<lambda>_ t. quiet p t \<and> dtrace t = dtrace s @ commit_writes ?g n (blk s)
        \<and> disk t = apply_writes (commit_writes ?g n (blk s)) (disk s) \<and> (\<forall>c. \<not> dirtyb t c) \<and> lg t = ?g\<lparr>lh_n := 0\<rparr>)
      (upd_lg (\<lambda>g. g\<lparr>lh_n := 0\<rparr>) t)))) s"
  proof (rule wp_mono)
    fix t assume wt: "wrote p s (log_writes ?g n (blk s)) t"
    note t = wrote_simps [OF wt]
    have bh: "blk t ?h = blk s ?h" by (rule t(4)) (rule head_notin [OF assms(4)])
    have "wp write_head (\<lambda>_. wrote p t [(?h, ?H)]) t"
      using write_head_ok [OF t(1)] t(2,3) wf wrote_npinned [OF assms(1) wt] pin assms(2)
      unfolding copy_wrote by (simp add: bh)
    then show "wp write_head (\<lambda>_. wp install_trans (\<lambda>_ t. wp write_head
      (\<lambda>_ t. quiet p t \<and> dtrace t = dtrace s @ commit_writes ?g n (blk s)
        \<and> disk t = apply_writes (commit_writes ?g n (blk s)) (disk s) \<and> (\<forall>c. \<not> dirtyb t c) \<and> lg t = ?g\<lparr>lh_n := 0\<rparr>)
      (upd_lg (\<lambda>g. g\<lparr>lh_n := 0\<rparr>) t))) t"
    proof (rule wp_mono)
      fix u assume "wrote p t [(?h, ?H)] u"
      then have wu: "wrote p s (log_writes ?g n (blk s) @ [(?h, ?H)]) u" using wrote_trans [OF wt] by blast
      note u = wrote_simps [OF wu]
      have slot: "blk u (log_slot ?g i) = blk s (home ?g i)" if "i < n" for i
      proof -
        have "log_slot ?g i \<noteq> ?h" using wf that by auto
        then have "blk u (log_slot ?g i) = apply_fun (log_writes ?g n (blk s)) (blk s) (log_slot ?g i)"
          using wu by (simp add: wrote_def apply_fun_append)
        also have "\<dots> = blk s (home ?g i)"
          unfolding log_writes_def by (rule apply_fun_map) (use wf that in auto)
        finally show ?thesis .
      qed
      have du: "dirtyb u (home ?g i)" if "i < n" for i
        using u(5) [of "home ?g i"] dirty that wf head_notin(3) [OF assms(4) that] by simp
      have pu: "npinned u < NBUF" using wrote_npinned [OF assms(1) wu] pin by simp
      have wfu: "log_wf (lg u) n (length (disk u))" using assms(4) u(2,3) by simp
      have "map (\<lambda>i. (home (lg u) i, blk u (log_slot (lg u) i))) [0..<n] = home_writes ?g n (blk s)"
        using slot u(2) by (simp add: home_writes_def)
      then have "wp install_trans (\<lambda>_. wrote p u (home_writes ?g n (blk s))) u"
        using install_ok [OF u(1) wfu _ order.refl] du pu u(2) by (simp add: install_trans_def wps assms(2))
      then show "wp install_trans (\<lambda>_ t. wp write_head
        (\<lambda>_ t. quiet p t \<and> dtrace t = dtrace s @ commit_writes ?g n (blk s)
          \<and> disk t = apply_writes (commit_writes ?g n (blk s)) (disk s) \<and> (\<forall>c. \<not> dirtyb t c) \<and> lg t = ?g\<lparr>lh_n := 0\<rparr>)
        (upd_lg (\<lambda>g. g\<lparr>lh_n := 0\<rparr>) t)) u"
      proof (rule wp_mono)
        fix v assume "wrote p u (home_writes ?g n (blk s)) v"
        then have wv: "wrote p s (log_writes ?g n (blk s) @ [(?h, ?H)] @ home_writes ?g n (blk s)) v"
          using wrote_trans [OF wu] by simp
        note v = wrote_simps [OF wv]
        let ?v = "upd_lg (\<lambda>g. g\<lparr>lh_n := 0\<rparr>) v"
        have hv: "blk v ?h = ?H"
        proof -
          have "blk v ?h = apply_fun (home_writes ?g n (blk s)) ((apply_fun (log_writes ?g n (blk s)) (blk s))(?h := ?H)) ?h"
            using wv by (simp add: wrote_def apply_fun_append)
          also have "\<dots> = ?H" using head_notin(2) [OF assms(4)]
            by (subst apply_fun_other) simp_all
          finally show ?thesis .
        qed
        have "wp write_head (\<lambda>_. wrote p ?v [(?h, head_bytes 0 (lh_block ?g) ?H)]) ?v"
          using write_head_ok [of p ?v] v(1,2,3) wf wrote_npinned [OF assms(1) wv] pin hv
          unfolding copy_wrote by simp
        then show "wp write_head
          (\<lambda>_ t. quiet p t \<and> dtrace t = dtrace s @ commit_writes ?g n (blk s)
            \<and> disk t = apply_writes (commit_writes ?g n (blk s)) (disk s) \<and> (\<forall>c. \<not> dirtyb t c) \<and> lg t = ?g\<lparr>lh_n := 0\<rparr>) ?v"
        proof (rule wp_mono)
          fix w assume ww: "wrote p ?v [(?h, head_bytes 0 (lh_block ?g) ?H)] w"
          note w = wrote_simps [OF ww]
          have "\<not> dirtyb w c" for c
            using w(5) [of c] v(5) [of c] assms(6) [of c] writes_targets(2) [of ?g n "blk s"] by (simp add: image_Un)
          moreover have "dtrace w = dtrace s @ commit_writes ?g n (blk s)"
              "disk w = apply_writes (commit_writes ?g n (blk s)) (disk s)"
            using ww wv by (auto simp: wrote_def commit_writes_def Let_def apply_writes_append)
          ultimately show "quiet p w \<and> dtrace w = dtrace s @ commit_writes ?g n (blk s)
            \<and> disk w = apply_writes (commit_writes ?g n (blk s)) (disk s) \<and> (\<forall>c. \<not> dirtyb w c) \<and> lg w = ?g\<lparr>lh_n := 0\<rparr>"
            using w(1,2) v(2) by simp
        qed
      qed
    qed
  qed
  then show ?thesis using assms(2,3) unfolding commit_def wps by simp
qed

section \<open>Recovery\<close>

lemma with_head_simps [simp]:
  "lg_start (with_head d g) = lg_start g" "lg_dev (with_head d g) = lg_dev g" "lh_n (with_head d g) = geti32 d 0"
  "length (lh_block (with_head d g)) = length (lh_block g)" "log_slot (with_head d g) i = log_slot g i"
  by (auto simp: with_head_def length_read_blocks log_slot_def)

lemma recover_targets: "fst ` set (recover_writes g n d) = home g ` {..<n}"
  unfolding recover_writes_def by (auto simp: image_image)

lemma recover_ok:
  assumes "quiet q u" "\<And>c. \<not> dirtyb u c" "geti32 (disk u ! ublk (lg_start (lg u))) 0 = int n"
    and "log_wf (with_head (disk u ! ublk (lg_start (lg u))) (lg u)) n (length (disk u))"
  shows "wp recover_from_log (\<lambda>_ v. quiet q v \<and> (\<forall>c. \<not> dirtyb v c)
    \<and> disk v = (apply_writes (recover_writes (with_head (disk u ! ublk (lg_start (lg u))) (lg u)) n (disk u)) (disk u))
        [ublk (lg_start (lg u)) := head_bytes 0 (lh_block (lg v)) (disk u ! ublk (lg_start (lg u)))]) u"
proof -
  let ?h = "ublk (lg_start (lg u))"
  let ?g = "with_head (disk u ! ?h) (lg u)"
  note wf = assms(4) [unfolded log_wf_def]
  have blk: "blk u b = disk u ! b" for b by (rule quiet_blk [OF assms(1)]) (rule assms(2))
  have pin: "npinned u = 0" using npinned_quiet [OF assms(1)] assms(2) by simp
  let ?Q = "\<lambda>_ v. quiet q v \<and> (\<forall>c. \<not> dirtyb v c)
    \<and> disk v = (apply_writes (recover_writes ?g n (disk u)) (disk u)) [?h := head_bytes 0 (lh_block (lg v)) (disk u ! ?h)]"
  have "wp read_head (\<lambda>_. read_head_post q u) u"
    by (rule read_head_ok) (use assms(1,3) wf blk pin in auto)
  then have "wp read_head (\<lambda>_. wp install_trans (\<lambda>_ t. wp write_head ?Q (upd_lg (\<lambda>g. g\<lparr>lh_n := 0\<rparr>) t))) u"
  proof (rule wp_mono)
    fix t assume "read_head_post q u t"
    then have t: "quiet q t" "disk t = disk u" "blk t = blk u" "dirtyb t = dirtyb u" "lg t = ?g"
      by (auto simp: read_head_post_def Let_def with_head_def blk)
    have pt: "npinned t = 0" using npinned_quiet [OF t(1)] assms(2) t(4) by simp
    have "wp install_trans (\<lambda>_. wrote q t (recover_writes ?g n (disk u))) t"
      using install_ok [OF t(1), of n n] t pt assms(3,4) by (simp add: install_trans_def wps recover_writes_def blk)
    then show "wp install_trans (\<lambda>_ t. wp write_head ?Q (upd_lg (\<lambda>g. g\<lparr>lh_n := 0\<rparr>) t)) t"
    proof (rule wp_mono)
      fix v assume wv: "wrote q t (recover_writes ?g n (disk u)) v"
      note v = wrote_simps [OF wv]
      let ?v = "upd_lg (\<lambda>g. g\<lparr>lh_n := 0\<rparr>) v"
      have bh: "blk v ?h = disk u ! ?h"
      proof -
        have "?h \<notin> home ?g ` {..<n}" using wf by (metis imageE lessThan_iff with_head_simps(1))
        then show ?thesis using v(4) [of ?h] t(3) blk unfolding recover_targets by simp
      qed
      have pv: "npinned v = 0" using npinned_quiet [OF v(1)] v(5) t(4) assms(2) by simp
      have "wp write_head (\<lambda>_. wrote q ?v [(?h, head_bytes 0 (lh_block ?g) (disk u ! ?h))]) ?v"
        using write_head_ok [of q ?v] v(1,2,3) t(2,5) pv wf bh unfolding copy_wrote by simp
      then show "wp write_head ?Q ?v"
      proof (rule wp_mono)
        fix w assume ww: "wrote q ?v [(?h, head_bytes 0 (lh_block ?g) (disk u ! ?h))] w"
        note w = wrote_simps [OF ww]
        have "disk w = (disk v)[?h := head_bytes 0 (lh_block ?g) (disk u ! ?h)]" "disk v = apply_writes (recover_writes ?g n (disk u)) (disk u)"
          using ww wv t(2) by (auto simp: wrote_def)
        moreover have "lh_block (lg w) = lh_block ?g" using w(2) v(2) t(5) by simp
        moreover have "\<not> dirtyb w c" for c using w(5) v(5) t(4) assms(2) by simp
        ultimately show "?Q () w" using w(1) by simp
      qed
    qed
  qed
  then show ?thesis unfolding recover_from_log_def wps .
qed

section \<open>Crash safety\<close>

lemma recover_empty:
  assumes "rebooted q (lg_start g) d u" "ublk (lg_start g) < length d" "geti32 (d ! ublk (lg_start g)) 0 = 0"
  shows "wp recover_from_log (\<lambda>_ v. \<forall>b. b \<noteq> ublk (lg_start g) \<longrightarrow> disk v ! b = d ! b) u"
proof -
  note u = assms(1) [unfolded rebooted_def]
  show ?thesis
    by (rule wp_mono [OF recover_ok [of q u 0]]) (use u assms(2,3) in \<open>auto simp: log_wf_def recover_writes_def\<close>)
qed

lemma recover_full:
  assumes "rebooted q (lg_start g) d u" "log_wf g n (length d)" "length c = BSIZE"
    and "d ! ublk (lg_start g) = head_bytes (int n) (lh_block g) c" "\<forall>i < n. int_range (lh_block g ! i)"
  shows "wp recover_from_log (\<lambda>_ v. (\<forall>b. b \<noteq> ublk (lg_start g) \<longrightarrow> b \<notin> home g ` {..<n} \<longrightarrow> disk v ! b = d ! b)
    \<and> (\<forall>i < n. disk v ! home g i = d ! log_slot g i)) u"
proof -
  note u = assms(1) [unfolded rebooted_def]
  note wf = assms(2) [unfolded log_wf_def]
  let ?h = "ublk (lg_start g)"
  let ?g = "with_head (d ! ?h) (lg u)"
  have n: "geti32 (d ! ?h) 0 = int n" unfolding assms(4) by (rule head_bytes_get(1)) (use assms wf in auto)
  have bl: "lh_block ?g ! i = lh_block g ! i" if "i < n" for i
  proof -
    have "lh_block ?g ! i = geti32 (d ! ?h) (4 + 4 * i)"
      using nth_read_blocks [of "lh_block (lg u)" n i] that u wf n by (simp add: with_head_def)
    then show ?thesis unfolding assms(4) using head_bytes_get(2) [of c "int n" "lh_block g" i] assms that wf by simp
  qed
  have hm: "home ?g i = home g i" if "i < n" for i using bl [OF that] by (simp add: home_def)
  have sl: "log_slot (lg u) = log_slot g" using u by (auto simp: log_slot_def fun_eq_iff)
  have eq: "map (home ?g) [0..<n] = map (home g) [0..<n]" using hm by simp
  have eqs: "log_slot ?g = log_slot g" using sl by (simp add: fun_eq_iff)
  have wfu: "log_wf ?g n (length d)" unfolding log_wf_def eq eqs using wf u hm by simp
  have im: "home ?g ` {..<n} = home g ` {..<n}" using hm by simp
  have rec: "apply_writes (recover_writes ?g n d) d ! home g i = d ! log_slot g i" if "i < n" for i
    using apply_writes_map [of "home ?g" "[0..<n]" i d] that wf hm eq by (simp add: recover_writes_def sl)
  show ?thesis
  proof (rule wp_mono [OF recover_ok [of q u n]])
    fix v assume "quiet q v \<and> (\<forall>c. \<not> dirtyb v c)
      \<and> disk v = (apply_writes (recover_writes (with_head (disk u ! ublk (lg_start (lg u))) (lg u)) n (disk u)) (disk u))
        [ublk (lg_start (lg u)) := head_bytes 0 (lh_block (lg v)) (disk u ! ublk (lg_start (lg u)))]"
    then have v: "disk v = (apply_writes (recover_writes ?g n d) d) [?h := head_bytes 0 (lh_block (lg v)) (d ! ?h)]"
      using u by simp
    show "(\<forall>b. b \<noteq> ?h \<longrightarrow> b \<notin> home g ` {..<n} \<longrightarrow> disk v ! b = d ! b) \<and> (\<forall>i < n. disk v ! home g i = d ! log_slot g i)"
      unfolding v using apply_writes_other [of _ "recover_writes ?g n d" d] recover_targets [of ?g n d] im rec wf by auto
  qed (use u n wfu in auto)
qed

text \<open>The disk after a prefix of the writes of a commit.\<close>

lemma crash_disk:
  fixes new :: "nat \<Rightarrow> uchar list"
  assumes "log_wf g n (length d)"
  defines "ws \<equiv> commit_writes g n new" and "h \<equiv> ublk (lg_start g)"
  defines "H \<equiv> head_bytes (int n) (lh_block g) (new h)"
  shows "k \<le> n \<Longrightarrow> b \<notin> log_slot g ` {..<n} \<Longrightarrow> apply_writes (take k ws) d ! b = d ! b"
    and "n < k \<Longrightarrow> k \<le> 2 * n + 1 \<Longrightarrow> apply_writes (take k ws) d ! h = H"
    and "n < k \<Longrightarrow> i < n \<Longrightarrow> apply_writes (take k ws) d ! log_slot g i = new (home g i)"
    and "b \<notin> log_area g n \<Longrightarrow> b \<notin> home g ` {..<n} \<Longrightarrow> apply_writes (take k ws) d ! b = d ! b"
    and "2 * n + 1 < k \<Longrightarrow> apply_writes (take k ws) d ! h = head_bytes 0 (lh_block g) H"
    and "2 * n + 1 < k \<Longrightarrow> i < n \<Longrightarrow> apply_writes (take k ws) d ! home g i = new (home g i)"
proof -
  note wf = assms(1) [unfolded log_wf_def, folded h_def]
  have ws: "ws = log_writes g n new @ [(h, H)] @ home_writes g n new @ [(h, head_bytes 0 (lh_block g) H)]"
    by (simp add: ws_def commit_writes_def Let_def h_def H_def)
  have len: "length (log_writes g n new) = n" "length (home_writes g n new) = n"
    by (simp_all add: log_writes_def home_writes_def)
  have sub: "fst ` set (take j (home_writes g n new)) \<subseteq> home g ` {..<n}"
      "fst ` set (take j (log_writes g n new)) \<subseteq> log_slot g ` {..<n}" for j
    using set_take_subset [of j "home_writes g n new"] set_take_subset [of j "log_writes g n new"] writes_targets [of g n new] by blast+
  have hh: "h \<notin> home g ` {..<n}" and hl: "h \<notin> log_slot g ` {..<n}" using wf by (metis imageE lessThan_iff)+
  have hs: "log_slot g i \<notin> home g ` {..<n}" "home g i \<notin> log_slot g ` {..<n}" "log_slot g i \<noteq> h" if "i < n" for i
    using wf that by (metis imageE lessThan_iff)+
  have lg: "apply_writes (log_writes g n new) d ! log_slot g i = new (home g i)" if "i < n" for i
    unfolding log_writes_def by (rule apply_writes_map) (use wf that in auto)
  have hm: "apply_writes (home_writes g n new) e ! home g i = new (home g i)" if "i < n" "length e = length d" for i e
    unfolding home_writes_def by (rule apply_writes_map) (use wf that in auto)
  have mid: "take k ws = log_writes g n new @ [(h, H)] @ take (k - Suc n) (home_writes g n new)" if "n < k" "k \<le> 2 * n + 1"
  proof -
    define j where "j = k - Suc n"
    have "k = Suc n + j" "j \<le> n" using that by (auto simp: j_def)
    then show ?thesis by (simp add: ws len)
  qed
  have end_: "take k ws = ws" if "2 * n + 1 < k" using that by (simp add: ws len)
  have skip: "apply_writes vs e ! b = e ! b" if "fst ` set vs \<subseteq> A" "b \<notin> A" for vs A e b
    by (rule apply_writes_other) (use that in auto)
  show "apply_writes (take k ws) d ! b = d ! b" if "k \<le> n" "b \<notin> log_slot g ` {..<n}"
    using that skip [OF sub(2) that(2)] by (simp add: ws len)
  show "apply_writes (take k ws) d ! h = H" if "n < k" "k \<le> 2 * n + 1"
    unfolding mid [OF that] apply_writes_append using skip [OF sub(1) hh] wf by simp
  show fin: "apply_writes (take k ws) d ! h = head_bytes 0 (lh_block g) H" if "2 * n + 1 < k"
    unfolding end_ [OF that] using wf by (simp add: ws apply_writes_append)
  show "apply_writes (take k ws) d ! log_slot g i = new (home g i)" if "n < k" "i < n"
  proof (cases "k \<le> 2 * n + 1")
    case True
    show ?thesis unfolding mid [OF that(1) True] apply_writes_append
      using skip [OF sub(1) hs(1) [OF that(2)]] lg [OF that(2)] hs(3) [OF that(2)] by simp
  next
    case False
    show ?thesis unfolding end_ [OF False [unfolded not_le]] unfolding ws apply_writes_append
      using skip [OF sub(1) hs(1) [OF that(2)], of n] len lg [OF that(2)] hs(3) [OF that(2)] by simp
  qed
  show "apply_writes (take k ws) d ! home g i = new (home g i)" if "2 * n + 1 < k" "i < n"
  proof -
    have "home g i \<noteq> h" using hh that(2) by auto
    then show ?thesis unfolding end_ [OF that(1)] unfolding ws apply_writes_append using hm [OF that(2)] by simp
  qed
  show "apply_writes (take k ws) d ! b = d ! b" if "b \<notin> log_area g n" "b \<notin> home g ` {..<n}"
  proof (rule apply_writes_other)
    have "fst ` set ws \<subseteq> log_area g n \<union> home g ` {..<n}"
      using writes_targets [of g n new] by (auto simp: ws log_area_def h_def)
    then show "b \<notin> fst ` set (take k ws)" using that set_take_subset [of k ws] by blast
  qed
qed

lemma commit_crash:
  assumes "quiet p s" "log_wf (lg s) n (length (disk s))" "\<And>c. dirtyb s c \<longleftrightarrow> c \<in> home (lg s) ` {..<n}"
    and "\<forall>i < n. int_range (lh_block (lg s) ! i)" "geti32 (disk s ! ublk (lg_start (lg s))) 0 = 0"
    and u: "rebooted q (lg_start (lg s)) (apply_writes (take k (commit_writes (lg s) n (blk s))) (disk s)) u"
  shows "wp recover_from_log (\<lambda>_ v. \<forall>b. b \<notin> log_area (lg s) n \<longrightarrow> disk v ! b = (if k \<le> n then disk s ! b else blk s b)) u"
proof -
  let ?g = "lg s" and ?h = "ublk (lg_start (lg s))"
  let ?H = "head_bytes (int n) (lh_block ?g) (blk s ?h)"
  note wf = assms(2) [unfolded log_wf_def]
  note cd = crash_disk [OF assms(2), where new = "blk s"]
  have clean: "blk s b = disk s ! b" if "b \<notin> home ?g ` {..<n}" for b
    by (rule quiet_blk [OF assms(1)]) (use that assms(3) in simp)
  have hh: "?h \<notin> log_slot ?g ` {..<n}" using wf by (metis imageE lessThan_iff)
  have lb: "length (blk s ?h) = BSIZE" by (rule length_blk_quiet [OF assms(1)]) (use wf in simp)
  have lH: "length ?H = BSIZE" by (rule length_head_bytes [OF lb]) (use wf in simp)
  consider "k \<le> n" | "n < k" "k \<le> 2 * n + 1" | "2 * n + 1 < k" by linarith
  then show ?thesis
  proof cases
    case 1
    show ?thesis
      by (rule wp_mono [OF recover_empty [OF u]]) (use cd(1) [OF 1] hh wf assms(5) 1 in \<open>auto simp: log_area_def\<close>)
  next
    case 2
    show ?thesis
    proof (rule wp_mono [OF recover_full [OF u, of n "blk s ?h"]])
      fix v assume v: "(\<forall>b. b \<noteq> ?h \<longrightarrow> b \<notin> home ?g ` {..<n} \<longrightarrow> disk v ! b = apply_writes (take k (commit_writes ?g n (blk s))) (disk s) ! b)
        \<and> (\<forall>i < n. disk v ! home ?g i = apply_writes (take k (commit_writes ?g n (blk s))) (disk s) ! log_slot ?g i)"
      have "disk v ! b = blk s b" if "b \<notin> log_area ?g n" for b
      proof (cases "b \<in> home ?g ` {..<n}")
        case True
        then show ?thesis using v cd(3) [OF 2(1)] by auto
      next
        case False
        then show ?thesis using v that cd(4) [OF that False] clean [OF False] by (simp add: log_area_def)
      qed
      then show "\<forall>b. b \<notin> log_area ?g n \<longrightarrow> disk v ! b = (if k \<le> n then disk s ! b else blk s b)"
        using 2(1) by simp
    qed (use assms(2,4) lb cd(2) [OF 2] in auto)
  next
    case 3
    have H0: "geti32 (head_bytes 0 (lh_block ?g) ?H) 0 = 0" by (rule head_bytes_get(1)) (use lH in auto)
    show ?thesis
    proof (rule wp_mono [OF recover_empty [OF u]])
      fix v assume v: "\<forall>b. b \<noteq> ?h \<longrightarrow> disk v ! b = apply_writes (take k (commit_writes ?g n (blk s))) (disk s) ! b"
      have "disk v ! b = blk s b" if "b \<notin> log_area ?g n" for b
      proof (cases "b \<in> home ?g ` {..<n}")
        case True
        then show ?thesis using v cd(6) [OF 3] wf by auto
      next
        case False
        then show ?thesis using v that cd(4) [OF that False] clean [OF False] by (simp add: log_area_def)
      qed
      then show "\<forall>b. b \<notin> log_area ?g n \<longrightarrow> disk v ! b = (if k \<le> n then disk s ! b else blk s b)"
        using 3 by simp
    qed (use wf H0 cd(5) [OF 3] in auto)
  qed
qed

text \<open>C13: The log makes a transaction atomic. \<open>commit\<close> performs a sequence of disk writes; stop the machine
  after any prefix of them and boot it again with an empty cache, and \<open>recover_from_log\<close> leaves every
  block outside the log either with its contents from before the transaction, all of them, or with
  its contents after the transaction, all of them.\<close>

theorem commit_crash_safe:
  assumes "quiet p s" "lh_n (lg s) = int n" "0 < n" "log_wf (lg s) n (length (disk s))" "n < NBUF"
    and "\<And>c. dirtyb s c \<longleftrightarrow> c \<in> home (lg s) ` {..<n}"
    and "\<forall>i < n. int_range (lh_block (lg s) ! i)" "geti32 (disk s ! ublk (lg_start (lg s))) 0 = 0"
  shows "wp commit (\<lambda>_ t. \<exists>ws. dtrace t = dtrace s @ ws \<and> disk t = apply_writes ws (disk s)
    \<and> (\<forall>b. b \<notin> log_area (lg s) n \<longrightarrow> disk t ! b = blk s b)
    \<and> (\<forall>k q u. rebooted q (lg_start (lg s)) (apply_writes (take k ws) (disk s)) u \<longrightarrow>
         wp recover_from_log (\<lambda>_ v. (\<forall>b. b \<notin> log_area (lg s) n \<longrightarrow> disk v ! b = disk s ! b)
           \<or> (\<forall>b. b \<notin> log_area (lg s) n \<longrightarrow> disk v ! b = blk s b)) u)) s"
proof (rule wp_mono [OF commit_ok [OF assms(1-6)]])
  let ?ws = "commit_writes (lg s) n (blk s)"
  fix t assume t: "quiet p t \<and> dtrace t = dtrace s @ ?ws \<and> disk t = apply_writes ?ws (disk s)
    \<and> (\<forall>c. \<not> dirtyb t c) \<and> lg t = (lg s)\<lparr>lh_n := 0\<rparr>"
  have full: "take (2 * n + 2) ?ws = ?ws" by (simp add: commit_writes_def Let_def log_writes_def home_writes_def)
  have "disk t ! b = blk s b" if b: "b \<notin> log_area (lg s) n" for b
  proof (cases "b \<in> home (lg s) ` {..<n}")
    case True
    then show ?thesis using crash_disk(6) [OF assms(4), where new = "blk s" and k = "2 * n + 2"] t unfolding full by auto
  next
    case False
    have "blk s b = disk s ! b" by (rule quiet_blk [OF assms(1)]) (use False assms(6) in simp)
    then show ?thesis using crash_disk(4) [OF assms(4) b False, where new = "blk s" and k = "2 * n + 2"] t unfolding full by simp
  qed
  moreover have "wp recover_from_log (\<lambda>_ v. (\<forall>b. b \<notin> log_area (lg s) n \<longrightarrow> disk v ! b = disk s ! b)
      \<or> (\<forall>b. b \<notin> log_area (lg s) n \<longrightarrow> disk v ! b = blk s b)) u"
    if "rebooted q (lg_start (lg s)) (apply_writes (take k ?ws) (disk s)) u" for k q u
    by (rule wp_mono [OF commit_crash [OF assms(1,4,6,7,8) that]]) (simp split: if_splits)
  ultimately show "\<exists>ws. dtrace t = dtrace s @ ws \<and> disk t = apply_writes ws (disk s)
    \<and> (\<forall>b. b \<notin> log_area (lg s) n \<longrightarrow> disk t ! b = blk s b)
    \<and> (\<forall>k q u. rebooted q (lg_start (lg s)) (apply_writes (take k ws) (disk s)) u \<longrightarrow>
         wp recover_from_log (\<lambda>_ v. (\<forall>b. b \<notin> log_area (lg s) n \<longrightarrow> disk v ! b = disk s ! b)
           \<or> (\<forall>b. b \<notin> log_area (lg s) n \<longrightarrow> disk v ! b = blk s b)) u)"
    using t by (intro exI [of _ ?ws]) blast
qed

lemma tx_bufs:
  "bufs tx_state ! 0 = tx_buf"
  "0 < i \<Longrightarrow> i < NBUF \<Longrightarrow> bufs tx_state ! i = \<lparr>b_valid = False, b_dirty = False, b_dev = 0, b_blockno = 0, b_refcnt = 0, b_data = replicate 512 0\<rparr>"
  "length (bufs tx_state) = NBUF"
  by (auto simp: tx_state_def nth_Cons')

lemma tx_quiet: "quiet 0 tx_state"
proof -
  have c: "ctx 0 {} tx_state"
    by (auto simp: ctx_def tx_state_def cpu_ok_def me_def my_ncli_def curproc_def lock_free_def first_idx_def)
  have l: "\<not> locked_buf tx_state i" for i by (simp add: locked_buf_def tx_state_def)
  have b: "b_dev (bufs tx_state ! i) = ROOTDEV \<Longrightarrow> i < NBUF \<Longrightarrow> i = 0" for i
    using tx_bufs(2) [of i] by (cases "i = 0") auto
  have ok: "buf_ok tx_state i" if "i < NBUF" for i
  proof (cases "i = 0")
    case True
    then show ?thesis by (simp add: buf_ok_def l tx_bufs tx_buf_def) (simp add: tx_state_def)
  next
    case False
    then show ?thesis using that by (simp add: buf_ok_def l tx_bufs)
  qed
  have "bio_inv tx_state"
    unfolding bio_inv_def using tx_bufs(3) ok b by (auto simp: tx_state_def atLeast0LessThan)
  then show ?thesis using c l by (simp add: quiet_def)
qed

theorem commit_crash_safe_witness:
  "wp commit (\<lambda>_ t. \<exists>ws. dtrace t = dtrace tx_state @ ws \<and> disk t = apply_writes ws (disk tx_state)
    \<and> (\<forall>b. b \<notin> log_area (lg tx_state) 1 \<longrightarrow> disk t ! b = blk tx_state b)
    \<and> (\<forall>k q u. rebooted q (lg_start (lg tx_state)) (apply_writes (take k ws) (disk tx_state)) (u :: lstate) \<longrightarrow>
         wp recover_from_log (\<lambda>_ v. (\<forall>b. b \<notin> log_area (lg tx_state) 1 \<longrightarrow> disk v ! b = disk tx_state ! b)
           \<or> (\<forall>b. b \<notin> log_area (lg tx_state) 1 \<longrightarrow> disk v ! b = blk tx_state b)) u)) tx_state"
proof (rule commit_crash_safe [OF tx_quiet])
  have lg: "lg tx_state = tx_log" "disk tx_state = replicate 8 (replicate 512 0)" by (simp_all add: tx_state_def)
  have hm: "home tx_log 0 = 6" "log_slot tx_log 0 = 3" "ublk (lg_start tx_log) = 2"
    by (simp_all add: tx_log_def home_def log_slot_def ublk_def)
  show "lh_n (lg tx_state) = int 1" "\<forall>i < 1. int_range (lh_block (lg tx_state) ! i)"
    by (simp_all add: lg tx_log_def int_range_def)
  show "log_wf (lg tx_state) 1 (length (disk tx_state))"
    by (simp add: lg log_wf_def hm) (simp add: tx_log_def)
  show "dirtyb tx_state c \<longleftrightarrow> c \<in> home (lg tx_state) ` {..<1}" for c
  proof
    assume "dirtyb tx_state c"
    then obtain i where i: "i < NBUF" "b_dirty (bufs tx_state ! i)" "b_blockno (bufs tx_state ! i) = c"
      by (auto simp: dirtyb_def caches_def)
    then have "i = 0" using tx_bufs(2) [of i] by (cases "i = 0") auto
    then show "c \<in> home (lg tx_state) ` {..<1}" using i tx_bufs(1) by (simp add: lg hm tx_buf_def lessThan_Suc)
  next
    assume "c \<in> home (lg tx_state) ` {..<1}"
    then have "caches tx_state 0 c" "b_dirty (bufs tx_state ! 0)"
      by (auto simp: caches_def tx_bufs tx_buf_def lg hm lessThan_Suc)
    then show "dirtyb tx_state c" by (auto simp: dirtyb_def)
  qed
  show "geti32 (disk tx_state ! ublk (lg_start (lg tx_state))) 0 = 0"
    unfolding lg hm by code_simp
qed simp_all

end
