(* ===== verification/Kernel.thy ===== *)
theory Kernel
  imports LogCrash
begin

text \<open>
  The rest of the kernel state, above the log: the console (\<open>console.c\<close>, \<open>uart.c\<close>, \<open>kbd.c\<close>), physical
  memory and its allocator (\<open>kalloc.c\<close>), the inode cache (\<open>fs.c\<close>), the open files and pipes
  (\<open>file.c\<close>, \<open>pipe.c\<close>), the tick counter (\<open>trap.c\<close>) and the flag \<open>first\<close> of \<open>forkret\<close> (\<open>proc.c\<close>). Each is one field with one update function;
  the frame lemmas say once and for all that the layers do not disturb each other.
\<close>

section \<open>State\<close>

text \<open>The console: whether a CPU panicked, whether \<open>cprintf\<close> locks, the screen memory with the
  cursor register of the display, the serial line (its output so far and the characters that
  arrived), the scan codes waiting at the keyboard with the modifier state \<open>shift\<close>, and the input
  line buffer with its three indices.\<close>

record console =
  panicked :: bool
  cons_locking :: bool
  crt :: "nat \<Rightarrow> 16 word"
  crt_pos :: nat
  uart :: bool
  uart_out :: "uchar list"
  uart_in :: "uchar list"
  kbd_in :: "uchar list"
  kbd_shift :: uint
  in_buf :: "uchar list"
  in_r :: uint
  in_w :: uint
  in_e :: uint

text \<open>Physical memory by address, and the free list of pages. \<open>kend\<close> and \<open>kdata\<close> are the linker symbols
  \<open>end\<close> and \<open>data\<close>.\<close>

record kmemory =
  mem :: "nat \<Rightarrow> uchar"
  use_lock :: bool
  freelist :: uint
  kend :: uint
  kdata :: uint

record inode =
  i_dev :: nat
  i_inum :: nat
  i_ref :: int
  i_valid :: bool
  i_type :: int
  i_major :: int
  i_minor :: int
  i_nlink :: int
  i_size :: nat
  i_addrs :: "nat list"

record icachest =
  inodes :: "inode list"
  sb :: superblock

datatype filetype = FD_NONE | FD_PIPE | FD_INODE

text \<open>A \<open>struct pipe *\<close> is the address of its page, a \<open>struct inode *\<close> an index of the cache.\<close>

record kfile =
  f_type :: filetype
  f_ref :: int
  f_readable :: bool
  f_writable :: bool
  f_pipe :: uint
  f_ip :: "nat option"
  f_off :: nat

record pipe =
  pi_data :: "uchar list"
  pi_nread :: uint
  pi_nwrite :: uint
  pi_readopen :: bool
  pi_writeopen :: bool

text \<open>The devices of \<open>devsw\<close> that have been registered, the file table and the pipes.\<close>

record filest =
  ftab :: "kfile list"
  pipes :: "uint \<Rightarrow> pipe"
  devsw :: "nat \<Rightarrow> bool"

record kstate = lstate +
  con :: console
  mm :: kmemory
  ic :: icachest
  fl :: filest
  ticks :: uint
  first_run :: bool

definition upd_con :: "(console \<Rightarrow> console) \<Rightarrow> 'a kstate_scheme \<Rightarrow> 'a kstate_scheme" where
  "upd_con f s = s\<lparr>con := f (con s)\<rparr>"

definition upd_mm :: "(kmemory \<Rightarrow> kmemory) \<Rightarrow> 'a kstate_scheme \<Rightarrow> 'a kstate_scheme" where
  "upd_mm f s = s\<lparr>mm := f (mm s)\<rparr>"

definition upd_ic :: "(icachest \<Rightarrow> icachest) \<Rightarrow> 'a kstate_scheme \<Rightarrow> 'a kstate_scheme" where
  "upd_ic f s = s\<lparr>ic := f (ic s)\<rparr>"

definition upd_fl :: "(filest \<Rightarrow> filest) \<Rightarrow> 'a kstate_scheme \<Rightarrow> 'a kstate_scheme" where
  "upd_fl f s = s\<lparr>fl := f (fl s)\<rparr>"

definition upd_ticks :: "(uint \<Rightarrow> uint) \<Rightarrow> 'a kstate_scheme \<Rightarrow> 'a kstate_scheme" where
  "upd_ticks f s = s\<lparr>ticks := f (ticks s)\<rparr>"

text \<open>Everything but the CPU with its locks and the memory.\<close>

definition krest :: "'a kstate_scheme \<Rightarrow> ptab \<times> (sleepid \<Rightarrow> sleeplock) \<times> buf list \<times> nat list \<times> uchar list list
    \<times> (nat \<times> uchar list) list \<times> logst \<times> console \<times> icachest \<times> filest \<times> uint \<times> bool \<times> 'a" where
  "krest s = (pt s, slocks s, bufs s, border s, disk s, dtrace s, lg s, con s, ic s, fl s, ticks s, first_run s, kstate.more s)"

text \<open>A loop over a range that an early exit may leave: the body gives \<open>None\<close> to go on.\<close>

primrec kfirst :: "('i \<Rightarrow> ('r option, 's) code) \<Rightarrow> 'i list \<Rightarrow> ('r option, 's) code" where
  "kfirst f [] = kreturn None"
| "kfirst f (i # is) = kbind (f i) (\<lambda>r. case r of Some x \<Rightarrow> kreturn (Some x) | None \<Rightarrow> kfirst f is)"

text \<open>The machine of the examples: one CPU, process 0 runs in the kernel, no lock is held, nothing is cached, the
  disk and the memory are zero.\<close>

definition machine :: kstate where
  "machine = \<lparr>cpus = [\<lparr>apicid = 0, ncli = 0, intena = True, cproc = Some 0\<rparr>], lapicid = 0, eflags_if = True,
     locks = (\<lambda>_. \<lparr>locked = False, lcpu = None\<rparr>),
     pt = init_ptab\<lparr>procs := zero_proc\<lparr>p_state := RUNNING, p_pid := 1\<rparr> # replicate 63 zero_proc\<rparr>,
     slocks = (\<lambda>_. \<lparr>sl_locked = False, sl_pid = 0\<rparr>),
     bufs = replicate NBUF \<lparr>b_valid = False, b_dirty = False, b_dev = 0, b_blockno = 0, b_refcnt = 0, b_data = replicate 512 0\<rparr>,
     border = [0..<NBUF], disk = replicate 40 (replicate 512 0), dtrace = [],
     lg = \<lparr>lg_start = 2, lg_size = 30, lg_outstanding = 0, lg_committing = False, lg_dev = 1, lh_n = 0, lh_block = replicate 30 0\<rparr>,
     con = \<lparr>panicked = False, cons_locking = True, crt = (\<lambda>_. 0), crt_pos = 0, uart = True, uart_out = [], uart_in = [],
            kbd_in = [], kbd_shift = 0, in_buf = replicate 128 0, in_r = 0, in_w = 0, in_e = 0\<rparr>,
     mm = \<lparr>mem = (\<lambda>_. 0), use_lock = True, freelist = 0, kend = 0x80200000, kdata = 0x80108000\<rparr>,
     ic = \<lparr>inodes = replicate 50 \<lparr>i_dev = 0, i_inum = 0, i_ref = 0, i_valid = False, i_type = 0, i_major = 0, i_minor = 0,
                                  i_nlink = 0, i_size = 0, i_addrs = replicate 13 0\<rparr>,
           sb = \<lparr>sb_size = 40, sb_nblocks = 5, sb_ninodes = 16, sb_nlog = 30, sb_logstart = 2, sb_inodestart = 32, sb_bmapstart = 34\<rparr>\<rparr>,
     fl = \<lparr>ftab = replicate 100 \<lparr>f_type = FD_NONE, f_ref = 0, f_readable = False, f_writable = False, f_pipe = 0, f_ip = None, f_off = 0\<rparr>,
           pipes = (\<lambda>_. \<lparr>pi_data = replicate 512 0, pi_nread = 0, pi_nwrite = 0, pi_readopen = False, pi_writeopen = False\<rparr>),
           devsw = (\<lambda>_. False)\<rparr>,
     ticks = 0, first_run = True\<rparr>"

section \<open>Frames\<close>

lemma con_frame [simp]:
  "con (settle s) = con s" "con (acq l s) = con s" "con (rel l s) = con s" "con (upd_pt f s) = con s"
  "con (upd_buf i g s) = con s" "con (upd_sl k h s) = con s" "con (upd_lg e s) = con s"
  by (simp_all add: settle_def acq_def push_st_def rel_def pop_st_def upd_cpu_def upd_lock_def upd_pt_def
      upd_buf_def upd_sl_def upd_lg_def)

lemma mm_frame [simp]:
  "mm (settle s) = mm s" "mm (acq l s) = mm s" "mm (rel l s) = mm s" "mm (upd_pt f s) = mm s"
  "mm (upd_buf i g s) = mm s" "mm (upd_sl k h s) = mm s" "mm (upd_lg e s) = mm s"
  by (simp_all add: settle_def acq_def push_st_def rel_def pop_st_def upd_cpu_def upd_lock_def upd_pt_def
      upd_buf_def upd_sl_def upd_lg_def)

lemma ic_frame [simp]:
  "ic (settle s) = ic s" "ic (acq l s) = ic s" "ic (rel l s) = ic s" "ic (upd_pt f s) = ic s"
  "ic (upd_buf i g s) = ic s" "ic (upd_sl k h s) = ic s" "ic (upd_lg e s) = ic s"
  by (simp_all add: settle_def acq_def push_st_def rel_def pop_st_def upd_cpu_def upd_lock_def upd_pt_def
      upd_buf_def upd_sl_def upd_lg_def)

lemma fl_frame [simp]:
  "fl (settle s) = fl s" "fl (acq l s) = fl s" "fl (rel l s) = fl s" "fl (upd_pt f s) = fl s"
  "fl (upd_buf i g s) = fl s" "fl (upd_sl k h s) = fl s" "fl (upd_lg e s) = fl s"
  by (simp_all add: settle_def acq_def push_st_def rel_def pop_st_def upd_cpu_def upd_lock_def upd_pt_def
      upd_buf_def upd_sl_def upd_lg_def)

lemma ticks_frame [simp]:
  "ticks (settle s) = ticks s" "ticks (acq l s) = ticks s" "ticks (rel l s) = ticks s" "ticks (upd_pt f s) = ticks s"
  "ticks (upd_buf i g s) = ticks s" "ticks (upd_sl k h s) = ticks s" "ticks (upd_lg e s) = ticks s"
  by (simp_all add: settle_def acq_def push_st_def rel_def pop_st_def upd_cpu_def upd_lock_def upd_pt_def
      upd_buf_def upd_sl_def upd_lg_def)

lemma first_run_frame [simp]:
  "first_run (settle s) = first_run s" "first_run (acq l s) = first_run s" "first_run (rel l s) = first_run s" "first_run (upd_pt f s) = first_run s"
  "first_run (upd_buf i g s) = first_run s" "first_run (upd_sl k h s) = first_run s" "first_run (upd_lg e s) = first_run s"
  by (simp_all add: settle_def acq_def push_st_def rel_def pop_st_def upd_cpu_def upd_lock_def upd_pt_def
      upd_buf_def upd_sl_def upd_lg_def)

lemma kmore_frame [simp]:
  "kstate.more (settle s) = kstate.more s" "kstate.more (acq l s) = kstate.more s" "kstate.more (rel l s) = kstate.more s"
  "kstate.more (upd_pt f s) = kstate.more s" "kstate.more (upd_buf i g s) = kstate.more s" "kstate.more (upd_sl k h s) = kstate.more s"
  "kstate.more (upd_lg e s) = kstate.more s"
  by (simp_all add: settle_def acq_def push_st_def rel_def pop_st_def upd_cpu_def upd_lock_def upd_pt_def
      upd_buf_def upd_sl_def upd_lg_def)

lemma lmore_eq:
  "lstate.more t = lstate.more s \<longleftrightarrow>
   con t = con s \<and> mm t = mm s \<and> ic t = ic s \<and> fl t = fl s \<and> ticks t = ticks s \<and> first_run t = first_run s \<and> kstate.more t = kstate.more s"
  by (cases s; cases t; simp)

text \<open>An update of one of the upper fields leaves everything else as it is.\<close>

lemma lower_ctx:
  assumes "cpus t = cpus s" "lapicid t = lapicid s" "locks t = locks s" "eflags_if t = eflags_if s" "pt t = pt s"
  shows "ctx p L t = ctx p L s" "mypid t = mypid s"
  using assms by (simp_all add: ctx_def cpu_ok_def me_def my_ncli_def curproc_def held_def lock_free_def mypid_def cong: option.case_cong)

lemma lower_bio:
  assumes "mypid t = mypid s" "slocks t = slocks s" "bufs t = bufs s" "border t = border s" "disk t = disk s"
  shows "blk t = blk s" "npinned t = npinned s" "caches t = caches s" "locked_buf t = locked_buf s"
    "bio_inv t = bio_inv s" "dirtyb t = dirtyb s"
proof -
  have l: "locked_buf t = locked_buf s" using assms by (simp add: locked_buf_def fun_eq_iff)
  then show "locked_buf t = locked_buf s" .
  show "blk t = blk s" "npinned t = npinned s" using assms by (simp_all add: blk_def npinned_def fun_eq_iff)
  show "caches t = caches s" using assms by (intro ext) (simp add: caches_def)
  then show "dirtyb t = dirtyb s" using assms by (intro ext) (simp add: dirtyb_def)
  have "buf_ok t i = buf_ok s i" for i using assms l by (simp add: buf_ok_def)
  then show "bio_inv t = bio_inv s" using assms by (simp add: bio_inv_def)
qed

lemma upd_con_fields [simp]:
  "cpus (upd_con f s) = cpus s" "lapicid (upd_con f s) = lapicid s" "eflags_if (upd_con f s) = eflags_if s" "locks (upd_con f s) = locks s"
  "pt (upd_con f s) = pt s" "slocks (upd_con f s) = slocks s" "bufs (upd_con f s) = bufs s" "border (upd_con f s) = border s"
  "disk (upd_con f s) = disk s" "dtrace (upd_con f s) = dtrace s" "lg (upd_con f s) = lg s" "con (upd_con f s) = f (con s)"
  "mm (upd_con f s) = mm s" "ic (upd_con f s) = ic s" "fl (upd_con f s) = fl s" "ticks (upd_con f s) = ticks s"
  "first_run (upd_con f s) = first_run s" "kstate.more (upd_con f s) = kstate.more s"
  by (simp_all add: upd_con_def)

lemma upd_con_preds [simp]:
  "ctx p L (upd_con f s) = ctx p L s" "mypid (upd_con f s) = mypid s"
  "blk (upd_con f s) = blk s" "npinned (upd_con f s) = npinned s" "caches (upd_con f s) = caches s"
  "locked_buf (upd_con f s) = locked_buf s" "bio_inv (upd_con f s) = bio_inv s" "dirtyb (upd_con f s) = dirtyb s"
  "quiet p (upd_con f s) = quiet p s" "me (upd_con f s) = me s" "my_ncli (upd_con f s) = my_ncli s"
proof -
  show c: "ctx p L (upd_con f s) = ctx p L s" "mypid (upd_con f s) = mypid s" by (rule lower_ctx; simp)+
  note b = lower_bio [of "upd_con f s" s, OF c(2) upd_con_fields(6-9)]
  show "blk (upd_con f s) = blk s" "npinned (upd_con f s) = npinned s" "caches (upd_con f s) = caches s"
      "locked_buf (upd_con f s) = locked_buf s" "bio_inv (upd_con f s) = bio_inv s" "dirtyb (upd_con f s) = dirtyb s"
    by (fact b)+
  have "ctx p {} (upd_con f s) = ctx p {} s" by (rule lower_ctx; simp)
  then show "quiet p (upd_con f s) = quiet p s" using b by (simp add: quiet_def)
  show "me (upd_con f s) = me s" "my_ncli (upd_con f s) = my_ncli s" by (simp_all add: me_def my_ncli_def)
qed

lemma upd_mm_fields [simp]:
  "cpus (upd_mm f s) = cpus s" "lapicid (upd_mm f s) = lapicid s" "eflags_if (upd_mm f s) = eflags_if s" "locks (upd_mm f s) = locks s"
  "pt (upd_mm f s) = pt s" "slocks (upd_mm f s) = slocks s" "bufs (upd_mm f s) = bufs s" "border (upd_mm f s) = border s"
  "disk (upd_mm f s) = disk s" "dtrace (upd_mm f s) = dtrace s" "lg (upd_mm f s) = lg s" "con (upd_mm f s) = con s"
  "mm (upd_mm f s) = f (mm s)" "ic (upd_mm f s) = ic s" "fl (upd_mm f s) = fl s" "ticks (upd_mm f s) = ticks s"
  "first_run (upd_mm f s) = first_run s" "kstate.more (upd_mm f s) = kstate.more s"
  by (simp_all add: upd_mm_def)

lemma upd_mm_preds [simp]:
  "ctx p L (upd_mm f s) = ctx p L s" "mypid (upd_mm f s) = mypid s"
  "blk (upd_mm f s) = blk s" "npinned (upd_mm f s) = npinned s" "caches (upd_mm f s) = caches s"
  "locked_buf (upd_mm f s) = locked_buf s" "bio_inv (upd_mm f s) = bio_inv s" "dirtyb (upd_mm f s) = dirtyb s"
  "quiet p (upd_mm f s) = quiet p s" "me (upd_mm f s) = me s" "my_ncli (upd_mm f s) = my_ncli s"
proof -
  show c: "ctx p L (upd_mm f s) = ctx p L s" "mypid (upd_mm f s) = mypid s" by (rule lower_ctx; simp)+
  note b = lower_bio [of "upd_mm f s" s, OF c(2) upd_mm_fields(6-9)]
  show "blk (upd_mm f s) = blk s" "npinned (upd_mm f s) = npinned s" "caches (upd_mm f s) = caches s"
      "locked_buf (upd_mm f s) = locked_buf s" "bio_inv (upd_mm f s) = bio_inv s" "dirtyb (upd_mm f s) = dirtyb s"
    by (fact b)+
  have "ctx p {} (upd_mm f s) = ctx p {} s" by (rule lower_ctx; simp)
  then show "quiet p (upd_mm f s) = quiet p s" using b by (simp add: quiet_def)
  show "me (upd_mm f s) = me s" "my_ncli (upd_mm f s) = my_ncli s" by (simp_all add: me_def my_ncli_def)
qed

lemma upd_ic_fields [simp]:
  "cpus (upd_ic f s) = cpus s" "lapicid (upd_ic f s) = lapicid s" "eflags_if (upd_ic f s) = eflags_if s" "locks (upd_ic f s) = locks s"
  "pt (upd_ic f s) = pt s" "slocks (upd_ic f s) = slocks s" "bufs (upd_ic f s) = bufs s" "border (upd_ic f s) = border s"
  "disk (upd_ic f s) = disk s" "dtrace (upd_ic f s) = dtrace s" "lg (upd_ic f s) = lg s" "con (upd_ic f s) = con s"
  "mm (upd_ic f s) = mm s" "ic (upd_ic f s) = f (ic s)" "fl (upd_ic f s) = fl s" "ticks (upd_ic f s) = ticks s"
  "first_run (upd_ic f s) = first_run s" "kstate.more (upd_ic f s) = kstate.more s"
  by (simp_all add: upd_ic_def)

lemma upd_ic_preds [simp]:
  "ctx p L (upd_ic f s) = ctx p L s" "mypid (upd_ic f s) = mypid s"
  "blk (upd_ic f s) = blk s" "npinned (upd_ic f s) = npinned s" "caches (upd_ic f s) = caches s"
  "locked_buf (upd_ic f s) = locked_buf s" "bio_inv (upd_ic f s) = bio_inv s" "dirtyb (upd_ic f s) = dirtyb s"
  "quiet p (upd_ic f s) = quiet p s" "me (upd_ic f s) = me s" "my_ncli (upd_ic f s) = my_ncli s"
proof -
  show c: "ctx p L (upd_ic f s) = ctx p L s" "mypid (upd_ic f s) = mypid s" by (rule lower_ctx; simp)+
  note b = lower_bio [of "upd_ic f s" s, OF c(2) upd_ic_fields(6-9)]
  show "blk (upd_ic f s) = blk s" "npinned (upd_ic f s) = npinned s" "caches (upd_ic f s) = caches s"
      "locked_buf (upd_ic f s) = locked_buf s" "bio_inv (upd_ic f s) = bio_inv s" "dirtyb (upd_ic f s) = dirtyb s"
    by (fact b)+
  have "ctx p {} (upd_ic f s) = ctx p {} s" by (rule lower_ctx; simp)
  then show "quiet p (upd_ic f s) = quiet p s" using b by (simp add: quiet_def)
  show "me (upd_ic f s) = me s" "my_ncli (upd_ic f s) = my_ncli s" by (simp_all add: me_def my_ncli_def)
qed

lemma upd_fl_fields [simp]:
  "cpus (upd_fl f s) = cpus s" "lapicid (upd_fl f s) = lapicid s" "eflags_if (upd_fl f s) = eflags_if s" "locks (upd_fl f s) = locks s"
  "pt (upd_fl f s) = pt s" "slocks (upd_fl f s) = slocks s" "bufs (upd_fl f s) = bufs s" "border (upd_fl f s) = border s"
  "disk (upd_fl f s) = disk s" "dtrace (upd_fl f s) = dtrace s" "lg (upd_fl f s) = lg s" "con (upd_fl f s) = con s"
  "mm (upd_fl f s) = mm s" "ic (upd_fl f s) = ic s" "fl (upd_fl f s) = f (fl s)" "ticks (upd_fl f s) = ticks s"
  "first_run (upd_fl f s) = first_run s" "kstate.more (upd_fl f s) = kstate.more s"
  by (simp_all add: upd_fl_def)

lemma upd_fl_preds [simp]:
  "ctx p L (upd_fl f s) = ctx p L s" "mypid (upd_fl f s) = mypid s"
  "blk (upd_fl f s) = blk s" "npinned (upd_fl f s) = npinned s" "caches (upd_fl f s) = caches s"
  "locked_buf (upd_fl f s) = locked_buf s" "bio_inv (upd_fl f s) = bio_inv s" "dirtyb (upd_fl f s) = dirtyb s"
  "quiet p (upd_fl f s) = quiet p s" "me (upd_fl f s) = me s" "my_ncli (upd_fl f s) = my_ncli s"
proof -
  show c: "ctx p L (upd_fl f s) = ctx p L s" "mypid (upd_fl f s) = mypid s" by (rule lower_ctx; simp)+
  note b = lower_bio [of "upd_fl f s" s, OF c(2) upd_fl_fields(6-9)]
  show "blk (upd_fl f s) = blk s" "npinned (upd_fl f s) = npinned s" "caches (upd_fl f s) = caches s"
      "locked_buf (upd_fl f s) = locked_buf s" "bio_inv (upd_fl f s) = bio_inv s" "dirtyb (upd_fl f s) = dirtyb s"
    by (fact b)+
  have "ctx p {} (upd_fl f s) = ctx p {} s" by (rule lower_ctx; simp)
  then show "quiet p (upd_fl f s) = quiet p s" using b by (simp add: quiet_def)
  show "me (upd_fl f s) = me s" "my_ncli (upd_fl f s) = my_ncli s" by (simp_all add: me_def my_ncli_def)
qed

lemma upd_ticks_fields [simp]:
  "cpus (upd_ticks f s) = cpus s" "lapicid (upd_ticks f s) = lapicid s" "eflags_if (upd_ticks f s) = eflags_if s" "locks (upd_ticks f s) = locks s"
  "pt (upd_ticks f s) = pt s" "slocks (upd_ticks f s) = slocks s" "bufs (upd_ticks f s) = bufs s" "border (upd_ticks f s) = border s"
  "disk (upd_ticks f s) = disk s" "dtrace (upd_ticks f s) = dtrace s" "lg (upd_ticks f s) = lg s" "con (upd_ticks f s) = con s"
  "mm (upd_ticks f s) = mm s" "ic (upd_ticks f s) = ic s" "fl (upd_ticks f s) = fl s" "ticks (upd_ticks f s) = f (ticks s)"
  "first_run (upd_ticks f s) = first_run s" "kstate.more (upd_ticks f s) = kstate.more s"
  by (simp_all add: upd_ticks_def)

lemma upd_ticks_preds [simp]:
  "ctx p L (upd_ticks f s) = ctx p L s" "mypid (upd_ticks f s) = mypid s"
  "blk (upd_ticks f s) = blk s" "npinned (upd_ticks f s) = npinned s" "caches (upd_ticks f s) = caches s"
  "locked_buf (upd_ticks f s) = locked_buf s" "bio_inv (upd_ticks f s) = bio_inv s" "dirtyb (upd_ticks f s) = dirtyb s"
  "quiet p (upd_ticks f s) = quiet p s" "me (upd_ticks f s) = me s" "my_ncli (upd_ticks f s) = my_ncli s"
proof -
  show c: "ctx p L (upd_ticks f s) = ctx p L s" "mypid (upd_ticks f s) = mypid s" by (rule lower_ctx; simp)+
  note b = lower_bio [of "upd_ticks f s" s, OF c(2) upd_ticks_fields(6-9)]
  show "blk (upd_ticks f s) = blk s" "npinned (upd_ticks f s) = npinned s" "caches (upd_ticks f s) = caches s"
      "locked_buf (upd_ticks f s) = locked_buf s" "bio_inv (upd_ticks f s) = bio_inv s" "dirtyb (upd_ticks f s) = dirtyb s"
    by (fact b)+
  have "ctx p {} (upd_ticks f s) = ctx p {} s" by (rule lower_ctx; simp)
  then show "quiet p (upd_ticks f s) = quiet p s" using b by (simp add: quiet_def)
  show "me (upd_ticks f s) = me s" "my_ncli (upd_ticks f s) = my_ncli s" by (simp_all add: me_def my_ncli_def)
qed

lemma krest_eq:
  "krest t = krest s \<longleftrightarrow> pt t = pt s \<and> slocks t = slocks s \<and> bufs t = bufs s \<and> border t = border s \<and> disk t = disk s \<and> dtrace t = dtrace s
   \<and> lg t = lg s \<and> con t = con s \<and> ic t = ic s \<and> fl t = fl s \<and> ticks t = ticks s \<and> first_run t = first_run s \<and> kstate.more t = kstate.more s"
  by (simp add: krest_def)

lemma krest_frame [simp]:
  "krest (settle s) = krest s" "krest (acq l s) = krest s" "krest (rel l s) = krest s" "krest (upd_mm f s) = krest s"
  by (simp_all add: krest_def)

section \<open>Loops with an early exit\<close>

lemma wp_kfirst_None:
  assumes "I xs s" "\<And>x ys t. I (x # ys) t \<Longrightarrow> wp (f x) (\<lambda>r u. r = None \<and> I ys u) t" "\<And>t. I [] t \<Longrightarrow> P None t"
  shows "wp (kfirst f xs) P s"
  using assms(1)
proof (induction xs arbitrary: s)
  case Nil
  then show ?case using assms(3) by (simp add: wp_prims)
next
  case (Cons x xs)
  show ?case
    unfolding kfirst.simps wp_kbind
  proof (rule wp_mono [OF assms(2) [OF Cons.prems]])
    fix a :: "'c option" and t assume "a = None \<and> I xs t"
    then show "wp (case a of None \<Rightarrow> kfirst f xs | Some x \<Rightarrow> kreturn (Some x)) P t" using Cons.IH by simp
  qed
qed

lemma machine_quiet [simp]: "quiet 0 machine" "ctx 0 {} machine" "\<not> dirtyb machine c" "npinned machine = 0"
proof -
  show c: "ctx 0 {} machine"
    by (auto simp: ctx_def machine_def cpu_ok_def me_def my_ncli_def curproc_def lock_free_def first_idx_def)
  have l: "\<not> locked_buf machine i" for i by (simp add: locked_buf_def machine_def)
  have b: "i < NBUF \<Longrightarrow> bufs machine ! i = \<lparr>b_valid = False, b_dirty = False, b_dev = 0, b_blockno = 0, b_refcnt = 0, b_data = replicate 512 0\<rparr>" for i
    by (simp add: machine_def)
  have "buf_ok machine i" if "i < NBUF" for i using that b by (simp add: buf_ok_def l)
  then have "bio_inv machine" unfolding bio_inv_def using b by (auto simp: machine_def atLeast0LessThan)
  then show q: "quiet 0 machine" using c l by (simp add: quiet_def)
  show d: "\<not> dirtyb machine c" for c using b by (auto simp: dirtyb_def caches_def)
  then show "npinned machine = 0" using npinned_quiet [OF q] by simp
qed

end
