(* ===== verification/Console.thy ===== *)
theory Console
  imports Kernel
begin

text \<open>
  Console output and the input line discipline (\<open>console.c\<close>), the serial port (\<open>uart.c\<close>) and the
  keyboard decoder (\<open>kbd.c\<close>, \<open>kbd.h\<close>). A character is its code, a number; \<open>BACKSPACE\<close> is 256. The
  arguments of \<open>cprintf\<close> are a list of \<open>carg\<close>; a conversion without an argument would read past them
  (\<open>Fault\<close>). \<open>panic\<close> itself is the outcome \<open>Panic\<close>. The reading and writing device operations are in
  \<open>Fs\<close>, above the inodes.

  The lemmas show that the cursor stays on the screen, so that printing never panics; that
  \<open>printint\<close> prints the positional numeral of its argument within its 16-byte buffer; and that the
  ring buffer of the line discipline keeps its three indices in order.
\<close>

section \<open>Output\<close>

abbreviation BACKSPACE :: nat where "BACKSPACE \<equiv> 256"

definition asc :: "string \<Rightarrow> nat list" where
  "asc cs = map of_char cs"

definition uartputc :: "nat \<Rightarrow> (unit, 'a kstate_scheme) code" where
  "uartputc c = kmod (upd_con (\<lambda>k. if uart k then k\<lparr>uart_out := uart_out k @ [of_nat c]\<rparr> else k))"

text \<open>\<open>cga_move\<close> and \<open>cga_scroll\<close> are the two halves of \<open>cgaputc\<close> before and after its bounds check.\<close>

definition cga_move :: "nat \<Rightarrow> nat \<Rightarrow> (nat \<Rightarrow> 16 word) \<Rightarrow> nat \<times> (nat \<Rightarrow> 16 word)" where
  "cga_move c pos m =
     (if c = 10 then (pos + (80 - pos mod 80), m)
      else if c = BACKSPACE then (if pos > 0 then (pos - 1, m) else (pos, m))
      else (pos + 1, m(pos := of_nat (c mod 256) OR 0x0700)))"

definition cga_scroll :: "nat \<Rightarrow> (nat \<Rightarrow> 16 word) \<Rightarrow> nat \<times> (nat \<Rightarrow> 16 word)" where
  "cga_scroll pos m =
     (if pos div 80 \<ge> 24
      then let m = (\<lambda>k. if k < 23 * 80 then m (k + 80) else m k); pos = pos - 80
           in (pos, \<lambda>k. if pos \<le> k \<and> k < 24 * 80 then 0 else m k)
      else (pos, m))"

definition cgaputc :: "nat \<Rightarrow> (unit, 'a kstate_scheme) code" where
  "cgaputc c =
     kbind (kget (\<lambda>s. cga_move c (crt_pos (con s)) (crt (con s)))) (\<lambda>(pos, m).
     kthen (kmod (upd_con (\<lambda>k. k\<lparr>crt := m\<rparr>))) (
     if pos > 25 * 80 then kpanic ''pos under/overflow''
     else
       case cga_scroll pos m of (pos, m) \<Rightarrow>
       kmod (upd_con (\<lambda>k. k\<lparr>crt := m(pos := 0x0720), crt_pos := pos mod 65536\<rparr>))))"

definition consputc :: "nat \<Rightarrow> (unit, 'a kstate_scheme) code" where
  "consputc c =
     kbind (kget (\<lambda>s. panicked (con s))) (\<lambda>p.
     if p then (\<lambda>s. Spin (s\<lparr>eflags_if := False\<rparr>))
     else
       kthen (if c = BACKSPACE then kthen (uartputc 8) (kthen (uartputc 32) (uartputc 8)) else uartputc c)
       (cgaputc c))"

text \<open>The digits that \<open>printint\<close> puts into its buffer, least significant first.\<close>

definition digit :: "nat \<Rightarrow> nat" where
  "digit d = (if d < 10 then 48 + d else 87 + d)"

function digits_of :: "nat \<Rightarrow> nat \<Rightarrow> nat list" where
  "digits_of base x = digit (x mod base) # (if x div base = 0 \<or> base < 2 then [] else digits_of base (x div base))"
  by auto

termination by (relation "measure snd") (auto intro!: div_less_dividend simp: div_eq_0_iff intro: ccontr)

declare digits_of.simps [simp del]

definition printint_buf :: "int \<Rightarrow> nat \<Rightarrow> bool \<Rightarrow> nat list" where
  "printint_buf xx base sign =
     (if sign \<and> xx < 0 then digits_of base (nat ((- xx) mod 2 ^ 32)) @ [45]
      else digits_of base (nat (xx mod 2 ^ 32)))"

definition printint :: "int \<Rightarrow> nat \<Rightarrow> bool \<Rightarrow> (unit, 'a kstate_scheme) code" where
  "printint xx base sign = kiter consputc (rev (printint_buf xx base sign))"

datatype carg = CInt int | CStr "nat list option"

fun cprintf_loop :: "nat list \<Rightarrow> carg list \<Rightarrow> (unit, 'a kstate_scheme) code" where
  "cprintf_loop [] args = kreturn ()"
| "cprintf_loop [c] args = (if c \<noteq> 37 then consputc c else kreturn ())"
| "cprintf_loop (c # d # fmt) args =
     (if c \<noteq> 37 then kthen (consputc c) (cprintf_loop (d # fmt) args)
      else if d = 100 then
        (case args of CInt x # as \<Rightarrow> kthen (printint x 10 True) (cprintf_loop fmt as)
         | _ \<Rightarrow> kfault ''cprintf argument'')
      else if d = 120 \<or> d = 112 then
        (case args of CInt x # as \<Rightarrow> kthen (printint x 16 False) (cprintf_loop fmt as)
         | _ \<Rightarrow> kfault ''cprintf argument'')
      else if d = 115 then
        (case args of
           CStr x # as \<Rightarrow> kthen (kiter consputc (case x of Some cs \<Rightarrow> cs | None \<Rightarrow> asc ''(null)'')) (cprintf_loop fmt as)
         | _ \<Rightarrow> kfault ''cprintf argument'')
      else if d = 37 then kthen (consputc 37) (cprintf_loop fmt args)
      else kthen (consputc 37) (kthen (consputc d) (cprintf_loop fmt args)))"

definition cprintf :: "nat list \<Rightarrow> carg list \<Rightarrow> (unit, 'a kstate_scheme) code" where
  "cprintf fmt args =
     kbind (kget (\<lambda>s. cons_locking (con s))) (\<lambda>locking.
     kthen (kwhen locking (acquire LCons)) (
     kthen (cprintf_loop fmt args) (
     kwhen locking (release LCons))))"

definition state_name :: "procstate \<Rightarrow> string" where
  "state_name st =
     (case st of UNUSED \<Rightarrow> ''unused'' | EMBRYO \<Rightarrow> ''embryo'' | SLEEPING \<Rightarrow> ''sleep '' | RUNNABLE \<Rightarrow> ''runble''
      | RUNNING \<Rightarrow> ''run   '' | ZOMBIE \<Rightarrow> ''zombie'')"

text \<open>\<open>pcs\<close> gives the return addresses found on the kernel stack of a sleeping process.\<close>

definition procdump :: "(nat \<Rightarrow> nat list) \<Rightarrow> (unit, 'a kstate_scheme) code" where
  "procdump pcs =
     kiter (\<lambda>i.
       kbind (get_proc i id) (\<lambda>p.
       if p_state p = UNUSED then kreturn ()
       else
         kthen (cprintf (asc ''%d %s %s'') [CInt (p_pid p), CStr (Some (asc (state_name (p_state p)))),
                  CStr (Some (map unat (takeWhile (\<lambda>c. c \<noteq> 0) (p_name p))))]) (
         kthen (kwhen (p_state p = SLEEPING)
                  (kiter (\<lambda>pc. cprintf (asc '' %p'') [CInt (int pc)]) (takeWhile (\<lambda>pc. pc \<noteq> 0) (take 10 (pcs i))))) (
         cprintf [10] [])))) [0..<NPROC]"

section \<open>Input\<close>

abbreviation INPUT_BUF :: nat where "INPUT_BUF \<equiv> 128"

text \<open>\<open>CTRL c\<close> is the macro \<open>C\<close>: the code of control-\<open>c\<close>, as an unsigned character.\<close>

definition CTRL :: "char \<Rightarrow> nat" where
  "CTRL c = (of_char c + 192) mod 256"

primrec kill_line :: "nat \<Rightarrow> (unit, 'a kstate_scheme) code" where
  "kill_line 0 = kreturn ()"
| "kill_line (Suc n) =
     kbind (kget con) (\<lambda>k.
     if in_e k \<noteq> in_w k \<and> in_buf k ! unat ((in_e k - 1) mod 128) \<noteq> 10
     then kthen (kmod (upd_con (\<lambda>k. k\<lparr>in_e := in_e k - 1\<rparr>))) (kthen (consputc BACKSPACE) (kill_line n))
     else kreturn ())"

text \<open>One character of input: the \<open>switch\<close> of \<open>consoleintr\<close>, which says whether to list the
  processes afterwards.\<close>

definition input_char :: "nat \<Rightarrow> (bool, 'a kstate_scheme) code" where
  "input_char c =
     (if c = CTRL CHR ''P'' then kreturn True
      else if c = CTRL CHR ''U'' then
        kbind (kget con) (\<lambda>k. kthen (kill_line (unat (in_e k - in_w k))) (kreturn False))
      else if c = CTRL CHR ''H'' \<or> c = 127 then
        kbind (kget con) (\<lambda>k.
        kthen (kwhen (in_e k \<noteq> in_w k)
          (kthen (kmod (upd_con (\<lambda>k. k\<lparr>in_e := in_e k - 1\<rparr>))) (consputc BACKSPACE))) (kreturn False))
      else
        kbind (kget con) (\<lambda>k.
        kthen (kwhen (c \<noteq> 0 \<and> in_e k - in_r k < 128) (
          let c = (if c = 13 then 10 else c) in
          kthen (kmod (upd_con (\<lambda>k. k\<lparr>in_buf := (in_buf k)[unat (in_e k mod 128) := of_nat c], in_e := in_e k + 1\<rparr>))) (
          kthen (consputc c) (
          kbind (kget con) (\<lambda>k.
          kwhen (c = 10 \<or> c = CTRL CHR ''D'' \<or> in_e k = in_r k + 128) (
            kthen (kmod (upd_con (\<lambda>k. k\<lparr>in_w := in_e k\<rparr>)))
            (wakeup CInput))))))) (kreturn False)))"

primrec input_loop :: "nat \<Rightarrow> (int, 'a kstate_scheme) code \<Rightarrow> bool \<Rightarrow> (bool, 'a kstate_scheme) code" where
  "input_loop 0 getc dump = kreturn dump"
| "input_loop (Suc n) getc dump =
     kbind getc (\<lambda>c. if c < 0 then kreturn dump else kbind (input_char (nat c)) (\<lambda>d. input_loop n getc (dump \<or> d)))"

text \<open>\<open>getc\<close> takes one item from the keyboard or the serial line, and fails when there is none: the
  loop ends after as many rounds as there are items.\<close>

definition consoleintr :: "(nat \<Rightarrow> nat list) \<Rightarrow> (int, 'a kstate_scheme) code \<Rightarrow> (unit, 'a kstate_scheme) code" where
  "consoleintr pcs getc =
     kthen (acquire LCons) (
     kbind (kget (\<lambda>s. length (kbd_in (con s)) + length (uart_in (con s)))) (\<lambda>n.
     kbind (input_loop (Suc n) getc False) (\<lambda>doprocdump.
     kthen (release LCons) (
     kwhen doprocdump (procdump pcs)))))"

definition uartgetc :: "(int, 'a kstate_scheme) code" where
  "uartgetc =
     kbind (kget con) (\<lambda>k.
     if \<not> uart k then kreturn (-1)
     else case uart_in k of
            [] \<Rightarrow> kreturn (-1)
          | c # cs \<Rightarrow> kthen (kmod (upd_con (\<lambda>k. k\<lparr>uart_in := cs\<rparr>))) (kreturn (uint c)))"

definition uartintr :: "(nat \<Rightarrow> nat list) \<Rightarrow> (unit, 'a kstate_scheme) code" where
  "uartintr pcs = consoleintr pcs uartgetc"

section \<open>Keyboard\<close>

abbreviation SHIFT :: uint where "SHIFT \<equiv> 1"
abbreviation CTL :: uint where "CTL \<equiv> 2"
abbreviation ALT :: uint where "ALT \<equiv> 4"
abbreviation CAPSLOCK :: uint where "CAPSLOCK \<equiv> 8"
abbreviation NUMLOCK :: uint where "NUMLOCK \<equiv> 16"
abbreviation SCROLLLOCK :: uint where "SCROLLLOCK \<equiv> 32"
abbreviation E0ESC :: uint where "E0ESC \<equiv> 64"

definition shiftcode :: "nat \<Rightarrow> uint" where
  "shiftcode d = (if d = 0x1D \<or> d = 0x9D then CTL else if d = 0x2A \<or> d = 0x36 then SHIFT
     else if d = 0x38 \<or> d = 0xB8 then ALT else 0)"

definition togglecode :: "nat \<Rightarrow> uint" where
  "togglecode d = (if d = 0x3A then CAPSLOCK else if d = 0x45 then NUMLOCK else if d = 0x46 then SCROLLLOCK else 0)"

text \<open>The entries that the three maps share above \<open>0x58\<close>: enter and \<open>/\<close> of the key pad, and the cursor
  keys.\<close>

definition keypad :: "nat \<Rightarrow> nat \<Rightarrow> nat \<Rightarrow> nat" where
  "keypad enter slash d =
     (case map_of [(0x9C, enter), (0xB5, slash), (0xC8, 0xE2), (0xD0, 0xE3), (0xC9, 0xE6), (0xD1, 0xE7),
                   (0xCB, 0xE4), (0xCD, 0xE5), (0x97, 0xE0), (0xCF, 0xE1), (0xD2, 0xE8), (0xD3, 0xE9)] d of
        Some c \<Rightarrow> c | None \<Rightarrow> 0)"

definition normal_keys :: "nat list" where
  "normal_keys = [0, 0x1B] @ asc ''1234567890-='' @ [8, 9] @ asc ''qwertyuiop[]'' @ [10, 0] @ asc ''asdfghjkl;'' @ [39, 96, 0, 92]
     @ asc ''zxcvbnm,./'' @ [0] @ asc ''*'' @ [0] @ asc '' '' @ [0, 0, 0, 0, 0, 0] @ [0, 0, 0, 0, 0, 0, 0]
     @ asc ''789-456+1230.'' @ [0, 0, 0, 0]"

definition shift_keys :: "nat list" where
  "shift_keys = [0, 27] @ asc ''!@#$%^&*()_+'' @ [8, 9] @ asc ''QWERTYUIOP{}'' @ [10, 0] @ asc ''ASDFGHJKL:'' @ [34, 126, 0, 124]
     @ asc ''ZXCVBNM<>?'' @ [0] @ asc ''*'' @ [0] @ asc '' '' @ [0, 0, 0, 0, 0, 0] @ [0, 0, 0, 0, 0, 0, 0]
     @ asc ''789-456+1230.'' @ [0, 0, 0, 0]"

definition ctl_keys :: "nat list" where
  "ctl_keys = replicate 16 0 @ map CTRL ''QWERTYUIOP'' @ [0, 0, 13, 0] @ map CTRL ''ASDFGHJKL'' @ [0, 0, 0, 0, 28]
     @ map CTRL ''ZXCVBNM'' @ [0, 0, CTRL CHR ''/'', 0, 0]"

definition normalmap :: "nat \<Rightarrow> nat" where
  "normalmap d = (if d < length normal_keys then normal_keys ! d else keypad 10 47 d)"

definition shiftmap :: "nat \<Rightarrow> nat" where
  "shiftmap d = (if d < length shift_keys then shift_keys ! d else keypad 10 47 d)"

definition ctlmap :: "nat \<Rightarrow> nat" where
  "ctlmap d = (if d < length ctl_keys then ctl_keys ! d else keypad 13 (CTRL CHR ''/'') d)"

definition charcode :: "uint \<Rightarrow> nat \<Rightarrow> nat" where
  "charcode k d = (if k = 0 then normalmap d else if k = 1 then shiftmap d else ctlmap d)"

text \<open>Decoding of one scan code: the new modifier state and the character, 0 for none.\<close>

definition kbd_decode :: "uint \<Rightarrow> nat \<Rightarrow> uint \<times> nat" where
  "kbd_decode shift data =
     (if data = 0xE0 then (shift OR E0ESC, 0)
      else if data \<ge> 0x80 then
        let d = (if shift AND E0ESC \<noteq> 0 then data else data - 0x80)
        in (shift AND NOT (shiftcode d OR E0ESC), 0)
      else
        let (shift, data) = (if shift AND E0ESC \<noteq> 0 then (shift AND NOT E0ESC, data + 0x80) else (shift, data));
            shift = shift OR shiftcode data;
            shift = shift XOR togglecode data;
            c = charcode (shift AND (CTL OR SHIFT)) data
        in (shift, if shift AND CAPSLOCK \<noteq> 0
                   then (if 97 \<le> c \<and> c \<le> 122 then c - 32 else if 65 \<le> c \<and> c \<le> 90 then c + 32 else c) else c))"

definition kbdgetc :: "(int, 'a kstate_scheme) code" where
  "kbdgetc =
     kbind (kget con) (\<lambda>k.
     case kbd_in k of
       [] \<Rightarrow> kreturn (-1)
     | d # ds \<Rightarrow>
       (case kbd_decode (kbd_shift k) (unat d) of (sh, c) \<Rightarrow>
        kthen (kmod (upd_con (\<lambda>k. k\<lparr>kbd_in := ds, kbd_shift := sh\<rparr>))) (kreturn (int c))))"

definition kbdintr :: "(nat \<Rightarrow> nat list) \<Rightarrow> (unit, 'a kstate_scheme) code" where
  "kbdintr pcs = consoleintr pcs kbdgetc"

definition con_ok :: "console \<Rightarrow> bool" where
  "con_ok k \<longleftrightarrow> \<not> panicked k \<and> crt_pos k < 24 * 80"

text \<open>The bytes that one character sends to the serial line.\<close>

definition uart_bytes :: "nat \<Rightarrow> uchar list" where
  "uart_bytes c = (if c = BACKSPACE then [8, 32, 8] else [of_nat c])"

text \<open>What printing leaves alone.\<close>

definition con_rest :: "console \<Rightarrow> bool \<times> bool \<times> bool \<times> uchar list \<times> uchar list \<times> uint \<times> uchar list \<times> uint \<times> uint \<times> uint" where
  "con_rest k = (panicked k, cons_locking k, uart k, uart_in k, kbd_in k, kbd_shift k, in_buf k, in_r k, in_w k, in_e k)"

definition prints :: "nat list \<Rightarrow> console \<Rightarrow> console \<Rightarrow> bool" where
  "prints cs k k' \<longleftrightarrow> con_ok k' \<and> con_rest k' = con_rest k
     \<and> uart_out k' = uart_out k @ (if uart k then concat (map uart_bytes cs) else [])"

text \<open>The value of a numeral, most significant digit first.\<close>

definition undigit :: "nat \<Rightarrow> nat" where
  "undigit c = (if c < 58 then c - 48 else c - 87)"

definition num_value :: "nat \<Rightarrow> nat list \<Rightarrow> nat" where
  "num_value base ds = foldl (\<lambda>v c. v * base + undigit c) 0 ds"

definition numeral_of :: "nat \<Rightarrow> nat \<Rightarrow> nat list \<Rightarrow> bool" where
  "numeral_of base x ds \<longleftrightarrow> num_value base ds = x \<and> ds \<noteq> [] \<and> set ds \<subseteq> digit ` {..<base} \<and> (hd ds = 48 \<longrightarrow> ds = [48])"

text \<open>What the ring buffer holds: the characters of complete lines, which a reader may take, and the line
  that is being edited.\<close>

definition ring :: "console \<Rightarrow> nat \<Rightarrow> uchar" where
  "ring k i = in_buf k ! ((unat (in_r k) + i) mod 128)"

definition input_lines :: "console \<Rightarrow> uchar list \<times> uchar list" where
  "input_lines k = (map (ring k) [0..<unat (in_w k - in_r k)], map (ring k) [unat (in_w k - in_r k)..<unat (in_e k - in_r k)])"

definition ring_inv :: "console \<Rightarrow> bool" where
  "ring_inv k \<longleftrightarrow> length (in_buf k) = 128 \<and> unat (in_w k - in_r k) \<le> unat (in_e k - in_r k) \<and> unat (in_e k - in_r k) \<le> 128
     \<and> 10 \<notin> set (snd (input_lines k))"

text \<open>The line editor that the discipline implements.\<close>

definition typed :: "nat \<Rightarrow> uchar list \<times> uchar list \<Rightarrow> uchar list \<times> uchar list" where
  "typed c = (\<lambda>(q, l).
     if c = CTRL CHR ''P'' then (q, l)
     else if c = CTRL CHR ''U'' then (q, [])
     else if c = CTRL CHR ''H'' \<or> c = 127 then (q, butlast l)
     else if c = 0 \<or> length q + length l \<ge> 128 then (q, l)
     else let c = (if c = 13 then 10 else c); l = l @ [of_nat c] in
          if c = 10 \<or> c = CTRL CHR ''D'' \<or> length q + length l = 128 then (q @ l, []) else (q, l))"

definition cons_inv :: "console \<Rightarrow> bool" where
  "cons_inv k \<longleftrightarrow> con_ok k \<and> ring_inv k"

definition dev_in :: "console \<Rightarrow> bool \<times> uchar list \<times> uchar list \<times> uint" where
  "dev_in k = (uart k, uart_in k, kbd_in k, kbd_shift k)"

text \<open>Nobody is left sleeping for input.\<close>

definition input_awake :: "'a pstate_scheme \<Rightarrow> bool" where
  "input_awake t \<longleftrightarrow> (\<forall>q \<in> set (procs (pt t)). \<not> (p_state q = SLEEPING \<and> p_chan q = Some CInput))"

definition input_post :: "nat \<Rightarrow> lockid set \<Rightarrow> nat \<Rightarrow> 'a kstate_scheme \<Rightarrow> bool \<Rightarrow> 'a kstate_scheme \<Rightarrow> bool" where
  "input_post p L c s d t \<longleftrightarrow> d = (c = CTRL CHR ''P'') \<and> cons_inv (con t) \<and> input_lines (con t) = typed c (input_lines (con s))
     \<and> (fst (input_lines (con t)) \<noteq> fst (input_lines (con s)) \<longrightarrow> input_awake t) \<and> (input_awake s \<longrightarrow> input_awake t)
     \<and> dev_in (con t) = dev_in (con s) \<and> ctx p L t \<and> mm t = mm s \<and> fl t = fl s"

text \<open>The text of a format, when its arguments fit it.\<close>

fun cformat :: "nat list \<Rightarrow> carg list \<Rightarrow> nat list option" where
  "cformat [] args = Some []"
| "cformat [c] args = Some (if c \<noteq> 37 then [c] else [])"
| "cformat (c # d # fmt) args =
     (if c \<noteq> 37 then map_option ((@) [c]) (cformat (d # fmt) args)
      else if d = 100 then
        (case args of CInt x # as \<Rightarrow> map_option ((@) (rev (printint_buf x 10 True))) (cformat fmt as) | _ \<Rightarrow> None)
      else if d = 120 \<or> d = 112 then
        (case args of CInt x # as \<Rightarrow> map_option ((@) (rev (printint_buf x 16 False))) (cformat fmt as) | _ \<Rightarrow> None)
      else if d = 115 then
        (case args of CStr x # as \<Rightarrow> map_option ((@) (case x of Some cs \<Rightarrow> cs | None \<Rightarrow> asc ''(null)'')) (cformat fmt as) | _ \<Rightarrow> None)
      else if d = 37 then map_option ((@) [37]) (cformat fmt args)
      else map_option ((@) [37, d]) (cformat fmt args))"

text \<open>\<open>m\<close> returns and prints \<open>out\<close>, whatever the state, and changes nothing but the console.\<close>

definition says :: "(unit, 'a kstate_scheme) code \<Rightarrow> nat list \<Rightarrow> bool" where
  "says m out \<longleftrightarrow> (\<forall>s. con_ok (con s) \<longrightarrow> wp m (\<lambda>_ t. \<exists>k. prints out (con s) k \<and> t = upd_con (\<lambda>_. k) s) s)"

definition quiet_print :: "nat \<Rightarrow> lockid set \<Rightarrow> 'a kstate_scheme \<Rightarrow> 'a kstate_scheme \<Rightarrow> bool" where
  "quiet_print p L s t \<longleftrightarrow> ctx p L t \<and> (\<exists>out. prints out (con s) (con t)) \<and> pt t = pt s \<and> mm t = mm s \<and> fl t = fl s"

text \<open>The characters \<open>cs\<close> have gone through the line editor, and readers have been woken if there is more to read.\<close>

definition drained :: "nat list \<Rightarrow> nat \<Rightarrow> lockid set \<Rightarrow> 'a kstate_scheme \<Rightarrow> 'a kstate_scheme \<Rightarrow> bool" where
  "drained cs p L s t \<longleftrightarrow> ctx p L t \<and> cons_inv (con t) \<and> input_lines (con t) = fold typed cs (input_lines (con s))
     \<and> (fst (input_lines (con t)) \<noteq> fst (input_lines (con s)) \<longrightarrow> input_awake t) \<and> (input_awake s \<longrightarrow> input_awake t)
     \<and> mm t = mm s \<and> fl t = fl s"

definition uart_chars :: "console \<Rightarrow> nat list" where
  "uart_chars k = (if uart k then map unat (uart_in k) else [])"

fun kbd_chars :: "uint \<Rightarrow> uchar list \<Rightarrow> nat list" where
  "kbd_chars sh [] = []"
| "kbd_chars sh (d # ds) = (case kbd_decode sh (unat d) of (sh', c) \<Rightarrow> c # kbd_chars sh' ds)"

text \<open>A machine with the line \<open>ls -l\<close>, mistyped and corrected, on the serial line.\<close>

definition serial_machine :: kstate where
  "serial_machine = upd_con (\<lambda>k. k\<lparr>panicked := False, crt_pos := 0, uart := True, uart_in := [108, 115, 32, 46, 8, 45, 108, 13], in_buf := replicate 128 0,
     in_r := 0, in_w := 0, in_e := 0\<rparr>) machine"



section \<open>The cursor stays on the screen\<close>

lemma prints_Nil: "con_ok k \<Longrightarrow> prints [] k k"
  by (simp add: prints_def)

lemma prints_append: "prints cs k k' \<Longrightarrow> prints ds k' k'' \<Longrightarrow> prints (cs @ ds) k k''"
  by (auto simp: prints_def con_rest_def)

lemma con_rest_eq:
  "con_rest k' = con_rest k \<longleftrightarrow> panicked k' = panicked k \<and> cons_locking k' = cons_locking k \<and> uart k' = uart k \<and> uart_in k' = uart_in k
   \<and> kbd_in k' = kbd_in k \<and> kbd_shift k' = kbd_shift k \<and> in_buf k' = in_buf k \<and> in_r k' = in_r k \<and> in_w k' = in_w k \<and> in_e k' = in_e k"
  by (simp add: con_rest_def)

lemma upd_con_upd_con: "upd_con f (upd_con g s) = upd_con (\<lambda>k. f (g k)) s"
  by (simp add: upd_con_def)

lemma upd_con_const: "upd_con f s = upd_con (\<lambda>_. f (con s)) s"
  by (simp add: upd_con_def)

lemma cgaputc_ok:
  assumes "con_ok (con s)"
  shows "\<exists>m pos. pos < 24 * 80 \<and> cgaputc c s = Ok () (upd_con (\<lambda>k. k\<lparr>crt := m, crt_pos := pos\<rparr>) s)"
proof -
  let ?p = "crt_pos (con s)"
  obtain q m where q: "cga_move c ?p (crt (con s)) = (q, m)" by fastforce
  have p: "?p < 1920" using assms by (simp add: con_ok_def)
  have "?p + (80 - ?p mod 80) \<le> 1920"
  proof -
    have "?p div 80 < 24" using p by (simp add: div_less_iff_less_mult)
    then have "80 * (?p div 80) + 80 \<le> 1920" by simp
    moreover have "?p + (80 - ?p mod 80) = 80 * (?p div 80) + 80"
      using mult_div_mod_eq [of 80 ?p] mod_less_divisor [of 80 ?p] by linarith
    ultimately show ?thesis by simp
  qed
  then have q': "q \<le> 1920" using q p by (auto simp: cga_move_def split: if_splits)
  obtain r m' where r: "cga_scroll q m = (r, m')" by fastforce
  have r': "r < 1920" using r q' by (auto simp: cga_scroll_def Let_def split: if_splits)
  show ?thesis
    using q r r' q' by (auto simp: cgaputc_def kdefs upd_con_upd_con intro!: exI [of _ r])
qed

lemma consputc_ok:
  assumes "con_ok (con s)"
  shows "\<exists>k. consputc c s = Ok () (upd_con (\<lambda>_. k) s) \<and> prints [c] (con s) k"
proof -
  let ?u = "\<lambda>c k. if uart k then k\<lparr>uart_out := uart_out k @ [of_nat c]\<rparr> else k :: console"
  let ?U = "\<lambda>k. if c = BACKSPACE then ?u 8 (?u 32 (?u 8 k)) else ?u c k"
  have u: "(if c = BACKSPACE then kthen (uartputc 8) (kthen (uartputc 32) (uartputc 8)) else uartputc c) s = Ok () (upd_con ?U s)"
    by (auto simp: uartputc_def kdefs upd_con_upd_con)
  have ok: "con_ok (con (upd_con ?U s))" using assms by (simp add: con_ok_def)
  obtain m pos where mp: "pos < 24 * 80" "cgaputc c (upd_con ?U s) = Ok () (upd_con (\<lambda>k. k\<lparr>crt := m, crt_pos := pos\<rparr>) (upd_con ?U s))"
    using cgaputc_ok [OF ok, of c] by blast
  have np: "\<not> panicked (con s)" using assms by (simp add: con_ok_def)
  have run: "consputc c s = Ok () (upd_con (\<lambda>k. (?U k)\<lparr>crt := m, crt_pos := pos\<rparr>) s)"
    unfolding consputc_def using np u mp(2) by (simp add: kbind_def kget_def kthen_def upd_con_upd_con)
  let ?k = "(?U (con s))\<lparr>crt := m, crt_pos := pos\<rparr>"
  have "prints [c] (con s) ?k"
    using mp(1) np by (auto simp: prints_def con_ok_def con_rest_eq uart_bytes_def)
  moreover have "consputc c s = Ok () (upd_con (\<lambda>_. ?k) s)" unfolding run by (rule arg_cong [where f = "Ok ()"]) (rule upd_con_const)
  ultimately show ?thesis by blast
qed

lemma wp_consputc:
  "con_ok (con s) \<Longrightarrow> (\<And>k. prints [c] (con s) k \<Longrightarrow> P () (upd_con (\<lambda>_. k) s)) \<Longrightarrow> wp (consputc c) P s"
  using consputc_ok [of s c] by (auto simp: wp_def)

lemma wp_consputs:
  "con_ok (con s) \<Longrightarrow> (\<And>k. prints cs (con s) k \<Longrightarrow> P () (upd_con (\<lambda>_. k) s)) \<Longrightarrow> wp (kiter consputc cs) P s"
proof (induction cs arbitrary: s)
  case Nil
  have e: "upd_con (\<lambda>_. con s) s = s" by (cases s) (simp add: upd_con_def)
  have "P () (upd_con (\<lambda>_. con s) s)" by (rule Nil.prems(2)) (rule prints_Nil [OF Nil.prems(1)])
  then show ?case unfolding e by (simp add: wps)
next
  case (Cons c cs)
  show ?case
    unfolding kiter.simps wps
  proof (rule wp_consputc [OF Cons.prems(1)])
    fix k assume k: "prints [c] (con s) k"
    then have ok: "con_ok (con (upd_con (\<lambda>_. k) s))" by (simp add: prints_def)
    show "wp (kiter consputc cs) P (upd_con (\<lambda>_. k) s)"
    proof (rule Cons.IH [OF ok])
      fix k' assume "prints cs (con (upd_con (\<lambda>_. k) s)) k'"
      then have "prints (c # cs) (con s) k'" using prints_append [OF k, of cs k'] by simp
      then show "P () (upd_con (\<lambda>_. k') (upd_con (\<lambda>_. k) s))" using Cons.prems(2) by (simp add: upd_con_upd_con)
    qed
  qed
qed

section \<open>Numerals\<close>

lemma undigit_digit: "d < 39 \<Longrightarrow> undigit (digit d) = d"
  by (auto simp: undigit_def digit_def)

lemma digits_of_value: "2 \<le> base \<Longrightarrow> base \<le> 39 \<Longrightarrow> num_value base (rev (digits_of base x)) = x"
proof (induction base x rule: digits_of.induct)
  case (1 base x)
  have "undigit (digit (x mod base)) = x mod base" using 1(2,3) mod_less_divisor [of base x] by (intro undigit_digit) linarith
  then show ?case using 1 by (subst digits_of.simps) (auto simp: num_value_def div_eq_0_iff)
qed

lemma digits_of_set: "2 \<le> base \<Longrightarrow> set (digits_of base x) \<subseteq> digit ` {..<base}"
proof (induction base x rule: digits_of.induct)
  case (1 base x)
  have "x mod base < base" using 1(2) by simp
  then show ?case using 1 by (subst digits_of.simps) auto
qed

lemma digits_of_last: "2 \<le> base \<Longrightarrow> base \<le> 39 \<Longrightarrow> last (digits_of base x) = 48 \<Longrightarrow> x = 0"
proof (induction base x rule: digits_of.induct)
  case (1 base x)
  have ne: "digits_of base (x div base) \<noteq> []" by (subst digits_of.simps) simp
  show ?case
  proof (cases "x div base = 0")
    case True
    then have "digit x = 48" "x < base" using 1(2,4) by (auto simp: digits_of.simps [of base x] div_eq_0_iff)
    then show ?thesis by (auto simp: digit_def split: if_splits)
  next
    case False
    then have "last (digits_of base (x div base)) = 48" using 1(2,4) ne by (simp add: digits_of.simps [of base x])
    then have "x div base = 0" using 1(1) False 1(2,3) by simp
    then show ?thesis using False by simp
  qed
qed

lemma digits_of_numeral:
  assumes "2 \<le> base" "base \<le> 39"
  shows "numeral_of base x (rev (digits_of base x))"
proof -
  have ne: "digits_of base x \<noteq> []" by (subst digits_of.simps) simp
  have "hd (rev (digits_of base x)) = 48 \<Longrightarrow> rev (digits_of base x) = [48]"
  proof -
    assume "hd (rev (digits_of base x)) = 48"
    then have "x = 0" using digits_of_last [OF assms, of x] by (simp add: hd_rev)
    then show ?thesis by (simp add: digits_of.simps digit_def)
  qed
  then show ?thesis using digits_of_value [OF assms] digits_of_set [OF assms(1)] ne by (auto simp: numeral_of_def)
qed

lemma digits_of_length: "2 \<le> base \<Longrightarrow> x < base ^ n \<Longrightarrow> 0 < n \<Longrightarrow> length (digits_of base x) \<le> n"
proof (induction n arbitrary: x)
  case (Suc n)
  show ?case
  proof (cases "x div base = 0")
    case False
    then have "base \<le> x" using Suc.prems(1) by (simp add: div_eq_0_iff)
    then have "0 < n" using Suc.prems(2) by (cases n) auto
    moreover have "x div base < base ^ n" using Suc.prems by (simp add: less_mult_imp_div_less mult.commute)
    ultimately have "length (digits_of base (x div base)) \<le> n" using Suc by blast
    then show ?thesis using Suc.prems(1) by (subst digits_of.simps) auto
  qed (subst digits_of.simps, simp)
qed simp

text \<open>\<open>printint\<close> prints the numeral of its argument: the digits, without leading zeros, of its absolute
  value when it is printed as a signed number, with a minus sign in front when it is negative, and of its value as an
  unsigned number otherwise. The text fits the local buffer of 16 characters, the routine returns, and the output goes to the
  serial line, if there is one, while the cursor stays on the screen.\<close>

theorem printint_prints:
  assumes "con_ok (con s)" "base = 10 \<or> base = 16" "- (2 ^ 31) \<le> x" "x < 2 ^ 31"
  shows "wp (printint x base sign)
    (\<lambda>_ t. \<exists>ds. let out = (if sign \<and> x < 0 then [45] else []) @ ds in
       numeral_of base (nat (if sign then \<bar>x\<bar> else x mod 2 ^ 32)) ds \<and> length out \<le> 16
       \<and> t = upd_con (\<lambda>_. con t) s \<and> prints out (con s) (con t)) s"
proof -
  define v where "v = nat (if sign then \<bar>x\<bar> else x mod 2 ^ 32)"
  have b: "2 \<le> base" "base \<le> 39" using assms(2) by auto
  have n: "numeral_of base v (rev (digits_of base v))" by (rule digits_of_numeral [OF b])
  have "v < 2 ^ 32"
  proof (cases sign)
    case True
    then show ?thesis using assms(3,4) by (simp add: v_def)
  next
    case False
    have "x mod 2 ^ 32 < 2 ^ 32" by simp
    then show ?thesis using False by (simp add: v_def nat_less_iff)
  qed
  then have "v < base ^ 15" using assms(2) by auto
  then have l: "length (digits_of base v) \<le> 15" using digits_of_length [OF b(1), of v 15] by simp
  have out: "rev (printint_buf x base sign) = (if sign \<and> x < 0 then [45] else []) @ rev (digits_of base v)"
    using assms(3,4) by (auto simp: printint_buf_def v_def)
  show ?thesis
    unfolding printint_def out
    by (rule wp_consputs [OF assms(1)]) (use n l in \<open>auto simp: Let_def v_def [symmetric]\<close>)
qed

section \<open>The line discipline\<close>

lemma ring_index: "unat ((r + of_nat i :: uint) mod 128) = (unat r + i) mod 128"
proof -
  have "unat ((r + of_nat i) mod 128) = ((unat r + i) mod 2 ^ 32) mod 128"
    by (simp add: unat_mod_distrib unat_word_ariths unat_of_nat mod_add_right_eq)
  also have "\<dots> = (unat r + i) mod 128" by (rule mod_mod_cancel) simp
  finally show ?thesis .
qed

lemma ring_slot: "unat ((in_r k + of_nat i) mod 128) = (unat (in_r k) + i) mod 128"
  by (rule ring_index)

lemma ring_distinct_le:
  assumes "(a + i) mod 128 = (a + j) mod (128::nat)" "i \<le> j" "j < 128"
  shows "i = j"
proof -
  have "128 dvd (a + j) - (a + i)" using assms mod_eq_dvd_iff_nat [of "a + i" "a + j" 128] by simp
  then show ?thesis using assms(2,3) by (auto dest: dvd_imp_le)
qed

lemma ring_distinct: "(a + i) mod 128 = (a + j) mod (128::nat) \<Longrightarrow> i < 128 \<Longrightarrow> j < 128 \<Longrightarrow> i = j"
  using ring_distinct_le [of a i j] ring_distinct_le [of a j i] by (cases "i \<le> j") auto

lemma index_of: "(e :: uint) = r + of_nat (unat (e - r))"
  by simp

lemma input_lines_length:
  "ring_inv k \<Longrightarrow> length (fst (input_lines k)) = unat (in_w k - in_r k)"
  "ring_inv k \<Longrightarrow> length (fst (input_lines k)) + length (snd (input_lines k)) = unat (in_e k - in_r k)"
  by (simp_all add: input_lines_def ring_inv_def)

lemma input_lines_cong:
  assumes "in_buf k' = in_buf k" "in_r k' = in_r k" "in_w k' = in_w k" "in_e k' = in_e k"
  shows "input_lines k' = input_lines k" "ring_inv k' = ring_inv k"
  using assms by (simp_all add: input_lines_def ring_inv_def ring_def [abs_def])

lemma input_push:
  fixes c :: uchar
  assumes inv: "ring_inv k" and room: "in_e k - in_r k < 128"
  defines "k' \<equiv> k\<lparr>in_buf := (in_buf k)[unat (in_e k mod 128) := c], in_e := in_e k + 1\<rparr>"
  shows "input_lines k' = (fst (input_lines k), snd (input_lines k) @ [c])" and "in_r k' = in_r k" "in_w k' = in_w k"
    "unat (in_e k' - in_r k') = Suc (unat (in_e k - in_r k))" "length (in_buf k') = 128"
proof -
  define n where "n = unat (in_e k - in_r k)"
  have n: "n < 128" using room by (simp add: n_def word_less_nat_alt)
  have e: "in_e k = in_r k + of_nat n" using index_of [of "in_e k" "in_r k"] by (simp add: n_def)
  have slot: "unat (in_e k mod 128) = (unat (in_r k) + n) mod 128" unfolding e by (rule ring_index)
  have len: "length (in_buf k) = 128" and le: "unat (in_w k - in_r k) \<le> n" using inv by (auto simp: ring_inv_def n_def)
  have f: "in_e k + 1 - in_r k = of_nat (Suc n)" unfolding e by simp
  have s: "unat (in_e k + 1 - in_r k) = Suc n" unfolding f using n by (simp add: unat_of_nat del: of_nat_Suc)
  have old: "ring k' i = ring k i" if "i < n" for i
  proof -
    have "(unat (in_r k) + i) mod 128 \<noteq> (unat (in_r k) + n) mod 128" using ring_distinct [of _ i n] that n by auto
    then show ?thesis by (simp add: ring_def k'_def slot)
  qed
  have new: "ring k' n = c" using len by (simp add: ring_def k'_def slot)
  show "input_lines k' = (fst (input_lines k), snd (input_lines k) @ [c])"
    using le old new s by (auto simp: input_lines_def k'_def n_def [symmetric])
  show "in_r k' = in_r k" "in_w k' = in_w k" "unat (in_e k' - in_r k') = Suc (unat (in_e k - in_r k))" "length (in_buf k') = 128"
    using s len by (simp_all add: k'_def n_def)
qed

lemma input_commit:
  assumes "length (in_buf k) = 128" "unat (in_w k - in_r k) \<le> unat (in_e k - in_r k)" "unat (in_e k - in_r k) \<le> 128"
  shows "input_lines (k\<lparr>in_w := in_e k\<rparr>) = (fst (input_lines k) @ snd (input_lines k), [])" "ring_inv (k\<lparr>in_w := in_e k\<rparr>)"
proof -
  have r: "ring (k\<lparr>in_w := in_e k\<rparr>) = ring k" by (simp add: ring_def [abs_def])
  obtain d where d: "unat (in_e k - in_r k) = unat (in_w k - in_r k) + d" using assms(2) le_Suc_ex by blast
  show 1: "input_lines (k\<lparr>in_w := in_e k\<rparr>) = (fst (input_lines k) @ snd (input_lines k), [])"
    using upt_add_eq_append [of 0 "unat (in_w k - in_r k)" d] by (simp add: input_lines_def r d)
  show "ring_inv (k\<lparr>in_w := in_e k\<rparr>)" using assms unfolding ring_inv_def 1 by simp
qed

lemma input_erase:
  assumes "ring_inv k" "in_e k \<noteq> in_w k"
  shows "input_lines (k\<lparr>in_e := in_e k - 1\<rparr>) = (fst (input_lines k), butlast (snd (input_lines k)))" "ring_inv (k\<lparr>in_e := in_e k - 1\<rparr>)"
    "snd (input_lines k) \<noteq> []" "in_buf k ! unat ((in_e k - 1) mod 128) = last (snd (input_lines k))"
proof -
  define a b where "a = unat (in_w k - in_r k)" and "b = unat (in_e k - in_r k)"
  have ab: "a \<le> b" "b \<le> 128" using assms(1) by (auto simp: ring_inv_def a_def b_def)
  have "a \<noteq> b"
  proof
    assume "a = b"
    then have "in_w k - in_r k = in_e k - in_r k" by (simp add: a_def b_def unsigned_word_eqI)
    then show False using assms(2) by simp
  qed
  with ab obtain n where b: "b = Suc n" "a \<le> n" by (metis Suc_le_D Suc_le_mono le_neq_implies_less Suc_leI)
  have e: "in_e k = in_r k + of_nat b" using index_of [of "in_e k" "in_r k"] by (simp add: b_def)
  then have "in_e k - 1 = in_r k + of_nat n" by (simp add: b)
  then have s: "unat (in_e k - 1 - in_r k) = n" and slot: "unat ((in_e k - 1) mod 128) = (unat (in_r k) + n) mod 128"
    using ab b by (simp_all add: ring_index unat_of_nat)
  have rk: "ring (k\<lparr>in_e := in_e k - 1\<rparr>) = ring k" by (simp add: ring_def [abs_def])
  have l: "snd (input_lines k) = map (ring k) [a..<n] @ [ring k n]" using b by (simp add: input_lines_def a_def [symmetric] b_def [symmetric])
  show 1: "input_lines (k\<lparr>in_e := in_e k - 1\<rparr>) = (fst (input_lines k), butlast (snd (input_lines k)))"
    unfolding l using rk s by (simp add: input_lines_def a_def)
  show "snd (input_lines k) \<noteq> []" "in_buf k ! unat ((in_e k - 1) mod 128) = last (snd (input_lines k))"
    unfolding l by (simp_all add: slot ring_def)
  have "10 \<notin> set (butlast (snd (input_lines k)))" using assms(1) by (auto simp: ring_inv_def dest: in_set_butlastD)
  then show "ring_inv (k\<lparr>in_e := in_e k - 1\<rparr>)"
    using assms(1) ab b s unfolding ring_inv_def 1 by (simp add: a_def)
qed

lemma input_take:
  assumes "ring_inv k" "in_r k \<noteq> in_w k"
  shows "fst (input_lines k) \<noteq> []" "in_buf k ! unat (in_r k mod 128) = hd (fst (input_lines k))"
    "input_lines (k\<lparr>in_r := in_r k + 1\<rparr>) = (tl (fst (input_lines k)), snd (input_lines k))" "ring_inv (k\<lparr>in_r := in_r k + 1\<rparr>)"
proof -
  define a b where "a = unat (in_w k - in_r k)" and "b = unat (in_e k - in_r k)"
  have ab: "a \<le> b" "b \<le> 128" using assms(1) by (auto simp: ring_inv_def a_def b_def)
  have "a \<noteq> 0" using assms(2) by (auto simp: a_def unat_eq_0)
  then obtain n where a: "a = Suc n" by (cases a) auto
  obtain m where b: "b = Suc m" "n \<le> m" using ab a by (cases b) auto
  let ?k = "k\<lparr>in_r := in_r k + 1\<rparr>"
  have wa: "in_w k - in_r k = of_nat a" "in_e k - in_r k = of_nat b" by (simp_all add: a_def b_def)
  have "in_w k - (in_r k + 1) = of_nat n" "in_e k - (in_r k + 1) = of_nat m" using wa by (simp_all add: a b algebra_simps)
  then have s: "unat (in_w k - (in_r k + 1)) = n" "unat (in_e k - (in_r k + 1)) = m" using ab a b by (simp_all add: unat_of_nat)
  have "ring ?k i = ring k (Suc i)" for i
    using ring_index [of "in_r k + 1" i] ring_index [of "in_r k" "Suc i"] by (simp add: ring_def add.assoc)
  then have m: "map (ring ?k) [x..<y] = map (ring k) [Suc x..<Suc y]" for x y by (simp add: map_Suc_upt [symmetric] o_def del: map_Suc_upt upt_Suc)
  have l: "input_lines k = (ring k 0 # map (ring k) [1..<Suc n], map (ring k) [Suc n..<Suc m])"
    by (simp add: input_lines_def a_def [symmetric] b_def [symmetric] a b upt_rec [of 0] del: upt_Suc)
  show "fst (input_lines k) \<noteq> []" "in_buf k ! unat (in_r k mod 128) = hd (fst (input_lines k))"
    using ring_index [of "in_r k" 0] by (simp_all add: l ring_def)
  show 1: "input_lines ?k = (tl (fst (input_lines k)), snd (input_lines k))"
    using m s by (simp add: l) (simp add: input_lines_def del: upt_Suc)
  show "ring_inv ?k" using assms(1) ab a b s unfolding ring_inv_def 1 by simp
qed

lemma prints_keeps:
  assumes "prints cs k k'"
  shows "con_ok k'" "input_lines k' = input_lines k" "ring_inv k' = ring_inv k" "in_r k' = in_r k" "in_w k' = in_w k" "in_e k' = in_e k"
    "dev_in k' = dev_in k"
  using assms input_lines_cong [of k' k] by (simp_all add: prints_def con_rest_eq dev_in_def)

lemma dev_in_input [simp]:
  "dev_in (k\<lparr>in_e := e\<rparr>) = dev_in k" "dev_in (k\<lparr>in_w := w\<rparr>) = dev_in k" "dev_in (k\<lparr>in_r := r\<rparr>) = dev_in k"
  "dev_in (k\<lparr>in_buf := b\<rparr>) = dev_in k" "dev_in (k\<lparr>in_buf := b, in_e := e\<rparr>) = dev_in k"
  by (simp_all add: dev_in_def)

lemma con_ok_input:
  "con_ok (k\<lparr>in_e := e\<rparr>) = con_ok k" "con_ok (k\<lparr>in_w := w\<rparr>) = con_ok k" "con_ok (k\<lparr>in_r := r\<rparr>) = con_ok k"
  "con_ok (k\<lparr>in_buf := b\<rparr>) = con_ok k" "con_ok (k\<lparr>in_buf := b, in_e := e\<rparr>) = con_ok k"
  by (simp_all add: con_ok_def)

lemma kill_line_ok:
  assumes "cons_inv (con s)" "length (snd (input_lines (con s))) \<le> n"
    and "\<And>k. cons_inv k \<Longrightarrow> input_lines k = (fst (input_lines (con s)), []) \<Longrightarrow> dev_in k = dev_in (con s) \<Longrightarrow> P () (upd_con (\<lambda>_. k) s)"
  shows "wp (kill_line n) P s"
  using assms
proof (induction n arbitrary: s)
  case 0
  have e: "upd_con (\<lambda>_. con s) s = s" by (cases s) (simp add: upd_con_def)
  have "P () (upd_con (\<lambda>_. con s) s)" using 0 by (intro 0(3)) (auto intro: prod_eqI)
  then show ?case unfolding e by (simp add: wps)
next
  case (Suc n)
  let ?k = "con s"
  have inv: "ring_inv ?k" "con_ok ?k" using Suc.prems(1) by (simp_all add: cons_inv_def)
  show ?case
  proof (cases "in_e ?k = in_w ?k")
    case True
    then have "snd (input_lines ?k) = []" by (simp add: input_lines_def)
    moreover have e: "upd_con (\<lambda>_. con s) s = s" by (cases s) (simp add: upd_con_def)
    ultimately have "P () (upd_con (\<lambda>_. con s) s)" using Suc.prems(1) by (intro Suc.prems(3)) (auto intro: prod_eqI)
    then show ?thesis unfolding e using True by (simp add: wps)
  next
    case False
    note er = input_erase [OF inv(1) False]
    have "last (snd (input_lines ?k)) \<noteq> 10" using inv(1) er(3) last_in_set unfolding ring_inv_def by metis
    then have c: "in_e ?k \<noteq> in_w ?k \<and> in_buf ?k ! unat ((in_e ?k - 1) mod 128) \<noteq> 10" using False er(4) by simp
    let ?s = "upd_con (\<lambda>k. k\<lparr>in_e := in_e k - 1\<rparr>) s"
    have "wp (consputc BACKSPACE) (\<lambda>_. wp (kill_line n) P) ?s"
    proof (rule wp_consputc)
      show "con_ok (con ?s)" using inv(2) by (simp add: con_ok_input)
      fix k assume pr: "prints [BACKSPACE] (con ?s) k"
      note pk = prints_keeps [OF pr]
      show "wp (kill_line n) P (upd_con (\<lambda>_. k) ?s)"
      proof (rule Suc.IH)
        show "cons_inv (con (upd_con (\<lambda>_. k) ?s))" using pk er(2) by (simp add: cons_inv_def)
        show "length (snd (input_lines (con (upd_con (\<lambda>_. k) ?s)))) \<le> n" using pk er(1) Suc.prems(2) by simp
        fix k' assume "cons_inv k'" "input_lines k' = (fst (input_lines (con (upd_con (\<lambda>_. k) ?s))), [])" "dev_in k' = dev_in (con (upd_con (\<lambda>_. k) ?s))"
        then show "P () (upd_con (\<lambda>_. k') (upd_con (\<lambda>_. k) ?s))"
          using Suc.prems(3) [of k'] pk er(1) by (simp add: upd_con_upd_con)
      qed
    qed
    then show ?thesis using c by (simp add: wps)
  qed
qed

lemma CTRL_codes: "CTRL CHR ''P'' = 16" "CTRL CHR ''U'' = 21" "CTRL CHR ''H'' = 8" "CTRL CHR ''D'' = 4"
  by (simp_all add: CTRL_def)

lemma input_awake_upd [simp]: "input_awake (upd_con f s) = input_awake s"
  by (simp add: input_awake_def)

lemma input_store_ok:
  assumes c: "ctx p L s" "LPtable \<notin> L" and inv: "cons_inv (con s)" and room: "in_e (con s) - in_r (con s) < 128"
    and n: "0 < n" "n < 256" "n \<noteq> 16" "n \<noteq> 21" "n \<noteq> 8" "n \<noteq> 127" and m: "m = (if n = 13 then 10 else n)"
  shows "wp (kthen (kmod (upd_con (\<lambda>k. k\<lparr>in_buf := (in_buf k)[unat (in_e k mod 128) := of_nat m], in_e := in_e k + 1\<rparr>))) (
          kthen (consputc m) (
          kbind (kget con) (\<lambda>k.
          kwhen (m = 10 \<or> m = CTRL CHR ''D'' \<or> in_e k = in_r k + 128) (
            kthen (kmod (upd_con (\<lambda>k. k\<lparr>in_w := in_e k\<rparr>)))
            (wakeup CInput)))))) (\<lambda>_. input_post p L n s False) s"
proof -
  let ?k = "(con s)\<lparr>in_buf := (in_buf (con s))[unat (in_e (con s) mod 128) := of_nat m], in_e := in_e (con s) + 1\<rparr>"
  obtain q l where ql: "input_lines (con s) = (q, l)" by fastforce
  have ri: "ring_inv (con s)" and ok: "con_ok (con s)" using inv by (simp_all add: cons_inv_def)
  note pu = input_push [OF ri room, of "of_nat m"]
  have len: "length q + length l = unat (in_e (con s) - in_r (con s))" using input_lines_length(2) [OF ri] by (simp add: ql)
  then have room': "length q + length l < 128" using room by (simp add: word_less_nat_alt)
  have full: "in_e ?k = in_r ?k + 128 \<longleftrightarrow> length q + length (l @ [of_nat m :: uchar]) = 128"
  proof -
    have "in_e ?k = in_r ?k + 128 \<longleftrightarrow> in_e ?k - in_r ?k = 128" by (auto simp: algebra_simps)
    also have "\<dots> \<longleftrightarrow> unat (in_e ?k - in_r ?k) = 128" by (auto simp: word_unat_eq_iff)
    finally show ?thesis using pu(4) len by simp
  qed
  define fin where "fin \<longleftrightarrow> m = 10 \<or> m = CTRL CHR ''D'' \<or> length q + length (l @ [of_nat m :: uchar]) = 128"
  have ty: "typed n (q, l) = (if fin then (q @ l @ [of_nat m], []) else (q, l @ [of_nat m]))"
    using n room' m by (auto simp: typed_def CTRL_codes fin_def Let_def)
  have m10: "(of_nat m :: uchar) = 10 \<Longrightarrow> m = 10"
  proof -
    assume "(of_nat m :: uchar) = 10"
    then have "unat (of_nat m :: uchar) = 10" by simp
    then show "m = 10" using n(2) m by (auto simp: unat_of_nat split: if_splits)
  qed
  have post: "wp (kwhen (m = 10 \<or> m = CTRL CHR ''D'' \<or> in_e k = in_r k + 128)
       (kthen (kmod (upd_con (\<lambda>k. k\<lparr>in_w := in_e k\<rparr>))) (wakeup CInput))) (\<lambda>_. input_post p L n s False) (upd_con (\<lambda>_. k) s)"
    if "prints [m] ?k k" for k
  proof -
    note pk = prints_keeps [OF that]
    have fk: "(m = 10 \<or> m = CTRL CHR ''D'' \<or> in_e k = in_r k + 128) = fin" using full pk(4,6) by (simp add: fin_def)
    have lk: "input_lines k = (q, l @ [of_nat m])" using pk(2) pu(1) by (simp add: ql)
    have lo: "unat (in_w (con s) - in_r (con s)) \<le> unat (in_e (con s) - in_r (con s))" using ri by (simp add: ring_inv_def)
    have ringk: "length (in_buf k) = 128" "unat (in_w k - in_r k) \<le> unat (in_e k - in_r k)" "unat (in_e k - in_r k) \<le> 128"
      using that pk pu lo len room' by (simp_all add: prints_def con_rest_eq)
    note cm = input_commit [OF ringk]
    show ?thesis
      unfolding fk
    proof (cases fin)
      case True
      have aw: "input_awake (upd_pt (\<lambda>t. t\<lparr>procs := map (wake CInput) (procs t)\<rparr>) u)" for u :: "'a kstate_scheme"
        by (auto simp: input_awake_def wake_def upd_pt_def)
      show "wp (kwhen fin (kthen (kmod (upd_con (\<lambda>k. k\<lparr>in_w := in_e k\<rparr>))) (wakeup CInput))) (\<lambda>_. input_post p L n s False) (upd_con (\<lambda>_. k) s)"
        unfolding kwhen_def if_P [OF True] wp_kthen wp_prims upd_con_upd_con
        by (rule wp_wakeup [where p = p and L = L])
          (use c aw cm ty True lk pk n in \<open>simp_all add: input_post_def cons_inv_def con_ok_input ql CTRL_codes ctx_upd_pt ctx_settle\<close>)
    next
      case False
      then have "(of_nat m :: uchar) \<noteq> 10" using m10 by (auto simp: fin_def)
      then show "wp (kwhen fin (kthen (kmod (upd_con (\<lambda>k. k\<lparr>in_w := in_e k\<rparr>))) (wakeup CInput))) (\<lambda>_. input_post p L n s False) (upd_con (\<lambda>_. k) s)"
        using False c lk ty n ri by (simp add: wps input_post_def ql cons_inv_def ring_inv_def pk(1,7) ringk CTRL_codes)
    qed
  qed
  show ?thesis
    unfolding wp_kthen wp_kbind wp_prims by (rule wp_consputc) (use ok post in \<open>simp_all only: con_ok_input upd_con_upd_con upd_con_fields\<close>)
qed

lemma wp_kreturn_fun: "wp (kreturn x) P = P x"
  by (rule ext) (simp add: wps)

lemma input_char_ok:
  assumes c: "ctx p L s" "LPtable \<notin> L" and inv: "cons_inv (con s)" and n: "n < 256"
  shows "wp (input_char n) (input_post p L n s) s"
proof -
  obtain q l where ql: "input_lines (con s) = (q, l)" by fastforce
  have ri: "ring_inv (con s)" and ok: "con_ok (con s)" using inv by (simp_all add: cons_inv_def)
  have len: "length q + length l = unat (in_e (con s) - in_r (con s))" and lq: "length q = unat (in_w (con s) - in_r (con s))"
    using input_lines_length [OF ri] by (simp_all add: ql)
  consider (P) "n = 16" | (U) "n = 21" | (H) "n = 8 \<or> n = 127" | (D) "n \<noteq> 16" "n \<noteq> 21" "n \<noteq> 8" "n \<noteq> 127" by blast
  then show ?thesis
  proof cases
    case P
    then show ?thesis using c inv by (simp add: input_char_def CTRL_codes wps input_post_def typed_def ql)
  next
    case U
    have "unat (in_e (con s) - in_w (con s)) = length l"
    proof -
      have "in_e (con s) - in_w (con s) = (in_e (con s) - in_r (con s)) - (in_w (con s) - in_r (con s))" by simp
      also have "unat \<dots> = unat (in_e (con s) - in_r (con s)) - unat (in_w (con s) - in_r (con s))"
        using ri by (intro unat_sub) (simp add: ring_inv_def word_le_nat_alt)
      finally show ?thesis using len lq by simp
    qed
    then show ?thesis
      using U c inv by (simp add: input_char_def CTRL_codes wps)
        (rule kill_line_ok, auto simp: input_post_def typed_def ql CTRL_codes wp_kreturn_fun)
  next
    case H
    show ?thesis
    proof (cases "in_e (con s) = in_w (con s)")
      case True
      then have "l = []" using ql by (auto simp: input_lines_def)
      then show ?thesis using True H c inv by (auto simp: input_char_def CTRL_codes wps input_post_def typed_def ql)
    next
      case False
      note er = input_erase [OF ri False]
      have "wp (consputc BACKSPACE) (\<lambda>_. input_post p L n s False) (upd_con (\<lambda>k. k\<lparr>in_e := in_e k - 1\<rparr>) s)"
      proof (rule wp_consputc)
        show "con_ok (con (upd_con (\<lambda>k. k\<lparr>in_e := in_e k - 1\<rparr>) s))" using ok by (simp add: con_ok_input)
        fix k assume "prints [BACKSPACE] (con (upd_con (\<lambda>k. k\<lparr>in_e := in_e k - 1\<rparr>) s)) k"
        note pk = prints_keeps [OF this]
        show "input_post p L n s False (upd_con (\<lambda>_. k) (upd_con (\<lambda>k. k\<lparr>in_e := in_e k - 1\<rparr>) s))"
          using pk er H c by (auto simp: input_post_def cons_inv_def typed_def ql CTRL_codes)
      qed
      then show ?thesis using False H by (auto simp: input_char_def CTRL_codes wps wp_kreturn_fun)
    qed
  next
    case D
    show ?thesis
    proof (cases "n \<noteq> 0 \<and> in_e (con s) - in_r (con s) < 128")
      case True
      have run: "input_char n = kbind (kget con) (\<lambda>k.
        kthen (kwhen (n \<noteq> 0 \<and> in_e k - in_r k < 128) (
          kthen (kmod (upd_con (\<lambda>k. k\<lparr>in_buf := (in_buf k)[unat (in_e k mod 128) := of_nat (if n = 13 then 10 else n)], in_e := in_e k + 1\<rparr>))) (
          kthen (consputc (if n = 13 then 10 else n)) (
          kbind (kget con) (\<lambda>k.
          kwhen ((if n = 13 then 10 else n) = 10 \<or> (if n = 13 then 10 else n) = CTRL CHR ''D'' \<or> in_e k = in_r k + 128) (
            kthen (kmod (upd_con (\<lambda>k. k\<lparr>in_w := in_e k\<rparr>)))
            (wakeup CInput))))))) (kreturn False))"
        using D unfolding input_char_def CTRL_codes Let_def by simp
      show ?thesis
        unfolding run wp_kbind wp_kthen [of "kwhen _ _"] wp_kreturn_fun wp_prims(2) wp_kwhen if_P [OF True]
        using True D by (intro input_store_ok [OF c inv]) (auto simp: n)
    next
      case False
      then have "n = 0 \<or> length q + length l \<ge> 128" using len by (auto simp: word_less_nat_alt)
      then show ?thesis using False D c inv by (auto simp: input_char_def CTRL_codes wps input_post_def typed_def ql)
    qed
  qed
qed

section \<open>Formatted output\<close>

lemma says_consputs: "says (kiter consputc cs) cs"
  unfolding says_def by (auto intro!: wp_consputs)

lemma says_consputc: "says (consputc c) [c]"
  unfolding says_def by (auto intro!: wp_consputc)

lemma says_return: "says (kreturn ()) []"
  using says_consputs [of "[]"] by simp

lemma says_then:
  assumes "says m a" "says n b"
  shows "says (kthen m n) (a @ b)"
  unfolding says_def wps
proof (intro allI impI)
  fix s :: "'a kstate_scheme"
  assume "con_ok (con s)"
  then have "wp m (\<lambda>_ t. \<exists>k. prints a (con s) k \<and> t = upd_con (\<lambda>_. k) s) s" using assms(1) by (simp add: says_def)
  then show "wp m (\<lambda>_. wp n (\<lambda>_ t. \<exists>k. prints (a @ b) (con s) k \<and> t = upd_con (\<lambda>_. k) s)) s"
  proof (rule wp_mono, elim exE conjE)
    fix t k assume k: "prints a (con s) k" "t = upd_con (\<lambda>_. k) s"
    then have "con_ok (con t)" by (simp add: prints_def)
    then have "wp n (\<lambda>_ u. \<exists>k'. prints b k k' \<and> u = upd_con (\<lambda>_. k') t) t" using assms(2) k(2) unfolding says_def by fastforce
    then show "wp n (\<lambda>_ t. \<exists>k. prints (a @ b) (con s) k \<and> t = upd_con (\<lambda>_. k) s) t"
      by (rule wp_mono) (use k prints_append [OF k(1)] in \<open>auto simp: upd_con_upd_con\<close>)
  qed
qed

lemma says_put: "says n b \<Longrightarrow> says (kthen (consputc c) n) (c # b)"
  using says_then [OF says_consputc] by fastforce

lemmas says_intros = says_consputs says_consputc says_return says_then says_put

lemma says_cprintf_loop: "cformat fmt args = Some out \<Longrightarrow> says (cprintf_loop fmt args) out"
proof (induction fmt args arbitrary: out rule: cprintf_loop.induct)
  case (3 c d fmt args)
  then show ?case
    by (auto simp: printint_def split: if_splits list.splits carg.splits intro!: says_intros)
qed (auto intro: says_intros)

lemma cprintf_ok:
  assumes c: "ctx p L s" "LCons \<notin> L" and ok: "con_ok (con s)" and f: "cformat fmt args = Some out"
  shows "wp (cprintf fmt args) (\<lambda>_ t. ctx p L t \<and> prints out (con s) (con t) \<and> pt t = pt s \<and> mm t = mm s \<and> fl t = fl s) s"
proof -
  note sa = says_cprintf_loop [OF f, unfolded says_def, rule_format]
  show ?thesis
  proof (cases "cons_locking (con s)")
    case True
    have c': "ctx p (insert LCons L) (upd_con (\<lambda>_. k) (acq LCons s))" for k using ctx_acq [OF c] by simp
    have "wp (cprintf_loop fmt args) (\<lambda>_. wp (release LCons) (\<lambda>_ t. ctx p L t \<and> prints out (con s) (con t) \<and> pt t = pt s \<and> mm t = mm s \<and> fl t = fl s)) (acq LCons s)"
      by (rule wp_mono [OF sa]) (use ok c' ctx_rel [OF c' c(2)] in \<open>auto intro!: wp_release\<close>)
    then show ?thesis using True by (auto simp: cprintf_def wps kwhen_def intro!: wp_acquire [OF c])
  next
    case False
    then show ?thesis unfolding cprintf_def by (simp add: wps kwhen_def wp_kreturn_fun) (rule wp_mono [OF sa], use ok c in auto)
  qed
qed

lemma quiet_print_trans: "quiet_print p L s t \<Longrightarrow> quiet_print p L t u \<Longrightarrow> quiet_print p L s u"
  using prints_append by (fastforce simp: quiet_print_def)

lemma quiet_print_cprintf:
  assumes "quiet_print p L s t" "LCons \<notin> L" "cformat fmt args \<noteq> None"
  shows "wp (cprintf fmt args) (\<lambda>_. quiet_print p L s) t"
proof -
  obtain out where f: "cformat fmt args = Some out" using assms(3) by auto
  have "ctx p L t" "con_ok (con t)" using assms(1) by (auto simp: quiet_print_def prints_def)
  then have "wp (cprintf fmt args) (\<lambda>_. quiet_print p L t) t"
    by (intro wp_mono [OF cprintf_ok [OF _ assms(2) _ f]]) (auto simp: quiet_print_def)
  then show ?thesis by (rule wp_mono) (rule quiet_print_trans [OF assms(1)])
qed

lemma procdump_ok:
  assumes "ctx p L s" "LCons \<notin> L" "con_ok (con s)"
  shows "wp (procdump pcs) (\<lambda>_. quiet_print p L s) s"
  unfolding procdump_def
proof (rule wp_kiter [where I = "\<lambda>_. quiet_print p L s"])
  show "quiet_print p L s s" using assms prints_Nil by (auto simp: quiet_print_def)
  fix i ys t assume q: "quiet_print p L s t"
  note one = quiet_print_cprintf [OF _ assms(2)]
  have loop: "wp (kiter (\<lambda>pc. cprintf [32, 37, 112] [CInt (int pc)]) xs) (\<lambda>_. quiet_print p L s) u" if "quiet_print p L s u" for xs u
    by (rule wp_kiter [where I = "\<lambda>_. quiet_print p L s"]) (use that in \<open>auto intro!: one simp: asc_def\<close>)
  show "wp (kbind (get_proc i id) (\<lambda>p.
       if p_state p = UNUSED then kreturn ()
       else
         kthen (cprintf (asc ''%d %s %s'') [CInt (p_pid p), CStr (Some (asc (state_name (p_state p)))),
                  CStr (Some (map unat (takeWhile (\<lambda>c. c \<noteq> 0) (p_name p))))]) (
         kthen (kwhen (p_state p = SLEEPING)
                  (kiter (\<lambda>pc. cprintf (asc '' %p'') [CInt (int pc)]) (takeWhile (\<lambda>pc. pc \<noteq> 0) (take 10 (pcs i))))) (
         cprintf [10] [])))) (\<lambda>_. quiet_print p L s) t"
    using q by (auto simp: wps asc_def intro!: wp_mono [OF one [OF q]] wp_mono [OF loop] one)
qed simp

section \<open>Input interrupts\<close>

text \<open>A device that delivers characters: \<open>pending\<close> is what it still has to deliver.\<close>

locale char_source =
  fixes getc :: "(int, 'a kstate_scheme) code" and pending :: "console \<Rightarrow> nat list"
  assumes getc_none: "pending (con s) = [] \<Longrightarrow> wp getc (\<lambda>r t. r < 0 \<and> t = s) s"
    and getc_char: "pending (con s) = c # cs \<Longrightarrow> wp getc (\<lambda>r t. r = int c \<and> c < 256 \<and>
      (\<exists>k. t = upd_con (\<lambda>_. k) s \<and> pending k = cs \<and> input_lines k = input_lines (con s) \<and> cons_inv k = cons_inv (con s))) s"
    and pending_dev: "dev_in k = dev_in k' \<Longrightarrow> pending k = pending k'"
    and pending_length: "length (pending k) \<le> length (kbd_in k) + length (uart_in k)"
begin

lemma input_loop_ok:
  assumes "ctx p L s" "LPtable \<notin> L" "cons_inv (con s)" "length (pending (con s)) < n"
  shows "wp (input_loop n getc d) (\<lambda>_ t. drained (pending (con s)) p L s t \<and> pending (con t) = []) s"
  using assms(1,3,4)
proof (induction n arbitrary: s d)
  case (Suc n)
  show ?case
  proof (cases "pending (con s)")
    case Nil
    then have "drained (pending (con s)) p L s s" using Suc.prems by (simp add: drained_def)
    then show ?thesis
      unfolding input_loop.simps wp_kbind by (intro wp_mono [OF getc_none [OF Nil]]) (auto simp: wps Nil)
  next
    case (Cons c cs)
    show ?thesis
      unfolding input_loop.simps wp_kbind
    proof (rule wp_mono [OF getc_char [OF Cons]], elim conjE exE)
      fix r t k assume r: "r = int c" "c < 256" and t: "t = upd_con (\<lambda>_. k) s" "pending k = cs"
        and k: "input_lines k = input_lines (con s)" "cons_inv k = cons_inv (con s)"
      have ct: "ctx p L t" "cons_inv (con t)" using Suc.prems t k by simp_all
      have "wp (input_char c) (\<lambda>e. wp (input_loop n getc (d \<or> e)) (\<lambda>_ t. drained (pending (con s)) p L s t \<and> pending (con t) = [])) t"
      proof (rule wp_mono [OF input_char_ok [OF ct(1) assms(2) ct(2) r(2)]])
        fix e u assume u: "input_post p L c t e u"
        then have pu: "pending (con u) = cs" using pending_dev [of "con u" k] t by (simp add: input_post_def)
        show "wp (input_loop n getc (d \<or> e)) (\<lambda>_ t. drained (pending (con s)) p L s t \<and> pending (con t) = []) u"
          by (rule wp_mono [OF Suc.IH]) (use u pu t k Cons Suc.prems in \<open>auto simp: input_post_def drained_def\<close>)
      qed
      then show "wp (if r < 0 then kreturn d else kbind (input_char (nat r)) (\<lambda>e. input_loop n getc (d \<or> e))) (\<lambda>_ t. drained (pending (con s)) p L s t \<and> pending (con t) = []) t"
        using r by (simp add: wps)
    qed
  qed
qed simp

lemma consoleintr_ok:
  assumes c: "ctx p L s" "LPtable \<notin> L" "LCons \<notin> L" and inv: "cons_inv (con s)"
  shows "wp (consoleintr pcs getc) (\<lambda>_ t. drained (pending (con s)) p L s t \<and> pending (con t) = []) s"
  unfolding consoleintr_def wp_kthen wp_kbind
proof (rule wp_acquire [OF c(1,3)])
  let ?s = "acq LCons s" and ?L = "insert LCons L"
  have c': "ctx p ?L ?s" "LPtable \<notin> ?L" "cons_inv (con ?s)" using ctx_acq [OF c(1,3)] c(2) inv by simp_all
  have "wp (input_loop (Suc (length (kbd_in (con ?s)) + length (uart_in (con ?s)))) getc False)
     (\<lambda>dump. wp (release LCons) (\<lambda>_. wp (kwhen dump (procdump pcs)) (\<lambda>_ t. drained (pending (con s)) p L s t \<and> pending (con t) = []))) ?s"
  proof (rule wp_mono [OF input_loop_ok [OF c']])
    show "length (pending (con ?s)) < Suc (length (kbd_in (con ?s)) + length (uart_in (con ?s)))"
      using pending_length [of "con ?s"] by simp
    fix dump t assume t: "drained (pending (con ?s)) p ?L ?s t \<and> pending (con t) = []"
    then have ct: "ctx p ?L t" by (simp add: drained_def)
    have d: "drained (pending (con s)) p L s (rel LCons t)" using t ctx_rel [OF ct c(3)] by (simp add: drained_def input_awake_def)
    have "wp (procdump pcs) (\<lambda>_ t. drained (pending (con s)) p L s t \<and> pending (con t) = []) (rel LCons t)"
    proof (rule wp_mono [OF procdump_ok [OF _ c(3)]])
      show "ctx p L (rel LCons t)" "con_ok (con (rel LCons t))" using d by (simp_all add: drained_def cons_inv_def)
      fix u assume "quiet_print p L (rel LCons t) u"
      then obtain out where u: "prints out (con (rel LCons t)) (con u)" "ctx p L u" "pt u = pt (rel LCons t)" "mm u = mm t" "fl u = fl t"
        by (auto simp: quiet_print_def)
      note pk = prints_keeps [OF u(1)]
      have "pending (con u) = pending (con t)" using pending_dev [OF pk(7)] by simp
      then show "drained (pending (con s)) p L s u \<and> pending (con u) = []" using d t u pk by (simp add: drained_def cons_inv_def input_awake_def)
    qed
    then show "wp (release LCons) (\<lambda>_. wp (kwhen dump (procdump pcs)) (\<lambda>_ t. drained (pending (con s)) p L s t \<and> pending (con t) = [])) t"
      using d t by (intro wp_release [OF ct]) (simp_all add: wps)
  qed
  then show "wp (kget (\<lambda>s. length (kbd_in (con s)) + length (uart_in (con s)))) (\<lambda>n. wp (input_loop (Suc n) getc False)
     (\<lambda>dump. wp (release LCons) (\<lambda>_. wp (kwhen dump (procdump pcs)) (\<lambda>_ t. drained (pending (con s)) p L s t \<and> pending (con t) = [])))) ?s"
    by (simp only: wp_prims)
qed

end

lemma keys_byte: "normalmap d < 256" "shiftmap d < 256" "ctlmap d < 256"
proof -
  have k: "keypad e sl d < 256" if "e < 256" "sl < 256" for e sl
    using that by (auto simp: keypad_def)
  have "\<forall>x \<in> set normal_keys. x < 256" by (simp add: normal_keys_def asc_def)
  then show "normalmap d < 256" using k [of 10 47] by (simp add: normalmap_def)
  have "\<forall>x \<in> set shift_keys. x < 256" by (simp add: shift_keys_def asc_def)
  then show "shiftmap d < 256" using k [of 10 47] by (simp add: shiftmap_def)
  have "\<forall>x \<in> set ctl_keys. x < 256" by (simp add: ctl_keys_def CTRL_def)
  then show "ctlmap d < 256" using k [of 13 "CTRL CHR ''/''"] by (simp add: ctlmap_def) (simp add: CTRL_def)
qed

lemma kbd_decode_byte: "snd (kbd_decode sh d) < 256"
proof -
  have c: "charcode k d < 256" for k d using keys_byte by (simp add: charcode_def)
  have l: "c < 256 \<Longrightarrow> c - 32 < 256" for c :: nat by (rule less_imp_diff_less)
  note less = l [OF c] c
  show ?thesis unfolding kbd_decode_def Let_def split_def using less by (auto split: if_splits)
qed

lemma length_kbd_chars [simp]: "length (kbd_chars sh ds) = length ds"
  by (induction ds arbitrary: sh) (auto split: prod.split)

lemma cons_inv_dev:
  "cons_inv (k\<lparr>uart_in := a\<rparr>) = cons_inv k" "cons_inv (k\<lparr>kbd_in := b, kbd_shift := c\<rparr>) = cons_inv k"
  "input_lines (k\<lparr>uart_in := a\<rparr>) = input_lines k" "input_lines (k\<lparr>kbd_in := b, kbd_shift := c\<rparr>) = input_lines k"
  using input_lines_cong [of "k\<lparr>uart_in := a\<rparr>" k] input_lines_cong [of "k\<lparr>kbd_in := b, kbd_shift := c\<rparr>" k]
  by (simp_all add: cons_inv_def con_ok_def)

interpretation serial: char_source uartgetc uart_chars
proof unfold_locales
  fix s :: "'a kstate_scheme" and c cs assume "uart_chars (con s) = c # cs"
  then show "wp uartgetc (\<lambda>r t. r = int c \<and> c < 256 \<and> (\<exists>k. t = upd_con (\<lambda>_. k) s \<and> uart_chars k = cs
      \<and> input_lines k = input_lines (con s) \<and> cons_inv k = cons_inv (con s))) s"
    using unsigned_less [where 'b = 8 and 'a = nat]
    by (auto simp: uart_chars_def uartgetc_def wps upd_con_const [of "\<lambda>k. k\<lparr>uart_in := _\<rparr>" s] cons_inv_dev split: if_splits list.splits
      intro!: exI [of _ "(con s)\<lparr>uart_in := _\<rparr>"])
qed (auto simp: uart_chars_def uartgetc_def dev_in_def wps split: if_splits list.splits)

interpretation keyboard: char_source kbdgetc "\<lambda>k. kbd_chars (kbd_shift k) (kbd_in k)"
proof unfold_locales
  fix s :: "'a kstate_scheme" and c cs assume "kbd_chars (kbd_shift (con s)) (kbd_in (con s)) = c # cs"
  then obtain d ds sh where d: "kbd_in (con s) = d # ds" "kbd_decode (kbd_shift (con s)) (unat d) = (sh, c)" "cs = kbd_chars sh ds"
    by (cases "kbd_in (con s)") (auto split: prod.splits)
  then have "c < 256" using kbd_decode_byte [of "kbd_shift (con s)" "unat d"] by simp
  then show "wp kbdgetc (\<lambda>r t. r = int c \<and> c < 256 \<and> (\<exists>k. t = upd_con (\<lambda>_. k) s \<and> kbd_chars (kbd_shift k) (kbd_in k) = cs
      \<and> input_lines k = input_lines (con s) \<and> cons_inv k = cons_inv (con s))) s"
    using d by (auto simp: kbdgetc_def wps upd_con_const [of "\<lambda>k. k\<lparr>kbd_in := _, kbd_shift := _\<rparr>" s] cons_inv_dev
      intro!: exI [of _ "(con s)\<lparr>kbd_in := ds, kbd_shift := sh\<rparr>"])
qed (auto simp: kbdgetc_def dev_in_def wps split: list.splits prod.splits)

text \<open>C37: Console input. An interrupt of the serial line or of the keyboard takes every character that the device has pending, in
  order, through the line editor: backspace and delete remove the last character of the line, control-U all of it, a carriage return
  counts as a newline, characters that do not fit in the 128-byte ring are dropped, and a newline, control-D or a full ring hands the line
  to the readers, all of whom are then awake. The handler returns (it echoes without a panic, also when control-P makes it
  print the process table), the indices of the ring stay in order and nothing is lost from lines already complete.\<close>

theorem console_interrupts:
  assumes "ctx p L s" "LPtable \<notin> L" "LCons \<notin> L" "cons_inv (con s)"
  shows "wp (uartintr pcs) (\<lambda>_ t. drained (uart_chars (con s)) p L s t \<and> uart_chars (con t) = []) s
    \<and> wp (kbdintr pcs) (\<lambda>_ t. drained (kbd_chars (kbd_shift (con s)) (kbd_in (con s))) p L s t \<and> kbd_in (con t) = []) s"
proof
  show "wp (uartintr pcs) (\<lambda>_ t. drained (uart_chars (con s)) p L s t \<and> uart_chars (con t) = []) s"
    unfolding uartintr_def by (rule serial.consoleintr_ok [OF assms])
  have nil: "kbd_chars a b = [] \<longleftrightarrow> b = []" for a b by (cases b) (auto split: prod.split)
  show "wp (kbdintr pcs) (\<lambda>_ t. drained (kbd_chars (kbd_shift (con s)) (kbd_in (con s))) p L s t \<and> kbd_in (con t) = []) s"
    unfolding kbdintr_def using keyboard.consoleintr_ok [OF assms, of pcs] by (simp add: nil)
qed

lemma serial_machine_inv: "ctx 0 {} serial_machine" "cons_inv (con serial_machine)" "input_lines (con serial_machine) = ([], [])"
  by (simp_all add: serial_machine_def cons_inv_def con_ok_def ring_inv_def input_lines_def)

theorem console_interrupts_witness:
  "wp (uartintr (\<lambda>_. [])) (\<lambda>_ t. input_lines (con t) = ([108, 115, 32, 45, 108, 10], [])) serial_machine"
proof -
  have u: "uart_chars (con serial_machine) = [108, 115, 32, 46, 8, 45, 108, 13]" by (simp add: uart_chars_def serial_machine_def)
  show ?thesis
    by (rule wp_mono [OF conjunct1 [OF console_interrupts [OF serial_machine_inv(1) _ _ serial_machine_inv(2)]]])
      (auto simp: drained_def u serial_machine_inv typed_def CTRL_codes)
qed

theorem printint_prints_witness:
  "wp (printint (- 120) 10 True) (\<lambda>_ t. \<exists>ds. numeral_of 10 120 ds \<and> prints (45 # ds) (con serial_machine) (con t)) serial_machine"
proof -
  have "con_ok (con serial_machine)" using serial_machine_inv(2) by (simp add: cons_inv_def)
  then show ?thesis by (intro wp_mono [OF printint_prints [where x = "- 120" and base = 10 and sign = True]]) auto
qed

end
