(* ===== verification/Strings.thy ===== *)
theory Strings
  imports Prelude
begin

text \<open>
  The memory and string routines of the kernel (\<open>src/xv6-public/string.c\<close>) and of the user library
  (\<open>ulib.c\<close>). Memory is a function from addresses to bytes; a \<open>char *\<close> is an address. A routine
  that walks to a terminating zero byte may run for ever on memory without one, so it is a
  \<open>partial_function\<close>, and \<open>None\<close> means that it does not return.
\<close>

section \<open>Kernel routines\<close>

type_synonym bmem = "nat \<Rightarrow> uchar"

text \<open>The string instructions of \<open>x86.h\<close>: \<open>rep stosb\<close> and \<open>rep stosl\<close>.\<close>

fun stosb :: "nat \<Rightarrow> uchar \<Rightarrow> nat \<Rightarrow> bmem \<Rightarrow> bmem" where
  "stosb d c 0 m = m"
| "stosb d c (Suc n) m = stosb (d + 1) c n (m(d := c))"

definition store32 :: "nat \<Rightarrow> uint \<Rightarrow> bmem \<Rightarrow> bmem" where
  "store32 d w m = m(d := ucast w, d + 1 := ucast (drop_bit 8 w), d + 2 := ucast (drop_bit 16 w),
     d + 3 := ucast (drop_bit 24 w))"

fun stosl :: "nat \<Rightarrow> uint \<Rightarrow> nat \<Rightarrow> bmem \<Rightarrow> bmem" where
  "stosl d w 0 m = m"
| "stosl d w (Suc n) m = stosl (d + 4) w n (store32 d w m)"

definition memset :: "nat \<Rightarrow> uint \<Rightarrow> nat \<Rightarrow> bmem \<Rightarrow> bmem" where
  "memset dst c n m =
     (if dst mod 4 = 0 \<and> n mod 4 = 0
      then let c = c AND 0xFF
           in stosl dst (push_bit 24 c OR push_bit 16 c OR push_bit 8 c OR c) (n div 4) m
      else stosb dst (ucast c) n m)"

fun memcmp :: "nat \<Rightarrow> nat \<Rightarrow> nat \<Rightarrow> bmem \<Rightarrow> int" where
  "memcmp s1 s2 0 m = 0"
| "memcmp s1 s2 (Suc n) m =
     (if m s1 \<noteq> m s2 then uint (m s1) - uint (m s2) else memcmp (s1 + 1) (s2 + 1) n m)"

fun copy_up :: "nat \<Rightarrow> nat \<Rightarrow> nat \<Rightarrow> bmem \<Rightarrow> bmem" where
  "copy_up d s 0 m = m"
| "copy_up d s (Suc n) m = copy_up (d + 1) (s + 1) n (m(d := m s))"

fun copy_down :: "nat \<Rightarrow> nat \<Rightarrow> nat \<Rightarrow> bmem \<Rightarrow> bmem" where
  "copy_down d s 0 m = m"
| "copy_down d s (Suc n) m = copy_down d s n (m(d + n := m (s + n)))"

definition memmove :: "nat \<Rightarrow> nat \<Rightarrow> nat \<Rightarrow> bmem \<Rightarrow> bmem" where
  "memmove dst src n m =
     (if src < dst \<and> src + n > dst then copy_down dst src n m else copy_up dst src n m)"

fun strncmp :: "nat \<Rightarrow> nat \<Rightarrow> nat \<Rightarrow> bmem \<Rightarrow> int" where
  "strncmp p q 0 m = 0"
| "strncmp p q (Suc n) m =
     (if m p \<noteq> 0 \<and> m p = m q then strncmp (p + 1) (q + 1) n m else uint (m p) - uint (m q))"

fun strncpy_loop :: "nat \<Rightarrow> nat \<Rightarrow> nat \<Rightarrow> bmem \<Rightarrow> bmem" where
  "strncpy_loop s t 0 m = m"
| "strncpy_loop s t (Suc n) m =
     (let m' = m(s := m t) in if m t \<noteq> 0 then strncpy_loop (s + 1) (t + 1) n m' else stosb (s + 1) 0 n m')"

definition strncpy :: "nat \<Rightarrow> nat \<Rightarrow> int \<Rightarrow> bmem \<Rightarrow> bmem" where
  "strncpy s t n m = strncpy_loop s t (nat n) m"

fun safestrcpy_loop :: "nat \<Rightarrow> nat \<Rightarrow> nat \<Rightarrow> bmem \<Rightarrow> bmem" where
  "safestrcpy_loop s t 0 m = m(s := 0)"
| "safestrcpy_loop s t (Suc n) m =
     (let m' = m(s := m t) in if m t \<noteq> 0 then safestrcpy_loop (s + 1) (t + 1) n m' else m'(s + 1 := 0))"

definition safestrcpy :: "nat \<Rightarrow> nat \<Rightarrow> int \<Rightarrow> bmem \<Rightarrow> bmem" where
  "safestrcpy s t n m = (if n \<le> 0 then m else safestrcpy_loop s t (nat (n - 1)) m)"

partial_function (option) strlen_from :: "nat \<Rightarrow> nat \<Rightarrow> bmem \<Rightarrow> nat option" where
  "strlen_from s n m = (if m (s + n) = 0 then Some n else strlen_from s (n + 1) m)"

definition strlen :: "nat \<Rightarrow> bmem \<Rightarrow> nat option" where
  "strlen s m = strlen_from s 0 m"

section \<open>User library\<close>

partial_function (option) strcpy :: "nat \<Rightarrow> nat \<Rightarrow> bmem \<Rightarrow> bmem option" where
  "strcpy s t m = (let m' = m(s := m t) in if m t \<noteq> 0 then strcpy (s + 1) (t + 1) m' else Some m')"

partial_function (option) strcmp :: "nat \<Rightarrow> nat \<Rightarrow> bmem \<Rightarrow> int option" where
  "strcmp p q m = (if m p \<noteq> 0 \<and> m p = m q then strcmp (p + 1) (q + 1) m else Some (uint (m p) - uint (m q)))"

partial_function (option) strchr :: "nat \<Rightarrow> uchar \<Rightarrow> bmem \<Rightarrow> nat option option" where
  "strchr s c m = (if m s = 0 then Some None else if m s = c then Some (Some s) else strchr (s + 1) c m)"

partial_function (option) atoi_from :: "int \<Rightarrow> nat \<Rightarrow> bmem \<Rightarrow> int option" where
  "atoi_from n s m =
     (if 48 \<le> uint (m s) \<and> uint (m s) \<le> 57
      then atoi_from (i32 (n * 10 + uint (m s) - 48)) (s + 1) m else Some n)"

definition atoi :: "nat \<Rightarrow> bmem \<Rightarrow> int option" where
  "atoi s m = atoi_from 0 s m"

definition memset_user :: "nat \<Rightarrow> uint \<Rightarrow> nat \<Rightarrow> bmem \<Rightarrow> bmem" where
  "memset_user dst c n m = stosb dst (ucast c) n m"

definition memmove_user :: "nat \<Rightarrow> nat \<Rightarrow> int \<Rightarrow> bmem \<Rightarrow> bmem" where
  "memmove_user dst src n m = copy_up dst src (nat n) m"

section \<open>Strings in memory\<close>

text \<open>\<open>cstr s xs m\<close>: the zero-terminated string \<open>xs\<close> is at address \<open>s\<close>.\<close>

definition cstr :: "nat \<Rightarrow> uchar list \<Rightarrow> bmem \<Rightarrow> bool" where
  "cstr s xs m \<longleftrightarrow> 0 \<notin> set xs \<and> (\<forall>i < length xs. m (s + i) = xs ! i) \<and> m (s + length xs) = 0"

text \<open>The value a decimal numeral has.\<close>

fun decimal :: "int \<Rightarrow> uchar list \<Rightarrow> int" where
  "decimal n [] = n"
| "decimal n (x # xs) = decimal (n * 10 + (uint x - 48)) xs"

section \<open>Filling and copying\<close>

lemma stosb_apply: "stosb d c n m a = (if d \<le> a \<and> a < d + n then c else m a)"
  by (induction n arbitrary: d m) auto

lemma stosl_bytes:
  assumes "ucast w = c" "ucast (drop_bit 8 w) = c" "ucast (drop_bit 16 w) = c" "ucast (drop_bit 24 w) = c"
  shows "stosl d w n m = stosb d c (4 * n) m"
proof (induction n arbitrary: d m)
  case (Suc n)
  have "store32 d w m = stosb d c 4 m" using assms by (simp add: store32_def numeral_eq_Suc)
  moreover have "stosb (d + 4) c (4 * n) (stosb d c 4 m) = stosb d c (4 * Suc n) m"
    by (rule ext) (auto simp: stosb_apply)
  ultimately show ?case using Suc by simp
qed simp

lemma byte_fill:
  fixes c :: uint
  defines "w \<equiv> push_bit 24 (c AND 0xFF) OR push_bit 16 (c AND 0xFF) OR push_bit 8 (c AND 0xFF) OR (c AND 0xFF)"
  shows "(ucast w :: uchar) = ucast c" "(ucast (drop_bit 8 w) :: uchar) = ucast c"
    "(ucast (drop_bit 16 w) :: uchar) = ucast c" "(ucast (drop_bit 24 w) :: uchar) = ucast c"
proof -
  have e: "c AND 0xFF = take_bit 8 c" by (simp add: take_bit_eq_mask mask_eq_exp_minus_1)
  show "(ucast w :: uchar) = ucast c" "(ucast (drop_bit 8 w) :: uchar) = ucast c"
    "(ucast (drop_bit 16 w) :: uchar) = ucast c" "(ucast (drop_bit 24 w) :: uchar) = ucast c"
    unfolding w_def e by (rule bit_word_eqI; auto simp: bit_simps)+
qed

lemma copy_up_apply:
  "\<not> (s < d \<and> s + n > d) \<Longrightarrow> copy_up d s n m a = (if d \<le> a \<and> a < d + n then m (s + (a - d)) else m a)"
proof (induction n arbitrary: d s m)
  case (Suc n)
  have "copy_up (d + 1) (s + 1) n (m(d := m s)) a =
      (if d + 1 \<le> a \<and> a < d + 1 + n then (m(d := m s)) (s + 1 + (a - (d + 1))) else (m(d := m s)) a)"
    using Suc.prems by (intro Suc.IH) auto
  moreover have "s + 1 + (a - (d + 1)) = s + (a - d)" if "d + 1 \<le> a" using that by simp
  ultimately show ?case using Suc.prems by (cases "d + 1 \<le> a") auto
qed auto

lemma copy_down_apply:
  "s < d \<Longrightarrow> copy_down d s n m a = (if d \<le> a \<and> a < d + n then m (s + (a - d)) else m a)"
  by (induction n arbitrary: m) auto

lemma memset_bytes: "memset dst c n m = stosb dst (ucast c) n m"
proof (cases "dst mod 4 = 0 \<and> n mod 4 = 0")
  case True
  then have "4 * (n div 4) = n" by auto
  then show ?thesis
    using True stosl_bytes [OF byte_fill [of c]] by (simp add: memset_def Let_def)
next
  case False
  then show ?thesis unfolding memset_def by (rule if_not_P)
qed

lemma memset_apply: "memset dst c n m a = (if dst \<le> a \<and> a < dst + n then ucast c else m a)"
  by (simp add: memset_bytes stosb_apply)

lemma memmove_apply: "memmove d s n m a = (if d \<le> a \<and> a < d + n then m (s + (a - d)) else m a)"
  by (simp add: memmove_def copy_down_apply copy_up_apply)

text \<open>The word-wise fast path of \<open>memset\<close> is equivalent to the byte loop, for every alignment: exactly
  the \<open>n\<close> bytes from \<open>dst\<close> on get the low byte of \<open>c\<close>, and no other byte is touched.\<close>

theorem memset_fills:
  "memset dst c n m = stosb dst (ucast c) n m \<and> memset dst c n m a = (if dst \<le> a \<and> a < dst + n then ucast c else m a)"
  by (simp add: memset_bytes stosb_apply)

text \<open>C39: \<open>memmove\<close> copies correctly also when source and destination overlap: afterwards the
  destination holds what the source held before, and no other byte has changed.\<close>

theorem memmove_copies:
  "map (memmove d s n m) [d..<d + n] = map m [s..<s + n] \<and> (a \<notin> {d..<d + n} \<longrightarrow> memmove d s n m a = m a)"
proof -
  have "map (memmove d s n m) [d..<d + n] = map (\<lambda>i. memmove d s n m (d + i)) [0..<n]"
    by (rule nth_equalityI) simp_all
  also have "\<dots> = map (\<lambda>i. m (s + i)) [0..<n]" by (simp add: memmove_apply)
  also have "\<dots> = map m [s..<s + n]" by (rule nth_equalityI) simp_all
  finally show ?thesis by (auto simp: memmove_apply)
qed

theorem memmove_copies_witness: "memmove 1 0 3 (\<lambda>a. of_nat a) 9 = 9"
  using memmove_copies [of 1 0 3 "\<lambda>a. of_nat a" 9] by simp

text \<open>The user library's \<open>memmove\<close> has no such care: it is a correct move unless the source
  starts below an overlapping destination, and there it smears the source: copying two bytes one
  byte up leaves three equal bytes.\<close>

theorem memmove_user_overlap:
  "(\<not> (s < d \<and> s + nat n > d) \<longrightarrow>
      memmove_user d s n m a = (if d \<le> a \<and> a < d + nat n then m (s + (a - d)) else m a))
   \<and> memmove_user (s + 1) s 2 m (s + 2) = m s"
  by (simp add: memmove_user_def copy_up_apply numeral_2_eq_2)

theorem memmove_user_overlap_witness:
  "memmove_user 1 0 2 (\<lambda>a. of_nat a) 2 = 0 \<and> memmove_user 10 0 3 (\<lambda>a. of_nat a) 12 = 2"
  using memmove_user_overlap [of 0 1 2 "\<lambda>a. of_nat a" 2] memmove_user_overlap [of 0 10 3 "\<lambda>a. of_nat a" 12]
  by (simp add: numeral_2_eq_2)

section \<open>Comparing\<close>

lemma byte_diff_zero: "uint (x :: uchar) = uint y \<longleftrightarrow> x = y"
  by (simp add: word_uint_eq_iff)

lemma memcmp_sign:
  "memcmp s1 s2 n m = 0 \<longleftrightarrow> (\<forall>i < n. m (s1 + i) = m (s2 + i))"
proof (induction n arbitrary: s1 s2)
  case (Suc n)
  have "(\<forall>i < Suc n. m (s1 + i) = m (s2 + i)) \<longleftrightarrow> m s1 = m s2 \<and> (\<forall>i < n. m (s1 + 1 + i) = m (s2 + 1 + i))"
    by (simp add: All_less_Suc2)
  then show ?case using Suc by (auto simp: byte_diff_zero)
qed simp

lemma cstr_Cons:
  "cstr s (x # xs) m \<longleftrightarrow> x \<noteq> 0 \<and> m s = x \<and> cstr (s + 1) xs m"
  by (auto simp: cstr_def All_less_Suc2)

lemma cstr_Nil: "cstr s [] m \<longleftrightarrow> m s = 0"
  by (simp add: cstr_def)

lemma strncmp_zero:
  "cstr p xs m \<Longrightarrow> cstr q ys m \<Longrightarrow> strncmp p q n m = 0 \<longleftrightarrow> take n xs = take n ys"
proof (induction n arbitrary: p q xs ys)
  case (Suc n)
  show ?case
  proof (cases xs)
    case Nil
    then show ?thesis using Suc.prems by (cases ys) (auto simp: cstr_Nil cstr_Cons byte_diff_zero [of _ 0, simplified])
  next
    case (Cons x xs')
    show ?thesis
    proof (cases ys)
      case Nil
      then show ?thesis using Cons Suc.prems by (auto simp: cstr_Nil cstr_Cons byte_diff_zero [of _ 0, simplified])
    next
      case (Cons y ys')
      then show ?thesis using \<open>xs = x # xs'\<close> Suc by (auto simp: cstr_Cons byte_diff_zero)
    qed
  qed
qed simp

text \<open>On zero-terminated strings \<open>strncmp\<close> returns 0 exactly when they agree up to the first \<open>n\<close>
  characters, and \<open>memcmp\<close> exactly when the \<open>n\<close> bytes agree.\<close>

theorem compare_zero:
  "cstr p xs m \<Longrightarrow> cstr q ys m \<Longrightarrow>
   (strncmp p q n m = 0 \<longleftrightarrow> take n xs = take n ys) \<and>
   (memcmp p q n m = 0 \<longleftrightarrow> (\<forall>i < n. m (p + i) = m (q + i)))"
  by (simp add: strncmp_zero memcmp_sign)

theorem compare_zero_witness:
  "strncmp 0 4 2 (\<lambda>a. [97, 98, 99, 0, 97, 98, 100, 0] ! a) = 0"
  using compare_zero [of 0 "[97, 98, 99]" "\<lambda>a. [97, 98, 99, 0, 97, 98, 100, 0] ! a" 4 "[97, 98, 100]" 2]
  by (simp add: cstr_def All_less_Suc)

section \<open>Bounded string copies\<close>

lemma safestrcpy_loop_ok:
  "s + n < t \<or> t + length xs < s \<Longrightarrow> cstr t xs m \<Longrightarrow>
   cstr s (take n xs) (safestrcpy_loop s t n m) \<and> (\<forall>a. a < s \<or> s + n < a \<longrightarrow> safestrcpy_loop s t n m a = m a)"
proof (induction n arbitrary: s t xs m)
  case 0
  then show ?case by (simp add: cstr_Nil)
next
  case (Suc n)
  let ?m = "m(s := m t)"
  show ?case
  proof (cases xs)
    case Nil
    then show ?thesis using Suc.prems by (auto simp: cstr_Nil Let_def)
  next
    case (Cons x xs')
    then have c: "cstr (t + 1) xs' ?m" "x \<noteq> 0" "m t = x"
      using Suc.prems by (auto simp: cstr_Cons cstr_def)
    have "s + 1 + n < t + 1 \<or> t + 1 + length xs' < s + 1" using Suc.prems(1) Cons by auto
    note IH = Suc.IH [OF this c(1)]
    have "safestrcpy_loop (s + 1) (t + 1) n ?m s = x" using IH c(3) by (simp add: fun_upd_def)
    moreover have "safestrcpy_loop (s + 1) (t + 1) n ?m a = m a" if "a < s \<or> s + Suc n < a" for a
      using IH that by (auto simp: fun_upd_def)
    moreover have "safestrcpy_loop s t (Suc n) m = safestrcpy_loop (s + 1) (t + 1) n ?m"
      using c by (simp add: Let_def)
    ultimately show ?thesis using IH c Cons by (auto simp: cstr_Cons fun_upd_def)
  qed
qed

text \<open>\<open>safestrcpy\<close> always leaves a terminated string: for a positive buffer size \<open>n\<close> and strings
  that do not overlap it stores the first \<open>n - 1\<close> characters and a zero byte, and writes nothing
  outside the \<open>n\<close> bytes of the buffer; for \<open>n \<le> 0\<close> it does nothing.\<close>

theorem safestrcpy_terminates:
  assumes "cstr t xs m" "s + nat n \<le> t \<or> t + length xs < s"
  shows "(0 < n \<longrightarrow> cstr s (take (nat n - 1) xs) (safestrcpy s t n m)
      \<and> (\<forall>a. a < s \<or> s + nat n \<le> a \<longrightarrow> safestrcpy s t n m a = m a))
    \<and> (n \<le> 0 \<longrightarrow> safestrcpy s t n m = m)"
proof (cases "0 < n")
  case True
  then have eq: "nat (n - 1) = nat n - 1" "Suc (nat n - 1) = nat n" by auto
  have "s + (nat n - 1) < t \<or> t + length xs < s" using assms(2) True by auto
  from safestrcpy_loop_ok [OF this assms(1)] True eq show ?thesis
    by (auto simp: safestrcpy_def)
qed (simp add: safestrcpy_def)

theorem safestrcpy_terminates_witness:
  "cstr 8 [97, 98] (safestrcpy 8 0 3 (\<lambda>a. [97, 98, 99, 0] ! a))"
  using safestrcpy_terminates [of 0 "[97, 98, 99]" "\<lambda>a. [97, 98, 99, 0] ! a" 8 3]
  by (simp add: cstr_def All_less_Suc)

section \<open>Walking to the end of a string\<close>

lemma strlen_from_ok: "cstr (s + n) xs m \<Longrightarrow> strlen_from s n m = Some (n + length xs)"
proof (induction xs arbitrary: n)
  case Nil
  then show ?case by (subst strlen_from.simps) (simp add: cstr_Nil)
next
  case (Cons x xs)
  then show ?case by (subst strlen_from.simps) (simp add: cstr_Cons)
qed

lemma strcmp_ok:
  "cstr p xs m \<Longrightarrow> cstr q ys m \<Longrightarrow> \<exists>r. strcmp p q m = Some r \<and> (r = 0 \<longleftrightarrow> xs = ys)"
proof (induction xs arbitrary: p q ys)
  case Nil
  then show ?case by (subst strcmp.simps) (cases ys; auto simp: cstr_Nil cstr_Cons byte_diff_zero byte_diff_zero [of _ 0, simplified])
next
  case (Cons x xs)
  then show ?case
    by (subst strcmp.simps) (cases ys; auto simp: cstr_Nil cstr_Cons byte_diff_zero byte_diff_zero [of _ 0, simplified])
qed

lemma atoi_from_ok:
  "\<forall>i < length xs. m (s + i) = xs ! i \<Longrightarrow> \<forall>x \<in> set xs. 48 \<le> uint x \<and> uint x \<le> 57 \<Longrightarrow>
   \<not> (48 \<le> uint (m (s + length xs)) \<and> uint (m (s + length xs)) \<le> 57) \<Longrightarrow>
   (\<forall>k \<le> length xs. int_range (decimal n (take k xs))) \<Longrightarrow> atoi_from n s m = Some (decimal n xs)"
proof (induction xs arbitrary: n s)
  case Nil
  then show ?case by (subst atoi_from.simps) auto
next
  case (Cons x xs)
  have "m s = x" using Cons.prems(1) by auto
  moreover have "int_range (n * 10 + (uint x - 48))" using Cons.prems(4) [rule_format, of 1] by simp
  then have "i32 (n * 10 + uint x - 48) = n * 10 + (uint x - 48)" by (simp add: algebra_simps)
  moreover have "atoi_from (n * 10 + (uint x - 48)) (s + 1) m = Some (decimal (n * 10 + (uint x - 48)) xs)"
  proof (rule Cons.IH)
    show "\<forall>k \<le> length xs. int_range (decimal (n * 10 + (uint x - 48)) (take k xs))"
    proof (intro allI impI)
      fix k assume "k \<le> length xs"
      then show "int_range (decimal (n * 10 + (uint x - 48)) (take k xs))"
        using Cons.prems(4) [rule_format, of "Suc k"] by simp
    qed
    show "\<forall>i < length xs. m (s + 1 + i) = xs ! i" using Cons.prems(1) by (auto simp: nth_Cons')
  qed (use Cons.prems in auto)
  ultimately show ?case using Cons.prems(2) by (subst atoi_from.simps) simp
qed



text \<open>\<open>atoi\<close> returns the decimal value of the leading digits, as long as no prefix overflows an
  \<open>int\<close>.\<close>

theorem atoi_value:
  assumes "\<forall>i < length xs. m (s + i) = xs ! i" "\<forall>x \<in> set xs. 48 \<le> uint x \<and> uint x \<le> 57"
    and "\<not> (48 \<le> uint (m (s + length xs)) \<and> uint (m (s + length xs)) \<le> 57)"
    and "\<forall>k \<le> length xs. int_range (decimal 0 (take k xs))"
  shows "atoi s m = Some (decimal 0 xs)"
  using atoi_from_ok [OF assms] by (simp add: atoi_def)

theorem atoi_value_witness: "atoi 0 (\<lambda>a. [52, 50, 0] ! a) = Some 42"
  using atoi_value [of "[52, 50]" "\<lambda>a. [52, 50, 0] ! a" 0]
  by (simp add: All_less_Suc int_range_def le_Suc_eq)

end
