(* ===== verification/Kalloc.thy ===== *)
theory Kalloc
  imports Console Strings
begin

text \<open>
  Physical memory and the page allocator (\<open>src/xv6-public/kalloc.c\<close>). The kernel reaches physical
  memory through the direct map at \<open>KERNBASE\<close>: \<open>kp v\<close> is the physical address behind the kernel pointer
  \<open>v\<close>. The free pages form a list that is threaded through the pages themselves, the first word of a
  free page is the pointer to the next one.

  \<open>flist m v ps\<close> states that the chain that starts at \<open>v\<close> runs through exactly the pages \<open>ps\<close>. The
  lemmas show that \<open>kfree\<close> and \<open>kalloc\<close> are push and pop of a stack of pages, and that they touch no
  memory but that of the page at hand.
\<close>

section \<open>Words in memory\<close>

definition load32 :: "bmem \<Rightarrow> nat \<Rightarrow> uint" where
  "load32 m a = ucast (m a) OR push_bit 8 (ucast (m (a + 1))) OR push_bit 16 (ucast (m (a + 2)))
     OR push_bit 24 (ucast (m (a + 3)))"

definition kp :: "uint \<Rightarrow> nat" where
  "kp v = unat (V2P v)"

definition upd_mem :: "(bmem \<Rightarrow> bmem) \<Rightarrow> 'a kstate_scheme \<Rightarrow> 'a kstate_scheme" where
  "upd_mem f s = upd_mm (\<lambda>k. k\<lparr>mem := f (mem k)\<rparr>) s"

definition rd32 :: "uint \<Rightarrow> (uint, 'a kstate_scheme) code" where
  "rd32 v = kget (\<lambda>s. load32 (mem (mm s)) (kp v))"

definition wr32 :: "uint \<Rightarrow> uint \<Rightarrow> (unit, 'a kstate_scheme) code" where
  "wr32 v w = kmod (upd_mem (store32 (kp v) w))"

section \<open>The allocator\<close>

abbreviation PGSIZE :: nat where "PGSIZE \<equiv> 4096"
abbreviation PHYSTOP :: uint where "PHYSTOP \<equiv> 0xE000000"

definition kfree :: "uint \<Rightarrow> (unit, 'a kstate_scheme) code" where
  "kfree v =
     kbind (kget (\<lambda>s. kend (mm s))) (\<lambda>e.
     if v mod 4096 \<noteq> 0 \<or> v < e \<or> V2P v \<ge> PHYSTOP then kpanic ''kfree''
     else
       kthen (kmod (upd_mem (memset (kp v) 1 PGSIZE))) (
       kbind (kget (\<lambda>s. use_lock (mm s))) (\<lambda>ul.
       kthen (kwhen ul (acquire LKmem)) (
       kbind (kget (\<lambda>s. freelist (mm s))) (\<lambda>fp.
       kthen (wr32 v fp) (
       kthen (kmod (upd_mm (\<lambda>k. k\<lparr>freelist := v\<rparr>))) (
       kwhen ul (release LKmem)))))))) "

definition kalloc :: "(uint, 'a kstate_scheme) code" where
  "kalloc =
     kbind (kget (\<lambda>s. use_lock (mm s))) (\<lambda>ul.
     kthen (kwhen ul (acquire LKmem)) (
     kbind (kget (\<lambda>s. freelist (mm s))) (\<lambda>r.
     kthen (kwhen (r \<noteq> 0) (kbind (rd32 r) (\<lambda>n. kmod (upd_mm (\<lambda>k. k\<lparr>freelist := n\<rparr>))))) (
     kthen (kwhen ul (release LKmem)) (
     kreturn r)))))"

definition PGROUNDUP :: "uint \<Rightarrow> uint" where
  "PGROUNDUP sz = (sz + 4095) AND NOT 4095"

definition PGROUNDDOWN :: "uint \<Rightarrow> uint" where
  "PGROUNDDOWN a = a AND NOT 4095"

text \<open>The pages \<open>p, p + PGSIZE, ...\<close> that end at or below \<open>vend\<close>.\<close>

definition page_range :: "uint \<Rightarrow> uint \<Rightarrow> uint list" where
  "page_range p vend = map (\<lambda>i. p + of_nat (PGSIZE * i)) [0..<(unat vend - unat p) div PGSIZE]"

definition freerange :: "uint \<Rightarrow> uint \<Rightarrow> (unit, 'a kstate_scheme) code" where
  "freerange vstart vend = kiter kfree (page_range (PGROUNDUP vstart) vend)"

definition kinit1 :: "uint \<Rightarrow> uint \<Rightarrow> (unit, 'a kstate_scheme) code" where
  "kinit1 vstart vend =
     kthen (initlock LKmem) (
     kthen (kmod (upd_mm (\<lambda>k. k\<lparr>use_lock := False\<rparr>)))
     (freerange vstart vend))"

definition kinit2 :: "uint \<Rightarrow> uint \<Rightarrow> (unit, 'a kstate_scheme) code" where
  "kinit2 vstart vend =
     kthen (freerange vstart vend)
     (kmod (upd_mm (\<lambda>k. k\<lparr>use_lock := True\<rparr>)))"

text \<open>The chain of free pages.\<close>

definition page_ok :: "uint \<Rightarrow> uint \<Rightarrow> bool" where
  "page_ok e v \<longleftrightarrow> v mod 4096 = 0 \<and> e \<le> v \<and> V2P v < PHYSTOP \<and> 0x80000000 \<le> v"

fun flist :: "bmem \<Rightarrow> uint \<Rightarrow> uint list \<Rightarrow> bool" where
  "flist m v [] \<longleftrightarrow> v = 0"
| "flist m v (p # ps) \<longleftrightarrow> v = p \<and> flist m (load32 m (kp p)) ps"

definition kmem_inv :: "kmemory \<Rightarrow> uint list \<Rightarrow> bool" where
  "kmem_inv k ps \<longleftrightarrow> 0x80000000 \<le> kend k \<and> flist (mem k) (freelist k) ps \<and> distinct ps \<and> (\<forall>p \<in> set ps. page_ok (kend k) p)"

definition kmem_post :: "nat \<Rightarrow> lockid set \<Rightarrow> uint set \<Rightarrow> 'a kstate_scheme \<Rightarrow> 'a kstate_scheme \<Rightarrow> bool" where
  "kmem_post p L vs s t \<longleftrightarrow> ctx p L t \<and> krest t = krest s
     \<and> use_lock (mm t) = use_lock (mm s) \<and> kend (mm t) = kend (mm s) \<and> kdata (mm t) = kdata (mm s)
     \<and> (\<forall>a. (\<forall>v \<in> vs. a < kp v \<or> kp v + 4096 \<le> a) \<longrightarrow> mem (mm t) a = mem (mm s) a)"

text \<open>Repeating an operation and collecting its results.\<close>

primrec ktimes :: "nat \<Rightarrow> ('r, 's) code \<Rightarrow> ('r list, 's) code" where
  "ktimes 0 m = kreturn []"
| "ktimes (Suc n) m = kbind m (\<lambda>r. kbind (ktimes n m) (\<lambda>rs. kreturn (r # rs)))"

text \<open>An allocator with two free pages.\<close>

definition two_pages :: kstate where
  "two_pages = upd_mm (\<lambda>k. k\<lparr>mem := store32 0x300000 0x80301000 (\<lambda>_. 0), freelist := 0x80300000\<rparr>) machine"

section \<open>Laws of memory words\<close>

lemma load32_store32_same: "load32 (store32 a w m) a = w"
proof (rule bit_word_eqI)
  fix n :: nat assume "n < LENGTH(32)"
  then consider "n < 8" | "8 \<le> n" "n < 16" | "16 \<le> n" "n < 24" | "24 \<le> n" "n < 32" by fastforce
  then show "bit (load32 (store32 a w m) a) n = bit w n"
    by cases (auto simp: load32_def store32_def bit_simps)
qed

lemma load32_cong: "m a = m' a \<Longrightarrow> m (a + 1) = m' (a + 1) \<Longrightarrow> m (a + 2) = m' (a + 2) \<Longrightarrow> m (a + 3) = m' (a + 3) \<Longrightarrow>
   load32 m a = load32 m' a"
  by (simp add: load32_def)

lemma store32_other: "c < a \<or> a + 4 \<le> c \<Longrightarrow> store32 a w m c = m c"
  by (auto simp: store32_def)

lemma load32_store32_other: "b + 4 \<le> a \<or> a + 4 \<le> b \<Longrightarrow> load32 (store32 a w m) b = load32 m b"
  by (rule load32_cong; rule store32_other; linarith)

lemma upd_mem_fields [simp]:
  "mm (upd_mem f s) = (mm s)\<lparr>mem := f (mem (mm s))\<rparr>" "con (upd_mem f s) = con s" "ic (upd_mem f s) = ic s"
  "fl (upd_mem f s) = fl s" "pt (upd_mem f s) = pt s" "ctx p L (upd_mem f s) = ctx p L s"
  "slocks (upd_mem f s) = slocks s" "bufs (upd_mem f s) = bufs s" "lg (upd_mem f s) = lg s" "disk (upd_mem f s) = disk s"
  "my_ncli (upd_mem f s) = my_ncli s" "quiet p (upd_mem f s) = quiet p s" "ticks (upd_mem f s) = ticks s"
  by (simp_all add: upd_mem_def)

section \<open>The free list\<close>

lemma flist_cong: "\<forall>p \<in> set ps. load32 m (kp p) = load32 m' (kp p) \<Longrightarrow> flist m v ps = flist m' v ps"
  by (induction ps arbitrary: v) auto

lemma page_ok_nat:
  assumes "page_ok e v"
  shows "kp v = unat v - 2 ^ 31" "2 ^ 31 \<le> unat v" "kp v mod 4096 = 0" "v \<noteq> 0"
proof -
  have ge: "0x80000000 \<le> v" and m: "v mod 4096 = 0" using assms by (auto simp: page_ok_def)
  have "unat (v mod 4096) = 0" using m by simp
  then have um: "unat v mod 4096 = 0" by (simp add: unat_mod_distrib)
  show k: "kp v = unat v - 2 ^ 31" using ge by (simp add: kp_def V2P_def unat_sub)
  show g: "2 ^ 31 \<le> unat v" using ge by (simp add: word_le_nat_alt)
  show "kp v mod 4096 = 0"
  proof -
    obtain j where "unat v = 4096 * j" using um by (metis mod_0_imp_dvd dvdE)
    then have "kp v = 4096 * (j - 524288)" using k by (simp add: diff_mult_distrib2)
    then show ?thesis by simp
  qed
  show "v \<noteq> 0" using g by auto
qed

lemma pages_disjoint:
  assumes "page_ok e v" "page_ok e' w" "v \<noteq> w"
  shows "kp w + 4096 \<le> kp v \<or> kp v + 4096 \<le> kp w"
proof -
  note v = page_ok_nat [OF assms(1)] and w = page_ok_nat [OF assms(2)]
  have "unat v \<noteq> unat w" using assms(3) by (auto dest: unsigned_word_eqI)
  then have ne: "kp v \<noteq> kp w" using v w by linarith
  obtain i j where "kp v = 4096 * i" "kp w = 4096 * j" using v(3) w(3) by (metis mod_0_imp_dvd dvdE)
  then show ?thesis using ne by (cases "i < j") auto
qed

lemma kalloc_ok:
  assumes "ctx p L s" "LKmem \<notin> L" "kmem_inv (mm s) ps"
  shows "wp kalloc (\<lambda>r t. kmem_post p L {} s t \<and> mem (mm t) = mem (mm s)
    \<and> kmem_inv (mm t) (tl ps) \<and> r = (case ps of [] \<Rightarrow> 0 | v # _ \<Rightarrow> v)) s"
proof -
  note inv = assms(3) [unfolded kmem_inv_def]
  have r: "freelist (mm s) = (case ps of [] \<Rightarrow> 0 | v # _ \<Rightarrow> v)" using inv by (cases ps) auto
  have nz: "v \<noteq> 0" if "ps = v # qs" for v qs using inv that page_ok_nat(4) by auto
  let ?P = "\<lambda>t r. kmem_post p L {} s t \<and> mem (mm t) = mem (mm s) \<and> kmem_inv (mm t) (tl ps) \<and> r = (case ps of [] \<Rightarrow> 0 | v # _ \<Rightarrow> v)"
  note c = ctx_acq [OF assms(1,2)]
  show ?thesis
  proof (cases ps)
    case Nil
    have fl: "freelist (mm s) = 0" using r Nil by simp
    show ?thesis
    proof (cases "use_lock (mm s)")
      case True
      show ?thesis
        unfolding kalloc_def wps
        apply (simp add: wps True)
        apply (rule wp_acquire [OF assms(1,2)])
        apply (simp add: fl)
        apply (rule wp_release [OF c])
         apply simp
        using assms(3) Nil ctx_rel [OF c] assms(2) by (simp add: kmem_post_def)
    next
      case False
      show ?thesis using fl False assms(1,3) Nil by (simp add: kalloc_def wps kmem_post_def)
    qed
  next
    case (Cons v qs)
    have fl: "freelist (mm s) = v" "v \<noteq> 0" using r Cons nz by auto
    have inv': "kmem_inv ((mm s)\<lparr>freelist := load32 (mem (mm s)) (kp v)\<rparr>) qs"
      using inv Cons by (simp add: kmem_inv_def)
    show ?thesis
    proof (cases "use_lock (mm s)")
      case True
      let ?s = "upd_mm (\<lambda>k. k\<lparr>freelist := load32 (mem (mm s)) (kp v)\<rparr>) (acq LKmem s)"
      have c': "ctx p (insert LKmem L) ?s" using c by simp
      show ?thesis
        unfolding kalloc_def wps
        apply (simp add: wps True)
        apply (rule wp_acquire [OF assms(1,2)])
        apply (simp add: fl rd32_def wps)
        apply (rule wp_release [OF c'])
         apply simp
        using inv' Cons ctx_rel [OF c' assms(2)] by (simp add: kmem_post_def)
    next
      case False
      show ?thesis using fl False assms(1) inv' Cons by (simp add: kalloc_def wps kmem_post_def rd32_def)
    qed
  qed
qed

lemma kfree_ok:
  assumes "ctx p L s" "LKmem \<notin> L" "kmem_inv (mm s) ps" "page_ok (kend (mm s)) v" "v \<notin> set ps"
  shows "wp (kfree v) (\<lambda>_ t. kmem_post p L {v} s t \<and> kmem_inv (mm t) (v # ps)) s"
proof -
  note inv = assms(3) [unfolded kmem_inv_def]
  note v = assms(4) [unfolded page_ok_def]
  have chk: "v mod 4096 = 0" "\<not> v < kend (mm s)" "\<not> PHYSTOP \<le> V2P v" using v by (auto simp: not_le not_less)
  let ?f = "\<lambda>m. store32 (kp v) (freelist (mm s)) (memset (kp v) 1 4096 m)"
  have out: "?f m a = m a" if "a < kp v \<or> kp v + 4096 \<le> a" for m a
    using that by (auto simp: store32_other memset_apply)
  have ld: "load32 (?f m) (kp q) = load32 m (kp q)" if "q \<in> set ps" for m q
  proof -
    have d: "kp q + 4096 \<le> kp v \<or> kp v + 4096 \<le> kp q"
      using pages_disjoint [OF assms(4), of "kend (mm s)" q] inv that assms(5) by auto
    show ?thesis by (rule load32_cong; rule out) (use d in auto)
  qed
  let ?k = "(mm s)\<lparr>mem := ?f (mem (mm s)), freelist := v\<rparr>"
  have inv': "kmem_inv ?k (v # ps)"
    using inv assms(4,5) flist_cong [of ps "?f (mem (mm s))" "mem (mm s)" "freelist (mm s)"] ld
    by (simp add: kmem_inv_def load32_store32_same)
  show ?thesis
  proof (cases "use_lock (mm s)")
    case True
    let ?s = "upd_mm (\<lambda>k. k\<lparr>freelist := v\<rparr>) (upd_mem (store32 (kp v) (freelist (mm s))) (acq LKmem (upd_mem (memset (kp v) 1 4096) s)))"
    have c0: "ctx p L (upd_mem (memset (kp v) 1 4096) s)" using assms(1) by simp
    have c: "ctx p (insert LKmem L) ?s" using ctx_acq [OF c0 assms(2)] by simp
    show ?thesis
      unfolding kfree_def wps
      apply (simp add: chk wps True del: not_le not_less)
      apply (rule wp_acquire [OF c0 assms(2)])
      apply (simp add: wr32_def wps)
      apply (rule wp_release [OF c])
       apply simp
      using inv' ctx_rel [OF c assms(2)] out by (simp add: kmem_post_def upd_mem_def)
  next
    case False
    show ?thesis
      unfolding kfree_def wps
      apply (simp add: chk wps False wr32_def del: not_le not_less)
      using inv' assms(1) out by (simp add: kmem_post_def upd_mem_def)
  qed
qed

section \<open>The contract of a page allocator\<close>

text \<open>\<open>inv s ps\<close>: the allocator in state \<open>s\<close> holds the free pages \<open>ps\<close>.\<close>

locale page_pool =
  fixes inv :: "'s \<Rightarrow> uint list \<Rightarrow> bool" and fits :: "uint \<Rightarrow> bool"
    and alloc :: "(uint, 's) code" and free :: "uint \<Rightarrow> (unit, 's) code"
  assumes alloc_page: "inv s (v # ps) \<Longrightarrow> wp alloc (\<lambda>r t. r = v \<and> inv t ps) s"
    and alloc_none: "inv s [] \<Longrightarrow> wp alloc (\<lambda>r t. r = 0 \<and> inv t []) s"
    and free_page: "inv s ps \<Longrightarrow> fits v \<Longrightarrow> v \<notin> set ps \<Longrightarrow> wp (free v) (\<lambda>_ t. inv t (v # ps)) s"
    and pool_distinct: "inv s ps \<Longrightarrow> distinct ps \<and> 0 \<notin> set ps"
begin

lemma alloc_times:
  "inv s ps \<Longrightarrow> wp (ktimes n alloc) (\<lambda>rs t. rs = take n ps @ replicate (n - length ps) 0 \<and> inv t (drop n ps)) s"
proof (induction n arbitrary: s ps)
  case 0
  then show ?case by (simp add: wps)
next
  case (Suc n)
  show ?case
  proof (cases ps)
    case Nil
    have "wp alloc (\<lambda>r t. r = 0 \<and> inv t []) s" using alloc_none Suc.prems Nil by simp
    then show ?thesis
      unfolding ktimes.simps wps by (rule wp_mono) (use Suc.IH [of _ "[]"] Nil in \<open>auto simp: wps elim!: wp_mono\<close>)
  next
    case (Cons v qs)
    have "wp alloc (\<lambda>r t. r = v \<and> inv t qs) s" using alloc_page Suc.prems Cons by simp
    then show ?thesis
      unfolding ktimes.simps wps by (rule wp_mono) (use Suc.IH [of _ qs] Cons in \<open>auto simp: wps elim!: wp_mono\<close>)
  qed
qed

lemma free_alloc:
  assumes "inv s ps" "fits v" "v \<notin> set ps"
  shows "wp (kthen (free v) alloc) (\<lambda>r t. r = v \<and> inv t ps) s"
  unfolding wps by (rule wp_mono [OF free_page [OF assms]]) (rule alloc_page)

lemma free_all:
  "inv s ps \<Longrightarrow> \<forall>v \<in> set vs. fits v \<Longrightarrow> distinct vs \<Longrightarrow> set vs \<inter> set ps = {} \<Longrightarrow>
   wp (kiter free vs) (\<lambda>_ t. inv t (rev vs @ ps)) s"
proof (induction vs arbitrary: s ps)
  case (Cons v vs)
  have "wp (free v) (\<lambda>_ t. inv t (v # ps)) s" using Cons.prems by (intro free_page) auto
  then show ?case
    unfolding kiter.simps wps by (rule wp_mono) (use Cons.IH [of _ "v # ps"] Cons.prems in auto)
qed (simp add: wps)

end

interpretation kpool: page_pool
  "\<lambda>s ps. ctx p L s \<and> LKmem \<notin> L \<and> kmem_inv (mm s) ps \<and> kend (mm s) = e \<and> krest s = r" "page_ok e" kalloc kfree
  for p L e r
proof
  fix s :: "'a kstate_scheme" and v ps
  assume "ctx p L s \<and> LKmem \<notin> L \<and> kmem_inv (mm s) (v # ps) \<and> kend (mm s) = e \<and> krest s = r"
  then show "wp kalloc (\<lambda>q t. q = v \<and> ctx p L t \<and> LKmem \<notin> L \<and> kmem_inv (mm t) ps \<and> kend (mm t) = e \<and> krest t = r) s"
    by (intro wp_mono [OF kalloc_ok]) (auto simp: kmem_post_def)
next
  fix s :: "'a kstate_scheme"
  assume "ctx p L s \<and> LKmem \<notin> L \<and> kmem_inv (mm s) [] \<and> kend (mm s) = e \<and> krest s = r"
  then show "wp kalloc (\<lambda>q t. q = 0 \<and> ctx p L t \<and> LKmem \<notin> L \<and> kmem_inv (mm t) [] \<and> kend (mm t) = e \<and> krest t = r) s"
    by (intro wp_mono [OF kalloc_ok]) (auto simp: kmem_post_def)
next
  fix s :: "'a kstate_scheme" and ps v
  assume "ctx p L s \<and> LKmem \<notin> L \<and> kmem_inv (mm s) ps \<and> kend (mm s) = e \<and> krest s = r" "page_ok e v" "v \<notin> set ps"
  then show "wp (kfree v) (\<lambda>_ t. ctx p L t \<and> LKmem \<notin> L \<and> kmem_inv (mm t) (v # ps) \<and> kend (mm t) = e \<and> krest t = r) s"
    by (intro wp_mono [OF kfree_ok]) (auto simp: kmem_post_def)
next
  fix s :: "'a kstate_scheme" and ps
  assume "ctx p L s \<and> LKmem \<notin> L \<and> kmem_inv (mm s) ps \<and> kend (mm s) = e \<and> krest s = r"
  then show "distinct ps \<and> 0 \<notin> set ps" using page_ok_nat(4) by (fastforce simp: kmem_inv_def)
qed

text \<open>The pages of a range are good pages when the range lies in the free memory.\<close>

lemma page_range_ok:
  assumes "p mod 4096 = 0" "0x80000000 \<le> e" "e \<le> p" "vend \<le> 0x80000000 + PHYSTOP"
  shows "\<forall>v \<in> set (page_range p vend). page_ok e v" "distinct (page_range p vend)"
proof -
  let ?n = "(unat vend - unat p) div 4096"
  have ve: "unat vend \<le> 0x8E000000" using assms(4) by (simp add: word_le_nat_alt)
  have pe: "unat e \<le> unat p" "0x80000000 \<le> unat e" using assms(2,3) by (simp_all add: word_le_nat_alt)
  have pm: "unat p mod 4096 = 0" 
  proof -
    have "unat (p mod 4096) = 0" using assms(1) by simp
    then show ?thesis by (simp add: unat_mod_distrib)
  qed
  have un: "unat (p + of_nat (4096 * i)) = unat p + 4096 * i" "unat p + 4096 * i < 0x8E000000" if "i < ?n" for i
  proof -
    have "4096 * i + 4096 \<le> unat vend - unat p" 
    proof -
      have "Suc i \<le> ?n" using that by simp
      then have "4096 * Suc i \<le> 4096 * ?n" by (rule mult_le_mono2)
      also have "\<dots> \<le> unat vend - unat p" by simp
      finally show ?thesis by simp
    qed
    then show b: "unat p + 4096 * i < 0x8E000000" using ve by linarith
    then show "unat (p + of_nat (4096 * i)) = unat p + 4096 * i" by (simp add: unat_word_ariths unat_of_nat)
  qed
  show "distinct (page_range p vend)"
    unfolding page_range_def distinct_map
  proof (intro conjI inj_onI)
    fix i j assume ij: "i \<in> set [0..<?n]" "j \<in> set [0..<?n]" "p + of_nat (4096 * i) = p + of_nat (4096 * j)"
    then have "unat p + 4096 * i = unat p + 4096 * j" using un(1) by (metis atLeastLessThan_iff set_upt)
    then show "i = j" by simp
  qed simp
  show "\<forall>v \<in> set (page_range p vend). page_ok e v"
  proof
    fix v assume "v \<in> set (page_range p vend)"
    then obtain i where i: "i < ?n" and v: "v = p + of_nat (4096 * i)" by (auto simp: page_range_def)
    have u: "unat v = unat p + 4096 * i" using un(1) [OF i] v by simp
    have "unat (v mod 4096) = 0" using u pm by (simp add: unat_mod_distrib mod_add_eq [symmetric])
    then have m: "v mod 4096 = 0" by (simp add: unat_eq_0)
    have ge: "e \<le> v" "0x80000000 \<le> v" using u pe by (simp_all add: word_le_nat_alt)
    then have "unat (V2P v) = unat v - 0x80000000" by (simp add: V2P_def unat_sub)
    then have "V2P v < PHYSTOP" using u un(2) [OF i] by (simp add: word_less_nat_alt)
    then show "page_ok e v" using m ge by (simp add: page_ok_def)
  qed
qed


text \<open>Freeing a page and allocating again gives the same page back and leaves the same free list; the page
  may be any page of free memory that is not on the list already.\<close>

theorem kfree_kalloc:
  assumes "ctx p L s" "LKmem \<notin> L" "kmem_inv (mm s) ps" "page_ok (kend (mm s)) v" "v \<notin> set ps"
  shows "wp (kthen (kfree v) kalloc) (\<lambda>r t. r = v \<and> kmem_inv (mm t) ps \<and> krest t = krest s \<and> ctx p L t) s"
  by (rule wp_mono [OF kpool.free_alloc [of p L s ps "kend (mm s)" "krest s" v]]) (use assms in auto)

text \<open>\<open>freerange\<close>, the body of \<open>kinit1\<close> and \<open>kinit2\<close>, adds every page of the range to the free list, the highest first; a
  range that starts above the kernel image and ends at the top of physical memory satisfies its conditions.\<close>

theorem freerange_adds:
  assumes "ctx p L s" "LKmem \<notin> L" "kmem_inv (mm s) ps" "kend (mm s) \<le> PGROUNDUP vstart" "vend \<le> 0x80000000 + PHYSTOP"
    and "set (page_range (PGROUNDUP vstart) vend) \<inter> set ps = {}"
  shows "wp (freerange vstart vend) (\<lambda>_ t. kmem_inv (mm t) (rev (page_range (PGROUNDUP vstart) vend) @ ps) \<and> krest t = krest s) s"
proof -
  have al: "PGROUNDUP vstart mod 4096 = 0"
  proof -
    have "take_bit 12 (PGROUNDUP vstart) = 0"
      unfolding PGROUNDUP_def by (rule bit_word_eqI) (auto simp: bit_simps)
    then show ?thesis by (simp add: take_bit_eq_mod)
  qed
  have e: "0x80000000 \<le> kend (mm s)" using assms(3) by (simp add: kmem_inv_def)
  note r = page_range_ok [OF al e assms(4,5)]
  show ?thesis
    unfolding freerange_def
    by (rule wp_mono [OF kpool.free_all [of p L s ps "kend (mm s)" "krest s"]]) (use assms r in auto)
qed

lemma two_pages_inv: "kmem_inv (mm two_pages) [0x80300000, 0x80301000]" "ctx 0 {} two_pages"
proof -
  have k: "kp 0x80300000 = 0x300000" "kp 0x80301000 = 0x301000" by (simp_all add: kp_def V2P_def)
  have "load32 (store32 0x300000 0x80301000 (\<lambda>_. 0)) 0x301000 = 0"
    by (subst load32_store32_other) (simp_all add: load32_def)
  then show "kmem_inv (mm two_pages) [0x80300000, 0x80301000]"
    by (simp add: two_pages_def kmem_inv_def k load32_store32_same page_ok_def V2P_def) (simp add: machine_def)
  show "ctx 0 {} two_pages" by (simp add: two_pages_def)
qed


theorem kfree_kalloc_witness: "wp (kthen (kfree 0x80302000) kalloc) (\<lambda>r t. r = 0x80302000) two_pages"
proof -
  have "page_ok (kend (mm two_pages)) 0x80302000" by (simp add: two_pages_def machine_def page_ok_def V2P_def)
  then show ?thesis
    by (intro wp_mono [OF kfree_kalloc [OF two_pages_inv(2) _ two_pages_inv(1), where v = "0x80302000"]]) auto
qed

theorem freerange_adds_witness:
  "wp (freerange 0x80302FFF 0x80304800) (\<lambda>_ t. kmem_inv (mm t) [0x80303000, 0x80300000, 0x80301000]) two_pages"
proof -
  have u: "PGROUNDUP 0x80302FFF = 0x80303000" by (simp add: PGROUNDUP_def)
  have r: "page_range 0x80303000 0x80304800 = [0x80303000]" by (simp add: page_range_def)
  show ?thesis
    by (rule wp_mono [OF freerange_adds [OF two_pages_inv(2) _ two_pages_inv(1), where vstart = "0x80302FFF" and vend = "0x80304800"]])
      (simp_all add: u r, simp add: two_pages_def machine_def)
qed

end
