(* ===== verification/Vm.thy ===== *)
theory Vm
  imports Kalloc
begin

text \<open>
  Page tables (\<open>src/xv6-public/vm.c\<close>, \<open>mmu.h\<close>). A page directory is the kernel address of its page, a
  page-table entry pointer \<open>pte_t *\<close> is the kernel address of the entry, \<open>None\<close> the null pointer.
  \<open>loaduvm\<close> is in \<open>Exec\<close>, it reads an inode.

  The paging hardware is \<open>kva\<close>: the physical byte behind a virtual address of the current address
  space, as the kernel may read or write it. \<open>vread\<close> and \<open>vwrite\<close> are accesses to user or kernel
  memory by virtual address; a page fault in the kernel ends in \<open>panic("trap")\<close>.
\<close>

section \<open>Addresses and entries\<close>

abbreviation KERNBASE :: uint where "KERNBASE \<equiv> 0x80000000"
abbreviation EXTMEM :: uint where "EXTMEM \<equiv> 0x100000"
abbreviation KERNLINK :: uint where "KERNLINK \<equiv> 0x80100000"
abbreviation DEVSPACE :: uint where "DEVSPACE \<equiv> 0xFE000000"
abbreviation PTE_P :: uint where "PTE_P \<equiv> 1"
abbreviation PTE_W :: uint where "PTE_W \<equiv> 2"
abbreviation PTE_U :: uint where "PTE_U \<equiv> 4"

definition PDX :: "uint \<Rightarrow> uint" where
  "PDX va = drop_bit 22 va"

definition PTX :: "uint \<Rightarrow> uint" where
  "PTX va = drop_bit 12 va AND 0x3FF"

definition PGADDR :: "uint \<Rightarrow> uint \<Rightarrow> uint \<Rightarrow> uint" where
  "PGADDR d t ofs = push_bit 22 d OR push_bit 12 t OR ofs"

definition PTE_ADDR :: "uint \<Rightarrow> uint" where
  "PTE_ADDR pte = pte AND NOT 0xFFF"

definition PTE_FLAGS :: "uint \<Rightarrow> uint" where
  "PTE_FLAGS pte = pte AND 0xFFF"

section \<open>Walking and mapping\<close>

definition walkpgdir :: "uint \<Rightarrow> uint \<Rightarrow> bool \<Rightarrow> (uint option, 'a kstate_scheme) code" where
  "walkpgdir pgdir va alloc =
     (let pde = pgdir + 4 * PDX va in
      kbind (rd32 pde) (\<lambda>e.
      if e AND PTE_P \<noteq> 0 then kreturn (Some (P2V (PTE_ADDR e) + 4 * PTX va))
      else if \<not> alloc then kreturn None
      else
        kbind kalloc (\<lambda>pgtab.
        if pgtab = 0 then kreturn None
        else
          kthen (kmod (upd_mem (memset (kp pgtab) 0 PGSIZE))) (
          kthen (wr32 pde (V2P pgtab OR PTE_P OR PTE_W OR PTE_U)) (
          kreturn (Some (pgtab + 4 * PTX va)))))))"

definition map_page :: "uint \<Rightarrow> uint \<Rightarrow> uint \<Rightarrow> uint \<Rightarrow> (int option, 'a kstate_scheme) code" where
  "map_page pgdir a pa perm =
     kbind (walkpgdir pgdir a True) (\<lambda>p.
     case p of
       None \<Rightarrow> kreturn (Some (-1))
     | Some pte \<Rightarrow>
       kbind (rd32 pte) (\<lambda>e.
       if e AND PTE_P \<noteq> 0 then kpanic ''remap''
       else kthen (wr32 pte (pa OR perm OR PTE_P)) (kreturn None)))"

text \<open>The loop visits the pages from the one of \<open>va\<close> to the one of the last byte.\<close>

definition mappages :: "uint \<Rightarrow> uint \<Rightarrow> uint \<Rightarrow> uint \<Rightarrow> uint \<Rightarrow> (int, 'a kstate_scheme) code" where
  "mappages pgdir va len pa perm =
     (let a = PGROUNDDOWN va; last = PGROUNDDOWN (va + len - 1); n = unat (drop_bit 12 (last - a)) in
      kbind (kfirst (\<lambda>i. map_page pgdir (a + of_nat (PGSIZE * i)) (pa + of_nat (PGSIZE * i)) perm) [0..<Suc n]) (\<lambda>r.
      kreturn (case r of None \<Rightarrow> 0 | Some e \<Rightarrow> e)))"

section \<open>Freeing\<close>

text \<open>\<open>a\<close> only grows below \<open>KERNBASE\<close>; were the sum to wrap around, the loop would never end.\<close>

function dealloc_loop :: "uint \<Rightarrow> uint \<Rightarrow> uint \<Rightarrow> (unit, 'a kstate_scheme) code" where
  "dealloc_loop pgdir a oldsz =
     (if \<not> a < oldsz then kreturn ()
      else
        kbind (walkpgdir pgdir a False) (\<lambda>p.
        case p of
          None \<Rightarrow>
          (let b = PGADDR (PDX a + 1) 0 0 - 4096 + 4096
           in if a < b then dealloc_loop pgdir b oldsz else Spin)
        | Some pte \<Rightarrow>
          kthen (kbind (rd32 pte) (\<lambda>e.
            kwhen (e AND PTE_P \<noteq> 0) (
            if PTE_ADDR e = 0 then kpanic ''kfree''
            else kthen (kfree (P2V (PTE_ADDR e))) (wr32 pte 0))))
          (if a < a + 4096 then dealloc_loop pgdir (a + 4096) oldsz else Spin)))"
  by auto

termination
  by (relation "measure (\<lambda>(pgdir, a, oldsz). unat oldsz - unat a)") (auto simp: word_less_nat_alt)

declare dealloc_loop.simps [simp del]

definition deallocuvm :: "uint \<Rightarrow> uint \<Rightarrow> uint \<Rightarrow> (uint, 'a kstate_scheme) code" where
  "deallocuvm pgdir oldsz newsz =
     (if newsz \<ge> oldsz then kreturn oldsz
      else kthen (dealloc_loop pgdir (PGROUNDUP newsz) oldsz) (kreturn newsz))"

definition freevm :: "uint \<Rightarrow> (unit, 'a kstate_scheme) code" where
  "freevm pgdir =
     (if pgdir = 0 then kpanic ''freevm: no pgdir''
      else
        kthen (deallocuvm pgdir KERNBASE 0) (
        kthen (kiter (\<lambda>i.
          kbind (rd32 (pgdir + 4 * of_nat i)) (\<lambda>e.
          kwhen (e AND PTE_P \<noteq> 0) (kfree (P2V (PTE_ADDR e))))) [0..<1024]) (
        kfree pgdir)))"

section \<open>Address spaces\<close>

definition kmap :: "uint \<Rightarrow> (uint \<times> uint \<times> uint \<times> uint) list" where
  "kmap data =
     [(KERNBASE, 0, EXTMEM, PTE_W),
      (KERNLINK, V2P KERNLINK, V2P data, 0),
      (data, V2P data, PHYSTOP, PTE_W),
      (DEVSPACE, DEVSPACE, 0, PTE_W)]"

definition setupkvm :: "(uint, 'a kstate_scheme) code" where
  "setupkvm =
     kbind kalloc (\<lambda>pgdir.
     if pgdir = 0 then kreturn 0
     else
       kthen (kmod (upd_mem (memset (kp pgdir) 0 PGSIZE))) (
       if P2V PHYSTOP > DEVSPACE then kpanic ''PHYSTOP too high''
       else
         kbind (kget (\<lambda>s. kdata (mm s))) (\<lambda>data.
         kbind (kfirst (\<lambda>(virt, first, stop, perm).
           kbind (mappages pgdir virt (stop - first) first perm) (\<lambda>r.
           if r < 0 then kthen (freevm pgdir) (kreturn (Some ())) else kreturn None)) (kmap data)) (\<lambda>r.
         kreturn (case r of None \<Rightarrow> pgdir | Some _ \<Rightarrow> 0)))))"

definition kvmalloc :: "(unit, 'a kstate_scheme) code" where
  "kvmalloc =
     kbind setupkvm (\<lambda>d.
     kthen (kmod (upd_pt (\<lambda>t. t\<lparr>kpgdir := d\<rparr>)))
     switchkvm)"

text \<open>Writing a sequence of bytes, as \<open>memmove\<close> from a kernel buffer does.\<close>

primrec write_bytes :: "nat \<Rightarrow> uchar list \<Rightarrow> bmem \<Rightarrow> bmem" where
  "write_bytes a [] m = m"
| "write_bytes a (b # bs) m = write_bytes (a + 1) bs (m(a := b))"

text \<open>A null result of \<open>kalloc\<close> is not tested here; using it would be an access to unmapped memory.\<close>

definition inituvm :: "uint \<Rightarrow> uchar list \<Rightarrow> (unit, 'a kstate_scheme) code" where
  "inituvm pgdir init =
     (if length init \<ge> PGSIZE then kpanic ''inituvm: more than a page''
      else
        kbind kalloc (\<lambda>pg.
        if pg = 0 then kfault ''inituvm''
        else
          kthen (kmod (upd_mem (memset (kp pg) 0 PGSIZE))) (
          kbind (mappages pgdir 0 4096 (V2P pg) (PTE_W OR PTE_U)) (\<lambda>_.
          kmod (upd_mem (write_bytes (kp pg) init))))))"

definition allocuvm :: "uint \<Rightarrow> uint \<Rightarrow> uint \<Rightarrow> (uint, 'a kstate_scheme) code" where
  "allocuvm pgdir oldsz newsz =
     (if newsz \<ge> KERNBASE then kreturn 0
      else if newsz < oldsz then kreturn oldsz
      else
        (let a = PGROUNDUP oldsz in
         kbind (kfirst (\<lambda>i.
           kbind kalloc (\<lambda>pg.
           if pg = 0 then
             kthen (cprintf (asc ''allocuvm out of memory'' @ [10]) []) (
             kthen (deallocuvm pgdir newsz oldsz) (kreturn (Some ())))
           else
             kthen (kmod (upd_mem (memset (kp pg) 0 PGSIZE))) (
             kbind (mappages pgdir (a + of_nat (PGSIZE * i)) 4096 (V2P pg) (PTE_W OR PTE_U)) (\<lambda>r.
             if r < 0 then
               kthen (cprintf (asc ''allocuvm out of memory (2)'' @ [10]) []) (
               kthen (deallocuvm pgdir newsz oldsz) (
               kthen (kfree pg) (kreturn (Some ()))))
             else kreturn None))))
           [0..<(unat newsz - unat a + 4095) div PGSIZE]) (\<lambda>r.
         kreturn (case r of None \<Rightarrow> newsz | Some _ \<Rightarrow> 0))))"

definition clearpteu :: "uint \<Rightarrow> uint \<Rightarrow> (unit, 'a kstate_scheme) code" where
  "clearpteu pgdir uva =
     kbind (walkpgdir pgdir uva False) (\<lambda>p.
     case p of
       None \<Rightarrow> kpanic ''clearpteu''
     | Some pte \<Rightarrow> kbind (rd32 pte) (\<lambda>e. wr32 pte (e AND NOT PTE_U)))"

definition copy_page :: "uint \<Rightarrow> uint \<Rightarrow> uint \<Rightarrow> (unit option, 'a kstate_scheme) code" where
  "copy_page pgdir d i =
     kbind (walkpgdir pgdir i False) (\<lambda>p.
     case p of
       None \<Rightarrow> kpanic ''copyuvm: pte should exist''
     | Some pte \<Rightarrow>
       kbind (rd32 pte) (\<lambda>e.
       if e AND PTE_P = 0 then kpanic ''copyuvm: page not present''
       else
         kbind kalloc (\<lambda>pg.
         if pg = 0 then kreturn (Some ())
         else
           kthen (kmod (upd_mem (memmove (kp pg) (kp (P2V (PTE_ADDR e))) PGSIZE))) (
           kbind (mappages d i 4096 (V2P pg) (PTE_FLAGS e)) (\<lambda>r.
           if r < 0 then kthen (kfree pg) (kreturn (Some ())) else kreturn None)))))"

definition copyuvm :: "uint \<Rightarrow> uint \<Rightarrow> (uint, 'a kstate_scheme) code" where
  "copyuvm pgdir sz =
     kbind setupkvm (\<lambda>d.
     if d = 0 then kreturn 0
     else
       kbind (kfirst (\<lambda>i. copy_page pgdir d (of_nat (PGSIZE * i))) [0..<(unat sz + 4095) div PGSIZE]) (\<lambda>r.
       case r of
         None \<Rightarrow> kreturn d
       | Some _ \<Rightarrow> kthen (freevm d) (kreturn 0)))"

text \<open>\<open>*pte\<close> with a null \<open>pte\<close> is a fault: the result of \<open>walkpgdir\<close> is not tested.\<close>

definition uva2ka :: "uint \<Rightarrow> uint \<Rightarrow> (uint, 'a kstate_scheme) code" where
  "uva2ka pgdir uva =
     kbind (walkpgdir pgdir uva False) (\<lambda>p.
     case p of
       None \<Rightarrow> kfault ''uva2ka''
     | Some pte \<Rightarrow>
       kbind (rd32 pte) (\<lambda>e.
       if e AND PTE_P = 0 then kreturn 0
       else if e AND PTE_U = 0 then kreturn 0
       else kreturn (P2V (PTE_ADDR e))))"

lemma page_offset: "unat (va - PGROUNDDOWN va) < PGSIZE"
proof -
  have "va - PGROUNDDOWN va = va AND 4095"
  proof -
    have "PGROUNDDOWN va + (va AND 4095) = PGROUNDDOWN va OR (va AND 4095)"
      unfolding PGROUNDDOWN_def by (rule disjunctive_add_eq_or) (auto intro!: bit_eqI simp: bit_simps)
    also have "\<dots> = va" unfolding PGROUNDDOWN_def by (rule bit_eqI) (auto simp: bit_simps)
    finally have "va = PGROUNDDOWN va + (va AND 4095)" by simp
    then show ?thesis by (metis add_diff_cancel_left')
  qed
  also have "\<dots> = take_bit 12 va" by (simp add: take_bit_eq_mask mask_eq_exp_minus_1)
  finally show ?thesis using take_bit_nat_less_exp [of 12 "unat va"] by (simp add: unsigned_take_bit_eq)
qed

function copyout :: "uint \<Rightarrow> uint \<Rightarrow> uchar list \<Rightarrow> (int, 'a kstate_scheme) code" where
  "copyout pgdir va p =
     (if p = [] then kreturn 0
      else
        (let va0 = PGROUNDDOWN va; n = min (PGSIZE - unat (va - va0)) (length p) in
         kbind (uva2ka pgdir va0) (\<lambda>pa0.
         if pa0 = 0 then kreturn (-1)
         else
           kthen (kmod (upd_mem (write_bytes (kp (pa0 + (va - va0))) (take n p))))
           (copyout pgdir (va0 + 4096) (drop n p)))))"
  by auto

termination
  by (relation "measure (\<lambda>(pgdir, va, p). length p)") (use page_offset in \<open>auto simp: min_def Let_def\<close>)

declare copyout.simps [simp del]

section \<open>The paging hardware\<close>

definition page_entry :: "bmem \<Rightarrow> uint \<Rightarrow> uint \<Rightarrow> (uint \<times> uint) option" where
  "page_entry m dir va =
     (let pde = load32 m (unat dir + 4 * unat (PDX va)) in
      if pde AND PTE_P = 0 then None
      else
        let pte = load32 m (unat (PTE_ADDR pde) + 4 * unat (PTX va)) in
        if pte AND PTE_P = 0 then None else Some (pde, pte))"

definition kva :: "bool \<Rightarrow> 'a kstate_scheme \<Rightarrow> uint \<Rightarrow> nat option" where
  "kva write s va =
     (if va \<ge> KERNBASE then Some (kp va)
      else
        case page_entry (mem (mm s)) (cr3 (pt s)) va of
          None \<Rightarrow> None
        | Some (pde, pte) \<Rightarrow>
          if write \<and> pde AND pte AND PTE_W = 0 then None
          else Some (unat (PTE_ADDR pte) + unat (va AND 0xFFF)))"

definition vread :: "uint \<Rightarrow> nat \<Rightarrow> (uchar list, 'a kstate_scheme) code" where
  "vread va n =
     kbind (kget (\<lambda>s. map (\<lambda>i. map_option (mem (mm s)) (kva False s (va + of_nat i))) [0..<n])) (\<lambda>bs.
     if None \<in> set bs then kpanic ''trap'' else kreturn (map the bs))"

definition vwrite :: "uint \<Rightarrow> uchar list \<Rightarrow> (unit, 'a kstate_scheme) code" where
  "vwrite va bs =
     kbind (kget (\<lambda>s. map (\<lambda>i. kva True s (va + of_nat i)) [0..<length bs])) (\<lambda>as.
     if None \<in> set as then kpanic ''trap''
     else kmod (upd_mem (\<lambda>m. fold (\<lambda>(a, b) m. m(the a := b)) (zip as bs) m)))"

end
