(* ===== verification/Inode.thy ===== *)
theory Inode
  imports Vm
begin

text \<open>
  The lower half of \<open>src/xv6-public/fs.c\<close>: block allocation in the free bit map, the inode cache, the
  block map of an inode with its direct, single, double and triple indirect blocks, and truncation.
  A \<open>struct inode *\<close> is an index of the cache. All block access goes through the buffer cache and the
  log, as in the code.
\<close>

section \<open>Layout (\<open>fs.h\<close>)\<close>

abbreviation ROOTINO :: nat where "ROOTINO \<equiv> 1"
abbreviation NINODE :: nat where "NINODE \<equiv> 50"
abbreviation NDIRECT :: nat where "NDIRECT \<equiv> 10"
abbreviation NINDIRECT :: nat where "NINDIRECT \<equiv> 128"
abbreviation N2INDIRECT :: nat where "N2INDIRECT \<equiv> 16384"
abbreviation N3INDIRECT :: nat where "N3INDIRECT \<equiv> 2097152"
abbreviation MAXFILE :: nat where "MAXFILE \<equiv> NDIRECT + NINDIRECT + N2INDIRECT + N3INDIRECT"
abbreviation T_DIR :: int where "T_DIR \<equiv> 1"
abbreviation T_FILE :: int where "T_FILE \<equiv> 2"
abbreviation T_DEV :: int where "T_DEV \<equiv> 3"
abbreviation IPB :: nat where "IPB \<equiv> 8"
abbreviation BPB :: nat where "BPB \<equiv> 4096"

definition IBLOCK :: "nat \<Rightarrow> superblock \<Rightarrow> nat" where
  "IBLOCK i v = i div IPB + sb_inodestart v"

definition BBLOCK :: "nat \<Rightarrow> superblock \<Rightarrow> nat" where
  "BBLOCK b v = b div BPB + sb_bmapstart v"

text \<open>The on-disk inode: 64 bytes, the fields at offsets 0, 2, 4, 6, 8 and 12.\<close>

record dinode =
  di_type :: int
  di_major :: int
  di_minor :: int
  di_nlink :: int
  di_size :: nat
  di_addrs :: "nat list"

definition get_dinode :: "uchar list \<Rightarrow> nat \<Rightarrow> dinode" where
  "get_dinode d inum =
     (let ofs = 64 * (inum mod IPB) in
      \<lparr>di_type = geti16 d ofs, di_major = geti16 d (ofs + 2), di_minor = geti16 d (ofs + 4), di_nlink = geti16 d (ofs + 6),
       di_size = get32 d (ofs + 8), di_addrs = map (\<lambda>k. get32 d (ofs + 12 + 4 * k)) [0..<NDIRECT + 3]\<rparr>)"

definition put_dinode :: "nat \<Rightarrow> dinode \<Rightarrow> uchar list \<Rightarrow> uchar list" where
  "put_dinode inum di d =
     (let ofs = 64 * (inum mod IPB);
          d = puti16 ofs (di_type di) d;
          d = puti16 (ofs + 2) (di_major di) d;
          d = puti16 (ofs + 4) (di_minor di) d;
          d = puti16 (ofs + 6) (di_nlink di) d;
          d = put32 (ofs + 8) (di_size di) d
      in fold (\<lambda>k. put32 (ofs + 12 + 4 * k) (di_addrs di ! k)) [0..<NDIRECT + 3] d)"

section \<open>Blocks\<close>

definition get_sb :: "(superblock, 'a kstate_scheme) code" where
  "get_sb = kget (\<lambda>s. sb (ic s))"

definition bzero :: "nat \<Rightarrow> nat \<Rightarrow> (unit, 'a kstate_scheme) code" where
  "bzero dev bno =
     kbind (bread dev bno) (\<lambda>bp.
     kthen (set_bdata bp (\<lambda>_. replicate BSIZE 0)) (
     kthen (log_write bp) (
     brelse bp)))"

definition bit_free :: "uchar list \<Rightarrow> nat \<Rightarrow> bool" where
  "bit_free d bi \<longleftrightarrow> d ! (bi div 8) AND push_bit (bi mod 8) 1 = 0"

definition bit_mark :: "nat \<Rightarrow> uchar list \<Rightarrow> uchar list" where
  "bit_mark bi d = d[bi div 8 := d ! (bi div 8) OR push_bit (bi mod 8) 1]"

definition bit_clear :: "nat \<Rightarrow> uchar list \<Rightarrow> uchar list" where
  "bit_clear bi d = d[bi div 8 := d ! (bi div 8) AND NOT (push_bit (bi mod 8) 1)]"

definition balloc_in :: "nat \<Rightarrow> nat \<Rightarrow> (nat option, 'a kstate_scheme) code" where
  "balloc_in dev b =
     kbind get_sb (\<lambda>sb.
     kbind (bread dev (BBLOCK b sb)) (\<lambda>bp.
     kbind (get_bdata bp) (\<lambda>d.
     case find (bit_free d) [0..<min BPB (sb_size sb - b)] of
       Some bi \<Rightarrow>
         kthen (set_bdata bp (bit_mark bi)) (
         kthen (log_write bp) (
         kthen (brelse bp) (
         kthen (bzero dev (b + bi)) (
         kreturn (Some (b + bi))))))
     | None \<Rightarrow> kthen (brelse bp) (kreturn None))))"

definition balloc :: "nat \<Rightarrow> (nat, 'a kstate_scheme) code" where
  "balloc dev =
     kbind get_sb (\<lambda>sb.
     kbind (kfirst (\<lambda>k. balloc_in dev (BPB * k)) [0..<(sb_size sb + BPB - 1) div BPB]) (\<lambda>r.
     case r of
       Some b \<Rightarrow> kreturn b
     | None \<Rightarrow> kpanic ''balloc: out of blocks''))"

definition bfree :: "nat \<Rightarrow> nat \<Rightarrow> (unit, 'a kstate_scheme) code" where
  "bfree dev b =
     kbind get_sb (\<lambda>sb.
     kbind (bread dev (BBLOCK b sb)) (\<lambda>bp.
     kbind (get_bdata bp) (\<lambda>d.
     if bit_free d (b mod BPB) then kpanic ''freeing free block''
     else
       kthen (set_bdata bp (bit_clear (b mod BPB))) (
       kthen (log_write bp) (
       brelse bp)))))"

section \<open>The inode cache\<close>

definition get_ip :: "nat \<Rightarrow> (inode \<Rightarrow> 'b) \<Rightarrow> ('b, 'a kstate_scheme) code" where
  "get_ip i f = kget (\<lambda>s. f (inodes (ic s) ! i))"

definition set_ip :: "nat \<Rightarrow> (inode \<Rightarrow> inode) \<Rightarrow> 'a kstate_scheme \<Rightarrow> 'a kstate_scheme" where
  "set_ip i f s = upd_ic (\<lambda>c. c\<lparr>inodes := (inodes c)[i := f (inodes c ! i)]\<rparr>) s"

definition upd_ip :: "nat \<Rightarrow> (inode \<Rightarrow> inode) \<Rightarrow> (unit, 'a kstate_scheme) code" where
  "upd_ip i f = kmod (set_ip i f)"

definition iinit :: "nat \<Rightarrow> (unit, 'a kstate_scheme) code" where
  "iinit dev =
     kthen (initlock LIcache) (
     kthen (kiter (\<lambda>i. initsleeplock (SInode i)) [0..<NINODE]) (
     kbind (readsb dev) (\<lambda>b.
     kthen (kmod (upd_ic (\<lambda>c. c\<lparr>sb := b\<rparr>))) (
     cprintf (asc ''sb: size %d nblocks %d ninodes %d nlog %d logstart %d inodestart %d bmap start %d'' @ [10])
       (map (\<lambda>n. CInt (i32 (int n))) [sb_size b, sb_nblocks b, sb_ninodes b, sb_nlog b, sb_logstart b, sb_inodestart b, sb_bmapstart b])))))"

definition iget :: "nat \<Rightarrow> nat \<Rightarrow> (nat, 'a kstate_scheme) code" where
  "iget dev inum =
     kthen (acquire LIcache) (
     kbind (kget (\<lambda>s. first_idx (\<lambda>ip. i_ref ip > 0 \<and> i_dev ip = dev \<and> i_inum ip = inum) (inodes (ic s)))) (\<lambda>f.
     case f of
       Some i \<Rightarrow>
         kthen (upd_ip i (\<lambda>ip. ip\<lparr>i_ref := i_ref ip + 1\<rparr>)) (
         kthen (release LIcache) (
         kreturn i))
     | None \<Rightarrow>
       kbind (kget (\<lambda>s. first_idx (\<lambda>ip. i_ref ip = 0) (inodes (ic s)))) (\<lambda>empty.
       case empty of
         None \<Rightarrow> kpanic ''iget: no inodes''
       | Some i \<Rightarrow>
         kthen (upd_ip i (\<lambda>ip. ip\<lparr>i_dev := dev, i_inum := inum, i_ref := 1, i_valid := False\<rparr>)) (
         kthen (release LIcache) (
         kreturn i)))))"

definition ialloc :: "nat \<Rightarrow> int \<Rightarrow> (nat, 'a kstate_scheme) code" where
  "ialloc dev type =
     kbind get_sb (\<lambda>sb.
     kbind (kfirst (\<lambda>inum.
       kbind (bread dev (IBLOCK inum sb)) (\<lambda>bp.
       kbind (get_bdata bp) (\<lambda>d.
       if di_type (get_dinode d inum) = 0 then
         kthen (set_bdata bp (splice (64 * (inum mod IPB)) (replicate 64 0))) (
         kthen (set_bdata bp (puti16 (64 * (inum mod IPB)) type)) (
         kthen (log_write bp) (
         kthen (brelse bp) (
         kbind (iget dev inum) (\<lambda>ip. kreturn (Some ip))))))
       else kthen (brelse bp) (kreturn None)))) [1..<sb_ninodes sb]) (\<lambda>r.
     case r of
       Some ip \<Rightarrow> kreturn ip
     | None \<Rightarrow> kpanic ''ialloc: no inodes''))"

definition iupdate :: "nat \<Rightarrow> (unit, 'a kstate_scheme) code" where
  "iupdate ip =
     kbind get_sb (\<lambda>sb.
     kbind (get_ip ip id) (\<lambda>n.
     kbind (bread (i_dev n) (IBLOCK (i_inum n) sb)) (\<lambda>bp.
     kbind (get_ip ip id) (\<lambda>n.
     kthen (set_bdata bp (put_dinode (i_inum n)
       \<lparr>di_type = i_type n, di_major = i_major n, di_minor = i_minor n, di_nlink = i_nlink n, di_size = i_size n, di_addrs = i_addrs n\<rparr>)) (
     kthen (log_write bp) (
     brelse bp))))))"

definition idup :: "nat \<Rightarrow> (nat, 'a kstate_scheme) code" where
  "idup ip =
     kthen (acquire LIcache) (
     kthen (upd_ip ip (\<lambda>n. n\<lparr>i_ref := i_ref n + 1\<rparr>)) (
     kthen (release LIcache) (
     kreturn ip)))"

definition iload :: "nat \<Rightarrow> (unit, 'a kstate_scheme) code" where
  "iload ip =
     kbind (get_ip ip id) (\<lambda>n.
     kbind get_sb (\<lambda>sb.
     kbind (bread (i_dev n) (IBLOCK (i_inum n) sb)) (\<lambda>bp.
     kbind (get_bdata bp) (\<lambda>d.
     let di = get_dinode d (i_inum n) in
     kthen (upd_ip ip (\<lambda>n. n\<lparr>i_type := di_type di, i_major := di_major di, i_minor := di_minor di,
              i_nlink := di_nlink di, i_size := di_size di, i_addrs := di_addrs di\<rparr>)) (
     kthen (brelse bp) (
     kthen (upd_ip ip (\<lambda>n. n\<lparr>i_valid := True\<rparr>)) (
     kbind (get_ip ip i_type) (\<lambda>ty.
     kwhen (ty = 0) (kpanic ''ilock: no type'')))))))))"

definition ilock :: "nat option \<Rightarrow> (unit, 'a kstate_scheme) code" where
  "ilock mip =
     (case mip of
        None \<Rightarrow> kpanic ''ilock''
      | Some ip \<Rightarrow>
        kbind (get_ip ip i_ref) (\<lambda>r.
        if r < 1 then kpanic ''ilock''
        else
          kthen (acquiresleep (SInode ip)) (
          kbind (get_ip ip i_valid) (\<lambda>v.
          kwhen (\<not> v) (iload ip)))))"

definition iunlock :: "nat option \<Rightarrow> (unit, 'a kstate_scheme) code" where
  "iunlock mip =
     (case mip of
        None \<Rightarrow> kpanic ''iunlock''
      | Some ip \<Rightarrow>
        kbind (holdingsleep (SInode ip)) (\<lambda>h.
        kbind (get_ip ip i_ref) (\<lambda>r.
        if \<not> h \<or> r < 1 then kpanic ''iunlock''
        else releasesleep (SInode ip))))"

section \<open>Inode content\<close>

text \<open>\<open>addrs[k]\<close> of the inode, allocated when it is 0.\<close>

definition addr_slot :: "nat \<Rightarrow> nat \<Rightarrow> (nat, 'a kstate_scheme) code" where
  "addr_slot ip k =
     kbind (get_ip ip id) (\<lambda>n.
     if i_addrs n ! k \<noteq> 0 then kreturn (i_addrs n ! k)
     else
       kbind (balloc (i_dev n)) (\<lambda>addr.
       kthen (upd_ip ip (\<lambda>n. n\<lparr>i_addrs := (i_addrs n)[k := addr]\<rparr>)) (
       kreturn addr)))"

text \<open>Entry \<open>k\<close> of the indirect block \<open>addr\<close>, allocated when it is 0.\<close>

definition ind_slot :: "nat \<Rightarrow> nat \<Rightarrow> nat \<Rightarrow> (nat, 'a kstate_scheme) code" where
  "ind_slot dev addr k =
     kbind (bread dev addr) (\<lambda>bp.
     kbind (get_bdata bp) (\<lambda>d.
     kbind (if get32 d (4 * k) \<noteq> 0 then kreturn (get32 d (4 * k))
            else
              kbind (balloc dev) (\<lambda>addr.
              kthen (set_bdata bp (put32 (4 * k) addr)) (
              kthen (log_write bp) (
              kreturn addr)))) (\<lambda>addr.
     kthen (brelse bp) (
     kreturn addr))))"

definition bmap :: "nat \<Rightarrow> nat \<Rightarrow> (nat, 'a kstate_scheme) code" where
  "bmap ip bn =
     kbind (get_ip ip i_dev) (\<lambda>dev.
     if bn < NDIRECT then addr_slot ip bn
     else let bn = bn - NDIRECT in
     if bn < NINDIRECT then
       kbind (addr_slot ip NDIRECT) (\<lambda>addr.
       ind_slot dev addr bn)
     else let bn = bn - NINDIRECT in
     if bn < N2INDIRECT then
       kbind (addr_slot ip (NDIRECT + 1)) (\<lambda>addr.
       kbind (ind_slot dev addr (bn div NINDIRECT)) (\<lambda>addr.
       ind_slot dev addr (bn mod NINDIRECT)))
     else let bn = bn - N2INDIRECT in
     if bn < N3INDIRECT then
       kbind (addr_slot ip (NDIRECT + 2)) (\<lambda>addr.
       kbind (ind_slot dev addr (bn div N2INDIRECT)) (\<lambda>addr.
       kbind (ind_slot dev addr (bn mod N2INDIRECT div NINDIRECT)) (\<lambda>addr.
       ind_slot dev addr (bn mod N2INDIRECT mod NINDIRECT))))
     else kpanic ''bmap: out of range'')"

text \<open>Visit the non-zero entries of an indirect block that is held in buffer \<open>bp\<close>.\<close>

definition each_entry :: "nat \<Rightarrow> (nat \<Rightarrow> (unit, 'a kstate_scheme) code) \<Rightarrow> (unit, 'a kstate_scheme) code" where
  "each_entry bp f =
     kiter (\<lambda>j. kbind (get_bdata bp) (\<lambda>d. kwhen (get32 d (4 * j) \<noteq> 0) (f (get32 d (4 * j))))) [0..<NINDIRECT]"

definition free_ind1 :: "nat \<Rightarrow> nat \<Rightarrow> (unit, 'a kstate_scheme) code" where
  "free_ind1 dev addr =
     kbind (bread dev addr) (\<lambda>bp.
     kthen (each_entry bp (bfree dev)) (
     kthen (brelse bp) (
     bfree dev addr)))"

definition free_ind2 :: "nat \<Rightarrow> nat \<Rightarrow> (unit, 'a kstate_scheme) code" where
  "free_ind2 dev addr =
     kbind (bread dev addr) (\<lambda>bp.
     kthen (each_entry bp (free_ind1 dev)) (
     kthen (brelse bp) (
     bfree dev addr)))"

definition free_ind3 :: "nat \<Rightarrow> nat \<Rightarrow> (unit, 'a kstate_scheme) code" where
  "free_ind3 dev addr =
     kbind (bread dev addr) (\<lambda>bp.
     kthen (each_entry bp (free_ind2 dev)) (
     kthen (brelse bp) (
     bfree dev addr)))"

definition trunc_slot :: "nat \<Rightarrow> nat \<Rightarrow> (nat \<Rightarrow> nat \<Rightarrow> (unit, 'a kstate_scheme) code) \<Rightarrow> (unit, 'a kstate_scheme) code" where
  "trunc_slot ip k free =
     kbind (get_ip ip id) (\<lambda>n.
     kwhen (i_addrs n ! k \<noteq> 0) (
       kthen (free (i_dev n) (i_addrs n ! k))
       (upd_ip ip (\<lambda>n. n\<lparr>i_addrs := (i_addrs n)[k := 0]\<rparr>))))"

definition itrunc :: "nat \<Rightarrow> (unit, 'a kstate_scheme) code" where
  "itrunc ip =
     kthen (kiter (\<lambda>i. trunc_slot ip i bfree) [0..<NDIRECT]) (
     kthen (trunc_slot ip NDIRECT free_ind1) (
     kthen (trunc_slot ip (NDIRECT + 1) free_ind2) (
     kthen (trunc_slot ip (NDIRECT + 2) free_ind3) (
     kthen (upd_ip ip (\<lambda>n. n\<lparr>i_size := 0\<rparr>)) (
     iupdate ip)))))"

text \<open>The part of \<open>iput\<close> that frees an inode without links and without other references.\<close>

definition iput_free :: "nat \<Rightarrow> (unit, 'a kstate_scheme) code" where
  "iput_free ip =
     kthen (acquire LIcache) (
     kbind (get_ip ip i_ref) (\<lambda>r.
     kthen (release LIcache) (
     kwhen (r = 1) (
       kthen (itrunc ip) (
       kthen (upd_ip ip (\<lambda>n. n\<lparr>i_type := 0\<rparr>)) (
       kthen (iupdate ip) (
       upd_ip ip (\<lambda>n. n\<lparr>i_valid := False\<rparr>))))))))"

definition iput :: "nat \<Rightarrow> (unit, 'a kstate_scheme) code" where
  "iput ip =
     kthen (acquiresleep (SInode ip)) (
     kbind (get_ip ip id) (\<lambda>n.
     kthen (kwhen (i_valid n \<and> i_nlink n = 0) (iput_free ip)) (
     kthen (releasesleep (SInode ip)) (
     kthen (acquire LIcache) (
     kthen (upd_ip ip (\<lambda>n. n\<lparr>i_ref := i_ref n - 1\<rparr>)) (
     release LIcache))))))"

definition iunlockput :: "nat \<Rightarrow> (unit, 'a kstate_scheme) code" where
  "iunlockput ip = kthen (iunlock (Some ip)) (iput ip)"

record stat =
  st_type :: int
  st_dev :: int
  st_ino :: nat
  st_nlink :: int
  st_size :: nat

definition stati :: "nat \<Rightarrow> (stat, 'a kstate_scheme) code" where
  "stati ip = get_ip ip (\<lambda>n. \<lparr>st_type = i_type n, st_dev = i32 (int (i_dev n)), st_ino = i_inum n, st_nlink = i_nlink n, st_size = i_size n\<rparr>)"

end
