(* ===== verification/Fs.thy ===== *)
theory Fs
  imports Inode
begin

text \<open>
  Reading and writing inodes, directories and path names: the upper half of \<open>src/xv6-public/fs.c\<close>, and
  the console as a device (\<open>console.c\<close>), which \<open>readi\<close> and \<open>writei\<close> reach through \<open>devsw\<close>.

  The destination of a read is an address, or a variable of the caller (\<open>ToBuf\<close>); \<open>readi\<close> also returns
  the bytes it delivered. A source is an address, or bytes. A path is the list of its characters, without the
  terminating zero; a name is what \<open>skipelem\<close> leaves in the array of \<open>DIRSIZ\<close> bytes, up to the first zero.
\<close>

section \<open>Sources and destinations\<close>

datatype kdst = ToVa uint | ToBuf
datatype ksrc = FromVa uint | FromBuf "uchar list"

definition put_at :: "kdst \<Rightarrow> nat \<Rightarrow> uchar list \<Rightarrow> (unit, 'a kstate_scheme) code" where
  "put_at dst k bs = (case dst of ToVa a \<Rightarrow> vwrite (a + of_nat k) bs | ToBuf \<Rightarrow> kreturn ())"

definition get_at :: "ksrc \<Rightarrow> nat \<Rightarrow> nat \<Rightarrow> (uchar list, 'a kstate_scheme) code" where
  "get_at src k n = (case src of FromVa a \<Rightarrow> vread (a + of_nat k) n | FromBuf bs \<Rightarrow> kreturn (slice k n bs))"

section \<open>The console device\<close>

abbreviation CONSOLE :: nat where "CONSOLE \<equiv> 1"
abbreviation NDEV :: int where "NDEV \<equiv> 10"

text \<open>Wait for a line of input; \<open>False\<close> when the process is killed.\<close>

definition cons_wait :: "(bool, 'a kstate_scheme) code" where
  "cons_wait =
     kloop (
       kbind (kget con) (\<lambda>k.
       if in_r k \<noteq> in_w k then kreturn (Some True)
       else
         kbind my (\<lambda>p.
         kbind (get_proc p p_killed) (\<lambda>killed.
         if killed then kreturn (Some False)
         else kthen (sleep CInput (Some LCons)) (kreturn None)))))"

primrec consoleread_loop :: "nat \<Rightarrow> nat \<Rightarrow> kdst \<Rightarrow> uchar list \<Rightarrow> (uchar list option, 'a kstate_scheme) code" where
  "consoleread_loop 0 target dst acc = kreturn (Some acc)"
| "consoleread_loop (Suc n) target dst acc =
     kbind cons_wait (\<lambda>ok.
     if \<not> ok then kreturn None
     else
       kbind (kget con) (\<lambda>k.
       let c = in_buf k ! unat (in_r k mod 128) in
       kthen (kmod (upd_con (\<lambda>k. k\<lparr>in_r := in_r k + 1\<rparr>))) (
       if c = 4 then
         kthen (kwhen (Suc n < target) (kmod (upd_con (\<lambda>k. k\<lparr>in_r := in_r k - 1\<rparr>)))) (kreturn (Some acc))
       else
         kthen (put_at dst (length acc) [c]) (
         if c = 10 then kreturn (Some (acc @ [c])) else consoleread_loop n target dst (acc @ [c])))))"

definition consoleread :: "nat \<Rightarrow> kdst \<Rightarrow> int \<Rightarrow> (int \<times> uchar list, 'a kstate_scheme) code" where
  "consoleread ip dst n =
     kthen (iunlock (Some ip)) (
     kthen (acquire LCons) (
     kbind (consoleread_loop (nat n) (nat n) dst []) (\<lambda>r.
     kthen (release LCons) (
     kthen (ilock (Some ip)) (
     kreturn (case r of None \<Rightarrow> (-1, []) | Some bs \<Rightarrow> (int (length bs), bs)))))))"

definition consolewrite :: "nat \<Rightarrow> ksrc \<Rightarrow> int \<Rightarrow> (int, 'a kstate_scheme) code" where
  "consolewrite ip src n =
     kthen (iunlock (Some ip)) (
     kthen (acquire LCons) (
     kthen (kiter (\<lambda>i. kbind (get_at src i 1) (\<lambda>bs. consputc (unat (hd bs)))) [0..<nat n]) (
     kthen (release LCons) (
     kthen (ilock (Some ip)) (
     kreturn n)))))"

definition consoleinit :: "(unit, 'a kstate_scheme) code" where
  "consoleinit =
     kthen (initlock LCons) (
     kthen (kmod (upd_fl (\<lambda>f. f\<lparr>devsw := (devsw f)(CONSOLE := True)\<rparr>)))
     (kmod (upd_con (\<lambda>k. k\<lparr>cons_locking := True\<rparr>))))"

section \<open>Reading and writing\<close>

definition chunk :: "nat \<Rightarrow> nat \<Rightarrow> nat" where
  "chunk off n = min n (BSIZE - off mod BSIZE)"

function readi_loop :: "nat \<Rightarrow> kdst \<Rightarrow> nat \<Rightarrow> nat \<Rightarrow> uchar list \<Rightarrow> (uchar list, 'a kstate_scheme) code" where
  "readi_loop ip dst off n acc =
     (if n = 0 then kreturn acc
      else
        (let m = chunk off n in
         kbind (get_ip ip i_dev) (\<lambda>dev.
         kbind (bmap ip (off div BSIZE)) (\<lambda>b.
         kbind (bread dev b) (\<lambda>bp.
         kbind (get_bdata bp) (\<lambda>d.
         kthen (put_at dst (length acc) (slice (off mod BSIZE) m d)) (
         kthen (brelse bp) (
         readi_loop ip dst (off + m) (n - m) (acc @ slice (off mod BSIZE) m d)))))))))"
  by auto

termination
  by (relation "measure (\<lambda>(ip, dst, off, n, acc). n)") (auto simp: chunk_def)

declare readi_loop.simps [simp del]

definition readi :: "nat \<Rightarrow> kdst \<Rightarrow> nat \<Rightarrow> nat \<Rightarrow> (int \<times> uchar list, 'a kstate_scheme) code" where
  "readi ip dst off n =
     kbind (get_ip ip id) (\<lambda>i.
     if i_type i = T_DEV then
       kbind (kget (\<lambda>s. devsw (fl s) (nat (i_major i)))) (\<lambda>reg.
       if i_major i < 0 \<or> i_major i \<ge> NDEV \<or> \<not> reg then kreturn (-1, [])
       else consoleread ip dst (i32 (int n)))
     else if off > i_size i \<or> (off + n) mod 2 ^ 32 < off then kreturn (-1, [])
     else
       (let n = (if off + n > i_size i then i_size i - off else n) in
        kbind (readi_loop ip dst off n []) (\<lambda>bs.
        kreturn (i32 (int n), bs))))"

function writei_loop :: "nat \<Rightarrow> ksrc \<Rightarrow> nat \<Rightarrow> nat \<Rightarrow> nat \<Rightarrow> (nat, 'a kstate_scheme) code" where
  "writei_loop ip src tot off n =
     (if n = 0 then kreturn off
      else
        (let m = chunk off n in
         kbind (get_ip ip i_dev) (\<lambda>dev.
         kbind (bmap ip (off div BSIZE)) (\<lambda>b.
         kbind (bread dev b) (\<lambda>bp.
         kbind (get_at src tot m) (\<lambda>bs.
         kthen (set_bdata bp (splice (off mod BSIZE) bs)) (
         kthen (log_write bp) (
         kthen (brelse bp) (
         writei_loop ip src (tot + m) (off + m) (n - m))))))))))"
  by auto

termination
  by (relation "measure (\<lambda>(ip, src, tot, off, n). n)") (auto simp: chunk_def)

declare writei_loop.simps [simp del]

definition writei :: "nat \<Rightarrow> ksrc \<Rightarrow> nat \<Rightarrow> nat \<Rightarrow> (int, 'a kstate_scheme) code" where
  "writei ip src off n =
     kbind (get_ip ip id) (\<lambda>i.
     if i_type i = T_DEV then
       kbind (kget (\<lambda>s. devsw (fl s) (nat (i_major i)))) (\<lambda>reg.
       if i_major i < 0 \<or> i_major i \<ge> NDEV \<or> \<not> reg then kreturn (-1)
       else consolewrite ip src (i32 (int n)))
     else if off > i_size i \<or> (off + n) mod 2 ^ 32 < off then kreturn (-1)
     else if off + n > MAXFILE * BSIZE then kreturn (-1)
     else
       kbind (writei_loop ip src 0 off n) (\<lambda>off.
       kbind (get_ip ip i_size) (\<lambda>sz.
       kthen (kwhen (n > 0 \<and> off > sz) (
         kthen (upd_ip ip (\<lambda>i. i\<lparr>i_size := off\<rparr>)) (iupdate ip))) (
       kreturn (i32 (int n))))))"

section \<open>Directories\<close>

abbreviation DIRSIZ :: nat where "DIRSIZ \<equiv> 14"

text \<open>Two names side by side in memory, for the string routines of the kernel.\<close>

definition two_strings :: "uchar list \<Rightarrow> uchar list \<Rightarrow> bmem" where
  "two_strings s t a =
     (if a < 16 then if a < length s then s ! a else 0
      else if a - 16 < length t then t ! (a - 16) else 0)"

definition namecmp :: "uchar list \<Rightarrow> uchar list \<Rightarrow> int" where
  "namecmp s t = strncmp 0 16 DIRSIZ (two_strings s t)"

record dirent =
  d_inum :: nat
  d_name :: "uchar list"

definition get_dirent :: "uchar list \<Rightarrow> dirent" where
  "get_dirent bs = \<lparr>d_inum = get16 bs 0, d_name = slice 2 DIRSIZ bs\<rparr>"

definition put_dirent :: "dirent \<Rightarrow> uchar list" where
  "put_dirent de = le_bytes 2 (d_inum de) @ d_name de"

definition dirlookup :: "nat \<Rightarrow> uchar list \<Rightarrow> ((nat \<times> nat) option, 'a kstate_scheme) code" where
  "dirlookup dp name =
     kbind (get_ip dp id) (\<lambda>d.
     if i_type d \<noteq> T_DIR then kpanic ''dirlookup not DIR''
     else
       kfirst (\<lambda>k.
         kbind (readi dp ToBuf (16 * k) 16) (\<lambda>(r, bs).
         if r \<noteq> 16 then kpanic ''dirlookup read''
         else
           (let de = get_dirent bs in
            if d_inum de = 0 then kreturn None
            else if namecmp name (d_name de) = 0 then
              kbind (get_ip dp i_dev) (\<lambda>dev.
              kbind (iget dev (d_inum de)) (\<lambda>ip.
              kreturn (Some (ip, 16 * k))))
            else kreturn None))) [0..<(i_size d + 15) div 16])"

definition dirlink :: "nat \<Rightarrow> uchar list \<Rightarrow> nat \<Rightarrow> (int, 'a kstate_scheme) code" where
  "dirlink dp name inum =
     kbind (dirlookup dp name) (\<lambda>f.
     case f of
       Some (ip, _) \<Rightarrow> kthen (iput ip) (kreturn (-1))
     | None \<Rightarrow>
       kbind (get_ip dp i_size) (\<lambda>size.
       kbind (kfirst (\<lambda>k.
         kbind (readi dp ToBuf (16 * k) 16) (\<lambda>(r, bs).
         if r \<noteq> 16 then kpanic ''dirlink read''
         else kreturn (if d_inum (get_dirent bs) = 0 then Some (16 * k) else None))) [0..<(size + 15) div 16]) (\<lambda>e.
       let off = (case e of Some off \<Rightarrow> off | None \<Rightarrow> 16 * ((size + 15) div 16));
           de = \<lparr>d_inum = inum mod 2 ^ 16,
                 d_name = map (strncpy 0 16 (int DIRSIZ) (two_strings [] name)) [0..<DIRSIZ]\<rparr> in
       kbind (writei dp (FromBuf (put_dirent de)) off 16) (\<lambda>r.
       if r \<noteq> 16 then kpanic ''dirlink'' else kreturn 0))))"

section \<open>Paths\<close>

definition skipelem :: "uchar list \<Rightarrow> (uchar list \<times> uchar list) option" where
  "skipelem path =
     (let path = dropWhile (\<lambda>c. c = 47) path in
      if path = [] then None
      else
        (let s = takeWhile (\<lambda>c. c \<noteq> 47) path; path = dropWhile (\<lambda>c. c \<noteq> 47) path;
             name = (if length s \<ge> DIRSIZ then take DIRSIZ s else s @ [0])
         in Some (name, dropWhile (\<lambda>c. c = 47) path)))"

text \<open>What a read of up to \<open>n\<close> characters takes from the complete lines: the text and what is left, or nothing
  when it would have to wait. An end-of-file mark (control-D) after some text stays for the next read.\<close>

fun line_out :: "nat \<Rightarrow> nat \<Rightarrow> uchar list \<Rightarrow> (uchar list \<times> uchar list) option" where
  "line_out target 0 q = Some ([], q)"
| "line_out target (Suc n) [] = None"
| "line_out target (Suc n) (c # q) =
     (if c = 4 then Some ([], if Suc n < target then c # q else q)
      else if c = 10 then Some ([c], q)
      else map_option (apfst (Cons c)) (line_out target n q))"

lemma skipelem_shorter: "skipelem path = Some (name, rest) \<Longrightarrow> length rest < length path"
proof -
  assume a: "skipelem path = Some (name, rest)"
  let ?p = "dropWhile (\<lambda>c. c = 47) path"
  have p: "?p \<noteq> []" and r: "rest = dropWhile (\<lambda>c. c = 47) (dropWhile (\<lambda>c. c \<noteq> 47) ?p)"
    using a by (auto simp: skipelem_def Let_def split: if_splits)
  obtain x xs where x: "?p = x # xs" using p by (cases ?p) auto
  then have "x \<noteq> 47" by (simp add: dropWhile_eq_Cons_conv)
  then have "length rest \<le> length xs"
    unfolding r x
    using order_trans [OF length_dropWhile_le [of "\<lambda>c. c = 47" "dropWhile (\<lambda>c. c \<noteq> 47) xs"] length_dropWhile_le [of "\<lambda>c. c \<noteq> 47" xs]]
    by simp
  also have "\<dots> < length ?p" by (simp add: x)
  finally show ?thesis using length_dropWhile_le [of "\<lambda>c. c = 47" path] by simp
qed

function namex_loop :: "nat \<Rightarrow> uchar list \<Rightarrow> bool \<Rightarrow> uchar list \<Rightarrow> ((nat \<times> uchar list) option, 'a kstate_scheme) code" where
  "namex_loop ip path nameiparent name0 =
     (case skipelem path of
        None \<Rightarrow>
          if nameiparent then kthen (iput ip) (kreturn None) else kreturn (Some (ip, name0))
      | Some (name, path) \<Rightarrow>
        kthen (ilock (Some ip)) (
        kbind (get_ip ip i_type) (\<lambda>ty.
        if ty \<noteq> T_DIR then kthen (iunlockput ip) (kreturn None)
        else if nameiparent \<and> path = [] then kthen (iunlock (Some ip)) (kreturn (Some (ip, name)))
        else
          kbind (dirlookup ip name) (\<lambda>f.
          case f of
            None \<Rightarrow> kthen (iunlockput ip) (kreturn None)
          | Some (nxt, _) \<Rightarrow>
            kthen (iunlockput ip) (
            namex_loop nxt path nameiparent name)))))"
  by auto

termination
  by (relation "measure (\<lambda>(ip, path, np, name). length path)") (auto dest: skipelem_shorter)

declare namex_loop.simps [simp del]

definition namex :: "uchar list \<Rightarrow> bool \<Rightarrow> ((nat \<times> uchar list) option, 'a kstate_scheme) code" where
  "namex path nameiparent =
     kbind (if path \<noteq> [] \<and> hd path = 47 then iget ROOTDEV ROOTINO
            else
              kbind my (\<lambda>p.
              kbind (get_proc p p_cwd) (\<lambda>cwd.
              case cwd of None \<Rightarrow> kfault ''cwd'' | Some d \<Rightarrow> idup d))) (\<lambda>ip.
     namex_loop ip path nameiparent [])"

definition namei :: "uchar list \<Rightarrow> (nat option, 'a kstate_scheme) code" where
  "namei path = kbind (namex path False) (\<lambda>r. kreturn (map_option fst r))"

definition nameiparent :: "uchar list \<Rightarrow> ((nat \<times> uchar list) option, 'a kstate_scheme) code" where
  "nameiparent path = namex path True"

section \<open>Reading the console\<close>

lemma cons_wait_ready: "in_r (con s) \<noteq> in_w (con s) \<Longrightarrow> P True s \<Longrightarrow> wp cons_wait P s"
  unfolding cons_wait_def by (rule wp_kloop) (auto simp: wps)

lemma consoleread_loop_ok:
  assumes "cons_inv (con s)" "line_out target n (fst (input_lines (con s))) = Some (out, q)"
    and "\<And>k. cons_inv k \<Longrightarrow> input_lines k = (q, snd (input_lines (con s))) \<Longrightarrow> dev_in k = dev_in (con s) \<Longrightarrow> P (Some (acc @ out)) (upd_con (\<lambda>_. k) s)"
  shows "wp (consoleread_loop n target ToBuf acc) P s"
  using assms
proof (induction n arbitrary: s acc out)
  case 0
  have e: "upd_con (\<lambda>_. con s) s = s" by (cases s) (simp add: upd_con_def)
  have "P (Some acc) (upd_con (\<lambda>_. con s) s)" using 0 by (metis append_Nil2 line_out.simps(1) option.inject prod.collapse prod.inject)
  then show ?case unfolding e by (simp add: wps)
next
  case (Suc n)
  let ?k = "con s"
  obtain c q' where q': "fst (input_lines ?k) = c # q'" using Suc.prems(2) by (cases "fst (input_lines ?k)") auto
  have inv: "ring_inv ?k" "con_ok ?k" using Suc.prems(1) by (simp_all add: cons_inv_def)
  have rw: "in_r ?k \<noteq> in_w ?k" using q' by (auto simp: input_lines_def)
  note tk = input_take [OF inv(1) rw]
  have c: "in_buf ?k ! unat (in_r ?k mod 128) = c" using tk(2) q' by simp
  let ?k' = "?k\<lparr>in_r := in_r ?k + 1\<rparr>"
  have k': "cons_inv ?k'" "input_lines ?k' = (q', snd (input_lines ?k))" "dev_in ?k' = dev_in ?k"
    using tk q' inv by (simp_all add: cons_inv_def con_ok_input)
  have u: "upd_con (\<lambda>k. k\<lparr>in_r := in_r k + 1\<rparr>) s = upd_con (\<lambda>_. ?k') s" by (rule upd_con_const)
  have unget: "upd_con (\<lambda>k. k\<lparr>in_r := in_r k - 1\<rparr>) (upd_con (\<lambda>_. ?k') s) = upd_con (\<lambda>_. ?k) s" by (simp add: upd_con_def)
  show ?case
  proof (cases "c = 4")
    case True
    then have o: "out = []" "q = (if Suc n < target then c # q' else q')" using Suc.prems(2) q' by (auto split: if_splits)
    have "input_lines ?k = (c # q', snd (input_lines ?k))" using q' by (metis prod.collapse)
    then show ?thesis
      using True o c rw Suc.prems(3) [of ?k] Suc.prems(3) [of ?k'] k' Suc.prems(1)
      unfolding consoleread_loop.simps wp_kbind
      by (intro cons_wait_ready) (auto simp: wps Let_def u unget)
  next
    case False
    show ?thesis
    proof (cases "c = 10")
      case True
      then show ?thesis
        using False c rw Suc.prems(2,3) k' q' unfolding consoleread_loop.simps wp_kbind
        by (intro cons_wait_ready) (auto simp: wps Let_def u put_at_def)
    next
      case 10: False
      obtain out' where out': "line_out target n q' = Some (out', q)" "out = c # out'"
        using Suc.prems(2) q' False 10 by auto
      have "wp (consoleread_loop n target ToBuf (acc @ [c])) P (upd_con (\<lambda>_. ?k') s)"
        by (rule Suc.IH) (use k' out' Suc.prems(3) in \<open>auto simp: upd_con_upd_con\<close>)
      then show ?thesis
        using False 10 c rw unfolding consoleread_loop.simps wp_kbind
        by (intro cons_wait_ready) (auto simp: wps Let_def u put_at_def)
    qed
  qed
qed

lemma line_out_line: "10 \<notin> set cs \<Longrightarrow> 4 \<notin> set cs \<Longrightarrow> length cs < n \<Longrightarrow> line_out target n (cs @ 10 # q) = Some (cs @ [10], q)"
proof (induction cs arbitrary: n)
  case Nil
  then show ?case by (cases n) auto
next
  case (Cons c cs)
  then show ?case by (cases n) auto
qed

lemma typed_line:
  assumes "\<forall>c \<in> set cs. 32 \<le> c \<and> c \<noteq> 127" "length q + length l + length cs < 127"
  shows "fold typed (map unat cs) (q, l) = (q, l @ cs)"
  using assms
proof (induction cs arbitrary: l)
  case (Cons c cs)
  have "32 \<le> unat c" "unat c \<noteq> 127" using Cons.prems(1) by (auto simp: word_le_nat_alt word_unat_eq_iff)
  then have "typed (unat c) (q, l) = (q, l @ [c])" using Cons.prems(2) by (auto simp: typed_def CTRL_codes Let_def)
  then show ?case using Cons by simp
qed simp

text \<open>C38: What is typed is what is read: with no input left over, a line of printable characters that arrives on the serial line,
  followed by a carriage return, is delivered by the next read of the console, ended by a newline; the read takes exactly
  the line and leaves nothing. It does not sleep, whatever the size of its buffer, as long as the line fits.\<close>

theorem typed_line_is_read:
  assumes "ctx p L s" "LPtable \<notin> L" "LCons \<notin> L" "cons_inv (con s)" "input_lines (con s) = ([], [])"
    and "uart (con s)" "uart_in (con s) = cs @ [13]" "\<forall>c \<in> set cs. 32 \<le> c \<and> c \<noteq> 127" "length cs < 127" "length cs < n"
  shows "wp (kthen (uartintr pcs) (kthen (acquire LCons) (consoleread_loop n n ToBuf [])))
    (\<lambda>r t. r = Some (cs @ [10]) \<and> input_lines (con t) = ([], [])) s"
  unfolding wp_kthen uartintr_def
proof (rule wp_mono [OF serial.consoleintr_ok [OF assms(1-4)]], elim conjE)
  fix t assume d: "drained (uart_chars (con s)) p L s t"
  have "typed 13 ([], cs) = (cs @ [10], [])" using assms(9) by (simp add: typed_def CTRL_codes)
  then have l: "input_lines (con t) = (cs @ [10], [])"
    using d assms(5-9) typed_line [of cs "[]" "[]"] by (simp add: drained_def uart_chars_def)
  have "10 \<notin> set cs" "4 \<notin> set cs" using assms(8) by auto
  then have o: "line_out n n (fst (input_lines (con (acq LCons t)))) = Some (cs @ [10], [])"
    using line_out_line [of cs n n "[]"] assms(10) by (simp add: l)
  have "ctx p L t" "cons_inv (con (acq LCons t))" using d by (simp_all add: drained_def)
  then show "wp (acquire LCons) (\<lambda>_. wp (consoleread_loop n n ToBuf []) (\<lambda>r t. r = Some (cs @ [10]) \<and> input_lines (con t) = ([], []))) t"
    using assms(3) by (intro wp_acquire consoleread_loop_ok [OF _ o]) (auto simp: l)
qed

theorem typed_line_is_read_witness:
  "wp (kthen (uartintr (\<lambda>_. [])) (kthen (acquire LCons) (consoleread_loop 100 100 ToBuf [])))
     (\<lambda>r t. r = Some [108, 115, 10]) (upd_con (\<lambda>k. k\<lparr>uart_in := [108, 115, 13]\<rparr>) serial_machine)"
proof -
  let ?s = "upd_con (\<lambda>k. k\<lparr>uart_in := [108, 115, 13]\<rparr>) serial_machine"
  have "uart (con ?s)" by (simp add: serial_machine_def)
  then show ?thesis
    by (intro wp_mono [OF typed_line_is_read [of 0 "{}" ?s "[108, 115]" 100]]) (simp_all add: serial_machine_inv cons_inv_dev)
qed

end
