(* ===== verification/File.thy ===== *)
theory File
  imports Fs
begin

text \<open>
  Open files and pipes (\<open>src/xv6-public/file.c\<close>, \<open>pipe.c\<close>). A \<open>struct file *\<close> is an index of the file
  table, a \<open>struct pipe *\<close> the address of the page that \<open>kalloc\<close> gave for it; the pipe structure in that page is the
  record \<open>pipes p\<close>.
\<close>

section \<open>The file table\<close>

abbreviation NFILE :: nat where "NFILE \<equiv> 100"
abbreviation PIPESIZE :: nat where "PIPESIZE \<equiv> 512"

definition get_f :: "nat \<Rightarrow> (kfile \<Rightarrow> 'b) \<Rightarrow> ('b, 'a kstate_scheme) code" where
  "get_f i f = kget (\<lambda>s. f (ftab (fl s) ! i))"

definition upd_f :: "nat \<Rightarrow> (kfile \<Rightarrow> kfile) \<Rightarrow> (unit, 'a kstate_scheme) code" where
  "upd_f i f = kmod (upd_fl (\<lambda>l. l\<lparr>ftab := (ftab l)[i := f (ftab l ! i)]\<rparr>))"

definition get_pipe :: "uint \<Rightarrow> (pipe, 'a kstate_scheme) code" where
  "get_pipe p = kget (\<lambda>s. pipes (fl s) p)"

definition upd_pipe :: "uint \<Rightarrow> (pipe \<Rightarrow> pipe) \<Rightarrow> (unit, 'a kstate_scheme) code" where
  "upd_pipe p f = kmod (upd_fl (\<lambda>l. l\<lparr>pipes := (pipes l)(p := f (pipes l p))\<rparr>))"

definition fileinit :: "(unit, 'a kstate_scheme) code" where
  "fileinit = initlock LFtable"

definition filealloc :: "(nat option, 'a kstate_scheme) code" where
  "filealloc =
     kthen (acquire LFtable) (
     kbind (kget (\<lambda>s. first_idx (\<lambda>f. f_ref f = 0) (ftab (fl s)))) (\<lambda>r.
     case r of
       Some f \<Rightarrow>
         kthen (upd_f f (\<lambda>v. v\<lparr>f_ref := 1\<rparr>)) (
         kthen (release LFtable) (
         kreturn (Some f)))
     | None \<Rightarrow> kthen (release LFtable) (kreturn None)))"

definition filedup :: "nat \<Rightarrow> (nat, 'a kstate_scheme) code" where
  "filedup f =
     kthen (acquire LFtable) (
     kbind (get_f f f_ref) (\<lambda>r.
     if r < 1 then kpanic ''filedup''
     else
       kthen (upd_f f (\<lambda>v. v\<lparr>f_ref := f_ref v + 1\<rparr>)) (
       kthen (release LFtable) (
       kreturn f))))"

section \<open>Pipes\<close>

definition pipeclose :: "uint \<Rightarrow> bool \<Rightarrow> (unit, 'a kstate_scheme) code" where
  "pipeclose p writable =
     kthen (acquire (LPipe (unat p))) (
     kthen (if writable
            then kthen (upd_pipe p (\<lambda>v. v\<lparr>pi_writeopen := False\<rparr>)) (wakeup (CPipeRead (unat p)))
            else kthen (upd_pipe p (\<lambda>v. v\<lparr>pi_readopen := False\<rparr>)) (wakeup (CPipeWrite (unat p)))) (
     kbind (get_pipe p) (\<lambda>v.
     kthen (release (LPipe (unat p))) (
     kwhen (\<not> pi_readopen v \<and> \<not> pi_writeopen v) (kfree p)))))"

definition i_killed :: "(bool, 'a kstate_scheme) code" where
  "i_killed = kbind my (\<lambda>p. get_proc p p_killed)"

text \<open>Wait until the pipe has room; \<open>False\<close> when nobody can read or the process is killed.\<close>

definition pipe_room :: "uint \<Rightarrow> (bool, 'a kstate_scheme) code" where
  "pipe_room p =
     kloop (
       kbind (get_pipe p) (\<lambda>v.
       if pi_nwrite v \<noteq> pi_nread v + 512 then kreturn (Some True)
       else
         kbind (if \<not> pi_readopen v then kreturn True else i_killed) (\<lambda>stop.
         if stop then kreturn (Some False)
         else
           kthen (wakeup (CPipeRead (unat p))) (
           kthen (sleep (CPipeWrite (unat p)) (Some (LPipe (unat p)))) (
           kreturn None)))))"

definition pipe_put :: "uchar \<Rightarrow> pipe \<Rightarrow> pipe" where
  "pipe_put c v = v\<lparr>pi_data := (pi_data v)[unat (pi_nwrite v mod 512) := c], pi_nwrite := pi_nwrite v + 1\<rparr>"

definition pipe_get :: "pipe \<Rightarrow> uchar \<times> pipe" where
  "pipe_get v = (pi_data v ! unat (pi_nread v mod 512), v\<lparr>pi_nread := pi_nread v + 1\<rparr>)"

definition pipewrite :: "uint \<Rightarrow> uint \<Rightarrow> int \<Rightarrow> (int, 'a kstate_scheme) code" where
  "pipewrite p addr n =
     kthen (acquire (LPipe (unat p))) (
     kbind (kfirst (\<lambda>i.
       kbind (pipe_room p) (\<lambda>ok.
       if \<not> ok then kreturn (Some ())
       else
         kbind (vread (addr + of_nat i) 1) (\<lambda>bs.
         kthen (upd_pipe p (pipe_put (hd bs))) (
         kreturn None)))) [0..<nat n]) (\<lambda>r.
     case r of
       Some _ \<Rightarrow> kthen (release (LPipe (unat p))) (kreturn (-1))
     | None \<Rightarrow>
       kthen (wakeup (CPipeRead (unat p))) (
       kthen (release (LPipe (unat p))) (
       kreturn n))))"

text \<open>Wait for data or for the last writer to close; \<open>False\<close> when the process is killed.\<close>

definition pipe_data :: "uint \<Rightarrow> (bool, 'a kstate_scheme) code" where
  "pipe_data p =
     kloop (
       kbind (get_pipe p) (\<lambda>v.
       if \<not> (pi_nread v = pi_nwrite v \<and> pi_writeopen v) then kreturn (Some True)
       else
         kbind i_killed (\<lambda>killed.
         if killed then kreturn (Some False)
         else kthen (sleep (CPipeRead (unat p)) (Some (LPipe (unat p)))) (kreturn None))))"

primrec piperead_loop :: "uint \<Rightarrow> uint \<Rightarrow> nat \<Rightarrow> nat \<Rightarrow> (nat, 'a kstate_scheme) code" where
  "piperead_loop p addr i 0 = kreturn i"
| "piperead_loop p addr i (Suc n) =
     kbind (get_pipe p) (\<lambda>v.
     if pi_nread v = pi_nwrite v then kreturn i
     else
       (case pipe_get v of (c, w) \<Rightarrow>
        kthen (upd_pipe p (\<lambda>_. w)) (
        kthen (vwrite (addr + of_nat i) [c]) (
        piperead_loop p addr (i + 1) n))))"

definition piperead :: "uint \<Rightarrow> uint \<Rightarrow> int \<Rightarrow> (int, 'a kstate_scheme) code" where
  "piperead p addr n =
     kthen (acquire (LPipe (unat p))) (
     kbind (pipe_data p) (\<lambda>ok.
     if \<not> ok then kthen (release (LPipe (unat p))) (kreturn (-1))
     else
       kbind (piperead_loop p addr 0 (nat n)) (\<lambda>i.
       kthen (wakeup (CPipeWrite (unat p))) (
       kthen (release (LPipe (unat p))) (
       kreturn (int i))))))"

section \<open>Files\<close>

definition fileclose :: "nat \<Rightarrow> (unit, 'a kstate_scheme) code" where
  "fileclose f =
     kthen (acquire LFtable) (
     kbind (get_f f f_ref) (\<lambda>r.
     if r < 1 then kpanic ''fileclose''
     else
       kthen (upd_f f (\<lambda>v. v\<lparr>f_ref := f_ref v - 1\<rparr>)) (
       if r - 1 > 0 then release LFtable
       else
         kbind (get_f f id) (\<lambda>ff.
         kthen (upd_f f (\<lambda>v. v\<lparr>f_ref := 0, f_type := FD_NONE\<rparr>)) (
         kthen (release LFtable) (
         if f_type ff = FD_PIPE then pipeclose (f_pipe ff) (f_writable ff)
         else
           kwhen (f_type ff = FD_INODE) (
             kthen begin_op (
             kthen (iput (the (f_ip ff)))
             end_op))))))))"

text \<open>The test \<open>if(p) kfree(p)\<close> on the error path is never true: \<open>kalloc\<close> is the last step that can fail.\<close>

definition pipealloc :: "((nat \<times> nat) option, 'a kstate_scheme) code" where
  "pipealloc =
     kbind filealloc (\<lambda>m0.
     case m0 of
       None \<Rightarrow> kreturn None
     | Some f0 \<Rightarrow>
       kbind filealloc (\<lambda>m1.
       case m1 of
         None \<Rightarrow> kthen (fileclose f0) (kreturn None)
       | Some f1 \<Rightarrow>
         kbind kalloc (\<lambda>p.
         if p = 0 then kthen (fileclose f0) (kthen (fileclose f1) (kreturn None))
         else
           kthen (upd_pipe p (\<lambda>v. v\<lparr>pi_readopen := True, pi_writeopen := True, pi_nwrite := 0, pi_nread := 0\<rparr>)) (
           kthen (initlock (LPipe (unat p))) (
           kthen (upd_f f0 (\<lambda>v. v\<lparr>f_type := FD_PIPE, f_readable := True, f_writable := False, f_pipe := p\<rparr>)) (
           kthen (upd_f f1 (\<lambda>v. v\<lparr>f_type := FD_PIPE, f_readable := False, f_writable := True, f_pipe := p\<rparr>)) (
           kreturn (Some (f0, f1)))))))))"

text \<open>\<open>stati\<close> fills a \<open>struct stat\<close> in user memory: fields at 0, 4, 8, 12 and 16.\<close>

definition put_stat :: "uint \<Rightarrow> stat \<Rightarrow> (unit, 'a kstate_scheme) code" where
  "put_stat a st =
     kthen (vwrite (a + 4) (le_bytes 4 (nat (st_dev st mod 2 ^ 32)))) (
     kthen (vwrite (a + 8) (le_bytes 4 (st_ino st))) (
     kthen (vwrite a (le_bytes 2 (nat (st_type st mod 2 ^ 16)))) (
     kthen (vwrite (a + 12) (le_bytes 2 (nat (st_nlink st mod 2 ^ 16)))) (
     vwrite (a + 16) (le_bytes 4 (st_size st))))))"

definition filestat :: "nat \<Rightarrow> uint \<Rightarrow> (int, 'a kstate_scheme) code" where
  "filestat f a =
     kbind (get_f f id) (\<lambda>v.
     if f_type v = FD_INODE then
       kthen (ilock (f_ip v)) (
       kbind (stati (the (f_ip v))) (\<lambda>st.
       kthen (put_stat a st) (
       kthen (iunlock (f_ip v)) (
       kreturn 0))))
     else kreturn (-1))"

definition fileread :: "nat \<Rightarrow> uint \<Rightarrow> int \<Rightarrow> (int, 'a kstate_scheme) code" where
  "fileread f addr n =
     kbind (get_f f id) (\<lambda>v.
     if \<not> f_readable v then kreturn (-1)
     else if f_type v = FD_PIPE then piperead (f_pipe v) addr n
     else if f_type v = FD_INODE then
       kthen (ilock (f_ip v)) (
       kbind (get_f f f_off) (\<lambda>off.
       kbind (readi (the (f_ip v)) (ToVa addr) off (nat (n mod 2 ^ 32))) (\<lambda>(r, _).
       kthen (kwhen (r > 0) (upd_f f (\<lambda>v. v\<lparr>f_off := (f_off v + nat r) mod 2 ^ 32\<rparr>))) (
       kthen (iunlock (f_ip v)) (
       kreturn r)))))
     else kpanic ''fileread'')"

definition pread :: "nat \<Rightarrow> uint \<Rightarrow> int \<Rightarrow> int \<Rightarrow> (int, 'a kstate_scheme) code" where
  "pread f addr n off =
     kbind (get_f f id) (\<lambda>v.
     if \<not> f_readable v then kreturn (-1)
     else if f_type v = FD_PIPE then piperead (f_pipe v) addr n
     else if f_type v = FD_INODE then
       kthen (ilock (f_ip v)) (
       kbind (readi (the (f_ip v)) (ToVa addr) (nat (off mod 2 ^ 32)) (nat (n mod 2 ^ 32))) (\<lambda>(r, _).
       kthen (iunlock (f_ip v)) (
       kreturn r)))
     else kpanic ''pread'')"

abbreviation WRITE_MAX :: int where "WRITE_MAX \<equiv> ((int MAXOPBLOCKS - 1 - 1 - 2) div 2) * 512"

function filewrite_loop :: "nat \<Rightarrow> uint \<Rightarrow> int \<Rightarrow> int \<Rightarrow> (int, 'a kstate_scheme) code" where
  "filewrite_loop f addr i n =
     (if \<not> i < n then kreturn i
      else
        (let n1 = min (n - i) WRITE_MAX in
         kthen begin_op (
         kbind (get_f f f_ip) (\<lambda>mip.
         kthen (ilock mip) (
         kbind (get_f f f_off) (\<lambda>off.
         kbind (writei (the mip) (FromVa (addr + of_int i)) off (nat n1)) (\<lambda>r.
         kthen (kwhen (r > 0) (upd_f f (\<lambda>v. v\<lparr>f_off := (f_off v + nat r) mod 2 ^ 32\<rparr>))) (
         kthen (iunlock mip) (
         kthen end_op (
         if r < 0 then kreturn i
         else if r \<noteq> n1 then kpanic ''short filewrite''
         else filewrite_loop f addr (i + n1) n))))))))))"
  by auto

termination
  by (relation "measure (\<lambda>(f, addr, i, n). nat (n - i))") auto

declare filewrite_loop.simps [simp del]

definition filewrite :: "nat \<Rightarrow> uint \<Rightarrow> int \<Rightarrow> (int, 'a kstate_scheme) code" where
  "filewrite f addr n =
     kbind (get_f f id) (\<lambda>v.
     if \<not> f_writable v then kreturn (-1)
     else if f_type v = FD_PIPE then pipewrite (f_pipe v) addr n
     else if f_type v = FD_INODE then
       kbind (filewrite_loop f addr 0 n) (\<lambda>i. kreturn (if i = n then n else -1))
     else kpanic ''filewrite'')"

function pwrite_loop :: "nat \<Rightarrow> uint \<Rightarrow> int \<Rightarrow> int \<Rightarrow> int \<Rightarrow> (int, 'a kstate_scheme) code" where
  "pwrite_loop f addr off i n =
     (if \<not> i < n then kreturn i
      else
        (let n1 = min (n - i) WRITE_MAX in
         kthen begin_op (
         kbind (get_f f f_ip) (\<lambda>mip.
         kthen (ilock mip) (
         kbind (writei (the mip) (FromVa (addr + of_int i)) (nat (off mod 2 ^ 32)) (nat n1)) (\<lambda>r.
         kthen (iunlock mip) (
         kthen end_op (
         if r < 0 then kreturn i
         else if r \<noteq> n1 then kpanic ''short pwrite''
         else pwrite_loop f addr (i32 (off + r)) (i + n1) n))))))))"
  by auto

termination
  by (relation "measure (\<lambda>(f, addr, off, i, n). nat (n - i))") auto

declare pwrite_loop.simps [simp del]

definition pwrite :: "nat \<Rightarrow> uint \<Rightarrow> int \<Rightarrow> int \<Rightarrow> (int, 'a kstate_scheme) code" where
  "pwrite f addr n off =
     kbind (get_f f id) (\<lambda>v.
     if \<not> f_writable v then kreturn (-1)
     else if f_type v = FD_PIPE then pipewrite (f_pipe v) addr n
     else if f_type v = FD_INODE then
       kbind (pwrite_loop f addr off 0 n) (\<lambda>i. kreturn (if i = n then n else -1))
     else kpanic ''pwrite'')"

end
