(* ===== verification/ProcLife.thy ===== *)
theory ProcLife
  imports File
begin

text \<open>
  Creation and exit of processes and of light-weight processes (threads): the rest of
  \<open>src/xv6-public/proc.c\<close>. A \<open>struct proc *\<close> is a slot number. A thread is a slot with \<open>tid > 0\<close> whose
  \<open>manager\<close> is the slot of its process; it shares the page table of the manager and has two pages of
  its own, a guard page and a stack, whose address goes to the \<open>stack\<close> of the manager when the thread
  is reaped.
\<close>

section \<open>Allocation\<close>

definition pinit :: "(unit, 'a kstate_scheme) code" where
  "pinit = initlock LPtable"

definition new_proc :: "int \<Rightarrow> proc \<Rightarrow> proc" where
  "new_proc pid p = p\<lparr>p_state := EMBRYO, p_pid := pid, p_level := 0, p_ticks := 0, p_runtime := 0, p_pass_value := -1,
     p_stride := 0, p_portion := 0, p_tid := 0, p_nexttid := 1, p_stack_count := 0\<rparr>"

definition allocproc :: "(nat option, 'a kstate_scheme) code" where
  "allocproc =
     kthen (acquire LPtable) (
     kbind (kget (\<lambda>s. first_idx (\<lambda>p. p_state p = UNUSED) (procs (pt s)))) (\<lambda>f.
     case f of
       None \<Rightarrow> kthen (release LPtable) (kreturn None)
     | Some p \<Rightarrow>
       kbind (kget (\<lambda>s. nextpid (pt s))) (\<lambda>pid.
       kthen (kmod (upd_pt (\<lambda>t. t\<lparr>nextpid := i32 (nextpid t + 1)\<rparr>))) (
       kthen (upd_proc p (new_proc pid)) (
       kthen (release LPtable) (
       kbind kalloc (\<lambda>ks.
       kthen (upd_proc p (\<lambda>q. q\<lparr>p_kstack := ks\<rparr>)) (
       if ks = 0 then
         kthen (upd_proc p (\<lambda>q. q\<lparr>p_state := UNUSED\<rparr>)) (kreturn None)
       else
         kthen (upd_proc p (\<lambda>q. q\<lparr>p_context := CtxForkret\<rparr>)) (
         kreturn (Some p)))))))))) "

text \<open>\<open>safestrcpy\<close> into the 16 bytes of a process name.\<close>

definition name_copy :: "uchar list \<Rightarrow> uchar list \<Rightarrow> uchar list" where
  "name_copy dst src = map (safestrcpy 0 16 16 (two_strings dst src)) [0..<16]"

text \<open>The trap frame of the first process: the user segments, interrupts enabled, a one-page image.\<close>

definition user_tf :: "trapframe" where
  "user_tf = zero_tf\<lparr>tf_cs := 0x1B, tf_ds := 0x23, tf_es := 0x23, tf_ss := 0x23, tf_eflags := 0x200, tf_esp := 4096, tf_eip := 0\<rparr>"

definition userinit :: "uchar list \<Rightarrow> (unit, 'a kstate_scheme) code" where
  "userinit initcode =
     kbind allocproc (\<lambda>mp.
     kthen (kmod (upd_pt (\<lambda>t. t\<lparr>initproc := mp\<rparr>))) (
     case mp of
       None \<Rightarrow> kfault ''userinit''
     | Some p \<Rightarrow>
       kbind setupkvm (\<lambda>d.
       kthen (upd_proc p (\<lambda>q. q\<lparr>p_pgdir := d\<rparr>)) (
       if d = 0 then kpanic ''userinit: out of memory?''
       else
         kthen (inituvm d initcode) (
         kthen (upd_proc p (\<lambda>q. q\<lparr>p_sz := 4096, p_tf := user_tf, p_name := name_copy (p_name q) (map of_nat (asc ''initcode''))\<rparr>)) (
         kbind (namei [47]) (\<lambda>ip.
         kthen (upd_proc p (\<lambda>q. q\<lparr>p_cwd := ip\<rparr>)) (
         kthen (acquire LPtable) (
         kthen (upd_proc p (\<lambda>q. q\<lparr>p_state := RUNNABLE\<rparr>)) (
         release LPtable))))))))))"

text \<open>The manager of a slot, as \<open>growproc\<close>, \<open>fork\<close> and \<open>sys_sbrk\<close> determine it: the slot itself for a
  process; \<open>None\<close> for a negative \<open>tid\<close>. The \<open>manager\<close> pointer of a thread is not null.\<close>

definition mgr_slot :: "nat \<Rightarrow> (nat option, 'a kstate_scheme) code" where
  "mgr_slot p =
     kbind (get_proc p id) (\<lambda>q.
     if p_tid q > 0 then (case p_manager q of Some m \<Rightarrow> kreturn (Some m) | None \<Rightarrow> kfault ''manager'')
     else if p_tid q = 0 then kreturn (Some p)
     else kreturn None)"

definition growproc :: "int \<Rightarrow> (int, 'a kstate_scheme) code" where
  "growproc n =
     kbind my (\<lambda>p.
     kthen (acquire LPtable) (
     kbind (mgr_slot p) (\<lambda>m.
     case m of
       None \<Rightarrow> kthen (release LPtable) (kreturn (-1))
     | Some mgr \<Rightarrow>
       kbind (get_proc mgr p_sz) (\<lambda>sz.
       kbind (get_proc p p_pgdir) (\<lambda>d.
       kbind (if n > 0 then allocuvm d sz (sz + of_int n)
              else if n < 0 then deallocuvm d sz (sz + of_int n) else kreturn sz) (\<lambda>sz.
       if n \<noteq> 0 \<and> sz = 0 then kthen (release LPtable) (kreturn (-1))
       else
         kthen (upd_proc mgr (\<lambda>q. q\<lparr>p_sz := sz\<rparr>)) (
         kthen (release LPtable) (
         kthen (switchuvm (Some p)) (
         kreturn 0))))))))) "

section \<open>Creation\<close>

text \<open>Duplicate the open files, the current directory and the name of \<open>p\<close> for \<open>np\<close>.\<close>

definition dup_files :: "nat \<Rightarrow> nat \<Rightarrow> (unit, 'a kstate_scheme) code" where
  "dup_files p np =
     kthen (kiter (\<lambda>i.
       kbind (get_proc p (\<lambda>q. p_ofile q ! i)) (\<lambda>f.
       case f of
         None \<Rightarrow> kreturn ()
       | Some f \<Rightarrow> kbind (filedup f) (\<lambda>f. upd_proc np (\<lambda>q. q\<lparr>p_ofile := (p_ofile q)[i := Some f]\<rparr>)))) [0..<16]) (
     kbind (get_proc p p_cwd) (\<lambda>c.
     case c of
       None \<Rightarrow> kfault ''cwd''
     | Some d \<Rightarrow>
       kbind (idup d) (\<lambda>d.
       kthen (upd_proc np (\<lambda>q. q\<lparr>p_cwd := Some d\<rparr>)) (
       kbind (get_proc p p_name) (\<lambda>nm.
       upd_proc np (\<lambda>q. q\<lparr>p_name := name_copy (p_name q) nm\<rparr>))))))"

text \<open>The label \<open>bad\<close> of \<open>fork\<close> and \<open>thread_create\<close>.\<close>

definition drop_proc :: "nat \<Rightarrow> (int, 'a kstate_scheme) code" where
  "drop_proc np =
     kbind (get_proc np p_kstack) (\<lambda>ks.
     kthen (kfree ks) (
     kthen (upd_proc np (\<lambda>q. q\<lparr>p_kstack := 0, p_state := UNUSED\<rparr>)) (
     kreturn (-1))))"

definition make_runnable :: "nat \<Rightarrow> (unit, 'a kstate_scheme) code" where
  "make_runnable np =
     kthen (acquire LPtable) (
     kthen (upd_proc np (\<lambda>q. q\<lparr>p_state := RUNNABLE\<rparr>)) (
     release LPtable))"

definition fork :: "(int, 'a kstate_scheme) code" where
  "fork =
     kbind my (\<lambda>p.
     kbind allocproc (\<lambda>mnp.
     case mnp of
       None \<Rightarrow> kreturn (-1)
     | Some np \<Rightarrow>
       kbind (mgr_slot p) (\<lambda>m.
       case m of
         None \<Rightarrow> drop_proc np
       | Some mgr \<Rightarrow>
         kbind (get_proc mgr p_sz) (\<lambda>sz.
         kbind (get_proc p p_pgdir) (\<lambda>d.
         kbind (copyuvm d sz) (\<lambda>nd.
         kthen (upd_proc np (\<lambda>q. q\<lparr>p_pgdir := nd\<rparr>)) (
         if nd = 0 then drop_proc np
         else
           kbind (get_proc p p_tf) (\<lambda>tf.
           kthen (upd_proc np (\<lambda>q. q\<lparr>p_sz := sz, p_parent := Some p, p_tf := tf\<lparr>tf_eax := 0\<rparr>\<rparr>)) (
           kthen (dup_files p np) (
           kbind (get_proc np p_pid) (\<lambda>pid.
           kthen (make_runnable np) (
           kreturn pid))))))))))))"

definition thread_create :: "uint \<Rightarrow> uint \<Rightarrow> uint \<Rightarrow> (int, 'a kstate_scheme) code" where
  "thread_create thread start_routine arg =
     kbind my (\<lambda>p.
     kbind allocproc (\<lambda>mnp.
     case mnp of
       None \<Rightarrow> kreturn (-1)
     | Some np \<Rightarrow>
       kbind (mgr_slot p) (\<lambda>m.
       case m of
         None \<Rightarrow> drop_proc np
       | Some c \<Rightarrow>
         kbind (get_proc c id) (\<lambda>q.
         kthen (upd_proc c (\<lambda>q. q\<lparr>p_nexttid := i32 (p_nexttid q + 1)\<rparr>)) (
         kthen (upd_proc np (\<lambda>n. n\<lparr>p_manager := Some c, p_tid := p_nexttid q, p_tf := p_tf q, p_pgdir := p_pgdir q\<rparr>)) (
         kthen (dup_files c np) (
         kthen (vwrite thread (le_bytes 4 (nat (p_nexttid q mod 2 ^ 32)))) (
         kbind (get_proc c id) (\<lambda>q.
         if p_stack_count q < 0 then drop_proc np
         else
           kbind (if p_stack_count q = 0
                  then kthen (upd_proc c (\<lambda>q. q\<lparr>p_sz := p_sz q + 8192\<rparr>)) (kreturn (p_sz q))
                  else kthen (upd_proc c (\<lambda>q. q\<lparr>p_stack_count := p_stack_count q - 1\<rparr>))
                       (kreturn (p_stack q ! nat (p_stack_count q - 1)))) (\<lambda>sz.
           let sz = PGROUNDUP sz in
           kbind (get_proc np p_pgdir) (\<lambda>d.
           kbind (allocuvm d sz (sz + 8192)) (\<lambda>nsz.
           kthen (upd_proc np (\<lambda>n. n\<lparr>p_sz := nsz\<rparr>)) (
           if nsz = 0 then drop_proc np
           else
             kthen (clearpteu d (nsz - 8192)) (
             let sp = nsz - 8 in
             kbind (copyout d sp (le_bytes 4 0xFFFFFFFF @ le_bytes 4 (unat arg))) (\<lambda>r.
             if r < 0 then drop_proc np
             else
               kthen (upd_proc np (\<lambda>n. n\<lparr>p_tf := (p_tf n)\<lparr>tf_esp := sp, tf_eip := start_routine\<rparr>\<rparr>)) (
               kthen (make_runnable np) (
               kreturn 0)))))))))))))))))"

section \<open>Exit\<close>

definition close_files :: "nat \<Rightarrow> (unit, 'a kstate_scheme) code" where
  "close_files p =
     kthen (kiter (\<lambda>fd.
       kbind (get_proc p (\<lambda>q. p_ofile q ! fd)) (\<lambda>f.
       case f of
         None \<Rightarrow> kreturn ()
       | Some f \<Rightarrow> kthen (fileclose f) (upd_proc p (\<lambda>q. q\<lparr>p_ofile := (p_ofile q)[fd := None]\<rparr>)))) [0..<16]) (
     kthen begin_op (
     kbind (get_proc p p_cwd) (\<lambda>c.
     case c of
       None \<Rightarrow> kfault ''cwd''
     | Some d \<Rightarrow>
       kthen (iput d) (
       kthen end_op (
       upd_proc p (\<lambda>q. q\<lparr>p_cwd := None\<rparr>))))))"

definition clear_lwp :: "proc \<Rightarrow> proc" where
  "clear_lwp p = p\<lparr>p_kstack := 0, p_pid := 0, p_parent := None, p_name := (p_name p)[0 := 0], p_killed := False, p_state := UNUSED,
     p_level := 0, p_ticks := 0, p_runtime := 0, p_pass_value := -1, p_stride := 0, p_portion := 0,
     p_tid := 0, p_manager := None, p_nexttid := 1, p_stack_count := 0\<rparr>"

text \<open>Free what a zombie thread \<open>p\<close> of \<open>mgr\<close> holds and give its stack pages back; \<open>False\<close> when \<open>deallocuvm\<close>
  gives 0. The array \<open>stack\<close> has \<open>NPROC\<close> entries.\<close>

definition reap_lwp :: "nat \<Rightarrow> nat \<Rightarrow> (bool, 'a kstate_scheme) code" where
  "reap_lwp mgr p =
     kbind (get_proc p id) (\<lambda>q.
     kthen (kfree (p_kstack q)) (
     kthen (upd_proc p clear_lwp) (
     kbind (deallocuvm (p_pgdir q) (p_sz q) (p_sz q - 8192)) (\<lambda>sz.
     if sz = 0 then kreturn False
     else
       kbind (get_proc mgr p_stack_count) (\<lambda>n.
       if \<not> (0 \<le> n \<and> n < int NPROC) then kfault ''stack index out of range''
       else
         kthen (upd_proc mgr (\<lambda>m. m\<lparr>p_stack := (p_stack m)[nat n := sz], p_stack_count := n + 1\<rparr>)) (
         kthen (upd_proc mgr (\<lambda>m. m\<lparr>p_nexttid := i32 (p_nexttid m - 1)\<rparr>)) (
         kreturn True)))))))"

definition kill_lwp :: "proc \<Rightarrow> proc" where
  "kill_lwp p = (let p = p\<lparr>p_killed := True\<rparr> in if p_state p = SLEEPING then p\<lparr>p_state := RUNNABLE\<rparr> else p)"

definition exit_lwp :: "nat \<Rightarrow> nat option \<Rightarrow> nat \<Rightarrow> (unit option, 'a kstate_scheme) code" where
  "exit_lwp mgr lwp p =
     kbind (get_proc p id) (\<lambda>q.
     if p_manager q \<noteq> Some mgr \<or> Some p = lwp then kreturn None
     else if p_state q \<noteq> ZOMBIE then kthen (upd_proc p kill_lwp) (kreturn None)
     else kbind (reap_lwp mgr p) (\<lambda>ok. kreturn (if ok then None else Some ())))"

definition abandon_children :: "nat \<Rightarrow> (unit, 'a kstate_scheme) code" where
  "abandon_children p =
     kiter (\<lambda>i.
       kbind (get_proc i id) (\<lambda>q.
       kwhen (p_parent q = Some p) (
         kbind (kget (\<lambda>s. initproc (pt s))) (\<lambda>init.
         kthen (upd_proc i (\<lambda>q. q\<lparr>p_parent := init\<rparr>)) (
         kwhen (p_state q = ZOMBIE) (case init of Some j \<Rightarrow> wakeup1 (CProc j) | None \<Rightarrow> kreturn ())))))) [0..<NPROC]"

definition wake_slot :: "nat option \<Rightarrow> (unit, 'a kstate_scheme) code" where
  "wake_slot m = (case m of Some j \<Rightarrow> wakeup1 (CProc j) | None \<Rightarrow> kreturn ())"

definition exit :: "(unit, 'a kstate_scheme) code" where
  "exit =
     kbind my (\<lambda>p.
     kbind (kget (\<lambda>s. initproc (pt s))) (\<lambda>init.
     if init = Some p then kpanic ''init exiting''
     else
       kbind (get_proc p id) (\<lambda>q.
       kthen (kwhen (p_pid q > 0 \<and> p_pass_value q \<noteq> -1) (
         kbind pop_code (\<lambda>_.
         kmod (upd_pt (\<lambda>t. t\<lparr>stride_tickets := i32 (stride_tickets t - p_portion q)\<rparr>))))) (
       if p_tid q < 0 then kreturn ()
       else
         kbind (mgr_slot p) (\<lambda>m.
         let mgr = the m; lwp = (if p_tid q > 0 then Some p else None) in
         kthen (acquire LPtable) (
         kbind (kfirst (exit_lwp mgr lwp) [0..<NPROC]) (\<lambda>r.
         kthen (release LPtable) (
         if r \<noteq> None then kreturn ()
         else
           kthen (close_files p) (
           kthen (acquire LPtable) (
           kbind (get_proc p id) (\<lambda>q.
           kthen (if p_tid q = 0 then wake_slot (p_parent q)
                  else
                    kthen (upd_proc (the (p_manager q)) (\<lambda>m. m\<lparr>p_killed := True\<rparr>)) (
                    wake_slot (p_manager q))) (
           kthen (abandon_children p) (
           kthen (upd_proc p (\<lambda>q. q\<lparr>p_state := ZOMBIE\<rparr>)) (
           kthen sched (
           kpanic ''zombie exit'')))))))))))))))"

definition thread_exit :: "uint \<Rightarrow> (unit, 'a kstate_scheme) code" where
  "thread_exit retval =
     kbind my (\<lambda>p.
     kbind (kget (\<lambda>s. initproc (pt s))) (\<lambda>init.
     if init = Some p then kpanic ''init exiting''
     else
       kbind (get_proc p p_tid) (\<lambda>tid.
       if tid = 0 then cprintf (asc ''Manager process cannot call thread_exit.'' @ [10]) []
       else
         kthen (close_files p) (
         kthen (acquire LPtable) (
         kthen (upd_proc p (\<lambda>q. q\<lparr>p_retval := retval\<rparr>)) (
         kbind (get_proc p p_manager) (\<lambda>m.
         kthen (wake_slot m) (
         kthen (upd_proc p (\<lambda>q. q\<lparr>p_state := ZOMBIE\<rparr>)) (
         kthen sched (
         kpanic ''zombie exit''))))))))))"

section \<open>Waiting\<close>

definition clear_child :: "proc \<Rightarrow> proc" where
  "clear_child p = p\<lparr>p_kstack := 0, p_pid := 0, p_parent := None, p_name := (p_name p)[0 := 0], p_killed := False, p_state := UNUSED\<rparr>"

definition wait :: "(int, 'a kstate_scheme) code" where
  "wait =
     kbind my (\<lambda>p.
     kthen (acquire LPtable) (
     kloop (
       kbind (kget (\<lambda>s. procs (pt s))) (\<lambda>ps.
       case first_idx (\<lambda>q. p_parent q = Some p \<and> p_state q = ZOMBIE) ps of
         Some c \<Rightarrow>
           kthen (kfree (p_kstack (ps ! c))) (
           kthen (upd_proc c (\<lambda>q. q\<lparr>p_kstack := 0\<rparr>)) (
           kthen (freevm (p_pgdir (ps ! c))) (
           kthen (upd_proc c clear_child) (
           kthen (release LPtable) (
           kreturn (Some (p_pid (ps ! c))))))))
       | None \<Rightarrow>
         if (\<forall>q \<in> set ps. p_parent q \<noteq> Some p) \<or> p_killed (ps ! p)
         then kthen (release LPtable) (kreturn (Some (-1)))
         else kthen (sleep (CProc p) (Some LPtable)) (kreturn None)))))"

definition thread_join :: "int \<Rightarrow> uint \<Rightarrow> (int, 'a kstate_scheme) code" where
  "thread_join thread retval =
     kbind my (\<lambda>p.
     kbind (get_proc p p_tid) (\<lambda>tid.
     if tid \<noteq> 0 then
       kthen (cprintf (asc ''Only manager process can call thread_join'' @ [10]) []) (kreturn (-1))
     else
       kthen (acquire LPtable) (
       kloop (
         kbind (kget (\<lambda>s. procs (pt s))) (\<lambda>ps.
         case first_idx (\<lambda>q. p_manager q = Some p \<and> p_tid q = thread \<and> p_state q = ZOMBIE) ps of
           Some c \<Rightarrow>
             kthen (vwrite retval (le_bytes 4 (unat (p_retval (ps ! c))))) (
             kbind (reap_lwp p c) (\<lambda>ok.
             kthen (release LPtable) (
             kreturn (Some (if ok then 0 else -1)))))
         | None \<Rightarrow>
           if (\<forall>q \<in> set ps. \<not> (p_manager q = Some p \<and> p_tid q = thread)) \<or> p_killed (ps ! p)
           then kthen (release LPtable) (kreturn (Some (-1)))
           else kthen (sleep (CProc p) (Some LPtable)) (kreturn None))))))"

definition forkret :: "(unit, 'a kstate_scheme) code" where
  "forkret =
     kthen (release LPtable) (
     kbind (kget first_run) (\<lambda>first.
     kwhen first (
       kthen (kmod (\<lambda>s. s\<lparr>first_run := False\<rparr>)) (
       kthen (iinit ROOTDEV) (
       initlog ROOTDEV)))))"

end
