(* ===== verification/Exec.thy ===== *)
theory Exec
  imports ProcLife
begin

text \<open>
  Loading programs: \<open>loaduvm\<close> of \<open>src/xv6-public/vm.c\<close>, \<open>exec.c\<close> and the ELF headers of \<open>elf.h\<close>. A path or
  an argument string is the list of its characters.
\<close>

section \<open>ELF headers\<close>

record elfhdr =
  e_magic :: nat
  e_entry :: nat
  e_phoff :: nat
  e_phnum :: nat

definition get_elfhdr :: "uchar list \<Rightarrow> elfhdr" where
  "get_elfhdr bs = \<lparr>e_magic = get32 bs 0, e_entry = get32 bs 24, e_phoff = get32 bs 28, e_phnum = get16 bs 44\<rparr>"

record proghdr =
  ph_type :: nat
  ph_off :: nat
  ph_vaddr :: nat
  ph_filesz :: nat
  ph_memsz :: nat

definition get_proghdr :: "uchar list \<Rightarrow> proghdr" where
  "get_proghdr bs = \<lparr>ph_type = get32 bs 0, ph_off = get32 bs 4, ph_vaddr = get32 bs 8, ph_filesz = get32 bs 16, ph_memsz = get32 bs 20\<rparr>"

abbreviation ELF_MAGIC :: nat where "ELF_MAGIC \<equiv> 0x464C457F"
abbreviation MAXARG :: nat where "MAXARG \<equiv> 32"

section \<open>Loading\<close>

definition loaduvm :: "uint \<Rightarrow> uint \<Rightarrow> nat \<Rightarrow> nat \<Rightarrow> nat \<Rightarrow> (int, 'a kstate_scheme) code" where
  "loaduvm pgdir addr ip offset sz =
     (if addr mod 4096 \<noteq> 0 then kpanic ''loaduvm: addr must be page aligned''
      else
        kbind (kfirst (\<lambda>k.
          let i = PGSIZE * k in
          kbind (walkpgdir pgdir (addr + of_nat i) False) (\<lambda>p.
          case p of
            None \<Rightarrow> kpanic ''loaduvm: address should exist''
          | Some pte \<Rightarrow>
            kbind (rd32 pte) (\<lambda>e.
            let n = min (sz - i) PGSIZE in
            kbind (readi ip (ToVa (P2V (PTE_ADDR e))) ((offset + i) mod 2 ^ 32) n) (\<lambda>(r, _).
            kreturn (if r \<noteq> int n then Some () else None))))) [0..<(sz + 4095) div PGSIZE]) (\<lambda>r.
        kreturn (case r of None \<Rightarrow> 0 | Some _ \<Rightarrow> -1)))"

text \<open>One program header. \<open>None\<close> is the jump to \<open>bad\<close>, otherwise the new size.\<close>

definition load_segment :: "uint \<Rightarrow> nat \<Rightarrow> nat \<Rightarrow> uint \<Rightarrow> (uint option, 'a kstate_scheme) code" where
  "load_segment pgdir ip off sz =
     kbind (readi ip ToBuf (off mod 2 ^ 32) 32) (\<lambda>(r, bs).
     if r \<noteq> 32 then kreturn None
     else
       (let ph = get_proghdr bs in
        if ph_type ph \<noteq> 1 then kreturn (Some sz)
        else if ph_memsz ph < ph_filesz ph then kreturn None
        else if (ph_vaddr ph + ph_memsz ph) mod 2 ^ 32 < ph_vaddr ph then kreturn None
        else
          kbind (allocuvm pgdir sz (of_nat (ph_vaddr ph + ph_memsz ph))) (\<lambda>sz.
          if sz = 0 then kreturn None
          else if ph_vaddr ph mod PGSIZE \<noteq> 0 then kreturn None
          else
            kbind (loaduvm pgdir (of_nat (ph_vaddr ph)) ip (ph_off ph) (ph_filesz ph)) (\<lambda>r.
            kreturn (if r < 0 then None else Some sz)))))"

primrec load_segments :: "uint \<Rightarrow> nat \<Rightarrow> nat \<Rightarrow> nat \<Rightarrow> uint \<Rightarrow> (uint option, 'a kstate_scheme) code" where
  "load_segments pgdir ip off 0 sz = kreturn (Some sz)"
| "load_segments pgdir ip off (Suc n) sz =
     kbind (load_segment pgdir ip off sz) (\<lambda>r.
     case r of
       None \<Rightarrow> kreturn None
     | Some sz \<Rightarrow> load_segments pgdir ip (off + 32) n sz)"

text \<open>Push the argument strings; the stack pointers of the strings come back in order.\<close>

fun push_args :: "uint \<Rightarrow> uint \<Rightarrow> nat \<Rightarrow> uchar list list \<Rightarrow> uint list \<Rightarrow> ((uint \<times> uint list) option, 'a kstate_scheme) code" where
  "push_args pgdir sp argc [] acc = kreturn (Some (sp, acc))"
| "push_args pgdir sp argc (arg # args) acc =
     (if argc \<ge> MAXARG then kreturn None
      else
        (let sp = (sp - of_nat (length arg + 1)) AND NOT 3 in
         kbind (copyout pgdir sp (arg @ [0])) (\<lambda>r.
         if r < 0 then kreturn None
         else push_args pgdir sp (argc + 1) args (acc @ [sp]))))"

text \<open>The words below the strings: a fake return address, \<open>argc\<close>, \<open>argv\<close>, the pointers and a zero.\<close>

definition ustack_words :: "uint \<Rightarrow> uint list \<Rightarrow> uint list" where
  "ustack_words sp ptrs = [0xFFFFFFFF, of_nat (length ptrs), sp - of_nat ((length ptrs + 1) * 4)] @ ptrs @ [0]"

definition exec_stack :: "uint \<Rightarrow> uint \<Rightarrow> uchar list list \<Rightarrow> ((uint \<times> uint) option, 'a kstate_scheme) code" where
  "exec_stack pgdir sz argv =
     (let sz = PGROUNDUP sz in
      kbind (allocuvm pgdir sz (sz + 8192)) (\<lambda>sz.
      if sz = 0 then kreturn None
      else
        kthen (clearpteu pgdir (sz - 8192)) (
        kbind (push_args pgdir sz 0 argv []) (\<lambda>r.
        case r of
          None \<Rightarrow> kreturn None
        | Some (sp, ptrs) \<Rightarrow>
          (let ws = ustack_words sp ptrs; sp = sp - of_nat ((3 + length ptrs + 1) * 4) in
           kbind (copyout pgdir sp (concat (map (\<lambda>w. le_bytes 4 (unat w)) ws))) (\<lambda>r.
           kreturn (if r < 0 then None else Some (sz, sp))))))))"

text \<open>The label \<open>bad\<close>, with what is held there.\<close>

definition exec_bad :: "uint \<Rightarrow> nat option \<Rightarrow> (int, 'a kstate_scheme) code" where
  "exec_bad pgdir mip =
     kthen (kwhen (pgdir \<noteq> 0) (freevm pgdir)) (
     kthen (case mip of None \<Rightarrow> kreturn () | Some ip \<Rightarrow> kthen (iunlockput ip) end_op) (
     kreturn (-1)))"

text \<open>The last component of the path.\<close>

definition base_name :: "uchar list \<Rightarrow> uchar list" where
  "base_name path = rev (takeWhile (\<lambda>c. c \<noteq> 47) (rev path))"

definition exec_commit :: "nat \<Rightarrow> uchar list \<Rightarrow> uint \<Rightarrow> uint \<Rightarrow> uint \<Rightarrow> uint \<Rightarrow> (int, 'a kstate_scheme) code" where
  "exec_commit p path pgdir sz sp entry =
     kthen (upd_proc p (\<lambda>q. q\<lparr>p_name := name_copy (p_name q) (base_name path)\<rparr>)) (
     kbind (get_proc p id) (\<lambda>q.
     if p_tid q < 0 then exec_bad pgdir None
     else
       kthen (if p_tid q > 0 then cleanup_lwp (p_manager q) (Some p) else cleanup_lwp (Some p) None) (
       kbind (get_proc p p_pgdir) (\<lambda>oldpgdir.
       kthen (upd_proc p (\<lambda>q. q\<lparr>p_pgdir := pgdir, p_sz := sz, p_tf := (p_tf q)\<lparr>tf_eip := entry, tf_esp := sp\<rparr>\<rparr>)) (
       kthen (switchuvm (Some p)) (
       kthen (kwhen (p_tid q = 0) (freevm oldpgdir)) (
       kreturn 0)))))))"

definition exec :: "uchar list \<Rightarrow> uchar list list \<Rightarrow> (int, 'a kstate_scheme) code" where
  "exec path argv =
     kbind my (\<lambda>p.
     kthen begin_op (
     kbind (namei path) (\<lambda>mip.
     case mip of
       None \<Rightarrow>
         kthen end_op (
         kthen (cprintf (asc ''exec: fail'' @ [10]) []) (
         kreturn (-1)))
     | Some ip \<Rightarrow>
       kthen (ilock (Some ip)) (
       kbind (readi ip ToBuf 0 52) (\<lambda>(r, bs).
       let elf = get_elfhdr bs in
       if r \<noteq> 52 \<or> e_magic elf \<noteq> ELF_MAGIC then exec_bad 0 (Some ip)
       else
         kbind setupkvm (\<lambda>pgdir.
         if pgdir = 0 then exec_bad 0 (Some ip)
         else
           kbind (load_segments pgdir ip (e_phoff elf) (e_phnum elf) 0) (\<lambda>r.
           case r of
             None \<Rightarrow> exec_bad pgdir (Some ip)
           | Some sz \<Rightarrow>
             kthen (iunlockput ip) (
             kthen end_op (
             kbind (exec_stack pgdir sz argv) (\<lambda>r.
             case r of
               None \<Rightarrow> exec_bad pgdir None
             | Some (sz, sp) \<Rightarrow> exec_commit p path pgdir sz sp (of_nat (e_entry elf))))))))))))"

end
