(* ===== verification/Sysfile.thy ===== *)
theory Sysfile
  imports Exec
begin

text \<open>
  System call arguments (\<open>src/xv6-public/syscall.c\<close>) and the file system calls (\<open>sysfile.c\<close>). An argument that
  cannot be fetched is \<open>None\<close>, the result -1 of the C function.
\<close>

section \<open>Arguments\<close>

definition kopt :: "('b option, 's) code \<Rightarrow> ('b \<Rightarrow> (int, 's) code) \<Rightarrow> (int, 's) code" where
  "kopt m f = kbind m (\<lambda>x. case x of None \<Rightarrow> kreturn (-1) | Some a \<Rightarrow> f a)"

definition fetchint :: "uint \<Rightarrow> (int option, 'a kstate_scheme) code" where
  "fetchint addr =
     kbind my (\<lambda>p.
     kbind (get_proc p p_sz) (\<lambda>sz.
     if addr \<ge> sz \<or> addr + 4 > sz then kreturn None
     else kbind (vread addr 4) (\<lambda>bs. kreturn (Some (geti32 bs 0)))))"

primrec fetchstr_loop :: "uint \<Rightarrow> nat \<Rightarrow> uchar list \<Rightarrow> (uchar list option, 'a kstate_scheme) code" where
  "fetchstr_loop s 0 acc = kreturn None"
| "fetchstr_loop s (Suc n) acc =
     kbind (vread s 1) (\<lambda>bs.
     if hd bs = 0 then kreturn (Some acc) else fetchstr_loop (s + 1) n (acc @ [hd bs]))"

definition fetchstr :: "uint \<Rightarrow> (uchar list option, 'a kstate_scheme) code" where
  "fetchstr addr =
     kbind my (\<lambda>p.
     kbind (get_proc p p_sz) (\<lambda>sz.
     if addr \<ge> sz then kreturn None else fetchstr_loop addr (unat sz - unat addr) []))"

definition argint :: "nat \<Rightarrow> (int option, 'a kstate_scheme) code" where
  "argint n = kbind my (\<lambda>p. kbind (get_proc p (\<lambda>q. tf_esp (p_tf q))) (\<lambda>esp. fetchint (esp + 4 + 4 * of_nat n)))"

definition argptr :: "nat \<Rightarrow> int \<Rightarrow> (uint option, 'a kstate_scheme) code" where
  "argptr n len =
     kbind my (\<lambda>p.
     kbind (argint n) (\<lambda>m.
     case m of
       None \<Rightarrow> kreturn None
     | Some i \<Rightarrow>
       kbind (get_proc p p_sz) (\<lambda>sz.
       kreturn (if len < 0 \<or> of_int i \<ge> sz \<or> of_int i + of_int len > sz then None else Some (of_int i)))))"

definition argstr :: "nat \<Rightarrow> (uchar list option, 'a kstate_scheme) code" where
  "argstr n = kbind (argint n) (\<lambda>m. case m of None \<Rightarrow> kreturn None | Some a \<Rightarrow> fetchstr (of_int a))"

definition argfd :: "nat \<Rightarrow> ((nat \<times> nat) option, 'a kstate_scheme) code" where
  "argfd n =
     kbind (argint n) (\<lambda>m.
     case m of
       None \<Rightarrow> kreturn None
     | Some fd \<Rightarrow>
       if fd < 0 \<or> fd \<ge> 16 then kreturn None
       else
         kbind my (\<lambda>p.
         kbind (get_proc p (\<lambda>q. p_ofile q ! nat fd)) (\<lambda>f.
         kreturn (map_option (\<lambda>f. (nat fd, f)) f))))"

definition fdalloc :: "nat \<Rightarrow> (int, 'a kstate_scheme) code" where
  "fdalloc f =
     kbind my (\<lambda>p.
     kbind (get_proc p (\<lambda>q. first_idx (\<lambda>x. x = None) (p_ofile q))) (\<lambda>r.
     case r of
       None \<Rightarrow> kreturn (-1)
     | Some fd \<Rightarrow> kthen (upd_proc p (\<lambda>q. q\<lparr>p_ofile := (p_ofile q)[fd := Some f]\<rparr>)) (kreturn (int fd))))"

section \<open>Descriptors\<close>

definition sys_dup :: "(int, 'a kstate_scheme) code" where
  "sys_dup =
     kopt (argfd 0) (\<lambda>(_, f).
     kbind (fdalloc f) (\<lambda>fd.
     if fd < 0 then kreturn (-1)
     else kthen (filedup f) (kreturn fd)))"

definition sys_read :: "(int, 'a kstate_scheme) code" where
  "sys_read = kopt (argfd 0) (\<lambda>(_, f). kopt (argint 2) (\<lambda>n. kopt (argptr 1 n) (\<lambda>p. fileread f p n)))"

definition sys_write :: "(int, 'a kstate_scheme) code" where
  "sys_write = kopt (argfd 0) (\<lambda>(_, f). kopt (argint 2) (\<lambda>n. kopt (argptr 1 n) (\<lambda>p. filewrite f p n)))"

definition sys_pread :: "(int, 'a kstate_scheme) code" where
  "sys_pread =
     kopt (argfd 0) (\<lambda>(_, f). kopt (argint 2) (\<lambda>n. kopt (argptr 1 n) (\<lambda>addr. kopt (argint 3) (\<lambda>off. pread f addr n off))))"

definition sys_pwrite :: "(int, 'a kstate_scheme) code" where
  "sys_pwrite =
     kopt (argfd 0) (\<lambda>(_, f). kopt (argint 2) (\<lambda>n. kopt (argptr 1 n) (\<lambda>addr. kopt (argint 3) (\<lambda>off. pwrite f addr n off))))"

definition sys_close :: "(int, 'a kstate_scheme) code" where
  "sys_close =
     kopt (argfd 0) (\<lambda>(fd, f).
     kbind my (\<lambda>p.
     kthen (upd_proc p (\<lambda>q. q\<lparr>p_ofile := (p_ofile q)[fd := None]\<rparr>)) (
     kthen (fileclose f) (
     kreturn 0))))"

definition sys_fstat :: "(int, 'a kstate_scheme) code" where
  "sys_fstat = kopt (argfd 0) (\<lambda>(_, f). kopt (argptr 1 20) (\<lambda>st. filestat f st))"

definition sys_pipe :: "(int, 'a kstate_scheme) code" where
  "sys_pipe =
     kopt (argptr 0 8) (\<lambda>fd.
     kopt pipealloc (\<lambda>(rf, wf).
     kbind (fdalloc rf) (\<lambda>fd0.
     if fd0 < 0 then kthen (fileclose rf) (kthen (fileclose wf) (kreturn (-1)))
     else
       kbind (fdalloc wf) (\<lambda>fd1.
       if fd1 < 0 then
         kbind my (\<lambda>p.
         kthen (upd_proc p (\<lambda>q. q\<lparr>p_ofile := (p_ofile q)[nat fd0 := None]\<rparr>)) (
         kthen (fileclose rf) (
         kthen (fileclose wf) (
         kreturn (-1)))))
       else
         kthen (vwrite fd (le_bytes 4 (nat fd0))) (
         kthen (vwrite (fd + 4) (le_bytes 4 (nat fd1))) (
         kreturn 0))))))"

section \<open>Directory operations\<close>

definition sys_link :: "(int, 'a kstate_scheme) code" where
  "sys_link =
     kopt (argstr 0) (\<lambda>old.
     kopt (argstr 1) (\<lambda>new.
     kthen begin_op (
     kbind (namei old) (\<lambda>mip.
     case mip of
       None \<Rightarrow> kthen end_op (kreturn (-1))
     | Some ip \<Rightarrow>
       kthen (ilock (Some ip)) (
       kbind (get_ip ip i_type) (\<lambda>ty.
       if ty = T_DIR then kthen (iunlockput ip) (kthen end_op (kreturn (-1)))
       else
         kthen (upd_ip ip (\<lambda>n. n\<lparr>i_nlink := i16 (i_nlink n + 1)\<rparr>)) (
         kthen (iupdate ip) (
         kthen (iunlock (Some ip)) (
         let bad = kthen (ilock (Some ip)) (
                   kthen (upd_ip ip (\<lambda>n. n\<lparr>i_nlink := i16 (i_nlink n - 1)\<rparr>)) (
                   kthen (iupdate ip) (
                   kthen (iunlockput ip) (
                   kthen end_op (
                   kreturn (-1)))))) in
         kbind (nameiparent new) (\<lambda>mdp.
         case mdp of
           None \<Rightarrow> bad
         | Some (dp, name) \<Rightarrow>
           kthen (ilock (Some dp)) (
           kbind (get_ip dp i_dev) (\<lambda>ddev.
           kbind (get_ip ip id) (\<lambda>n.
           kbind (if ddev \<noteq> i_dev n then kreturn (-1) else dirlink dp name (i_inum n)) (\<lambda>r.
           kthen (iunlockput dp) (
           if r < 0 then bad
           else kthen (iput ip) (kthen end_op (kreturn 0)))))))))))))))))"

definition isdirempty :: "nat \<Rightarrow> (bool, 'a kstate_scheme) code" where
  "isdirempty dp =
     kbind (get_ip dp i_size) (\<lambda>size.
     kbind (kfirst (\<lambda>k.
       kbind (readi dp ToBuf (16 * k) 16) (\<lambda>(r, bs).
       if r \<noteq> 16 then kpanic ''isdirempty: readi''
       else kreturn (if d_inum (get_dirent bs) \<noteq> 0 then Some () else None))) [2..<(size + 15) div 16]) (\<lambda>r.
     kreturn (r = None)))"

definition sys_unlink :: "(int, 'a kstate_scheme) code" where
  "sys_unlink =
     kopt (argstr 0) (\<lambda>path.
     kthen begin_op (
     kbind (nameiparent path) (\<lambda>mdp.
     case mdp of
       None \<Rightarrow> kthen end_op (kreturn (-1))
     | Some (dp, name) \<Rightarrow>
       (let bad = kthen (iunlockput dp) (kthen end_op (kreturn (-1))) in
        kthen (ilock (Some dp)) (
        if namecmp name [46] = 0 \<or> namecmp name [46, 46] = 0 then bad
        else
          kbind (dirlookup dp name) (\<lambda>f.
          case f of
            None \<Rightarrow> bad
          | Some (ip, off) \<Rightarrow>
            kthen (ilock (Some ip)) (
            kbind (get_ip ip id) (\<lambda>n.
            if i_nlink n < 1 then kpanic ''unlink: nlink < 1''
            else
              kbind (if i_type n = T_DIR then isdirempty ip else kreturn True) (\<lambda>empty.
              if \<not> empty then kthen (iunlockput ip) bad
              else
                kbind (writei dp (FromBuf (replicate 16 0)) off 16) (\<lambda>r.
                if r \<noteq> 16 then kpanic ''unlink: writei''
                else
                  kthen (kwhen (i_type n = T_DIR) (
                    kthen (upd_ip dp (\<lambda>d. d\<lparr>i_nlink := i16 (i_nlink d - 1)\<rparr>)) (iupdate dp))) (
                  kthen (iunlockput dp) (
                  kthen (upd_ip ip (\<lambda>n. n\<lparr>i_nlink := i16 (i_nlink n - 1)\<rparr>)) (
                  kthen (iupdate ip) (
                  kthen (iunlockput ip) (
                  kthen end_op (
                  kreturn 0))))))))))))))))"

text \<open>Create the inode of a path; it comes back locked.\<close>

definition create :: "uchar list \<Rightarrow> int \<Rightarrow> int \<Rightarrow> int \<Rightarrow> (nat option, 'a kstate_scheme) code" where
  "create path type major minor =
     kbind (nameiparent path) (\<lambda>mdp.
     case mdp of
       None \<Rightarrow> kreturn None
     | Some (dp, name) \<Rightarrow>
       kthen (ilock (Some dp)) (
       kbind (dirlookup dp name) (\<lambda>f.
       case f of
         Some (ip, _) \<Rightarrow>
           kthen (iunlockput dp) (
           kthen (ilock (Some ip)) (
           kbind (get_ip ip i_type) (\<lambda>ty.
           if type = T_FILE \<and> ty = T_FILE then kreturn (Some ip)
           else kthen (iunlockput ip) (kreturn None))))
       | None \<Rightarrow>
         kbind (get_ip dp i_dev) (\<lambda>dev.
         kbind (ialloc dev type) (\<lambda>ip.
         kthen (ilock (Some ip)) (
         kthen (upd_ip ip (\<lambda>n. n\<lparr>i_major := i16 major, i_minor := i16 minor, i_nlink := 1\<rparr>)) (
         kthen (iupdate ip) (
         kbind (get_ip ip i_inum) (\<lambda>inum.
         kbind (get_ip dp i_inum) (\<lambda>dinum.
         kthen (kwhen (type = T_DIR) (
           kthen (upd_ip dp (\<lambda>d. d\<lparr>i_nlink := i16 (i_nlink d + 1)\<rparr>)) (
           kthen (iupdate dp) (
           kbind (dirlink ip [46, 0] inum) (\<lambda>r1.
           if r1 < 0 then kpanic ''create dots''
           else kbind (dirlink ip [46, 46, 0] dinum) (\<lambda>r2. kwhen (r2 < 0) (kpanic ''create dots''))))))) (
         kbind (dirlink dp name inum) (\<lambda>r.
         if r < 0 then kpanic ''create: dirlink''
         else kthen (iunlockput dp) (kreturn (Some ip))))))))))))))"

section \<open>Opening\<close>

definition open_file :: "nat \<Rightarrow> int \<Rightarrow> (int, 'a kstate_scheme) code" where
  "open_file ip omode =
     kbind filealloc (\<lambda>mf.
     let fail = kthen (iunlockput ip) (kthen end_op (kreturn (-1))) in
     case mf of
       None \<Rightarrow> fail
     | Some f \<Rightarrow>
       kbind (fdalloc f) (\<lambda>fd.
       if fd < 0 then kthen (fileclose f) fail
       else
         kthen (iunlock (Some ip)) (
         kthen end_op (
         kthen (upd_f f (\<lambda>v. v\<lparr>f_type := FD_INODE, f_ip := Some ip, f_off := 0, f_readable := \<not> bit omode 0,
                          f_writable := (bit omode 0 \<or> bit omode 1)\<rparr>)) (
         kreturn fd)))))"

definition sys_open :: "(int, 'a kstate_scheme) code" where
  "sys_open =
     kopt (argstr 0) (\<lambda>path.
     kopt (argint 1) (\<lambda>omode.
     kthen begin_op (
     if bit omode 9 then
       kbind (create path T_FILE 0 0) (\<lambda>mip.
       case mip of
         None \<Rightarrow> kthen end_op (kreturn (-1))
       | Some ip \<Rightarrow> open_file ip omode)
     else
       kbind (namei path) (\<lambda>mip.
       case mip of
         None \<Rightarrow> kthen end_op (kreturn (-1))
       | Some ip \<Rightarrow>
         kthen (ilock (Some ip)) (
         kbind (get_ip ip i_type) (\<lambda>ty.
         if ty = T_DIR \<and> omode \<noteq> 0 then kthen (iunlockput ip) (kthen end_op (kreturn (-1)))
         else open_file ip omode))))))"

definition sys_mkdir :: "(int, 'a kstate_scheme) code" where
  "sys_mkdir =
     kthen begin_op (
     kbind (argstr 0) (\<lambda>a.
     kbind (case a of None \<Rightarrow> kreturn None | Some path \<Rightarrow> create path T_DIR 0 0) (\<lambda>mip.
     case mip of
       None \<Rightarrow> kthen end_op (kreturn (-1))
     | Some ip \<Rightarrow> kthen (iunlockput ip) (kthen end_op (kreturn 0)))))"

definition sys_mknod :: "(int, 'a kstate_scheme) code" where
  "sys_mknod =
     kthen begin_op (
     kbind (argstr 0) (\<lambda>a.
     kbind (case a of None \<Rightarrow> kreturn None | Some path \<Rightarrow>
            kbind (argint 1) (\<lambda>b. case b of None \<Rightarrow> kreturn None | Some major \<Rightarrow>
            kbind (argint 2) (\<lambda>c. case c of None \<Rightarrow> kreturn None | Some minor \<Rightarrow>
            create path T_DEV (i16 major) (i16 minor)))) (\<lambda>mip.
     case mip of
       None \<Rightarrow> kthen end_op (kreturn (-1))
     | Some ip \<Rightarrow> kthen (iunlockput ip) (kthen end_op (kreturn 0)))))"

definition sys_chdir :: "(int, 'a kstate_scheme) code" where
  "sys_chdir =
     kbind my (\<lambda>p.
     kthen begin_op (
     kbind (argstr 0) (\<lambda>a.
     kbind (case a of None \<Rightarrow> kreturn None | Some path \<Rightarrow> namei path) (\<lambda>mip.
     case mip of
       None \<Rightarrow> kthen end_op (kreturn (-1))
     | Some ip \<Rightarrow>
       kthen (ilock (Some ip)) (
       kbind (get_ip ip i_type) (\<lambda>ty.
       if ty \<noteq> T_DIR then kthen (iunlockput ip) (kthen end_op (kreturn (-1)))
       else
         kthen (iunlock (Some ip)) (
         kbind (get_proc p p_cwd) (\<lambda>c.
         kthen (case c of None \<Rightarrow> kfault ''cwd'' | Some d \<Rightarrow> iput d) (
         kthen end_op (
         kthen (upd_proc p (\<lambda>q. q\<lparr>p_cwd := Some ip\<rparr>)) (
         kreturn 0)))))))))))"

primrec fetch_argv :: "uint \<Rightarrow> nat \<Rightarrow> uchar list list \<Rightarrow> (uchar list list option, 'a kstate_scheme) code" where
  "fetch_argv uargv 0 acc = kreturn None"
| "fetch_argv uargv (Suc n) acc =
     kbind (fetchint (uargv + of_nat (4 * length acc))) (\<lambda>m.
     case m of
       None \<Rightarrow> kreturn None
     | Some uarg \<Rightarrow>
       if uarg = 0 then kreturn (Some acc)
       else
         kbind (fetchstr (of_int uarg)) (\<lambda>a.
         case a of None \<Rightarrow> kreturn None | Some arg \<Rightarrow> fetch_argv uargv n (acc @ [arg])))"

definition sys_exec :: "(int, 'a kstate_scheme) code" where
  "sys_exec =
     kopt (argstr 0) (\<lambda>path.
     kopt (argint 1) (\<lambda>uargv.
     kopt (fetch_argv (of_int uargv) MAXARG []) (\<lambda>argv.
     exec path argv)))"

end
