(* ===== verification/Sync.thy ===== *)
theory Sync
  imports ProcLife
begin

text \<open>
  Mutexes, condition variables, semaphores and read-write locks (\<open>src/xv6-public/semaphore.c\<close>, \<open>rwlock.c\<close>, the
  structures of \<open>types.h\<close>). They live in user memory and are handled by system calls; a pointer is a
  user address. Field offsets: a mutex is its \<open>flag\<close>; a condition variable is \<open>waiting_threads\<close> at 0 and its mutex
  at 4; a semaphore is \<open>value\<close> at 0, its condition variable at 4 and its mutex at 12; a read-write lock is
  the semaphore \<open>lock\<close> at 0, the semaphore \<open>writelock\<close> at 16 and \<open>readers\<close> at 32.
\<close>

section \<open>Integers in user memory\<close>

definition rdint :: "uint \<Rightarrow> (int, 'a kstate_scheme) code" where
  "rdint va = kbind (vread va 4) (\<lambda>bs. kreturn (geti32 bs 0))"

definition wrint :: "uint \<Rightarrow> int \<Rightarrow> (unit, 'a kstate_scheme) code" where
  "wrint va v = vwrite va (le_bytes 4 (nat (v mod 2 ^ 32)))"

section \<open>Mutexes and condition variables\<close>

definition TestAndSet :: "uint \<Rightarrow> int \<Rightarrow> (int, 'a kstate_scheme) code" where
  "TestAndSet ptr new =
     kbind (rdint ptr) (\<lambda>old.
     kthen (wrint ptr new) (
     kreturn old))"

definition Mutex_init :: "uint \<Rightarrow> (unit, 'a kstate_scheme) code" where
  "Mutex_init lock = wrint lock 0"

text \<open>A taken mutex is spun on until another thread clears its flag.\<close>

definition Mutex_lock :: "uint \<Rightarrow> (unit, 'a kstate_scheme) code" where
  "Mutex_lock lock = kbind (TestAndSet lock 1) (\<lambda>old. if old = 1 then Spin else kreturn ())"

definition Mutex_unlock :: "uint \<Rightarrow> (unit, 'a kstate_scheme) code" where
  "Mutex_unlock lock = wrint lock 0"

definition Cond_init :: "uint \<Rightarrow> (unit, 'a kstate_scheme) code" where
  "Cond_init cond = kthen (wrint cond 0) (Mutex_init (cond + 4))"

definition Cond_wait :: "uint \<Rightarrow> uint \<Rightarrow> (unit, 'a kstate_scheme) code" where
  "Cond_wait cond lock =
     kbind myproc (\<lambda>mp.
     case mp of
       None \<Rightarrow> kpanic ''sleep''
     | Some p \<Rightarrow>
       if lock = 0 then kpanic ''sleep without lock''
       else
         kthen (Mutex_lock (cond + 4)) (
         kbind (rdint cond) (\<lambda>w.
         kthen (wrint cond (w + 1)) (
         kthen (Mutex_unlock (cond + 4)) (
         kthen (acquire LPtable) (
         kthen (Mutex_unlock lock) (
         kthen (upd_proc p (\<lambda>q. q\<lparr>p_chan := Some (CUser cond)\<rparr>)) (
         kthen (upd_proc p (\<lambda>q. q\<lparr>p_state := SLEEPING\<rparr>)) (
         kthen sched (
         kthen (upd_proc p (\<lambda>q. q\<lparr>p_chan := None\<rparr>)) (
         kthen (release LPtable) (
         Mutex_lock lock))))))))))))"

text \<open>The scan of the process table runs without \<open>ptable.lock\<close>.\<close>

definition Cond_signal :: "uint \<Rightarrow> (unit, 'a kstate_scheme) code" where
  "Cond_signal cond =
     kthen (Mutex_lock (cond + 4)) (
     kbind (rdint cond) (\<lambda>w.
     if w = 0 then Mutex_unlock (cond + 4)
     else
       kthen (wrint cond (w - 1)) (
       kthen (Mutex_unlock (cond + 4)) (
       kbind (kget (\<lambda>s. first_idx (\<lambda>q. p_state q = SLEEPING \<and> p_chan q = Some (CUser cond)) (procs (pt s)))) (\<lambda>f.
       case f of
         None \<Rightarrow> kreturn ()
       | Some i \<Rightarrow> upd_proc i (\<lambda>q. q\<lparr>p_state := RUNNABLE\<rparr>))))))"

section \<open>Semaphores\<close>

definition xem_init :: "uint \<Rightarrow> (int, 'a kstate_scheme) code" where
  "xem_init sem =
     kthen (wrint sem 1) (
     kthen (Cond_init (sem + 4)) (
     kthen (Mutex_init (sem + 12)) (
     kreturn 0)))"

definition xem_wait :: "uint \<Rightarrow> (int, 'a kstate_scheme) code" where
  "xem_wait sem =
     kthen (Mutex_lock (sem + 12)) (
     kthen (kloop (
       kbind (rdint sem) (\<lambda>v.
       if v \<le> 0 then kthen (Cond_wait (sem + 4) (sem + 12)) (kreturn None)
       else kreturn (Some ())))) (
     kbind (rdint sem) (\<lambda>v.
     kthen (wrint sem (v - 1)) (
     kthen (Mutex_unlock (sem + 12)) (
     kreturn 0)))))"

definition xem_unlock :: "uint \<Rightarrow> (int, 'a kstate_scheme) code" where
  "xem_unlock sem =
     kthen (Mutex_lock (sem + 12)) (
     kbind (rdint sem) (\<lambda>v.
     kthen (wrint sem (v + 1)) (
     kthen (Cond_signal (sem + 4)) (
     kthen (Mutex_unlock (sem + 12)) (
     kreturn 0)))))"

section \<open>Read-write locks\<close>

definition rwlock_init :: "uint \<Rightarrow> (int, 'a kstate_scheme) code" where
  "rwlock_init rw =
     kthen (wrint (rw + 32) 0) (
     kthen (xem_init rw) (
     kthen (xem_init (rw + 16)) (
     kreturn 0)))"

definition rwlock_acquire_readlock :: "uint \<Rightarrow> (int, 'a kstate_scheme) code" where
  "rwlock_acquire_readlock rw =
     kthen (xem_wait rw) (
     kbind (rdint (rw + 32)) (\<lambda>r.
     kthen (wrint (rw + 32) (r + 1)) (
     kbind (rdint (rw + 32)) (\<lambda>r.
     kthen (if r = 1 then kthen (xem_wait (rw + 16)) (kreturn ()) else kreturn ()) (
     kthen (xem_unlock rw) (
     kreturn 0))))))"

definition rwlock_acquire_writelock :: "uint \<Rightarrow> (int, 'a kstate_scheme) code" where
  "rwlock_acquire_writelock rw = kthen (xem_wait (rw + 16)) (kreturn 0)"

definition rwlock_release_readlock :: "uint \<Rightarrow> (int, 'a kstate_scheme) code" where
  "rwlock_release_readlock rw =
     kthen (xem_wait rw) (
     kbind (rdint (rw + 32)) (\<lambda>r.
     kthen (wrint (rw + 32) (r - 1)) (
     kbind (rdint (rw + 32)) (\<lambda>r.
     kthen (if r = 0 then kthen (xem_unlock (rw + 16)) (kreturn ()) else kreturn ()) (
     kthen (xem_unlock rw) (
     kreturn 0))))))"

definition rwlock_release_writelock :: "uint \<Rightarrow> (int, 'a kstate_scheme) code" where
  "rwlock_release_writelock rw = kthen (xem_unlock (rw + 16)) (kreturn 0)"

end
