(* ===== verification/Sysproc.thy ===== *)
theory Sysproc
  imports Sysfile Sync
begin

text \<open>
  The process system calls (\<open>src/xv6-public/sysproc.c\<close>, \<open>prac_syscall.c\<close>), the dispatcher (\<open>syscall.c\<close>) and the trap
  handler (\<open>trap.c\<close>). \<open>pcs\<close> is what \<open>procdump\<close> finds on kernel stacks, \<open>cr2\<close> the address register of the last
  page fault. The disk interrupt does nothing, as in \<open>memide.c\<close>, and the acknowledgement to the interrupt
  controller is left out.
\<close>

section \<open>Processes and threads\<close>

definition sys_fork :: "(int, 'a kstate_scheme) code" where
  "sys_fork = fork"

definition sys_exit :: "(int, 'a kstate_scheme) code" where
  "sys_exit = kthen exit (kreturn 0)"

definition sys_wait :: "(int, 'a kstate_scheme) code" where
  "sys_wait = wait"

definition sys_kill :: "(int, 'a kstate_scheme) code" where
  "sys_kill = kopt (argint 0) kill"

definition sys_getpid :: "(int, 'a kstate_scheme) code" where
  "sys_getpid = kbind my (\<lambda>p. get_proc p p_pid)"

definition sys_getppid :: "(int, 'a kstate_scheme) code" where
  "sys_getppid =
     kbind my (\<lambda>p.
     kbind (get_proc p p_parent) (\<lambda>m.
     case m of None \<Rightarrow> kfault ''parent'' | Some q \<Rightarrow> get_proc q p_pid))"

definition sys_set_cpu_share :: "(int, 'a kstate_scheme) code" where
  "sys_set_cpu_share = kopt (argint 0) set_cpu_share"

definition sys_thread_create :: "(int, 'a kstate_scheme) code" where
  "sys_thread_create =
     kopt (argint 0) (\<lambda>thread.
     kopt (argint 1) (\<lambda>start_routine.
     kopt (argint 2) (\<lambda>arg.
     thread_create (of_int thread) (of_int start_routine) (of_int arg))))"

definition sys_thread_exit :: "(int, 'a kstate_scheme) code" where
  "sys_thread_exit = kopt (argint 0) (\<lambda>retval. kthen (thread_exit (of_int retval)) (kreturn 0))"

definition sys_thread_join :: "(int, 'a kstate_scheme) code" where
  "sys_thread_join = kopt (argint 0) (\<lambda>thread. kopt (argint 1) (\<lambda>retval. thread_join thread (of_int retval)))"

definition sys_sbrk :: "(int, 'a kstate_scheme) code" where
  "sys_sbrk =
     kopt (argint 0) (\<lambda>n.
     kbind my (\<lambda>p.
     kopt (mgr_slot p) (\<lambda>mgr.
     kbind (get_proc mgr p_sz) (\<lambda>addr.
     kbind (growproc n) (\<lambda>r.
     kreturn (if r < 0 then -1 else sint addr))))))"

definition sys_sleep :: "(int, 'a kstate_scheme) code" where
  "sys_sleep =
     kopt (argint 0) (\<lambda>n.
     kthen (acquire LTicks) (
     kbind (kget ticks) (\<lambda>ticks0.
     kloop (
       kbind (kget ticks) (\<lambda>t.
       if \<not> (t - ticks0 < of_int n) then kthen (release LTicks) (kreturn (Some 0))
       else
         kbind my (\<lambda>p.
         kbind (get_proc p p_killed) (\<lambda>killed.
         if killed then kthen (release LTicks) (kreturn (Some (-1)))
         else kthen (sleep CTicks (Some LTicks)) (kreturn None))))))))"

definition sys_uptime :: "(int, 'a kstate_scheme) code" where
  "sys_uptime =
     kthen (acquire LTicks) (
     kbind (kget ticks) (\<lambda>xticks.
     kthen (release LTicks) (
     kreturn (sint xticks))))"

definition my_syscall :: "uchar list \<Rightarrow> (int, 'a kstate_scheme) code" where
  "my_syscall str =
     kthen (cprintf (asc ''%s'' @ [10]) [CStr (Some (map unat str))]) (
     kreturn (i32 0xABCDABCD))"

definition sys_my_syscall :: "(int, 'a kstate_scheme) code" where
  "sys_my_syscall = kopt (argstr 0) my_syscall"

section \<open>Synchronization\<close>

text \<open>Each wrapper checks the first four bytes of the object it is given a pointer to.\<close>

definition sys_TestAndSet :: "(int, 'a kstate_scheme) code" where
  "sys_TestAndSet = kopt (argptr 0 4) (\<lambda>ptr. kopt (argint 1) (\<lambda>new. TestAndSet ptr new))"

definition sys_Cond_init :: "(int, 'a kstate_scheme) code" where
  "sys_Cond_init = kopt (argptr 0 4) (\<lambda>cond. kthen (Cond_init cond) (kreturn 0))"

definition sys_Cond_wait :: "(int, 'a kstate_scheme) code" where
  "sys_Cond_wait = kopt (argptr 0 4) (\<lambda>cond. kopt (argptr 1 4) (\<lambda>lock. kthen (Cond_wait cond lock) (kreturn 0)))"

definition sys_Cond_signal :: "(int, 'a kstate_scheme) code" where
  "sys_Cond_signal = kopt (argptr 0 4) (\<lambda>cond. kthen (Cond_signal cond) (kreturn 0))"

definition sys_Mutex_init :: "(int, 'a kstate_scheme) code" where
  "sys_Mutex_init = kopt (argptr 0 4) (\<lambda>lock. kthen (Mutex_init lock) (kreturn 0))"

definition sys_Mutex_lock :: "(int, 'a kstate_scheme) code" where
  "sys_Mutex_lock = kopt (argptr 0 4) (\<lambda>lock. kthen (Mutex_lock lock) (kreturn 0))"

definition sys_Mutex_unlock :: "(int, 'a kstate_scheme) code" where
  "sys_Mutex_unlock = kopt (argptr 0 4) (\<lambda>lock. kthen (Mutex_unlock lock) (kreturn 0))"

definition sys_xem_init :: "(int, 'a kstate_scheme) code" where
  "sys_xem_init = kopt (argptr 0 4) xem_init"

definition sys_xem_wait :: "(int, 'a kstate_scheme) code" where
  "sys_xem_wait = kopt (argptr 0 4) xem_wait"

definition sys_xem_unlock :: "(int, 'a kstate_scheme) code" where
  "sys_xem_unlock = kopt (argptr 0 4) xem_unlock"

definition sys_rwlock_init :: "(int, 'a kstate_scheme) code" where
  "sys_rwlock_init = kopt (argptr 0 4) rwlock_init"

definition sys_rwlock_acquire_readlock :: "(int, 'a kstate_scheme) code" where
  "sys_rwlock_acquire_readlock = kopt (argptr 0 4) rwlock_acquire_readlock"

definition sys_rwlock_acquire_writelock :: "(int, 'a kstate_scheme) code" where
  "sys_rwlock_acquire_writelock = kopt (argptr 0 4) rwlock_acquire_writelock"

definition sys_rwlock_release_readlock :: "(int, 'a kstate_scheme) code" where
  "sys_rwlock_release_readlock = kopt (argptr 0 4) rwlock_release_readlock"

definition sys_rwlock_release_writelock :: "(int, 'a kstate_scheme) code" where
  "sys_rwlock_release_writelock = kopt (argptr 0 4) rwlock_release_writelock"

section \<open>Dispatch\<close>

definition syscalls :: "(int, 'a kstate_scheme) code list" where
  "syscalls =
     [sys_fork, sys_exit, sys_wait, sys_pipe, sys_read, sys_kill, sys_exec, sys_fstat, sys_chdir, sys_dup,
      sys_getpid, sys_sbrk, sys_sleep, sys_uptime, sys_open, sys_write, sys_mknod, sys_unlink, sys_link, sys_mkdir,
      sys_close, sys_my_syscall, sys_getppid, sys_yield, sys_getlev, sys_set_cpu_share, sys_thread_create,
      sys_thread_exit, sys_thread_join, sys_TestAndSet, sys_Cond_init, sys_Cond_wait, sys_Cond_signal,
      sys_Mutex_init, sys_Mutex_lock, sys_Mutex_unlock, sys_xem_init, sys_xem_wait, sys_xem_unlock,
      sys_rwlock_init, sys_rwlock_acquire_readlock, sys_rwlock_acquire_writelock, sys_rwlock_release_readlock,
      sys_rwlock_release_writelock, sys_pread, sys_pwrite]"

definition set_eax :: "nat \<Rightarrow> int \<Rightarrow> (unit, 'a kstate_scheme) code" where
  "set_eax p r = upd_proc p (\<lambda>q. q\<lparr>p_tf := (p_tf q)\<lparr>tf_eax := of_int r\<rparr>\<rparr>)"

definition syscall :: "(unit, 'a kstate_scheme) code" where
  "syscall =
     kbind my (\<lambda>p.
     kbind (get_proc p id) (\<lambda>q.
     let num = sint (tf_eax (p_tf q)) in
     if num > 0 \<and> num \<le> int (length (syscalls :: (int, 'a kstate_scheme) code list)) then
       kbind (syscalls ! nat (num - 1)) (\<lambda>r. set_eax p r)
     else
       kthen (cprintf (asc ''%d %s: unknown sys call %d'' @ [10])
                [CInt (p_pid q), CStr (Some (map unat (takeWhile (\<lambda>c. c \<noteq> 0) (p_name q)))), CInt num])
       (set_eax p (-1))))"

section \<open>Traps\<close>

definition cpuid :: "(nat, 'a kstate_scheme) code" where
  "cpuid = mycpu"

definition exit_if_killed :: "bool \<Rightarrow> (unit, 'a kstate_scheme) code" where
  "exit_if_killed user =
     kbind myproc (\<lambda>mp.
     case mp of
       None \<Rightarrow> kreturn ()
     | Some p \<Rightarrow> kbind (get_proc p p_killed) (\<lambda>k. kwhen (k \<and> user) exit))"

definition timer_intr :: "(unit, 'a kstate_scheme) code" where
  "timer_intr =
     kbind cpuid (\<lambda>c.
     kwhen (c = 0) (
       kthen (acquire LTicks) (
       kthen (kmod (upd_ticks (\<lambda>t. t + 1))) (
       kbind (kget ticks) (\<lambda>t.
       kthen (kwhen (t mod 200 = 0) priority_boost) (
       kthen (wakeup CTicks) (
       release LTicks)))))))"

definition bad_trap :: "uint \<Rightarrow> trapframe \<Rightarrow> (unit, 'a kstate_scheme) code" where
  "bad_trap cr2 tf =
     kbind myproc (\<lambda>mp.
     kbind cpuid (\<lambda>c.
     case mp of
       Some p \<Rightarrow>
         if tf_cs tf AND 3 = 0 then
           kthen (cprintf (asc ''unexpected trap %d from cpu %d eip %x (cr2=0x%x)'' @ [10])
                    [CInt (sint (tf_trapno tf)), CInt (int c), CInt (sint (tf_eip tf)), CInt (sint cr2)])
           (kpanic ''trap'')
         else
           kbind (get_proc p id) (\<lambda>q.
           kthen (cprintf (asc ''pid %d %s: trap %d err %d on cpu %d eip 0x%x addr 0x%x--kill proc'' @ [10])
                    [CInt (p_pid q), CStr (Some (map unat (takeWhile (\<lambda>c. c \<noteq> 0) (p_name q)))), CInt (sint (tf_trapno tf)),
                     CInt (sint (tf_err tf)), CInt (int c), CInt (sint (tf_eip tf)), CInt (sint cr2)])
           (upd_proc p (\<lambda>q. q\<lparr>p_killed := True\<rparr>)))
     | None \<Rightarrow>
         kthen (cprintf (asc ''unexpected trap %d from cpu %d eip %x (cr2=0x%x)'' @ [10])
                  [CInt (sint (tf_trapno tf)), CInt (int c), CInt (sint (tf_eip tf)), CInt (sint cr2)])
         (kpanic ''trap'')))"

definition trap :: "(nat \<Rightarrow> nat list) \<Rightarrow> uint \<Rightarrow> trapframe \<Rightarrow> (unit, 'a kstate_scheme) code" where
  "trap pcs cr2 tf =
     (let no = tf_trapno tf; user = (tf_cs tf AND 3 = 3) in
      if no = 64 then
        kbind my (\<lambda>p.
        kbind (get_proc p p_killed) (\<lambda>k.
        kthen (kwhen k exit) (
        kthen (upd_proc p (\<lambda>q. q\<lparr>p_tf := tf\<rparr>)) (
        kthen syscall (
        kbind my (\<lambda>p.
        kbind (get_proc p p_killed) (\<lambda>k.
        kwhen k exit)))))))
      else
        kthen (
          if no = 32 then timer_intr
          else if no = 32 + 14 \<or> no = 32 + 15 then kreturn ()
          else if no = 32 + 1 then kbdintr pcs
          else if no = 32 + 4 then uartintr pcs
          else if no = 32 + 7 \<or> no = 32 + 31 then
            kbind cpuid (\<lambda>c.
            cprintf (asc ''cpu%d: spurious interrupt at %x:%x'' @ [10]) [CInt (int c), CInt (sint (tf_cs tf)), CInt (sint (tf_eip tf))])
          else bad_trap cr2 tf) (
        kthen (exit_if_killed user) (
        kthen (kwhen (no = 32) timer_tail) (
        exit_if_killed user))))"

end
