(* ===== verification/LogTx.thy ===== *)
theory LogTx
  imports LogCrash
begin

text \<open>
  The block store inside a transaction. Between \<open>begin_op\<close> and \<open>end_op\<close> the file system reads blocks with
  \<open>bread\<close>, changes them under the buffer lock, announces the change with \<open>log_write\<close> and lets them go with
  \<open>brelse\<close>. For a process that is alone in the cache these steps act on the function \<open>blk\<close> from block
  numbers to contents: a read leaves it as it is, a logged change updates it at one block, and the dirty
  blocks are exactly the logged ones. \<open>alone p H s\<close> is the state of such a process that holds the buffers \<open>H\<close>;
  reading needs no more, writing also needs an open transaction.
\<close>

definition logged :: "logst \<Rightarrow> nat set" where
  "logged g = ublk ` set (take (nat (lh_n g)) (lh_block g))"

definition log_ok :: "logst \<Rightarrow> bool" where
  "log_ok g \<longleftrightarrow> lg_size g = int LOGSIZE \<and> length (lh_block g) = LOGSIZE
     \<and> 0 \<le> lh_n g \<and> lh_n g \<le> int LOGSIZE \<and> distinct (map ublk (take (nat (lh_n g)) (lh_block g)))"

definition alone :: "nat \<Rightarrow> nat set \<Rightarrow> 'a lstate_scheme \<Rightarrow> bool" where
  "alone p H s \<longleftrightarrow> ctx p {} s \<and> bio_inv s \<and> H \<subseteq> {..<NBUF} \<and> (\<forall>i < NBUF. locked_buf s i \<longleftrightarrow> i \<in> H)
     \<and> log_ok (lg s) \<and> (\<forall>b. dirtyb s b \<longleftrightarrow> b \<in> logged (lg s)) \<and> length (disk s) \<le> 2 ^ 31"

text \<open>What every step inside a transaction leaves alone.\<close>

definition tx_frame :: "nat \<Rightarrow> 'a lstate_scheme \<Rightarrow> 'a lstate_scheme \<Rightarrow> bool" where
  "tx_frame p s t \<longleftrightarrow> keeps p {} t s \<and> lstate.more t = lstate.more s \<and> disk t = disk s \<and> dtrace t = dtrace s
     \<and> (\<forall>k. (\<forall>j. k \<noteq> SBuf j) \<longrightarrow> slocks t k = slocks s k)
     \<and> (lg t)\<lparr>lh_n := lh_n (lg s), lh_block := lh_block (lg s)\<rparr> = lg s"

text \<open>The step from \<open>s\<close> to \<open>t\<close> made the contents \<open>B\<close> and the set of logged blocks \<open>X\<close>, and did not touch the buffers held.\<close>

definition tx_step :: "nat \<Rightarrow> nat set \<Rightarrow> 'a lstate_scheme \<Rightarrow> (nat \<Rightarrow> uchar list) \<Rightarrow> nat set \<Rightarrow> 'a lstate_scheme \<Rightarrow> bool" where
  "tx_step p H s B X t \<longleftrightarrow> alone p H t \<and> tx_frame p s t \<and> (\<forall>j \<in> H. bufs t ! j = bufs s ! j) \<and> blk t = B \<and> logged (lg t) = X"

text \<open>As before, and block \<open>b\<close> is held in buffer \<open>i\<close> besides; it may be let go.\<close>

definition tx_held :: "nat \<Rightarrow> nat set \<Rightarrow> 'a lstate_scheme \<Rightarrow> nat \<Rightarrow> nat \<Rightarrow> (nat \<Rightarrow> uchar list) \<Rightarrow> nat set \<Rightarrow> 'a lstate_scheme \<Rightarrow> bool" where
  "tx_held p H s i b B X t \<longleftrightarrow> alone p (insert i H) t \<and> i \<notin> H \<and> i < NBUF \<and> caches t i b \<and> tx_frame p s t
     \<and> (\<forall>j \<in> H. bufs t ! j = bufs s ! j) \<and> blk t = B \<and> logged (lg t) = X \<and> (b \<in> X \<or> B b = disk t ! b)"

text \<open>The process does not hold block \<open>b\<close>.\<close>

definition not_held :: "nat set \<Rightarrow> 'a lstate_scheme \<Rightarrow> nat \<Rightarrow> bool" where
  "not_held H s b \<longleftrightarrow> (\<forall>i \<in> H. \<not> caches s i b)"

section \<open>Frames\<close>

lemma aloneD:
  assumes "alone p H s"
  shows "ctx p {} s" "bio_inv s" "i \<in> H \<Longrightarrow> i < NBUF" "i < NBUF \<Longrightarrow> locked_buf s i \<longleftrightarrow> i \<in> H" "log_ok (lg s)"
    "dirtyb s b \<longleftrightarrow> b \<in> logged (lg s)" "length (disk s) \<le> 2 ^ 31" "finite H"
  using assms finite_subset [of H "{..<NBUF}"] by (auto simp: alone_def)

lemma aloneI:
  assumes "ctx p {} s" "bio_inv s" "H \<subseteq> {..<NBUF}" "\<And>i. i < NBUF \<Longrightarrow> locked_buf s i \<longleftrightarrow> i \<in> H" "log_ok (lg s)"
    "\<And>b. dirtyb s b \<longleftrightarrow> b \<in> logged (lg s)" "length (disk s) \<le> 2 ^ 31"
  shows "alone p H s"
  using assms by (simp add: alone_def)

lemma tx_frame_refl: "ctx p {} s \<Longrightarrow> tx_frame p s s"
  by (simp add: tx_frame_def keeps_def only_wakes_refl)

lemma tx_frame_trans: "tx_frame p s t \<Longrightarrow> tx_frame p t u \<Longrightarrow> tx_frame p s u"
proof -
  assume 1: "tx_frame p s t" and 2: "tx_frame p t u"
  have "(lg u)\<lparr>lh_n := lh_n (lg s), lh_block := lh_block (lg s)\<rparr> = (lg t)\<lparr>lh_n := lh_n (lg s), lh_block := lh_block (lg s)\<rparr>"
    using 2 by (cases "lg u"; cases "lg t") (auto simp: tx_frame_def)
  then show "tx_frame p s u" using 1 2 by (auto simp: tx_frame_def intro: keeps_trans)
qed

lemma tx_frame_outstanding: "tx_frame p s t \<Longrightarrow> lg_outstanding (lg t) = lg_outstanding (lg s)"
  unfolding tx_frame_def by (metis logst.ext_inject logst.surjective logst.update_convs(6,7))

lemma tx_step_refl: "alone p H s \<Longrightarrow> tx_step p H s (blk s) (logged (lg s)) s"
  by (simp add: tx_step_def tx_frame_refl aloneD)

lemma tx_step_trans: "tx_step p H s B X t \<Longrightarrow> tx_step p H t B' X' u \<Longrightarrow> tx_step p H s B' X' u"
  by (auto simp: tx_step_def intro: tx_frame_trans)

lemma finite_logged [simp]: "finite (logged g)"
  by (simp add: logged_def)

lemma card_logged:
  assumes "log_ok g"
  shows "int (card (logged g)) = lh_n g"
proof -
  have "card (logged g) = length (map ublk (take (nat (lh_n g)) (lh_block g)))"
    unfolding logged_def using assms distinct_card [of "map ublk (take (nat (lh_n g)) (lh_block g))"] by (simp add: log_ok_def)
  then show ?thesis using assms by (simp add: log_ok_def) linarith
qed

lemma npinned_tx:
  assumes "alone p H s"
  shows "npinned s \<le> card H + card (logged (lg s))"
proof -
  note tx = aloneD [OF assms] and inv = bio_invD [OF aloneD(2) [OF assms]]
  let ?D = "{i. i < NBUF \<and> b_dirty (bufs s ! i)}"
  have pin: "pinned (bufs s ! i) \<Longrightarrow> i \<in> H \<or> b_dirty (bufs s ! i)" if "i < NBUF" for i
    using unlocked_refcnt [OF tx(2) that] tx(4) [OF that] by (auto simp: pinned_def)
  have dev: "b_dev (bufs s ! i) = ROOTDEV" if "i \<in> ?D" for i
    using inv(5) [of i] that by (simp add: buf_ok_def Let_def)
  have "npinned s = card {i. i < NBUF \<and> pinned (bufs s ! i)}"
    unfolding npinned_def using inv(1) by (simp add: length_filter_conv_card)
  also have "\<dots> \<le> card (H \<union> ?D)" using pin tx(8) by (intro card_mono) auto
  also have "\<dots> \<le> card H + card ?D" by (rule card_Un_le)
  also have "card ?D = card ((\<lambda>i. b_blockno (bufs s ! i)) ` ?D)"
  proof (rule card_image [symmetric], rule inj_onI)
    fix i j assume "i \<in> ?D" "j \<in> ?D" "b_blockno (bufs s ! i) = b_blockno (bufs s ! j)"
    then show "i = j" using inv(6) [of i "b_blockno (bufs s ! i)" j] dev [of i] dev [of j] by (simp add: caches_def)
  qed
  also have "(\<lambda>i. b_blockno (bufs s ! i)) ` ?D \<subseteq> logged (lg s)"
    using dev tx(6) by (auto simp: dirtyb_def caches_def)
  then have "card ((\<lambda>i. b_blockno (bufs s ! i)) ` ?D) \<le> card (logged (lg s))" by (intro card_mono) auto
  finally show ?thesis by simp
qed

section \<open>The steps\<close>

lemma tx_held_data:
  assumes "tx_held p H s i b B X t"
  shows "b_data (bufs t ! i) = B b" "length (B b) = BSIZE" "b < length (disk t)"
proof -
  have t: "alone p (insert i H) t" "i < NBUF" "caches t i b" "blk t = B" using assms by (auto simp: tx_held_def)
  note tx = aloneD [OF t(1)]
  have "locked_buf t i" using tx(4) t(2) by simp
  note lp = locked_props [OF tx(2) t(2) this]
  show "b_data (bufs t ! i) = B b" using blk_cached [OF tx(2) t(3) lp(1)] t(4) by simp
  then show "length (B b) = BSIZE" using lp(7) by simp
  show "b < length (disk t)" using lp(3) t(3) by (simp add: caches_def)
qed

lemma tx_bread:
  assumes tx: "alone p H s" and b: "b < length (disk s)" "not_held H s b" and room: "card H + card (logged (lg s)) < NBUF"
  shows "wp (bread ROOTDEV b) (\<lambda>i. tx_held p H s i b (blk s) (logged (lg s))) s"
proof -
  note t = aloneD [OF tx]
  have "npinned s < NBUF" using npinned_tx [OF tx] room by simp
  then have "wp (bread ROOTDEV b) (bread_post p s b) s"
    using t b by (intro bread_ok) (auto simp: not_held_def caches_def)
  then show ?thesis
  proof (rule wp_mono)
    fix i u assume bp: "bread_post p s b i u"
    note u = bp [unfolded bread_post_def]
    have i: "i < NBUF" using u by (simp add: caches_def)
    have lk: "locked_buf u j \<longleftrightarrow> j \<in> insert i H" if "j < NBUF" for j using u t(4) [OF that] by (cases "j = i") auto
    have iH: "i \<notin> H" using u t(4) [OF i] by simp
    have lg: "lg u = lg s" "lstate.more u = lstate.more s" using u by (simp_all add: bmore_eq)
    have db: "dirtyb u c = dirtyb s c" for c by (rule bread_dirtyb [OF bp t(2)])
    have "b_dirty (bufs u ! i) \<longleftrightarrow> b \<in> logged (lg s)" using u t(6) by (auto simp: dirtyb_def)
    then have cl: "b \<in> logged (lg s) \<or> blk s b = disk u ! b" using u by auto
    have "alone p (insert i H) u"
      by (rule aloneI) (use u i lk db lg t in \<open>simp_all add: keeps_def subset_eq\<close>)
    moreover have "tx_frame p s u" using u lg by (simp add: tx_frame_def)
    ultimately show "tx_held p H s i b (blk s) (logged (lg s)) u"
      using u i iH lg cl by (auto simp: tx_held_def)
  qed
qed

lemma tx_brelse:
  assumes "tx_held p H s i b B X t"
  shows "wp (brelse i) (\<lambda>_. tx_step p H s B X) t"
proof -
  note h = assms [unfolded tx_held_def]
  have tx: "alone p (insert i H) t" using h by simp
  note t = aloneD [OF tx]
  have i: "i < NBUF" "locked_buf t i" "b_blockno (bufs t ! i) = b" "caches t i b" using h t(4) by (auto simp: caches_def)
  have d: "b_dirty (bufs t ! i) \<longleftrightarrow> b \<in> X" using dirtyb_caches [OF t(2) i(4)] t(6) h by simp
  have "b_dirty (bufs t ! i) \<or> b_data (bufs t ! i) = disk t ! b_blockno (bufs t ! i)"
    using d h tx_held_data(1) [OF assms] i(3) by auto
  then have "wp (brelse i) (\<lambda>_. brelse_post p t i) t" using t i by (intro brelse_ok) auto
  then show ?thesis
  proof (rule wp_mono)
    fix u assume "brelse_post p t i u"
    note u = this [unfolded brelse_post_def]
    have lk: "locked_buf u j \<longleftrightarrow> j \<in> H" if "j < NBUF" for j using u t(4) [OF that] h by (cases "j = i") auto
    have lg: "lg u = lg t" "lstate.more u = lstate.more t" using u by (simp_all add: bmore_eq)
    have b: "bufs u ! j = (if j = i then (bufs t ! i)\<lparr>b_refcnt := 0\<rparr> else bufs t ! j)" for j
      using u i(1) bio_invD(1) [OF t(2)] by (auto simp: nth_list_update)
    have db: "dirtyb u c = dirtyb t c" for c by (rule dirtyb_eqI) (auto simp: caches_def b)
    have "alone p H u" by (rule aloneI) (use u lk db lg t h in \<open>simp_all add: keeps_def subset_eq\<close>)
    moreover have "tx_frame p t u" using u lg by (simp add: tx_frame_def)
    then have "tx_frame p s u" using h tx_frame_trans by blast
    ultimately show "tx_step p H s B X u" using u h lg b by (auto simp: tx_step_def)
  qed
qed

text \<open>The log header after block \<open>b\<close> has been added to it.\<close>

definition log_add :: "nat \<Rightarrow> logst \<Rightarrow> logst" where
  "log_add b g =
     (case first_idx (\<lambda>v. ublk v = b) (take (nat (lh_n g)) (lh_block g)) of
        Some i \<Rightarrow> g\<lparr>lh_block := (lh_block g)[i := i32 (int b)]\<rparr>
      | None \<Rightarrow> g\<lparr>lh_block := (lh_block g)[nat (lh_n g) := i32 (int b)], lh_n := lh_n g + 1\<rparr>)"

lemma ublk_i32: "b < 2 ^ 31 \<Longrightarrow> ublk (i32 (int b)) = b"
  by (subst i32_id) (simp_all add: ublk_def int_range_def)

lemma log_add_props:
  assumes "log_ok g" "lh_n g < int LOGSIZE" "b < 2 ^ 31"
  shows "log_ok (log_add b g)" "logged (log_add b g) = insert b (logged g)"
    "(log_add b g)\<lparr>lh_n := lh_n g, lh_block := lh_block g\<rparr> = g"
proof -
  let ?n = "nat (lh_n g)" and ?bl = "lh_block g"
  have n: "?n < length ?bl" "length ?bl = LOGSIZE" using assms by (auto simp: log_ok_def)
  have d: "distinct (map ublk (take ?n ?bl))" using assms(1) by (simp add: log_ok_def)
  have "log_ok (log_add b g) \<and> logged (log_add b g) = insert b (logged g)"
  proof (cases "first_idx (\<lambda>v. ublk v = b) (take ?n ?bl)")
    case None
    then have b: "b \<notin> ublk ` set (take ?n ?bl)" by (auto simp: first_idx_None)
    have s: "nat (lh_n g + 1) = Suc ?n" using assms(1) by (simp add: log_ok_def nat_add_distrib)
    have t: "take (Suc ?n) (?bl[?n := i32 (int b)]) = take ?n ?bl @ [i32 (int b)]"
      using n(1) by (simp add: take_Suc_conv_app_nth)
    show ?thesis
      using None assms d b n s t by (simp add: log_add_def log_ok_def logged_def ublk_i32)
  next
    case (Some i)
    then have i: "i < ?n" "ublk (?bl ! i) = b" using n by (auto simp: first_idx_Some)
    have m: "map ublk (take ?n (?bl[i := i32 (int b)])) = map ublk (take ?n ?bl)"
      using i n(1) by (intro nth_equalityI) (auto simp: nth_list_update ublk_i32 [OF assms(3)])
    then have set: "logged (log_add b g) = logged g"
      using Some by (simp add: log_add_def logged_def flip: set_map)
    have "b \<in> logged g" using i n by (force simp: logged_def in_set_conv_nth)
    then show ?thesis using Some assms(1) d m n set by (simp add: log_add_def log_ok_def insert_absorb)
  qed
  then show "log_ok (log_add b g)" "logged (log_add b g) = insert b (logged g)" by simp_all
  show "(log_add b g)\<lparr>lh_n := lh_n g, lh_block := lh_block g\<rparr> = g"
    by (simp add: log_add_def split: option.split)
qed

lemma log_add_Some:
  "first_idx (\<lambda>v. ublk v = b) (take (nat (lh_n g)) (lh_block g)) = Some i \<Longrightarrow> lh_n (log_add b g) = lh_n g"
  by (simp add: log_add_def)

lemma log_write_run:
  assumes c: "ctx p {} s" and g: "log_ok (lg s)" "lh_n (lg s) < int LOGSIZE - 1" "1 \<le> lg_outstanding (lg s)"
    and P: "P () (rel LLog (upd_buf i (\<lambda>b. b\<lparr>b_dirty := True\<rparr>) (upd_lg (log_add (b_blockno (bufs s ! i))) (acq LLog s))))"
  shows "wp (log_write i) P s"
proof -
  have c': "ctx p {LLog} (upd_buf i (\<lambda>b. b\<lparr>b_dirty := True\<rparr>) (upd_lg f (acq LLog s)))" for f
    using ctx_acq [OF c, of LLog] by simp
  let ?bno = "b_blockno (bufs s ! i)" and ?n = "nat (lh_n (lg s))"
  have g': "length (lh_block (lg s)) = LOGSIZE" "0 \<le> lh_n (lg s)" "lg_size (lg s) = int LOGSIZE" "lg_outstanding (lg s) \<ge> 1"
    using g(1,3) by (auto simp: log_ok_def)
  have guard: "\<not> (lh_n (lg s) \<ge> int LOGSIZE \<or> lh_n (lg s) \<ge> lg_size (lg s) - 1)" "\<not> lg_outstanding (lg s) < 1" using g(2) g' by auto
  show ?thesis
  proof (cases "first_idx (\<lambda>v. ublk v = ?bno) (take ?n (lh_block (lg s)))")
    case None
    have "upd_lg (\<lambda>g. g\<lparr>lh_n := lh_n g + 1\<rparr>) (upd_lg (\<lambda>g. g\<lparr>lh_block := (lh_block g)[?n := i32 (int ?bno)]\<rparr>) (acq LLog s))
       = upd_lg (log_add ?bno) (acq LLog s)"
      using None by (simp add: upd_lg_def log_add_def)
    then show ?thesis
      using None guard g' g(2) P c' unfolding log_write_def
      by (simp add: wps) (rule wp_acquire [OF c], simp, auto simp: wps set_block_def intro!: wp_release [where p = p and L = "{LLog}"])
  next
    case (Some j)
    then have j: "j < ?n" "j < LOGSIZE" using g'(1) by (auto simp: first_idx_Some)
    have "upd_lg (\<lambda>g. g\<lparr>lh_block := (lh_block g)[j := i32 (int ?bno)]\<rparr>) (acq LLog s) = upd_lg (log_add ?bno) (acq LLog s)"
      using Some by (simp add: upd_lg_def log_add_def)
    then show ?thesis
      using Some j guard g' g(2) P c' log_add_Some [OF Some] unfolding log_write_def
      by (simp add: wps) (rule wp_acquire [OF c], simp, auto simp: wps set_block_def intro!: wp_release [where p = p and L = "{LLog}"])
  qed
qed

lemma tx_update:
  assumes h: "tx_held p H s i b B X t" and len: "length (f (B b)) = BSIZE" and room: "card X < LOGSIZE - 1" and op: "1 \<le> lg_outstanding (lg s)"
  shows "wp (log_write i) (\<lambda>_. tx_held p H s i b (B(b := f (B b))) (insert b X)) (upd_buf i (\<lambda>c. c\<lparr>b_data := f (b_data c)\<rparr>) t)"
proof -
  note u = h [unfolded tx_held_def] and da = tx_held_data [OF h]
  have tx: "alone p (insert i H) t" using u by simp
  note t = aloneD [OF tx]
  let ?t = "upd_buf i (\<lambda>c. c\<lparr>b_data := f (b_data c)\<rparr>) t"
  have i: "i < NBUF" "locked_buf t i" "b_blockno (bufs t ! i) = b" "caches t i b" using u t(4) by (auto simp: caches_def)
  have il: "i < length (bufs t)" using i(1) bio_invD(1) [OF t(2)] by simp
  have c: "ctx p {} ?t" using t(1) by simp
  have n: "lh_n (lg t) < int LOGSIZE - 1" using card_logged [OF t(5)] room u by auto
  have b: "b < 2 ^ 31" using da(3) t(7) by simp
  have n': "lh_n (lg t) < int LOGSIZE" using n by simp
  note la = log_add_props [OF t(5) n' b]
  show ?thesis
  proof (rule log_write_run [OF c])
    show "log_ok (lg ?t)" "lh_n (lg ?t) < int LOGSIZE - 1" "1 \<le> lg_outstanding (lg ?t)"
      using t(5) n op tx_frame_outstanding [of p s t] u by simp_all
    define v where "v = rel LLog (upd_buf i (\<lambda>b. b\<lparr>b_dirty := True\<rparr>) (upd_lg (log_add (b_blockno (bufs ?t ! i))) (acq LLog ?t)))"
    have c': "ctx p {LLog} (upd_buf i (\<lambda>b. b\<lparr>b_dirty := True\<rparr>) (upd_lg (log_add (b_blockno (bufs ?t ! i))) (acq LLog ?t)))"
      using ctx_acq [OF c, of LLog] by simp
    have cv: "ctx p {} v" unfolding v_def by (rule ctx_rel [OF c']) simp
    have bv: "bufs v = (bufs t)[i := (bufs t ! i)\<lparr>b_data := f (B b), b_dirty := True\<rparr>]" using il da(1) by (simp add: v_def)
    have pv: "pt v = pt t" "lstate.more v = lstate.more t" "dtrace v = dtrace t" by (simp_all add: v_def)
    have mp: "mypid v = mypid t" using ctxD(4) [OF cv] ctxD(4) [OF t(1)] pv by (simp add: mypid_def)
    have sl: "slocks v = slocks t" "border v = border t" "disk v = disk t" by (simp_all add: v_def)
    note sd = set_data [OF t(2) i(4) i(2) len bv sl mp]
    have lgv: "lg v = log_add b (lg t)" using il i(3) by (simp add: v_def)
    have lk: "locked_buf v j = locked_buf t j" for j by (simp add: locked_buf_def sl)
    have nb: "bufs v ! j = (if j = i then (bufs t ! i)\<lparr>b_data := f (B b), b_dirty := True\<rparr> else bufs t ! j)" for j
      unfolding bv using il by (auto simp: nth_list_update)
    have ca: "caches v j d = caches t j d" for j d by (simp add: caches_def nb)
    have db: "dirtyb v d \<longleftrightarrow> d \<in> logged (lg v)" for d
    proof -
      have "dirtyb v d \<longleftrightarrow> d = b \<or> dirtyb t d"
      proof (cases "d = b")
        case True
        have "b_dirty (bufs v ! i)" by (simp add: nb)
        then show ?thesis using True i(4) ca unfolding dirtyb_def by blast
      next
        case False
        then have "caches t j d \<Longrightarrow> bufs v ! j = bufs t ! j" for j using i(4) by (auto simp: caches_def nb)
        then have "dirtyb v d = dirtyb t d" by (intro dirtyb_eqI) (simp_all add: ca)
        then show ?thesis using False by simp
      qed
      then show ?thesis using t(6) lgv la(2) by simp
    qed
    have "alone p (insert i H) v"
    proof (rule aloneI [OF cv sd(1)])
      show "insert i H \<subseteq> {..<NBUF}" using t(3) by auto
      show "j < NBUF \<Longrightarrow> locked_buf v j = (j \<in> insert i H)" for j using t(4) lk by simp
      show "log_ok (lg v)" unfolding lgv by (rule la(1))
      show "length (disk v) \<le> 2 ^ 31" using t(7) sl by simp
    qed (rule db)
    moreover have "tx_frame p t v" using cv la(3) lgv sl pv by (simp add: tx_frame_def keeps_def only_wakes_refl)
    then have "tx_frame p s v" using u tx_frame_trans by blast
    moreover have "\<forall>j \<in> H. bufs v ! j = bufs s ! j" using u nb by auto
    moreover have "blk v = B(b := f (B b))" using sd(2) u by simp
    moreover have "logged (lg v) = insert b X" using lgv la(2) u by simp
    ultimately have "tx_held p H s i b (B(b := f (B b))) (insert b X) v"
      using u i(1,4) ca unfolding tx_held_def by simp
    then show "tx_held p H s i b (B(b := f (B b))) (insert b X) (rel LLog (upd_buf i (\<lambda>b. b\<lparr>b_dirty := True\<rparr>) (upd_lg (log_add (b_blockno (bufs ?t ! i))) (acq LLog ?t))))" unfolding v_def .
  qed
qed

lemma tx_held_step:
  assumes h: "tx_held p H s i b B X t" and st: "tx_step p (insert i H) t B' X' u" and "X \<subseteq> X'"
  shows "tx_held p H s i b B' X' u"
proof -
  note t = h [unfolded tx_held_def] and u = st [unfolded tx_step_def]
  have bi: "bufs u ! i = bufs t ! i" using u by simp
  have ca: "caches u i b" using t bi by (simp add: caches_def)
  have tx: "alone p (insert i H) u" using u by simp
  have "locked_buf u i" using aloneD(4) [OF tx] t by simp
  then have "b_valid (bufs u ! i)" using locked_props(1) [OF aloneD(2) [OF tx]] t by blast
  then have "B' b = b_data (bufs u ! i)" using blk_cached [OF aloneD(2) [OF tx] ca] u by simp
  then have "B' b = B b" using bi tx_held_data(1) [OF h] by simp
  moreover have "disk u = disk t" using u by (simp add: tx_frame_def)
  ultimately show ?thesis
    using t u ca assms(3) tx_frame_trans unfolding tx_held_def by (auto intro: tx_frame_trans)
qed

lemma tx_held_in: "tx_held p H s i b B X t \<Longrightarrow> alone p (insert i H) t \<and> blk t = B \<and> logged (lg t) = X \<and> tx_frame p s t"
  by (simp add: tx_held_def)

end
