(* ===== verification/BlockMap.thy ===== *)
theory BlockMap
  imports Inode LogTx
begin

text \<open>
  What the block layer of \<open>fs.c\<close> does to the block store, for a process that is alone in the cache and inside a
  transaction (\<open>LogTx\<close>): \<open>balloc\<close> takes the first free block of the bit map, marks and zeroes it; \<open>bfree\<close> clears its
  bit; \<open>bmap\<close> walks the tree of direct and indirect blocks of an inode and fills in what is missing.
\<close>

section \<open>The bit map\<close>

definition marked :: "superblock \<Rightarrow> (nat \<Rightarrow> uchar list) \<Rightarrow> nat \<Rightarrow> bool" where
  "marked v B b \<longleftrightarrow> \<not> bit_free (B (BBLOCK b v)) (b mod BPB)"

text \<open>The first block after the bit map.\<close>

definition data_start :: "superblock \<Rightarrow> nat" where
  "data_start v = sb_bmapstart v + (sb_size v + BPB - 1) div BPB"

text \<open>A file system: the blocks before the data area are marked as used.\<close>

definition fs_ok :: "superblock \<Rightarrow> (nat \<Rightarrow> uchar list) \<Rightarrow> nat \<Rightarrow> bool" where
  "fs_ok v B n \<longleftrightarrow> sb_size v \<le> n \<and> data_start v \<le> sb_size v \<and> (\<forall>b < data_start v. marked v B b) \<and> (\<forall>b < n. length (B b) = BSIZE)"

definition mark_block :: "superblock \<Rightarrow> nat \<Rightarrow> (nat \<Rightarrow> uchar list) \<Rightarrow> nat \<Rightarrow> uchar list" where
  "mark_block v b B = B(BBLOCK b v := bit_mark (b mod BPB) (B (BBLOCK b v)))"

definition unmark_block :: "superblock \<Rightarrow> nat \<Rightarrow> (nat \<Rightarrow> uchar list) \<Rightarrow> nat \<Rightarrow> uchar list" where
  "unmark_block v b B = B(BBLOCK b v := bit_clear (b mod BPB) (B (BBLOCK b v)))"

text \<open>The first free block.\<close>

definition first_free :: "superblock \<Rightarrow> (nat \<Rightarrow> uchar list) \<Rightarrow> nat \<Rightarrow> bool" where
  "first_free v B b \<longleftrightarrow> b < sb_size v \<and> \<not> marked v B b \<and> (\<forall>c < b. marked v B c)"

definition alloc_block :: "superblock \<Rightarrow> nat \<Rightarrow> (nat \<Rightarrow> uchar list) \<Rightarrow> nat \<Rightarrow> uchar list" where
  "alloc_block v b B = (mark_block v b B)(b := replicate BSIZE 0)"

text \<open>The blocks a process holds while it allocates are data blocks in use.\<close>

definition holds_data :: "superblock \<Rightarrow> nat set \<Rightarrow> 'a lstate_scheme \<Rightarrow> bool" where
  "holds_data v H s \<longleftrightarrow> (\<forall>i \<in> H. \<forall>c. caches s i c \<longrightarrow> data_start v \<le> c \<and> marked v (blk s) c)"

text \<open>The machine of the examples with a small file system on its disk: the first 35 of 40 blocks are in use, and a
  transaction is open.\<close>

definition fs_machine :: "uchar list list \<Rightarrow> kstate" where
  "fs_machine d = machine\<lparr>disk := d, lg := (lg machine)\<lparr>lg_outstanding := 1\<rparr>\<rparr>"

definition small_disk :: "uchar list list" where
  "small_disk = (replicate 40 (replicate 512 0))[34 := [255, 255, 255, 255, 7] @ replicate 507 0]"

lemma length_bit_mark [simp]: "length (bit_mark bi d) = length d" "length (bit_clear bi d) = length d"
  by (simp_all add: bit_mark_def bit_clear_def)

lemma bit_index: "(bi div 8 = bj div 8 \<and> bi mod 8 = bj mod 8) \<longleftrightarrow> bi = (bj :: nat)"
  by (metis div_mult_mod_eq)

lemma single_bit: "(w :: uchar) AND push_bit n 1 = 0 \<longleftrightarrow> \<not> bit w n"
  by (simp add: push_bit_eq_mult and_exp_eq_0_iff_not_bit)

lemma bit_free_mark:
  assumes "bi < 8 * length d" "bj < 8 * length d"
  shows "bit_free (bit_mark bi d) bj \<longleftrightarrow> bj \<noteq> bi \<and> bit_free d bj"
proof -
  have l: "bi div 8 < length d" "bj div 8 < length d" "bi mod 8 < 8" "bj mod 8 < 8" using assms by auto
  show ?thesis
    using l bit_index [of bi bj] unfolding bit_free_def bit_mark_def single_bit
    by (cases "bi div 8 = bj div 8") (auto simp: bit_simps)
qed

lemma bit_free_clear:
  assumes "bi < 8 * length d" "bj < 8 * length d"
  shows "bit_free (bit_clear bi d) bj \<longleftrightarrow> bj = bi \<or> bit_free d bj"
proof -
  have l: "bi div 8 < length d" "bj div 8 < length d" "bi mod 8 < 8" "bj mod 8 < 8" using assms by auto
  show ?thesis
    using l bit_index [of bi bj] unfolding bit_free_def bit_clear_def single_bit
    by (cases "bi div 8 = bj div 8") (auto simp: bit_simps)
qed

lemma block_index: "BBLOCK b v = BBLOCK c v \<and> b mod BPB = c mod BPB \<longleftrightarrow> b = c"
  unfolding BBLOCK_def by (auto) (metis div_mult_mod_eq)

lemma BBLOCK_bound:
  assumes "fs_ok v B n" "b < sb_size v"
  shows "BBLOCK b v < data_start v" "BBLOCK b v < n" "length (B (BBLOCK b v)) = BSIZE"
proof -
  have "b div BPB < (sb_size v + BPB - 1) div BPB" using assms(2) by (simp add: div_less_iff_less_mult)
  then show 1: "BBLOCK b v < data_start v" by (simp add: BBLOCK_def data_start_def)
  then show "BBLOCK b v < n" "length (B (BBLOCK b v)) = BSIZE" using assms(1) by (auto simp: fs_ok_def)
qed

lemma marked_mark:
  assumes "fs_ok v B n" "b < sb_size v" "c < sb_size v"
  shows "marked v (mark_block v b B) c \<longleftrightarrow> c = b \<or> marked v B c"
proof (cases "BBLOCK b v = BBLOCK c v")
  case True
  have "b mod BPB < 8 * BSIZE" "c mod BPB < 8 * BSIZE" by simp_all
  then show ?thesis
    using True BBLOCK_bound [OF assms(1,2)] block_index [of b v c] by (auto simp: marked_def mark_block_def bit_free_mark)
next
  case False
  then show ?thesis by (auto simp: marked_def mark_block_def)
qed

lemma marked_unmark:
  assumes "fs_ok v B n" "b < sb_size v" "c < sb_size v"
  shows "marked v (unmark_block v b B) c \<longleftrightarrow> c \<noteq> b \<and> marked v B c"
proof (cases "BBLOCK b v = BBLOCK c v")
  case True
  have "b mod BPB < 8 * BSIZE" "c mod BPB < 8 * BSIZE" by simp_all
  then show ?thesis
    using True BBLOCK_bound [OF assms(1,2)] block_index [of b v c] by (auto simp: marked_def unmark_block_def bit_free_clear)
next
  case False
  then show ?thesis by (auto simp: marked_def unmark_block_def)
qed

lemma first_free_data: "fs_ok v B n \<Longrightarrow> first_free v B b \<Longrightarrow> data_start v \<le> b \<and> b < n"
  by (auto simp: fs_ok_def first_free_def) (meson leI)

lemma alloc_block_ok:
  assumes "fs_ok v B n" "first_free v B b"
  shows "c < sb_size v \<Longrightarrow> marked v (alloc_block v b B) c \<longleftrightarrow> c = b \<or> marked v B c" "fs_ok v (alloc_block v b B) n"
    "c \<noteq> b \<Longrightarrow> data_start v \<le> c \<Longrightarrow> alloc_block v b B c = B c"
proof -
  have b: "b < sb_size v" "data_start v \<le> b" using assms first_free_data by (auto simp: first_free_def)
  have m: "marked v (alloc_block v b B) c \<longleftrightarrow> c = b \<or> marked v B c" if "c < sb_size v" for c
  proof -
    have "BBLOCK c v \<noteq> b" using BBLOCK_bound(1) [OF assms(1) that] b(2) by simp
    then have "marked v (alloc_block v b B) c = marked v (mark_block v b B) c" by (simp add: marked_def alloc_block_def)
    then show ?thesis using marked_mark [OF assms(1) b(1) that] by simp
  qed
  then show "c < sb_size v \<Longrightarrow> marked v (alloc_block v b B) c \<longleftrightarrow> c = b \<or> marked v B c" .
  show "fs_ok v (alloc_block v b B) n"
    using assms(1) m by (auto simp: fs_ok_def alloc_block_def mark_block_def)
  have "BBLOCK b v < data_start v" by (rule BBLOCK_bound(1) [OF assms(1) b(1)])
  then show "c \<noteq> b \<Longrightarrow> data_start v \<le> c \<Longrightarrow> alloc_block v b B c = B c" by (auto simp: alloc_block_def mark_block_def)
qed

section \<open>Allocation\<close>

lemma tx_modify:
  assumes "alone p H s" "b < length (disk s)" "not_held H s b" "length (f (blk s b)) = BSIZE" "card H + card (logged (lg s)) < LOGSIZE - 1" "1 \<le> lg_outstanding (lg s)"
  shows "wp (kbind (bread ROOTDEV b) (\<lambda>bp. kthen (set_bdata bp f) (kthen (log_write bp) (brelse bp))))
    (\<lambda>_. tx_step p H s ((blk s)(b := f (blk s b))) (insert b (logged (lg s)))) s"
  unfolding wp_kbind
proof (rule wp_mono [OF tx_bread [OF assms(1-3)]])
  fix i t assume h: "tx_held p H s i b (blk s) (logged (lg s)) t"
  show "wp (kthen (set_bdata i f) (kthen (log_write i) (brelse i))) (\<lambda>_. tx_step p H s ((blk s)(b := f (blk s b))) (insert b (logged (lg s)))) t"
    unfolding wp_kthen wp_set_bdata
    by (rule wp_mono [OF tx_update [OF h, where f = f]]) (use assms(4-6) in \<open>auto intro: tx_brelse\<close>)
qed (use assms(5) in simp)

lemma bzero_ok:
  assumes "alone p H s" "b < length (disk s)" "not_held H s b" "card H + card (logged (lg s)) < LOGSIZE - 1" "1 \<le> lg_outstanding (lg s)"
  shows "wp (bzero ROOTDEV b) (\<lambda>_. tx_step p H s ((blk s)(b := replicate BSIZE 0)) (insert b (logged (lg s)))) s"
  unfolding bzero_def using tx_modify [OF assms(1-3) _ assms(4,5), of "\<lambda>_. replicate BSIZE 0"] by simp

lemma tx_step_disk: "tx_step p H s B X t \<Longrightarrow> disk t = disk s"
  by (simp add: tx_step_def tx_frame_def)

lemma tx_step_kernel:
  assumes "tx_step p H s B X (t :: 'a kstate_scheme)"
  shows "con t = con s" "mm t = mm s" "ic t = ic s" "fl t = fl s" "ticks t = ticks s"
  using assms by (simp_all add: tx_step_def tx_frame_def lmore_eq)

lemma tx_held_kernel:
  assumes "tx_held p H s i b B X (t :: 'a kstate_scheme)"
  shows "con t = con s" "mm t = mm s" "ic t = ic s" "fl t = fl s" "ticks t = ticks s" "disk t = disk s"
  using assms by (simp_all add: tx_held_def tx_frame_def lmore_eq)

lemma not_held_step: "tx_step p H s B X t \<Longrightarrow> not_held H t c = not_held H s c"
  by (auto simp: tx_step_def not_held_def caches_def)

lemma holds_data_free:
  "holds_data v H s \<Longrightarrow> b < data_start v \<Longrightarrow> not_held H s b" "holds_data v H s \<Longrightarrow> \<not> marked v (blk s) b \<Longrightarrow> not_held H s b"
  by (force simp: holds_data_def not_held_def)+

lemma holds_data_step: "tx_step p H s B X t \<Longrightarrow> holds_data v H t \<longleftrightarrow> (\<forall>i \<in> H. \<forall>c. caches s i c \<longrightarrow> data_start v \<le> c \<and> marked v B c)"
  by (auto simp: tx_step_def holds_data_def caches_def)

lemma find_upt: "find P [0..<n] = Some i \<longleftrightarrow> i < n \<and> P i \<and> (\<forall>j < i. \<not> P j)"
  by (auto simp: find_Some_iff)

lemma balloc_in_ok:
  assumes tx: "alone p H s" and fs: "fs_ok (sb (ic s)) (blk s) (length (disk s))" and h: "holds_data (sb (ic s)) H s"
    and op: "1 \<le> lg_outstanding (lg s)" and room: "card H + card (logged (lg s)) < LOGSIZE - 2" and k: "BPB * k < sb_size (sb (ic s))"
    and pre: "\<forall>c < BPB * k. marked (sb (ic s)) (blk s) c"
  shows "wp (balloc_in ROOTDEV (BPB * k)) (\<lambda>r t. case r of
       Some b \<Rightarrow> first_free (sb (ic s)) (blk s) b \<and> tx_step p H s (alloc_block (sb (ic s)) b (blk s)) ({b, BBLOCK b (sb (ic s))} \<union> logged (lg s)) t
     | None \<Rightarrow> (\<forall>c < BPB * Suc k. c < sb_size (sb (ic s)) \<longrightarrow> marked (sb (ic s)) (blk s) c) \<and> tx_step p H s (blk s) (logged (lg s)) t) s"
proof -
  let ?v = "sb (ic s)" and ?b = "BPB * k" and ?B = "blk s"
  let ?bb = "BBLOCK ?b ?v"
  note bb = BBLOCK_bound [OF fs k]
  have nh: "not_held H s ?bb" by (rule holds_data_free(1) [OF h bb(1)])
  have idx: "BBLOCK (?b + bi) ?v = ?bb" "(?b + bi) mod BPB = bi" if "bi < BPB" for bi
    using that by (simp_all add: BBLOCK_def)
  have mk: "marked ?v ?B (?b + bi) \<longleftrightarrow> \<not> bit_free (?B ?bb) bi" if "bi < BPB" for bi
    using idx [OF that] by (simp add: marked_def)
  show ?thesis
    unfolding balloc_in_def get_sb_def wp_kbind wp_prims
  proof (rule wp_mono [OF tx_bread [OF tx bb(2) nh]])
    show "card H + card (logged (lg s)) < NBUF" using room by simp
    fix i t assume hd: "tx_held p H s i ?bb ?B (logged (lg s)) t"
    note da = tx_held_data [OF hd]
    show "wp (get_bdata i) (\<lambda>d. wp (case find (bit_free d) [0..<min BPB (sb_size ?v - ?b)] of
           None \<Rightarrow> kthen (brelse i) (kreturn None)
         | Some bi \<Rightarrow> kthen (set_bdata i (bit_mark bi)) (kthen (log_write i) (kthen (brelse i) (kthen (bzero ROOTDEV (?b + bi)) (kreturn (Some (?b + bi)))))))
        (\<lambda>r t. case r of
       Some b \<Rightarrow> first_free ?v ?B b \<and> tx_step p H s (alloc_block ?v b ?B) ({b, BBLOCK b ?v} \<union> logged (lg s)) t
     | None \<Rightarrow> (\<forall>c < BPB * Suc k. c < sb_size ?v \<longrightarrow> marked ?v ?B c) \<and> tx_step p H s ?B (logged (lg s)) t)) t"
    proof (cases "find (bit_free (?B ?bb)) [0..<min BPB (sb_size ?v - ?b)]")
      case None
      have all: "\<forall>c < BPB * Suc k. c < sb_size ?v \<longrightarrow> marked ?v ?B c"
      proof (intro allI impI)
        fix c assume c: "c < BPB * Suc k" "c < sb_size ?v"
        show "marked ?v ?B c"
        proof (cases "c < ?b")
          case False
          then obtain bi where bi: "c = ?b + bi" "bi < BPB" using c(1) by (metis add_less_cancel_left le_Suc_ex linorder_not_less mult_Suc_right add.commute)
          then have "bi < min BPB (sb_size ?v - ?b)" using c(2) by simp
          then show ?thesis using None mk [OF bi(2)] bi(1) by (auto simp: find_None_iff)
        qed (use pre in simp)
      qed
      show ?thesis
        unfolding wps da(1) None option.case
        by (rule wp_mono [OF tx_brelse [OF hd]]) (use all in simp)
    next
      case (Some bi)
      then have bi: "bi < BPB" "?b + bi < sb_size ?v" "bit_free (?B ?bb) bi" "\<forall>j < bi. \<not> bit_free (?B ?bb) j"
        by (auto simp: find_upt)
      let ?c = "?b + bi"
      have ff: "first_free ?v ?B ?c"
        unfolding first_free_def
      proof (intro conjI allI impI)
        show "\<not> marked ?v ?B ?c" using mk [OF bi(1)] bi(3) by simp
        fix c assume c: "c < ?c"
        show "marked ?v ?B c"
        proof (cases "c < ?b")
          case False
          then obtain j where j: "c = ?b + j" by (metis le_Suc_ex linorder_not_less)
          then show ?thesis using mk [of j] bi(1,4) c by simp
        qed (use pre in simp)
      qed (rule bi(2))
      have cn: "?c < length (disk s)" "data_start ?v \<le> ?c" using first_free_data [OF fs ff] by auto
      have len: "length (bit_mark bi (?B ?bb)) = BSIZE" using bb(3) by simp
      let ?B1 = "?B(?bb := bit_mark bi (?B ?bb))" and ?X1 = "insert ?bb (logged (lg s))"
      have al: "alloc_block ?v ?c ?B = ?B1(?c := replicate BSIZE 0)" using idx [OF bi(1)] by (simp add: alloc_block_def mark_block_def)
      have bz: "wp (bzero ROOTDEV ?c) (\<lambda>_. tx_step p H s (alloc_block ?v ?c ?B) (insert ?c ?X1)) u" if st: "tx_step p H s ?B1 ?X1 u" for u
      proof -
        have u: "alone p H u" "blk u = ?B1" "logged (lg u) = ?X1" "disk u = disk s" using st by (auto simp: tx_step_def tx_frame_def)
        have "1 \<le> lg_outstanding (lg u)" using op tx_frame_outstanding [of p s u] st by (simp add: tx_step_def)
        moreover have "not_held H u ?c" using not_held_step [OF st] holds_data_free(2) [OF h] ff by (simp add: first_free_def)
        moreover have "card H + card ?X1 < LOGSIZE - 1" using room card_insert_le_m1 [of "card (logged (lg s)) + 1" "logged (lg s)" ?bb] by simp
        ultimately have "wp (bzero ROOTDEV ?c) (\<lambda>_. tx_step p H u ((blk u)(?c := replicate BSIZE 0)) (insert ?c (logged (lg u)))) u"
          using u cn by (intro bzero_ok) simp_all
        then show ?thesis unfolding u al by (rule wp_mono) (rule tx_step_trans [OF st])
      qed
      have wr: "wp (log_write i) (\<lambda>_. tx_held p H s i ?bb ?B1 ?X1) (upd_buf i (\<lambda>c. c\<lparr>b_data := bit_mark bi (b_data c)\<rparr>) t)"
        by (rule tx_update [OF hd, where f = "bit_mark bi"]) (use room len op in simp_all)
      have set: "insert ?c ?X1 = {?c, BBLOCK ?c ?v} \<union> logged (lg s)" using idx [OF bi(1)] by simp
      show ?thesis
        unfolding wps da(1) Some option.case
        apply (rule wp_mono [OF wr])
        apply (rule wp_mono [OF tx_brelse], assumption)
        apply (rule wp_mono [OF bz], assumption)
        using ff set by simp
    qed
  qed
qed

lemma first_free_unique: "first_free v B b \<Longrightarrow> first_free v B c \<Longrightarrow> b = c"
  by (meson first_free_def linorder_neqE_nat)

lemma group_bound: "k < (n + BPB - 1) div BPB \<longleftrightarrow> BPB * k < n"
  by linarith

lemma balloc_ok:
  assumes tx: "alone p H s" and fs: "fs_ok (sb (ic s)) (blk s) (length (disk s))" and h: "holds_data (sb (ic s)) H s"
    and op: "1 \<le> lg_outstanding (lg s)" and room: "card H + card (logged (lg s)) < LOGSIZE - 2" and ff: "first_free (sb (ic s)) (blk s) b"
  shows "wp (balloc ROOTDEV) (\<lambda>r t. r = b \<and> tx_step p H s (alloc_block (sb (ic s)) b (blk s)) ({b, BBLOCK b (sb (ic s))} \<union> logged (lg s)) t) s"
proof -
  let ?v = "sb (ic s)" and ?B = "blk s" and ?X = "logged (lg s)"
  let ?n = "(sb_size ?v + BPB - 1) div BPB"
  let ?Q = "\<lambda>t. tx_step p H s (alloc_block ?v b ?B) ({b, BBLOCK b ?v} \<union> ?X) t"
  have loop: "wp (kfirst (\<lambda>k. balloc_in ROOTDEV (BPB * k)) [k..<?n]) (\<lambda>r t. r = Some b \<and> ?Q t) u"
    if "tx_step p H s ?B ?X u" "\<forall>c < BPB * k. c < sb_size ?v \<longrightarrow> marked ?v ?B c" for k u
    using that
  proof (induction "?n - k" arbitrary: k u)
    case 0
    have "b < sb_size ?v" using ff by (simp add: first_free_def)
    moreover have "\<not> k < ?n" using 0(1) by simp
    then have "sb_size ?v \<le> BPB * k" unfolding group_bound by simp
    ultimately have "marked ?v ?B b" using 0(3) by simp
    then show ?case using ff by (simp add: first_free_def)
  next
    case (Suc m)
    have u: "alone p H u" "blk u = ?B" "logged (lg u) = ?X" "disk u = disk s" "ic u = ic s"
      using Suc.prems(1) tx_step_kernel(3) [OF Suc.prems(1)] by (auto simp: tx_step_def tx_frame_def)
    have hu: "holds_data (sb (ic u)) H u" using h holds_data_step [OF Suc.prems(1)] u(5) by (auto simp: holds_data_def)
    have k: "k < ?n" using Suc(2) by simp
    then have kb: "BPB * k < sb_size (sb (ic u))" unfolding group_bound u(5) .
    have up: "[k..<?n] = k # [Suc k..<?n]" using k by (rule upt_conv_Cons)
    have pre: "\<forall>c < BPB * k. marked (sb (ic u)) (blk u) c" using Suc.prems(2) kb u by auto
    have opu: "1 \<le> lg_outstanding (lg u)" using op tx_frame_outstanding [of p s u] Suc.prems(1) by (simp add: tx_step_def)
    show ?case
      unfolding up kfirst.simps wp_kbind
    proof (rule wp_mono [OF balloc_in_ok [OF u(1) _ hu opu _ kb pre]])
      show "fs_ok (sb (ic u)) (blk u) (length (disk u))" "card H + card (logged (lg u)) < LOGSIZE - 2" using fs room u by simp_all
      fix r t assume r: "case r of
         Some b \<Rightarrow> first_free (sb (ic u)) (blk u) b \<and> tx_step p H u (alloc_block (sb (ic u)) b (blk u)) ({b, BBLOCK b (sb (ic u))} \<union> logged (lg u)) t
       | None \<Rightarrow> (\<forall>c < BPB * Suc k. c < sb_size (sb (ic u)) \<longrightarrow> marked (sb (ic u)) (blk u) c) \<and> tx_step p H u (blk u) (logged (lg u)) t"
      show "wp (case r of None \<Rightarrow> kfirst (\<lambda>k. balloc_in ROOTDEV (BPB * k)) [Suc k..<?n] | Some x \<Rightarrow> kreturn (Some x)) (\<lambda>r t. r = Some b \<and> ?Q t) t"
      proof (cases r)
        case None
        then have "tx_step p H s ?B ?X t" "\<forall>c < BPB * Suc k. c < sb_size ?v \<longrightarrow> marked ?v ?B c"
          using r u Suc.prems(1) tx_step_trans by auto
        then have "wp (kfirst (\<lambda>k. balloc_in ROOTDEV (BPB * k)) [Suc k..<?n]) (\<lambda>r t. r = Some b \<and> ?Q t) t"
          using Suc(2) by (intro Suc(1)) simp_all
        then show ?thesis using None by simp
      next
        case (Some x)
        then have "x = b" using r u ff first_free_unique by auto
        then show ?thesis using Some r u Suc.prems(1) tx_step_trans by (auto simp: wps)
      qed
    qed
  qed
  have "wp (kfirst (\<lambda>k. balloc_in ROOTDEV (BPB * k)) [0..<?n]) (\<lambda>r t. r = Some b \<and> ?Q t) s"
    by (rule loop [OF tx_step_refl [OF tx]]) simp
  then show ?thesis
    unfolding balloc_def get_sb_def wp_kbind wp_prims by (rule wp_mono) (auto simp: wps)
qed

lemma bfree_ok:
  assumes tx: "alone p H s" and fs: "fs_ok (sb (ic s)) (blk s) (length (disk s))" and h: "holds_data (sb (ic s)) H s"
    and op: "1 \<le> lg_outstanding (lg s)" and room: "card H + card (logged (lg s)) < LOGSIZE - 1" and b: "b < sb_size (sb (ic s))" "marked (sb (ic s)) (blk s) b"
  shows "wp (bfree ROOTDEV b) (\<lambda>_. tx_step p H s (unmark_block (sb (ic s)) b (blk s)) (insert (BBLOCK b (sb (ic s))) (logged (lg s)))) s"
proof -
  let ?v = "sb (ic s)" and ?B = "blk s"
  let ?bb = "BBLOCK b ?v"
  note bb = BBLOCK_bound [OF fs b(1)]
  have nh: "not_held H s ?bb" by (rule holds_data_free(1) [OF h bb(1)])
  have nf: "\<not> bit_free (?B ?bb) (b mod BPB)" using b(2) by (simp add: marked_def)
  show ?thesis
    unfolding bfree_def get_sb_def wp_kbind wp_prims
  proof (rule wp_mono [OF tx_bread [OF tx bb(2) nh]])
    show "card H + card (logged (lg s)) < NBUF" using room by simp
    fix i t assume hd: "tx_held p H s i ?bb ?B (logged (lg s)) t"
    have wr: "wp (log_write i) (\<lambda>_. tx_held p H s i ?bb (unmark_block ?v b ?B) (insert ?bb (logged (lg s)))) (upd_buf i (\<lambda>c. c\<lparr>b_data := bit_clear (b mod BPB) (b_data c)\<rparr>) t)"
      unfolding unmark_block_def by (rule tx_update [OF hd]) (use room bb(3) op in simp_all)
    show "wp (get_bdata i) (\<lambda>d. wp (if bit_free d (b mod BPB) then kpanic ''freeing free block''
         else kthen (set_bdata i (bit_clear (b mod BPB))) (kthen (log_write i) (brelse i)))
        (\<lambda>_. tx_step p H s (unmark_block ?v b ?B) (insert ?bb (logged (lg s))))) t"
      using nf tx_held_data(1) [OF hd] by (simp add: wps) (rule wp_mono [OF wr], erule tx_brelse)
  qed
qed

section \<open>Theorems\<close>

lemma fs_machine_alone:
  assumes "\<forall>x \<in> set d. length x = BSIZE" "length d \<le> 2 ^ 31"
  shows "alone 0 {} (fs_machine d)" "blk (fs_machine d) = (!) d" "logged (lg (fs_machine d)) = {}" "lg_outstanding (lg (fs_machine d)) = 1"
    "disk (fs_machine d) = d" "ic (fs_machine d) = ic machine"
proof -
  let ?s = "fs_machine d"
  have c: "ctx 0 {} ?s" using machine_quiet(2) by (simp add: fs_machine_def ctx_def cpu_ok_def me_def my_ncli_def curproc_def held_def lock_free_def)
  have l: "\<not> locked_buf ?s i" for i by (simp add: locked_buf_def fs_machine_def machine_def)
  have b: "i < NBUF \<Longrightarrow> bufs ?s ! i = \<lparr>b_valid = False, b_dirty = False, b_dev = 0, b_blockno = 0, b_refcnt = 0, b_data = replicate 512 0\<rparr>" for i
    by (simp add: fs_machine_def machine_def)
  have "buf_ok ?s i" if "i < NBUF" for i using that b by (simp add: buf_ok_def l)
  moreover have "bufs ?s = bufs machine" "border ?s = [0..<NBUF]" "length (bufs machine) = NBUF" by (simp_all add: fs_machine_def machine_def)
  ultimately have bi: "bio_inv ?s"
    unfolding bio_inv_def using b assms(1) by (auto simp: fs_machine_def atLeast0LessThan)
  have dd: "\<not> dirtyb ?s x" for x using b by (auto simp: dirtyb_def caches_def)
  show lg: "logged (lg ?s) = {}" "lg_outstanding (lg ?s) = 1" "disk ?s = d" "ic ?s = ic machine"
    by (simp_all add: fs_machine_def machine_def logged_def)
  have lo: "log_ok (lg ?s)" by (simp add: fs_machine_def machine_def log_ok_def)
  show "alone 0 {} ?s" by (rule aloneI) (use c bi l lo dd lg assms(2) in simp_all)
  show "blk ?s = (!) d"
  proof
    fix x
    have "\<not> caches ?s i x" for i using b by (auto simp: caches_def)
    then show "blk ?s x = d ! x" using blk_uncached [OF bi, of x] lg(3) by auto
  qed
qed

lemma small_disk_ok:
  shows "\<forall>x \<in> set small_disk. length x = BSIZE" "length small_disk = 40" "fs_ok (sb (ic machine)) ((!) small_disk) 40"
    "first_free (sb (ic machine)) ((!) small_disk) 35" "b < 40 \<Longrightarrow> marked (sb (ic machine)) ((!) small_disk) b \<longleftrightarrow> b < 35"
proof -
  let ?v = "sb (ic machine)"
  have v: "sb_size ?v = 40" "sb_bmapstart ?v = 34" by (simp_all add: machine_def)
  show l: "length small_disk = 40" by (simp add: small_disk_def)
  show le: "\<forall>x \<in> set small_disk. length x = BSIZE"
    unfolding small_disk_def using set_update_subset_insert [of "replicate 40 (replicate 512 0)" 34] by fastforce
  show bm: "marked ?v ((!) small_disk) b \<longleftrightarrow> b < 35" if "b < 40" for b
  proof -
    have "b \<in> set [0..<40]" using that by simp
    moreover have "\<forall>b \<in> set [0..<40]. marked ?v ((!) small_disk) b \<longleftrightarrow> b < 35"
      by (simp add: upt_rec marked_def bit_free_def BBLOCK_def v small_disk_def)
    ultimately show ?thesis by blast
  qed
  have ds: "data_start ?v = 35" by (simp add: data_start_def v)
  show "fs_ok ?v ((!) small_disk) 40" using bm ds v le l by (simp add: fs_ok_def)
  show "first_free ?v ((!) small_disk) 35" using bm v by (simp add: first_free_def)
qed

lemma bit_clear_mark: "bi < 8 * length d \<Longrightarrow> bit_free d bi \<Longrightarrow> bit_clear bi (bit_mark bi d) = d"
proof -
  assume a: "bi < 8 * length d" "bit_free d bi"
  have "(d ! (bi div 8) OR push_bit (bi mod 8) 1) AND NOT (push_bit (bi mod 8) 1) = d ! (bi div 8)"
    using a(2) unfolding bit_free_def single_bit by (intro bit_word_eqI) (auto simp: bit_simps)
  then show ?thesis using a(1) by (simp add: bit_clear_def bit_mark_def less_mult_imp_div_less mult.commute)
qed

text \<open>C17: Block allocation. In a file system with a free block, inside a transaction with room in the log, \<open>balloc\<close> returns the first block
  that is free in the bit map, whatever bit map block it lies in. Afterwards the block is zeroed, exactly its bit has been set, no
  other block has changed, and only the two blocks written are in the log. Freeing it again with \<open>bfree\<close> restores the bit map exactly.\<close>

theorem balloc_bfree:
  assumes "alone p {} s" "1 \<le> lg_outstanding (lg s)" "card (logged (lg s)) \<le> 26"
    and "fs_ok (sb (ic s)) (blk s) (length (disk s))" "first_free (sb (ic s)) (blk s) b"
  shows "wp (balloc ROOTDEV) (\<lambda>r t. r = b \<and> blk t b = replicate BSIZE 0 \<and> fs_ok (sb (ic t)) (blk t) (length (disk t))
      \<and> (\<forall>c < sb_size (sb (ic s)). marked (sb (ic s)) (blk t) c \<longleftrightarrow> c = b \<or> marked (sb (ic s)) (blk s) c)
      \<and> (\<forall>c. c \<noteq> b \<longrightarrow> c \<noteq> BBLOCK b (sb (ic s)) \<longrightarrow> blk t c = blk s c)
      \<and> logged (lg t) = {b, BBLOCK b (sb (ic s))} \<union> logged (lg s) \<and> alone p {} t) s
    \<and> wp (kthen (balloc ROOTDEV) (bfree ROOTDEV b)) (\<lambda>_ t. blk t = (blk s)(b := replicate BSIZE 0) \<and> alone p {} t) s"
proof -
  let ?v = "sb (ic s)" and ?B = "blk s"
  have h: "holds_data ?v {} s" by (simp add: holds_data_def)
  note ba = balloc_ok [OF assms(1,4) h assms(2) _ assms(5)] and al = alloc_block_ok [OF assms(4,5)]
  have room: "card ({} :: nat set) + card (logged (lg s)) < LOGSIZE - 2" using assms(3) by simp
  have b: "b < sb_size ?v" "\<not> marked ?v ?B b" "data_start ?v \<le> b" using assms(5) first_free_data [OF assms(4,5)] by (auto simp: first_free_def)
  have ne: "BBLOCK b ?v \<noteq> b" using BBLOCK_bound(1) [OF assms(4) b(1)] b(3) by simp
  have 1: "wp (balloc ROOTDEV) (\<lambda>r t. r = b \<and> blk t b = replicate BSIZE 0 \<and> fs_ok (sb (ic t)) (blk t) (length (disk t))
      \<and> (\<forall>c < sb_size ?v. marked ?v (blk t) c \<longleftrightarrow> c = b \<or> marked ?v ?B c) \<and> (\<forall>c. c \<noteq> b \<longrightarrow> c \<noteq> BBLOCK b ?v \<longrightarrow> blk t c = ?B c)
      \<and> logged (lg t) = {b, BBLOCK b ?v} \<union> logged (lg s) \<and> alone p {} t) s"
  proof (rule wp_mono [OF ba [OF room]], elim conjE)
    fix r t assume r: "r = b" and st: "tx_step p {} s (alloc_block ?v b ?B) ({b, BBLOCK b ?v} \<union> logged (lg s)) t"
    then have t: "blk t = alloc_block ?v b ?B" "ic t = ic s" "disk t = disk s" "logged (lg t) = {b, BBLOCK b ?v} \<union> logged (lg s)" "alone p {} t"
      using tx_step_kernel(3) [OF st] by (auto simp: tx_step_def tx_frame_def)
    show "r = b \<and> blk t b = replicate BSIZE 0 \<and> fs_ok (sb (ic t)) (blk t) (length (disk t))
      \<and> (\<forall>c < sb_size ?v. marked ?v (blk t) c \<longleftrightarrow> c = b \<or> marked ?v ?B c) \<and> (\<forall>c. c \<noteq> b \<longrightarrow> c \<noteq> BBLOCK b ?v \<longrightarrow> blk t c = ?B c)
      \<and> logged (lg t) = {b, BBLOCK b ?v} \<union> logged (lg s) \<and> alone p {} t"
      unfolding t(1-4) using r al(1,2) t(5) by (simp add: alloc_block_def mark_block_def)
  qed
  have un: "unmark_block ?v b (alloc_block ?v b ?B) = ?B(b := replicate BSIZE 0)"
  proof -
    have "b mod BPB < 8 * length (?B (BBLOCK b ?v))" using BBLOCK_bound(3) [OF assms(4) b(1)] by simp
    then have "bit_clear (b mod BPB) (bit_mark (b mod BPB) (?B (BBLOCK b ?v))) = ?B (BBLOCK b ?v)"
      using b(2) by (intro bit_clear_mark) (simp_all add: marked_def)
    then show ?thesis using ne by (auto simp: unmark_block_def alloc_block_def mark_block_def)
  qed
  have "wp (kthen (balloc ROOTDEV) (bfree ROOTDEV b)) (\<lambda>_ t. blk t = ?B(b := replicate BSIZE 0) \<and> alone p {} t) s"
    unfolding wp_kthen
  proof (rule wp_mono [OF ba [OF room]], elim conjE)
    fix r t assume st: "tx_step p {} s (alloc_block ?v b ?B) ({b, BBLOCK b ?v} \<union> logged (lg s)) t"
    then have t: "blk t = alloc_block ?v b ?B" "ic t = ic s" "disk t = disk s" "logged (lg t) = {b, BBLOCK b ?v} \<union> logged (lg s)" "alone p {} t"
      "1 \<le> lg_outstanding (lg t)"
      using tx_step_kernel(3) [OF st] assms(2) tx_frame_outstanding [of p s t] by (auto simp: tx_step_def tx_frame_def)
    have "card ({b, BBLOCK b ?v} \<union> logged (lg s)) \<le> card {b, BBLOCK b ?v} + card (logged (lg s))" by (rule card_Un_le)
    also have "card {b, BBLOCK b ?v} \<le> 2" by (simp add: card_insert_if)
    finally have "card ({} :: nat set) + card (logged (lg t)) < LOGSIZE - 1" using assms(3) t(4) by simp
    moreover have "fs_ok (sb (ic t)) (blk t) (length (disk t))" "marked (sb (ic t)) (blk t) b" using al b t by simp_all
    ultimately have "wp (bfree ROOTDEV b) (\<lambda>_. tx_step p {} t (unmark_block (sb (ic t)) b (blk t)) (insert (BBLOCK b (sb (ic t))) (logged (lg t)))) t"
      using t b(1) by (intro bfree_ok) (simp_all add: holds_data_def)
    then show "wp (bfree ROOTDEV b) (\<lambda>_ u. blk u = ?B(b := replicate BSIZE 0) \<and> alone p {} u) t"
      by (rule wp_mono) (use un t in \<open>simp add: tx_step_def\<close>)
  qed
  with 1 show ?thesis ..
qed

theorem balloc_bfree_witness: "wp (balloc ROOTDEV) (\<lambda>r t. r = 35 \<and> marked (sb (ic machine)) (blk t) 35) (fs_machine small_disk)"
proof -
  have s: "length small_disk \<le> 2 ^ 31" by (simp add: small_disk_ok)
  note f = fs_machine_alone [OF small_disk_ok(1) s]
  have "BBLOCK 35 (sb (ic machine)) = 34" "sb_size (sb (ic machine)) = 40" by (simp_all add: BBLOCK_def machine_def)
  then show ?thesis
    by (intro wp_mono [OF conjunct1 [OF balloc_bfree [of 0 "fs_machine small_disk" 35]]]) (auto simp: f small_disk_ok)
qed

end
