(* ===== verification/FileTree.thy ===== *)
theory FileTree
  imports BlockMap
begin

text \<open>
  The block tree of an inode: ten direct blocks and a single, a double and a triple indirect block. A position in the tree is a slot of
  the inode with a path of entry numbers below it; \<open>ptr\<close> follows it, and is 0 where nothing is allocated. The tree is sound
  when its blocks are data blocks in use and no block occurs twice. \<open>bmap\<close> is shown to walk to the position of the block asked for, to
  allocate what is missing on the way, and to leave the contents of the file and every other block in use as they were.
\<close>

section \<open>Positions\<close>

primrec walk :: "(nat \<Rightarrow> uchar list) \<Rightarrow> nat \<Rightarrow> nat list \<Rightarrow> nat" where
  "walk B a [] = a"
| "walk B a (j # js) = (if a = 0 then 0 else walk B (get32 (B a) (4 * j)) js)"

definition ptr :: "(nat \<Rightarrow> uchar list) \<Rightarrow> nat list \<Rightarrow> nat \<times> nat list \<Rightarrow> nat" where
  "ptr B A = (\<lambda>(k, js). walk B (A ! k) js)"

text \<open>How many levels of indirect blocks hang below slot \<open>k\<close>.\<close>

definition depth :: "nat \<Rightarrow> nat" where
  "depth k = k - 9"

definition valid_pos :: "nat \<times> nat list \<Rightarrow> bool" where
  "valid_pos = (\<lambda>(k, js). k < NDIRECT + 3 \<and> length js \<le> depth k \<and> (\<forall>j \<in> set js. j < NINDIRECT))"

definition data_pos :: "nat \<times> nat list \<Rightarrow> bool" where
  "data_pos = (\<lambda>(k, js). valid_pos (k, js) \<and> length js = depth k)"

text \<open>The position of block \<open>bn\<close> of the file.\<close>

definition bpath :: "nat \<Rightarrow> nat \<times> nat list" where
  "bpath bn =
     (if bn < NDIRECT then (bn, [])
      else let bn = bn - NDIRECT in if bn < NINDIRECT then (NDIRECT, [bn])
      else let bn = bn - NINDIRECT in if bn < N2INDIRECT then (NDIRECT + 1, [bn div NINDIRECT, bn mod NINDIRECT])
      else let bn = bn - N2INDIRECT in (NDIRECT + 2, [bn div N2INDIRECT, bn mod N2INDIRECT div NINDIRECT, bn mod N2INDIRECT mod NINDIRECT]))"

definition tree_ok :: "superblock \<Rightarrow> (nat \<Rightarrow> uchar list) \<Rightarrow> nat list \<Rightarrow> bool" where
  "tree_ok v B A \<longleftrightarrow> length A = NDIRECT + 3
     \<and> (\<forall>q. valid_pos q \<longrightarrow> ptr B A q \<noteq> 0 \<longrightarrow> data_start v \<le> ptr B A q \<and> ptr B A q < sb_size v \<and> marked v B (ptr B A q))
     \<and> (\<forall>q r. valid_pos q \<longrightarrow> valid_pos r \<longrightarrow> ptr B A q \<noteq> 0 \<longrightarrow> ptr B A q = ptr B A r \<longrightarrow> q = r)"

text \<open>Block \<open>c\<close> is an indirect block of the tree.\<close>

definition inner :: "(nat \<Rightarrow> uchar list) \<Rightarrow> nat list \<Rightarrow> nat \<Rightarrow> bool" where
  "inner B A c \<longleftrightarrow> (\<exists>q. valid_pos q \<and> \<not> data_pos q \<and> ptr B A q = c \<and> c \<noteq> 0)"

text \<open>The contents of block \<open>bn\<close> of the file; what is not allocated reads as zeros.\<close>

definition fblock :: "(nat \<Rightarrow> uchar list) \<Rightarrow> nat list \<Rightarrow> nat \<Rightarrow> uchar list" where
  "fblock B A bn = (let a = ptr B A (bpath bn) in if a = 0 then replicate BSIZE 0 else B a)"

text \<open>From \<open>(B, A)\<close> to \<open>(B', A')\<close> the file system may have grown: positions keep their blocks, new ones are fresh, and blocks in
  use other than indirect blocks of this tree keep their contents.\<close>

definition grows :: "superblock \<Rightarrow> (nat \<Rightarrow> uchar list) \<Rightarrow> nat list \<Rightarrow> (nat \<Rightarrow> uchar list) \<Rightarrow> nat list \<Rightarrow> bool" where
  "grows v B A B' A' \<longleftrightarrow>
     (\<forall>q. valid_pos q \<longrightarrow> ptr B A q \<noteq> 0 \<longrightarrow> ptr B' A' q = ptr B A q)
     \<and> (\<forall>q. valid_pos q \<longrightarrow> ptr B A q = 0 \<longrightarrow> ptr B' A' q \<noteq> 0 \<longrightarrow> \<not> marked v B (ptr B' A' q) \<and> (data_pos q \<longrightarrow> B' (ptr B' A' q) = replicate BSIZE 0))
     \<and> (\<forall>c < sb_size v. data_start v \<le> c \<longrightarrow> marked v B c \<longrightarrow> \<not> inner B A c \<longrightarrow> B' c = B c)
     \<and> (\<forall>c < data_start v. (\<forall>b < sb_size v. c \<noteq> BBLOCK b v) \<longrightarrow> B' c = B c)
     \<and> (\<forall>c < sb_size v. marked v B c \<longrightarrow> marked v B' c)"

definition faddrs :: "nat \<Rightarrow> 'a kstate_scheme \<Rightarrow> nat list" where
  "faddrs ip s = i_addrs (inodes (ic s) ! ip)"

text \<open>The process may work on the cached inode \<open>ip\<close>.\<close>

definition ready :: "nat \<Rightarrow> nat \<Rightarrow> 'a kstate_scheme \<Rightarrow> bool" where
  "ready p ip s \<longleftrightarrow> alone p {} s \<and> fs_ok (sb (ic s)) (blk s) (length (disk s)) \<and> 0 < data_start (sb (ic s))
     \<and> ip < length (inodes (ic s)) \<and> i_dev (inodes (ic s) ! ip) = ROOTDEV \<and> tree_ok (sb (ic s)) (blk s) (faddrs ip s)"

text \<open>Besides the block store, at most the addresses and the size of the cached inode have changed.\<close>

definition ino_frame :: "nat \<Rightarrow> nat \<Rightarrow> 'a kstate_scheme \<Rightarrow> 'a kstate_scheme \<Rightarrow> bool" where
  "ino_frame p ip s t \<longleftrightarrow> tx_frame p (upd_ic (\<lambda>_. ic t) s) t
     \<and> (\<exists>A z. ic t = (ic s)\<lparr>inodes := (inodes (ic s))[ip := (inodes (ic s) ! ip)\<lparr>i_addrs := A, i_size := z\<rparr>]\<rparr>)"

definition nfree :: "'a kstate_scheme \<Rightarrow> nat" where
  "nfree s = card {b. b < sb_size (sb (ic s)) \<and> \<not> marked (sb (ic s)) (blk s) b}"

definition grown :: "nat \<Rightarrow> nat \<Rightarrow> 'a kstate_scheme \<Rightarrow> 'a kstate_scheme \<Rightarrow> bool" where
  "grown p ip s t \<longleftrightarrow> ready p ip t \<and> ino_frame p ip s t \<and> i_size (inodes (ic t) ! ip) = i_size (inodes (ic s) ! ip)
     \<and> grows (sb (ic s)) (blk s) (faddrs ip s) (blk t) (faddrs ip t) \<and> logged (lg s) \<subseteq> logged (lg t)"

primrec kwalk :: "nat \<Rightarrow> nat \<Rightarrow> nat list \<Rightarrow> (nat, 'a kstate_scheme) code" where
  "kwalk dev a [] = kreturn a"
| "kwalk dev a (j # js) = kbind (ind_slot dev a j) (\<lambda>a. kwalk dev a js)"

text \<open>An empty file, cached in the first entry, on the small disk.\<close>

definition file_machine :: kstate where
  "file_machine = upd_ic (\<lambda>c. c\<lparr>inodes := (inodes c)[0 := (inodes c ! 0)\<lparr>i_dev := ROOTDEV, i_inum := 2, i_ref := 1, i_valid := True, i_type := T_FILE, i_nlink := 1\<rparr>]\<rparr>)
     (fs_machine small_disk)"

lemma bpath_data: "bn < MAXFILE \<Longrightarrow> data_pos (bpath bn)"
  by (auto simp: bpath_def data_pos_def valid_pos_def depth_def Let_def div_less_iff_less_mult)

lemma bpath_cases:
  "bn < 10 \<Longrightarrow> bpath bn = (bn, [])"
  "10 \<le> bn \<Longrightarrow> bn < 138 \<Longrightarrow> bpath bn = (10, [bn - 10])"
  "138 \<le> bn \<Longrightarrow> bn < 16522 \<Longrightarrow> bpath bn = (11, [(bn - 138) div NINDIRECT, (bn - 138) mod NINDIRECT])"
  "16522 \<le> bn \<Longrightarrow> bpath bn = (12, [(bn - 16522) div N2INDIRECT, (bn - 16522) mod N2INDIRECT div NINDIRECT, (bn - 16522) mod N2INDIRECT mod NINDIRECT])"
  by (auto simp: bpath_def Let_def)

lemma div_mod_inj: "x div n = y div n \<Longrightarrow> x mod n = y mod n \<Longrightarrow> x = (y :: nat)"
  by (metis div_mult_mod_eq)

lemma bpath_inj:
  assumes "bpath a = bpath b"
  shows "a = b"
proof -
  let ?c = "\<lambda>bn::nat. if bn < 10 then 0 else if bn < 138 then 1 else if bn < 16522 then 2 else (3::nat)"
  have f: "fst (bpath bn) = (case ?c bn of 0 \<Rightarrow> bn | Suc n \<Rightarrow> 10 + n)" for bn
    using bpath_cases [of bn] by auto
  consider "a < 10" "b < 10" | "10 \<le> a" "a < 138" "10 \<le> b" "b < 138" | "138 \<le> a" "a < 16522" "138 \<le> b" "b < 16522" | "16522 \<le> a" "16522 \<le> b"
    using assms f [of a] f [of b] by (fastforce split: if_splits)
  then show ?thesis
  proof cases
    case 3
    then have "(a - 138) div NINDIRECT = (b - 138) div NINDIRECT" "(a - 138) mod NINDIRECT = (b - 138) mod NINDIRECT"
      using assms by (simp_all add: bpath_cases)
    from div_mod_inj [OF this] show ?thesis using 3 by simp
  next
    case 4
    then have q: "(a - 16522) div N2INDIRECT = (b - 16522) div N2INDIRECT"
      "(a - 16522) mod N2INDIRECT div NINDIRECT = (b - 16522) mod N2INDIRECT div NINDIRECT"
      "(a - 16522) mod N2INDIRECT mod NINDIRECT = (b - 16522) mod N2INDIRECT mod NINDIRECT"
      using assms by (simp_all only: bpath_cases prod.inject list.inject)
    from div_mod_inj [OF q(1) div_mod_inj [OF q(2,3)]] show ?thesis using 4 by simp
  qed (use assms in \<open>simp_all add: bpath_cases\<close>)
qed

lemma walk_append: "walk B a (js @ [j]) = (if walk B a js = 0 then 0 else get32 (B (walk B a js)) (4 * j))"
  by (induction js arbitrary: a) auto

lemma ptr_snoc: "ptr B A (k, js @ [j]) = (if ptr B A (k, js) = 0 then 0 else get32 (B (ptr B A (k, js))) (4 * j))"
  by (simp add: ptr_def walk_append)

lemma ptr_Nil: "ptr B A (k, []) = A ! k"
  by (simp add: ptr_def)

lemma valid_pos_snoc: "valid_pos (k, js @ [j]) \<Longrightarrow> valid_pos (k, js) \<and> \<not> data_pos (k, js) \<and> j < NINDIRECT"
  by (auto simp: valid_pos_def data_pos_def)

lemma tree_okD:
  assumes "tree_ok v B A"
  shows "length A = NDIRECT + 3" "valid_pos q \<Longrightarrow> ptr B A q \<noteq> 0 \<Longrightarrow> data_start v \<le> ptr B A q \<and> ptr B A q < sb_size v \<and> marked v B (ptr B A q)"
    "valid_pos q \<Longrightarrow> valid_pos r \<Longrightarrow> ptr B A q \<noteq> 0 \<Longrightarrow> ptr B A q = ptr B A r \<Longrightarrow> q = r"
  using assms unfolding tree_ok_def by blast+

text \<open>The pointers depend on the slots and the indirect blocks only.\<close>

lemma ptr_cong:
  assumes "\<And>k js. valid_pos (k, js) \<Longrightarrow> \<not> data_pos (k, js) \<Longrightarrow> ptr B A (k, js) \<noteq> 0 \<Longrightarrow> B' (ptr B A (k, js)) = B (ptr B A (k, js))"
    and "valid_pos (k, js)"
  shows "ptr B' A (k, js) = ptr B A (k, js)"
  using assms(2)
proof (induction js rule: rev_induct)
  case (snoc j js)
  have v: "valid_pos (k, js)" "\<not> data_pos (k, js)" using valid_pos_snoc [OF snoc.prems] by auto
  show ?case using snoc.IH [OF v(1)] assms(1) [OF v] by (simp add: ptr_snoc)
qed (simp add: ptr_Nil)

section \<open>Growth\<close>

text \<open>How the pointers change when the block \<open>nb\<close> is hung into the empty position \<open>q0\<close>.\<close>

lemma ptr_grow:
  assumes slots: "\<And>k. k < NDIRECT + 3 \<Longrightarrow> A' ! k = (if (k, []) = q0 then nb else A ! k)"
    and entries: "\<And>k js j. valid_pos (k, js @ [j]) \<Longrightarrow> ptr B A (k, js) \<noteq> 0 \<Longrightarrow>
      get32 (B' (ptr B A (k, js))) (4 * j) = (if (k, js @ [j]) = q0 then nb else get32 (B (ptr B A (k, js))) (4 * j))"
    and new: "\<And>j. get32 (B' nb) (4 * j) = 0" "nb \<noteq> 0" and empty: "ptr B A q0 = 0"
    and parent: "\<And>k js j. q0 = (k, js @ [j]) \<Longrightarrow> ptr B A (k, js) \<noteq> 0" and v: "valid_pos (k, js)"
  shows "ptr B' A' (k, js) = (if (k, js) = q0 then nb else ptr B A (k, js))"
  using v
proof (induction js rule: rev_induct)
  case Nil
  then show ?case using slots [of k] by (simp add: ptr_Nil valid_pos_def)
next
  case (snoc j js)
  have vp: "valid_pos (k, js)" using valid_pos_snoc [OF snoc.prems] by simp
  note IH = snoc.IH [OF vp]
  show ?case
  proof (cases "(k, js) = q0")
    case True
    then have "(k, js @ [j]) \<noteq> q0" by auto
    moreover have "ptr B A (k, js @ [j]) = 0" using True empty by (simp add: ptr_snoc)
    ultimately show ?thesis using IH True new by (simp add: ptr_snoc)
  next
    case False
    then have p: "ptr B' A' (k, js) = ptr B A (k, js)" using IH by simp
    show ?thesis
    proof (cases "ptr B A (k, js) = 0")
      case True
      then have "(k, js @ [j]) \<noteq> q0" using parent by blast
      then show ?thesis using p True by (simp add: ptr_snoc)
    next
      case False
      then show ?thesis using p entries [OF snoc.prems False] by (simp add: ptr_snoc)
    qed
  qed
qed

lemma get32_put32_entry:
  assumes "length d = BSIZE" "j < NINDIRECT" "i < NINDIRECT" "nb < 2 ^ 32"
  shows "get32 (put32 (4 * j) nb d) (4 * i) = (if i = j then nb else get32 d (4 * i))"
proof (cases "i = j")
  case True
  then show ?thesis using assms by (simp add: get32_put32_same)
next
  case False
  then have "4 * i + 4 \<le> 4 * j \<or> 4 * j + 4 \<le> 4 * i" by linarith
  then show ?thesis using False assms by (simp add: get_put_other)
qed

text \<open>Hanging a fresh block into a sound tree gives a sound tree.\<close>

lemma tree_grow:
  assumes ok: "tree_ok v B A" and fs: "fs_ok v B n" and ff: "first_free v B nb" and q0: "valid_pos q0" "ptr B A q0 = 0" "0 < data_start v"
    and len: "length A' = NDIRECT + 3"
    and p: "\<And>q. valid_pos q \<Longrightarrow> ptr B' A' q = (if q = q0 then nb else ptr B A q)"
    and m: "\<And>c. c < sb_size v \<Longrightarrow> marked v B' c \<longleftrightarrow> c = nb \<or> marked v B c"
  shows "tree_ok v B' A'"
  unfolding tree_ok_def
proof (intro conjI allI impI)
  have nb: "nb < sb_size v" "\<not> marked v B nb" "data_start v \<le> nb" "nb \<noteq> 0"
    using ff first_free_data [OF fs ff] q0(3) by (auto simp: first_free_def)
  show "length A' = NDIRECT + 3" by (rule len)
  fix q assume q: "valid_pos q" "ptr B' A' q \<noteq> 0"
  show "data_start v \<le> ptr B' A' q" "ptr B' A' q < sb_size v" "marked v B' (ptr B' A' q)"
    using tree_okD(2) [OF ok q(1)] q(2) p [OF q(1)] nb m by (auto split: if_splits)
next
  have nb: "\<not> marked v B nb" using ff by (simp add: first_free_def)
  fix q r assume q: "valid_pos q" "valid_pos r" "ptr B' A' q \<noteq> 0" "ptr B' A' q = ptr B' A' r"
  have fresh: "ptr B A x \<noteq> nb" if "valid_pos x" "ptr B A x \<noteq> 0" for x using tree_okD(2) [OF ok that] nb by auto
  show "q = r"
  proof (cases "q = q0 \<or> r = q0")
    case True
    then show ?thesis using q p [OF q(1)] p [OF q(2)] fresh [OF q(1)] fresh [OF q(2)] by (metis (full_types))
  next
    case False
    then show ?thesis using q p [OF q(1)] p [OF q(2)] tree_okD(3) [OF ok q(1,2)] by simp
  qed
qed

lemma data_pos_valid: "data_pos q \<Longrightarrow> valid_pos q"
  by (cases q) (simp add: data_pos_def)

lemma growsD:
  assumes "grows v B A B' A'"
  shows "valid_pos q \<Longrightarrow> ptr B A q \<noteq> 0 \<Longrightarrow> ptr B' A' q = ptr B A q"
    "valid_pos q \<Longrightarrow> ptr B A q = 0 \<Longrightarrow> ptr B' A' q \<noteq> 0 \<Longrightarrow> \<not> marked v B (ptr B' A' q)"
    "data_pos q \<Longrightarrow> ptr B A q = 0 \<Longrightarrow> ptr B' A' q \<noteq> 0 \<Longrightarrow> B' (ptr B' A' q) = replicate BSIZE 0"
    "c < sb_size v \<Longrightarrow> data_start v \<le> c \<Longrightarrow> marked v B c \<Longrightarrow> \<not> inner B A c \<Longrightarrow> B' c = B c"
    "c < data_start v \<Longrightarrow> (\<And>b. b < sb_size v \<Longrightarrow> c \<noteq> BBLOCK b v) \<Longrightarrow> B' c = B c"
    "c < sb_size v \<Longrightarrow> marked v B c \<Longrightarrow> marked v B' c"
  using assms data_pos_valid [of q] unfolding grows_def by blast+

lemma grows_refl: "grows v B A B A"
  by (simp add: grows_def)

lemma inner_marked: "tree_ok v B A \<Longrightarrow> inner B A c \<Longrightarrow> marked v B c \<and> c < sb_size v \<and> data_start v \<le> c"
  using tree_okD(2) by (auto simp: inner_def)

lemma data_not_inner: "tree_ok v B A \<Longrightarrow> data_pos q \<Longrightarrow> ptr B A q \<noteq> 0 \<Longrightarrow> \<not> inner B A (ptr B A q)"
  unfolding inner_def using tree_okD(3) by (metis (no_types, lifting) data_pos_def case_prod_conv old.prod.exhaust)

lemma grows_inner:
  assumes "tree_ok v B A" "grows v B A B' A'" "marked v B c" "\<not> inner B A c"
  shows "\<not> inner B' A' c"
proof
  assume "inner B' A' c"
  then obtain q where q: "valid_pos q" "\<not> data_pos q" "ptr B' A' q = c" "c \<noteq> 0" by (auto simp: inner_def)
  show False
  proof (cases "ptr B A q = 0")
    case True
    then show False using growsD(2) [OF assms(2) q(1) True] q(3,4) assms(3) by simp
  next
    case False
    then have "ptr B A q = c" using growsD(1) [OF assms(2) q(1) False] q(3) by simp
    then show False using q assms(4) unfolding inner_def by blast
  qed
qed

lemma grows_trans:
  assumes ok: "tree_ok v B A" "tree_ok v B' A'" "tree_ok v B'' A''" and g: "grows v B A B' A'" "grows v B' A' B'' A''"
  shows "grows v B A B'' A''"
  unfolding grows_def
proof (intro conjI allI impI)
  fix q assume q: "valid_pos q" "ptr B A q \<noteq> 0"
  then show "ptr B'' A'' q = ptr B A q" using growsD(1) [OF g(1)] growsD(1) [OF g(2)] by metis
next
  fix q assume q: "valid_pos q" "ptr B A q = 0" "ptr B'' A'' q \<noteq> 0"
  show "\<not> marked v B (ptr B'' A'' q)"
  proof (cases "ptr B' A' q = 0")
    case True
    then have "\<not> marked v B' (ptr B'' A'' q)" using growsD(2) [OF g(2) q(1)] q(3) by blast
    then show ?thesis using growsD(6) [OF g(1)] tree_okD(2) [OF ok(3) q(1,3)] by blast
  next
    case False
    then show ?thesis using growsD(1) [OF g(2) q(1)] growsD(2) [OF g(1) q(1,2)] by simp
  qed
  assume d: "data_pos q"
  show "B'' (ptr B'' A'' q) = replicate BSIZE 0"
  proof (cases "ptr B' A' q = 0")
    case True
    then show ?thesis using growsD(3) [OF g(2) d] q(3) by blast
  next
    case False
    then have "ptr B'' A'' q = ptr B' A' q" by (rule growsD(1) [OF g(2) q(1)])
    moreover have "B' (ptr B' A' q) = replicate BSIZE 0" by (rule growsD(3) [OF g(1) d q(2) False])
    ultimately show ?thesis
      using growsD(4) [OF g(2)] tree_okD(2) [OF ok(2) q(1) False] data_not_inner [OF ok(2) d False] by simp
  qed
next
  fix c assume c: "c < sb_size v" "data_start v \<le> c" "marked v B c" "\<not> inner B A c"
  then show "B'' c = B c"
    using growsD(4) [OF g(1) c] growsD(4) [OF g(2) c(1,2)] growsD(6) [OF g(1) c(1,3)] grows_inner [OF ok(1) g(1) c(3,4)] by simp
next
  fix c assume "c < data_start v" "\<forall>b < sb_size v. c \<noteq> BBLOCK b v"
  then show "B'' c = B c" using growsD(5) [OF g(1)] growsD(5) [OF g(2)] by metis
next
  fix c assume "c < sb_size v" "marked v B c"
  then show "marked v B'' c" using growsD(6) [OF g(1)] growsD(6) [OF g(2)] by blast
qed

lemma grows_fblock:
  assumes ok: "tree_ok v B A" "tree_ok v B' A'" and g: "grows v B A B' A'" and bn: "bn < MAXFILE"
  shows "fblock B' A' bn = fblock B A bn"
proof -
  have d: "data_pos (bpath bn)" "valid_pos (bpath bn)" using bpath_data [OF bn] data_pos_valid by auto
  show ?thesis
  proof (cases "ptr B A (bpath bn) = 0")
    case True
    then show ?thesis using growsD(3) [OF g d(1)] by (auto simp: fblock_def Let_def)
  next
    case False
    have "B' (ptr B A (bpath bn)) = B (ptr B A (bpath bn))"
      using growsD(4) [OF g] tree_okD(2) [OF ok(1) d(2) False] data_not_inner [OF ok(1) d(1) False] by simp
    then show ?thesis using growsD(1) [OF g d(2) False] False by (simp add: fblock_def Let_def)
  qed
qed

lemma fresh_block:
  assumes "tree_ok v B A" "fs_ok v B n" "first_free v B nb"
  shows "valid_pos q \<Longrightarrow> ptr B A q \<noteq> 0 \<Longrightarrow> ptr B A q \<noteq> nb" "valid_pos q \<Longrightarrow> ptr B A q \<noteq> 0 \<Longrightarrow> alloc_block v nb B (ptr B A q) = B (ptr B A q)"
    "\<not> marked v B nb" "nb < sb_size v" "data_start v \<le> nb" "marked v B c \<Longrightarrow> data_start v \<le> c \<Longrightarrow> alloc_block v nb B c = B c"
proof -
  show nb: "\<not> marked v B nb" "nb < sb_size v" "data_start v \<le> nb"
    using assms(3) first_free_data [OF assms(2,3)] by (auto simp: first_free_def)
  show 1: "valid_pos q \<Longrightarrow> ptr B A q \<noteq> 0 \<Longrightarrow> ptr B A q \<noteq> nb" using tree_okD(2) [OF assms(1)] nb by metis
  show "valid_pos q \<Longrightarrow> ptr B A q \<noteq> 0 \<Longrightarrow> alloc_block v nb B (ptr B A q) = B (ptr B A q)"
    using alloc_block_ok(3) [OF assms(2,3)] 1 tree_okD(2) [OF assms(1)] by blast
  show "marked v B c \<Longrightarrow> data_start v \<le> c \<Longrightarrow> alloc_block v nb B c = B c"
    using alloc_block_ok(3) [OF assms(2,3), of c] nb(1) by auto
qed

lemma alloc_low: "fs_ok v B n \<Longrightarrow> first_free v B nb \<Longrightarrow> c < data_start v \<Longrightarrow> \<forall>b < sb_size v. c \<noteq> BBLOCK b v \<Longrightarrow> alloc_block v nb B c = B c"
  using first_free_data [of v B n nb] by (auto simp: alloc_block_def mark_block_def first_free_def)

lemma slot_grows:
  assumes ok: "tree_ok v B A" and fs: "fs_ok v B n" and ff: "first_free v B nb" and k: "k < NDIRECT + 3" "A ! k = 0" "0 < data_start v"
  defines "B' \<equiv> alloc_block v nb B" and "A' \<equiv> A[k := nb]"
  shows "tree_ok v B' A'" "grows v B A B' A'" "\<And>q. valid_pos q \<Longrightarrow> ptr B' A' q = (if q = (k, []) then nb else ptr B A q)"
proof -
  note f = fresh_block [OF ok fs ff]
  have len: "length A = NDIRECT + 3" using ok by (simp add: tree_ok_def)
  have q0: "valid_pos (k, [])" "ptr B A (k, []) = 0" using k by (simp_all add: valid_pos_def ptr_Nil)
  have zero: "B' nb = replicate BSIZE 0" by (simp add: B'_def alloc_block_def)
  have p': "ptr B' A' (i, js) = (if (i, js) = (k, []) then nb else ptr B A (i, js))" if "valid_pos (i, js)" for i js
  proof (rule ptr_grow [where B = B])
    show "A' ! x = (if (x, []) = (k, [] :: nat list) then nb else A ! x)" if "x < NDIRECT + 3" for x using that len by (simp add: A'_def nth_list_update)
    show "get32 (B' (ptr B A (x, ys))) (4 * j) = (if (x, ys @ [j]) = (k, []) then nb else get32 (B (ptr B A (x, ys))) (4 * j))"
      if "valid_pos (x, ys @ [j])" "ptr B A (x, ys) \<noteq> 0" for x ys j
      using f(2) valid_pos_snoc [OF that(1)] that(2) by (simp add: B'_def)
    show "get32 (B' nb) (4 * j) = 0" for j by (simp add: zero)
    show "nb \<noteq> 0" using f(5) k(3) by simp
  qed (use q0 that in auto)
  then show p: "valid_pos q \<Longrightarrow> ptr B' A' q = (if q = (k, []) then nb else ptr B A q)" for q by (cases q) simp
  show t: "tree_ok v B' A'"
    by (rule tree_grow [OF ok fs ff q0(1,2) k(3) _ p]) (use alloc_block_ok(1) [OF fs ff] len in \<open>auto simp: A'_def B'_def\<close>)
  show "grows v B A B' A'"
    unfolding grows_def
    using p q0 f zero alloc_block_ok(1) [OF fs ff] alloc_low [OF fs ff] by (auto simp: B'_def)
qed

lemma entry_grows:
  assumes ok: "tree_ok v B A" and fs: "fs_ok v B n" "n \<le> 2 ^ 31" and ff: "first_free v B nb" and pos: "valid_pos (k, js @ [j])" "0 < data_start v"
    and a: "ptr B A (k, js) = a" "a \<noteq> 0" "get32 (B a) (4 * j) = 0"
  defines "B' \<equiv> (alloc_block v nb B)(a := put32 (4 * j) nb (alloc_block v nb B a))"
  shows "tree_ok v B' A" "grows v B A B' A" "\<And>q. valid_pos q \<Longrightarrow> ptr B' A q = (if q = (k, js @ [j]) then nb else ptr B A q)" "fs_ok v B' n"
proof -
  note f = fresh_block [OF ok fs(1) ff] and vp = valid_pos_snoc [OF pos(1)]
  have va: "valid_pos (k, js)" "\<not> data_pos (k, js)" "j < NINDIRECT" using vp by auto
  have aa: "data_start v \<le> a" "a < sb_size v" "marked v B a" "a \<noteq> nb" "alloc_block v nb B a = B a"
    using tree_okD(2) [OF ok va(1)] f(1,2) [OF va(1)] a by auto
  have n: "sb_size v \<le> n" "length (B a) = BSIZE" using fs(1) aa(2) by (auto simp: fs_ok_def)
  have nbn: "nb < 2 ^ 32" using f(4) n(1) fs(2) by simp
  have q0: "ptr B A (k, js @ [j]) = 0" using a by (simp add: ptr_snoc)
  have zero: "B' nb = replicate BSIZE 0" using aa(4) by (simp add: B'_def alloc_block_def)
  have p': "ptr B' A (i, xs) = (if (i, xs) = (k, js @ [j]) then nb else ptr B A (i, xs))" if "valid_pos (i, xs)" for i xs
  proof (rule ptr_grow [where B = B])
    show "A ! x = (if (x, []) = (k, js @ [j]) then nb else A ! x)" for x by simp
    show "get32 (B' (ptr B A (x, ys))) (4 * l) = (if (x, ys @ [l]) = (k, js @ [j]) then nb else get32 (B (ptr B A (x, ys))) (4 * l))"
      if xy: "valid_pos (x, ys @ [l])" "ptr B A (x, ys) \<noteq> 0" for x ys l
    proof (cases "(x, ys) = (k, js)")
      case True
      then show ?thesis
        using valid_pos_snoc [OF xy(1)] va(3) n(2) nbn a(1) aa(5) by (simp add: B'_def get32_put32_entry)
    next
      case False
      have vx: "valid_pos (x, ys)" using valid_pos_snoc [OF xy(1)] by simp
      have "ptr B A (x, ys) \<noteq> a" using tree_okD(3) [OF ok vx va(1) xy(2)] False a(1) by auto
      then show ?thesis using False f(2) [OF vx xy(2)] by (auto simp: B'_def)
    qed
    show "get32 (B' nb) (4 * i) = 0" for i by (simp add: zero)
    show "nb \<noteq> 0" using f(5) pos(2) by simp
    show "ptr B A (x, ys) \<noteq> 0" if "(k, js @ [j]) = (x, ys @ [l])" for x ys l using that a by simp
  qed (use q0 that in auto)
  then show p: "valid_pos q \<Longrightarrow> ptr B' A q = (if q = (k, js @ [j]) then nb else ptr B A q)" for q by (cases q) simp
  have mk: "marked v B' c \<longleftrightarrow> c = nb \<or> marked v B c" if "c < sb_size v" for c
  proof -
    have "BBLOCK c v \<noteq> a" using BBLOCK_bound(1) [OF fs(1) that] aa(1) by simp
    then have "marked v B' c = marked v (alloc_block v nb B) c" by (simp add: B'_def marked_def)
    then show ?thesis using alloc_block_ok(1) [OF fs(1) ff that] by simp
  qed
  have len: "length A = NDIRECT + 3" using ok by (simp add: tree_ok_def)
  show t: "tree_ok v B' A"
    by (rule tree_grow [OF ok fs(1) ff pos(1) q0 pos(2) len p mk])
  have ina: "inner B A a" using va a unfolding inner_def by blast
  show "grows v B A B' A"
    unfolding grows_def
    using p q0 f zero mk alloc_low [OF fs(1) ff] ina aa(1,4) by (auto simp: B'_def)
  show "fs_ok v B' n"
  proof -
    have "length (put32 (4 * j) nb (B a)) = BSIZE" using n(2) va(3) by simp
    moreover have "\<forall>b < n. length (alloc_block v nb B b) = BSIZE" using alloc_block_ok(2) [OF fs(1) ff] by (simp add: fs_ok_def)
    ultimately have "\<forall>b < n. length (B' b) = BSIZE" by (simp add: B'_def aa(5))
    moreover have "\<forall>b < data_start v. marked v B' b" using mk fs(1) by (simp add: fs_ok_def)
    ultimately show ?thesis using fs(1) by (simp add: fs_ok_def)
  qed
qed

lemma tree_write:
  assumes ok: "tree_ok v B A" and fs: "fs_ok v B n" and q: "data_pos q" "ptr B A q = r" "r \<noteq> 0" and d: "length d = BSIZE"
  shows "tree_ok v (B(r := d)) A" "fs_ok v (B(r := d)) n" "valid_pos x \<Longrightarrow> ptr (B(r := d)) A x = ptr B A x"
    "bn < MAXFILE \<Longrightarrow> fblock (B(r := d)) A bn = (if bpath bn = q then d else fblock B A bn)" "c < sb_size v \<Longrightarrow> marked v (B(r := d)) c = marked v B c"
proof -
  have vq: "valid_pos q" by (rule data_pos_valid [OF q(1)])
  have r: "data_start v \<le> r" "r < sb_size v" "\<not> inner B A r" using tree_okD(2) [OF ok vq] data_not_inner [OF ok q(1)] q by auto
  have p: "ptr (B(r := d)) A (k, js) = ptr B A (k, js)" if "valid_pos (k, js)" for k js
    by (rule ptr_cong [OF _ that]) (use r(3) in \<open>auto simp: inner_def\<close>)
  then show p': "valid_pos x \<Longrightarrow> ptr (B(r := d)) A x = ptr B A x" for x by (cases x) simp
  show m: "c < sb_size v \<Longrightarrow> marked v (B(r := d)) c = marked v B c" for c
    using BBLOCK_bound(1) [OF fs, of c] r(1) by (auto simp: marked_def)
  show "tree_ok v (B(r := d)) A" using ok p' m unfolding tree_ok_def by simp
  show "fs_ok v (B(r := d)) n" using fs d m unfolding fs_ok_def by auto
  assume bn: "bn < MAXFILE"
  have v: "valid_pos (bpath bn)" using bpath_data [OF bn] data_pos_valid by blast
  show "fblock (B(r := d)) A bn = (if bpath bn = q then d else fblock B A bn)"
  proof (cases "bpath bn = q")
    case True
    then show ?thesis using p' [OF v] q by (simp add: fblock_def Let_def)
  next
    case False
    then have "ptr B A (bpath bn) = 0 \<or> ptr B A (bpath bn) \<noteq> r" using tree_okD(3) [OF ok v vq] q(2) by auto
    then show ?thesis using p' [OF v] False by (auto simp: fblock_def Let_def)
  qed
qed

section \<open>The slots of the code\<close>

lemma ind_slot_old:
  assumes "alone p {} s" "a < length (disk s)" "card (logged (lg s)) < NBUF" "get32 (blk s a) (4 * j) \<noteq> 0"
  shows "wp (ind_slot ROOTDEV a j) (\<lambda>r t. r = get32 (blk s a) (4 * j) \<and> tx_step p {} s (blk s) (logged (lg s)) t) s"
  unfolding ind_slot_def wp_kbind
proof (rule wp_mono [OF tx_bread [OF assms(1,2)]])
  show "not_held {} s a" "card ({} :: nat set) + card (logged (lg s)) < NBUF" using assms(3) by (simp_all add: not_held_def)
  fix i t assume h: "tx_held p {} s i a (blk s) (logged (lg s)) t"
  then show "wp (get_bdata i) (\<lambda>d. wp (if get32 d (4 * j) \<noteq> 0 then kreturn (get32 d (4 * j))
            else kbind (balloc ROOTDEV) (\<lambda>addr. kthen (set_bdata i (put32 (4 * j) addr)) (kthen (log_write i) (kreturn addr))))
       (\<lambda>addr. wp (kthen (brelse i) (kreturn addr)) (\<lambda>r t. r = get32 (blk s a) (4 * j) \<and> tx_step p {} s (blk s) (logged (lg s)) t))) t"
    using tx_held_data(1) [OF h] assms(4) by (simp add: wps) (rule wp_mono [OF tx_brelse [OF h]], simp add: wps)
qed

lemma ind_slot_new:
  assumes al: "alone p {} s" and fs: "fs_ok (sb (ic s)) (blk s) (length (disk s))" and op: "1 \<le> lg_outstanding (lg s)"
    and a: "data_start (sb (ic s)) \<le> a" "a < sb_size (sb (ic s))" "marked (sb (ic s)) (blk s) a"
    and ff: "first_free (sb (ic s)) (blk s) b" and room: "card (logged (lg s)) < LOGSIZE - 3" and j: "get32 (blk s a) (4 * j) = 0" "j < NINDIRECT"
  defines "B \<equiv> alloc_block (sb (ic s)) b (blk s)"
  shows "wp (ind_slot ROOTDEV a j) (\<lambda>r t. r = b \<and> tx_step p {} s (B(a := put32 (4 * j) b (B a))) ({a, b, BBLOCK b (sb (ic s))} \<union> logged (lg s)) t) s"
proof -
  let ?v = "sb (ic s)" and ?X = "logged (lg s)"
  let ?X1 = "{b, BBLOCK b ?v} \<union> ?X"
  have an: "a < length (disk s)" "a \<noteq> b" using a fs ff by (auto simp: fs_ok_def first_free_def)
  have Ba: "B a = blk s a" unfolding B_def using alloc_block_ok(3) [OF fs ff an(2) a(1)] .
  have len: "length (put32 (4 * j) b (B a)) = BSIZE" unfolding Ba using fs an(1) j(2) by (simp add: fs_ok_def)
  have X1: "card ?X1 < LOGSIZE - 1"
  proof -
    have "card ?X1 \<le> card {b, BBLOCK b ?v} + card ?X" by (rule card_Un_le)
    also have "card {b, BBLOCK b ?v} \<le> 2" by (simp add: card_insert_if)
    finally show ?thesis using room by simp
  qed
  show ?thesis
    unfolding ind_slot_def wp_kbind
  proof (rule wp_mono [OF tx_bread [OF al an(1)]])
    show "not_held {} s a" "card ({} :: nat set) + card ?X < NBUF" using room by (simp_all add: not_held_def)
    fix i t assume h: "tx_held p {} s i a (blk s) ?X t"
    have t: "alone p {i} t" "blk t = blk s" "logged (lg t) = ?X" "lg_outstanding (lg t) = lg_outstanding (lg s)" "caches t i a"
      using tx_held_in [OF h] tx_frame_outstanding [of p s t] h by (auto simp: tx_held_def)
    note k = tx_held_kernel [OF h]
    have hd: "holds_data (sb (ic t)) {i} t" using a t k(3) by (auto simp: holds_data_def caches_def)
    have bal: "wp (balloc ROOTDEV) (\<lambda>r u. r = b \<and> tx_held p {} s i a B ?X1 u) t"
    proof (rule wp_mono [OF balloc_ok [OF t(1) _ hd]])
      fix r u assume r: "r = b \<and> tx_step p {i} t (alloc_block (sb (ic t)) b (blk t)) ({b, BBLOCK b (sb (ic t))} \<union> logged (lg t)) u"
      then have "tx_step p {i} t B ?X1 u" by (simp add: k t B_def)
      then show "r = b \<and> tx_held p {} s i a B ?X1 u" using r tx_held_step [OF h, of B ?X1 u] by auto
    qed (use fs op room ff in \<open>simp_all add: k t\<close>)
    have upd: "wp (log_write i) (\<lambda>_. tx_held p {} s i a (B(a := put32 (4 * j) b (B a))) (insert a ?X1))
        (upd_buf i (\<lambda>c. c\<lparr>b_data := put32 (4 * j) b (b_data c)\<rparr>) u)" if "tx_held p {} s i a B ?X1 u" for u
      by (rule tx_update [OF that _ X1 op, where f = "put32 (4 * j) b"]) (rule len)
    show "wp (get_bdata i) (\<lambda>d. wp (if get32 d (4 * j) \<noteq> 0 then kreturn (get32 d (4 * j))
            else kbind (balloc ROOTDEV) (\<lambda>addr. kthen (set_bdata i (put32 (4 * j) addr)) (kthen (log_write i) (kreturn addr))))
       (\<lambda>addr. wp (kthen (brelse i) (kreturn addr)) (\<lambda>r t. r = b \<and> tx_step p {} s (B(a := put32 (4 * j) b (B a))) ({a, b, BBLOCK b ?v} \<union> ?X) t))) t"
      unfolding wp_get_bdata tx_held_data(1) [OF h] using j(1)
      apply (simp add: wps del: fun_upd_apply One_nat_def)
      apply (rule wp_mono [OF bal], elim conjE)
      apply (simp add: wps wp_kreturn_fun del: One_nat_def)
      apply (rule wp_mono [OF upd], simp)
      by (drule tx_brelse) simp
  qed
qed

section \<open>The block map of an inode\<close>

lemma bmap_walk:
  assumes "bn < MAXFILE"
  shows "wp (bmap ip bn) P s \<longleftrightarrow>
    (case bpath bn of (k, js) \<Rightarrow> wp (addr_slot ip k) (\<lambda>a. wp (kwalk (i_dev (inodes (ic s) ! ip)) a js) P) s)"
proof -
  have b: "bn - 16522 < N3INDIRECT" using assms by simp
  consider "bn < 10" | "10 \<le> bn" "bn < 138" | "138 \<le> bn" "bn < 16522" | "16522 \<le> bn" by linarith
  then show ?thesis
    using b by cases (auto simp: bpath_cases bmap_def get_ip_def wps wp_kreturn_fun Let_def)
qed

lemma readyD:
  assumes "ready p ip s"
  shows "alone p {} s" "fs_ok (sb (ic s)) (blk s) (length (disk s))" "0 < data_start (sb (ic s))" "ip < length (inodes (ic s))"
    "i_dev (inodes (ic s) ! ip) = ROOTDEV" "tree_ok (sb (ic s)) (blk s) (faddrs ip s)" "length (disk s) \<le> 2 ^ 31"
  using assms aloneD(7) [of p "{}" s] by (auto simp: ready_def)

lemma ino_frame_refl: "ctx p {} s \<Longrightarrow> ip < length (inodes (ic s)) \<Longrightarrow> ino_frame p ip s s"
proof -
  assume c: "ctx p {} s" "ip < length (inodes (ic s))"
  have e: "upd_ic (\<lambda>_. ic s) s = s" by (cases s) (simp add: upd_ic_def)
  have "ic s = (ic s)\<lparr>inodes := (inodes (ic s))[ip := (inodes (ic s) ! ip)\<lparr>i_addrs := i_addrs (inodes (ic s) ! ip), i_size := i_size (inodes (ic s) ! ip)\<rparr>]\<rparr>"
    using c(2) by simp
  then show "ino_frame p ip s s" unfolding ino_frame_def e using tx_frame_refl [OF c(1)] by blast
qed

lemma tx_frame_ic: "tx_frame p s t \<Longrightarrow> tx_frame p (upd_ic (\<lambda>_. c) s) (upd_ic (\<lambda>_. c) t)" for s t :: "'a kstate_scheme"
  by (simp add: tx_frame_def lmore_eq keeps_def)

lemma upd_ic_const: "upd_ic (\<lambda>_. c) (upd_ic (\<lambda>_. d) s) = upd_ic (\<lambda>_. c) s"
  by (simp add: upd_ic_def)

lemma upd_ic_same: "upd_ic (\<lambda>_. ic s) s = s"
  by (cases s) (simp add: upd_ic_def)

lemma ino_frame_trans:
  assumes "ino_frame p ip s t" "ino_frame p ip t u" "ip < length (inodes (ic s))"
  shows "ino_frame p ip s u"
proof -
  obtain A z where t: "ic t = (ic s)\<lparr>inodes := (inodes (ic s))[ip := (inodes (ic s) ! ip)\<lparr>i_addrs := A, i_size := z\<rparr>]\<rparr>"
    using assms(1) by (auto simp: ino_frame_def)
  obtain A' z' where u: "ic u = (ic t)\<lparr>inodes := (inodes (ic t))[ip := (inodes (ic t) ! ip)\<lparr>i_addrs := A', i_size := z'\<rparr>]\<rparr>"
    using assms(2) by (auto simp: ino_frame_def)
  have "ic u = (ic s)\<lparr>inodes := (inodes (ic s))[ip := (inodes (ic s) ! ip)\<lparr>i_addrs := A', i_size := z'\<rparr>]\<rparr>"
    using assms(3) by (simp add: u t)
  moreover have "tx_frame p (upd_ic (\<lambda>_. ic u) s) (upd_ic (\<lambda>_. ic u) t)"
    using tx_frame_ic [of p "upd_ic (\<lambda>_. ic t) s" t "ic u"] assms(1) by (simp add: ino_frame_def upd_ic_const)
  moreover have "tx_frame p (upd_ic (\<lambda>_. ic u) t) u" using assms(2) by (simp add: ino_frame_def)
  ultimately show ?thesis unfolding ino_frame_def using tx_frame_trans by blast
qed

lemma ino_frame_props:
  assumes "ino_frame p ip s t" "ip < length (inodes (ic s))"
  shows "sb (ic t) = sb (ic s)" "disk t = disk s" "length (inodes (ic t)) = length (inodes (ic s))" "lg_outstanding (lg t) = lg_outstanding (lg s)"
    "i_dev (inodes (ic t) ! ip) = i_dev (inodes (ic s) ! ip)" "i_inum (inodes (ic t) ! ip) = i_inum (inodes (ic s) ! ip)" "mm t = mm s" "con t = con s" "fl t = fl s"
    "\<And>j. j \<noteq> ip \<Longrightarrow> inodes (ic t) ! j = inodes (ic s) ! j" "i_type (inodes (ic t) ! ip) = i_type (inodes (ic s) ! ip)"
proof -
  have f: "tx_frame p (upd_ic (\<lambda>_. ic t) s) t" using assms(1) by (simp add: ino_frame_def)
  obtain A z where t: "ic t = (ic s)\<lparr>inodes := (inodes (ic s))[ip := (inodes (ic s) ! ip)\<lparr>i_addrs := A, i_size := z\<rparr>]\<rparr>"
    using assms(1) by (auto simp: ino_frame_def)
  show "sb (ic t) = sb (ic s)" "length (inodes (ic t)) = length (inodes (ic s))"
    "i_dev (inodes (ic t) ! ip) = i_dev (inodes (ic s) ! ip)" "i_inum (inodes (ic t) ! ip) = i_inum (inodes (ic s) ! ip)"
    "\<And>j. j \<noteq> ip \<Longrightarrow> inodes (ic t) ! j = inodes (ic s) ! j" "i_type (inodes (ic t) ! ip) = i_type (inodes (ic s) ! ip)"
    using assms(2) by (simp_all add: t)
  show "disk t = disk s" "mm t = mm s" "con t = con s" "fl t = fl s" using f by (simp_all add: tx_frame_def lmore_eq)
  show "lg_outstanding (lg t) = lg_outstanding (lg s)" using tx_frame_outstanding [OF f] by simp
qed

lemma alone_upd [simp]: "alone p H (upd_ic f s) = alone p H s" "alone p H (upd_mm g s) = alone p H s"
  by (simp_all add: alone_def)

lemma step_frame:
  assumes "tx_step p {} s B X t" "ip < length (inodes (ic s))"
  shows "ino_frame p ip s (t :: 'a kstate_scheme)" "ic t = ic s" "blk t = B" "logged (lg t) = X" "alone p {} t" "disk t = disk s"
proof -
  show i: "ic t = ic s" "blk t = B" "logged (lg t) = X" "alone p {} t" "disk t = disk s"
    using tx_step_kernel(3) [OF assms(1)] assms(1) by (auto simp: tx_step_def tx_frame_def)
  have f: "tx_frame p s t" using assms(1) by (simp add: tx_step_def)
  have "tx_frame p (upd_ic (\<lambda>_. ic t) s) t" using f unfolding i(1) upd_ic_same .
  moreover have "ctx p {} t" using i(4) by (simp add: alone_def)
  moreover have "ic t = (ic s)\<lparr>inodes := (inodes (ic s))[ip := (inodes (ic s) ! ip)\<lparr>i_addrs := i_addrs (inodes (ic s) ! ip), i_size := i_size (inodes (ic s) ! ip)\<rparr>]\<rparr>"
    using i(1) assms(2) by simp
  ultimately show "ino_frame p ip s t" unfolding ino_frame_def by blast
qed

lemma grown_refl: "ready p ip s \<Longrightarrow> grown p ip s s"
  using readyD [of p ip s] by (simp add: grown_def grows_refl ino_frame_refl aloneD)

lemma grown_trans:
  assumes "ready p ip s" "grown p ip s t" "grown p ip t u"
  shows "grown p ip s u"
proof -
  note s = readyD [OF assms(1)]
  have t: "ready p ip t" "ino_frame p ip s t" "grows (sb (ic s)) (blk s) (faddrs ip s) (blk t) (faddrs ip t)" using assms(2) by (auto simp: grown_def)
  have u: "ready p ip u" "ino_frame p ip t u" "grows (sb (ic t)) (blk t) (faddrs ip t) (blk u) (faddrs ip u)" using assms(3) by (auto simp: grown_def)
  note tp = ino_frame_props [OF t(2) s(4)] and fu = ino_frame_trans [OF t(2) u(2) s(4)]
  note up = ino_frame_props [OF fu s(4)]
  have "grows (sb (ic s)) (blk s) (faddrs ip s) (blk u) (faddrs ip u)"
    using grows_trans [OF s(6) _ _ t(3)] readyD(6) [OF t(1)] readyD(6) [OF u(1)] u(3) tp(1) up(1) by simp
  then show ?thesis using assms(2,3) fu u(1) by (auto simp: grown_def)
qed

lemma nfree_pos: "0 < nfree s \<Longrightarrow> \<exists>b. first_free (sb (ic s)) (blk s) b"
proof -
  assume "0 < nfree s"
  then obtain b where b: "b < sb_size (sb (ic s)) \<and> \<not> marked (sb (ic s)) (blk s) b" unfolding nfree_def by (metis (mono_tags, lifting) card.empty empty_Collect_eq less_irrefl)
  let ?P = "\<lambda>b. b < sb_size (sb (ic s)) \<and> \<not> marked (sb (ic s)) (blk s) b"
  have "?P (LEAST b. ?P b)" by (rule LeastI [of ?P, OF b])
  moreover have "\<forall>c < (LEAST b. ?P b). \<not> ?P c" using not_less_Least by blast
  ultimately have "first_free (sb (ic s)) (blk s) (LEAST b. ?P b)" unfolding first_free_def by (meson less_trans)
  then show ?thesis by blast
qed

lemma nfree_alloc:
  assumes "sb (ic t) = sb (ic s)" "b < sb_size (sb (ic s))" "\<And>c. c < sb_size (sb (ic s)) \<Longrightarrow> marked (sb (ic s)) (blk t) c \<longleftrightarrow> c = b \<or> marked (sb (ic s)) (blk s) c"
  shows "nfree s \<le> nfree t + 1"
proof -
  let ?F = "\<lambda>s. {b. b < sb_size (sb (ic s)) \<and> \<not> marked (sb (ic s)) (blk s) b}"
  have "?F s \<subseteq> insert b (?F t)" using assms by auto
  then have "card (?F s) \<le> card (insert b (?F t))" by (intro card_mono) auto
  also have "\<dots> \<le> card (?F t) + 1" by (simp add: card_insert_if)
  finally show ?thesis by (simp add: nfree_def)
qed

lemma ind_slot_ok:
  assumes r: "ready p ip s" and op: "1 \<le> lg_outstanding (lg s)" and pos: "valid_pos (k, js @ [j])" and a: "ptr (blk s) (faddrs ip s) (k, js) = a" "a \<noteq> 0"
    and room: "card (logged (lg s)) < LOGSIZE - 3" and free: "0 < nfree s"
  shows "wp (ind_slot ROOTDEV a j) (\<lambda>b t. grown p ip s t \<and> ic t = ic s \<and> b \<noteq> 0 \<and> ptr (blk t) (faddrs ip s) (k, js @ [j]) = b
      \<and> nfree s \<le> nfree t + 1 \<and> (logged (lg t) = logged (lg s) \<or> b \<in> logged (lg t) \<and> card (logged (lg t)) \<le> card (logged (lg s)) + 2 + (if a \<in> logged (lg s) then 0 else 1))) s"
proof -
  let ?v = "sb (ic s)" and ?B = "blk s" and ?A = "faddrs ip s" and ?X = "logged (lg s)"
  note s = readyD [OF r] and vp = valid_pos_snoc [OF pos]
  have va: "valid_pos (k, js)" "j < NINDIRECT" using vp by auto
  have aa: "data_start ?v \<le> a" "a < sb_size ?v" "marked ?v ?B a" "a < length (disk s)" using tree_okD(2) [OF s(6) va(1)] a s(2) by (auto simp: fs_ok_def)
  have room': "card ?X < NBUF" using room by simp
  show ?thesis
  proof (cases "get32 (?B a) (4 * j) = 0")
    case False
    show ?thesis
    proof (rule wp_mono [OF ind_slot_old [OF s(1) aa(4) room' False]], elim conjE)
      fix b t assume b: "b = get32 (?B a) (4 * j)" and st: "tx_step p {} s ?B ?X t"
      note f = step_frame [OF st s(4)]
      have "ready p ip t" using r f by (simp add: ready_def faddrs_def)
      then have "grown p ip s t" using f by (simp add: grown_def grows_refl faddrs_def)
      moreover have "ptr ?B ?A (k, js @ [j]) = b" using a b by (simp add: ptr_snoc)
      moreover have "nfree t = nfree s" by (simp add: nfree_def f)
      ultimately show "grown p ip s t \<and> ic t = ic s \<and> b \<noteq> 0 \<and> ptr (blk t) ?A (k, js @ [j]) = b
        \<and> nfree s \<le> nfree t + 1 \<and> (logged (lg t) = ?X \<or> b \<in> logged (lg t) \<and> card (logged (lg t)) \<le> card ?X + 2 + (if a \<in> ?X then 0 else 1))"
        using f False b by simp
    qed
  next
    case True
    obtain b where ff: "first_free ?v ?B b" using nfree_pos [OF free] by blast
    let ?B1 = "(alloc_block ?v b ?B)(a := put32 (4 * j) b (alloc_block ?v b ?B a))" and ?X1 = "{a, b, BBLOCK b ?v} \<union> ?X"
    note g = entry_grows [OF s(6) s(2,7) ff pos s(3) a True] and fb = fresh_block [OF s(6) s(2) ff]
    have mk: "marked ?v ?B1 c \<longleftrightarrow> c = b \<or> marked ?v ?B c" if "c < sb_size ?v" for c
    proof -
      have "BBLOCK c ?v \<noteq> a" using BBLOCK_bound(1) [OF s(2) that] aa(1) by simp
      then have "marked ?v ?B1 c = marked ?v (alloc_block ?v b ?B) c" by (simp add: marked_def)
      then show ?thesis using alloc_block_ok(1) [OF s(2) ff that] by simp
    qed
    have cX: "card ?X1 \<le> card ?X + 2 + (if a \<in> ?X then 0 else 1)"
    proof -
      have "?X1 = insert a (insert b (insert (BBLOCK b ?v) ?X))" by auto
      moreover have "card (insert b (insert (BBLOCK b ?v) ?X)) \<le> card ?X + 2" by (simp add: card_insert_if)
      ultimately show ?thesis by (auto simp: insert_absorb card_insert_if split: if_splits)
    qed
    show ?thesis
    proof (rule wp_mono [OF ind_slot_new [OF s(1,2) op aa(1-3) ff room True va(2)]], elim conjE)
      fix r t assume b: "r = b" and st: "tx_step p {} s ?B1 ?X1 t"
      note f = step_frame [OF st s(4)]
      have "ready p ip t" using s f g by (simp add: ready_def faddrs_def)
      then have "grown p ip s t" using f g(2) by (simp add: grown_def faddrs_def) blast
      moreover have "ptr ?B1 ?A (k, js @ [j]) = b" using g(3) [OF pos] by simp
      moreover have "b \<noteq> 0" using fb(5) s(3) by simp
      moreover have "nfree s \<le> nfree t + 1" by (rule nfree_alloc [where b = b]) (use f fb(4) mk in simp_all)
      ultimately show "grown p ip s t \<and> ic t = ic s \<and> r \<noteq> 0 \<and> ptr (blk t) ?A (k, js @ [j]) = r
        \<and> nfree s \<le> nfree t + 1 \<and> (logged (lg t) = ?X \<or> r \<in> logged (lg t) \<and> card (logged (lg t)) \<le> card ?X + 2 + (if a \<in> ?X then 0 else 1))"
        using f b cX by simp
    qed
  qed
qed

lemma kwalk_ok:
  assumes "ready p ip s" "1 \<le> lg_outstanding (lg s)" "valid_pos (k, pre @ js)" "ptr (blk s) (faddrs ip s) (k, pre) = a" "a \<noteq> 0"
    and "card (logged (lg s)) + 2 * length js \<le> LOGSIZE - 4 + (if a \<in> logged (lg s) then 2 else 1)" "length js \<le> nfree s"
  shows "wp (kwalk ROOTDEV a js) (\<lambda>b t. grown p ip s t \<and> ic t = ic s \<and> b \<noteq> 0 \<and> ptr (blk t) (faddrs ip s) (k, pre @ js) = b
      \<and> nfree s \<le> nfree t + length js \<and> card (logged (lg t)) \<le> card (logged (lg s)) + 2 * length js + (if a \<in> logged (lg s) \<or> js = [] then 0 else 1)) s"
  using assms
proof (induction js arbitrary: s pre a)
  case Nil
  then show ?case using grown_refl by (simp add: wps)
next
  case (Cons j js)
  let ?A = "faddrs ip s" and ?X = "logged (lg s)"
  have pos: "valid_pos (k, pre @ [j])" using Cons.prems(3) by (auto simp: valid_pos_def)
  have room: "card ?X < LOGSIZE - 3" using Cons.prems(6) by (auto split: if_splits)
  have free: "0 < nfree s" using Cons.prems(7) by simp
  show ?case
    unfolding kwalk.simps wp_kbind
  proof (rule wp_mono [OF ind_slot_ok [OF Cons.prems(1,2) pos Cons.prems(4,5) room free]], elim conjE)
    fix b t assume g: "grown p ip s t" and i: "ic t = ic s" and b: "b \<noteq> 0" "ptr (blk t) ?A (k, pre @ [j]) = b" and n: "nfree s \<le> nfree t + 1"
      and X: "logged (lg t) = ?X \<or> b \<in> logged (lg t) \<and> card (logged (lg t)) \<le> card ?X + 2 + (if a \<in> ?X then 0 else 1)"
    have t: "ready p ip t" "ino_frame p ip s t" using g by (auto simp: grown_def)
    have At: "faddrs ip t = ?A" using i by (simp add: faddrs_def)
    have op: "1 \<le> lg_outstanding (lg t)" using ino_frame_props(4) [OF t(2)] readyD(4) [OF Cons.prems(1)] Cons.prems(2) by simp
    have w: "wp (kwalk ROOTDEV b js) (\<lambda>c u. grown p ip t u \<and> ic u = ic t \<and> c \<noteq> 0 \<and> ptr (blk u) (faddrs ip t) (k, (pre @ [j]) @ js) = c
        \<and> nfree t \<le> nfree u + length js \<and> card (logged (lg u)) \<le> card (logged (lg t)) + 2 * length js + (if b \<in> logged (lg t) \<or> js = [] then 0 else 1)) t"
    proof (rule Cons.IH [OF t(1) op])
      show "valid_pos (k, (pre @ [j]) @ js)" "ptr (blk t) (faddrs ip t) (k, pre @ [j]) = b" "b \<noteq> 0" "length js \<le> nfree t"
        using Cons.prems(3,7) b n At by simp_all
      have l: "length (j # js) = Suc (length js)" by simp
      show "card (logged (lg t)) + 2 * length js \<le> LOGSIZE - 4 + (if b \<in> logged (lg t) then 2 else 1)"
        using X
      proof
        assume "logged (lg t) = ?X"
        then show ?thesis using Cons.prems(6) unfolding l by (cases "a \<in> ?X") auto
      next
        assume "b \<in> logged (lg t) \<and> card (logged (lg t)) \<le> card ?X + 2 + (if a \<in> ?X then 0 else 1)"
        then show ?thesis using Cons.prems(6) unfolding l by (cases "a \<in> ?X") auto
      qed
    qed
    show "wp (kwalk ROOTDEV b js) (\<lambda>c u. grown p ip s u \<and> ic u = ic s \<and> c \<noteq> 0 \<and> ptr (blk u) ?A (k, pre @ j # js) = c
        \<and> nfree s \<le> nfree u + length (j # js) \<and> card (logged (lg u)) \<le> card ?X + 2 * length (j # js) + (if a \<in> ?X \<or> j # js = [] then 0 else 1)) t"
    proof (rule wp_mono [OF w], elim conjE)
      fix c u assume u: "grown p ip t u" "ic u = ic t" "c \<noteq> 0" "ptr (blk u) (faddrs ip t) (k, (pre @ [j]) @ js) = c" "nfree t \<le> nfree u + length js"
        and Y: "card (logged (lg u)) \<le> card (logged (lg t)) + 2 * length js + (if b \<in> logged (lg t) \<or> js = [] then 0 else 1)"
      have "card (logged (lg u)) \<le> card ?X + 2 * Suc (length js) + (if a \<in> ?X then 0 else 1)"
        using X
      proof
        assume "logged (lg t) = ?X"
        then show ?thesis using Y by (cases "b \<in> ?X \<or> js = []") auto
      next
        assume "b \<in> logged (lg t) \<and> card (logged (lg t)) \<le> card ?X + 2 + (if a \<in> ?X then 0 else 1)"
        then show ?thesis using Y by (cases "a \<in> ?X") auto
      qed
      then show "grown p ip s u \<and> ic u = ic s \<and> c \<noteq> 0 \<and> ptr (blk u) ?A (k, pre @ j # js) = c
        \<and> nfree s \<le> nfree u + length (j # js) \<and> card (logged (lg u)) \<le> card ?X + 2 * length (j # js) + (if a \<in> ?X \<or> j # js = [] then 0 else 1)"
        using u n i At grown_trans [OF Cons.prems(1) g u(1)] by simp
    qed
  qed
qed

lemma addr_slot_ok:
  assumes r: "ready p ip s" and op: "1 \<le> lg_outstanding (lg s)" and k: "k < NDIRECT + 3" and room: "card (logged (lg s)) < LOGSIZE - 2" and free: "0 < nfree s"
  shows "wp (addr_slot ip k) (\<lambda>a t. grown p ip s t \<and> a \<noteq> 0 \<and> ptr (blk t) (faddrs ip t) (k, []) = a \<and> nfree s \<le> nfree t + 1
      \<and> (logged (lg t) = logged (lg s) \<or> a \<in> logged (lg t) \<and> card (logged (lg t)) \<le> card (logged (lg s)) + 2)) s"
proof -
  let ?v = "sb (ic s)" and ?B = "blk s" and ?A = "faddrs ip s" and ?X = "logged (lg s)"
  note s = readyD [OF r]
  show ?thesis
  proof (cases "?A ! k = 0")
    case False
    then show ?thesis using grown_refl [OF r] by (simp add: addr_slot_def get_ip_def wps ptr_Nil faddrs_def)
  next
    case True
    obtain b where ff: "first_free ?v ?B b" using nfree_pos [OF free] by blast
    let ?B1 = "alloc_block ?v b ?B" and ?X1 = "{b, BBLOCK b ?v} \<union> ?X"
    note g = slot_grows [OF s(6) s(2) ff k True s(3)] and fb = fresh_block [OF s(6) s(2) ff]
    have len: "k < length ?A" using k s(6) by (simp add: tree_ok_def)
    have "card ?X1 \<le> card {b, BBLOCK b ?v} + card ?X" by (rule card_Un_le)
    also have "card {b, BBLOCK b ?v} \<le> 2" by (simp add: card_insert_if)
    finally have cX: "card ?X1 \<le> card ?X + 2" by simp
    have rm: "card ({} :: nat set) + card ?X < LOGSIZE - 2" using room by simp
    have bal: "wp (balloc ROOTDEV) (\<lambda>r t. r = b \<and> tx_step p {} s ?B1 ?X1 t) s"
      by (rule balloc_ok [OF s(1,2) _ op rm ff]) (simp add: holds_data_def)
    have post: "grown p ip s u \<and> b \<noteq> 0 \<and> ptr (blk u) (faddrs ip u) (k, []) = b \<and> nfree s \<le> nfree u + 1
        \<and> (logged (lg u) = ?X \<or> b \<in> logged (lg u) \<and> card (logged (lg u)) \<le> card ?X + 2)"
      if st: "tx_step p {} s ?B1 ?X1 t" and u: "u = set_ip ip (\<lambda>n. n\<lparr>i_addrs := (i_addrs n)[k := b]\<rparr>) t" for t u
    proof -
      note f = step_frame [OF st s(4)]
      let ?n = "inodes (ic s) ! ip"
      have ic: "ic u = (ic s)\<lparr>inodes := (inodes (ic s))[ip := ?n\<lparr>i_addrs := ?A[k := b], i_size := i_size ?n\<rparr>]\<rparr>"
        using f(2) by (simp add: u set_ip_def faddrs_def)
      have ub: "blk u = ?B1" "lg u = lg t" "disk u = disk s" "alone p {} u" using f by (simp_all add: u set_ip_def)
      have A: "faddrs ip u = ?A[k := b]" using s(4) by (simp add: faddrs_def ic)
      have "u = upd_ic (\<lambda>_. ic u) t" by (simp add: u set_ip_def upd_ic_def)
      then have "tx_frame p (upd_ic (\<lambda>_. ic u) s) u" using tx_frame_ic [of p s t "ic u"] st by (metis tx_step_def)
      then have fr: "ino_frame p ip s u" unfolding ino_frame_def using ic by blast
      note pr = ino_frame_props [OF fr s(4)]
      have "ready p ip u" using s g(1) alloc_block_ok(2) [OF s(2) ff] ub A pr by (simp add: ready_def)
      moreover have "i_size (inodes (ic u) ! ip) = i_size ?n" using s(4) by (simp add: ic)
      ultimately have "grown p ip s u" using fr g(2) ub A f(4) by (auto simp: grown_def)
      moreover have "nfree s \<le> nfree u + 1" by (rule nfree_alloc [where b = b]) (use ub pr fb(4) alloc_block_ok(1) [OF s(2) ff] in simp_all)
      moreover have "b \<noteq> 0" using fb(5) s(3) by simp
      ultimately show ?thesis using ub f(4) cX len by (simp add: ptr_Nil A)
    qed
    have dev: "i_dev (inodes (ic s) ! ip) = ROOTDEV" "i_addrs (inodes (ic s) ! ip) ! k = 0" using s(5) True by (simp_all add: faddrs_def)
    show ?thesis
      unfolding addr_slot_def get_ip_def wp_kbind wp_prims
      using dev by (simp add: wps upd_ip_def del: One_nat_def) (rule wp_mono [OF bal], elim conjE, drule post [OF _ refl], simp add: wps)
  qed
qed

lemma bmap_ok:
  assumes r: "ready p ip s" and op: "1 \<le> lg_outstanding (lg s)" and bn: "bn < MAXFILE" and room: "card (logged (lg s)) \<le> LOGSIZE - 10" and free: "4 \<le> nfree s"
  shows "wp (bmap ip bn) (\<lambda>b t. grown p ip s t \<and> b \<noteq> 0 \<and> ptr (blk t) (faddrs ip t) (bpath bn) = b \<and> nfree s \<le> nfree t + 4
      \<and> card (logged (lg t)) \<le> card (logged (lg s)) + 8) s"
proof -
  obtain k js where kj: "bpath bn = (k, js)" by fastforce
  have dp: "valid_pos (k, js)" "length js \<le> 3" "k < NDIRECT + 3"
    using bpath_data [OF bn] kj by (auto simp: data_pos_def valid_pos_def depth_def)
  have dev: "i_dev (inodes (ic s) ! ip) = ROOTDEV" using r by (simp add: ready_def)
  have room': "card (logged (lg s)) < LOGSIZE - 2" and free': "0 < nfree s" using room free by simp_all
  show ?thesis
    unfolding bmap_walk [OF bn] kj prod.case dev
  proof (rule wp_mono [OF addr_slot_ok [OF r op dp(3) room' free']], elim conjE)
    fix a t assume g: "grown p ip s t" and a: "a \<noteq> 0" "ptr (blk t) (faddrs ip t) (k, []) = a" and n: "nfree s \<le> nfree t + 1"
      and X: "logged (lg t) = logged (lg s) \<or> a \<in> logged (lg t) \<and> card (logged (lg t)) \<le> card (logged (lg s)) + 2"
    have t: "ready p ip t" "ino_frame p ip s t" using g by (auto simp: grown_def)
    have op': "1 \<le> lg_outstanding (lg t)" using ino_frame_props(4) [OF t(2)] readyD(4) [OF r] op by simp
    have w: "wp (kwalk ROOTDEV a js) (\<lambda>b u. grown p ip t u \<and> ic u = ic t \<and> b \<noteq> 0 \<and> ptr (blk u) (faddrs ip t) (k, [] @ js) = b
      \<and> nfree t \<le> nfree u + length js \<and> card (logged (lg u)) \<le> card (logged (lg t)) + 2 * length js + (if a \<in> logged (lg t) \<or> js = [] then 0 else 1)) t"
    proof (rule kwalk_ok [OF t(1) op' _ a(2,1)])
      show "valid_pos (k, [] @ js)" "length js \<le> nfree t" using dp n free by simp_all
      show "card (logged (lg t)) + 2 * length js \<le> LOGSIZE - 4 + (if a \<in> logged (lg t) then 2 else 1)"
        using X
      proof
        assume "logged (lg t) = logged (lg s)"
        then show ?thesis using dp(2) room by simp
      next
        assume "a \<in> logged (lg t) \<and> card (logged (lg t)) \<le> card (logged (lg s)) + 2"
        then show ?thesis using dp(2) room by simp
      qed
    qed
    show "wp (kwalk ROOTDEV a js) (\<lambda>b u. grown p ip s u \<and> b \<noteq> 0 \<and> ptr (blk u) (faddrs ip u) (k, js) = b \<and> nfree s \<le> nfree u + 4
      \<and> card (logged (lg u)) \<le> card (logged (lg s)) + 8) t"
    proof (rule wp_mono [OF w], elim conjE)
      fix b u assume u: "grown p ip t u" "ic u = ic t" "b \<noteq> 0" "ptr (blk u) (faddrs ip t) (k, [] @ js) = b" "nfree t \<le> nfree u + length js"
        and Y: "card (logged (lg u)) \<le> card (logged (lg t)) + 2 * length js + (if a \<in> logged (lg t) \<or> js = [] then 0 else 1)"
      have "card (logged (lg u)) \<le> card (logged (lg s)) + 8"
        using X
      proof
        assume "logged (lg t) = logged (lg s)"
        then show ?thesis using Y dp(2) by (cases "a \<in> logged (lg t) \<or> js = []") auto
      next
        assume "a \<in> logged (lg t) \<and> card (logged (lg t)) \<le> card (logged (lg s)) + 2"
        then show ?thesis using Y dp(2) by simp
      qed
      then show "grown p ip s u \<and> b \<noteq> 0 \<and> ptr (blk u) (faddrs ip u) (k, js) = b \<and> nfree s \<le> nfree u + 4 \<and> card (logged (lg u)) \<le> card (logged (lg s)) + 8"
        using u n dp(2) grown_trans [OF r g u(1)] by (simp add: faddrs_def)
    qed
  qed
qed

section \<open>Theorems\<close>

text \<open>C16: The block map. For a sound inode inside a transaction, with room in the log and four free blocks, \<open>bmap\<close> returns for every block number
  up to the limit of the triple indirect block a data block that is allocated to this position and to no other block of the file. The file
  contents are unchanged (a block that had to be allocated reads as zeros, before and after), blocks in use that are not
  indirect blocks of this inode keep their contents, and the tree stays sound: no block is shared, all are marked in the bit map. At most
  four blocks are allocated and eight logged.\<close>

theorem bmap_allocates:
  assumes "ready p ip s" "1 \<le> lg_outstanding (lg s)" "bn < MAXFILE" "card (logged (lg s)) \<le> 20" "4 \<le> nfree s"
  shows "wp (bmap ip bn) (\<lambda>b t. ready p ip t \<and> ptr (blk t) (faddrs ip t) (bpath bn) = b
      \<and> data_start (sb (ic s)) \<le> b \<and> b < sb_size (sb (ic s)) \<and> marked (sb (ic s)) (blk t) b
      \<and> (\<forall>m < MAXFILE. m \<noteq> bn \<longrightarrow> ptr (blk t) (faddrs ip t) (bpath m) \<noteq> b)
      \<and> (\<forall>m < MAXFILE. fblock (blk t) (faddrs ip t) m = fblock (blk s) (faddrs ip s) m)
      \<and> (\<forall>c < sb_size (sb (ic s)). data_start (sb (ic s)) \<le> c \<longrightarrow> marked (sb (ic s)) (blk s) c \<longrightarrow> \<not> inner (blk s) (faddrs ip s) c \<longrightarrow> blk t c = blk s c)
      \<and> nfree s \<le> nfree t + 4 \<and> card (logged (lg t)) \<le> card (logged (lg s)) + 8) s"
proof -
  have room: "card (logged (lg s)) \<le> LOGSIZE - 10" using assms(4) by simp
  show ?thesis
  proof (rule wp_mono [OF bmap_ok [OF assms(1-3) room assms(5)]], elim conjE)
    fix b t assume g: "grown p ip s t" and b: "b \<noteq> 0" "ptr (blk t) (faddrs ip t) (bpath bn) = b"
      and n: "nfree s \<le> nfree t + 4" "card (logged (lg t)) \<le> card (logged (lg s)) + 8"
    note s = readyD [OF assms(1)]
    have t: "ready p ip t" "ino_frame p ip s t" "grows (sb (ic s)) (blk s) (faddrs ip s) (blk t) (faddrs ip t)" using g by (auto simp: grown_def)
    note pr = ino_frame_props [OF t(2) s(4)]
    have tt: "tree_ok (sb (ic s)) (blk t) (faddrs ip t)" using readyD(6) [OF t(1)] pr(1) by simp
    have v: "valid_pos (bpath m)" if "m < MAXFILE" for m using bpath_data [OF that] data_pos_valid by blast
    have ne: "ptr (blk t) (faddrs ip t) (bpath m) \<noteq> b" if "m < MAXFILE" "m \<noteq> bn" for m
      using tree_okD(3) [OF tt v [OF assms(3)] v [OF that(1)]] b bpath_inj that(2) by metis
    have fb: "fblock (blk t) (faddrs ip t) m = fblock (blk s) (faddrs ip s) m" if "m < MAXFILE" for m
      by (rule grows_fblock [OF s(6) tt t(3) that])
    have db: "data_start (sb (ic s)) \<le> b \<and> b < sb_size (sb (ic s)) \<and> marked (sb (ic s)) (blk t) b"
      using tree_okD(2) [OF tt v [OF assms(3)]] b by simp
    have c: "blk t c = blk s c" if "c < sb_size (sb (ic s))" "data_start (sb (ic s)) \<le> c" "marked (sb (ic s)) (blk s) c" "\<not> inner (blk s) (faddrs ip s) c" for c
      by (rule growsD(4) [OF t(3) that])
    show "ready p ip t \<and> ptr (blk t) (faddrs ip t) (bpath bn) = b
      \<and> data_start (sb (ic s)) \<le> b \<and> b < sb_size (sb (ic s)) \<and> marked (sb (ic s)) (blk t) b
      \<and> (\<forall>m < MAXFILE. m \<noteq> bn \<longrightarrow> ptr (blk t) (faddrs ip t) (bpath m) \<noteq> b)
      \<and> (\<forall>m < MAXFILE. fblock (blk t) (faddrs ip t) m = fblock (blk s) (faddrs ip s) m)
      \<and> (\<forall>c < sb_size (sb (ic s)). data_start (sb (ic s)) \<le> c \<longrightarrow> marked (sb (ic s)) (blk s) c \<longrightarrow> \<not> inner (blk s) (faddrs ip s) c \<longrightarrow> blk t c = blk s c)
      \<and> nfree s \<le> nfree t + 4 \<and> card (logged (lg t)) \<le> card (logged (lg s)) + 8"
      using t(1) b(2) db ne fb c n by blast
  qed
qed

lemma file_machine_ready: "ready 0 0 file_machine" "nfree file_machine = 5" "logged (lg file_machine) = {}" "lg_outstanding (lg file_machine) = 1"
proof -
  have s: "length small_disk \<le> 2 ^ 31" by (simp add: small_disk_ok)
  note f = fs_machine_alone [OF small_disk_ok(1) s]
  show lg: "logged (lg file_machine) = {}" "lg_outstanding (lg file_machine) = 1" using f by (simp_all add: file_machine_def)
  have sb: "sb (ic file_machine) = sb (ic machine)" using f by (simp add: file_machine_def)
  have bk: "blk file_machine = (!) small_disk" "disk file_machine = small_disk" "alone 0 {} file_machine" using f by (simp_all add: file_machine_def)
  have n: "inodes (ic machine) ! 0 = \<lparr>i_dev = 0, i_inum = 0, i_ref = 0, i_valid = False, i_type = 0, i_major = 0, i_minor = 0, i_nlink = 0, i_size = 0, i_addrs = replicate 13 0\<rparr>"
    "length (inodes (ic machine)) = 50" by (simp_all add: machine_def)
  have A: "faddrs 0 file_machine = replicate 13 0" using f n by (simp add: faddrs_def file_machine_def)
  have w: "walk B 0 js = 0" for B js by (cases js) auto
  have p: "ptr B (replicate 13 0) q = 0" if "valid_pos q" for B q using that w by (cases q) (simp add: ptr_def valid_pos_def)
  have "tree_ok v B (replicate 13 0)" for v B using p by (simp add: tree_ok_def)
  then show "ready 0 0 file_machine"
    using bk sb A small_disk_ok f n by (simp add: ready_def) (simp add: file_machine_def f n data_start_def machine_def)
  have "{b. b < 40 \<and> \<not> marked (sb (ic machine)) ((!) small_disk) b} = {35..<40}" using small_disk_ok(5) by auto
  moreover have "sb_size (sb (ic machine)) = 40" by (simp add: machine_def)
  ultimately show "nfree file_machine = 5" by (simp add: nfree_def sb bk)
qed

theorem bmap_allocates_witness:
  "wp (bmap 0 2000) (\<lambda>b t. ready 0 0 t \<and> ptr (blk t) (faddrs 0 t) (11, [14, 70]) = b \<and> 35 \<le> b \<and> b < 40) file_machine"
proof -
  have "bpath 2000 = (11, [14, 70])" by (simp add: bpath_def)
  moreover have "data_start (sb (ic file_machine)) = 35" "sb_size (sb (ic file_machine)) = 40"
    by (simp_all add: file_machine_def fs_machine_def data_start_def machine_def)
  ultimately show ?thesis
    by (intro wp_mono [OF bmap_allocates [OF file_machine_ready(1), of 2000]]) (auto simp: file_machine_ready)
qed

end
