(* ===== verification/DiskInode.thy ===== *)
theory DiskInode
  imports FileTree
begin

text \<open>
  The inodes on the disk (\<open>struct dinode\<close>, \<open>iupdate\<close> and the load inside \<open>ilock\<close> of \<open>fs.c\<close>): the layout of a block of inodes loses
  nothing, and an inode that is written back and loaded again is the same one.
\<close>

section \<open>Inodes on disk\<close>

definition short_range :: "int \<Rightarrow> bool" where
  "short_range v \<longleftrightarrow> - (2 ^ 15) \<le> v \<and> v < 2 ^ 15"

text \<open>The values the fields of a \<open>struct dinode\<close> can have.\<close>

definition dinode_wf :: "dinode \<Rightarrow> bool" where
  "dinode_wf di \<longleftrightarrow> short_range (di_type di) \<and> short_range (di_major di) \<and> short_range (di_minor di) \<and> short_range (di_nlink di)
     \<and> di_size di < 2 ^ 32 \<and> length (di_addrs di) = NDIRECT + 3 \<and> (\<forall>a \<in> set (di_addrs di). a < 2 ^ 32)"

definition dinode_of :: "inode \<Rightarrow> dinode" where
  "dinode_of n = \<lparr>di_type = i_type n, di_major = i_major n, di_minor = i_minor n, di_nlink = i_nlink n, di_size = i_size n, di_addrs = i_addrs n\<rparr>"

definition put_addrs :: "nat \<Rightarrow> nat list \<Rightarrow> nat \<Rightarrow> uchar list \<Rightarrow> uchar list" where
  "put_addrs ofs A n d = fold (\<lambda>k. put32 (ofs + 4 * k) (A ! k)) [0..<n] d"

text \<open>The copy of inode \<open>inum\<close> in the block store.\<close>

definition stored :: "nat \<Rightarrow> 'a kstate_scheme \<Rightarrow> dinode" where
  "stored inum s = get_dinode (blk s (IBLOCK inum (sb (ic s)))) inum"

definition put_head :: "nat \<Rightarrow> dinode \<Rightarrow> uchar list \<Rightarrow> uchar list" where
  "put_head ofs di d = put32 (ofs + 8) (di_size di) (puti16 (ofs + 6) (di_nlink di) (puti16 (ofs + 4) (di_minor di) (puti16 (ofs + 2) (di_major di) (puti16 ofs (di_type di) d))))"

definition load_inode :: "dinode \<Rightarrow> inode \<Rightarrow> inode" where
  "load_inode di n = n\<lparr>i_type := di_type di, i_major := di_major di, i_minor := di_minor di, i_nlink := di_nlink di,
     i_size := di_size di, i_addrs := di_addrs di, i_valid := True\<rparr>"

section \<open>The layout\<close>

lemma put_addrs_Suc: "put_addrs ofs A (Suc n) d = put32 (ofs + 4 * n) (A ! n) (put_addrs ofs A n d)"
  by (simp add: put_addrs_def)

lemma length_put_addrs: "ofs + 4 * n \<le> length d \<Longrightarrow> length (put_addrs ofs A n d) = length d"
  by (induction n) (simp_all add: put_addrs_Suc, simp add: put_addrs_def)

lemma get_put_addrs: "ofs + 4 * n \<le> length d \<Longrightarrow> k < n \<Longrightarrow> get32 (put_addrs ofs A n d) (ofs + 4 * k) = A ! k mod 2 ^ 32"
proof (induction n)
  case (Suc n)
  have l: "length (put_addrs ofs A n d) = length d" by (rule length_put_addrs) (use Suc.prems in simp)
  show ?case
  proof (cases "k = n")
    case True
    then show ?thesis using Suc.prems l get32_put32_same [of "ofs + 4 * n" "put_addrs ofs A n d"] by (simp add: put_addrs_Suc)
  next
    case False
    then have k: "k < n" using Suc.prems(2) by simp
    have "get32 (put32 (ofs + 4 * n) (A ! n) (put_addrs ofs A n d)) (ofs + 4 * k) = get32 (put_addrs ofs A n d) (ofs + 4 * k)"
      by (rule get_put_other(1)) (use l k Suc.prems in simp_all)
    then show ?thesis using Suc k by (simp add: put_addrs_Suc)
  qed
qed simp

lemma slice_put_addrs:
  "ofs + 4 * n \<le> length d \<Longrightarrow> o' + m \<le> ofs \<or> ofs + 4 * n \<le> o' \<Longrightarrow> slice o' m (put_addrs ofs A n d) = slice o' m d"
proof (induction n)
  case (Suc n)
  have "slice o' m (splice (ofs + 4 * n) (le_bytes 4 (A ! n)) (put_addrs ofs A n d)) = slice o' m (put_addrs ofs A n d)"
    by (rule slice_splice_disjoint) (use Suc.prems length_put_addrs [of ofs n d A] in auto)
  then show ?case using Suc by (auto simp: put_addrs_Suc put32_def)
qed (simp add: put_addrs_def)

lemma slice_put16: "off + 2 \<le> length d \<Longrightarrow> o' + m \<le> off \<or> off + 2 \<le> o' \<Longrightarrow> slice o' m (puti16 off v d) = slice o' m d"
  by (simp add: puti16_def put16_def slice_splice_disjoint)

lemma slice_put32: "off + 4 \<le> length d \<Longrightarrow> o' + m \<le> off \<or> off + 4 \<le> o' \<Longrightarrow> slice o' m (put32 off v d) = slice o' m d"
  by (simp add: put32_def slice_splice_disjoint)

lemmas slice_puts = slice_put16 slice_put32 slice_put_addrs length_put_addrs

lemma put_dinode_alt: "put_dinode inum di d = put_addrs (64 * (inum mod IPB) + 12) (di_addrs di) (NDIRECT + 3) (put_head (64 * (inum mod IPB)) di d)"
  by (simp add: put_dinode_def put_head_def put_addrs_def Let_def)

lemma dinode_fits: "64 * (inum mod IPB) + 64 \<le> BSIZE"
proof -
  have "inum mod IPB < IPB" by simp
  then show ?thesis by simp
qed

lemma put_head_ok:
  assumes "ofs + 64 \<le> length d" "dinode_wf di"
  shows "length (put_head ofs di d) = length d" "geti16 (put_head ofs di d) ofs = di_type di" "geti16 (put_head ofs di d) (ofs + 2) = di_major di"
    "geti16 (put_head ofs di d) (ofs + 4) = di_minor di" "geti16 (put_head ofs di d) (ofs + 6) = di_nlink di" "get32 (put_head ofs di d) (ofs + 8) = di_size di"
    "o' + m \<le> ofs \<or> ofs + 12 \<le> o' \<Longrightarrow> slice o' m (put_head ofs di d) = slice o' m d"
proof -
  have o: "geti16 (put32 a v x) b = geti16 x b" if "a + 4 \<le> length x" "b + 2 \<le> a" for a b v x
    using that by (simp add: geti16_def get_put_other)
  have p: "geti16 (puti16 a v x) b = geti16 x b" if "a + 2 \<le> length x" "b + 2 \<le> a" for a b v x
    using that by (simp add: geti16_def puti16_def get_put_other)
  note w = assms(2) [unfolded dinode_wf_def short_range_def]
  show "length (put_head ofs di d) = length d" "get32 (put_head ofs di d) (ofs + 8) = di_size di"
    using assms(1) w by (simp_all add: put_head_def get32_put32_same)
  show "geti16 (put_head ofs di d) ofs = di_type di" "geti16 (put_head ofs di d) (ofs + 2) = di_major di"
    "geti16 (put_head ofs di d) (ofs + 4) = di_minor di" "geti16 (put_head ofs di d) (ofs + 6) = di_nlink di"
    using assms(1) w by (simp_all add: put_head_def o p geti16_puti16_same)
  show "o' + m \<le> ofs \<or> ofs + 12 \<le> o' \<Longrightarrow> slice o' m (put_head ofs di d) = slice o' m d"
    using assms(1) by (auto simp: put_head_def slice_puts)
qed

lemma length_put_dinode: "length d = BSIZE \<Longrightarrow> dinode_wf di \<Longrightarrow> length (put_dinode inum di d) = BSIZE"
  using dinode_fits [of inum] by (simp add: put_dinode_alt length_put_addrs put_head_ok)

lemma get_put_dinode:
  assumes "length d = BSIZE" "dinode_wf di"
  shows "get_dinode (put_dinode inum di d) inum = di"
proof -
  let ?o = "64 * (inum mod IPB)" and ?h = "put_head (64 * (inum mod IPB)) di d"
  have fit: "?o + 64 \<le> length d" using dinode_fits [of inum] assms(1) by simp
  note h = put_head_ok [OF fit assms(2)]
  have s: "slice b m (put_addrs (?o + 12) (di_addrs di) (NDIRECT + 3) ?h) = slice b m ?h" if "b + m \<le> ?o + 12" for b m
    using that fit h(1) by (intro slice_put_addrs) simp_all
  have A: "get32 (put_addrs (?o + 12) (di_addrs di) (NDIRECT + 3) ?h) (?o + 12 + 4 * k) = di_addrs di ! k" if "k < NDIRECT + 3" for k
    using get_put_addrs [of "?o + 12" "NDIRECT + 3" ?h k "di_addrs di"] that fit h(1) assms(2) by (simp add: dinode_wf_def)
  have "map (\<lambda>k. get32 (put_addrs (?o + 12) (di_addrs di) (NDIRECT + 3) ?h) (?o + 12 + 4 * k)) [0..<NDIRECT + 3] = di_addrs di"
    by (rule nth_equalityI) (use assms(2) A in \<open>simp_all add: dinode_wf_def\<close>)
  then show ?thesis
    unfolding get_dinode_def put_dinode_alt Let_def
    using h(2-6) s by (simp add: geti16_def get16_def get32_def)
qed

lemma get_put_dinode_other:
  assumes "length d = BSIZE" "dinode_wf di" "i mod IPB \<noteq> inum mod IPB"
  shows "get_dinode (put_dinode inum di d) i = get_dinode d i"
proof -
  let ?o = "64 * (inum mod IPB)" and ?h = "put_head (64 * (inum mod IPB)) di d" and ?i = "64 * (i mod IPB)"
  have fit: "?o + 64 \<le> length d" "?i + 64 \<le> length d" using dinode_fits assms(1) by simp_all
  note h = put_head_ok [OF fit(1) assms(2)]
  have s: "slice (?i + b) m (put_dinode inum di d) = slice (?i + b) m d" if "b + m \<le> 64" for b m
  proof -
    have "?i + 64 \<le> ?o \<or> ?o + 64 \<le> ?i" using assms(3) by linarith
    then show ?thesis using h(1,7) that fit(1) unfolding put_dinode_alt by (subst slice_put_addrs) auto
  qed
  have s0: "slice ?i m (put_dinode inum di d) = slice ?i m d" if "m \<le> 64" for m using s [of 0 m] that by simp
  have "map (\<lambda>k. get32 (put_dinode inum di d) (?i + 12 + 4 * k)) [0..<NDIRECT + 3] = map (\<lambda>k. get32 d (?i + 12 + 4 * k)) [0..<NDIRECT + 3]"
    by (rule map_cong [OF refl]) (use s in \<open>auto simp: get32_def add.assoc\<close>)
  then show ?thesis unfolding get_dinode_def Let_def by (simp add: geti16_def get16_def get32_def s s0 del: add_2_eq_Suc')
qed

section \<open>Writing back and loading\<close>

lemma iupdate_ok:
  assumes "alone p {} s" "fs_ok (sb (ic s)) (blk s) (length (disk s))" "inodes (ic s) ! ip = n" "i_dev n = ROOTDEV" "dinode_wf (dinode_of n)"
    and "IBLOCK (i_inum n) (sb (ic s)) = b" "b < sb_size (sb (ic s))" "card (logged (lg s)) < LOGSIZE - 1" "1 \<le> lg_outstanding (lg s)"
  shows "wp (iupdate ip) (\<lambda>_. tx_step p {} s ((blk s)(b := put_dinode (i_inum n) (dinode_of n) (blk s b))) (insert b (logged (lg s)))) s"
proof -
  let ?f = "put_dinode (i_inum n) (dinode_of n)"
  have b: "b < length (disk s)" "length (blk s b) = BSIZE" using assms(2,7) by (auto simp: fs_ok_def)
  have g: "wp get_sb P t \<longleftrightarrow> P (sb (ic t)) t" "wp (get_ip ip id) Q t \<longleftrightarrow> Q (inodes (ic t) ! ip) t" for P Q t by (simp_all add: get_sb_def get_ip_def wps)
  have "wp (kbind (bread ROOTDEV b) (\<lambda>bp. kthen (set_bdata bp ?f) (kthen (log_write bp) (brelse bp))))
      (\<lambda>_. tx_step p {} s ((blk s)(b := ?f (blk s b))) (insert b (logged (lg s)))) s"
    by (rule tx_modify) (use assms b in \<open>simp_all add: not_held_def length_put_dinode\<close>)
  show ?thesis
    unfolding iupdate_def wp_kbind wp_kthen g assms(3,4,6)
  proof (rule wp_mono [OF tx_bread [OF assms(1) b(1)]])
    fix i t assume h: "tx_held p {} s i b (blk s) (logged (lg s)) t"
    have e: "inodes (ic t) ! ip = n" using tx_held_kernel(3) [OF h] assms(3) by simp
    show "wp (set_bdata i (put_dinode (i_inum (inodes (ic t) ! ip)) \<lparr>di_type = i_type (inodes (ic t) ! ip), di_major = i_major (inodes (ic t) ! ip),
        di_minor = i_minor (inodes (ic t) ! ip), di_nlink = i_nlink (inodes (ic t) ! ip), di_size = i_size (inodes (ic t) ! ip), di_addrs = i_addrs (inodes (ic t) ! ip)\<rparr>))
        (\<lambda>_. wp (log_write i) (\<lambda>_. wp (brelse i) (\<lambda>_. tx_step p {} s ((blk s)(b := ?f (blk s b))) (insert b (logged (lg s)))))) t"
      unfolding e wp_set_bdata dinode_of_def [symmetric]
      by (rule wp_mono [OF tx_update [OF h, where f = ?f]]) (use b assms(5,8,9) in \<open>auto intro: tx_brelse simp: length_put_dinode\<close>)
  qed (use assms(8) in \<open>simp_all add: not_held_def\<close>)
qed

lemma tx_held_upd_ic:
  assumes "tx_held p H s i b B X t"
  shows "tx_held p H (upd_ic g s) i b B X (upd_ic g t :: 'a kstate_scheme)"
  using assms by (auto simp: tx_held_def tx_frame_def lmore_eq keeps_def caches_def)

lemma wp_upd_ip: "wp (upd_ip ip f) P s \<longleftrightarrow> P () (set_ip ip f s)"
  by (simp add: upd_ip_def wps)

lemma iload_ok:
  assumes "alone p {} s" "fs_ok (sb (ic s)) (blk s) (length (disk s))" "jp < length (inodes (ic s))" "inodes (ic s) ! jp = n" "i_dev n = ROOTDEV"
    and "IBLOCK (i_inum n) (sb (ic s)) < sb_size (sb (ic s))" "card (logged (lg s)) < NBUF" "di_type (stored (i_inum n) s) \<noteq> 0"
  shows "wp (iload jp) (\<lambda>_ t. alone p {} t \<and> ic t = (ic s)\<lparr>inodes := (inodes (ic s))[jp := load_inode (stored (i_inum n) s) n]\<rparr>
      \<and> blk t = blk s \<and> logged (lg t) = logged (lg s) \<and> disk t = disk s) s"
proof -
  let ?b = "IBLOCK (i_inum n) (sb (ic s))"
  have b: "?b < length (disk s)" using assms(2,6) by (auto simp: fs_ok_def)
  have g: "wp get_sb P t \<longleftrightarrow> P (sb (ic t)) t" "wp (get_ip jp id) Q t \<longleftrightarrow> Q (inodes (ic t) ! jp) t" for P Q t by (simp_all add: get_sb_def get_ip_def wps)
  show ?thesis
    unfolding iload_def wp_kbind g assms(4,5)
  proof (rule wp_mono [OF tx_bread [OF assms(1) b]])
    fix i t assume h: "tx_held p {} s i ?b (blk s) (logged (lg s)) t"
    have h': "tx_held p {} (set_ip jp f s) i ?b (blk s) (logged (lg s)) (set_ip jp f t)" for f unfolding set_ip_def by (rule tx_held_upd_ic [OF h])
    have post: "wp (upd_ip jp (\<lambda>n. n\<lparr>i_valid := True\<rparr>)) (\<lambda>_. wp (kbind (get_ip jp i_type) (\<lambda>ty. kwhen (ty = 0) (kpanic ''ilock: no type'')))
       (\<lambda>_ t. alone p {} t \<and> ic t = (ic s)\<lparr>inodes := (inodes (ic s))[jp := load_inode (stored (i_inum n) s) n]\<rparr> \<and> blk t = blk s \<and> logged (lg t) = logged (lg s) \<and> disk t = disk s)) u"
      if u: "tx_step p {} (set_ip jp f s) (blk s) (logged (lg s)) u" and f: "f n\<lparr>i_valid := True\<rparr> = load_inode (stored (i_inum n) s) n" for u f
    proof -
      have i: "ic u = ic (set_ip jp f s)" and a: "alone p {} u" "blk u = blk s" "logged (lg u) = logged (lg s)" "disk u = disk s"
        using tx_step_kernel(3) [OF u] u by (simp_all add: tx_step_def tx_frame_def set_ip_def)
      have "i_type (f n) = i_type (f n\<lparr>i_valid := True\<rparr>)" by simp
      then have "i_type (f n) = i_type (load_inode (stored (i_inum n) s) n)" by (simp only: f)
      moreover have "i_type (load_inode (stored (i_inum n) s) n) \<noteq> 0" using assms(8) by (simp add: load_inode_def)
      ultimately show ?thesis
        using assms(3,4) a by (simp add: upd_ip_def get_ip_def wps i set_ip_def f)
    qed
    show "wp (get_bdata i) (\<lambda>d. wp (let di = get_dinode d (i_inum n) in kthen (upd_ip jp (\<lambda>n. n\<lparr>i_type := di_type di, i_major := di_major di, i_minor := di_minor di,
              i_nlink := di_nlink di, i_size := di_size di, i_addrs := di_addrs di\<rparr>)) (kthen (brelse i) (kthen (upd_ip jp (\<lambda>n. n\<lparr>i_valid := True\<rparr>)) (
              kbind (get_ip jp i_type) (\<lambda>ty. kwhen (ty = 0) (kpanic ''ilock: no type''))))))
       (\<lambda>_ t. alone p {} t \<and> ic t = (ic s)\<lparr>inodes := (inodes (ic s))[jp := load_inode (stored (i_inum n) s) n]\<rparr> \<and> blk t = blk s \<and> logged (lg t) = logged (lg s) \<and> disk t = disk s)) t"
      unfolding get_bdata_def wp_prims(2) tx_held_data(1) [OF h] stored_def [symmetric] Let_def wp_kthen
      by (subst wp_upd_ip, rule wp_mono [OF tx_brelse [OF h']], drule post) (simp_all add: load_inode_def)
  qed (use assms(7) in \<open>simp_all add: not_held_def\<close>)
qed

lemma stored_write:
  assumes "blk t = (blk s)(b := put_dinode inum di (blk s b))" "sb (ic t) = sb (ic s)" "b = IBLOCK inum (sb (ic s))" "length (blk s b) = BSIZE" "dinode_wf di"
  shows "stored k t = (if k = inum then di else stored k s)"
proof (cases "k = inum")
  case True
  then show ?thesis using assms by (simp add: stored_def get_put_dinode)
next
  case False
  show ?thesis
  proof (cases "IBLOCK k (sb (ic s)) = b")
    case True
    then have "k div IPB = inum div IPB" using assms(3) by (simp add: IBLOCK_def)
    then have "k mod IPB \<noteq> inum mod IPB" using False by (metis div_mult_mod_eq)
    then show ?thesis using assms True False by (simp add: stored_def get_put_dinode_other)
  qed (use False assms in \<open>simp add: stored_def\<close>)
qed

lemma write_below:
  assumes "fs_ok v B n" "c < data_start v" "\<And>b. b < sb_size v \<Longrightarrow> c \<noteq> BBLOCK b v" "length d = BSIZE"
  shows "fs_ok v (B(c := d)) n" "b < sb_size v \<Longrightarrow> marked v (B(c := d)) b = marked v B b"
proof -
  show m: "b < sb_size v \<Longrightarrow> marked v (B(c := d)) b = marked v B b" for b using assms(3) by (auto simp: marked_def)
  show "fs_ok v (B(c := d)) n" using assms m unfolding fs_ok_def by auto
qed

text \<open>C18: Inodes survive the disk. Writing an inode back with \<open>iupdate\<close> and loading it into a cache entry (the first lock of \<open>ilock\<close>) gives
  the same type, device numbers, link count, size and addresses; no other inode, no other cache entry and no other block changes.\<close>

theorem iupdate_iload:
  assumes "alone p {} s" "fs_ok (sb (ic s)) (blk s) (length (disk s))" "1 \<le> lg_outstanding (lg s)" "card (logged (lg s)) < LOGSIZE - 2"
    and "jp < length (inodes (ic s))" "i_dev (inodes (ic s) ! ip) = ROOTDEV" "i_dev (inodes (ic s) ! jp) = ROOTDEV"
    and "i_inum (inodes (ic s) ! jp) = i_inum (inodes (ic s) ! ip)" "inum = i_inum (inodes (ic s) ! ip)"
    and "dinode_wf (dinode_of (inodes (ic s) ! ip))" "i_type (inodes (ic s) ! ip) \<noteq> 0"
    and "IBLOCK inum (sb (ic s)) < data_start (sb (ic s))" "\<And>b. b < sb_size (sb (ic s)) \<Longrightarrow> IBLOCK inum (sb (ic s)) \<noteq> BBLOCK b (sb (ic s))"
  shows "wp (kthen (iupdate ip) (iload jp)) (\<lambda>_ t. dinode_of (inodes (ic t) ! jp) = dinode_of (inodes (ic s) ! ip) \<and> i_valid (inodes (ic t) ! jp)
      \<and> (\<forall>k. k \<noteq> jp \<longrightarrow> inodes (ic t) ! k = inodes (ic s) ! k) \<and> (\<forall>k. k \<noteq> inum \<longrightarrow> stored k t = stored k s)
      \<and> (\<forall>b. b \<noteq> IBLOCK inum (sb (ic s)) \<longrightarrow> blk t b = blk s b)) s"
proof -
  let ?v = "sb (ic s)" and ?n = "inodes (ic s) ! ip"
  let ?b = "IBLOCK inum ?v"
  let ?d = "put_dinode inum (dinode_of ?n) (blk s ?b)"
  have b: "?b < sb_size ?v" "length (blk s ?b) = BSIZE" using assms(2,12) by (auto simp: fs_ok_def data_start_def)
  have "wp (iupdate ip) (\<lambda>_. tx_step p {} s ((blk s)(?b := ?d)) (insert ?b (logged (lg s)))) s"
    using iupdate_ok [OF assms(1,2) refl assms(6,10) refl] b(1) assms(3,4,9) by simp
  then show ?thesis
    unfolding wp_kthen
  proof (rule wp_mono)
    fix x t assume st: "tx_step p {} s ((blk s)(?b := ?d)) (insert ?b (logged (lg s))) t"
    note f = step_frame [OF st assms(5)]
    have sd: "stored k t = (if k = inum then dinode_of ?n else stored k s)" for k
      by (rule stored_write [where b = ?b]) (use f b assms(10) in simp_all)
    have fs: "fs_ok (sb (ic t)) (blk t) (length (disk t))"
      using write_below(1) [OF assms(2,12,13)] f length_put_dinode [OF b(2) assms(10)] by simp
    have room: "card (logged (lg t)) < NBUF" using assms(4) f(4) by (simp add: card_insert_if)
    have "wp (iload jp) (\<lambda>_ u. alone p {} u \<and> ic u = (ic t)\<lparr>inodes := (inodes (ic t))[jp := load_inode (stored inum t) (inodes (ic t) ! jp)]\<rparr>
      \<and> blk u = blk t \<and> logged (lg u) = logged (lg t) \<and> disk u = disk t) t"
      using iload_ok [OF f(5) fs, of jp "inodes (ic t) ! jp"] f(2) sd b(1) room assms by (simp add: dinode_of_def)
    then show "wp (iload jp) (\<lambda>_ t. dinode_of (inodes (ic t) ! jp) = dinode_of ?n \<and> i_valid (inodes (ic t) ! jp)
      \<and> (\<forall>k. k \<noteq> jp \<longrightarrow> inodes (ic t) ! k = inodes (ic s) ! k) \<and> (\<forall>k. k \<noteq> inum \<longrightarrow> stored k t = stored k s)
      \<and> (\<forall>b. b \<noteq> ?b \<longrightarrow> blk t b = blk s b)) t"
    proof (rule wp_mono, elim conjE)
      fix u assume u: "ic u = (ic t)\<lparr>inodes := (inodes (ic t))[jp := load_inode (stored inum t) (inodes (ic t) ! jp)]\<rparr>" "blk u = blk t"
      have "stored k u = stored k t" for k by (simp add: stored_def u)
      moreover have "dinode_of (load_inode (dinode_of m) m') = dinode_of m" "i_valid (load_inode di m')" for m m' di
        by (simp_all add: dinode_of_def load_inode_def)
      ultimately show "dinode_of (inodes (ic u) ! jp) = dinode_of ?n \<and> i_valid (inodes (ic u) ! jp)
        \<and> (\<forall>k. k \<noteq> jp \<longrightarrow> inodes (ic u) ! k = inodes (ic s) ! k) \<and> (\<forall>k. k \<noteq> inum \<longrightarrow> stored k u = stored k s) \<and> (\<forall>b. b \<noteq> ?b \<longrightarrow> blk u b = blk s b)"
        using assms(5) by (simp add: u sd f)
    qed
  qed
qed

lemma file_machine_inode:
  "inodes (ic file_machine) ! 0 = \<lparr>i_dev = ROOTDEV, i_inum = 2, i_ref = 1, i_valid = True, i_type = T_FILE, i_major = 0, i_minor = 0, i_nlink = 1, i_size = 0, i_addrs = replicate 13 0\<rparr>"
  "sb (ic file_machine) = \<lparr>sb_size = 40, sb_nblocks = 5, sb_ninodes = 16, sb_nlog = 30, sb_logstart = 2, sb_inodestart = 32, sb_bmapstart = 34\<rparr>"
  "length (inodes (ic file_machine)) = 50"
  by (simp_all add: file_machine_def fs_machine_def machine_def)

theorem iupdate_iload_witness:
  "wp (kthen (iupdate 0) (iload 0)) (\<lambda>_ t. i_type (inodes (ic t) ! 0) = T_FILE \<and> i_nlink (inodes (ic t) ! 0) = 1 \<and> i_addrs (inodes (ic t) ! 0) = replicate 13 0
     \<and> stored 3 t = stored 3 file_machine) file_machine"
proof -
  have "IBLOCK 2 (sb (ic file_machine)) = 32" "data_start (sb (ic file_machine)) = 35" "\<And>b. BBLOCK b (sb (ic file_machine)) \<noteq> 32"
    by (simp_all add: file_machine_inode IBLOCK_def BBLOCK_def data_start_def)
  then show ?thesis
    by (intro wp_mono [OF iupdate_iload [of 0 file_machine 0 0 2]])
      (use readyD [OF file_machine_ready(1)] file_machine_ready in \<open>auto simp: file_machine_inode dinode_of_def dinode_wf_def short_range_def\<close>)
qed

end
