(* ===== verification/FileData.thy ===== *)
theory FileData
  imports DiskInode Fs
begin

text \<open>
  Reading and writing of files (\<open>readi\<close>, \<open>writei\<close>, \<open>iupdate\<close> and the loading of an inode in \<open>fs.c\<close>) as operations on a sequence of
  bytes: a read returns the bytes of the file at its offset, a write replaces them and extends the file, whatever mix of direct and
  indirect blocks they lie in.
\<close>

section \<open>Contents\<close>

definition fbyte :: "(nat \<Rightarrow> uchar list) \<Rightarrow> nat list \<Rightarrow> nat \<Rightarrow> uchar" where
  "fbyte B A i = fblock B A (i div BSIZE) ! (i mod BSIZE)"

definition fbytes :: "(nat \<Rightarrow> uchar list) \<Rightarrow> nat list \<Rightarrow> nat \<Rightarrow> nat \<Rightarrow> uchar list" where
  "fbytes B A off n = map (fbyte B A) [off..<off + n]"

text \<open>A regular file or directory without holes.\<close>

definition fsize :: "nat \<Rightarrow> 'a kstate_scheme \<Rightarrow> nat" where
  "fsize ip s = i_size (inodes (ic s) ! ip)"

definition file_ok :: "nat \<Rightarrow> nat \<Rightarrow> 'a kstate_scheme \<Rightarrow> bool" where
  "file_ok p ip s \<longleftrightarrow> ready p ip s \<and> i_type (inodes (ic s) ! ip) \<noteq> T_DEV \<and> fsize ip s \<le> MAXFILE * BSIZE
     \<and> (\<forall>bn. bn * BSIZE < fsize ip s \<longrightarrow> ptr (blk s) (faddrs ip s) (bpath bn) \<noteq> 0)"

text \<open>What a write takes from its source at position \<open>k\<close>; nothing when part of it is not mapped.\<close>

definition src_bytes :: "ksrc \<Rightarrow> nat \<Rightarrow> nat \<Rightarrow> 'a kstate_scheme \<Rightarrow> uchar list option" where
  "src_bytes src k n s =
     (case src of
        FromBuf bs \<Rightarrow> Some (slice k n bs)
      | FromVa a \<Rightarrow>
        (let bs = map (\<lambda>i. map_option (mem (mm s)) (kva False s (a + of_nat k + of_nat i))) [0..<n]
         in if None \<in> set bs then None else Some (map the bs)))"

text \<open>Block \<open>c\<close> belongs to the tree.\<close>

definition owned :: "(nat \<Rightarrow> uchar list) \<Rightarrow> nat list \<Rightarrow> nat \<Rightarrow> bool" where
  "owned B A c \<longleftrightarrow> (\<exists>q. valid_pos q \<and> ptr B A q = c \<and> c \<noteq> 0)"

text \<open>From \<open>(B, A)\<close> to \<open>(B', A')\<close> only this file has been edited: it keeps its blocks, new ones were free, and every other block in use
  keeps its contents.\<close>

definition edits :: "superblock \<Rightarrow> (nat \<Rightarrow> uchar list) \<Rightarrow> nat list \<Rightarrow> (nat \<Rightarrow> uchar list) \<Rightarrow> nat list \<Rightarrow> bool" where
  "edits v B A B' A' \<longleftrightarrow>
     (\<forall>q. valid_pos q \<longrightarrow> ptr B A q \<noteq> 0 \<longrightarrow> ptr B' A' q = ptr B A q)
     \<and> (\<forall>q. valid_pos q \<longrightarrow> ptr B A q = 0 \<longrightarrow> ptr B' A' q \<noteq> 0 \<longrightarrow> \<not> marked v B (ptr B' A' q))
     \<and> (\<forall>c < sb_size v. data_start v \<le> c \<longrightarrow> marked v B c \<longrightarrow> \<not> owned B A c \<longrightarrow> B' c = B c)
     \<and> (\<forall>c < data_start v. (\<forall>b < sb_size v. c \<noteq> BBLOCK b v) \<longrightarrow> B' c = B c)
     \<and> (\<forall>c < sb_size v. marked v B c \<longrightarrow> marked v B' c)"

definition edited :: "nat \<Rightarrow> nat \<Rightarrow> 'a kstate_scheme \<Rightarrow> 'a kstate_scheme \<Rightarrow> bool" where
  "edited p ip s t \<longleftrightarrow> ready p ip t \<and> ino_frame p ip s t \<and> fsize ip t = fsize ip s
     \<and> edits (sb (ic s)) (blk s) (faddrs ip s) (blk t) (faddrs ip t) \<and> logged (lg s) \<subseteq> logged (lg t)"

text \<open>The number of blocks a write of \<open>n\<close> bytes touches.\<close>

definition nchunks :: "nat \<Rightarrow> nat \<Rightarrow> nat" where
  "nchunks off n = (if n = 0 then 0 else Suc ((off + n - 1) div BSIZE - off div BSIZE))"

definition chunk_done :: "nat \<Rightarrow> nat \<Rightarrow> 'a kstate_scheme \<Rightarrow> nat \<Rightarrow> uchar list \<Rightarrow> 'a kstate_scheme \<Rightarrow> bool" where
  "chunk_done p ip s off bs t \<longleftrightarrow> edited p ip s t \<and> ptr (blk t) (faddrs ip t) (bpath (off div BSIZE)) \<noteq> 0
     \<and> (\<forall>bn < MAXFILE. fblock (blk t) (faddrs ip t) bn = (if bn = off div BSIZE then splice (off mod BSIZE) bs (fblock (blk s) (faddrs ip s) bn) else fblock (blk s) (faddrs ip s) bn))
     \<and> nfree s \<le> nfree t + 4 \<and> card (logged (lg t)) \<le> card (logged (lg s)) + 9
     \<and> (ptr (blk s) (faddrs ip s) (bpath (off div BSIZE)) \<noteq> 0 \<longrightarrow> faddrs ip t = faddrs ip s)"

definition contents :: "nat \<Rightarrow> 'a kstate_scheme \<Rightarrow> uchar list" where
  "contents ip s = fbytes (blk s) (faddrs ip s) 0 (fsize ip s)"

text \<open>The copy on the disk agrees with the inode in memory.\<close>

definition saved :: "nat \<Rightarrow> 'a kstate_scheme \<Rightarrow> bool" where
  "saved ip s \<longleftrightarrow> stored (i_inum (inodes (ic s) ! ip)) s = dinode_of (inodes (ic s) ! ip)"

text \<open>The block of an inode is neither a data block nor part of the bit map.\<close>

definition inode_block :: "superblock \<Rightarrow> nat \<Rightarrow> bool" where
  "inode_block v inum \<longleftrightarrow> IBLOCK inum v < data_start v \<and> (\<forall>b < sb_size v. IBLOCK inum v \<noteq> BBLOCK b v)"

text \<open>What a write leaves behind.\<close>

definition wrote_bytes :: "nat \<Rightarrow> nat \<Rightarrow> 'a kstate_scheme \<Rightarrow> nat \<Rightarrow> uchar list \<Rightarrow> 'a kstate_scheme \<Rightarrow> bool" where
  "wrote_bytes p ip s off bs t \<longleftrightarrow> file_ok p ip t \<and> fsize ip t = max (fsize ip s) (off + length bs) \<and> contents ip t = splice off bs (contents ip s)
     \<and> (saved ip s \<longrightarrow> saved ip t)
     \<and> (\<forall>k. k \<noteq> i_inum (inodes (ic s) ! ip) \<longrightarrow> inode_block (sb (ic s)) k \<longrightarrow> stored k t = stored k s)
     \<and> (\<forall>c < sb_size (sb (ic s)). data_start (sb (ic s)) \<le> c \<longrightarrow> marked (sb (ic s)) (blk s) c \<longrightarrow> \<not> owned (blk s) (faddrs ip s) c \<longrightarrow> blk t c = blk s c)"

lemma wp_get_at: "src_bytes src k n s = Some bs \<Longrightarrow> P bs s \<Longrightarrow> wp (get_at src k n) P s"
  by (cases src) (auto simp: src_bytes_def get_at_def vread_def wps Let_def split: if_splits)

lemma src_bytes_cong:
  assumes "mm t = mm s" "cr3 (pt t) = cr3 (pt s)"
  shows "src_bytes src k n t = src_bytes src k n s"
proof -
  have k: "kva False t = kva False s" unfolding kva_def assms ..
  show ?thesis unfolding src_bytes_def assms k ..
qed

lemma length_fblock:
  assumes "ready p ip s" "bn < MAXFILE"
  shows "length (fblock (blk s) (faddrs ip s) bn) = BSIZE"
proof -
  note s = readyD [OF assms(1)]
  have v: "valid_pos (bpath bn)" using bpath_data [OF assms(2)] data_pos_valid by blast
  show ?thesis
    using tree_okD(2) [OF s(6) v] s(2) by (auto simp: fblock_def Let_def fs_ok_def)
qed

lemma chunk_props:
  assumes "0 < n"
  shows "0 < chunk off n" "chunk off n \<le> n" "off mod BSIZE + chunk off n \<le> BSIZE" "i < chunk off n \<Longrightarrow> (off + i) div BSIZE = off div BSIZE"
    "i < chunk off n \<Longrightarrow> (off + i) mod BSIZE = off mod BSIZE + i"
proof -
  have m: "off mod BSIZE < BSIZE" by simp
  show "0 < chunk off n" "chunk off n \<le> n" "off mod BSIZE + chunk off n \<le> BSIZE" using assms m by (auto simp: chunk_def)
  assume i: "i < chunk off n"
  then have l: "off mod BSIZE + i < BSIZE" using m unfolding chunk_def by linarith
  have e: "off + i = BSIZE * (off div BSIZE) + (off mod BSIZE + i)" by simp
  show "(off + i) div BSIZE = off div BSIZE" using l by (subst e) (simp only: div_mult_self4 div_less add_0_right)
  show "(off + i) mod BSIZE = off mod BSIZE + i" using l by (subst e) (simp only: mod_mult_self4 mod_less)
qed

lemma fbytes_chunk:
  assumes "0 < n" "length (fblock B A (off div BSIZE)) = BSIZE"
  shows "fbytes B A off n = slice (off mod BSIZE) (chunk off n) (fblock B A (off div BSIZE)) @ fbytes B A (off + chunk off n) (n - chunk off n)"
proof -
  note c = chunk_props [OF assms(1), of off]
  have "[off..<off + n] = [off..<off + chunk off n] @ [off + chunk off n..<off + n]" using c(2) upt_add_eq_append [of off "off + chunk off n" "n - chunk off n"] by simp
  moreover have "map (fbyte B A) [off..<off + chunk off n] = slice (off mod BSIZE) (chunk off n) (fblock B A (off div BSIZE))"
    by (rule nth_equalityI) (use c(1-3) chunk_props(4,5) [OF assms(1)] assms(2) in \<open>simp_all add: nth_slice fbyte_def\<close>)
  moreover have "off + chunk off n + (n - chunk off n) = off + n" using c(2) by simp
  ultimately show ?thesis by (simp add: fbytes_def)
qed

section \<open>Reading\<close>

lemma kwalk_old:
  assumes "ready p ip s" "valid_pos (k, pre @ js)" "ptr (blk s) (faddrs ip s) (k, pre) = a" "ptr (blk s) (faddrs ip s) (k, pre @ js) \<noteq> 0"
    and "card (logged (lg s)) < NBUF"
  shows "wp (kwalk ROOTDEV a js) (\<lambda>b t. b = ptr (blk s) (faddrs ip s) (k, pre @ js) \<and> tx_step p {} s (blk s) (logged (lg s)) t) s"
  using assms
proof (induction js arbitrary: s pre a)
  case Nil
  then show ?case using tx_step_refl [OF readyD(1) [OF Nil.prems(1)]] by (simp add: wps)
next
  case (Cons j js)
  let ?B = "blk s" and ?A = "faddrs ip s" and ?X = "logged (lg s)"
  note s = readyD [OF Cons.prems(1)]
  have pos: "valid_pos (k, pre @ [j])" "valid_pos (k, pre)" using Cons.prems(2) by (auto simp: valid_pos_def)
  have w0: "walk ?B 0 xs = 0" for xs by (cases xs) auto
  have wa: "walk ?B c (xs @ ys) = walk ?B (walk ?B c xs) ys" for c xs ys by (induction xs arbitrary: c) (auto simp: w0)
  have nz: "a \<noteq> 0" "get32 (?B a) (4 * j) \<noteq> 0" using Cons.prems(3,4) by (auto simp: ptr_def wa w0 simp del: neq0_conv split: if_splits intro!: gr0I)
  have an: "a < length (disk s)" using tree_okD(2) [OF s(6) pos(2)] Cons.prems(3) nz(1) s(2) by (auto simp: fs_ok_def)
  show ?case
    unfolding kwalk.simps wp_kbind
  proof (rule wp_mono [OF ind_slot_old [OF s(1) an Cons.prems(5) nz(2)]], elim conjE)
    fix b t assume b: "b = get32 (?B a) (4 * j)" and st: "tx_step p {} s ?B ?X t"
    note f = step_frame [OF st s(4)]
    have rt: "ready p ip t" using Cons.prems(1) f by (simp add: ready_def faddrs_def)
    have A: "faddrs ip t = ?A" by (simp add: faddrs_def f)
    have pb: "ptr (blk t) (faddrs ip t) (k, pre @ [j]) = b" using Cons.prems(3) nz(1) b by (simp add: ptr_snoc f A)
    have "wp (kwalk ROOTDEV b js) (\<lambda>c u. c = ptr (blk t) (faddrs ip t) (k, (pre @ [j]) @ js) \<and> tx_step p {} t (blk t) (logged (lg t)) u) t"
      by (rule Cons.IH [OF rt _ pb]) (use Cons.prems(2,4,5) in \<open>simp_all add: f A\<close>)
    then show "wp (kwalk ROOTDEV b js) (\<lambda>c u. c = ptr ?B ?A (k, pre @ j # js) \<and> tx_step p {} s ?B ?X u) t"
      by (rule wp_mono) (use tx_step_trans [OF st] in \<open>simp add: f A\<close>)
  qed
qed

lemma bmap_old:
  assumes "ready p ip s" "bn < MAXFILE" "ptr (blk s) (faddrs ip s) (bpath bn) \<noteq> 0" "card (logged (lg s)) < NBUF"
  shows "wp (bmap ip bn) (\<lambda>b t. b = ptr (blk s) (faddrs ip s) (bpath bn) \<and> tx_step p {} s (blk s) (logged (lg s)) t) s"
proof -
  obtain k js where kj: "bpath bn = (k, js)" by fastforce
  note s = readyD [OF assms(1)]
  have v: "valid_pos (k, js)" using bpath_data [OF assms(2)] data_pos_valid kj by fastforce
  have w0: "walk B 0 xs = 0" for B xs by (cases xs) auto
  have "faddrs ip s ! k \<noteq> 0" using assms(3) kj by (metis ptr_def case_prod_conv w0)
  then have slot: "wp (addr_slot ip k) P s \<longleftrightarrow> P (faddrs ip s ! k) s" for P
    by (simp add: addr_slot_def get_ip_def wps faddrs_def)
  show ?thesis
    unfolding bmap_walk [OF assms(2)] kj prod.case slot s(5)
    using kwalk_old [OF assms(1), of k "[]" js "faddrs ip s ! k"] v assms(3,4) kj by (simp add: ptr_Nil)
qed

lemma readi_loop_ok:
  assumes "ready p ip s" "off + n \<le> MAXFILE * BSIZE" "card (logged (lg s)) < NBUF"
    and "\<And>bn. off < (bn + 1) * BSIZE \<Longrightarrow> bn * BSIZE < off + n \<Longrightarrow> ptr (blk s) (faddrs ip s) (bpath bn) \<noteq> 0"
  shows "wp (readi_loop ip ToBuf off n acc) (\<lambda>bs t. bs = acc @ fbytes (blk s) (faddrs ip s) off n \<and> tx_step p {} s (blk s) (logged (lg s)) t) s"
  using assms
proof (induction n arbitrary: s off acc rule: less_induct)
  case (less n)
  let ?B = "blk s" and ?A = "faddrs ip s" and ?X = "logged (lg s)" and ?bn = "off div BSIZE"
  note r = less.prems(1)
  note s = readyD [OF r]
  show ?case
  proof (cases "n = 0")
    case True
    then show ?thesis using tx_step_refl [OF s(1)] by (simp add: readi_loop.simps wps fbytes_def)
  next
    case False
    then have n: "0 < n" by simp
    note c = chunk_props(1-3) [OF n, of off]
    define b where "b = ptr ?B ?A (bpath ?bn)"
    have e: "?bn * BSIZE + off mod BSIZE = off" by simp
    have bn: "?bn < MAXFILE" using less.prems(2) n by (simp add: less_mult_imp_div_less)
    have "off < (?bn + 1) * BSIZE" "?bn * BSIZE < off + n" using e n by (simp_all add: dividend_less_div_times)
    from less.prems(4) [OF this] have nz: "b \<noteq> 0" by (simp add: b_def)
    have bd: "b < length (disk s)"
      using tree_okD(2) [OF s(6) data_pos_valid [OF bpath_data [OF bn]]] nz s(2) by (auto simp: b_def fs_ok_def)
    have fb: "fblock ?B ?A ?bn = ?B b" using nz by (simp add: fblock_def b_def Let_def)
    have split: "fbytes ?B ?A off n = slice (off mod BSIZE) (chunk off n) (?B b) @ fbytes ?B ?A (off + chunk off n) (n - chunk off n)"
      using fbytes_chunk [OF n length_fblock [OF r bn]] fb by simp
    have get: "wp (get_ip ip i_dev) P s \<longleftrightarrow> P ROOTDEV s" for P by (simp add: get_ip_def wps s(5))
    have rest: "wp (readi_loop ip ToBuf (off + chunk off n) (n - chunk off n) acc') (\<lambda>bs u. bs = acc' @ fbytes ?B ?A (off + chunk off n) (n - chunk off n) \<and> tx_step p {} s ?B ?X u) t"
      if st: "tx_step p {} s ?B ?X t" for t acc'
    proof -
      note f = step_frame [OF st s(4)]
      have rt: "ready p ip t" using r f by (simp add: ready_def faddrs_def)
      have A: "faddrs ip t = ?A" by (simp add: faddrs_def f)
      have "wp (readi_loop ip ToBuf (off + chunk off n) (n - chunk off n) acc')
          (\<lambda>bs u. bs = acc' @ fbytes (blk t) (faddrs ip t) (off + chunk off n) (n - chunk off n) \<and> tx_step p {} t (blk t) (logged (lg t)) u) t"
        by (rule less.IH [OF _ rt]) (use less.prems(2-4) c in \<open>simp_all add: f A\<close>)
      then show ?thesis by (rule wp_mono) (use tx_step_trans [OF st] in \<open>simp add: f A\<close>)
    qed
    show ?thesis
      unfolding readi_loop.simps [of ip ToBuf off n] if_not_P [OF False] Let_def wp_kbind wp_kthen get
    proof (rule wp_mono [OF bmap_old [OF r bn _ less.prems(3)]], fold b_def, rule nz, elim conjE)
      fix b' t assume b': "b' = b" and st: "tx_step p {} s ?B ?X t"
      note f = step_frame [OF st s(4)]
      have "wp (bread ROOTDEV b) (\<lambda>i. tx_held p {} t i b (blk t) (logged (lg t))) t"
        by (rule tx_bread) (use f bd less.prems(3) in \<open>simp_all add: not_held_def\<close>)
      then show "wp (bread ROOTDEV b') (\<lambda>bp. wp (get_bdata bp) (\<lambda>d. wp (put_at ToBuf (length acc) (slice (off mod BSIZE) (chunk off n) d))
          (\<lambda>_. wp (brelse bp) (\<lambda>_. wp (readi_loop ip ToBuf (off + chunk off n) (n - chunk off n) (acc @ slice (off mod BSIZE) (chunk off n) d))
          (\<lambda>bs u. bs = acc @ fbytes ?B ?A off n \<and> tx_step p {} s ?B ?X u))))) t"
        unfolding b'
      proof (rule wp_mono)
        fix i u assume h: "tx_held p {} t i b (blk t) (logged (lg t)) u"
        have "wp (brelse i) (\<lambda>_. wp (readi_loop ip ToBuf (off + chunk off n) (n - chunk off n) (acc @ slice (off mod BSIZE) (chunk off n) (?B b)))
          (\<lambda>bs u. bs = acc @ fbytes ?B ?A off n \<and> tx_step p {} s ?B ?X u)) u"
          by (rule wp_mono [OF tx_brelse [OF h]], rule wp_mono [OF rest]) (use tx_step_trans [OF st] in \<open>auto simp: split f\<close>)
        then show "wp (get_bdata i) (\<lambda>d. wp (put_at ToBuf (length acc) (slice (off mod BSIZE) (chunk off n) d))
          (\<lambda>_. wp (brelse i) (\<lambda>_. wp (readi_loop ip ToBuf (off + chunk off n) (n - chunk off n) (acc @ slice (off mod BSIZE) (chunk off n) d))
          (\<lambda>bs u. bs = acc @ fbytes ?B ?A off n \<and> tx_step p {} s ?B ?X u)))) u"
          using tx_held_data(1) [OF h] by (simp add: get_bdata_def put_at_def wps f)
      qed
    qed
  qed
qed

lemma readi_ok:
  assumes "file_ok p ip s" "card (logged (lg s)) < NBUF" "n < 2 ^ 32"
  shows "wp (readi ip ToBuf off n) (\<lambda>r t.
      (if fsize ip s < off \<or> 2 ^ 32 \<le> off + n then r = (-1, []) \<and> t = s
       else r = (int (min n (fsize ip s - off)), fbytes (blk s) (faddrs ip s) off (min n (fsize ip s - off)))
         \<and> tx_step p {} s (blk s) (logged (lg s)) t)) s"
proof -
  note f = assms(1) [unfolded file_ok_def] and s = readyD [of p ip s]
  have r: "ready p ip s" using f by simp
  define z where "z = fsize ip s"
  have z: "z \<le> MAXFILE * BSIZE" "i_size (inodes (ic s) ! ip) = z" using f by (simp_all add: z_def fsize_def)
  have get: "wp (get_ip ip id) P s \<longleftrightarrow> P (inodes (ic s) ! ip) s" for P by (simp add: get_ip_def wps)
  define m where "m = (if off + n > z then z - off else n)"
  show ?thesis
  proof (cases "off > z \<or> (off + n) mod 2 ^ 32 < off")
    case True
    then have "z < off \<or> 2 ^ 32 \<le> off + n" by (metis le_add1 mod_less not_le)
    then show ?thesis unfolding readi_def wp_kbind get using f True by (simp add: wps z(2) flip: z_def)
  next
    case False
    then have off: "off \<le> z" by simp
    have lim: "z < 2 ^ 31" using z(1) by simp
    have fit: "off + n < 2 ^ 32"
    proof (rule ccontr)
      assume "\<not> off + n < 2 ^ 32"
      then have "(off + n) mod 2 ^ 32 = off + n - 2 ^ 32" using off lim assms(3) by (subst le_mod_geq) simp_all
      then show False using False assms(3) \<open>\<not> off + n < 2 ^ 32\<close> by linarith
    qed
    have m: "m = min n (z - off)" "off + m \<le> z" using off by (auto simp: m_def)
    have "wp (readi_loop ip ToBuf off m []) (\<lambda>bs t. bs = [] @ fbytes (blk s) (faddrs ip s) off m \<and> tx_step p {} s (blk s) (logged (lg s)) t) s"
      by (rule readi_loop_ok [OF r _ assms(2)]) (use m z f in \<open>auto simp flip: z_def\<close>)
    moreover have "i32 (int m) = int m" using m(2) lim by (intro i32_id) (simp add: int_range_def)
    moreover have ty: "i_type (inodes (ic s) ! ip) \<noteq> T_DEV" and ok: "\<not> (fsize ip s < off \<or> 2 ^ 32 \<le> off + n)" using f off fit by (simp_all add: z_def)
    ultimately show ?thesis
      unfolding readi_def wp_kbind get z(2) if_not_P [OF ty] if_not_P [OF False] if_not_P [OF ok] Let_def
      unfolding z_def [symmetric] m_def [symmetric] m(1) [symmetric]
      by (elim wp_mono) (simp add: wps)
  qed
qed

section \<open>Writing\<close>

lemma editsD:
  assumes "edits v B A B' A'"
  shows "valid_pos q \<Longrightarrow> ptr B A q \<noteq> 0 \<Longrightarrow> ptr B' A' q = ptr B A q"
    "valid_pos q \<Longrightarrow> ptr B A q = 0 \<Longrightarrow> ptr B' A' q \<noteq> 0 \<Longrightarrow> \<not> marked v B (ptr B' A' q)"
    "c < sb_size v \<Longrightarrow> data_start v \<le> c \<Longrightarrow> marked v B c \<Longrightarrow> \<not> owned B A c \<Longrightarrow> B' c = B c"
    "c < data_start v \<Longrightarrow> (\<And>b. b < sb_size v \<Longrightarrow> c \<noteq> BBLOCK b v) \<Longrightarrow> B' c = B c"
    "c < sb_size v \<Longrightarrow> marked v B c \<Longrightarrow> marked v B' c"
  using assms unfolding edits_def by blast+

lemma edits_refl: "edits v B A B A"
  by (simp add: edits_def)

lemma edits_owned: "edits v B A B' A' \<Longrightarrow> owned B' A' c \<Longrightarrow> marked v B c \<Longrightarrow> owned B A c"
  unfolding owned_def by (metis editsD(1,2))

lemma edits_trans:
  assumes ok: "tree_ok v B'' A''" and e: "edits v B A B' A'" "edits v B' A' B'' A''"
  shows "edits v B A B'' A''"
  unfolding edits_def
proof (intro conjI allI impI)
  fix q assume q: "valid_pos q" "ptr B A q \<noteq> 0"
  then show "ptr B'' A'' q = ptr B A q" using editsD(1) [OF e(1)] editsD(1) [OF e(2)] by metis
next
  fix q assume q: "valid_pos q" "ptr B A q = 0" "ptr B'' A'' q \<noteq> 0"
  then have l: "ptr B'' A'' q < sb_size v" using tree_okD(2) [OF ok] by blast
  show "\<not> marked v B (ptr B'' A'' q)"
    using editsD(1,2) [OF e(2) q(1)] editsD(2) [OF e(1) q(1,2)] editsD(5) [OF e(1) l] q(3) by metis
next
  fix c assume "c < sb_size v" "data_start v \<le> c" "marked v B c" "\<not> owned B A c"
  then show "B'' c = B c" using editsD(3) [OF e(1)] editsD(3) [OF e(2)] editsD(5) [OF e(1)] edits_owned [OF e(1)] by metis
next
  fix c assume "c < data_start v" "\<forall>b < sb_size v. c \<noteq> BBLOCK b v"
  then show "B'' c = B c" using editsD(4) [OF e(1)] editsD(4) [OF e(2)] by metis
next
  fix c assume "c < sb_size v" "marked v B c"
  then show "marked v B'' c" using editsD(5) [OF e(1)] editsD(5) [OF e(2)] by blast
qed

lemma grows_edits: "grows v B A B' A' \<Longrightarrow> edits v B A B' A'"
  using growsD [of v B A B' A'] unfolding edits_def inner_def owned_def by blast

lemma write_edits:
  assumes ok: "tree_ok v B A" and fs: "fs_ok v B n" and q: "data_pos q" "ptr B A q = r" "r \<noteq> 0" and d: "length d = BSIZE"
  shows "edits v B A (B(r := d)) A"
proof -
  have vq: "valid_pos q" by (rule data_pos_valid [OF q(1)])
  have r: "data_start v \<le> r" "r < sb_size v" "owned B A r" using tree_okD(2) [OF ok vq] q vq unfolding owned_def by blast+
  note w = tree_write [OF ok fs q d]
  show ?thesis unfolding edits_def using w(3,5) r by auto
qed

lemma edited_refl: "ready p ip s \<Longrightarrow> edited p ip s s"
  using readyD [of p ip s] by (simp add: edited_def edits_refl ino_frame_refl aloneD)

lemma edited_trans:
  assumes "ready p ip s" "edited p ip s t" "edited p ip t u"
  shows "edited p ip s u"
proof -
  note s = readyD [OF assms(1)]
  have t: "ino_frame p ip s t" and u: "ready p ip u" "ino_frame p ip t u" using assms(2,3) by (auto simp: edited_def)
  note fu = ino_frame_trans [OF t u(2) s(4)] and tp = ino_frame_props [OF t s(4)]
  note up = ino_frame_props [OF fu s(4)]
  have "edits (sb (ic s)) (blk s) (faddrs ip s) (blk u) (faddrs ip u)"
    by (rule edits_trans [of _ _ _ _ _ "blk t" "faddrs ip t"]) (use readyD(6) [OF u(1)] assms(2,3) tp(1) up(1) in \<open>simp_all add: edited_def\<close>)
  then show ?thesis using assms(2,3) fu u(1) by (auto simp: edited_def)
qed

lemma grown_edited: "grown p ip s t \<Longrightarrow> edited p ip s t"
  by (simp add: grown_def edited_def grows_edits fsize_def)

lemma ino_frame_cr3: "ino_frame p ip s t \<Longrightarrow> cr3 (pt t) = cr3 (pt s)"
proof -
  assume "ino_frame p ip s t"
  then have "(pt s)\<lparr>procs := procs (pt t)\<rparr> = pt t" by (simp add: ino_frame_def tx_frame_def keeps_def only_wakes_def)
  from arg_cong [OF this, of cr3] show ?thesis by simp
qed

lemma step_edited:
  assumes r: "ready p ip s" and st: "tx_step p {} s B X t" and "tree_ok (sb (ic s)) B (faddrs ip s)" "fs_ok (sb (ic s)) B (length (disk s))"
    "edits (sb (ic s)) (blk s) (faddrs ip s) B (faddrs ip s)" "logged (lg s) \<subseteq> X"
  shows "edited p ip s t" "faddrs ip t = faddrs ip s" "blk t = B" "logged (lg t) = X"
proof -
  note s = readyD [OF r]
  note f = step_frame [OF st s(4)]
  show "faddrs ip t = faddrs ip s" "blk t = B" "logged (lg t) = X" using f by (simp_all add: faddrs_def)
  then show "edited p ip s t" using f assms r by (simp add: edited_def ready_def fsize_def)
qed

lemma nfree_eq:
  assumes "sb (ic t) = sb (ic s)" "\<And>c. c < sb_size (sb (ic s)) \<Longrightarrow> marked (sb (ic s)) (blk t) c = marked (sb (ic s)) (blk s) c"
  shows "nfree t = nfree s"
  unfolding nfree_def assms(1) using assms(2) by (intro arg_cong [of _ _ card]) auto

lemma put_chunk:
  assumes r: "ready p ip t" and op: "1 \<le> lg_outstanding (lg t)" and bn: "off div BSIZE < MAXFILE"
    and b: "ptr (blk t) (faddrs ip t) (bpath (off div BSIZE)) = b" "b \<noteq> 0"
    and room: "card (logged (lg t)) < LOGSIZE - 1" and src: "src_bytes src k m t = Some bs" and fit: "off mod BSIZE + length bs \<le> BSIZE"
    and post: "\<And>u. edited p ip t u \<Longrightarrow> ptr (blk u) (faddrs ip u) (bpath (off div BSIZE)) = b
      \<Longrightarrow> (\<And>bn. bn < MAXFILE \<Longrightarrow> fblock (blk u) (faddrs ip u) bn = (if bn = off div BSIZE then splice (off mod BSIZE) bs (fblock (blk t) (faddrs ip t) bn) else fblock (blk t) (faddrs ip t) bn))
      \<Longrightarrow> nfree u = nfree t \<Longrightarrow> card (logged (lg u)) \<le> card (logged (lg t)) + 1 \<Longrightarrow> faddrs ip u = faddrs ip t \<Longrightarrow> wp rest Q u"
  shows "wp (kbind (bread ROOTDEV b) (\<lambda>bp. kbind (get_at src k m) (\<lambda>bs. kthen (set_bdata bp (splice (off mod BSIZE) bs)) (kthen (log_write bp) (kthen (brelse bp) rest))))) Q t"
proof -
  let ?B = "blk t" and ?A = "faddrs ip t" and ?X = "logged (lg t)" and ?v = "sb (ic t)" and ?f = "splice (off mod BSIZE) bs"
  note t = readyD [OF r]
  have dp: "data_pos (bpath (off div BSIZE))" by (rule bpath_data [OF bn])
  have bd: "b < length (disk t)" "length (?B b) = BSIZE" using tree_okD(2) [OF t(6) data_pos_valid [OF dp]] b t(2) by (auto simp: fs_ok_def)
  have ld: "length (?f (?B b)) = BSIZE" using fit bd(2) by simp
  note w = tree_write [OF t(6,2) dp b ld] and ed = write_edits [OF t(6,2) dp b ld]
  have fin: "wp rest Q u" if st: "tx_step p {} t (?B(b := ?f (?B b))) (insert b ?X) u" for u
  proof -
    note e = step_edited [OF r st w(1,2) ed subset_insertI]
    have i: "ic u = ic t" using tx_step_kernel(3) [OF st] .
    have fb: "fblock ?B ?A (off div BSIZE) = ?B b" using b by (simp add: fblock_def Let_def)
    show ?thesis
    proof (rule post [OF e(1)])
      show "ptr (blk u) (faddrs ip u) (bpath (off div BSIZE)) = b" using w(3) [OF data_pos_valid [OF dp]] b e by simp
      show "fblock (blk u) (faddrs ip u) c = (if c = off div BSIZE then ?f (fblock ?B ?A c) else fblock ?B ?A c)" if "c < MAXFILE" for c
        using w(4) [OF that] bpath_inj [of c "off div BSIZE"] fb unfolding e(2,3) by auto
      show "nfree u = nfree t" by (rule nfree_eq) (use w(5) e i in simp_all)
      show "card (logged (lg u)) \<le> card ?X + 1" using card_insert_le_m1 e(4) by (simp add: card_insert_if)
      show "faddrs ip u = ?A" by (rule e(2))
    qed
  qed
  show ?thesis
    unfolding wp_kbind
  proof (rule wp_mono [OF tx_bread [OF t(1) bd(1)]])
    fix i u assume h: "tx_held p {} t i b ?B ?X u"
    have "(pt t)\<lparr>procs := procs (pt u)\<rparr> = pt u" using h by (simp add: tx_held_def tx_frame_def keeps_def only_wakes_def)
    from arg_cong [OF this, of cr3] have "src_bytes src k m u = Some bs" using src src_bytes_cong [OF tx_held_kernel(2) [OF h]] by simp
    then show "wp (get_at src k m) (\<lambda>bs. wp (kthen (set_bdata i (splice (off mod BSIZE) bs)) (kthen (log_write i) (kthen (brelse i) rest))) Q) u"
    proof (rule wp_get_at)
      show "wp (kthen (set_bdata i ?f) (kthen (log_write i) (kthen (brelse i) rest))) Q u"
        unfolding wp_kthen wp_set_bdata
        by (rule wp_mono [OF tx_update [OF h, where f = ?f]]) (use ld room op in \<open>auto intro: wp_mono [OF tx_brelse] fin\<close>)
    qed
  qed (use room in \<open>simp_all add: not_held_def\<close>)
qed

lemma write_chunk:
  assumes r: "ready p ip s" and op: "1 \<le> lg_outstanding (lg s)" and bn: "off div BSIZE < MAXFILE" and room: "card (logged (lg s)) \<le> LOGSIZE - 10" and free: "4 \<le> nfree s"
    and src: "src_bytes src k m s = Some bs" and fit: "off mod BSIZE + length bs \<le> BSIZE"
    and post: "\<And>u. chunk_done p ip s off bs u \<Longrightarrow> wp rest Q u"
  shows "wp (kbind (bmap ip (off div BSIZE)) (\<lambda>b. kbind (bread ROOTDEV b) (\<lambda>bp. kbind (get_at src k m) (\<lambda>bs.
      kthen (set_bdata bp (splice (off mod BSIZE) bs)) (kthen (log_write bp) (kthen (brelse bp) rest)))))) Q s"
proof -
  let ?bn = "off div BSIZE" and ?a = "ptr (blk s) (faddrs ip s) (bpath (off div BSIZE))"
  note s = readyD [OF r]
  have d: "data_pos (bpath ?bn)" "valid_pos (bpath ?bn)" using bpath_data [OF bn] data_pos_valid by auto
  have "wp (bmap ip ?bn) (\<lambda>b t. grown p ip s t \<and> b \<noteq> 0 \<and> ptr (blk t) (faddrs ip t) (bpath ?bn) = b \<and> nfree s \<le> nfree t + 4
      \<and> card (logged (lg t)) \<le> card (logged (lg s)) + 8 \<and> (?a \<noteq> 0 \<longrightarrow> faddrs ip t = faddrs ip s)) s"
  proof (cases "?a = 0")
    case True
    show ?thesis by (rule wp_mono [OF bmap_ok [OF r op bn room free]]) (use True in simp)
  next
    case False
    have c: "card (logged (lg s)) < NBUF" using room by simp
    show ?thesis
    proof (rule wp_mono [OF bmap_old [OF r bn False c]], elim conjE)
      fix b t assume b: "b = ?a" and st: "tx_step p {} s (blk s) (logged (lg s)) t"
      note f = step_frame [OF st s(4)]
      have "faddrs ip t = faddrs ip s" "nfree t = nfree s" by (simp_all add: faddrs_def f nfree_def)
      moreover have "grown p ip s t" using r f calculation by (simp add: grown_def ready_def grows_refl)
      ultimately show "grown p ip s t \<and> b \<noteq> 0 \<and> ptr (blk t) (faddrs ip t) (bpath ?bn) = b \<and> nfree s \<le> nfree t + 4
        \<and> card (logged (lg t)) \<le> card (logged (lg s)) + 8 \<and> (?a \<noteq> 0 \<longrightarrow> faddrs ip t = faddrs ip s)" using b False f by simp
    qed
  qed
  then show ?thesis
    unfolding wp_kbind
  proof (rule wp_mono, elim conjE, fold wp_kbind)
    fix b t assume g: "grown p ip s t" and b: "b \<noteq> 0" "ptr (blk t) (faddrs ip t) (bpath ?bn) = b" and n: "nfree s \<le> nfree t + 4"
      and c: "card (logged (lg t)) \<le> card (logged (lg s)) + 8" and old: "?a \<noteq> 0 \<longrightarrow> faddrs ip t = faddrs ip s"
    have rt: "ready p ip t" and ft: "ino_frame p ip s t" using g by (auto simp: grown_def)
    note tp = ino_frame_props [OF ft s(4)]
    have fb: "fblock (blk t) (faddrs ip t) c = fblock (blk s) (faddrs ip s) c" if "c < MAXFILE" for c
      using grows_fblock [OF s(6) _ _ that] readyD(6) [OF rt] g tp(1) by (simp add: grown_def)
    show "wp (kbind (bread ROOTDEV b) (\<lambda>bp. kbind (get_at src k m) (\<lambda>bs. kthen (set_bdata bp (splice (off mod BSIZE) bs)) (kthen (log_write bp) (kthen (brelse bp) rest))))) Q t"
    proof (rule put_chunk [OF rt _ bn b(2,1) _ _ fit])
      show "1 \<le> lg_outstanding (lg t)" "card (logged (lg t)) < LOGSIZE - 1" using op tp(4) c room by simp_all
      show "src_bytes src k m t = Some bs" using src src_bytes_cong [OF tp(7) ino_frame_cr3 [OF ft]] by simp
      fix u assume u: "edited p ip t u" "ptr (blk u) (faddrs ip u) (bpath ?bn) = b" "nfree u = nfree t" "card (logged (lg u)) \<le> card (logged (lg t)) + 1" "faddrs ip u = faddrs ip t"
        and w: "\<And>c. c < MAXFILE \<Longrightarrow> fblock (blk u) (faddrs ip u) c = (if c = ?bn then splice (off mod BSIZE) bs (fblock (blk t) (faddrs ip t) c) else fblock (blk t) (faddrs ip t) c)"
      show "wp rest Q u"
        by (rule post) (use u b n c old fb w edited_trans [OF r grown_edited [OF g] u(1)] in \<open>simp add: chunk_done_def\<close>)
    qed
  qed
qed

lemma chunk_bytes:
  assumes "chunk_done p ip s off bs t" "ready p ip s" "off mod BSIZE + length bs \<le> BSIZE" "i < MAXFILE * BSIZE"
  shows "fbyte (blk t) (faddrs ip t) i = (if off \<le> i \<and> i < off + length bs then bs ! (i - off) else fbyte (blk s) (faddrs ip s) i)"
proof -
  have bn: "i div BSIZE < MAXFILE" using assms(4) by (simp add: less_mult_imp_div_less)
  have l: "length (fblock (blk s) (faddrs ip s) (i div BSIZE)) = BSIZE" by (rule length_fblock [OF assms(2) bn])
  have w: "fblock (blk t) (faddrs ip t) (i div BSIZE) = (if i div BSIZE = off div BSIZE then splice (off mod BSIZE) bs (fblock (blk s) (faddrs ip s) (i div BSIZE)) else fblock (blk s) (faddrs ip s) (i div BSIZE))"
    using assms(1) bn by (simp add: chunk_done_def)
  have eo: "BSIZE * (off div BSIZE) + off mod BSIZE = off" and ei: "BSIZE * (i div BSIZE) + i mod BSIZE = i" by simp_all
  show ?thesis
  proof (cases "i div BSIZE = off div BSIZE")
    case True
    have "off \<le> i \<longleftrightarrow> off mod BSIZE \<le> i mod BSIZE" "i < off + length bs \<longleftrightarrow> i mod BSIZE < off mod BSIZE + length bs" "i - off = i mod BSIZE - off mod BSIZE"
      using eo ei True by linarith+
    then show ?thesis using w True l assms(3) by (simp add: fbyte_def nth_splice)
  next
    case False
    have "\<not> (off \<le> i \<and> i < off + length bs)"
    proof
      assume i: "off \<le> i \<and> i < off + length bs"
      have "chunk off (length bs) = length bs" using assms(3) by (simp add: chunk_def)
      moreover have "0 < length bs" "i - off < length bs" using i by linarith+
      ultimately have "(off + (i - off)) div BSIZE = off div BSIZE" by (intro chunk_props(4) [of "length bs"]) simp_all
      then show False using False i by simp
    qed
    then show ?thesis using w False by (auto simp: fbyte_def)
  qed
qed

lemma nchunks_step:
  assumes "0 < n"
  shows "nchunks off n = Suc (nchunks (off + chunk off n) (n - chunk off n))"
proof (cases "n \<le> BSIZE - off mod BSIZE")
  case True
  then have c: "chunk off n = n" by (simp add: chunk_def)
  have "(off + (n - 1)) div BSIZE = off div BSIZE" by (rule chunk_props(4) [OF assms]) (use c assms in simp)
  then show ?thesis using assms c by (simp add: nchunks_def)
next
  case False
  then have c: "chunk off n = BSIZE - off mod BSIZE" by (simp add: chunk_def)
  have m: "off mod BSIZE < BSIZE" by simp
  let ?m = "chunk off n"
  have e: "off + ?m = BSIZE * Suc (off div BSIZE)" using m c mult_div_mod_eq [of BSIZE off] by (simp only: mult_Suc_right)
  have d: "(off + ?m) div BSIZE = Suc (off div BSIZE)" unfolding e by simp
  have l: "?m < n" using False c by simp
  then have "Suc (off div BSIZE) \<le> (off + n - 1) div BSIZE" using div_le_mono [of "off + ?m" "off + n - 1" BSIZE] d by linarith
  moreover have "off + ?m + (n - ?m) - 1 = off + n - 1" using l by simp
  ultimately show ?thesis using l assms d unfolding nchunks_def by simp (metis Suc_diff_le diff_Suc_Suc)
qed

lemma src_bytes_slice:
  assumes "src_bytes src 0 n s = Some bs" "k + m \<le> n"
  shows "src_bytes src k m s = Some (slice k m bs)"
proof (cases src)
  case (FromBuf b)
  then show ?thesis using assms by (auto simp: src_bytes_def slice_def min_def take_drop)
next
  case (FromVa a)
  let ?f = "\<lambda>i. map_option (mem (mm s)) (kva False s (a + of_nat i))"
  have e: "map (\<lambda>i. map_option (mem (mm s)) (kva False s (a + of_nat k + of_nat i))) [0..<m] = slice k m (map ?f [0..<n])"
    by (rule nth_equalityI) (use assms(2) in \<open>simp_all add: nth_slice add.assoc\<close>)
  have b: "None \<notin> set (map ?f [0..<n])" "bs = map the (map ?f [0..<n])" using assms(1) FromVa by (auto simp: src_bytes_def Let_def split: if_splits)
  have "None \<notin> set (slice k m (map ?f [0..<n]))" using b(1) unfolding slice_def by (meson in_set_dropD in_set_takeD)
  then show ?thesis using FromVa b(2) by (simp add: src_bytes_def Let_def e) (simp add: slice_def take_map drop_map)
qed

lemma writei_loop_ok:
  assumes "ready p ip s" "1 \<le> lg_outstanding (lg s)" "off + n \<le> MAXFILE * BSIZE" "card (logged (lg s)) + 9 * nchunks off n \<le> LOGSIZE - 1" "4 * nchunks off n \<le> nfree s"
    and "src_bytes src 0 (tot + n) s = Some bs" "length bs = tot + n"
  shows "wp (writei_loop ip src tot off n) (\<lambda>r t. r = off + n \<and> edited p ip s t \<and> card (logged (lg t)) \<le> card (logged (lg s)) + 9 * nchunks off n
      \<and> (\<forall>i < MAXFILE * BSIZE. fbyte (blk t) (faddrs ip t) i = (if off \<le> i \<and> i < off + n then bs ! (tot + (i - off)) else fbyte (blk s) (faddrs ip s) i))
      \<and> (\<forall>i. off \<le> i \<longrightarrow> i < off + n \<longrightarrow> ptr (blk t) (faddrs ip t) (bpath (i div BSIZE)) \<noteq> 0)
      \<and> ((\<forall>i. off \<le> i \<longrightarrow> i < off + n \<longrightarrow> ptr (blk s) (faddrs ip s) (bpath (i div BSIZE)) \<noteq> 0) \<longrightarrow> faddrs ip t = faddrs ip s)) s"
  using assms
proof (induction n arbitrary: s off tot rule: less_induct)
  case (less n)
  note r = less.prems(1)
  note s = readyD [OF r]
  show ?case
  proof (cases "n = 0")
    case True
    then show ?thesis using edited_refl [OF r] by (auto simp: writei_loop.simps wps)
  next
    case False
    then have n: "0 < n" by simp
    define m where "m = chunk off n"
    note c = chunk_props(1-3) [OF n, of off, folded m_def]
    let ?bs = "slice tot m bs"
    have e: "off div BSIZE * BSIZE + off mod BSIZE = off" by simp
    have bn: "off div BSIZE < MAXFILE" using less.prems(3) n by (simp add: less_mult_imp_div_less)
    have nc: "nchunks off n = Suc (nchunks (off + m) (n - m))" unfolding m_def by (rule nchunks_step [OF n])
    have lb: "length ?bs = m" using less.prems(7) c(2) by simp
    have get: "wp (get_ip ip i_dev) P s \<longleftrightarrow> P ROOTDEV s" for P by (simp add: get_ip_def wps s(5))
    show ?thesis
      unfolding writei_loop.simps [of ip src tot off n] if_not_P [OF False] Let_def m_def [symmetric] wp_kbind [of "get_ip ip i_dev"] get
    proof (rule write_chunk [OF r less.prems(2) bn])
      show "card (logged (lg s)) \<le> LOGSIZE - 10" "4 \<le> nfree s" using less.prems(4,5) nc by simp_all
      show "src_bytes src tot m s = Some ?bs" by (rule src_bytes_slice [OF less.prems(6)]) (use c in simp)
      show "off mod BSIZE + length ?bs \<le> BSIZE" using lb c by simp
      fix u assume d: "chunk_done p ip s off ?bs u"
      have eu: "edited p ip s u" and ru: "ready p ip u" and fu: "ino_frame p ip s u" using d by (auto simp: chunk_done_def edited_def)
      note up = ino_frame_props [OF fu s(4)]
      have keep: "ptr (blk t) (faddrs ip t) (bpath (i div BSIZE)) \<noteq> 0"
        if "edited p ip v t" "ptr (blk v) (faddrs ip v) (bpath (i div BSIZE)) \<noteq> 0" "i < off + n" for v t i
      proof -
        have "i div BSIZE < MAXFILE" using less.prems(3) that(3) by (simp add: less_mult_imp_div_less)
        then show ?thesis using that editsD(1) data_pos_valid [OF bpath_data] unfolding edited_def by metis
      qed
      have in1: "i < off + m \<Longrightarrow> off \<le> i \<Longrightarrow> i div BSIZE = off div BSIZE" for i
        using chunk_props(4) [OF n, of "i - off" off] by (simp add: m_def)
      have by1: "fbyte (blk u) (faddrs ip u) i = (if off \<le> i \<and> i < off + m then bs ! (tot + (i - off)) else fbyte (blk s) (faddrs ip s) i)" if "i < MAXFILE * BSIZE" for i
        using chunk_bytes [OF d r _ that] lb c less.prems(7) by (auto simp: nth_slice)
      have "wp (writei_loop ip src (tot + m) (off + m) (n - m)) (\<lambda>r t. r = (off + m) + (n - m) \<and> edited p ip u t \<and> card (logged (lg t)) \<le> card (logged (lg u)) + 9 * nchunks (off + m) (n - m)
        \<and> (\<forall>i < MAXFILE * BSIZE. fbyte (blk t) (faddrs ip t) i = (if off + m \<le> i \<and> i < (off + m) + (n - m) then bs ! ((tot + m) + (i - (off + m))) else fbyte (blk u) (faddrs ip u) i))
        \<and> (\<forall>i. off + m \<le> i \<longrightarrow> i < (off + m) + (n - m) \<longrightarrow> ptr (blk t) (faddrs ip t) (bpath (i div BSIZE)) \<noteq> 0)
        \<and> ((\<forall>i. off + m \<le> i \<longrightarrow> i < (off + m) + (n - m) \<longrightarrow> ptr (blk u) (faddrs ip u) (bpath (i div BSIZE)) \<noteq> 0) \<longrightarrow> faddrs ip t = faddrs ip u)) u"
      proof (rule less.IH [OF _ ru])
        show "n - m < n" "1 \<le> lg_outstanding (lg u)" "off + m + (n - m) \<le> MAXFILE * BSIZE" "length bs = tot + m + (n - m)"
          using c n less.prems(2,3,7) up(4) by simp_all
        show "card (logged (lg u)) + 9 * nchunks (off + m) (n - m) \<le> LOGSIZE - 1" "4 * nchunks (off + m) (n - m) \<le> nfree u"
          using less.prems(4,5) nc d unfolding chunk_done_def by linarith+
        show "src_bytes src 0 (tot + m + (n - m)) u = Some bs"
          using src_bytes_cong [OF up(7) ino_frame_cr3 [OF fu]] less.prems(6) c by simp
      qed
      then show "wp (writei_loop ip src (tot + m) (off + m) (n - m)) (\<lambda>r t. r = off + n \<and> edited p ip s t \<and> card (logged (lg t)) \<le> card (logged (lg s)) + 9 * nchunks off n
        \<and> (\<forall>i < MAXFILE * BSIZE. fbyte (blk t) (faddrs ip t) i = (if off \<le> i \<and> i < off + n then bs ! (tot + (i - off)) else fbyte (blk s) (faddrs ip s) i))
        \<and> (\<forall>i. off \<le> i \<longrightarrow> i < off + n \<longrightarrow> ptr (blk t) (faddrs ip t) (bpath (i div BSIZE)) \<noteq> 0)
        \<and> ((\<forall>i. off \<le> i \<longrightarrow> i < off + n \<longrightarrow> ptr (blk s) (faddrs ip s) (bpath (i div BSIZE)) \<noteq> 0) \<longrightarrow> faddrs ip t = faddrs ip s)) u"
      proof (rule wp_mono, elim conjE, intro conjI allI impI)
        fix x t assume x: "x = (off + m) + (n - m)" and et: "edited p ip u t" and ct: "card (logged (lg t)) \<le> card (logged (lg u)) + 9 * nchunks (off + m) (n - m)"
          and bt: "\<forall>i < MAXFILE * BSIZE. fbyte (blk t) (faddrs ip t) i = (if off + m \<le> i \<and> i < (off + m) + (n - m) then bs ! ((tot + m) + (i - (off + m))) else fbyte (blk u) (faddrs ip u) i)"
          and pt: "\<forall>i. off + m \<le> i \<longrightarrow> i < (off + m) + (n - m) \<longrightarrow> ptr (blk t) (faddrs ip t) (bpath (i div BSIZE)) \<noteq> 0"
          and at: "(\<forall>i. off + m \<le> i \<longrightarrow> i < (off + m) + (n - m) \<longrightarrow> ptr (blk u) (faddrs ip u) (bpath (i div BSIZE)) \<noteq> 0) \<longrightarrow> faddrs ip t = faddrs ip u"
        show "x = off + n" using x c by simp
        show "edited p ip s t" by (rule edited_trans [OF r eu et])
        show "card (logged (lg t)) \<le> card (logged (lg s)) + 9 * nchunks off n" using ct d nc unfolding chunk_done_def by linarith
        show "fbyte (blk t) (faddrs ip t) i = (if off \<le> i \<and> i < off + n then bs ! (tot + (i - off)) else fbyte (blk s) (faddrs ip s) i)" if "i < MAXFILE * BSIZE" for i
          using bt [rule_format, OF that] by1 [OF that] c by (auto simp: add.assoc)
        show "ptr (blk t) (faddrs ip t) (bpath (i div BSIZE)) \<noteq> 0" if "off \<le> i" "i < off + n" for i
        proof (cases "i < off + m")
          case True
          then show ?thesis using keep [OF et _ that(2)] in1 [OF True that(1)] d by (simp add: chunk_done_def)
        qed (use pt that c in simp)
        show "faddrs ip t = faddrs ip s" if "\<forall>i. off \<le> i \<longrightarrow> i < off + n \<longrightarrow> ptr (blk s) (faddrs ip s) (bpath (i div BSIZE)) \<noteq> 0"
          using at keep [OF eu] that d n c by (auto simp: chunk_done_def)
      qed
    qed
  qed
qed

section \<open>A file as its bytes\<close>

lemma contents_slice: "off + n \<le> fsize ip s \<Longrightarrow> fbytes (blk s) (faddrs ip s) off n = slice off n (contents ip s)"
  by (simp add: fbytes_def contents_def slice_def drop_map take_map)

lemma read_slice: "off \<le> fsize ip s \<Longrightarrow> fbytes (blk s) (faddrs ip s) off (min n (fsize ip s - off)) = slice off n (contents ip s)"
  by (simp add: contents_slice min_def) (simp add: slice_def contents_def fbytes_def)

lemma edited_stored:
  assumes "edited p ip s t" "ready p ip s" "inode_block (sb (ic s)) k"
  shows "stored k t = stored k s"
proof -
  have "ino_frame p ip s t" using assms(1) by (simp add: edited_def)
  note tp = ino_frame_props [OF this readyD(4) [OF assms(2)]]
  have "blk t (IBLOCK k (sb (ic s))) = blk s (IBLOCK k (sb (ic s)))"
    by (rule editsD(4) [of "sb (ic s)" _ "faddrs ip s" _ "faddrs ip t"]) (use assms(1,3) in \<open>auto simp: edited_def inode_block_def\<close>)
  then show ?thesis by (simp add: stored_def tp)
qed

lemma new_contents:
  assumes "\<And>i. i < z' \<Longrightarrow> fbyte B' A' i = (if off \<le> i \<and> i < off + length bs then bs ! (i - off) else fbyte B A i)" "off \<le> z" "z' = max z (off + length bs)"
  shows "fbytes B' A' 0 z' = splice off bs (fbytes B A 0 z)"
proof (rule nth_equalityI)
  show "length (fbytes B' A' 0 z') = length (splice off bs (fbytes B A 0 z))" using assms(2,3) by (simp add: fbytes_def splice_def)
  fix i assume "i < length (fbytes B' A' 0 z')"
  then have i: "i < z'" by (simp add: fbytes_def)
  have e: "fbytes B' A' 0 z' ! i = (if off \<le> i \<and> i < off + length bs then bs ! (i - off) else fbyte B A i)" using assms(1) [OF i] i by (simp add: fbytes_def)
  show "fbytes B' A' 0 z' ! i = splice off bs (fbytes B A 0 z) ! i"
    unfolding e using i assms(2,3) by (auto simp: splice_def fbytes_def nth_append)
qed

lemma ready_wf:
  assumes "ready p ip s" "dinode_wf (dinode_of n)" "i_addrs m = faddrs ip s" "i_size m < 2 ^ 32" "i_type m = i_type n" "i_major m = i_major n" "i_minor m = i_minor n" "i_nlink m = i_nlink n"
  shows "dinode_wf (dinode_of m)"
proof -
  note s = readyD [OF assms(1)]
  have "a < 2 ^ 32" if "a \<in> set (faddrs ip s)" for a
  proof -
    obtain k where k: "k < length (faddrs ip s)" "faddrs ip s ! k = a" using \<open>a \<in> _\<close> by (auto simp: in_set_conv_nth)
    have "valid_pos (k, [])" using k(1) tree_okD(1) [OF s(6)] by (simp add: valid_pos_def)
    then have "a \<noteq> 0 \<longrightarrow> a < sb_size (sb (ic s))" using tree_okD(2) [OF s(6), of "(k, [])"] unfolding ptr_Nil k(2) by blast
    moreover have "sb_size (sb (ic s)) \<le> 2 ^ 31" using s(2,7) by (simp add: fs_ok_def)
    ultimately show ?thesis by (cases "a = 0") simp_all
  qed
  moreover have "length (faddrs ip s) = NDIRECT + 3" by (rule tree_okD(1) [OF s(6)])
  ultimately show ?thesis using assms(2) unfolding dinode_wf_def dinode_of_def dinode.simps assms(3,5-8) using assms(4) by blast
qed

lemma ino_frame_inode:
  assumes "ino_frame p ip s t" "ip < length (inodes (ic s))"
  shows "inodes (ic t) ! ip = (inodes (ic s) ! ip)\<lparr>i_addrs := faddrs ip t, i_size := fsize ip t\<rparr>"
proof -
  obtain A z where "ic t = (ic s)\<lparr>inodes := (inodes (ic s))[ip := (inodes (ic s) ! ip)\<lparr>i_addrs := A, i_size := z\<rparr>]\<rparr>"
    using assms(1) by (auto simp: ino_frame_def)
  then show ?thesis using assms(2) by (simp add: faddrs_def fsize_def)
qed

text \<open>The end of a write that extends the file: the new size goes to the inode on disk.\<close>

lemma extend_ok:
  assumes r: "ready p ip t" and wf: "dinode_wf (dinode_of (inodes (ic t) ! ip))" and home: "inode_block (sb (ic t)) (i_inum (inodes (ic t) ! ip))"
    and room: "card (logged (lg t)) < LOGSIZE - 1" "1 \<le> lg_outstanding (lg t)" and z: "z < 2 ^ 32"
    and post: "\<And>u. ready p ip u \<Longrightarrow> faddrs ip u = faddrs ip t \<Longrightarrow> fsize ip u = z \<Longrightarrow> saved ip u \<Longrightarrow> i_type (inodes (ic u) ! ip) = i_type (inodes (ic t) ! ip)
      \<Longrightarrow> card (logged (lg u)) \<le> card (logged (lg t)) + 1 \<Longrightarrow> (\<And>c. c \<noteq> IBLOCK (i_inum (inodes (ic t) ! ip)) (sb (ic t)) \<Longrightarrow> blk u c = blk t c) \<Longrightarrow> (\<And>k. k \<noteq> i_inum (inodes (ic t) ! ip) \<Longrightarrow> stored k u = stored k t)
      \<Longrightarrow> (\<And>bn. bn < MAXFILE \<Longrightarrow> ptr (blk u) (faddrs ip u) (bpath bn) = ptr (blk t) (faddrs ip t) (bpath bn) \<and> fblock (blk u) (faddrs ip u) bn = fblock (blk t) (faddrs ip t) bn) \<Longrightarrow> Q () u"
  shows "wp (kthen (upd_ip ip (\<lambda>i. i\<lparr>i_size := z\<rparr>)) (iupdate ip)) Q t"
proof -
  note t = readyD [OF r]
  define n where "n = (inodes (ic t) ! ip)\<lparr>i_size := z\<rparr>"
  define t' where "t' = set_ip ip (\<lambda>i. i\<lparr>i_size := z\<rparr>) t"
  define b where "b = IBLOCK (i_inum n) (sb (ic t))"
  have i: "inodes (ic t') ! ip = n" "sb (ic t') = sb (ic t)" "ip < length (inodes (ic t'))" using t(4) by (simp_all add: t'_def n_def set_ip_def)
  have same: "blk t' = blk t" "lg t' = lg t" "disk t' = disk t" "alone p {} t'" using t(1) by (simp_all add: t'_def set_ip_def)
  have wn: "dinode_wf (dinode_of n)" using wf z by (simp add: n_def dinode_of_def dinode_wf_def)
  have nb: "b < data_start (sb (ic t))" "\<And>c. c < sb_size (sb (ic t)) \<Longrightarrow> b \<noteq> BBLOCK c (sb (ic t))" using home by (auto simp: inode_block_def b_def n_def)
  have bs: "b < sb_size (sb (ic t))" "length (blk t b) = BSIZE" using nb(1) t(2) by (auto simp: fs_ok_def)
  let ?d = "put_dinode (i_inum n) (dinode_of n) (blk t b)"
  have ld: "length ?d = BSIZE" by (rule length_put_dinode [OF bs(2) wn])
  note w = write_below [OF t(2) nb ld]
  have "wp (iupdate ip) (\<lambda>_. tx_step p {} t' ((blk t)(b := ?d)) (insert b (logged (lg t)))) t'"
    using iupdate_ok [of p t' ip n b] same i t wn bs room by (simp add: b_def n_def)
  then show ?thesis
    unfolding wp_kthen wp_upd_ip t'_def [symmetric]
  proof (rule wp_mono)
    fix x u assume st: "tx_step p {} t' ((blk t)(b := ?d)) (insert b (logged (lg t))) u"
    note f = step_frame [OF st i(3)]
    have A: "faddrs ip u = faddrs ip t" by (simp add: faddrs_def f i) (simp add: n_def)
    have p: "ptr (blk u) A q = ptr (blk t) A q" if "valid_pos q" "A = faddrs ip t" for q A
    proof (cases q)
      case (Pair k js)
      have "\<not> inner (blk t) (faddrs ip t) b" using inner_marked [OF t(6), of b] nb(1) by auto
      then show ?thesis using Pair that f(3) by (auto simp: inner_def intro!: ptr_cong)
    qed
    have "tree_ok (sb (ic t)) (blk u) (faddrs ip t)"
      using t(6) w(2) p unfolding tree_ok_def f(3) by simp
    then have ru: "ready p ip u" using f i same w(1) t A by (simp add: ready_def) (simp add: n_def)
    have sd: "stored k u = (if k = i_inum n then dinode_of n else stored k t)" for k
      by (rule stored_write [where b = b]) (use f i b_def bs wn in simp_all)
    have "Q () u"
    proof (rule post [OF ru A])
      show "fsize ip u = z" "i_type (inodes (ic u) ! ip) = i_type (inodes (ic t) ! ip)" by (simp_all add: fsize_def f i) (simp_all add: n_def)
      show "saved ip u" using sd by (simp add: saved_def f i)
      show "card (logged (lg u)) \<le> card (logged (lg t)) + 1" using f(4) by (simp add: card_insert_if)
      show "blk u c = blk t c" if "c \<noteq> IBLOCK (i_inum (inodes (ic t) ! ip)) (sb (ic t))" for c using that f(3) by (simp add: b_def n_def)
      show "stored k u = stored k t" if "k \<noteq> i_inum (inodes (ic t) ! ip)" for k using sd that by (simp add: n_def)
      fix bn :: nat assume "bn < MAXFILE"
      then have v: "valid_pos (bpath bn)" using bpath_data data_pos_valid by blast
      have "ptr (blk t) (faddrs ip t) (bpath bn) \<noteq> 0 \<Longrightarrow> ptr (blk t) (faddrs ip t) (bpath bn) \<noteq> b" using tree_okD(2) [OF t(6) v] nb(1) by linarith
      then show "ptr (blk u) (faddrs ip u) (bpath bn) = ptr (blk t) (faddrs ip t) (bpath bn) \<and> fblock (blk u) (faddrs ip u) bn = fblock (blk t) (faddrs ip t) bn"
        using p [OF v refl] A f(3) by (simp add: fblock_def Let_def)
    qed
    then show "Q x u" by simp
  qed
qed

lemma writei_end:
  assumes f: "file_ok p ip (s :: 'a kstate_scheme)" and ed: "edited p ip s t" and wf: "dinode_wf (dinode_of (inodes (ic s) ! ip))" and home: "inode_block (sb (ic s)) (i_inum (inodes (ic s) ! ip))"
    and off: "off \<le> fsize ip s" "off + length bs \<le> MAXFILE * BSIZE" and room: "card (logged (lg t)) < LOGSIZE - 1" "1 \<le> lg_outstanding (lg s)"
    and bytes: "\<forall>i < MAXFILE * BSIZE. fbyte (blk t) (faddrs ip t) i = (if off \<le> i \<and> i < off + length bs then bs ! (i - off) else fbyte (blk s) (faddrs ip s) i)"
    and ptrs: "\<forall>i. off \<le> i \<longrightarrow> i < off + length bs \<longrightarrow> ptr (blk t) (faddrs ip t) (bpath (i div BSIZE)) \<noteq> 0"
    and old: "(\<forall>i. off \<le> i \<longrightarrow> i < off + length bs \<longrightarrow> ptr (blk s) (faddrs ip s) (bpath (i div BSIZE)) \<noteq> 0) \<longrightarrow> faddrs ip t = faddrs ip s"
  shows "wp (kwhen (length bs > 0 \<and> off + length bs > fsize ip t) (kthen (upd_ip ip (\<lambda>i. i\<lparr>i_size := off + length bs\<rparr>)) (iupdate ip)))
    (\<lambda>_ u. wrote_bytes p ip s off bs u \<and> card (logged (lg u)) < NBUF) t"
proof -
  note fo = f [unfolded file_ok_def]
  have r: "ready p ip s" using fo by simp
  note s = readyD [OF r]
  have rt: "ready p ip t" and ft: "ino_frame p ip s t" and zt: "fsize ip t = fsize ip s" using ed by (simp_all add: edited_def)
  note tp = ino_frame_props [OF ft s(4)] and ti = ino_frame_inode [OF ft s(4)]
  define z where "z = max (fsize ip s) (off + length bs)"
  have z: "z \<le> MAXFILE * BSIZE" using fo off by (simp add: z_def)
  have cont: "fbytes (blk t) (faddrs ip t) 0 z = splice off bs (contents ip s)"
    unfolding contents_def by (rule new_contents) (use bytes z off(1) in \<open>auto simp: z_def\<close>)
  have full: "ptr (blk t) (faddrs ip t) (bpath bn) \<noteq> 0" if "bn * BSIZE < z" for bn
  proof (cases "bn * BSIZE < fsize ip s")
    case True
    have "bn < MAXFILE" using that z by simp
    then show ?thesis using True fo ed editsD(1) data_pos_valid [OF bpath_data] unfolding edited_def by metis
  next
    case False
    then show ?thesis using ptrs [rule_format, of "bn * BSIZE"] that off(1) by (simp add: z_def)
  qed
  have other: "blk t c = blk s c" if "c < sb_size (sb (ic s))" "data_start (sb (ic s)) \<le> c" "marked (sb (ic s)) (blk s) c" "\<not> owned (blk s) (faddrs ip s) c" for c
    using editsD(3) [OF _ that] ed unfolding edited_def by blast
  have inum: "i_inum (inodes (ic t) ! ip) = i_inum (inodes (ic s) ! ip)" by (rule tp(6))
  show ?thesis
  proof (cases "length bs > 0 \<and> off + length bs > fsize ip t")
    case True
    have wt: "dinode_wf (dinode_of (inodes (ic t) ! ip))"
      by (rule ready_wf [OF rt wf]) (use fo zt in \<open>simp_all add: ti\<close>)
    show ?thesis
      unfolding kwhen_def if_P [OF True]
    proof (rule extend_ok [OF rt wt])
      show "inode_block (sb (ic t)) (i_inum (inodes (ic t) ! ip))" "1 \<le> lg_outstanding (lg t)" using home inum tp room by simp_all
      show "card (logged (lg t)) < LOGSIZE - 1" by (rule room)
      show "off + length bs < 2 ^ 32" using off(2) by simp
      fix u :: "'a kstate_scheme" assume u: "ready p ip u" "faddrs ip u = faddrs ip t" "fsize ip u = off + length bs" "saved ip u" "i_type (inodes (ic u) ! ip) = i_type (inodes (ic t) ! ip)"
        "card (logged (lg u)) \<le> card (logged (lg t)) + 1"
        and bu: "\<And>c. c \<noteq> IBLOCK (i_inum (inodes (ic t) ! ip)) (sb (ic t)) \<Longrightarrow> blk u c = blk t c" and su: "\<And>k. k \<noteq> i_inum (inodes (ic t) ! ip) \<Longrightarrow> stored k u = stored k t"
        and pu: "\<And>bn. bn < MAXFILE \<Longrightarrow> ptr (blk u) (faddrs ip u) (bpath bn) = ptr (blk t) (faddrs ip t) (bpath bn) \<and> fblock (blk u) (faddrs ip u) bn = fblock (blk t) (faddrs ip t) bn"
      have lo: "IBLOCK (i_inum (inodes (ic t) ! ip)) (sb (ic t)) < data_start (sb (ic s))" using home inum tp(1) by (simp add: inode_block_def)
      have zu: "fsize ip u = z" using u(3) True zt by (simp add: z_def)
      have "fbyte (blk u) (faddrs ip u) i = fbyte (blk t) (faddrs ip t) i" if "i < z" for i
        using pu [of "i div BSIZE"] that z by (simp add: fbyte_def less_mult_imp_div_less)
      then have cu: "contents ip u = splice off bs (contents ip s)" unfolding cont [symmetric] by (simp add: contents_def fbytes_def zu)
      have "ptr (blk u) (faddrs ip u) (bpath bn) \<noteq> 0" if "bn * BSIZE < z" for bn using pu [of bn] full [OF that] that z by simp
      then have "file_ok p ip u" using u z fo tp(11) unfolding file_ok_def zu by simp
      moreover have "stored k u = stored k s" if "k \<noteq> i_inum (inodes (ic s) ! ip)" "inode_block (sb (ic s)) k" for k
        using su [of k] edited_stored [OF ed r that(2)] that(1) inum by simp
      moreover have "blk u c = blk s c" if "c < sb_size (sb (ic s))" "data_start (sb (ic s)) \<le> c" "marked (sb (ic s)) (blk s) c" "\<not> owned (blk s) (faddrs ip s) c" for c
        using bu [of c] other [OF that] lo that(2) by simp
      ultimately show "wrote_bytes p ip s off bs u \<and> card (logged (lg u)) < NBUF"
        unfolding wrote_bytes_def using cu zu u(4,6) room(1) by (simp add: z_def)
    qed
  next
    case False
    then have le: "length bs = 0 \<or> off + length bs \<le> fsize ip s" using zt by auto
    then have zz: "z = fsize ip s" using off(1) by (auto simp: z_def)
    have "bs = [] \<or> (\<forall>i. off \<le> i \<longrightarrow> i < off + length bs \<longrightarrow> ptr (blk s) (faddrs ip s) (bpath (i div BSIZE)) \<noteq> 0)"
    proof (cases "bs = []")
      case False
      then have "i div BSIZE * BSIZE < fsize ip s" if "i < off + length bs" for i using le that div_times_less_eq_dividend [of i BSIZE] by simp
      then show ?thesis using fo by blast
    qed simp
    then have A: "faddrs ip t = faddrs ip s" using old by auto
    have "dinode_of (inodes (ic t) ! ip) = dinode_of (inodes (ic s) ! ip)" using A zt by (simp add: ti) (simp add: dinode_of_def faddrs_def fsize_def)
    then have sv: "saved ip s \<longrightarrow> saved ip t" using edited_stored [OF ed r home] inum by (simp add: saved_def)
    have "file_ok p ip t" using full fo zt zz rt tp(11) by (simp add: file_ok_def)
    moreover have "stored k t = stored k s" if "inode_block (sb (ic s)) k" for k by (rule edited_stored [OF ed r that])
    moreover have "contents ip t = splice off bs (contents ip s)" using cont zt zz by (simp add: contents_def)
    ultimately show ?thesis
      unfolding kwhen_def if_not_P [OF False] wp_prims(1) wrote_bytes_def using sv other zt zz room(1) by (simp add: z_def)
  qed
qed

lemma wrap_overflow:
  assumes "off < 2 ^ 32" "n < 2 ^ 32"
  shows "(off + n) mod 2 ^ 32 < off \<longleftrightarrow> 2 ^ 32 \<le> off + (n :: nat)"
proof (cases "2 ^ 32 \<le> off + n")
  case True
  then have "(off + n) mod 2 ^ 32 = off + n - 2 ^ 32" using assms by (subst le_mod_geq) simp_all
  then show ?thesis using True assms by linarith
qed (simp add: not_le)

lemma writei_ok:
  assumes f: "file_ok p ip s" and wf: "dinode_wf (dinode_of (inodes (ic s) ! ip))" and home: "inode_block (sb (ic s)) (i_inum (inodes (ic s) ! ip))"
    and tx: "1 \<le> lg_outstanding (lg s)" "card (logged (lg s)) + 9 * nchunks off n < LOGSIZE - 1" "4 * nchunks off n \<le> nfree s"
    and src: "src_bytes src 0 n s = Some bs" "length bs = n" and n: "n < 2 ^ 32"
  shows "wp (writei ip src off n) (\<lambda>r t. if fsize ip s < off \<or> MAXFILE * BSIZE < off + n then r = -1 \<and> t = s
      else r = int n \<and> wrote_bytes p ip s off bs t \<and> card (logged (lg t)) < NBUF) s"
proof -
  note fo = f [unfolded file_ok_def]
  have r: "ready p ip s" and ty: "i_type (inodes (ic s) ! ip) \<noteq> T_DEV" and z: "fsize ip s \<le> MAXFILE * BSIZE" using fo by auto
  note s = readyD [OF r]
  have get: "wp (get_ip ip id) P t \<longleftrightarrow> P (inodes (ic t) ! ip) t" "wp (get_ip ip i_size) Q t \<longleftrightarrow> Q (fsize ip t) t" for P Q t by (simp_all add: get_ip_def wps fsize_def)
  have zs: "i_size (inodes (ic s) ! ip) = fsize ip s" by (simp add: fsize_def)
  show ?thesis
  proof (cases "off > fsize ip s \<or> (off + n) mod 2 ^ 32 < off")
    case True
    have "fsize ip s < off \<or> MAXFILE * BSIZE < off + n"
    proof (cases "off > fsize ip s")
      case False
      then have "off < 2 ^ 32" using z by simp
      then have "2 ^ 32 \<le> off + n" using wrap_overflow [OF _ n, of off] True False by simp
      then show ?thesis by simp
    qed simp
    then show ?thesis unfolding writei_def wp_kbind get if_not_P [OF ty] zs if_P [OF True] wp_prims by simp
  next
    case ok: False
    show ?thesis
    proof (cases "off + n > MAXFILE * BSIZE")
      case True
      then show ?thesis unfolding writei_def wp_kbind get if_not_P [OF ty] zs if_not_P [OF ok] if_P [OF True] wp_prims by simp
    next
      case False
      have nb: "\<not> (fsize ip s < off \<or> MAXFILE * BSIZE < off + n)" using ok False by simp
      have i: "i32 (int n) = int n" using False by (intro i32_id) (simp add: int_range_def)
      have a: "off + n \<le> MAXFILE * BSIZE" "card (logged (lg s)) + 9 * nchunks off n \<le> LOGSIZE - 1" "src_bytes src 0 (0 + n) s = Some bs" "length bs = 0 + n"
        using False tx(2) src by simp_all
      show ?thesis
        unfolding writei_def wp_kbind get if_not_P [OF ty] zs if_not_P [OF ok] if_not_P [OF False] if_not_P [OF nb] i wp_kthen
      proof (rule wp_mono [OF writei_loop_ok [OF r tx(1) a(1,2) tx(3) a(3,4)]], elim conjE)
        fix x t assume x: "x = off + n" and t: "edited p ip s t" and c: "card (logged (lg t)) \<le> card (logged (lg s)) + 9 * nchunks off n"
          and b: "\<forall>i < MAXFILE * BSIZE. fbyte (blk t) (faddrs ip t) i = (if off \<le> i \<and> i < off + n then bs ! (0 + (i - off)) else fbyte (blk s) (faddrs ip s) i)"
          and p: "\<forall>i. off \<le> i \<longrightarrow> i < off + n \<longrightarrow> ptr (blk t) (faddrs ip t) (bpath (i div BSIZE)) \<noteq> 0"
          and a: "(\<forall>i. off \<le> i \<longrightarrow> i < off + n \<longrightarrow> ptr (blk s) (faddrs ip s) (bpath (i div BSIZE)) \<noteq> 0) \<longrightarrow> faddrs ip t = faddrs ip s"
        have cl: "card (logged (lg t)) < LOGSIZE - 1" using c tx(2) by linarith
        have lim: "off \<le> fsize ip s" "off + length bs \<le> MAXFILE * BSIZE" using nb src(2) by simp_all
        have "wp (kwhen (length bs > 0 \<and> off + length bs > fsize ip t) (kthen (upd_ip ip (\<lambda>i. i\<lparr>i_size := off + length bs\<rparr>)) (iupdate ip)))
          (\<lambda>_ u. wrote_bytes p ip s off bs u \<and> card (logged (lg u)) < NBUF) t"
          by (rule writei_end [OF f t wf home lim cl tx(1)]) (use b p a src(2) in simp_all)
        then show "wp (kwhen (n > 0 \<and> x > fsize ip t) (kthen (upd_ip ip (\<lambda>i. i\<lparr>i_size := x\<rparr>)) (iupdate ip)))
            (\<lambda>_. wp (kreturn (int n)) (\<lambda>r t. r = int n \<and> wrote_bytes p ip s off bs t \<and> card (logged (lg t)) < NBUF)) t"
          unfolding x src(2) by (rule wp_mono) (simp add: wps)
      qed
    qed
  qed
qed

text \<open>C15: Reading a file. On a file without holes \<open>readi\<close> returns the bytes of the file at the offset, cut at its end, and their number; an offset
  past the end or a range that overflows is refused. Nothing on the disk, in the cache's view of it or in the log changes.\<close>

theorem readi_reads:
  assumes "file_ok p ip s" "card (logged (lg s)) < NBUF" "n < 2 ^ 32"
  shows "wp (readi ip ToBuf off n) (\<lambda>(r, bs) t.
      (if fsize ip s < off \<or> 2 ^ 32 \<le> off + n then r = -1 \<and> bs = []
       else bs = slice off n (contents ip s) \<and> r = int (length bs))
      \<and> contents ip t = contents ip s \<and> blk t = blk s \<and> logged (lg t) = logged (lg s) \<and> disk t = disk s) s"
proof (rule wp_mono [OF readi_ok [OF assms]])
  fix r t assume a: "if fsize ip s < off \<or> 2 ^ 32 \<le> off + n then r = (-1, []) \<and> t = s
       else r = (int (min n (fsize ip s - off)), fbytes (blk s) (faddrs ip s) off (min n (fsize ip s - off))) \<and> tx_step p {} s (blk s) (logged (lg s)) t"
  have ip: "ip < length (inodes (ic s))" using assms(1) by (simp add: file_ok_def ready_def)
  show "(case r of (r, bs) \<Rightarrow> \<lambda>t. (if fsize ip s < off \<or> 2 ^ 32 \<le> off + n then r = -1 \<and> bs = [] else bs = slice off n (contents ip s) \<and> r = int (length bs))
      \<and> contents ip t = contents ip s \<and> blk t = blk s \<and> logged (lg t) = logged (lg s) \<and> disk t = disk s) t"
  proof (cases "fsize ip s < off \<or> 2 ^ 32 \<le> off + n")
    case False
    then have r: "r = (int (min n (fsize ip s - off)), fbytes (blk s) (faddrs ip s) off (min n (fsize ip s - off)))" and st: "tx_step p {} s (blk s) (logged (lg s)) t"
      using a by simp_all
    note f = step_frame [OF st ip]
    have "contents ip t = contents ip s" by (simp add: contents_def faddrs_def fsize_def f)
    moreover have "fbytes (blk s) (faddrs ip s) off (min n (fsize ip s - off)) = slice off n (contents ip s)" using False by (simp add: read_slice)
    moreover have "length (slice off n (contents ip s)) = min n (fsize ip s - off)" by (simp add: contents_def fbytes_def)
    ultimately show ?thesis using False r f by simp
  qed (use a in auto)
qed

text \<open>C14: Writing a file. Inside a transaction with room in the log and free blocks, \<open>writei\<close> replaces the bytes at the offset and extends the file
  where they reach past its end; the file has no holes afterwards, its inode on disk still agrees with the one in memory, and every other
  inode and every block in use of another file is as before. A write that starts past the end or ends past the largest size is refused.\<close>

theorem writei_writes:
  assumes "file_ok p ip s" "dinode_wf (dinode_of (inodes (ic s) ! ip))" "inode_block (sb (ic s)) (i_inum (inodes (ic s) ! ip))"
    and "1 \<le> lg_outstanding (lg s)" "card (logged (lg s)) + 9 * nchunks off n < LOGSIZE - 1" "4 * nchunks off n \<le> nfree s"
    and "src_bytes src 0 n s = Some bs" "length bs = n" "n < 2 ^ 32"
  shows "wp (writei ip src off n) (\<lambda>r t. if fsize ip s < off \<or> MAXFILE * BSIZE < off + n then r = -1 \<and> t = s
      else r = int n \<and> file_ok p ip t \<and> fsize ip t = max (fsize ip s) (off + n) \<and> contents ip t = splice off bs (contents ip s)
        \<and> (saved ip s \<longrightarrow> saved ip t)
        \<and> (\<forall>k. k \<noteq> i_inum (inodes (ic s) ! ip) \<longrightarrow> inode_block (sb (ic s)) k \<longrightarrow> stored k t = stored k s)
        \<and> (\<forall>c < sb_size (sb (ic s)). data_start (sb (ic s)) \<le> c \<longrightarrow> marked (sb (ic s)) (blk s) c \<longrightarrow> \<not> owned (blk s) (faddrs ip s) c \<longrightarrow> blk t c = blk s c)) s"
  by (rule wp_mono [OF writei_ok [OF assms]]) (use assms(8) in \<open>auto simp: wrote_bytes_def split: if_splits\<close>)

lemma empty_file:
  shows "file_ok 0 0 file_machine" "dinode_wf (dinode_of (inodes (ic file_machine) ! 0))" "inode_block (sb (ic file_machine)) 2" "contents 0 file_machine = []" "fsize 0 file_machine = 0"
  using file_machine_ready(1)
  by (simp_all add: file_ok_def fsize_def contents_def fbytes_def inode_block_def dinode_wf_def dinode_of_def short_range_def file_machine_inode
      IBLOCK_def BBLOCK_def data_start_def)

lemma hi_source: "src_bytes (FromBuf [104, 105]) 0 2 (s :: 'a kstate_scheme) = Some [104, 105]"
  by (simp add: src_bytes_def slice_def)

theorem readi_reads_witness:
  "wp (kthen (writei 0 (FromBuf [104, 105]) 0 2) (readi 0 ToBuf 1 7)) (\<lambda>(r, bs) t. r = 1 \<and> bs = [105]) file_machine"
  unfolding wp_kthen
proof (rule wp_mono [OF writei_ok [OF empty_file(1,2), of 0 2 "FromBuf [104, 105]" "[104, 105]"]])
  fix r t assume "if fsize 0 file_machine < 0 \<or> MAXFILE * BSIZE < 0 + 2 then r = -1 \<and> t = file_machine
      else r = int 2 \<and> wrote_bytes 0 0 file_machine 0 [104, 105] t \<and> card (logged (lg t)) < NBUF"
  then have t: "file_ok 0 0 t" "card (logged (lg t)) < NBUF" "contents 0 t = [104, 105]" "fsize 0 t = 2"
    by (simp_all add: wrote_bytes_def empty_file splice_def)
  show "wp (readi 0 ToBuf 1 7) (\<lambda>(r, bs) t. r = 1 \<and> bs = [105]) t"
    by (rule wp_mono [OF readi_reads [OF t(1,2), of 7 1]]) (use t(3,4) in \<open>auto simp: slice_def\<close>)
qed (use empty_file(3) file_machine_ready hi_source in \<open>simp_all add: file_machine_inode nchunks_def\<close>)

theorem writei_writes_witness:
  "wp (writei 0 (FromBuf [104, 105]) 0 2) (\<lambda>r t. r = 2 \<and> contents 0 t = [104, 105] \<and> fsize 0 t = 2) file_machine"
  by (rule wp_mono [OF writei_writes [OF empty_file(1,2), of 0 2 "FromBuf [104, 105]" "[104, 105]"]])
    (use empty_file(3-5) file_machine_ready hi_source in \<open>simp_all add: file_machine_inode nchunks_def splice_def\<close>)

end
