(* ===== verification/Grep.thy ===== *)
theory Grep
  imports Prelude
begin

text \<open>
  The program \<open>grep\<close> (\<open>grep.c\<close>): the matcher for \<open>^ . * $\<close> and the loop that cuts the input into lines.

  A C string is the list of its characters without the terminating zero; reading one past the last character gives that zero. The calls
  of \<open>read\<close> are a parameter: \<open>rd st k\<close> is what a read of at most \<open>k\<close> bytes returns in the state \<open>st\<close> of the descriptor, the empty list
  standing for the end of the file and for an error, which \<open>grep\<close> does not tell apart.
\<close>

section \<open>The matcher\<close>

definition ch0 :: "uchar list \<Rightarrow> uchar" where
  "ch0 t = (case t of [] \<Rightarrow> 0 | c # _ \<Rightarrow> c)"

function matchhere :: "uchar list \<Rightarrow> uchar list \<Rightarrow> bool"
  and matchstar :: "uchar \<Rightarrow> uchar list \<Rightarrow> uchar list \<Rightarrow> bool" where
  "matchhere re text =
     (case re of
        [] \<Rightarrow> True
      | r # re1 \<Rightarrow>
        if ch0 re1 = 42 then matchstar r (tl re1) text
        else if r = 36 \<and> re1 = [] then text = []
        else if text \<noteq> [] \<and> (r = 46 \<or> r = hd text) then matchhere re1 (tl text)
        else False)"
| "matchstar c re text =
     (if matchhere re text then True
      else if text \<noteq> [] \<and> (hd text = c \<or> c = 46) then matchstar c re (tl text)
      else False)"
  by pat_completeness auto

termination
  by (relation "measures [\<lambda>x. case x of Inl (re, t) \<Rightarrow> length re | Inr (c, re, t) \<Rightarrow> Suc (length re), \<lambda>x. case x of Inl (re, t) \<Rightarrow> 0 | Inr (c, re, t) \<Rightarrow> length t]")
    (auto simp: ch0_def split: list.splits)

declare matchhere.simps [simp del] matchstar.simps [simp del]

fun match_from :: "uchar list \<Rightarrow> uchar list \<Rightarrow> bool" where
  "match_from re text = (if matchhere re text then True else case text of [] \<Rightarrow> False | _ # t \<Rightarrow> match_from re t)"

declare match_from.simps [simp del]

definition match :: "uchar list \<Rightarrow> uchar list \<Rightarrow> bool" where
  "match re text = (if ch0 re = 94 then matchhere (tl re) text else match_from re text)"

section \<open>The loop over the input\<close>

text \<open>The position of the first character \<open>c\<close> of a C string (\<open>strchr\<close>); a zero byte ends the string.\<close>

fun strchr_list :: "uchar list \<Rightarrow> uchar \<Rightarrow> nat option" where
  "strchr_list [] c = None"
| "strchr_list (x # xs) c = (if x = 0 then None else if x = c then Some 0 else map_option Suc (strchr_list xs c))"

text \<open>The inner loop: the lines from \<open>p\<close> on that match, each written with its newline, and what is left of the buffer.\<close>

function grep_lines :: "uchar list \<Rightarrow> uchar list \<Rightarrow> uchar list list \<times> uchar list" where
  "grep_lines re p =
     (case strchr_list p 10 of
        None \<Rightarrow> ([], p)
      | Some q \<Rightarrow>
        (let (out, p') = grep_lines re (drop (q + 1) p)
         in if match re (take q p) then (take (q + 1) p # out, p') else (out, p')))"
  by auto

termination
proof (relation "measure (\<lambda>(re, p). length p)")
  fix re p q assume "strchr_list p 10 = Some q"
  then have "p \<noteq> []" by auto
  then show "((re, drop (q + 1) p), re, p) \<in> measure (\<lambda>(re, p). length p)" by simp
qed simp

declare grep_lines.simps [simp del]

text \<open>The loop of \<open>grep\<close>: \<open>b\<close> holds the first \<open>m\<close> bytes of \<open>buf\<close>, the result is what has been written to descriptor 1.\<close>

primrec grep_loop :: "nat \<Rightarrow> uchar list \<Rightarrow> ('f \<Rightarrow> nat \<Rightarrow> uchar list \<times> 'f) \<Rightarrow> 'f \<Rightarrow> uchar list \<Rightarrow> uchar list list option" where
  "grep_loop 0 re rd st b = None"
| "grep_loop (Suc fuel) re rd st b =
     (case rd st (1024 - length b - 1) of
        (d, st') \<Rightarrow>
          if d = [] then Some []
          else
            (case grep_lines re (b @ d) of
               (out, p) \<Rightarrow>
                 map_option ((@) out) (grep_loop fuel re rd st' (if length p = length (b @ d) then [] else p))))"

definition grep :: "nat \<Rightarrow> uchar list \<Rightarrow> ('f \<Rightarrow> nat \<Rightarrow> uchar list \<times> 'f) \<Rightarrow> 'f \<Rightarrow> uchar list list option" where
  "grep fuel re rd st = grep_loop fuel re rd st []"

section \<open>Regular expressions\<close>

text \<open>The pieces of an expression after \<open>^\<close>: a character, starred or not, and whether the expression ends in \<open>$\<close>.\<close>

function pieces :: "uchar list \<Rightarrow> (bool \<times> uchar) list" where
  "pieces re =
     (case re of
        [] \<Rightarrow> []
      | r # re1 \<Rightarrow> if ch0 re1 = 42 then (True, r) # pieces (tl re1) else if r = 36 \<and> re1 = [] then [] else (False, r) # pieces re1)"
  by auto

termination
  by (relation "measure length") (auto simp: ch0_def split: list.splits)

declare pieces.simps [simp del]

function dollar :: "uchar list \<Rightarrow> bool" where
  "dollar re =
     (case re of
        [] \<Rightarrow> False
      | r # re1 \<Rightarrow> if ch0 re1 = 42 then dollar (tl re1) else if r = 36 \<and> re1 = [] then True else dollar re1)"
  by auto

termination
  by (relation "measure length") (auto simp: ch0_def split: list.splits)

declare dollar.simps [simp del]

definition accepts :: "uchar \<Rightarrow> uchar \<Rightarrow> bool" where
  "accepts r c \<longleftrightarrow> r = 46 \<or> c = r"

text \<open>The words a sequence of pieces stands for.\<close>

fun lang :: "(bool \<times> uchar) list \<Rightarrow> uchar list set" where
  "lang [] = {[]}"
| "lang ((False, r) # ps) = {c # w | c w. accepts r c \<and> w \<in> lang ps}"
| "lang ((True, r) # ps) = {u @ w | u w. (\<forall>c \<in> set u. accepts r c) \<and> w \<in> lang ps}"

text \<open>A file of the given contents: a read gets as many bytes as it asks for, while they last.\<close>

definition read_file :: "uchar list \<Rightarrow> nat \<Rightarrow> uchar list \<times> uchar list" where
  "read_file d k = (take k d, drop k d)"

definition is_line :: "uchar list \<Rightarrow> bool" where
  "is_line l \<longleftrightarrow> (\<exists>t. l = t @ [10] \<and> 10 \<notin> set t \<and> 0 \<notin> set t)"

section \<open>The matcher finds exactly the matches\<close>

definition matches_at :: "uchar list \<Rightarrow> uchar list \<Rightarrow> bool" where
  "matches_at re t \<longleftrightarrow> (\<exists>v w. t = v @ w \<and> v \<in> lang (pieces re) \<and> (dollar re \<longrightarrow> w = []))"

lemma regex_Cons:
  "matchhere (r # re) t = (if ch0 re = 42 then matchstar r (tl re) t else if r = 36 \<and> re = [] then t = [] else t \<noteq> [] \<and> accepts r (hd t) \<and> matchhere re (tl t))"
  "pieces (r # re) = (if ch0 re = 42 then (True, r) # pieces (tl re) else if r = 36 \<and> re = [] then [] else (False, r) # pieces re)"
  "dollar (r # re) = (if ch0 re = 42 then dollar (tl re) else if r = 36 \<and> re = [] then True else dollar re)"
  "matchhere [] t" "pieces [] = []" "\<not> dollar []"
  by (auto simp: matchhere.simps [of "r # re"] pieces.simps [of "r # re"] dollar.simps [of "r # re"] accepts_def)
    (simp_all add: matchhere.simps [of "[]"] pieces.simps [of "[]"] dollar.simps [of "[]"])

lemma matchstar_iff:
  assumes "\<And>t. matchhere re t \<longleftrightarrow> matches_at re t"
  shows "matchstar c re str \<longleftrightarrow> (\<exists>u v. str = u @ v \<and> (\<forall>x \<in> set u. accepts c x) \<and> matches_at re v)"
proof (induction str)
  case Nil
  show ?case by (subst matchstar.simps) (simp add: assms)
next
  case (Cons x xs)
  show ?case
  proof
    assume "matchstar c re (x # xs)"
    then have "matches_at re (x # xs) \<or> accepts c x \<and> matchstar c re xs"
      by (subst (asm) matchstar.simps) (auto simp: assms accepts_def split: if_splits)
    then show "\<exists>u v. x # xs = u @ v \<and> (\<forall>x \<in> set u. accepts c x) \<and> matches_at re v"
    proof
      assume "matches_at re (x # xs)"
      then show ?thesis by (intro exI [of _ "[]"] exI [of _ "x # xs"]) simp
    next
      assume a: "accepts c x \<and> matchstar c re xs"
      then obtain u v where "xs = u @ v" "\<forall>x \<in> set u. accepts c x" "matches_at re v" using Cons by auto
      then show ?thesis using a by (intro exI [of _ "x # u"] exI [of _ v]) auto
    qed
  next
    assume "\<exists>u v. x # xs = u @ v \<and> (\<forall>x \<in> set u. accepts c x) \<and> matches_at re v"
    then obtain u v where u: "x # xs = u @ v" "\<forall>x \<in> set u. accepts c x" "matches_at re v" by blast
    show "matchstar c re (x # xs)"
    proof (cases u)
      case Nil
      then show ?thesis using u by (subst matchstar.simps) (simp add: assms)
    next
      case (Cons y ys)
      then have "matchstar c re xs" using Cons.IH u by auto
      then show ?thesis using Cons u by (subst matchstar.simps) (auto simp: accepts_def)
    qed
  qed
qed

lemma matches_at_char:
  assumes "ch0 re \<noteq> 42" "\<not> (r = 36 \<and> re = [])"
  shows "matches_at (r # re) t \<longleftrightarrow> t \<noteq> [] \<and> accepts r (hd t) \<and> matches_at re (tl t)"
proof
  assume "matches_at (r # re) t"
  then obtain v w where "t = v @ w" "v \<in> lang ((False, r) # pieces re)" "dollar re \<longrightarrow> w = []" using assms unfolding matches_at_def by (auto simp: regex_Cons)
  then obtain c v' where "t = c # v' @ w" "accepts r c" "v' \<in> lang (pieces re)" "dollar re \<longrightarrow> w = []" by auto
  then show "t \<noteq> [] \<and> accepts r (hd t) \<and> matches_at re (tl t)" unfolding matches_at_def by auto
next
  assume "t \<noteq> [] \<and> accepts r (hd t) \<and> matches_at re (tl t)"
  then obtain c v w where "t = c # v @ w" "accepts r c" "v \<in> lang (pieces re)" "dollar re \<longrightarrow> w = []" by (cases t) (auto simp: matches_at_def)
  then show "matches_at (r # re) t" using assms unfolding matches_at_def by (intro exI [of _ "c # v"] exI [of _ w]) (auto simp: regex_Cons)
qed

lemma matchhere_iff: "matchhere re str \<longleftrightarrow> matches_at re str"
proof (induction re arbitrary: str rule: measure_induct_rule [where f = length])
  case (less re)
  show ?case
  proof (cases re)
    case Nil
    then show ?thesis by (simp add: matches_at_def regex_Cons)
  next
    case (Cons r re1)
    show ?thesis
    proof (cases "ch0 re1 = 42")
      case True
      then obtain re2 where re1: "re1 = 42 # re2" by (auto simp: ch0_def split: list.splits)
      have "matchhere re str \<longleftrightarrow> matchstar r re2 str" using Cons re1 by (simp add: regex_Cons ch0_def)
      also have "\<dots> \<longleftrightarrow> (\<exists>u v. str = u @ v \<and> (\<forall>x \<in> set u. accepts r x) \<and> matches_at re2 v)"
        by (rule matchstar_iff [OF less.IH]) (simp add: Cons re1)
      also have "\<dots> \<longleftrightarrow> matches_at re str"
      proof
        assume "\<exists>u v. str = u @ v \<and> (\<forall>x \<in> set u. accepts r x) \<and> matches_at re2 v"
        then obtain u v w where "str = (u @ v) @ w" "\<forall>x \<in> set u. accepts r x" "v \<in> lang (pieces re2)" "dollar re2 \<longrightarrow> w = []" by (auto simp: matches_at_def)
        then show "matches_at re str" unfolding matches_at_def using True re1 Cons by (intro exI [of _ "u @ v"] exI [of _ w]) (auto simp: regex_Cons)
      next
        assume "matches_at re str"
        then obtain x w where x: "str = x @ w" "x \<in> lang ((True, r) # pieces re2)" "dollar re2 \<longrightarrow> w = []"
          using True re1 Cons unfolding matches_at_def by (auto simp: regex_Cons)
        then obtain u v where "x = u @ v" "\<forall>x \<in> set u. accepts r x" "v \<in> lang (pieces re2)" by auto
        with x show "\<exists>u v. str = u @ v \<and> (\<forall>x \<in> set u. accepts r x) \<and> matches_at re2 v"
          unfolding matches_at_def by (intro exI [of _ u] exI [of _ "v @ w"]) auto
      qed
      finally show ?thesis .
    next
      case False
      show ?thesis
      proof (cases "r = 36 \<and> re1 = []")
        case True
        then show ?thesis using Cons by (auto simp: matches_at_def regex_Cons ch0_def)
      next
        case d: False
        then show ?thesis using Cons False less.IH [of re1] by (auto simp: matches_at_char regex_Cons(1))
      qed
    qed
  qed
qed

lemma match_from_step:
  "match_from re [] = matchhere re []" "match_from re (x # xs) = (matchhere re (x # xs) \<or> match_from re xs)"
  by (simp_all add: match_from.simps)

lemmas match_step = match_def match_from_step regex_Cons accepts_def ch0_def

lemma match_from_iff: "match_from re str \<longleftrightarrow> (\<exists>u v. str = u @ v \<and> matches_at re v)"
proof (induction str)
  case Nil
  show ?case by (subst match_from.simps) (simp add: matchhere_iff)
next
  case (Cons x xs)
  have "match_from re (x # xs) \<longleftrightarrow> matches_at re (x # xs) \<or> match_from re xs" by (subst match_from.simps) (simp add: matchhere_iff)
  moreover have "(\<exists>u v. x # xs = u @ v \<and> matches_at re v) \<longleftrightarrow> matches_at re (x # xs) \<or> (\<exists>u v. xs = u @ v \<and> matches_at re v)"
    by (auto simp: Cons_eq_append_conv)
  ultimately show ?case using Cons by simp
qed

text \<open>C30: The matcher. \<open>match\<close> accepts a line exactly when some part of it is a word of the expression: anywhere, or at the beginning after \<open>^\<close>,
  and ending where the line ends before a final \<open>$\<close>.\<close>

theorem match_finds:
  "match re str \<longleftrightarrow>
     (let caret = (ch0 re = 94); e = (if caret then tl re else re)
      in \<exists>u v w. str = u @ v @ w \<and> v \<in> lang (pieces e) \<and> (caret \<longrightarrow> u = []) \<and> (dollar e \<longrightarrow> w = []))"
  by (auto simp: match_def Let_def match_from_iff matchhere_iff matches_at_def)

theorem match_finds_witness: "match [98, 36] [97, 98] \<and> (\<exists>u v. [97, 98] = u @ v \<and> v \<in> lang (pieces [98, 36]))"
proof
  show m: "match [98, 36] [97, 98]" by (simp add: match_step)
  show "\<exists>u v. [97, 98] = u @ v \<and> v \<in> lang (pieces [98, 36])"
    using match_finds [THEN iffD1, OF m] by (auto simp: Let_def ch0_def regex_Cons)
qed

section \<open>Every matching line of a file is printed\<close>

lemma strchr_list_None: "10 \<notin> set t \<Longrightarrow> strchr_list t 10 = None"
  by (induction t) auto

lemma strchr_list_line: "10 \<notin> set t \<Longrightarrow> 0 \<notin> set t \<Longrightarrow> strchr_list (t @ 10 # r) 10 = Some (length t)"
  by (induction t) auto

lemma grep_lines_ok:
  "\<forall>l \<in> set ls. is_line l \<Longrightarrow> 10 \<notin> set r \<Longrightarrow> grep_lines re (concat ls @ r) = (filter (\<lambda>l. match re (butlast l)) ls, r)"
proof (induction ls)
  case Nil
  then show ?case by (simp add: grep_lines.simps strchr_list_None)
next
  case (Cons l ls)
  obtain t where t: "l = t @ [10]" "10 \<notin> set t" "0 \<notin> set t" using Cons.prems by (auto simp: is_line_def)
  have IH: "grep_lines re (concat ls @ r) = (filter (\<lambda>l. match re (butlast l)) ls, r)" using Cons by simp
  have "strchr_list (t @ 10 # concat ls @ r) 10 = Some (length t)" by (rule strchr_list_line [OF t(2,3)])
  then show ?case by (subst grep_lines.simps) (simp add: t(1) IH)
qed

lemma take_lines:
  assumes "\<forall>l \<in> set ls. is_line l"
  shows "\<exists>ls1 ls2 r. ls = ls1 @ ls2 \<and> take n (concat ls) = concat ls1 @ r \<and> 10 \<notin> set r \<and> (ls \<noteq> [] \<and> length (hd ls) \<le> n \<longrightarrow> ls1 \<noteq> [])"
  using assms
proof (induction ls arbitrary: n)
  case Nil
  show ?case by (intro exI [of _ "[]"]) simp
next
  case (Cons l ls)
  show ?case
  proof (cases "length l \<le> n")
    case True
    obtain ls1 ls2 r where "ls = ls1 @ ls2" "take (n - length l) (concat ls) = concat ls1 @ r" "10 \<notin> set r"
    proof -
      have "\<forall>l \<in> set ls. is_line l" using Cons.prems by simp
      from Cons.IH [OF this, of "n - length l"] that show thesis by blast
    qed
    then show ?thesis using True by (intro exI [of _ "l # ls1"] exI [of _ ls2] exI [of _ r]) simp
  next
    case False
    obtain t where t: "l = t @ [10]" "10 \<notin> set t" using Cons.prems by (auto simp: is_line_def)
    have "take n (concat (l # ls)) = take n t" "10 \<notin> set (take n t)" using False t by (auto dest: in_set_takeD)
    then show ?thesis using False by (intro exI [of _ "[]"] exI [of _ "l # ls"] exI [of _ "take n t"]) simp
  qed
qed

lemma grep_loop_ok:
  assumes "b @ d = concat ls" "10 \<notin> set b" "\<forall>l \<in> set ls. is_line l \<and> length l \<le> 1023" "length d < fuel"
  shows "grep_loop fuel re read_file d b = Some (filter (\<lambda>l. match re (butlast l)) ls)"
  using assms
proof (induction fuel arbitrary: b d ls)
  case (Suc fuel)
  show ?case
  proof (cases "ls = []")
    case True
    then show ?thesis using Suc.prems by (simp add: read_file_def)
  next
    case False
    then obtain t ls' where ls: "ls = (t @ [10]) # ls'" "length t \<le> 1022" using Suc.prems(3) by (cases ls) (auto simp: is_line_def)
    have sh: "length b \<le> length t"
    proof (rule ccontr)
      assume "\<not> length b \<le> length t"
      then have "b ! length t \<in> set b" "b ! length t = (b @ d) ! length t" by (simp_all add: nth_append)
      then show False using Suc.prems(1,2) ls by (simp add: nth_append)
    qed
    let ?k = "1023 - length b"
    have d: "d \<noteq> []" using sh Suc.prems(1) ls by (auto dest: arg_cong [of _ _ length])
    have k: "0 < ?k" using sh ls by simp
    have rd: "read_file d (1024 - length b - 1) = (take ?k d, drop ?k d)" by (simp add: read_file_def)
    have chunk: "b @ take ?k d = take 1023 (concat ls)" using sh ls(2) by (simp flip: Suc.prems(1))
    obtain ls1 ls2 r where l: "ls = ls1 @ ls2" "b @ take ?k d = concat ls1 @ r" "10 \<notin> set r" "ls1 \<noteq> []"
    proof -
      have "\<forall>l \<in> set ls. is_line l" "length (hd ls) \<le> 1023" using Suc.prems(3) ls by auto
      then show thesis using take_lines [of ls 1023] that False unfolding chunk by blast
    qed
    have ne: "concat ls1 \<noteq> []" using l(1,4) Suc.prems(3) by (cases ls1) (auto simp: is_line_def)
    have rest: "r @ drop ?k d = concat ls2"
    proof -
      have "(b @ take ?k d) @ drop ?k d = concat ls1 @ concat ls2" using Suc.prems(1) l(1) by simp
      then show ?thesis unfolding l(2) by simp
    qed
    have "grep_loop fuel re read_file (drop ?k d) r = Some (filter (\<lambda>l. match re (butlast l)) ls2)"
    proof (rule Suc.IH [OF rest l(3)])
      show "\<forall>l \<in> set ls2. is_line l \<and> length l \<le> 1023" using Suc.prems(3) l(1) by auto
      have "0 < length d" using d by blast
      then have "length d - ?k < length d" by (rule diff_less [OF k])
      then have "length (drop ?k d) < length d" unfolding length_drop .
      then show "length (drop ?k d) < fuel" using Suc.prems(4) by linarith
    qed
    moreover have "grep_lines re (b @ take ?k d) = (filter (\<lambda>l. match re (butlast l)) ls1, r)"
      unfolding l(2) by (rule grep_lines_ok) (use Suc.prems(3) l(1,3) in auto)
    moreover have "length (b @ take ?k d) \<noteq> length r" unfolding l(2) using ne by simp
    ultimately show ?thesis using d k l(1) by (simp only: grep_loop.simps rd prod.case) simp
  qed
qed simp

text \<open>C31: grep on a file. When every line of a file ends in a newline, has no zero byte and fits into the buffer, \<open>grep\<close> returns and
  has written exactly the lines that match, in their order, wherever the borders of the reads fall.\<close>

theorem grep_prints:
  assumes "\<forall>l \<in> set ls. is_line l \<and> length l \<le> 1023" "length (concat ls) < fuel"
  shows "grep fuel re read_file (concat ls) = Some (filter (\<lambda>l. match re (butlast l)) ls)"
  unfolding grep_def by (rule grep_loop_ok) (use assms in simp_all)

theorem grep_prints_witness: "grep 9 [98, 36] read_file (concat [[97, 98, 10], [98, 99, 10], [10]]) = Some [[97, 98, 10]]"
proof -
  have m: "match [98, 36] [97, 98]" "\<not> match [98, 36] [98, 99]" "\<not> match [98, 36] []"
    by (simp_all add: match_step)
  show ?thesis
    by (subst grep_prints) (simp_all add: is_line_def m)
qed

lemma grep_short_read:
  "grep (Suc (Suc (Suc 0))) [97, 98] (\<lambda>st k. case st of [] \<Rightarrow> ([], []) | c # cs \<Rightarrow> (c, cs)) [[97], [98, 10]] = Some []" "match [97, 98] [97, 98]"
  by (simp_all add: match_step grep_def grep_lines.simps)

end
