(* ===== verification/PageTable.thy ===== *)
theory PageTable
  imports Vm
begin

text \<open>
  Page tables as maps from pages to entries (\<open>walkpgdir\<close>, \<open>mappages\<close> in \<open>vm.c\<close>, and the paging hardware that reads what they build).
\<close>

section \<open>The tree behind a page directory\<close>

definition pdir :: "bmem \<Rightarrow> uint \<Rightarrow> nat \<Rightarrow> uint" where
  "pdir m d k = load32 m (kp d + 4 * k)"

definition present :: "uint \<Rightarrow> bool" where
  "present e \<longleftrightarrow> e AND PTE_P \<noteq> 0"

definition table :: "uint \<Rightarrow> uint" where
  "table e = P2V (PTE_ADDR e)"

text \<open>The entry for the page of \<open>va\<close>; 0 where there is no page table.\<close>

definition entry :: "bmem \<Rightarrow> uint \<Rightarrow> uint \<Rightarrow> uint" where
  "entry m d va = (let e = pdir m d (unat (PDX va)) in if present e then load32 m (kp (table e) + 4 * unat (PTX va)) else 0)"

text \<open>The directory and its tables are pages of their own, none of them free.\<close>

definition pd_ok :: "uint \<Rightarrow> uint \<Rightarrow> bmem \<Rightarrow> uint list \<Rightarrow> bool" where
  "pd_ok e d m ps \<longleftrightarrow> page_ok e d \<and> d \<notin> set ps
     \<and> (\<forall>k < 1024. present (pdir m d k) \<longrightarrow> page_ok e (table (pdir m d k)) \<and> table (pdir m d k) \<notin> set ps \<and> table (pdir m d k) \<noteq> d \<and> pdir m d k AND 7 = 7)
     \<and> (\<forall>k < 1024. \<forall>j < 1024. present (pdir m d k) \<longrightarrow> present (pdir m d j) \<longrightarrow> table (pdir m d k) = table (pdir m d j) \<longrightarrow> k = j)"

definition page_of :: "uint \<Rightarrow> uint" where
  "page_of va = drop_bit 12 va"

definition tables :: "bmem \<Rightarrow> uint \<Rightarrow> uint set" where
  "tables m d = (\<lambda>k. table (pdir m d k)) ` {k. k < 1024 \<and> present (pdir m d k)}"

definition vm_state :: "nat \<Rightarrow> lockid set \<Rightarrow> uint \<Rightarrow> uint list \<Rightarrow> 'a kstate_scheme \<Rightarrow> bool" where
  "vm_state p L d ps s \<longleftrightarrow> ctx p L s \<and> LKmem \<notin> L \<and> kmem_inv (mm s) ps \<and> pd_ok (kend (mm s)) d (mem (mm s)) ps"

text \<open>From \<open>s\<close> to \<open>t\<close> some free pages have become page tables, and nothing outside the directory, its tables and these pages has changed.\<close>

definition vm_step :: "nat \<Rightarrow> lockid set \<Rightarrow> uint \<Rightarrow> 'a kstate_scheme \<Rightarrow> uint list \<Rightarrow> 'a kstate_scheme \<Rightarrow> uint list \<Rightarrow> bool" where
  "vm_step p L d s ps t ps' \<longleftrightarrow> vm_state p L d ps' t \<and> krest t = krest s \<and> kend (mm t) = kend (mm s) \<and> (\<exists>qs. ps = qs @ ps')
     \<and> tables (mem (mm t)) d \<subseteq> tables (mem (mm s)) d \<union> (set ps - set ps')
     \<and> (\<forall>a. (\<forall>v \<in> insert d (tables (mem (mm s)) d) \<union> (set ps - set ps'). a < kp v \<or> kp v + 4096 \<le> a) \<longrightarrow> mem (mm t) a = mem (mm s) a)"

text \<open>The first \<open>j\<close> pages from \<open>a\<close> on have been mapped to the pages from \<open>pa\<close> on.\<close>

definition mapped :: "bmem \<Rightarrow> bmem \<Rightarrow> uint \<Rightarrow> uint \<Rightarrow> uint \<Rightarrow> uint \<Rightarrow> nat \<Rightarrow> bool" where
  "mapped m m' d a pa perm j \<longleftrightarrow>
     (\<forall>i < j. \<forall>x. page_of x = page_of (a + of_nat (PGSIZE * i)) \<longrightarrow> entry m' d x = (pa + of_nat (PGSIZE * i)) OR perm OR PTE_P)
     \<and> (\<forall>x. (\<forall>i < j. page_of x \<noteq> page_of (a + of_nat (PGSIZE * i))) \<longrightarrow> entry m' d x = entry m d x)"

definition npages :: "uint \<Rightarrow> uint \<Rightarrow> nat" where
  "npages va len = Suc (unat (drop_bit 12 (PGROUNDDOWN (va + len - 1) - PGROUNDDOWN va)))"

text \<open>A machine with an empty page directory in use and two free pages.\<close>

definition vm_machine :: kstate where
  "vm_machine = upd_pt (\<lambda>t. t\<lparr>cr3 := 0x302000\<rparr>) two_pages"

section \<open>Bits\<close>

lemma aligned_and: "v mod 4096 = 0 \<longleftrightarrow> (v :: uint) AND 0xFFF = 0"
proof -
  have "v mod 4096 = take_bit 12 v" by (simp add: take_bit_eq_mod)
  also have "\<dots> = v AND 0xFFF" by (simp add: take_bit_eq_mask mask_eq_exp_minus_1)
  finally show ?thesis by simp
qed

lemma pte_addr_flags:
  assumes "x mod 4096 = 0" "f AND NOT 0xFFF = 0"
  shows "PTE_ADDR (x OR f) = x"
proof -
  have "x = (x AND y) OR (x AND NOT y)" for y by (rule bit_word_eqI) (auto simp: bit_simps)
  from this [of "0xFFF"] have "x AND NOT 0xFFF = x" using assms(1) unfolding aligned_and by simp
  then show ?thesis using assms(2) by (simp add: PTE_ADDR_def bit.conj_disj_distrib2)
qed

lemma index_bounds: "unat (PDX va) < 1024" "unat (PTX va) < 1024"
proof -
  have "unat (PDX va) = unat va div 2 ^ 22" by (simp add: PDX_def drop_bit_eq_div unat_div)
  then show "unat (PDX va) < 1024" using unsigned_less [of va, where ?'a = nat] by (simp add: div_less_iff_less_mult)
  have "PTX va = take_bit 10 (drop_bit 12 va)" by (simp add: PTX_def take_bit_eq_mask mask_eq_exp_minus_1)
  then show "unat (PTX va) < 1024" using take_bit_nat_less_exp [of 10 "unat (drop_bit 12 va)"] by (simp add: unsigned_take_bit_eq)
qed

lemma page_index: "page_of a = page_of b \<longleftrightarrow> PDX a = PDX b \<and> PTX a = PTX b"
proof
  assume "page_of a = page_of b"
  then have p: "drop_bit 12 a = drop_bit 12 b" by (simp add: page_of_def)
  have x: "PDX x = drop_bit 10 (drop_bit 12 x)" for x by (simp add: PDX_def)
  show "PDX a = PDX b \<and> PTX a = PTX b" unfolding x PTX_def p by simp
next
  assume e: "PDX a = PDX b \<and> PTX a = PTX b"
  have "page_of x = push_bit 10 (PDX x) OR PTX x" for x
  proof -
    have "PTX x = take_bit 10 (drop_bit 12 x)" by (simp add: PTX_def take_bit_eq_mask mask_eq_exp_minus_1)
    moreover have "push_bit 10 (PDX x) OR take_bit 10 (drop_bit 12 x) = drop_bit 12 x"
      unfolding PDX_def by (rule bit_word_eqI) (auto simp: bit_simps)
    ultimately show ?thesis by (simp add: page_of_def)
  qed
  then show "page_of a = page_of b" using e by simp
qed

lemma kp_slot:
  assumes "page_ok e v" "k < 1024"
  shows "kp (v + 4 * of_nat k) = kp v + 4 * k"
proof -
  note v = page_ok_nat [OF assms(1)]
  have "V2P v < PHYSTOP" using assms(1) by (simp add: page_ok_def)
  then have b: "kp v < 0xE000000" by (simp add: kp_def word_less_nat_alt)
  have k: "unat (4 * of_nat k :: uint) = 4 * k" using assms(2) by (simp add: unat_word_ariths unat_of_nat)
  have "kp (v + 4 * of_nat k) = unat (V2P v + 4 * of_nat k)" by (simp add: kp_def V2P_def algebra_simps)
  also have "\<dots> = kp v + 4 * k" unfolding unat_word_ariths(1) k using b assms(2) by (simp add: kp_def)
  finally show ?thesis .
qed

lemma kp_P2V: "kp (P2V x) = unat x"
  by (simp add: kp_def P2V_def V2P_def)

lemma kp_index:
  assumes "page_ok e v"
  shows "kp (v + 4 * PDX va) = kp v + 4 * unat (PDX va)" "kp (v + 4 * PTX va) = kp v + 4 * unat (PTX va)"
  using kp_slot [OF assms index_bounds(1)] kp_slot [OF assms index_bounds(2)] by simp_all

section \<open>Two ways to change the tree\<close>

lemma pd_okD:
  assumes "pd_ok e d m ps"
  shows "page_ok e d" "d \<notin> set ps"
    "k < 1024 \<Longrightarrow> present (pdir m d k) \<Longrightarrow> page_ok e (table (pdir m d k)) \<and> table (pdir m d k) \<notin> set ps \<and> table (pdir m d k) \<noteq> d \<and> pdir m d k AND 7 = 7"
    "k < 1024 \<Longrightarrow> j < 1024 \<Longrightarrow> present (pdir m d k) \<Longrightarrow> present (pdir m d j) \<Longrightarrow> table (pdir m d k) = table (pdir m d j) \<Longrightarrow> k = j"
  using assms unfolding pd_ok_def by blast+

text \<open>Words in different pages, or at different places of one page.\<close>

lemma slots_apart:
  assumes "page_ok e v" "page_ok e w" "k < 1024" "j < 1024" "v \<noteq> w \<or> k \<noteq> j"
  shows "load32 (store32 (kp v + 4 * k) x m) (kp w + 4 * j) = load32 m (kp w + 4 * j)"
proof (rule load32_store32_other)
  show "kp w + 4 * j + 4 \<le> kp v + 4 * k \<or> kp v + 4 * k + 4 \<le> kp w + 4 * j"
  proof (cases "v = w")
    case True
    then show ?thesis using assms(5) by auto
  next
    case False
    then show ?thesis using pages_disjoint [OF assms(1,2) False] assms(3,4) by auto
  qed
qed

lemma zeroed_apart:
  assumes "page_ok e v" "page_ok e w" "v \<noteq> w" "j < 1024"
  shows "load32 (memset (kp v) 0 4096 m) (kp w + 4 * j) = load32 m (kp w + 4 * j)"
  by (rule load32_cong) (use pages_disjoint [OF assms(1-3)] assms(4) in \<open>auto simp: memset_apply\<close>)

lemma zeroed_word: "j < 1024 \<Longrightarrow> load32 (memset a 0 4096 m) (a + 4 * j) = 0"
  by (simp add: load32_def memset_apply)

lemma set_entry:
  fixes w :: uint
  assumes ok: "pd_ok e d m ps" and pr: "present (pdir m d (unat (PDX va)))"
  defines "m' \<equiv> store32 (kp (table (pdir m d (unat (PDX va)))) + 4 * unat (PTX va)) w m"
  shows "pdir m' d k = (if k < 1024 then pdir m d k else pdir m' d k)" "pd_ok e d m' ps" "entry m' d x = (if page_of x = page_of va then w else entry m d x)"
proof -
  let ?k = "unat (PDX va)" and ?j = "unat (PTX va)"
  let ?T = "table (pdir m d ?k)"
  note T = pd_okD(3) [OF ok index_bounds(1) pr]
  have p: "pdir m' d k = pdir m d k" if "k < 1024" for k
    using slots_apart [OF conjunct1 [OF T] pd_okD(1) [OF ok] index_bounds(2) that, of va w m] T by (simp add: pdir_def m'_def)
  then show "pdir m' d k = (if k < 1024 then pdir m d k else pdir m' d k)" by simp
  show "pd_ok e d m' ps" using ok p unfolding pd_ok_def by simp
  show "entry m' d x = (if page_of x = page_of va then w else entry m d x)"
  proof (cases "present (pdir m d (unat (PDX x)))")
    case True
    note X = pd_okD(3) [OF ok index_bounds(1) True]
    show ?thesis
    proof (cases "page_of x = page_of va")
      case same: True
      then have i: "PDX x = PDX va" "PTX x = PTX va" by (simp_all add: page_index)
      show ?thesis using same pr unfolding entry_def Let_def p [OF index_bounds(1)] i by (simp add: m'_def load32_store32_same)
    next
      case False
      then have "PDX x \<noteq> PDX va \<or> PTX x \<noteq> PTX va" by (simp add: page_index)
      then have ne: "?T \<noteq> table (pdir m d (unat (PDX x))) \<or> ?j \<noteq> unat (PTX x)"
        using pd_okD(4) [OF ok index_bounds(1) index_bounds(1) pr True] by (auto simp: word_unat_eq_iff)
      show ?thesis using False True unfolding entry_def Let_def p [OF index_bounds(1)]
        by (simp add: m'_def slots_apart [OF conjunct1 [OF T] conjunct1 [OF X] index_bounds(2) index_bounds(2) ne])
    qed
  next
    case False
    then have "page_of x \<noteq> page_of va" using pr by (auto simp: page_index)
    then show ?thesis using False unfolding entry_def Let_def p [OF index_bounds(1)] by simp
  qed
qed

lemma new_table:
  assumes ok: "pd_ok e d m (g # ps)" and g: "page_ok e g" "g \<notin> set ps" and k: "k < 1024" "\<not> present (pdir m d k)"
  defines "m' \<equiv> store32 (kp d + 4 * k) (V2P g OR PTE_P OR PTE_W OR PTE_U) (memset (kp g) 0 4096 m)"
  shows "table (pdir m' d k) = g" "present (pdir m' d k)" "pd_ok e d m' ps" "entry m' d x = entry m d x"
proof -
  let ?w = "V2P g OR PTE_P OR PTE_W OR PTE_U"
  note D = pd_okD [OF ok]
  have gd: "g \<noteq> d" using D(2) by auto
  have w: "?w = V2P g OR 7" by (simp add: or.assoc)
  have al: "V2P g mod 4096 = 0"
  proof -
    have "unat (V2P g) mod 4096 = 0" using page_ok_nat(3) [OF g(1)] by (simp add: kp_def)
    then have "unat (V2P g mod 4096) = 0" by (simp add: unat_mod)
    then show ?thesis by (simp only: unat_eq_0)
  qed
  have pk: "pdir m' d k = ?w" unfolding pdir_def m'_def by (rule load32_store32_same)
  have po: "pdir m' d j = pdir m d j" if "j < 1024" "j \<noteq> k" for j
  proof -
    have "pdir m' d j = load32 (memset (kp g) 0 4096 m) (kp d + 4 * j)"
      unfolding pdir_def m'_def by (rule slots_apart [OF D(1) D(1) k(1) that(1)]) (use that(2) in auto)
    then show ?thesis unfolding pdir_def using zeroed_apart [OF g(1) D(1) gd that(1)] by simp
  qed
  have ad: "PTE_ADDR ?w = V2P g" unfolding w by (rule pte_addr_flags [OF al]) simp
  show t: "table (pdir m' d k) = g" unfolding pk table_def ad by (simp add: P2V_def V2P_def)
  have b7: "?w AND 7 = 7" 
  proof -
    have "(y OR z) AND z = z" for y z :: uint by (rule bit_word_eqI) (auto simp: bit_simps)
    then show ?thesis unfolding w .
  qed
  show pr: "present (pdir m' d k)"
  proof -
    have "?w AND 1 = ?w AND (7 AND 1)" by simp
    also have "\<dots> = (?w AND 7) AND 1" by (rule and.assoc [symmetric])
    also have "\<dots> = 1" unfolding b7 by simp
    finally show ?thesis unfolding pk present_def by simp
  qed
  show "pd_ok e d m' ps"
    unfolding pd_ok_def
  proof (intro conjI allI impI)
    show "page_ok e d" "d \<notin> set ps" using D(1,2) by simp_all
    fix j assume j: "j < 1024" "present (pdir m' d j)"
    then show "page_ok e (table (pdir m' d j))" "table (pdir m' d j) \<notin> set ps" "table (pdir m' d j) \<noteq> d" "pdir m' d j AND 7 = 7"
      using D(3) [OF j(1)] po [OF j(1)] t g gd b7 pk by (cases "j = k"; simp)+
  next
    fix i j assume i: "i < 1024" "j < 1024" "present (pdir m' d i)" "present (pdir m' d j)" "table (pdir m' d i) = table (pdir m' d j)"
    have ng: "table (pdir m' d j) \<noteq> g" if "j < 1024" "j \<noteq> k" "present (pdir m' d j)" for j
      using D(3) [OF that(1)] that(3) unfolding po [OF that(1,2)] by auto
    show "i = j"
    proof (cases "i = k")
      case True
      then show ?thesis using ng [OF i(2) _ i(4)] i(5) t by auto
    next
      case ik: False
      then have jk: "j \<noteq> k" using ng [OF i(1) ik i(3)] i(5) t by auto
      then show ?thesis using D(4) [OF i(1,2)] i(3-5) unfolding po [OF i(1) ik] po [OF i(2) jk] by simp
    qed
  qed
  show "entry m' d x = entry m d x"
  proof (cases "unat (PDX x) = k")
    case True
    have "load32 m' (kp g + 4 * unat (PTX x)) = load32 (memset (kp g) 0 4096 m) (kp g + 4 * unat (PTX x))"
      unfolding m'_def by (rule slots_apart [OF D(1) g(1) k(1) index_bounds(2)]) (use gd in auto)
    then show ?thesis using True t pr k(2) zeroed_word [OF index_bounds(2)] by (simp add: entry_def Let_def)
  next
    case False
    let ?e = "pdir m d (unat (PDX x))"
    show ?thesis
    proof (cases "present ?e")
      case True
      note X = D(3) [OF index_bounds(1) True]
      have "load32 m' (kp (table ?e) + 4 * unat (PTX x)) = load32 (memset (kp g) 0 4096 m) (kp (table ?e) + 4 * unat (PTX x))"
        unfolding m'_def by (rule slots_apart [OF D(1) conjunct1 [OF X] k(1) index_bounds(2)]) (use X in auto)
      also have "\<dots> = load32 m (kp (table ?e) + 4 * unat (PTX x))"
        by (rule zeroed_apart [OF g(1) conjunct1 [OF X] _ index_bounds(2)]) (use X in auto)
      finally show ?thesis using True by (simp add: entry_def Let_def po [OF index_bounds(1) False])
    next
      case no: False
      then show ?thesis by (simp add: entry_def Let_def po [OF index_bounds(1) False])
    qed
  qed
qed

section \<open>Walking and mapping\<close>

lemma vm_step_trans:
  assumes "vm_step p L d s ps t ps'" "vm_step p L d t ps' u ps''"
  shows "vm_step p L d s ps u ps''"
proof -
  note s = assms(1) [unfolded vm_step_def] and t = assms(2) [unfolded vm_step_def]
  obtain qs rs where q: "ps = qs @ ps'" "ps' = rs @ ps''" using s t by blast
  have sub: "set ps' - set ps'' \<subseteq> set ps - set ps''" "set ps - set ps' \<subseteq> set ps - set ps''" using q by auto
  have tb: "tables (mem (mm u)) d \<subseteq> tables (mem (mm s)) d \<union> (set ps - set ps'')" using s t sub by blast
  have "mem (mm u) a = mem (mm s) a" if a: "\<forall>v \<in> insert d (tables (mem (mm s)) d) \<union> (set ps - set ps''). a < kp v \<or> kp v + 4096 \<le> a" for a
  proof -
    have "\<forall>v \<in> insert d (tables (mem (mm s)) d) \<union> (set ps - set ps'). a < kp v \<or> kp v + 4096 \<le> a" using a sub(2) by blast
    then have "mem (mm t) a = mem (mm s) a" using s by simp
    moreover have "\<forall>v \<in> insert d (tables (mem (mm t)) d) \<union> (set ps' - set ps''). a < kp v \<or> kp v + 4096 \<le> a"
    proof
      fix v assume "v \<in> insert d (tables (mem (mm t)) d) \<union> (set ps' - set ps'')"
      then have "v \<in> insert d (tables (mem (mm s)) d) \<union> (set ps - set ps'')" using s sub by blast
      then show "a < kp v \<or> kp v + 4096 \<le> a" using a by blast
    qed
    then have "mem (mm u) a = mem (mm t) a" using t by simp
    ultimately show ?thesis by simp
  qed
  moreover have "vm_state p L d ps'' u" "krest u = krest s" "kend (mm u) = kend (mm s)" using s t by auto
  moreover have "\<exists>qs. ps = qs @ ps''" using q by auto
  ultimately show ?thesis unfolding vm_step_def using tb by blast
qed

lemma vm_step_refl: "vm_state p L d ps s \<Longrightarrow> vm_step p L d s ps s ps"
  by (simp add: vm_step_def)

lemma kmem_inv_mem:
  assumes "kmem_inv k ps" "\<And>q. q \<in> set ps \<Longrightarrow> load32 m (kp q) = load32 (mem k) (kp q)"
  shows "kmem_inv (k\<lparr>mem := m\<rparr>) ps"
  using assms flist_cong [of ps m "mem k" "freelist k"] by (simp add: kmem_inv_def)

lemma set_entry_state:
  fixes w :: uint
  assumes st: "vm_state p L d ps s" and pr: "present (pdir (mem (mm s)) d (unat (PDX va)))"
  defines "t \<equiv> upd_mem (store32 (kp (table (pdir (mem (mm s)) d (unat (PDX va)))) + 4 * unat (PTX va)) w) s"
  shows "vm_step p L d s ps t ps" "entry (mem (mm t)) d x = (if page_of x = page_of va then w else entry (mem (mm s)) d x)"
proof -
  let ?m = "mem (mm s)" and ?e = "kend (mm s)"
  let ?T = "table (pdir ?m d (unat (PDX va)))"
  note s = st [unfolded vm_state_def]
  have ok: "pd_ok ?e d ?m ps" using s by simp
  note T = pd_okD(3) [OF ok index_bounds(1) pr]
  note se = set_entry [OF ok pr, of w]
  show "entry (mem (mm t)) d x = (if page_of x = page_of va then w else entry ?m d x)" using se(3) by (simp add: t_def)
  have "load32 (store32 (kp ?T + 4 * unat (PTX va)) w ?m) (kp q) = load32 ?m (kp q)" if "q \<in> set ps" for q
  proof -
    have "page_ok ?e q" using s that by (auto simp: kmem_inv_def)
    then show ?thesis using slots_apart [OF conjunct1 [OF T] _ index_bounds(2), of q 0] T that by auto
  qed
  then have "kmem_inv ((mm s)\<lparr>mem := store32 (kp ?T + 4 * unat (PTX va)) w ?m\<rparr>) ps" using s by (intro kmem_inv_mem) auto
  then have v: "vm_state p L d ps t" using s se(2) by (simp add: vm_state_def t_def)
  have tb: "tables (mem (mm t)) d = tables ?m d"
  proof -
    have "pdir (mem (mm t)) d k = pdir ?m d k" if "k < 1024" for k using se(1) [of k] that by (simp add: t_def)
    then show ?thesis unfolding tables_def by (intro image_cong) auto
  qed
  have "mem (mm t) a = ?m a" if "\<forall>v \<in> insert d (tables ?m d) \<union> (set ps - set ps). a < kp v \<or> kp v + 4096 \<le> a" for a
  proof -
    have "?T \<in> tables ?m d" unfolding tables_def using pr index_bounds(1) by blast
    then have "a < kp ?T \<or> kp ?T + 4096 \<le> a" using that by blast
    then show ?thesis using index_bounds(2) [of va] by (auto simp: t_def store32_other)
  qed
  then show "vm_step p L d s ps t ps" unfolding vm_step_def using v tb by (simp add: t_def krest_def) (simp add: upd_mem_def)
qed

lemma new_table_state:
  assumes st: "vm_state p L d (g # ps) s" and k: "k < 1024" "\<not> present (pdir (mem (mm s)) d k)"
    and t: "ctx p L t" "krest t = krest s" "kend (mm t) = kend (mm s)" "mem (mm t) = mem (mm s)" "kmem_inv (mm t) ps"
  defines "u \<equiv> upd_mem (store32 (kp d + 4 * k) (V2P g OR PTE_P OR PTE_W OR PTE_U)) (upd_mem (memset (kp g) 0 PGSIZE) t)"
  shows "vm_step p L d s (g # ps) u ps" "table (pdir (mem (mm u)) d k) = g" "present (pdir (mem (mm u)) d k)" "entry (mem (mm u)) d x = entry (mem (mm s)) d x"
proof -
  let ?m = "mem (mm s)" and ?e = "kend (mm s)" and ?w = "V2P g OR PTE_P OR PTE_W OR PTE_U"
  note s = st [unfolded vm_state_def]
  have ok: "pd_ok ?e d ?m (g # ps)" and fr: "kmem_inv (mm s) (g # ps)" and lk: "LKmem \<notin> L" using s by simp_all
  have g: "page_ok ?e g" "g \<notin> set ps" and ps: "\<And>q. q \<in> set ps \<Longrightarrow> page_ok ?e q" using fr by (auto simp: kmem_inv_def)
  note nt = new_table [OF ok g k]
  define m' where "m' = store32 (kp d + 4 * k) ?w (memset (kp g) 0 4096 ?m)"
  have mu: "mem (mm u) = m'" "kend (mm u) = ?e" "mm u = (mm t)\<lparr>mem := m'\<rparr>" by (simp_all add: u_def m'_def t)
  show "table (pdir (mem (mm u)) d k) = g" "present (pdir (mem (mm u)) d k)" "entry (mem (mm u)) d x = entry ?m d x"
    unfolding mu(1) m'_def by (rule nt)+
  have dg: "d \<noteq> g" "d \<notin> set ps" using pd_okD(2) [OF ok] by auto
  have "load32 m' (kp q) = load32 (mem (mm t)) (kp q)" if "q \<in> set ps" for q
  proof -
    have "load32 m' (kp q) = load32 (memset (kp g) 0 4096 ?m) (kp q)"
      using slots_apart [OF pd_okD(1) [OF ok] ps [OF that] k(1), of 0 ?w "memset (kp g) 0 4096 ?m"] dg(2) that by (auto simp: m'_def)
    also have "\<dots> = load32 ?m (kp q)" using zeroed_apart [OF g(1) ps [OF that], of 0 ?m] g(2) that by auto
    finally show ?thesis by (simp add: t)
  qed
  then have "kmem_inv (mm u) ps" unfolding mu(3) by (rule kmem_inv_mem [OF t(5)])
  moreover have "pd_ok ?e d (mem (mm u)) ps" unfolding mu(1) m'_def by (rule nt(3))
  moreover have "ctx p L u" using t(1) by (simp add: u_def)
  ultimately have v: "vm_state p L d ps u" using lk mu by (simp add: vm_state_def)
  have tb: "tables m' d \<subseteq> insert g (tables ?m d)"
  proof
    fix x assume "x \<in> tables m' d"
    then obtain j where j: "j < 1024" "present (pdir m' d j)" "x = table (pdir m' d j)" by (auto simp: tables_def)
    show "x \<in> insert g (tables ?m d)"
    proof (cases "j = k")
      case True
      then show ?thesis using j(3) nt(1) by (simp add: m'_def)
    next
      case False
      have "pdir m' d j = load32 (memset (kp g) 0 4096 ?m) (kp d + 4 * j)"
        unfolding pdir_def m'_def by (rule slots_apart [OF pd_okD(1) [OF ok] pd_okD(1) [OF ok] k(1) j(1)]) (use False in auto)
      also have "\<dots> = pdir ?m d j" unfolding pdir_def by (rule zeroed_apart [OF g(1) pd_okD(1) [OF ok] dg(1) [symmetric] j(1)])
      finally show ?thesis using j by (auto simp: tables_def)
    qed
  qed
  have out: "m' a = ?m a" if "\<forall>v \<in> insert d (tables ?m d) \<union> (set (g # ps) - set ps). a < kp v \<or> kp v + 4096 \<le> a" for a
  proof -
    have "a < kp d \<or> kp d + 4096 \<le> a" "a < kp g \<or> kp g + 4096 \<le> a" using that g(2) by auto
    then show ?thesis using k(1) by (auto simp: m'_def store32_other memset_apply)
  qed
  have "krest u = krest s" using t(2) by (simp add: u_def krest_def) (simp add: upd_mem_def)
  then show "vm_step p L d s (g # ps) u ps" unfolding vm_step_def using v tb out g(2) mu by auto
qed

lemma walkpgdir_ok:
  assumes st: "vm_state p L d ps s"
  shows "wp (walkpgdir d va True) (\<lambda>r t. \<exists>ps'. vm_step p L d s ps t ps' \<and> (\<forall>x. entry (mem (mm t)) d x = entry (mem (mm s)) d x)
      \<and> (case r of None \<Rightarrow> ps = [] | Some a \<Rightarrow> length ps \<le> Suc (length ps') \<and> present (pdir (mem (mm t)) d (unat (PDX va))) \<and> a = table (pdir (mem (mm t)) d (unat (PDX va))) + 4 * PTX va)) s"
proof -
  let ?m = "mem (mm s)" and ?k = "unat (PDX va)"
  note s = st [unfolded vm_state_def]
  have ok: "pd_ok (kend (mm s)) d ?m ps" using s by simp
  have rd: "wp (rd32 (d + 4 * PDX va)) P s \<longleftrightarrow> P (pdir ?m d ?k) s" for P
    by (simp add: rd32_def wps pdir_def kp_index [OF pd_okD(1) [OF ok]])
  show ?thesis
  proof (cases "present (pdir ?m d ?k)")
    case True
    then show ?thesis using vm_step_refl [OF st] unfolding walkpgdir_def Let_def wp_kbind rd by (auto simp: present_def wps table_def)
  next
    case False
    have "wp kalloc (\<lambda>r t. kmem_post p L {} s t \<and> mem (mm t) = ?m \<and> kmem_inv (mm t) (tl ps) \<and> r = (case ps of [] \<Rightarrow> 0 | v # _ \<Rightarrow> v)) s"
      using s by (intro kalloc_ok) auto
    then have "wp kalloc (\<lambda>pgtab. wp (if pgtab = 0 then kreturn None
        else kthen (kmod (upd_mem (memset (kp pgtab) 0 PGSIZE))) (kthen (wr32 (d + 4 * PDX va) (V2P pgtab OR PTE_P OR PTE_W OR PTE_U)) (kreturn (Some (pgtab + 4 * PTX va)))))
      (\<lambda>r t. \<exists>ps'. vm_step p L d s ps t ps' \<and> (\<forall>x. entry (mem (mm t)) d x = entry ?m d x)
        \<and> (case r of None \<Rightarrow> ps = [] | Some a \<Rightarrow> length ps \<le> Suc (length ps') \<and> present (pdir (mem (mm t)) d ?k) \<and> a = table (pdir (mem (mm t)) d ?k) + 4 * PTX va))) s"
    proof (rule wp_mono, elim conjE)
      fix r t assume t: "kmem_post p L {} s t" "mem (mm t) = ?m" "kmem_inv (mm t) (tl ps)" and r: "r = (case ps of [] \<Rightarrow> 0 | v # _ \<Rightarrow> v)"
      note t' = t(1) [unfolded kmem_post_def]
      show "wp (if r = 0 then kreturn None
        else kthen (kmod (upd_mem (memset (kp r) 0 PGSIZE))) (kthen (wr32 (d + 4 * PDX va) (V2P r OR PTE_P OR PTE_W OR PTE_U)) (kreturn (Some (r + 4 * PTX va)))))
      (\<lambda>r t. \<exists>ps'. vm_step p L d s ps t ps' \<and> (\<forall>x. entry (mem (mm t)) d x = entry ?m d x)
        \<and> (case r of None \<Rightarrow> ps = [] | Some a \<Rightarrow> length ps \<le> Suc (length ps') \<and> present (pdir (mem (mm t)) d ?k) \<and> a = table (pdir (mem (mm t)) d ?k) + 4 * PTX va)) t"
      proof (cases ps)
        case Nil
        have "vm_step p L d s ps t []" using s t t' Nil unfolding vm_step_def vm_state_def by simp
        then show ?thesis using r Nil t(2) by (auto simp: wps)
      next
        case (Cons g qs)
        have g: "g \<noteq> 0" using s Cons page_ok_nat(4) by (auto simp: kmem_inv_def)
        note nt = new_table_state [OF st [unfolded Cons] index_bounds(1) False, of t] 
        show ?thesis using r g Cons t t' nt by (auto simp: wps wr32_def kp_index [OF pd_okD(1) [OF ok]])
      qed
    qed
    then show ?thesis using False unfolding walkpgdir_def Let_def wp_kbind rd by (simp add: present_def wp_kbind)
  qed
qed

lemma map_page_ok:
  assumes st: "vm_state p L d ps s" and free: "\<not> present (entry (mem (mm s)) d va)"
  shows "wp (map_page d va pa perm) (\<lambda>r t. \<exists>ps'. vm_step p L d s ps t ps'
      \<and> (case r of Some c \<Rightarrow> c = -1 \<and> ps = [] \<and> (\<forall>x. entry (mem (mm t)) d x = entry (mem (mm s)) d x)
         | None \<Rightarrow> length ps \<le> Suc (length ps') \<and> (\<forall>x. entry (mem (mm t)) d x = (if page_of x = page_of va then pa OR perm OR PTE_P else entry (mem (mm s)) d x)))) s"
  unfolding map_page_def wp_kbind
proof (rule wp_mono [OF walkpgdir_ok [OF st]], elim exE conjE)
  fix r t ps' assume t: "vm_step p L d s ps t ps'" and e: "\<forall>x. entry (mem (mm t)) d x = entry (mem (mm s)) d x"
    and r: "case r of None \<Rightarrow> ps = [] | Some a \<Rightarrow> length ps \<le> Suc (length ps') \<and> present (pdir (mem (mm t)) d (unat (PDX va))) \<and> a = table (pdir (mem (mm t)) d (unat (PDX va))) + 4 * PTX va"
  have st': "vm_state p L d ps' t" using t by (simp add: vm_step_def)
  let ?P = "\<lambda>r u. \<exists>ps'. vm_step p L d s ps u ps' \<and> (case r of Some c \<Rightarrow> c = -1 \<and> ps = [] \<and> (\<forall>x. entry (mem (mm u)) d x = entry (mem (mm s)) d x)
         | None \<Rightarrow> length ps \<le> Suc (length ps') \<and> (\<forall>x. entry (mem (mm u)) d x = (if page_of x = page_of va then pa OR perm OR PTE_P else entry (mem (mm s)) d x)))"
  show "wp (case r of None \<Rightarrow> kreturn (Some (-1)) | Some pte \<Rightarrow> kbind (rd32 pte) (\<lambda>e. if e AND PTE_P \<noteq> 0 then kpanic ''remap'' else kthen (wr32 pte (pa OR perm OR PTE_P)) (kreturn None))) ?P t"
  proof (cases r)
    case None
    then show ?thesis using t e r by (auto simp: wps)
  next
    case (Some a)
    let ?T = "table (pdir (mem (mm t)) d (unat (PDX va)))"
    have pr: "present (pdir (mem (mm t)) d (unat (PDX va)))" and a: "a = ?T + 4 * PTX va" using r Some by simp_all
    have "page_ok (kend (mm t)) ?T" using pd_okD(3) [OF _ index_bounds(1) pr] st' by (auto simp: vm_state_def)
    then have ka: "kp a = kp ?T + 4 * unat (PTX va)" unfolding a by (rule kp_index)
    have "load32 (mem (mm t)) (kp a) = entry (mem (mm t)) d va" using pr by (simp add: ka entry_def)
    then have np: "load32 (mem (mm t)) (kp a) AND PTE_P = 0" using e free by (simp add: present_def)
    note se = set_entry_state [OF st' pr, of "pa OR perm OR PTE_P"]
    have "?P None (upd_mem (store32 (kp a) (pa OR perm OR PTE_P)) t)"
      unfolding ka using vm_step_trans [OF t se(1)] se(2) e r Some by auto
    then show ?thesis using Some np by (simp add: rd32_def wr32_def wps)
  qed
qed

lemma sum_aligned:
  assumes "a mod 4096 = 0"
  shows "(a + of_nat (PGSIZE * i) :: uint) mod 4096 = 0"
proof -
  have tb: "x mod 4096 = take_bit 12 x" for x :: uint by (simp add: take_bit_eq_mod)
  have "(of_nat (PGSIZE * i) :: uint) = push_bit 12 (of_nat i)" by (simp add: push_bit_eq_mult mult.commute)
  moreover have "take_bit 12 a = 0" using assms unfolding tb .
  then have "a = push_bit 12 (drop_bit 12 a)" using bits_ident [of 12 a] by (simp only: add_0_right)
  ultimately have "a + of_nat (PGSIZE * i) = push_bit 12 (drop_bit 12 a + of_nat i)" unfolding push_bit_add by (simp only:)
  then show ?thesis unfolding tb by (simp only: take_bit_push_bit) simp
qed

lemma pages_apart:
  assumes "a mod 4096 = 0" "i < 2 ^ 20" "j < 2 ^ 20" "page_of (a + of_nat (PGSIZE * i)) = page_of (a + of_nat (PGSIZE * j))"
  shows "i = j"
proof -
  have tb: "x mod 4096 = take_bit 12 x" for x :: uint by (simp add: take_bit_eq_mod)
  have al: "take_bit 12 (a + of_nat (PGSIZE * i)) = 0" for i using sum_aligned [OF assms(1), of i] unfolding tb .
  have u: "x = push_bit 12 (page_of x)" if "take_bit 12 x = 0" for x :: uint
    using bits_ident [of 12 x] unfolding that page_of_def by (simp only: add_0_right)
  have "a + of_nat (PGSIZE * i) = a + of_nat (PGSIZE * j)" using u [OF al [of i]] u [OF al [of j]] assms(4) by (simp only:)
  then have "(of_nat (PGSIZE * i) :: uint) = of_nat (PGSIZE * j)" by simp
  then have "unat (of_nat (PGSIZE * i) :: uint) = unat (of_nat (PGSIZE * j) :: uint)" by simp
  then show ?thesis using assms(2,3) by (simp add: unat_of_nat del: of_nat_mult)
qed

lemma map_loop:
  assumes al: "a mod 4096 = 0" and n: "n < 2 ^ 20"
    and st: "vm_step p L d s ps t ps'" "mapped (mem (mm s)) (mem (mm t)) d a pa perm i" "i \<le> Suc n" "length ps \<le> length ps' + i"
    and free: "\<And>j. j \<le> n \<Longrightarrow> \<not> present (entry (mem (mm s)) d (a + of_nat (PGSIZE * j)))"
  shows "wp (kfirst (\<lambda>i. map_page d (a + of_nat (PGSIZE * i)) (pa + of_nat (PGSIZE * i)) perm) [i..<Suc n]) (\<lambda>r u. \<exists>ps'' j. vm_step p L d s ps u ps'' \<and> mapped (mem (mm s)) (mem (mm u)) d a pa perm j
      \<and> length ps \<le> length ps'' + j \<and> (r = None \<and> j = Suc n \<or> r = Some (-1) \<and> j \<le> n \<and> ps'' = [])) t"
  using st
proof (induction "Suc n - i" arbitrary: i t ps')
  case 0
  then have "i = Suc n" by simp
  then show ?case using 0 by (auto simp: wps)
next
  case (Suc x)
  then have i: "i \<le> n" by simp
  let ?a = "a + of_nat (PGSIZE * i)" and ?b = "pa + of_nat (PGSIZE * i)"
  have st: "vm_state p L d ps' t" using Suc.prems(1) by (simp add: vm_step_def)
  have apart: "page_of (a + of_nat (PGSIZE * j)) \<noteq> page_of ?a" if "j < i" for j
    using pages_apart [OF al, of j i] that i n by auto
  have "entry (mem (mm t)) d ?a = entry (mem (mm s)) d ?a"
    using Suc.prems(2) apart unfolding mapped_def by metis
  then have np: "\<not> present (entry (mem (mm t)) d ?a)" using free [OF i] by simp
  have up: "[i..<Suc n] = i # [Suc i..<Suc n]" using i by (simp add: upt_conv_Cons)
  show ?case
    unfolding up kfirst.simps wp_kbind
  proof (rule wp_mono [OF map_page_ok [OF st np]], elim exE conjE)
    fix r :: "int option" and u qs assume u: "vm_step p L d t ps' u qs"
      and r: "case r of Some c \<Rightarrow> c = -1 \<and> ps' = [] \<and> (\<forall>x. entry (mem (mm u)) d x = entry (mem (mm t)) d x)
         | None \<Rightarrow> length ps' \<le> Suc (length qs) \<and> (\<forall>x. entry (mem (mm u)) d x = (if page_of x = page_of ?a then ?b OR perm OR PTE_P else entry (mem (mm t)) d x))"
    note su = vm_step_trans [OF Suc.prems(1) u]
    show "wp (case r of None \<Rightarrow> kfirst (\<lambda>i. map_page d (a + of_nat (PGSIZE * i)) (pa + of_nat (PGSIZE * i)) perm) [Suc i..<Suc n] | Some x \<Rightarrow> kreturn (Some x))
       (\<lambda>r u. \<exists>ps'' j. vm_step p L d s ps u ps'' \<and> mapped (mem (mm s)) (mem (mm u)) d a pa perm j \<and> length ps \<le> length ps'' + j \<and> (r = None \<and> j = Suc n \<or> r = Some (-1) \<and> j \<le> n \<and> ps'' = [])) u"
    proof (cases r)
      case (Some c)
      have "mapped (mem (mm s)) (mem (mm u)) d a pa perm i" using Suc.prems(2) r Some by (simp add: mapped_def)
      moreover have "qs = []" "length ps \<le> i" using u r Some Suc.prems(4) by (auto simp: vm_step_def)
      ultimately show ?thesis using Some r su i by (auto simp: wps intro!: exI [of _ "[]"])
    next
      case None
      then have e: "\<forall>x. entry (mem (mm u)) d x = (if page_of x = page_of ?a then ?b OR perm OR PTE_P else entry (mem (mm t)) d x)" and l: "length ps' \<le> Suc (length qs)" using r by simp_all
      have "mapped (mem (mm s)) (mem (mm u)) d a pa perm (Suc i)"
        unfolding mapped_def
      proof (intro conjI allI impI)
        fix j x assume j: "j < Suc i" "page_of x = page_of (a + of_nat (PGSIZE * j))"
        show "entry (mem (mm u)) d x = (pa + of_nat (PGSIZE * j)) OR perm OR PTE_P"
        proof (cases "j = i")
          case True
          then show ?thesis using e j(2) by simp
        next
          case False
          then have "j < i" using j(1) by simp
          then show ?thesis using e j(2) apart [of j] Suc.prems(2) unfolding mapped_def by metis
        qed
      next
        fix x assume "\<forall>j < Suc i. page_of x \<noteq> page_of (a + of_nat (PGSIZE * j))"
        then show "entry (mem (mm u)) d x = entry (mem (mm s)) d x"
          using e Suc.prems(2) unfolding mapped_def by (metis lessI less_Suc_eq)
      qed
      then show ?thesis unfolding None option.case using Suc.hyps(2) Suc.prems(4) l i by (intro Suc.hyps(1) [OF _ su]) auto
    qed
  qed
qed

lemma round_aligned: "PGROUNDDOWN va mod 4096 = 0"
proof -
  have "PGROUNDDOWN va AND 0xFFF = va AND (NOT 0xFFF AND 0xFFF)" by (simp add: PGROUNDDOWN_def and.assoc)
  then show ?thesis unfolding aligned_and by simp
qed

lemma mappages_ok:
  assumes st: "vm_state p L d ps s" and free: "\<And>i. i < npages va len \<Longrightarrow> \<not> present (entry (mem (mm s)) d (PGROUNDDOWN va + of_nat (PGSIZE * i)))"
  shows "wp (mappages d va len pa perm) (\<lambda>r t. \<exists>ps' j. vm_step p L d s ps t ps' \<and> mapped (mem (mm s)) (mem (mm t)) d (PGROUNDDOWN va) pa perm j
      \<and> length ps \<le> length ps' + j \<and> (r = 0 \<and> j = npages va len \<or> r = -1 \<and> j < npages va len \<and> ps' = [])) s"
proof -
  define a where "a = PGROUNDDOWN va"
  define n where "n = unat (drop_bit 12 (PGROUNDDOWN (va + len - 1) - a))"
  have np: "npages va len = Suc n" by (simp add: npages_def n_def a_def)
  have n: "n < 2 ^ 20"
  proof -
    have "n = unat (PGROUNDDOWN (va + len - 1) - a) div 2 ^ 12" unfolding n_def by (simp add: drop_bit_eq_div unat_div)
    also have "\<dots> < 2 ^ 20" using unsigned_less [of "PGROUNDDOWN (va + len - 1) - a", where ?'a = nat] by (simp add: div_less_iff_less_mult)
    finally show ?thesis .
  qed
  have free': "\<And>j. j \<le> n \<Longrightarrow> \<not> present (entry (mem (mm s)) d (a + of_nat (PGSIZE * j)))" using free np by (simp add: a_def)
  have "mapped (mem (mm s)) (mem (mm s)) d a pa perm 0" by (simp add: mapped_def)
  note loop = map_loop [OF round_aligned [of va, folded a_def] n vm_step_refl [OF st] this le0 _ free']
  show ?thesis
    unfolding mappages_def Let_def a_def [symmetric] n_def [symmetric] wp_kbind np
  proof (rule wp_mono [OF loop])
    fix r :: "int option" and t assume "\<exists>ps'' j. vm_step p L d s ps t ps'' \<and> mapped (mem (mm s)) (mem (mm t)) d a pa perm j
      \<and> length ps \<le> length ps'' + j \<and> (r = None \<and> j = Suc n \<or> r = Some (-1) \<and> j \<le> n \<and> ps'' = [])"
    then obtain qs j where q: "vm_step p L d s ps t qs" "mapped (mem (mm s)) (mem (mm t)) d a pa perm j" "length ps \<le> length qs + j"
      "r = None \<and> j = Suc n \<or> r = Some (-1) \<and> j \<le> n \<and> qs = []" by blast
    then have "(case r of None \<Rightarrow> 0 | Some e \<Rightarrow> e) = 0 \<and> j = Suc n \<or> (case r of None \<Rightarrow> 0 | Some e \<Rightarrow> e) = -1 \<and> j < Suc n \<and> qs = []" by auto
    then show "wp (kreturn (case r of None \<Rightarrow> 0 | Some e \<Rightarrow> e)) (\<lambda>r t. \<exists>ps' j. vm_step p L d s ps t ps' \<and> mapped (mem (mm s)) (mem (mm t)) d a pa perm j
      \<and> length ps \<le> length ps' + j \<and> (r = 0 \<and> j = Suc n \<or> r = -1 \<and> j < Suc n \<and> ps' = [])) t"
      unfolding wp_prims(1) using q(1-3) by blast
  qed simp
qed

text \<open>What the paging hardware makes of an entry.\<close>

lemma kva_entry:
  assumes "vm_state p L d ps s" "cr3 (pt s) = V2P d" "x < KERNBASE"
  shows "kva w s x = (let e = entry (mem (mm s)) d x in if \<not> present e \<or> w \<and> e AND PTE_W = 0 then None else Some (unat (PTE_ADDR e) + unat (x AND 0xFFF)))"
proof -
  let ?m = "mem (mm s)"
  let ?pde = "pdir ?m d (unat (PDX x))"
  have nk: "\<not> KERNBASE \<le> x" using assms(3) by (simp add: not_le)
  have kd: "unat (V2P d) = kp d" "unat (PTE_ADDR e) = kp (table e)" for e by (simp_all add: kp_def table_def kp_P2V [unfolded kp_def])
  show ?thesis
  proof (cases "present ?pde")
    case True
    have b: "?pde AND 7 = 7" using pd_okD(3) [OF _ index_bounds(1) True] assms(1) by (auto simp: vm_state_def)
    have "?pde AND PTE_W = (?pde AND 7) AND PTE_W" by (simp add: and.assoc)
    then have "?pde AND PTE_W = PTE_W" unfolding b by simp
    then have "?pde AND y AND PTE_W = y AND PTE_W" for y by (metis and.assoc and.commute)
    then show ?thesis using True assms(2) nk by (simp add: kva_def page_entry_def Let_def entry_def kd present_def flip: pdir_def)
  next
    case False
    then show ?thesis using assms(2) nk by (simp add: kva_def page_entry_def Let_def entry_def kd present_def flip: pdir_def)
  qed
qed


lemma vm_machine_ok: "vm_state 0 {} 0x80302000 [0x80300000, 0x80301000] vm_machine" "cr3 (pt vm_machine) = V2P 0x80302000"
  "\<not> present (entry (mem (mm vm_machine)) 0x80302000 x)"
proof -
  have m: "mem (mm vm_machine) = store32 0x300000 0x80301000 (\<lambda>_. 0)" "kend (mm vm_machine) = 0x80200000" "freelist (mm vm_machine) = 0x80300000"
    by (simp_all add: vm_machine_def two_pages_def machine_def)
  have "pdir (mem (mm vm_machine)) 0x80302000 k = 0" for k
    unfolding m pdir_def by (subst load32_store32_other) (simp_all add: kp_def V2P_def load32_def)
  then have p: "\<not> present (pdir (mem (mm vm_machine)) 0x80302000 k)" for k by (simp add: present_def)
  have "load32 (store32 0x300000 0x80301000 (\<lambda>_. 0)) 0x301000 = 0" by (subst load32_store32_other) (simp_all add: load32_def)
  then have "kmem_inv (mm vm_machine) [0x80300000, 0x80301000]" by (simp add: kmem_inv_def m page_ok_def kp_def V2P_def load32_store32_same)
  moreover have "ctx 0 {} vm_machine" unfolding vm_machine_def by (rule ctx_upd_pt) (simp_all add: two_pages_def)
  ultimately show "vm_state 0 {} 0x80302000 [0x80300000, 0x80301000] vm_machine" using p by (simp add: vm_state_def pd_ok_def m page_ok_def V2P_def)
  show "cr3 (pt vm_machine) = V2P 0x80302000" by (simp add: vm_machine_def V2P_def)
  show "\<not> present (entry (mem (mm vm_machine)) 0x80302000 x)" using p by (simp add: entry_def Let_def) (simp add: present_def)
qed


end
