(* ===== verification/Pipe.thy ===== *)
theory Pipe
  imports FileData File
begin

text \<open>
  Pipes (\<open>pipe.c\<close>) as bounded queues: the ring buffer with its free-running 32-bit counters, \<open>pipewrite\<close> and \<open>piperead\<close>.
\<close>

section \<open>The queue in the ring buffer\<close>

definition pipe_ok :: "pipe \<Rightarrow> bool" where
  "pipe_ok v \<longleftrightarrow> length (pi_data v) = 512 \<and> unat (pi_nwrite v - pi_nread v) \<le> 512"

definition queue :: "pipe \<Rightarrow> uchar list" where
  "queue v = map (\<lambda>k. pi_data v ! unat ((pi_nread v + of_nat k) mod 512)) [0..<unat (pi_nwrite v - pi_nread v)]"

definition ends :: "pipe \<Rightarrow> bool \<times> bool" where
  "ends v = (pi_readopen v, pi_writeopen v)"

definition the_pipe :: "uint \<Rightarrow> 'a kstate_scheme \<Rightarrow> pipe" where
  "the_pipe p s = pipes (fl s) p"

definition set_pipe :: "uint \<Rightarrow> pipe \<Rightarrow> 'a kstate_scheme \<Rightarrow> 'a kstate_scheme" where
  "set_pipe p v = upd_fl (\<lambda>l. l\<lparr>pipes := (pipes l)(p := v)\<rparr>)"

text \<open>The virtual addresses from \<open>a\<close> on can be written and lie at the physical addresses \<open>pas\<close>, which are not part of the page tables
  that translate them.\<close>

definition writable_at :: "nat list \<Rightarrow> uint \<Rightarrow> 'a kstate_scheme \<Rightarrow> bool" where
  "writable_at pas a s \<longleftrightarrow> distinct pas
     \<and> (\<forall>i < length pas. \<forall>m. (\<forall>x. x \<notin> set pas \<longrightarrow> m x = mem (mm s) x) \<longrightarrow> kva True (upd_mem (\<lambda>_. m) s) (a + of_nat i) = Some (pas ! i))"

text \<open>The loop of \<open>pipewrite\<close>, for bytes that fit.\<close>

definition put_byte :: "uint \<Rightarrow> uint \<Rightarrow> nat \<Rightarrow> (unit option, 'a kstate_scheme) code" where
  "put_byte p a i =
     kbind (pipe_room p) (\<lambda>ok.
     if \<not> ok then kreturn (Some ())
     else
       kbind (vread (a + of_nat i) 1) (\<lambda>bs.
       kthen (upd_pipe p (pipe_put (hd bs))) (
       kreturn None)))"

definition bytes_at :: "nat list \<Rightarrow> uchar list \<Rightarrow> bmem \<Rightarrow> bmem \<Rightarrow> bool" where
  "bytes_at as bs m m' \<longleftrightarrow> map m' (take (length bs) as) = bs \<and> (\<forall>x. x \<notin> set (take (length bs) as) \<longrightarrow> m' x = m x)"

text \<open>A machine with two bytes in a kernel buffer and an empty pipe whose counters are about to wrap around.\<close>

definition pipe_machine :: kstate where
  "pipe_machine = set_pipe 0x80400000 \<lparr>pi_data = replicate 512 0, pi_nread = 0xFFFFFFFF, pi_nwrite = 0xFFFFFFFF, pi_readopen = True, pi_writeopen = True\<rparr>
     (upd_mem (\<lambda>m. m(0x200000 := 104, 0x200001 := 105)) machine)"

lemma pipe_index: "unat ((w + of_nat k :: uint) mod 512) = (unat w + k) mod 512"
proof -
  have "unat ((w + of_nat k :: uint) mod 512) = unat (w + of_nat k :: uint) mod 512" by (simp add: unat_mod)
  also have "\<dots> = (unat w + unat (of_nat k :: uint)) mod 2 ^ 32 mod 512" by (simp add: unat_word_ariths)
  also have "\<dots> = (unat w + k mod 2 ^ 32) mod 512" by (subst mod_mod_cancel) (simp_all add: unat_of_nat)
  also have "\<dots> = (unat w + k mod 2 ^ 32 mod 512) mod 512" by (simp add: mod_simps)
  also have "\<dots> = (unat w + k) mod 512" by (subst mod_mod_cancel) (simp_all add: mod_simps)
  finally show ?thesis .
qed

lemma length_queue [simp]: "length (queue v) = unat (pi_nwrite v - pi_nread v)"
  by (simp add: queue_def)

lemma queue_empty: "queue v = [] \<longleftrightarrow> pi_nread v = pi_nwrite v"
  by (metis length_queue length_0_conv right_minus_eq unat_eq_0)

lemma queue_full:
  assumes "pipe_ok v"
  shows "pi_nwrite v = pi_nread v + 512 \<longleftrightarrow> length (queue v) = 512"
proof
  assume "length (queue v) = 512"
  then have "unat (pi_nwrite v - pi_nread v) = unat (512 :: uint)" by simp
  then have "pi_nwrite v - pi_nread v = 512" by (simp only: word_unat_eq_iff)
  then show "pi_nwrite v = pi_nread v + 512" by (simp add: algebra_simps)
qed simp

lemma pipe_put_ok:
  assumes "pipe_ok v" "length (queue v) < 512"
  shows "pipe_ok (pipe_put c v)" "queue (pipe_put c v) = queue v @ [c]"
proof -
  let ?n = "unat (pi_nwrite v - pi_nread v)"
  have n: "?n < 512" using assms(2) by simp
  have e: "pi_nwrite v + 1 - pi_nread v = (pi_nwrite v - pi_nread v) + 1" by simp
  have m: "unat (pi_nwrite v + 1 - pi_nread v) = Suc ?n" unfolding e using n by (simp add: unat_word_ariths)
  have w: "pi_nread v + of_nat ?n = pi_nwrite v" by simp
  have wi: "unat (pi_nwrite v mod 512) = (unat (pi_nread v) + ?n) mod 512" using pipe_index [of "pi_nread v" ?n] unfolding w .
  show "pipe_ok (pipe_put c v)" using assms(1) n m by (simp add: pipe_ok_def pipe_put_def)
  have l: "length (pi_data v) = 512" using assms(1) by (simp add: pipe_ok_def)
  have ne: "(unat (pi_nread v) + k) mod 512 \<noteq> (unat (pi_nread v) + ?n) mod 512" if "k < ?n" for k
    using that n mod_eq_dvd_iff_nat [of "unat (pi_nread v) + k" "unat (pi_nread v) + ?n" 512] by (auto dest: dvd_imp_le)
  have old: "map (\<lambda>k. (pi_data v)[unat (pi_nwrite v mod 512) := c] ! unat ((pi_nread v + of_nat k) mod 512)) [0..<?n] = queue v"
    unfolding queue_def by (rule map_cong [OF refl]) (use ne in \<open>simp add: wi pipe_index nth_list_update_neq [OF not_sym]\<close>)
  have new: "(pi_data v)[unat (pi_nwrite v mod 512) := c] ! unat ((pi_nread v + of_nat ?n) mod 512) = c"
    using l unfolding w by (simp add: wi)
  show "queue (pipe_put c v) = queue v @ [c]"
    unfolding queue_def [of "pipe_put c v"] using m old new by (simp add: pipe_put_def)
qed

lemma ends_put: "ends (pipe_put c v) = ends v"
  by (simp add: ends_def pipe_put_def)

lemma pipe_get_ok:
  assumes "pipe_ok v" "pi_nread v \<noteq> pi_nwrite v" "pipe_get v = (c, w)"
  shows "pipe_ok w" "queue v = c # queue w" "ends w = ends v"
proof -
  let ?n = "unat (pi_nwrite v - pi_nread v)"
  have w: "w = v\<lparr>pi_nread := pi_nread v + 1\<rparr>" "c = pi_data v ! unat (pi_nread v mod 512)" using assms(3) by (auto simp: pipe_get_def)
  have "?n \<noteq> 0" using assms(2) by (simp add: unat_eq_0)
  then obtain k where k: "?n = Suc k" by (cases ?n) auto
  have e: "pi_nwrite v - (pi_nread v + 1) = (pi_nwrite v - pi_nread v) - 1" by simp
  have m: "unat (pi_nwrite v - (pi_nread v + 1)) = k" unfolding e using k by (subst unat_minus_one) auto
  show "pipe_ok w" using assms(1) m k by (simp add: pipe_ok_def w)
  show "queue v = c # queue w" unfolding queue_def w pipe.select_convs pipe.update_convs m k
    by (simp add: upt_conv_Cons map_Suc_upt [symmetric] add.assoc comp_def m del: upt_Suc)
  show "ends w = ends v" by (simp add: w ends_def)
qed

section \<open>Reading and writing\<close>

lemma set_pipe_simps [simp]:
  "the_pipe p (set_pipe p v s) = v" "q \<noteq> p \<Longrightarrow> the_pipe q (set_pipe p v s) = the_pipe q s" "mm (set_pipe p v s) = mm s" "pt (set_pipe p v s) = pt s"
  "ctx pr L (set_pipe p v s) = ctx pr L s" "the_pipe p (acq l s) = the_pipe p s" "the_pipe p (rel l s) = the_pipe p s"
  "the_pipe p (settle s) = the_pipe p s" "the_pipe p (upd_pt f s) = the_pipe p s" "the_pipe p (upd_mem g s) = the_pipe p s"
  by (simp_all add: set_pipe_def the_pipe_def upd_mem_def)

lemma set_pipe_set [simp]: "set_pipe p v (set_pipe p w s) = set_pipe p v s" "set_pipe p (the_pipe p s) s = s"
  by (simp_all add: set_pipe_def upd_fl_def the_pipe_def)

lemma set_pipe_same: "set_pipe p (the_pipe p s) (acq l s) = acq l s"
  using set_pipe_set(2) [of p "acq l s"] by simp

lemma pipe_wp [wps]:
  "wp (get_pipe p) P s \<longleftrightarrow> P (the_pipe p s) s" "wp (upd_pipe p f) Q s \<longleftrightarrow> Q () (set_pipe p (f (the_pipe p s)) s)"
  by (simp_all add: get_pipe_def upd_pipe_def wps the_pipe_def set_pipe_def upd_fl_def)

lemma pipe_room_ok:
  assumes "pipe_ok (the_pipe p s)" "length (queue (the_pipe p s)) < 512" "P True s"
  shows "wp (pipe_room p) P s"
  unfolding pipe_room_def
  by (rule wp_kloop) (use assms queue_full [OF assms(1)] in \<open>auto simp: wps\<close>)

lemma wp_kfirst_append: "wp (kfirst f (xs @ ys)) P s \<longleftrightarrow> wp (kfirst f xs) (\<lambda>r t. case r of Some x \<Rightarrow> P (Some x) t | None \<Rightarrow> wp (kfirst f ys) P t) s"
proof (induction xs arbitrary: s)
  case (Cons x xs)
  have "wp (case r of None \<Rightarrow> kfirst f (xs @ ys) | Some x \<Rightarrow> kreturn (Some x)) P
      = wp (case r of None \<Rightarrow> kfirst f xs | Some x \<Rightarrow> kreturn (Some x)) (\<lambda>r t. case r of Some x \<Rightarrow> P (Some x) t | None \<Rightarrow> wp (kfirst f ys) P t)" for r
    using Cons by (cases r) (simp_all add: wps fun_eq_iff)
  then show ?case unfolding append_Cons kfirst.simps wp_kbind by (rule arg_cong [OF ext])
qed (simp add: wps)

lemma put_bytes:
  assumes "pipe_ok (the_pipe p s)" "length (queue (the_pipe p s)) + m \<le> 512" "src_bytes (FromVa a) 0 n s = Some bs" "m \<le> n"
    and post: "\<And>v. pipe_ok v \<Longrightarrow> queue v = queue (the_pipe p s) @ take m bs \<Longrightarrow> ends v = ends (the_pipe p s) \<Longrightarrow> P None (set_pipe p v s)"
  shows "wp (kfirst (put_byte p a) [0..<m]) P s"
proof -
  let ?v = "the_pipe p s"
  have lb: "length bs = n" using assms(3) by (auto simp: src_bytes_def Let_def split: if_splits)
  define I where "I = (\<lambda>ys t. \<exists>i v. ys = [i..<m] \<and> i \<le> m \<and> t = set_pipe p v s \<and> pipe_ok v \<and> queue v = queue ?v @ take i bs \<and> ends v = ends ?v)"
  have byte: "src_bytes (FromVa (a + of_nat i)) 0 1 (set_pipe p v s) = Some [bs ! i]" if "i < m" for i v
  proof -
    have "src_bytes (FromVa a) i 1 s = Some (slice i 1 bs)" by (rule src_bytes_slice [OF assms(3)]) (use that assms(4) in simp)
    moreover have "slice i 1 bs = [bs ! i]" using that lb assms(4) by (simp add: slice_def take_Suc_conv_app_nth [of 0, simplified] hd_drop_conv_nth)
    moreover have "src_bytes (FromVa (a + of_nat i)) 0 1 (set_pipe p v s) = src_bytes (FromVa a) i 1 s"
      using src_bytes_cong [of "set_pipe p v s" s "FromVa (a + of_nat i)" 0 1] by (simp add: src_bytes_def)
    ultimately show ?thesis by simp
  qed
  have step: "wp (put_byte p a x) (\<lambda>r u. r = None \<and> I ys u) t" if inv: "I (x # ys) t" for x ys t
  proof -
    obtain i v where i: "x # ys = [i..<m]" "t = set_pipe p v s" "pipe_ok v" "queue v = queue ?v @ take i bs" "ends v = ends ?v"
      using inv unfolding I_def by blast
    have x: "x = i" "ys = [Suc i..<m]" "i < m" using upt_eq_Cons_conv [THEN iffD1, OF i(1) [symmetric]] by auto
    have l: "length (queue v) < 512" using i(4) assms(2,4) x(3) lb by simp
    note put = pipe_put_ok [OF i(3) l, of "bs ! i"]
    have "wp (vread (a + of_nat i) 1) (\<lambda>b u. b = [bs ! i] \<and> u = t) t"
      using wp_get_at [OF byte [OF x(3)], of "\<lambda>b u. b = [bs ! i] \<and> u = t" v] by (simp add: get_at_def i(2))
    then have "wp (vread (a + of_nat i) 1) (\<lambda>bs. wp (kthen (upd_pipe p (pipe_put (hd bs))) (kreturn None)) (\<lambda>r u. r = None \<and> I ys u)) t"
    proof (rule wp_mono)
      fix b u assume bu: "b = [bs ! i] \<and> u = t"
      have "I ys (set_pipe p (pipe_put (bs ! i) v) s)"
        unfolding I_def using x put i lb assms(4) by (intro exI [of _ "Suc i"] exI [of _ "pipe_put (bs ! i) v"]) (simp add: take_Suc_conv_app_nth ends_put)
      then show "wp (kthen (upd_pipe p (pipe_put (hd b))) (kreturn None)) (\<lambda>r u. r = None \<and> I ys u) u" using bu i(2) by (simp add: wps)
    qed
    then show ?thesis unfolding put_byte_def wp_kbind by (intro pipe_room_ok) (use i l x in \<open>simp_all add: wps\<close>)
  qed
  show ?thesis
  proof (rule wp_kfirst_None [where I = I])
    show "I [0..<m] s" unfolding I_def using assms(1) by (intro exI [of _ 0] exI [of _ ?v]) simp
  next
    fix t assume "I [] t"
    then obtain i v where i: "[] = [i..<m]" "i \<le> m" and t: "t = set_pipe p v s" "pipe_ok v" "queue v = queue ?v @ take i bs" "ends v = ends ?v"
      unfolding I_def by blast
    have "m \<le> i" using i(1) by (metis upt_eq_Nil_conv le_zero_eq le0)
    then show "P None t" using t post i(2) by simp
  qed (rule step)
qed

lemma pipewrite_alt:
  "pipewrite p a n =
     kthen (acquire (LPipe (unat p))) (
     kbind (kfirst (put_byte p a) [0..<nat n]) (\<lambda>r.
     case r of
       Some _ \<Rightarrow> kthen (release (LPipe (unat p))) (kreturn (-1))
     | None \<Rightarrow> kthen (wakeup (CPipeRead (unat p))) (kthen (release (LPipe (unat p))) (kreturn n))))"
  unfolding pipewrite_def put_byte_def ..

lemma pipewrite_ok:
  assumes c: "ctx pr L s" "LPipe (unat p) \<notin> L" "LPtable \<notin> L" and v: "pipe_ok (the_pipe p s)" and n: "length (queue (the_pipe p s)) + nat n \<le> 512"
    and src: "src_bytes (FromVa a) 0 (nat n) s = Some bs"
  shows "wp (pipewrite p a n) (\<lambda>r t. r = n \<and> ctx pr L t \<and> pipe_ok (the_pipe p t) \<and> queue (the_pipe p t) = queue (the_pipe p s) @ bs
      \<and> ends (the_pipe p t) = ends (the_pipe p s) \<and> (\<forall>q. q \<noteq> p \<longrightarrow> the_pipe q t = the_pipe q s) \<and> mm t = mm s
      \<and> pt t = (pt s)\<lparr>procs := map (wake (CPipeRead (unat p))) (procs (pt s))\<rparr>) s"
proof -
  let ?l = "LPipe (unat p)" and ?v = "the_pipe p s"
  let ?s = "acq ?l s"
  have c1: "ctx pr (insert ?l L) ?s" by (rule ctx_acq [OF c(1,2)])
  have lb: "length bs = nat n" using src by (auto simp: src_bytes_def Let_def split: if_splits)
  have src': "src_bytes (FromVa a) 0 (nat n) ?s = Some bs" using src src_bytes_cong [of ?s s "FromVa a" 0 "nat n"] by simp
  show ?thesis
    unfolding pipewrite_alt wp_kthen [of "acquire ?l"] wp_kbind
  proof (rule wp_acquire [OF c(1,2)], rule put_bytes [OF _ _ src' order_refl])
    fix v assume v: "pipe_ok v" "queue v = queue (the_pipe p ?s) @ take (nat n) bs" "ends v = ends (the_pipe p ?s)"
    have ct: "ctx pr (insert ?l L) (set_pipe p v ?s)" using c1 by simp
    let ?u = "upd_pt (\<lambda>t. t\<lparr>procs := map (wake (CPipeRead (unat p))) (procs t)\<rparr>) (settle (set_pipe p v ?s))"
    have cu: "ctx pr (insert ?l L) ?u" by (rule ctx_upd_pt) (use ct in simp_all)
    show "wp (case None of None \<Rightarrow> kthen (wakeup (CPipeRead (unat p))) (kthen (release ?l) (kreturn n)) | Some _ \<Rightarrow> kthen (release ?l) (kreturn (-1)))
       (\<lambda>r t. r = n \<and> ctx pr L t \<and> pipe_ok (the_pipe p t) \<and> queue (the_pipe p t) = queue ?v @ bs \<and> ends (the_pipe p t) = ends ?v
         \<and> (\<forall>q. q \<noteq> p \<longrightarrow> the_pipe q t = the_pipe q s) \<and> mm t = mm s \<and> pt t = (pt s)\<lparr>procs := map (wake (CPipeRead (unat p))) (procs (pt s))\<rparr>) (set_pipe p v ?s)"
      unfolding option.case wp_kthen
      by (rule wp_wakeup [OF ct], use c(3) in simp, rule wp_release [OF cu], simp) (use ctx_rel [OF cu c(2)] v lb in \<open>simp add: wps\<close>)
  qed (use v n in simp_all)
qed

text \<open>A broken pipe. When the reading end is closed and the bytes do not fit, \<open>pipewrite\<close> does not wait: it fills the buffer, releases its lock
  and returns \<open>-1\<close>, and no process is woken.\<close>

theorem pipewrite_broken:
  assumes c: "ctx pr L s" "LPipe (unat p) \<notin> L" "LPtable \<notin> L" and v: "pipe_ok (the_pipe p s)" and n: "length (queue (the_pipe p s)) + nat n > 512"
    and src: "src_bytes (FromVa a) 0 (nat n) s = Some bs" and closed: "\<not> pi_readopen (the_pipe p s)"
  shows "wp (pipewrite p a n) (\<lambda>r t. r = -1 \<and> ctx pr L t \<and> queue (the_pipe p t) = take 512 (queue (the_pipe p s) @ bs) \<and> mm t = mm s \<and> pt t = pt s) s"
proof -
  let ?l = "LPipe (unat p)" and ?v = "the_pipe p s"
  let ?s = "acq ?l s" and ?m = "512 - length (queue ?v)"
  have c1: "ctx pr (insert ?l L) ?s" by (rule ctx_acq [OF c(1,2)])
  have q: "length (queue ?v) \<le> 512" using v by (simp add: pipe_ok_def)
  have m: "?m < nat n" using n q by simp
  have src': "src_bytes (FromVa a) 0 (nat n) ?s = Some bs" using src src_bytes_cong [of ?s s "FromVa a" 0 "nat n"] by simp
  have lb: "length bs = nat n" using src by (auto simp: src_bytes_def Let_def split: if_splits)
  have spl: "[0..<nat n] = [0..<?m] @ ?m # [Suc ?m..<nat n]" using m upt_add_eq_append [of 0 ?m "nat n - ?m"] by (simp add: upt_conv_Cons)
  show ?thesis
    unfolding pipewrite_alt wp_kthen [of "acquire ?l"] wp_kbind spl wp_kfirst_append
  proof (rule wp_acquire [OF c(1,2)], rule put_bytes [OF _ _ src'])
    show "pipe_ok (the_pipe p ?s)" "length (queue (the_pipe p ?s)) + ?m \<le> 512" "?m \<le> nat n" using v q m by simp_all
    fix v assume v: "pipe_ok v" "queue v = queue (the_pipe p ?s) @ take ?m bs" "ends v = ends (the_pipe p ?s)"
    have full: "length (queue v) = 512" unfolding v(2) using lb m q by simp
    have cl: "\<not> pi_readopen v" using closed v(3) by (simp add: ends_def)
    have ct: "ctx pr (insert ?l L) (set_pipe p v ?s)" using c1 by simp
    have "wp (kthen (release ?l) (kreturn (-1))) (\<lambda>r t. r = -1 \<and> ctx pr L t \<and> queue (the_pipe p t) = take 512 (queue ?v @ bs) \<and> mm t = mm s \<and> pt t = pt s) (set_pipe p v ?s)"
      unfolding wp_kthen by (rule wp_release [OF ct], simp) (use ctx_rel [OF ct c(2)] v q in \<open>simp add: wps\<close>)
    moreover have room: "wp (pipe_room p) Q t" if "Q False t" "the_pipe p t = v" for Q t
      unfolding pipe_room_def by (rule wp_kloop) (use that full queue_full [OF v(1)] cl in \<open>auto simp: wps\<close>)
    ultimately show "case None of None \<Rightarrow> wp (kfirst (put_byte p a) (?m # [Suc ?m..<nat n]))
        (\<lambda>r. wp (case r of None \<Rightarrow> kthen (wakeup (CPipeRead (unat p))) (kthen (release ?l) (kreturn n)) | Some _ \<Rightarrow> kthen (release ?l) (kreturn (-1)))
          (\<lambda>r t. r = -1 \<and> ctx pr L t \<and> queue (the_pipe p t) = take 512 (queue ?v @ bs) \<and> mm t = mm s \<and> pt t = pt s)) (set_pipe p v ?s)
      | Some x \<Rightarrow> wp (case Some x of None \<Rightarrow> kthen (wakeup (CPipeRead (unat p))) (kthen (release ?l) (kreturn n)) | Some _ \<Rightarrow> kthen (release ?l) (kreturn (-1)))
          (\<lambda>r t. r = -1 \<and> ctx pr L t \<and> queue (the_pipe p t) = take 512 (queue ?v @ bs) \<and> mm t = mm s \<and> pt t = pt s) (set_pipe p v ?s)"
      unfolding option.case kfirst.simps put_byte_def wp_kbind by (intro room) (simp_all add: wps)
  qed
qed

lemma upd_mem_simps [simp]:
  "upd_mem f (upd_mem g s) = upd_mem (\<lambda>m. f (g m)) s" "mem (mm (upd_mem f s)) = f (mem (mm s))" "upd_mem (\<lambda>m. mem (mm s)) s = s"
  "upd_mem f (set_pipe p v s) = set_pipe p v (upd_mem f s)" "pt (upd_mem f s) = pt s"
  by (simp_all add: upd_mem_def upd_mm_def set_pipe_def upd_fl_def)

lemma ctx_upd_mem [simp]: "ctx pr L (upd_mem f s) = ctx pr L s"
  by (simp add: upd_mem_def)

lemma upd_mem_const: "upd_mem f s = upd_mem (\<lambda>_. f (mem (mm s))) s"
  by (simp add: upd_mem_def upd_mm_def)

lemma kva_set_pipe [simp]: "kva w (set_pipe p v s) = kva w s"
  by (rule ext) (simp add: kva_def)

lemma writable_step:
  assumes "writable_at as a s" "\<And>x. x \<notin> set as \<Longrightarrow> m x = mem (mm s) x"
  shows "writable_at as a (set_pipe p v (upd_mem (\<lambda>_. m) s))"
proof -
  have k: "kva w (upd_mem (\<lambda>_. m') (set_pipe p v (upd_mem (\<lambda>_. m) s))) = kva w (upd_mem (\<lambda>_. m') s)" for m' w by simp
  show ?thesis
    unfolding writable_at_def k
  proof (intro conjI allI impI)
    show "distinct as" using assms(1) by (simp add: writable_at_def)
    fix i m' assume i: "i < length as" and "\<forall>x. x \<notin> set as \<longrightarrow> m' x = mem (mm (set_pipe p v (upd_mem (\<lambda>_. m) s))) x"
    then have "\<forall>x. x \<notin> set as \<longrightarrow> m' x = mem (mm s) x" using assms(2) by simp
    then show "kva True (upd_mem (\<lambda>_. m') s) (a + of_nat i) = Some (as ! i)" using assms(1) i unfolding writable_at_def by blast
  qed
qed

lemma vwrite_ok:
  assumes "writable_at as a s" "i < length as"
  shows "wp (vwrite (a + of_nat i) [c]) P s \<longleftrightarrow> P () (upd_mem (\<lambda>m. m(as ! i := c)) s)"
proof -
  have "kva True s (a + of_nat i) = Some (as ! i)"
    using assms unfolding writable_at_def by (metis upd_mem_simps(3))
  then show ?thesis by (simp add: vwrite_def wps)
qed

lemma piperead_loop_ok:
  assumes "pipe_ok (the_pipe p s)" "writable_at as a s" "i + n \<le> length as"
  shows "wp (piperead_loop p a i n) (\<lambda>r t. \<exists>v m. t = set_pipe p v (upd_mem (\<lambda>_. m) s) \<and> r = i + min n (length (queue (the_pipe p s))) \<and> pipe_ok v
      \<and> queue v = drop n (queue (the_pipe p s)) \<and> ends v = ends (the_pipe p s) \<and> bytes_at (drop i as) (take n (queue (the_pipe p s))) (mem (mm s)) m) s"
  using assms
proof (induction n arbitrary: i s)
  case 0
  show ?case by (simp add: wps bytes_at_def) (rule exI [of _ "the_pipe p s"], rule exI [of _ "mem (mm s)"], use 0 in simp)
next
  case (Suc n)
  let ?v = "the_pipe p s"
  show ?case
  proof (cases "pi_nread ?v = pi_nwrite ?v")
    case True
    then have "queue ?v = []" by (simp add: queue_empty)
    then show ?thesis using True Suc.prems(1)
      by (simp add: wps bytes_at_def) (rule exI [of _ ?v], rule exI [of _ "mem (mm s)"], simp)
  next
    case False
    obtain c w where cw: "pipe_get ?v = (c, w)" by fastforce
    note g = pipe_get_ok [OF Suc.prems(1) False cw]
    have i: "i < length as" using Suc.prems(3) by simp
    define m1 where "m1 = (mem (mm s))(as ! i := c)"
    define s1 where "s1 = set_pipe p w (upd_mem (\<lambda>_. m1) s)"
    have s1: "upd_mem (\<lambda>m. m(as ! i := c)) (set_pipe p w s) = s1"
      by (simp add: s1_def m1_def upd_mem_const [of "\<lambda>m. m(as ! i := c)"])
    have w1: "writable_at as a (set_pipe p w s)" using Suc.prems(2) writable_step [OF Suc.prems(2), of "mem (mm s)" p w] by simp
    have wr: "writable_at as a s1" unfolding s1_def by (rule writable_step [OF Suc.prems(2)]) (use i in \<open>auto simp: m1_def\<close>)
    have d: "distinct as" using Suc.prems(2) by (simp add: writable_at_def)
    have "wp (piperead_loop p a (i + 1) n) (\<lambda>r t. \<exists>v m. t = set_pipe p v (upd_mem (\<lambda>_. m) s1) \<and> r = i + 1 + min n (length (queue (the_pipe p s1))) \<and> pipe_ok v
      \<and> queue v = drop n (queue (the_pipe p s1)) \<and> ends v = ends (the_pipe p s1) \<and> bytes_at (drop (i + 1) as) (take n (queue (the_pipe p s1))) (mem (mm s1)) m) s1"
      by (rule Suc.IH [OF _ wr]) (use g Suc.prems(3) in \<open>simp_all add: s1_def\<close>)
    then have "wp (piperead_loop p a (i + 1) n) (\<lambda>r t. \<exists>v m. t = set_pipe p v (upd_mem (\<lambda>_. m) s) \<and> r = i + min (Suc n) (length (queue ?v)) \<and> pipe_ok v
      \<and> queue v = drop (Suc n) (queue ?v) \<and> ends v = ends ?v \<and> bytes_at (drop i as) (take (Suc n) (queue ?v)) (mem (mm s)) m) s1"
    proof (rule wp_mono, elim exE conjE)
      fix r t v m assume t: "t = set_pipe p v (upd_mem (\<lambda>_. m) s1)" and r: "r = i + 1 + min n (length (queue (the_pipe p s1)))" and v: "pipe_ok v"
        "queue v = drop n (queue (the_pipe p s1))" "ends v = ends (the_pipe p s1)" and b: "bytes_at (drop (i + 1) as) (take n (queue (the_pipe p s1))) (mem (mm s1)) m"
      have e: "the_pipe p s1 = w" "mem (mm s1) = m1" by (simp_all add: s1_def)
      have ad: "drop i as = as ! i # drop (i + 1) as" using i by (simp add: Cons_nth_drop_Suc)
      have nin: "as ! i \<notin> set (take k (drop (i + 1) as))" for k
        using d i by (metis ad distinct_drop distinct.simps(2) in_set_takeD)
      have "bytes_at (drop i as) (take (Suc n) (queue ?v)) (mem (mm s)) m"
        using b nin [of "length (take n (queue w))"] unfolding ad g(2) e bytes_at_def by (auto simp: m1_def)
      moreover have "t = set_pipe p v (upd_mem (\<lambda>_. m) s)" using t by (simp add: s1_def)
      ultimately show "\<exists>v m. t = set_pipe p v (upd_mem (\<lambda>_. m) s) \<and> r = i + min (Suc n) (length (queue ?v)) \<and> pipe_ok v
        \<and> queue v = drop (Suc n) (queue ?v) \<and> ends v = ends ?v \<and> bytes_at (drop i as) (take (Suc n) (queue ?v)) (mem (mm s)) m"
        using r v g by (intro exI [of _ v] exI [of _ m]) (simp add: e)
    qed
    then show ?thesis using False by (simp add: wps cw vwrite_ok [OF w1 i] s1 del: upd_mem_simps(4))
  qed
qed

lemma piperead_ok:
  assumes c: "ctx pr L s" "LPipe (unat p) \<notin> L" "LPtable \<notin> L" and v: "pipe_ok (the_pipe p s)" and some: "queue (the_pipe p s) \<noteq> [] \<or> \<not> pi_writeopen (the_pipe p s)"
    and dst: "writable_at as a s" "nat n \<le> length as"
  shows "wp (piperead p a n) (\<lambda>r t. r = int (min (nat n) (length (queue (the_pipe p s)))) \<and> ctx pr L t \<and> pipe_ok (the_pipe p t)
      \<and> queue (the_pipe p t) = drop (nat n) (queue (the_pipe p s)) \<and> bytes_at as (take (nat n) (queue (the_pipe p s))) (mem (mm s)) (mem (mm t))
      \<and> ends (the_pipe p t) = ends (the_pipe p s) \<and> (\<forall>q. q \<noteq> p \<longrightarrow> the_pipe q t = the_pipe q s)
      \<and> pt t = (pt s)\<lparr>procs := map (wake (CPipeWrite (unat p))) (procs (pt s))\<rparr>) s"
proof -
  let ?l = "LPipe (unat p)" and ?v = "the_pipe p s"
  let ?s = "acq ?l s"
  have c1: "ctx pr (insert ?l L) ?s" by (rule ctx_acq [OF c(1,2)])
  have w: "writable_at as a ?s"
  proof -
    have "kva True (upd_mem (\<lambda>_. m) ?s) = kva True (upd_mem (\<lambda>_. m) s)" for m by (rule ext) (simp add: kva_def)
    then show ?thesis using dst(1) unfolding writable_at_def by simp
  qed
  have d: "wp (pipe_data p) P ?s" if "P True ?s" for P
    unfolding pipe_data_def by (rule wp_kloop) (use that some queue_empty [of ?v] in \<open>auto simp: wps\<close>)
  have "wp (piperead_loop p a 0 (nat n)) (\<lambda>r t. \<exists>v m. t = set_pipe p v (upd_mem (\<lambda>_. m) ?s) \<and> r = 0 + min (nat n) (length (queue (the_pipe p ?s))) \<and> pipe_ok v
      \<and> queue v = drop (nat n) (queue (the_pipe p ?s)) \<and> ends v = ends (the_pipe p ?s) \<and> bytes_at (drop 0 as) (take (nat n) (queue (the_pipe p ?s))) (mem (mm ?s)) m) ?s"
    by (rule piperead_loop_ok [OF _ w]) (use v dst(2) in simp_all)
  then have "wp (piperead_loop p a 0 (nat n)) (\<lambda>i. wp (kthen (wakeup (CPipeWrite (unat p))) (kthen (release ?l) (kreturn (int i))))
      (\<lambda>r t. r = int (min (nat n) (length (queue ?v))) \<and> ctx pr L t \<and> pipe_ok (the_pipe p t) \<and> queue (the_pipe p t) = drop (nat n) (queue ?v)
        \<and> bytes_at as (take (nat n) (queue ?v)) (mem (mm s)) (mem (mm t)) \<and> ends (the_pipe p t) = ends ?v \<and> (\<forall>q. q \<noteq> p \<longrightarrow> the_pipe q t = the_pipe q s)
        \<and> pt t = (pt s)\<lparr>procs := map (wake (CPipeWrite (unat p))) (procs (pt s))\<rparr>)) ?s"
  proof (rule wp_mono, elim exE conjE)
    fix r t v m assume t: "t = set_pipe p v (upd_mem (\<lambda>_. m) ?s)" "r = 0 + min (nat n) (length (queue (the_pipe p ?s)))" "pipe_ok v" "queue v = drop (nat n) (queue (the_pipe p ?s))"
      "ends v = ends (the_pipe p ?s)" "bytes_at (drop 0 as) (take (nat n) (queue (the_pipe p ?s))) (mem (mm ?s)) m"
    have ct: "ctx pr (insert ?l L) t" using c1 t(1) by simp
    let ?u = "upd_pt (\<lambda>t. t\<lparr>procs := map (wake (CPipeWrite (unat p))) (procs t)\<rparr>) (settle t)"
    have cu: "ctx pr (insert ?l L) ?u" by (rule ctx_upd_pt) (use ct in simp_all)
    show "wp (kthen (wakeup (CPipeWrite (unat p))) (kthen (release ?l) (kreturn (int r))))
      (\<lambda>r t. r = int (min (nat n) (length (queue ?v))) \<and> ctx pr L t \<and> pipe_ok (the_pipe p t) \<and> queue (the_pipe p t) = drop (nat n) (queue ?v)
        \<and> bytes_at as (take (nat n) (queue ?v)) (mem (mm s)) (mem (mm t)) \<and> ends (the_pipe p t) = ends ?v \<and> (\<forall>q. q \<noteq> p \<longrightarrow> the_pipe q t = the_pipe q s)
        \<and> pt t = (pt s)\<lparr>procs := map (wake (CPipeWrite (unat p))) (procs (pt s))\<rparr>) t"
      unfolding wp_kthen
      by (rule wp_wakeup [OF ct], use c(3) in simp, rule wp_release [OF cu], simp) (use ctx_rel [OF cu c(2)] t in \<open>simp add: wps\<close>)
  qed
  then show ?thesis
    unfolding piperead_def wp_kthen [of "acquire ?l"] wp_kbind by (intro wp_acquire [OF c(1,2)] d) (simp add: wp_kbind)
qed


lemma kva_kernel: "a \<ge> KERNBASE \<Longrightarrow> kva w s a = Some (kp a)"
  by (simp add: kva_def)


theorem pipewrite_broken_witness:
  "wp (pipewrite 0x80400000 0x80200000 600) (\<lambda>r t. r = -1 \<and> queue (the_pipe 0x80400000 t) = replicate 512 0) machine"
proof -
  let ?p = "the_pipe 0x80400000 machine"
  have q: "queue ?p = []" "pipe_ok ?p" "\<not> pi_readopen ?p" by (simp_all add: the_pipe_def machine_def queue_def pipe_ok_def)
  have k: "map_option (mem (mm machine)) (kva False machine (0x80200000 + of_nat i)) = Some 0" if "i < 600" for i
  proof -
    have "(0x80200000 :: uint) + of_nat i \<ge> KERNBASE" using that by (simp add: word_le_nat_alt unat_word_ariths unat_of_nat)
    then show ?thesis by (simp add: kva_kernel machine_def)
  qed
  have "map (\<lambda>i. map_option (mem (mm machine)) (kva False machine (0x80200000 + of_nat i))) [0..<600] = replicate 600 (Some 0)"
    by (rule nth_equalityI) (use k in simp_all)
  then have src: "src_bytes (FromVa 0x80200000) 0 (nat 600) machine = Some (replicate 600 0)" by (simp add: src_bytes_def Let_def)
  show ?thesis
    by (rule wp_mono [OF pipewrite_broken [of 0 "{}" machine "0x80400000" 600 "0x80200000" "replicate 600 0"]])
      (use q src in \<open>simp_all add: min_def\<close>)
qed

end
