(* ===== verification/SyncProps.thy ===== *)
theory SyncProps
  imports Sync Pipe
begin

text \<open>
  What the semaphores and read-write locks of \<open>semaphore.c\<close> and \<open>rwlock.c\<close> do: a read-write lock in user memory as a state machine of readers and writers.
\<close>

section \<open>Words of a structure in user memory\<close>

definition uword :: "nat list \<Rightarrow> nat \<Rightarrow> 'a kstate_scheme \<Rightarrow> int" where
  "uword as k s = geti32 (map (mem (mm s)) (slice (4 * k) 4 as)) 0"

text \<open>The structure at the user address \<open>a\<close>, in the physical bytes \<open>as\<close>, has the integer fields \<open>fs\<close>.\<close>

definition fields_at :: "nat list \<Rightarrow> uint \<Rightarrow> int list \<Rightarrow> 'a kstate_scheme \<Rightarrow> bool" where
  "fields_at as a fs s \<longleftrightarrow> writable_at as a s \<and> length as = 4 * length fs \<and> (\<forall>k < length fs. uword as k s = fs ! k)"

text \<open>From \<open>s\<close> to \<open>t\<close> nothing but these bytes and, by \<open>g\<close>, the process table has changed.\<close>

definition moves :: "nat list \<Rightarrow> (proc list \<Rightarrow> proc list) \<Rightarrow> 'a kstate_scheme \<Rightarrow> 'a kstate_scheme \<Rightarrow> bool" where
  "moves as g s t \<longleftrightarrow> (\<exists>m. t = upd_pt (\<lambda>p. p\<lparr>procs := g (procs p)\<rparr>) (upd_mem (\<lambda>_. m) s) \<and> (\<forall>x. x \<notin> set as \<longrightarrow> m x = mem (mm s) x))"

text \<open>A signal to the condition variable at \<open>c\<close> makes the first process that waits for it runnable.\<close>

abbreviation "sleeper c \<equiv> (\<lambda>q. p_state q = SLEEPING \<and> p_chan q = Some (CUser c))"

definition signalled :: "uint \<Rightarrow> proc list \<Rightarrow> proc list" where
  "signalled c ps = (case first_idx (sleeper c) ps of None \<Rightarrow> ps | Some i \<Rightarrow> ps[i := (ps ! i)\<lparr>p_state := RUNNABLE\<rparr>])"

definition signals :: "int \<Rightarrow> uint \<Rightarrow> proc list \<Rightarrow> proc list" where
  "signals n c ps = (if n = 0 then ps else signalled c ps)"

primrec put_list :: "nat list \<Rightarrow> uchar list \<Rightarrow> bmem \<Rightarrow> bmem" where
  "put_list [] bs m = m"
| "put_list (x # xs) bs m = put_list xs (tl bs) (m(x := hd bs))"

text \<open>A read-write lock at \<open>a\<close> with \<open>r\<close> readers, or a writer (\<open>w\<close>), while no operation is under way; \<open>n\<close> and \<open>n'\<close> count the processes that wait
  for the two semaphores.\<close>

definition rw_state :: "nat list \<Rightarrow> uint \<Rightarrow> int \<Rightarrow> bool \<Rightarrow> int \<Rightarrow> int \<Rightarrow> 'a kstate_scheme \<Rightarrow> bool" where
  "rw_state as a r w n n' s \<longleftrightarrow> fields_at as a [1, n, 0, 0, if w \<or> r > 0 then 0 else 1, n', 0, 0, r] s
     \<and> 0 \<le> r \<and> \<not> (w \<and> r > 0) \<and> r < 2 ^ 31 - 1 \<and> 0 \<le> n \<and> 0 \<le> n' \<and> n < 2 ^ 31 - 1 \<and> n' < 2 ^ 31 - 1"

definition dec :: "int \<Rightarrow> int" where
  "dec n = n - (if n = 0 then 0 else 1)"

text \<open>\<open>blocks m Q s\<close>: \<open>m\<close> does not return but gives up the processor, in a state that satisfies \<open>Q\<close>.\<close>

definition blocks :: "('a, 's) code \<Rightarrow> ('s \<Rightarrow> bool) \<Rightarrow> 's \<Rightarrow> bool" where
  "blocks m Q s \<longleftrightarrow> (\<exists>t k. m s = Switch t k \<and> Q t)"

text \<open>The process \<open>p\<close> sleeps on the condition variable at \<open>c\<close>, and the table lock is held.\<close>

definition waits_on :: "nat \<Rightarrow> uint \<Rightarrow> proc list \<Rightarrow> 'a kstate_scheme \<Rightarrow> bool" where
  "waits_on p c ps t \<longleftrightarrow> held LPtable t \<and> procs (pt t) = ps[p := (ps ! p)\<lparr>p_chan := Some (CUser c), p_state := SLEEPING\<rparr>]"

datatype rwop = ReadLock | ReadUnlock | WriteLock | WriteUnlock

fun rw_code :: "rwop \<Rightarrow> uint \<Rightarrow> (int, 'a kstate_scheme) code" where
  "rw_code ReadLock a = rwlock_acquire_readlock a"
| "rw_code ReadUnlock a = rwlock_release_readlock a"
| "rw_code WriteLock a = rwlock_acquire_writelock a"
| "rw_code WriteUnlock a = rwlock_release_writelock a"

text \<open>The specification: readers share, a writer excludes; \<open>None\<close> where an operation has to wait or is not called for.\<close>

fun rw_spec :: "rwop \<Rightarrow> int \<times> bool \<Rightarrow> (int \<times> bool) option" where
  "rw_spec ReadLock (r, w) = (if w then None else Some (r + 1, False))"
| "rw_spec ReadUnlock (r, w) = (if w \<or> r \<le> 0 then None else Some (r - 1, False))"
| "rw_spec WriteLock (r, w) = (if w \<or> r > 0 then None else Some (r, True))"
| "rw_spec WriteUnlock (r, w) = (if w then Some (r, False) else None)"

primrec rw_run :: "rwop list \<Rightarrow> int \<times> bool \<Rightarrow> (int \<times> bool) option" where
  "rw_run [] x = Some x"
| "rw_run (op # ops) x = (case rw_spec op x of None \<Rightarrow> None | Some y \<Rightarrow> rw_run ops y)"

definition rw_machine :: kstate where
  "rw_machine = upd_mem (\<lambda>m. m(0x300000 := 1)) machine"

lemma kva_read: "kva True s x = Some y \<Longrightarrow> kva False s x = Some y"
  by (auto simp: kva_def split: if_splits option.splits)

lemma kva_writable:
  assumes "writable_at as a s" "i < length as"
  shows "kva True s (a + of_nat i) = Some (as ! i)" "kva False s (a + of_nat i) = Some (as ! i)"
proof -
  show "kva True s (a + of_nat i) = Some (as ! i)" using assms unfolding writable_at_def by (metis upd_mem_simps(3))
  then show "kva False s (a + of_nat i) = Some (as ! i)" by (rule kva_read)
qed

lemma word_bytes:
  assumes "fields_at as a fs s" "k < length fs"
  shows "slice (4 * k) 4 as = map (\<lambda>i. as ! (4 * k + i)) [0..<4]" "i < 4 \<Longrightarrow> 4 * k + i < length as"
    "i < 4 \<Longrightarrow> kva True s (a + of_nat (4 * k) + of_nat i) = Some (as ! (4 * k + i))" "i < 4 \<Longrightarrow> kva False s (a + of_nat (4 * k) + of_nat i) = Some (as ! (4 * k + i))"
proof -
  have l: "length as = 4 * length fs" and w: "writable_at as a s" using assms(1) by (simp_all add: fields_at_def)
  show b: "i < 4 \<Longrightarrow> 4 * k + i < length as" for i using l assms(2) by linarith
  have "4 * k + 4 \<le> length as" using l assms(2) by linarith
  then show "slice (4 * k) 4 as = map (\<lambda>i. as ! (4 * k + i)) [0..<4]" by (intro nth_equalityI) (simp_all add: nth_slice)
  have e: "a + of_nat (4 * k) + of_nat i = a + of_nat (4 * k + i)" by simp
  show "i < 4 \<Longrightarrow> kva True s (a + of_nat (4 * k) + of_nat i) = Some (as ! (4 * k + i))" "i < 4 \<Longrightarrow> kva False s (a + of_nat (4 * k) + of_nat i) = Some (as ! (4 * k + i))"
    unfolding e using kva_writable [OF w b] by blast+
qed

lemma writable_mem:
  assumes "writable_at as a s" "\<And>x. x \<notin> set as \<Longrightarrow> m x = mem (mm s) x"
  shows "writable_at as a (upd_mem (\<lambda>_. m) s)"
proof -
  have "writable_at as a (set_pipe 0 (the_pipe 0 (upd_mem (\<lambda>_. m) s)) (upd_mem (\<lambda>_. m) s))"
    by (rule writable_step) (use assms in auto)
  then show ?thesis by (simp only: set_pipe_set(2))
qed

lemma rdint_ok:
  assumes "fields_at as a fs s" "k < length fs"
  shows "wp (rdint (a + of_nat (4 * k))) P s \<longleftrightarrow> P (fs ! k) s"
proof -
  note f = assms(1) [unfolded fields_at_def]
  let ?X = "map (mem (mm s)) (slice (4 * k) 4 as)"
  have "map (\<lambda>i. map_option (mem (mm s)) (kva False s (a + of_nat (4 * k) + of_nat i))) [0..<4] = map Some ?X"
    unfolding word_bytes(1) [OF assms] by (rule nth_equalityI) (use word_bytes(4) [OF assms] in \<open>simp_all del: of_nat_mult\<close>)
  moreover have "None \<notin> set (map Some ?X)" "map the (map Some ?X) = ?X" by (auto simp: comp_def)
  ultimately have "wp (vread (a + of_nat (4 * k)) 4) Q s \<longleftrightarrow> Q ?X s" for Q
    unfolding vread_def wp_kbind wp_prims(2) by (simp only: if_False wp_prims(1))
  then show ?thesis using f assms(2) by (simp add: rdint_def wps uword_def del: of_nat_mult)
qed

lemma put_list_fold: "length xs = length bs \<Longrightarrow> fold (\<lambda>(a, b) m. m(the a := b)) (zip (map Some xs) bs) m = put_list xs bs m"
proof (induction xs arbitrary: bs m)
  case (Cons x xs)
  then show ?case by (cases bs) (auto simp: fun_upd_def)
qed simp

lemma put_list_other: "x \<notin> set xs \<Longrightarrow> put_list xs bs m x = m x"
  by (induction xs arbitrary: bs m) auto

lemma put_list_map: "distinct xs \<Longrightarrow> length xs = length bs \<Longrightarrow> map (put_list xs bs m) xs = bs"
proof (induction xs arbitrary: bs m)
  case (Cons x xs)
  then obtain b bs' where b: "bs = b # bs'" by (cases bs) auto
  have "put_list xs bs' (m(x := b)) x = b" using Cons.prems by (simp add: put_list_other)
  then show ?case using Cons b by simp
qed simp

lemma wrint_ok:
  assumes "fields_at as a fs s" "k < length fs" "int_range v"
    and post: "\<And>m. fields_at as a (fs[k := v]) (upd_mem (\<lambda>_. m) s) \<Longrightarrow> (\<And>x. x \<notin> set as \<Longrightarrow> m x = mem (mm s) x) \<Longrightarrow> P () (upd_mem (\<lambda>_. m) s)"
  shows "wp (wrint (a + of_nat (4 * k)) v) P s"
proof -
  note f = assms(1) [unfolded fields_at_def]
  let ?xs = "slice (4 * k) 4 as" and ?bs = "le_bytes 4 (nat (v mod 2 ^ 32))"
  have d: "distinct as" using f by (simp add: writable_at_def)
  have as: "map (\<lambda>i. kva True s (a + of_nat (4 * k) + of_nat i)) [0..<4] = map Some ?xs"
    unfolding word_bytes(1) [OF assms(1,2)] by (rule nth_equalityI) (use word_bytes(3) [OF assms(1,2)] in \<open>simp_all del: of_nat_mult\<close>)
  define m where "m = put_list ?xs ?bs (mem (mm s))"
  have lx: "length ?xs = 4" unfolding word_bytes(1) [OF assms(1,2)] by simp
  have dx: "distinct ?xs" using d by (simp add: slice_def)
  have sub: "set ?xs \<subseteq> set as" unfolding slice_def by (meson in_set_dropD in_set_takeD subsetI)
  have out: "m x = mem (mm s) x" if "x \<notin> set ?xs" for x using that by (simp add: m_def put_list_other)
  have w: "writable_at as a (upd_mem (\<lambda>_. m) s)" by (rule writable_mem) (use f out sub in auto)
  have "uword as j (upd_mem (\<lambda>_. m) s) = fs[k := v] ! j" if j: "j < length fs" for j
  proof (cases "j = k")
    case True
    have "map m ?xs = ?bs" unfolding m_def by (rule put_list_map [OF dx]) (simp only: lx length_le_bytes)
    moreover have "geti32 ?bs 0 = v" using assms(3) i32_wrap [of v] by (simp add: geti32_def get32_def slice_def de_le_bytes)
    ultimately show ?thesis using True j by (simp add: uword_def)
  next
    case False
    have "m x = mem (mm s) x" if x: "x \<in> set (slice (4 * j) 4 as)" for x
    proof (rule out)
      obtain i where i: "i < 4" "x = as ! (4 * j + i)" using x unfolding word_bytes(1) [OF assms(1) j] by auto
      show "x \<notin> set ?xs"
      proof
        assume "x \<in> set ?xs"
        then obtain i' where i': "i' < 4" "x = as ! (4 * k + i')" unfolding word_bytes(1) [OF assms(1,2)] by auto
        have "4 * j + i = 4 * k + i'"
          using nth_eq_iff_index_eq [OF d word_bytes(2) [OF assms(1) j i(1)] word_bytes(2) [OF assms(1,2) i'(1)]] i(2) i'(2) by simp
        then show False using False i(1) i'(1) by presburger
      qed
    qed
    then have "map m (slice (4 * j) 4 as) = map (mem (mm s)) (slice (4 * j) 4 as)" by simp
    then have "uword as j (upd_mem (\<lambda>_. m) s) = uword as j s" unfolding uword_def by (simp only: upd_mem_simps)
    then show ?thesis using False j f by simp
  qed
  then have fa: "fields_at as a (fs[k := v]) (upd_mem (\<lambda>_. m) s)" using w f by (simp add: fields_at_def)
  have "P () (upd_mem (\<lambda>_. m) s)" by (rule post [OF fa]) (use out sub in auto)
  then have "P () (upd_mem (\<lambda>m. put_list ?xs ?bs m) s)" by (subst upd_mem_const) (simp add: m_def)
  moreover have "fold (\<lambda>(a, b) m. m(the a := b)) (zip (map Some ?xs) ?bs) = put_list ?xs ?bs"
    by (rule ext, rule put_list_fold) (simp only: lx length_le_bytes)
  ultimately show ?thesis by (simp add: wrint_def vwrite_def wps as del: of_nat_mult)
qed

section \<open>Steps on the fields\<close>

lemma moves_refl: "moves as (\<lambda>ps. ps) s s"
  unfolding moves_def by (rule exI [of _ "mem (mm s)"]) (simp add: upd_pt_def)

lemma upd_mem_pt: "upd_mem f (upd_pt g s) = upd_pt g (upd_mem f s)"
  by (simp add: upd_mem_def upd_mm_def upd_pt_def)

lemma moves_trans:
  assumes "moves as g s t" "moves as h t u"
  shows "moves as (\<lambda>ps. h (g ps)) s u"
proof -
  obtain m where m: "t = upd_pt (\<lambda>p. p\<lparr>procs := g (procs p)\<rparr>) (upd_mem (\<lambda>_. m) s)" "\<forall>x. x \<notin> set as \<longrightarrow> m x = mem (mm s) x"
    using assms(1) by (auto simp: moves_def)
  obtain n where n: "u = upd_pt (\<lambda>p. p\<lparr>procs := h (procs p)\<rparr>) (upd_mem (\<lambda>_. n) t)" "\<forall>x. x \<notin> set as \<longrightarrow> n x = mem (mm t) x"
    using assms(2) by (auto simp: moves_def)
  have "u = upd_pt (\<lambda>p. p\<lparr>procs := h (g (procs p))\<rparr>) (upd_mem (\<lambda>_. n) s)" unfolding n(1) m(1) by (simp add: upd_mem_pt comp_def)
  moreover have "mem (mm t) = m" unfolding m(1) by simp
  ultimately show ?thesis unfolding moves_def using m(2) n(2) by (intro exI [of _ n]) auto
qed

lemma moves_mem: "moves as g s t \<Longrightarrow> (\<And>x. x \<notin> set as \<Longrightarrow> m x = mem (mm t) x) \<Longrightarrow> moves as g s (upd_mem (\<lambda>_. m) t)"
  by (drule moves_trans [where h = "\<lambda>ps. ps" and u = "upd_mem (\<lambda>_. m) t"]) (auto simp: moves_def upd_pt_def intro: exI [of _ m])

lemma moves_procs: "moves as g s t \<Longrightarrow> moves as (\<lambda>ps. h (g ps)) s (upd_pt (\<lambda>p. p\<lparr>procs := h (procs p)\<rparr>) t)"
  by (erule moves_trans) (auto simp: moves_def intro: exI [of _ "mem (mm t)"])

lemma wp_rdint:
  assumes "fields_at as a fs s" "k < length fs" "b = a + of_nat (4 * k)" "P (fs ! k) s"
  shows "wp (rdint b) P s"
  unfolding assms(3) using rdint_ok [OF assms(1,2)] assms(4) by blast

lemma wp_wrint:
  assumes "fields_at as a fs s" "k < length fs" "b = a + of_nat (4 * k)" "int_range v" "moves as g s0 s"
    and "\<And>t. fields_at as a (fs[k := v]) t \<Longrightarrow> moves as g s0 t \<Longrightarrow> P () t"
  shows "wp (wrint b v) P s"
  unfolding assms(3)
proof (rule wrint_ok [OF assms(1,2,4)])
  fix m assume "fields_at as a (fs[k := v]) (upd_mem (\<lambda>_. m) s)" "\<And>x. x \<notin> set as \<Longrightarrow> m x = mem (mm s) x"
  then show "P () (upd_mem (\<lambda>_. m) s)"
    by (intro assms(6) moves_mem [OF assms(5)]) auto
qed

lemma wp_Mutex_lock:
  assumes "fields_at as a fs s" "k < length fs" "b = a + of_nat (4 * k)" "fs ! k = 0" "moves as g s0 s"
    and "\<And>t. fields_at as a (fs[k := 1]) t \<Longrightarrow> moves as g s0 t \<Longrightarrow> P () t"
  shows "wp (Mutex_lock b) P s"
  unfolding Mutex_lock_def TestAndSet_def wp_kbind wp_kthen
  by (rule wp_rdint [OF assms(1-3)], rule wp_wrint [OF assms(1-3) _ assms(5)]) (use assms(4,6) in \<open>simp_all add: int_range_def wps\<close>)

lemma wp_Mutex_unlock:
  assumes "fields_at as a fs s" "k < length fs" "b = a + of_nat (4 * k)" "moves as g s0 s"
    and "\<And>t. fields_at as a (fs[k := 0]) t \<Longrightarrow> moves as g s0 t \<Longrightarrow> P () t"
  shows "wp (Mutex_unlock b) P s"
  unfolding Mutex_unlock_def by (rule wp_wrint [OF assms(1-3) _ assms(4)]) (use assms(5) in \<open>simp_all add: int_range_def\<close>)

lemma xem_wait_ok:
  assumes "fields_at as a fs s" "k + 3 < length fs" "b = a + of_nat (4 * k)" "fs ! (k + 3) = 0" "0 < fs ! k" "int_range (fs ! k)" "moves as g s0 s"
    and "\<And>t. fields_at as a (fs[k := fs ! k - 1]) t \<Longrightarrow> moves as g s0 t \<Longrightarrow> P 0 t"
  shows "wp (xem_wait b) P s"
proof -
  have b: "b + 12 = a + of_nat (4 * (k + 3))" by (simp add: assms(3) algebra_simps)
  have l: "k < length (fs[k + 3 := 1])" "(fs[k + 3 := 1]) ! k = fs ! k" using assms(2) by simp_all
  have u: "fs[k + 3 := 1, k := fs ! k - 1, k + 3 := 0] = fs[k := fs ! k - 1]"
    using assms(2,4) by (simp add: list_eq_iff_nth_eq nth_list_update)
  show ?thesis
    unfolding xem_wait_def wp_kbind wp_kthen
  proof (rule wp_Mutex_lock [OF assms(1,2) b assms(4,7)])
    fix t assume t: "fields_at as a (fs[k + 3 := 1]) t" "moves as g s0 t"
    show "wp (kloop (kbind (rdint b) (\<lambda>v. if v \<le> 0 then kthen (Cond_wait (b + 4) (b + 12)) (kreturn None) else kreturn (Some ()))))
      (\<lambda>_. wp (rdint b) (\<lambda>v. wp (wrint b (v - 1)) (\<lambda>_. wp (Mutex_unlock (b + 12)) (\<lambda>_. wp (kreturn 0) P)))) t"
      by (rule wp_kloop, unfold wp_kbind, rule wp_rdint [OF t(1) l(1) assms(3)])
        (use assms(2,5,6) l in \<open>auto simp: wps int_range_def intro!: wp_rdint [OF t(1) l(1) assms(3)] wp_wrint [OF t(1) l(1) assms(3) _ t(2)] wp_Mutex_unlock [OF _ _ b] assms(8) [folded u]\<close>)
  qed
qed

lemma fields_frame [simp]:
  "fields_at as a fs (acq l s) = fields_at as a fs s" "fields_at as a fs (upd_pt (set_proc i f) s) = fields_at as a fs s"
  by (simp_all add: fields_at_def writable_at_def uword_def kva_def upd_mem_def set_proc_def)

lemma fields_signal [simp]: "fields_at as a fs (upd_pt (\<lambda>p. p\<lparr>procs := f (procs p)\<rparr>) s) = fields_at as a fs s"
  by (simp add: fields_at_def writable_at_def uword_def kva_def upd_mem_def)

lemma signal_one:
  assumes "P () (upd_pt (\<lambda>p. p\<lparr>procs := signalled c (procs p)\<rparr>) s)"
  shows "wp (kbind (kget (\<lambda>s. first_idx (sleeper c) (procs (pt s)))) (\<lambda>f. case f of None \<Rightarrow> kreturn () | Some i \<Rightarrow> upd_proc i (\<lambda>q. q\<lparr>p_state := RUNNABLE\<rparr>))) P s"
proof (cases "first_idx (sleeper c) (procs (pt s))")
  case None
  then have "upd_pt (\<lambda>p. p\<lparr>procs := signalled c (procs p)\<rparr>) s = s" by (simp add: signalled_def upd_pt_def)
  then show ?thesis using assms None by (simp add: wps)
next
  case (Some i)
  then have "upd_pt (\<lambda>p. p\<lparr>procs := signalled c (procs p)\<rparr>) s = upd_pt (set_proc i (\<lambda>q. q\<lparr>p_state := RUNNABLE\<rparr>)) s"
    by (simp add: signalled_def upd_pt_def set_proc_def)
  then show ?thesis using assms Some by (simp add: wps)
qed

lemma Cond_signal_ok:
  assumes "fields_at as a fs s" "k + 1 < length fs" "b = a + of_nat (4 * k)" "fs ! (k + 1) = 0" "0 \<le> fs ! k" "int_range (fs ! k)" "moves as g s0 s"
    and post: "\<And>t. fields_at as a (fs[k := fs ! k - (if fs ! k = 0 then 0 else 1)]) t \<Longrightarrow> moves as (\<lambda>ps. signals (fs ! k) b (g ps)) s0 t \<Longrightarrow> P () t"
  shows "wp (Cond_signal b) P s"
proof -
  have b: "b + 4 = a + of_nat (4 * (k + 1))" by (simp add: assms(3) algebra_simps)
  let ?f = "fs[k + 1 := 1, k := fs ! k - 1]"
  have l: "k < length (fs[k + 1 := 1])" "(fs[k + 1 := 1]) ! k = fs ! k" "k + 1 < length (fs[k + 1 := 1])" "k + 1 < length ?f" using assms(2) by simp_all
  have f: "?f[k + 1 := 0] = fs[k := fs ! k - 1]" "fs[k + 1 := 1, k + 1 := 0] = fs[k := fs ! k - 0]"
    using assms(2,4) by (simp_all add: list_eq_iff_nth_eq nth_list_update)
  have r: "int_range (fs ! k - 1)" if "fs ! k \<noteq> 0" using assms(5,6) that by (simp add: int_range_def)
  show ?thesis
    unfolding Cond_signal_def wp_kbind wp_kthen
  proof (rule wp_Mutex_lock [OF assms(1,2) b assms(4,7)])
    fix t assume t: "fields_at as a (fs[k + 1 := 1]) t" "moves as g s0 t"
    let ?rest = "kthen (wrint b (fs ! k - 1)) (kthen (Mutex_unlock (b + 4)) (kbind (kget (\<lambda>s. first_idx (sleeper b) (procs (pt s))))
      (\<lambda>f. case f of None \<Rightarrow> kreturn () | Some i \<Rightarrow> upd_proc i (\<lambda>q. q\<lparr>p_state := RUNNABLE\<rparr>))))"
    have 1: "wp (Mutex_unlock (b + 4)) P t" if z: "fs ! k = 0"
      by (rule wp_Mutex_unlock [OF t(1) l(3) b t(2)], rule post) (use z f(2) in \<open>simp_all add: signals_def\<close>)
    have 2: "wp ?rest P t" if nz: "fs ! k \<noteq> 0"
      unfolding wp_kthen
      by (rule wp_wrint [OF t(1) l(1) assms(3) r [OF nz] t(2)], rule wp_Mutex_unlock [OF _ l(4) b], assumption, assumption, rule signal_one, rule post)
        (use nz f(1) in \<open>auto simp: signals_def intro: moves_procs\<close>)
    show "wp (rdint b) (\<lambda>w. wp (if w = 0 then Mutex_unlock (b + 4) else kthen (wrint b (w - 1)) (kthen (Mutex_unlock (b + 4)) (kbind (kget (\<lambda>s. first_idx (sleeper b) (procs (pt s))))
      (\<lambda>f. case f of None \<Rightarrow> kreturn () | Some i \<Rightarrow> upd_proc i (\<lambda>q. q\<lparr>p_state := RUNNABLE\<rparr>))))) P) t"
      by (rule wp_rdint [OF t(1) l(1) assms(3)]) (use 1 2 l(2) in simp)
  qed
qed

lemma xem_unlock_ok:
  assumes "fields_at as a fs s" "k + 3 < length fs" "b = a + of_nat (4 * k)" "fs ! (k + 3) = 0" "fs ! (k + 2) = 0" "0 \<le> fs ! (k + 1)" "int_range (fs ! (k + 1))"
    "int_range (fs ! k + 1)" "moves as g s0 s"
    and post: "\<And>t. fields_at as a (fs[k := fs ! k + 1, k + 1 := fs ! (k + 1) - (if fs ! (k + 1) = 0 then 0 else 1)]) t
      \<Longrightarrow> moves as (\<lambda>ps. signals (fs ! (k + 1)) (b + 4) (g ps)) s0 t \<Longrightarrow> P 0 t"
  shows "wp (xem_unlock b) P s"
proof -
  have b: "b + 12 = a + of_nat (4 * (k + 3))" "b + 4 = a + of_nat (4 * (k + 1))" by (simp_all add: assms(3) algebra_simps)
  let ?f = "fs[k + 3 := 1, k := fs ! k + 1]" and ?n = "fs ! (k + 1) - (if fs ! (k + 1) = 0 then 0 else 1)"
  have l: "k < length (fs[k + 3 := 1])" "(fs[k + 3 := 1]) ! k = fs ! k" "k + 1 + 1 < length ?f" "k + 3 < length (?f[k + 1 := ?n])"
    using assms(2) by simp_all
  have f: "?f ! (k + 1) = fs ! (k + 1)" "?f ! (k + 1 + 1) = 0" "?f[k + 1 := ?n, k + 3 := 0] = fs[k := fs ! k + 1, k + 1 := ?n]"
    using assms(2,4,5) by (simp_all add: list_eq_iff_nth_eq nth_list_update)
  show ?thesis
    unfolding xem_unlock_def wp_kbind wp_kthen
  proof (rule wp_Mutex_lock [OF assms(1,2) b(1) assms(4,9)])
    fix t assume t: "fields_at as a (fs[k + 3 := 1]) t" "moves as g s0 t"
    show "wp (rdint b) (\<lambda>v. wp (wrint b (v + 1)) (\<lambda>_. wp (Cond_signal (b + 4)) (\<lambda>_. wp (Mutex_unlock (b + 12)) (\<lambda>_. wp (kreturn 0) P)))) t"
    proof (rule wp_rdint [OF t(1) l(1) assms(3)], unfold l(2), rule wp_wrint [OF t(1) l(1) assms(3,8) t(2)])
      fix u assume u: "fields_at as a ?f u" "moves as g s0 u"
      have "wp (Cond_signal (b + 4)) (\<lambda>_ v. fields_at as a (?f[k + 1 := ?n]) v \<and> moves as (\<lambda>ps. signals (fs ! (k + 1)) (b + 4) (g ps)) s0 v) u"
        by (rule Cond_signal_ok [OF u(1) l(3) b(2) f(2) _ _ u(2)]) (use assms(6,7) f(1) in simp_all)
      then show "wp (Cond_signal (b + 4)) (\<lambda>_. wp (Mutex_unlock (b + 12)) (\<lambda>_. wp (kreturn 0) P)) u"
      proof (rule wp_mono, elim conjE)
        fix v assume v: "fields_at as a (?f[k + 1 := ?n]) v" "moves as (\<lambda>ps. signals (fs ! (k + 1)) (b + 4) (g ps)) s0 v"
        show "wp (Mutex_unlock (b + 12)) (\<lambda>_. wp (kreturn 0) P) v"
          by (rule wp_Mutex_unlock [OF v(1) l(4) b(1) v(2)]) (use post f(3) in \<open>simp add: wp_prims\<close>)
      qed
    qed
  qed
qed

section \<open>The read-write lock\<close>

lemma dec_bounds: "0 \<le> n \<Longrightarrow> 0 \<le> dec n \<and> dec n \<le> n"
  by (simp add: dec_def)

lemma rw_addr: "a = a + of_nat (4 * 0)" "a + 16 = a + of_nat (4 * 4)" "a + 32 = a + of_nat (4 * 8)" for a :: uint
  by simp_all

text \<open>The common part of a reader's entry and exit: the counter is changed under the semaphore \<open>lock\<close>.\<close>

lemma rw_adjust:
  assumes f: "fields_at as a [1, n, 0, 0, v, n', 0, 0, r] s" and r: "int_range (h r)"
    and mid: "\<And>t. fields_at as a [0, n, 0, 0, v, n', 0, 0, h r] t \<Longrightarrow> moves as (\<lambda>ps. ps) s t \<Longrightarrow> wp (kthen (q (h r)) m) P t"
  shows "wp (kthen (xem_wait a) (kbind (rdint (a + 32)) (\<lambda>r. kthen (wrint (a + 32) (h r)) (kbind (rdint (a + 32)) (\<lambda>r. kthen (q r) m))))) P s"
  unfolding wp_kbind [of "rdint _"] wp_kthen [of "xem_wait _"] wp_kthen [of "wrint _ _"]
proof (rule xem_wait_ok [OF f _ rw_addr(1) _ _ _ moves_refl])
  fix t assume "fields_at as a ([1, n, 0, 0, v, n', 0, 0, r][0 := [1, n, 0, 0, v, n', 0, 0, r] ! 0 - 1]) t" and m: "moves as (\<lambda>ps. ps) s t"
  then have t: "fields_at as a [0, n, 0, 0, v, n', 0, 0, r] t" by simp
  show "wp (rdint (a + 32)) (\<lambda>r. wp (wrint (a + 32) (h r)) (\<lambda>_. wp (rdint (a + 32)) (\<lambda>r. wp (kthen (q r) m) P))) t"
  proof (rule wp_rdint [OF t _ rw_addr(3)], simp, rule wp_wrint [OF t _ rw_addr(3) _ m])
    fix u assume "fields_at as a ([0, n, 0, 0, v, n', 0, 0, r][8 := h ([0, n, 0, 0, v, n', 0, 0, r] ! 8)]) u" and m: "moves as (\<lambda>ps. ps) s u"
    then have u: "fields_at as a [0, n, 0, 0, v, n', 0, 0, h r] u" by simp
    show "wp (rdint (a + 32)) (\<lambda>r. wp (kthen (q r) m) P) u"
      by (rule wp_rdint [OF u _ rw_addr(3)]) (use mid [OF u m] in simp_all)
  qed (use r in simp_all)
qed (simp_all add: int_range_def)

lemma acquire_read_ok:
  assumes "rw_state as a r False n n' s" "r + 1 < 2 ^ 31 - 1"
  shows "wp (rwlock_acquire_readlock a) (\<lambda>ret t. ret = 0 \<and> rw_state as a (r + 1) False (dec n) n' t \<and> moves as (signals n (a + 4)) s t) s"
proof -
  let ?v = "if r > 0 then 0 else 1 :: int"
  note st = assms [unfolded rw_state_def]
  have f: "fields_at as a [1, n, 0, 0, ?v, n', 0, 0, r] s" using st by simp
  have last: "wp (xem_unlock a) (\<lambda>_. wp (kreturn 0) (\<lambda>ret t. ret = 0 \<and> rw_state as a (r + 1) False (dec n) n' t \<and> moves as (signals n (a + 4)) s t)) t"
    if t: "fields_at as a [0, n, 0, 0, 0, n', 0, 0, r + 1] t" "moves as (\<lambda>ps. ps) s t" for t
    by (rule xem_unlock_ok [OF t(1) _ rw_addr(1) _ _ _ _ _ t(2)]) (use st dec_bounds [of n] dec_bounds [of n'] in \<open>auto simp: int_range_def wp_prims rw_state_def add.commute [of 20 a] simp flip: dec_def\<close>)
  show ?thesis
    unfolding rwlock_acquire_readlock_def
  proof (rule rw_adjust [OF f])
    fix t assume t: "fields_at as a [0, n, 0, 0, ?v, n', 0, 0, r + 1] t" "moves as (\<lambda>ps. ps) s t"
    show "wp (kthen (if r + 1 = 1 then kthen (xem_wait (a + 16)) (kreturn ()) else kreturn ()) (kthen (xem_unlock a) (kreturn 0)))
      (\<lambda>ret t. ret = 0 \<and> rw_state as a (r + 1) False (dec n) n' t \<and> moves as (signals n (a + 4)) s t) t"
    proof (cases "r = 0")
      case True
      have e: "(r + 1 = 1) = True" using True by simp
      show ?thesis
        unfolding wp_kthen wp_if
        by (simp only: e if_True wp_kthen, rule xem_wait_ok [OF t(1) _ rw_addr(2) _ _ _ t(2)])
          (use True last in \<open>simp_all add: int_range_def wp_prims\<close>)
    qed (use last t st in \<open>simp add: wps\<close>)
  qed (use st in \<open>simp add: int_range_def\<close>)
qed

lemma release_read_ok:
  assumes "rw_state as a r False n n' s" "0 < r"
  shows "wp (rwlock_release_readlock a) (\<lambda>ret t. ret = 0 \<and> rw_state as a (r - 1) False (dec n) (if r = 1 then dec n' else n') t
    \<and> moves as (\<lambda>ps. signals n (a + 4) (if r = 1 then signals n' (a + 20) ps else ps)) s t) s"
    (is "wp _ ?Q s")
proof -
  note st = assms [unfolded rw_state_def]
  have f: "fields_at as a [1, n, 0, 0, 0, n', 0, 0, r] s" using st by simp
  have last: "wp (xem_unlock a) (\<lambda>_. wp (kreturn 0) ?Q) t"
    if t: "fields_at as a [0, n, 0, 0, if r = 1 then 1 else 0, if r = 1 then dec n' else n', 0, 0, r - 1] t"
      "moves as (\<lambda>ps. if r = 1 then signals n' (a + 20) ps else ps) s t" for t
    by (rule xem_unlock_ok [OF t(1) _ rw_addr(1) _ _ _ _ _ t(2)]) (use st dec_bounds [of n] dec_bounds [of n'] in \<open>auto simp: int_range_def wp_prims rw_state_def add.commute [of 20 a] simp flip: dec_def\<close>)
  show ?thesis
    unfolding rwlock_release_readlock_def
  proof (rule rw_adjust [OF f])
    fix t assume t: "fields_at as a [0, n, 0, 0, 0, n', 0, 0, r - 1] t" "moves as (\<lambda>ps. ps) s t"
    show "wp (kthen (if r - 1 = 0 then kthen (xem_unlock (a + 16)) (kreturn ()) else kreturn ()) (kthen (xem_unlock a) (kreturn 0))) ?Q t"
    proof (cases "r = 1")
      case True
      have e: "(r - 1 = 0) = True" using True by simp
      show ?thesis
        unfolding wp_kthen wp_if
        by (simp only: e if_True wp_kthen, rule xem_unlock_ok [OF t(1) _ rw_addr(2) _ _ _ _ _ t(2)])
          (use True last st in \<open>simp_all add: int_range_def wp_prims add.commute [of 20 a] flip: dec_def\<close>)
    qed (use last t st in \<open>simp add: wps\<close>)
  qed (use st in \<open>simp add: int_range_def\<close>)
qed

lemma acquire_write_ok:
  assumes "rw_state as a 0 False n n' s"
  shows "wp (rwlock_acquire_writelock a) (\<lambda>ret t. ret = 0 \<and> rw_state as a 0 True n n' t \<and> moves as (\<lambda>ps. ps) s t) s"
proof -
  note st = assms [unfolded rw_state_def]
  have f: "fields_at as a [1, n, 0, 0, 1, n', 0, 0, 0] s" using st by simp
  show ?thesis
    unfolding rwlock_acquire_writelock_def wp_kthen
    by (rule xem_wait_ok [OF f _ rw_addr(2) _ _ _ moves_refl]) (use st dec_bounds [of n] dec_bounds [of n'] in \<open>auto simp: int_range_def wp_prims rw_state_def add.commute [of 20 a] simp flip: dec_def\<close>)
qed

lemma release_write_ok:
  assumes "rw_state as a 0 True n n' s"
  shows "wp (rwlock_release_writelock a) (\<lambda>ret t. ret = 0 \<and> rw_state as a 0 False n (dec n') t \<and> moves as (signals n' (a + 20)) s t) s"
proof -
  note st = assms [unfolded rw_state_def]
  have f: "fields_at as a [1, n, 0, 0, 0, n', 0, 0, 0] s" using st by simp
  show ?thesis
    unfolding rwlock_release_writelock_def wp_kthen
    by (rule xem_unlock_ok [OF f _ rw_addr(2) _ _ _ _ _ moves_refl]) (use st dec_bounds [of n] dec_bounds [of n'] in \<open>auto simp: int_range_def wp_prims rw_state_def add.commute [of 20 a] simp flip: dec_def\<close>)
qed

section \<open>Initialisation\<close>

lemma Cond_init_ok:
  assumes "fields_at as a fs s" "k + 1 < length fs" "b = a + of_nat (4 * k)" "moves as g s0 s"
    and "\<And>t. fields_at as a (fs[k := 0, k + 1 := 0]) t \<Longrightarrow> moves as g s0 t \<Longrightarrow> P () t"
  shows "wp (Cond_init b) P s"
proof -
  have b: "b + 4 = a + of_nat (4 * (k + 1))" by (simp add: assms(3) algebra_simps)
  have l: "k < length fs" using assms(2) by simp
  show ?thesis
    unfolding Cond_init_def Mutex_init_def wp_kthen
  proof (rule wp_wrint [OF assms(1) l assms(3) _ assms(4)])
    fix t assume t: "fields_at as a (fs[k := 0]) t" "moves as g s0 t"
    show "wp (wrint (b + 4) 0) P t" by (rule wp_wrint [OF t(1) _ b _ t(2)]) (use assms(2,5) in \<open>simp_all add: int_range_def\<close>)
  qed (simp add: int_range_def)
qed

lemma xem_init_ok:
  assumes "fields_at as a fs s" "k + 3 < length fs" "b = a + of_nat (4 * k)" "moves as g s0 s"
    and "\<And>t. fields_at as a (fs[k := 1, k + 1 := 0, k + 2 := 0, k + 3 := 0]) t \<Longrightarrow> moves as g s0 t \<Longrightarrow> P 0 t"
  shows "wp (xem_init b) P s"
proof -
  have b: "b + 12 = a + of_nat (4 * (k + 3))" "b + 4 = a + of_nat (4 * (k + 1))" by (simp_all add: assms(3) algebra_simps)
  have l: "k < length fs" using assms(2) by simp
  show ?thesis
    unfolding xem_init_def Mutex_init_def wp_kthen
  proof (rule wp_wrint [OF assms(1) l assms(3) _ assms(4)])
    fix t assume t: "fields_at as a (fs[k := 1]) t" "moves as g s0 t"
    show "wp (Cond_init (b + 4)) (\<lambda>_. wp (wrint (b + 12) 0) (\<lambda>_. wp (kreturn 0) P)) t"
    proof (rule Cond_init_ok [OF t(1) _ b(2) t(2)])
      fix u assume u: "fields_at as a (fs[k := 1, k + 1 := 0, k + 1 + 1 := 0]) u" "moves as g s0 u"
      show "wp (wrint (b + 12) 0) (\<lambda>_. wp (kreturn 0) P) u"
        by (rule wp_wrint [OF u(1) _ b(1) _ u(2)]) (use assms(2,5) in \<open>simp_all add: int_range_def wp_prims\<close>)
    qed (use assms(2) in simp)
  qed (simp add: int_range_def)
qed

lemma fields_of: "writable_at as a s \<Longrightarrow> length as = 4 * n \<Longrightarrow> fields_at as a (map (\<lambda>k. uword as k s) [0..<n]) s"
  by (simp add: fields_at_def)

lemma rwlock_init_ok:
  assumes "writable_at as a s" "length as = 36"
  shows "wp (rwlock_init a) (\<lambda>ret t. ret = 0 \<and> rw_state as a 0 False 0 0 t \<and> moves as (\<lambda>ps. ps) s t) s"
proof -
  obtain fs where f: "fields_at as a fs s" "length fs = 9" using fields_of [OF assms(1), of 9] assms(2) by force
  obtain x0 x1 x2 x3 x4 x5 x6 x7 x8 where fs: "fs = [x0, x1, x2, x3, x4, x5, x6, x7, x8]"
    using f(2) by (auto simp: numeral_eq_Suc length_Suc_conv)
  show ?thesis
    unfolding rwlock_init_def wp_kthen
  proof (rule wp_wrint [OF f(1) _ rw_addr(3) _ moves_refl])
    fix t assume t: "fields_at as a (fs[8 := 0]) t" "moves as (\<lambda>ps. ps) s t"
    show "wp (xem_init a) (\<lambda>_. wp (xem_init (a + 16)) (\<lambda>_. wp (kreturn 0) (\<lambda>ret t. ret = 0 \<and> rw_state as a 0 False 0 0 t \<and> moves as (\<lambda>ps. ps) s t))) t"
    proof (rule xem_init_ok [OF t(1) _ rw_addr(1) t(2)])
      fix u assume u: "fields_at as a (fs[8 := 0, 0 := 1, 0 + 1 := 0, 0 + 2 := 0, 0 + 3 := 0]) u" "moves as (\<lambda>ps. ps) s u"
      show "wp (xem_init (a + 16)) (\<lambda>_. wp (kreturn 0) (\<lambda>ret t. ret = 0 \<and> rw_state as a 0 False 0 0 t \<and> moves as (\<lambda>ps. ps) s t)) u"
        by (rule xem_init_ok [OF u(1) _ rw_addr(2) u(2)]) (simp_all add: fs wp_prims rw_state_def)
    qed (simp add: f)
  qed (simp_all add: f int_range_def)
qed

section \<open>Waiting\<close>

lemma blocks_bind:
  "blocks m Q s \<Longrightarrow> blocks (kbind m f) Q s" "wp m (\<lambda>a. blocks (f a) Q) s \<Longrightarrow> blocks (kbind m f) Q s"
  "blocks m Q s \<Longrightarrow> blocks (kthen m n) Q s" "wp m (\<lambda>a. blocks n Q) s \<Longrightarrow> blocks (kthen m n) Q s"
  by (auto simp: blocks_def wp_def kbind_def kthen_def)

lemma blocks_kloop: "blocks m Q s \<Longrightarrow> blocks (kloop m) Q s"
  by (auto simp: blocks_def kloop_eq)

lemma blocks_sched:
  assumes "cpu_ok s" "curproc s = Some p" "held LPtable s" "my_ncli s = 1" "p_state (procs (pt s) ! p) \<noteq> RUNNING" "Q s"
  shows "blocks sched Q s"
  using sched_ok [OF assms(1-5)] assms(6) by (auto simp: blocks_def)

lemma moves_same:
  assumes "moves as (\<lambda>ps. ps) s t"
  shows "pt t = pt s" "ctx p L t = ctx p L s"
proof -
  obtain m where "t = upd_pt (\<lambda>p. p\<lparr>procs := procs p\<rparr>) (upd_mem (\<lambda>_. m) s)" using assms by (auto simp: moves_def)
  moreover have "upd_pt (\<lambda>p. p\<lparr>procs := procs p\<rparr>) u = u" for u :: "'b kstate_scheme" by (simp add: upd_pt_def)
  ultimately have "t = upd_mem (\<lambda>_. m) s" by simp
  then show "pt t = pt s" "ctx p L t = ctx p L s" by simp_all
qed

lemma fields_settle [simp]: "fields_at as a fs (settle s) = fields_at as a fs s"
  by (simp add: fields_at_def writable_at_def uword_def kva_def upd_mem_def)

lemma falls_asleep:
  assumes c: "ctx p {} s" and f: "fields_at as a fs s" "k < length fs" "b = a + of_nat (4 * k)"
  shows "blocks (kthen (acquire LPtable) (kthen (Mutex_unlock b) (kthen (upd_proc p (\<lambda>q. q\<lparr>p_chan := Some (CUser ch)\<rparr>))
      (kthen (upd_proc p (\<lambda>q. q\<lparr>p_state := SLEEPING\<rparr>)) (kthen sched r)))))
    (\<lambda>t. waits_on p ch (procs (pt s)) t \<and> fields_at as a (fs[k := 0]) t) s"
proof (rule blocks_bind(4), rule wp_acquire [OF c], simp, rule blocks_bind(4))
  have f': "fields_at as a fs (acq LPtable s)" using f(1) by simp
  show "wp (Mutex_unlock b) (\<lambda>_. blocks (kthen (upd_proc p (\<lambda>q. q\<lparr>p_chan := Some (CUser ch)\<rparr>)) (kthen (upd_proc p (\<lambda>q. q\<lparr>p_state := SLEEPING\<rparr>)) (kthen sched r)))
    (\<lambda>t. waits_on p ch (procs (pt s)) t \<and> fields_at as a (fs[k := 0]) t)) (acq LPtable s)"
  proof (rule wp_Mutex_unlock [OF f' f(2,3) moves_refl], rule blocks_bind(4), unfold wp_upd_proc, rule blocks_bind(4), unfold wp_upd_proc, rule blocks_bind(3))
    fix u assume u: "fields_at as a (fs[k := 0]) u" "moves as (\<lambda>ps. ps) (acq LPtable s) u"
    let ?u = "upd_pt (set_proc p (\<lambda>q. q\<lparr>p_state := SLEEPING\<rparr>)) (upd_pt (set_proc p (\<lambda>q. q\<lparr>p_chan := Some (CUser ch)\<rparr>)) u)"
    have cu: "ctx p {LPtable} u" using moves_same(2) [OF u(2)] ctx_acq [OF c, of LPtable] by simp
    then have c2: "ctx p {LPtable} ?u" by (intro ctx_upd_pt) (simp_all add: set_proc_def)
    have pu: "procs (pt u) = procs (pt s)" using moves_same(1) [OF u(2)] by simp
    have l: "p < length (procs (pt s))" using ctxD(5) [OF c] .
    have ps: "procs (pt ?u) = (procs (pt s))[p := (procs (pt s) ! p)\<lparr>p_chan := Some (CUser ch), p_state := SLEEPING\<rparr>]"
      using pu l by (simp add: set_proc_def)
    show "blocks sched (\<lambda>t. waits_on p ch (procs (pt s)) t \<and> fields_at as a (fs[k := 0]) t) ?u"
    proof (rule blocks_sched)
      show "p_state (procs (pt ?u) ! p) \<noteq> RUNNING" by (simp only: ps) (use l in simp)
      show "waits_on p ch (procs (pt s)) ?u \<and> fields_at as a (fs[k := 0]) ?u"
        unfolding waits_on_def ps using u(1) ctxD(6) [OF c2] by (simp only: fields_frame) simp
    qed (use ctxD [OF c2] in simp_all)
  qed
qed

lemma xem_wait_blocks:
  assumes c: "ctx p {} s" and f: "fields_at as a fs s" "k + 3 < length fs" "b = a + of_nat (4 * k)" "fs ! (k + 3) = 0" "fs ! (k + 2) = 0"
    and v: "fs ! k \<le> 0" "int_range (fs ! (k + 1) + 1)" "b + 12 \<noteq> 0"
  shows "blocks (xem_wait b) (\<lambda>t. waits_on p (b + 4) (procs (pt s)) t \<and> fields_at as a (fs[k + 1 := fs ! (k + 1) + 1]) t) s" (is "blocks _ ?Q s")
proof -
  have b: "b + 12 = a + of_nat (4 * (k + 3))" "b + 4 = a + of_nat (4 * (k + 1))" "b + 4 + 4 = a + of_nat (4 * (k + 2))" by (simp_all add: f(3) algebra_simps)
  let ?g = "fs[k + 3 := 1]"
  let ?h = "?g[k + 2 := 1]"
  let ?i = "?h[k + 1 := fs ! (k + 1) + 1]"
  let ?j = "?i[k + 2 := 0]"
  have l: "k < length ?g" "?g ! k = fs ! k" "k + 2 < length ?g" "?g ! (k + 2) = 0" "k + 1 < length ?h" "?h ! (k + 1) = fs ! (k + 1)" "k + 2 < length ?i" "k + 3 < length ?j"
    using f(2,5) by simp_all
  have e: "?j[k + 3 := 0] = fs[k + 1 := fs ! (k + 1) + 1]" using f(2,4,5) by (auto simp add: list_eq_iff_nth_eq nth_list_update)
  have wait: "blocks (Cond_wait (b + 4) (b + 12)) ?Q t" if t: "fields_at as a ?g t" "moves as (\<lambda>ps. ps) s t" for t
    unfolding Cond_wait_def
  proof (rule blocks_bind(2), rule wp_myproc [of p "{}"])
    have ct: "ctx p {} t" using moves_same(2) [OF t(2)] c by simp
    then show "ctx p {} t" .
    have ft: "fields_at as a ?g (settle t)" using t(1) by simp
    have "blocks (kthen (Mutex_lock (b + 4 + 4)) (kbind (rdint (b + 4)) (\<lambda>w. kthen (wrint (b + 4) (w + 1)) (kthen (Mutex_unlock (b + 4 + 4)) (kthen (acquire LPtable)
       (kthen (Mutex_unlock (b + 12)) (kthen (upd_proc p (\<lambda>q. q\<lparr>p_chan := Some (CUser (b + 4))\<rparr>)) (kthen (upd_proc p (\<lambda>q. q\<lparr>p_state := SLEEPING\<rparr>))
       (kthen sched (kthen (upd_proc p (\<lambda>q. q\<lparr>p_chan := None\<rparr>)) (kthen (release LPtable) (Mutex_lock (b + 12)))))))))))))  ?Q (settle t)"
    proof (rule blocks_bind(4), rule wp_Mutex_lock [OF ft l(3) b(3) l(4) moves_refl], rule blocks_bind(2))
      fix u assume u: "fields_at as a ?h u" "moves as (\<lambda>ps. ps) (settle t) u"
      show "wp (rdint (b + 4)) (\<lambda>w. blocks (kthen (wrint (b + 4) (w + 1)) (kthen (Mutex_unlock (b + 4 + 4)) (kthen (acquire LPtable)
       (kthen (Mutex_unlock (b + 12)) (kthen (upd_proc p (\<lambda>q. q\<lparr>p_chan := Some (CUser (b + 4))\<rparr>)) (kthen (upd_proc p (\<lambda>q. q\<lparr>p_state := SLEEPING\<rparr>))
       (kthen sched (kthen (upd_proc p (\<lambda>q. q\<lparr>p_chan := None\<rparr>)) (kthen (release LPtable) (Mutex_lock (b + 12))))))))))) ?Q) u"
      proof (rule wp_rdint [OF u(1) l(5) b(2)], unfold l(6), rule blocks_bind(4), rule wp_wrint [OF u(1) l(5) b(2) v(2) u(2)], rule blocks_bind(4))
        fix w assume w: "fields_at as a ?i w" "moves as (\<lambda>ps. ps) (settle t) w"
        show "wp (Mutex_unlock (b + 4 + 4)) (\<lambda>_. blocks (kthen (acquire LPtable) (kthen (Mutex_unlock (b + 12)) (kthen (upd_proc p (\<lambda>q. q\<lparr>p_chan := Some (CUser (b + 4))\<rparr>))
          (kthen (upd_proc p (\<lambda>q. q\<lparr>p_state := SLEEPING\<rparr>)) (kthen sched (kthen (upd_proc p (\<lambda>q. q\<lparr>p_chan := None\<rparr>)) (kthen (release LPtable) (Mutex_lock (b + 12))))))))) ?Q) w"
        proof (rule wp_Mutex_unlock [OF w(1) l(7) b(3) w(2)])
          fix x assume x: "fields_at as a ?j x" "moves as (\<lambda>ps. ps) (settle t) x"
          have c': "ctx p {} x" and p': "procs (pt x) = procs (pt s)" using moves_same [OF x(2)] moves_same(1) [OF t(2)] ct by simp_all
          show "blocks (kthen (acquire LPtable) (kthen (Mutex_unlock (b + 12)) (kthen (upd_proc p (\<lambda>q. q\<lparr>p_chan := Some (CUser (b + 4))\<rparr>))
          (kthen (upd_proc p (\<lambda>q. q\<lparr>p_state := SLEEPING\<rparr>)) (kthen sched (kthen (upd_proc p (\<lambda>q. q\<lparr>p_chan := None\<rparr>)) (kthen (release LPtable) (Mutex_lock (b + 12))))))))) ?Q x"
            by (rule falls_asleep [OF c' x(1) l(8) b(1), unfolded e p'])
        qed
      qed
    qed
    then show "blocks (case Some p of None \<Rightarrow> kpanic ''sleep'' | Some p \<Rightarrow> if b + 12 = 0 then kpanic ''sleep without lock'' else
         kthen (Mutex_lock (b + 4 + 4)) (kbind (rdint (b + 4)) (\<lambda>w. kthen (wrint (b + 4) (w + 1)) (kthen (Mutex_unlock (b + 4 + 4)) (kthen (acquire LPtable)
       (kthen (Mutex_unlock (b + 12)) (kthen (upd_proc p (\<lambda>q. q\<lparr>p_chan := Some (CUser (b + 4))\<rparr>)) (kthen (upd_proc p (\<lambda>q. q\<lparr>p_state := SLEEPING\<rparr>))
       (kthen sched (kthen (upd_proc p (\<lambda>q. q\<lparr>p_chan := None\<rparr>)) (kthen (release LPtable) (Mutex_lock (b + 12)))))))))))))  ?Q (settle t)"
      using v(3) by (simp only: option.case if_False)
  qed
  show ?thesis
    unfolding xem_wait_def
  proof (rule blocks_bind(4), rule wp_Mutex_lock [OF f(1,2) b(1) f(4) moves_refl], rule blocks_bind(3), rule blocks_kloop, rule blocks_bind(2))
    fix t assume t: "fields_at as a ?g t" "moves as (\<lambda>ps. ps) s t"
    show "wp (rdint b) (\<lambda>w. blocks (if w \<le> 0 then kthen (Cond_wait (b + 4) (b + 12)) (kreturn None) else kreturn (Some ())) ?Q) t"
      by (rule wp_rdint [OF t(1) l(1) f(3)]) (use v(1) l(2) wait [OF t] in \<open>simp add: blocks_bind(3)\<close>)
  qed
qed

lemma acquire_write_blocks:
  assumes c: "ctx p {} s" and st: "rw_state as a r w n n' s" "w \<or> r > 0" "a + 28 \<noteq> 0"
  shows "blocks (rwlock_acquire_writelock a) (\<lambda>t. waits_on p (a + 20) (procs (pt s)) t \<and> fields_at as a [1, n, 0, 0, 0, n' + 1, 0, 0, r] t) s"
proof -
  have f: "fields_at as a [1, n, 0, 0, 0, n', 0, 0, r] s" using st by (simp add: rw_state_def)
  show ?thesis
    unfolding rwlock_acquire_writelock_def
    using xem_wait_blocks [OF c f _ rw_addr(2)] st by (intro blocks_bind(3)) (simp add: int_range_def rw_state_def add.commute [of _ a])
qed

lemma acquire_read_blocks:
  assumes c: "ctx p {} s" and st: "rw_state as a r True n n' s" "a + 28 \<noteq> 0"
  shows "blocks (rwlock_acquire_readlock a) (\<lambda>t. waits_on p (a + 20) (procs (pt s)) t \<and> fields_at as a [0, n, 0, 0, 0, n' + 1, 0, 0, 1] t) s" (is "blocks _ ?Q s")
proof -
  have f: "fields_at as a [1, n, 0, 0, 0, n', 0, 0, 0] s" using st(1) by (auto simp: rw_state_def)
  let ?rest = "\<lambda>v. kthen (if v = 1 then kthen (xem_wait (a + 16)) (kreturn ()) else kreturn ()) (kthen (xem_unlock a) (kreturn 0))"
  have inner: "blocks (?rest 1) ?Q t" if t: "fields_at as a [0, n, 0, 0, 0, n', 0, 0, 1] t" "moves as (\<lambda>ps. ps) s t" for t
  proof -
    have "ctx p {} t" "procs (pt t) = procs (pt s)" using moves_same [OF t(2)] c by simp_all
    then have "blocks (xem_wait (a + 16)) ?Q t"
      using xem_wait_blocks [OF _ t(1) _ rw_addr(2)] st by (simp add: int_range_def rw_state_def add.commute [of _ a])
    then show ?thesis by (simp add: blocks_bind(3))
  qed
  have count: "blocks (kthen (wrint (a + 32) (0 + 1)) (kbind (rdint (a + 32)) ?rest)) ?Q t"
    if t: "fields_at as a [0, n, 0, 0, 0, n', 0, 0, 0] t" "moves as (\<lambda>ps. ps) s t" for t
  proof (rule blocks_bind(4), rule wp_wrint [OF t(1) _ rw_addr(3) _ t(2)], simp, simp add: int_range_def, rule blocks_bind(2))
    fix u assume "fields_at as a ([0, n, 0, 0, 0, n', 0, 0, 0][8 := 0 + 1]) u" and m: "moves as (\<lambda>ps. ps) s u"
    then have u: "fields_at as a [0, n, 0, 0, 0, n', 0, 0, 1] u" by simp
    show "wp (rdint (a + 32)) (\<lambda>v. blocks (?rest v) ?Q) u" by (rule wp_rdint [OF u _ rw_addr(3)]) (use inner [OF u m] in simp_all)
  qed
  show ?thesis
    unfolding rwlock_acquire_readlock_def
  proof (rule blocks_bind(4), rule xem_wait_ok [OF f _ rw_addr(1) _ _ _ moves_refl])
    fix t assume "fields_at as a ([1, n, 0, 0, 0, n', 0, 0, 0][0 := [1, n, 0, 0, 0, n', 0, 0, 0] ! 0 - 1]) t" and m: "moves as (\<lambda>ps. ps) s t"
    then have t: "fields_at as a [0, n, 0, 0, 0, n', 0, 0, 0] t" by simp
    show "blocks (kbind (rdint (a + 32)) (\<lambda>r. kthen (wrint (a + 32) (r + 1)) (kbind (rdint (a + 32)) ?rest))) ?Q t"
      by (rule blocks_bind(2), rule wp_rdint [OF t _ rw_addr(3)]) (use count [OF t m] in simp_all)
  qed (simp_all add: int_range_def)
qed

section \<open>The lock as a state machine\<close>

lemma rw_code_ok:
  assumes st: "rw_state as a r w 0 0 s" and sp: "rw_spec op (r, w) = Some (r', w')" and r: "r + 1 < 2 ^ 31 - 1"
  shows "wp (rw_code op a) (\<lambda>ret t. ret = 0 \<and> rw_state as a r' w' 0 0 t \<and> moves as (\<lambda>ps. ps) s t) s"
proof -
  have sg: "signals 0 c = (\<lambda>ps. ps)" for c by (rule ext) (simp add: signals_def)
  have d: "dec 0 = 0" by (simp add: dec_def)
  have rw: "w \<Longrightarrow> r = 0" "0 \<le> r" using st by (auto simp: rw_state_def)
  show ?thesis
  proof (cases op)
    case ReadLock
    then show ?thesis using acquire_read_ok [of as a r 0 0 s] st sp r by (auto simp: sg d split: if_splits)
  next
    case ReadUnlock
    then show ?thesis using release_read_ok [of as a r 0 0 s] st sp by (auto simp: sg d split: if_splits)
  next
    case WriteLock
    then show ?thesis using acquire_write_ok [of as a 0 0 s] st sp rw by (auto simp: sg d split: if_splits)
  next
    case WriteUnlock
    then show ?thesis using release_write_ok [of as a 0 0 s] st sp rw by (auto simp: sg d split: if_splits)
  qed
qed

lemma rw_run_ok:
  assumes "rw_state as a r w 0 0 s" "rw_run ops (r, w) = Some (r', w')" "r + int (length ops) < 2 ^ 31 - 1"
  shows "wp (kiter (\<lambda>op. kthen (rw_code op a) (kreturn ())) ops) (\<lambda>_ t. rw_state as a r' w' 0 0 t \<and> moves as (\<lambda>ps. ps) s t) s"
  using assms
proof (induction ops arbitrary: r w s)
  case Nil
  then show ?case by (simp add: wps moves_refl)
next
  case (Cons op ops)
  obtain q v where q: "rw_spec op (r, w) = Some (q, v)" "rw_run ops (q, v) = Some (r', w')" using Cons.prems(2) by (auto split: option.splits)
  have le: "q \<le> r + 1" using q(1) by (cases op) (auto split: if_splits)
  have "wp (rw_code op a) (\<lambda>ret t. ret = 0 \<and> rw_state as a q v 0 0 t \<and> moves as (\<lambda>ps. ps) s t) s"
    by (rule rw_code_ok [OF Cons.prems(1) q(1)]) (use Cons.prems(3) in simp)
  then show ?case
    unfolding kiter.simps wp_kthen
  proof (rule wp_mono, elim conjE)
    fix t assume t: "rw_state as a q v 0 0 t" "moves as (\<lambda>ps. ps) s t"
    have "wp (kiter (\<lambda>op. kthen (rw_code op a) (kreturn ())) ops) (\<lambda>_ u. rw_state as a r' w' 0 0 u \<and> moves as (\<lambda>ps. ps) t u) t"
      by (rule Cons.IH [OF t(1) q(2)]) (use Cons.prems(3) le in simp)
    then show "wp (kreturn ()) (\<lambda>_. wp (kiter (\<lambda>op. kthen (rw_code op a) (kreturn ())) ops) (\<lambda>_ t. rw_state as a r' w' 0 0 t \<and> moves as (\<lambda>ps. ps) s t)) t"
      unfolding wp_prims(1) by (rule wp_mono) (use moves_trans [OF t(2)] in blast)
  qed
qed

text \<open>C28: A read-write lock. After \<open>rwlock_init\<close> every sequence of operations that the specification allows, readers sharing the lock and a writer
  having it alone, runs without waiting, and the structure in user memory then stands for the state of the specification. Nothing but
  the 36 bytes of the structure changes.\<close>

theorem rwlock_refines:
  assumes "writable_at as a s" "length as = 36" "rw_run ops (0, False) = Some (r, w)" "int (length ops) < 2 ^ 31 - 1"
  shows "wp (kthen (rwlock_init a) (kiter (\<lambda>op. kthen (rw_code op a) (kreturn ())) ops)) (\<lambda>_ t. rw_state as a r w 0 0 t \<and> moves as (\<lambda>ps. ps) s t) s"
  unfolding wp_kthen
proof (rule wp_mono [OF rwlock_init_ok [OF assms(1,2)]], elim conjE)
  fix ret t assume t: "rw_state as a 0 False 0 0 t" "moves as (\<lambda>ps. ps) s t"
  have "wp (kiter (\<lambda>op. kthen (rw_code op a) (kreturn ())) ops) (\<lambda>_ u. rw_state as a r w 0 0 u \<and> moves as (\<lambda>ps. ps) t u) t"
    by (rule rw_run_ok [OF t(1) assms(3)]) (use assms(4) in simp)
  then show "wp (kiter (\<lambda>op. kthen (rw_code op a) (kreturn ())) ops) (\<lambda>_ t. rw_state as a r w 0 0 t \<and> moves as (\<lambda>ps. ps) s t) t"
    by (rule wp_mono) (use moves_trans [OF t(2)] in blast)
qed

lemma moves_pt: "moves as g s t \<Longrightarrow> procs (pt t) = g (procs (pt s))"
  by (auto simp: moves_def)

text \<open>C29: Exclusion and hand-over. While the lock is held, a writer that asks for it does not get it: the call gives up the processor with
  its process asleep on the condition variable of the lock, and so does a reader while a writer has it. When the writer, or the last reader,
  releases a lock that is waited for, the first process asleep there becomes runnable and one waiting process less is counted.\<close>

theorem rwlock_excludes:
  assumes "ctx p {} s" "rw_state as a r w n n' s" "a + 28 \<noteq> 0"
  shows "(w \<or> r > 0 \<longrightarrow> blocks (rwlock_acquire_writelock a) (waits_on p (a + 20) (procs (pt s))) s)
    \<and> (w \<longrightarrow> blocks (rwlock_acquire_readlock a) (waits_on p (a + 20) (procs (pt s))) s)
    \<and> (w \<and> n' > 0 \<longrightarrow> wp (rwlock_release_writelock a) (\<lambda>ret t. ret = 0 \<and> rw_state as a 0 False n (n' - 1) t \<and> procs (pt t) = signalled (a + 20) (procs (pt s))) s)
    \<and> (r = 1 \<and> n = 0 \<and> n' > 0 \<longrightarrow> wp (rwlock_release_readlock a) (\<lambda>ret t. ret = 0 \<and> rw_state as a 0 False 0 (n' - 1) t \<and> procs (pt t) = signalled (a + 20) (procs (pt s))) s)"
proof -
  have bm: "blocks m P s \<Longrightarrow> (\<And>t. P t \<Longrightarrow> Q t) \<Longrightarrow> blocks m Q s" for m :: "(int, 'a kstate_scheme) code" and P Q by (auto simp: blocks_def)
  have st: "r \<ge> 0" "w \<Longrightarrow> r = 0" "r = 1 \<Longrightarrow> \<not> w" using assms(2) by (auto simp: rw_state_def)
  have 1: "blocks (rwlock_acquire_writelock a) (waits_on p (a + 20) (procs (pt s))) s" if "w \<or> r > 0"
    by (rule bm [OF acquire_write_blocks [OF assms(1,2) that assms(3)]]) simp
  have 2: "blocks (rwlock_acquire_readlock a) (waits_on p (a + 20) (procs (pt s))) s" if "w"
    by (rule bm [OF acquire_read_blocks [OF assms(1) _ assms(3)]]) (use that assms(2) in auto)
  have 3: "wp (rwlock_release_writelock a) (\<lambda>ret t. ret = 0 \<and> rw_state as a 0 False n (n' - 1) t \<and> procs (pt t) = signalled (a + 20) (procs (pt s))) s"
    if "w" "n' > 0"
    by (rule wp_mono [OF release_write_ok [of as a n n' s]]) (use that st assms(2) in \<open>auto simp: dec_def signals_def dest: moves_pt\<close>)
  have 4: "wp (rwlock_release_readlock a) (\<lambda>ret t. ret = 0 \<and> rw_state as a 0 False 0 (n' - 1) t \<and> procs (pt t) = signalled (a + 20) (procs (pt s))) s"
    if "r = 1" "n = 0" "n' > 0"
    by (rule wp_mono [OF release_read_ok [of as a 1 0 n' s]]) (use that st assms(2) in \<open>auto simp: dec_def signals_def dest: moves_pt\<close>)
  show ?thesis using 1 2 3 4 by blast
qed

lemma rw_writable: "writable_at [0x300000..<0x300024] 0x80300000 (s :: 'a kstate_scheme)"
  unfolding writable_at_def
proof (intro conjI allI impI)
  fix i m assume "i < length [0x300000..<0x300024 :: nat]"
  then have i: "i < 36" by simp
  have u: "unat (0x80300000 + of_nat i :: uint) = 0x80300000 + i"
    using i by (simp add: unat_word_ariths unat_of_nat)
  then have "(0x80300000 :: uint) + of_nat i \<ge> KERNBASE" by (simp add: word_le_nat_alt)
  moreover have "kp (0x80300000 + of_nat i) = 0x300000 + i"
  proof -
    have "0x80300000 + of_nat i - (KERNBASE :: uint) = 0x300000 + of_nat i" by simp
    then show ?thesis using i by (simp add: kp_def V2P_def unat_word_ariths unat_of_nat)
  qed
  moreover have "[0x300000..<0x300024] ! i = 0x300000 + i" by (rule nth_upt) (use i in simp)
  ultimately show "kva True (upd_mem (\<lambda>_. m) s) (0x80300000 + of_nat i) = Some ([0x300000..<0x300024] ! i)" by (simp only: kva_kernel)
qed simp

theorem rwlock_refines_witness:
  "wp (kthen (rwlock_init 0x80300000) (kiter (\<lambda>op. kthen (rw_code op 0x80300000) (kreturn ())) [ReadLock, ReadLock, ReadUnlock, ReadUnlock, WriteLock]))
     (\<lambda>_ t. rw_state [0x300000..<0x300024] 0x80300000 0 True 0 0 t \<and> moves [0x300000..<0x300024] (\<lambda>ps. ps) machine t) machine"
  by (rule rwlock_refines [OF rw_writable]) simp_all

theorem rwlock_excludes_witness:
  "blocks (rwlock_acquire_writelock 0x80300000) (waits_on 0 0x80300014 (procs (pt rw_machine))) rw_machine
   \<and> blocks (rwlock_acquire_readlock 0x80300000) (waits_on 0 0x80300014 (procs (pt rw_machine))) rw_machine"
proof -
  have c: "ctx 0 {} rw_machine" by (simp add: rw_machine_def)
  let ?as = "[0x300000..<0x300024] :: nat list"
  have w: "uword ?as k rw_machine = (1 # replicate 8 0) ! k" if k: "k < 9" for k
  proof -
    have "slice (4 * k) 4 ?as = map (\<lambda>i. 0x300000 + (4 * k + i)) [0..<4]"
    proof (rule nth_equalityI)
      fix i assume "i < length (slice (4 * k) 4 ?as)"
      then have i: "i < 4" by (simp del: upt_rec_numeral)
      then show "slice (4 * k) 4 ?as ! i = map (\<lambda>i. 0x300000 + (4 * k + i)) [0..<4] ! i"
        using k by (simp add: nth_slice del: upt_rec_numeral)
    qed (use k in \<open>simp del: upt_rec_numeral\<close>)
    moreover have "mem (mm rw_machine) (0x300000 + (4 * k + i)) = (if k = 0 \<and> i = 0 then 1 else 0)" for i
      by (simp add: rw_machine_def machine_def)
    ultimately have "map (mem (mm rw_machine)) (slice (4 * k) 4 ?as) = map (\<lambda>i. if k = 0 \<and> i = 0 then 1 else 0) [0..<4]" by (simp del: upt_rec_numeral)
    moreover have "[0..<4] = [0, 1, 2, 3::nat]" by (simp add: upt_rec)
    ultimately show ?thesis
      using k unfolding uword_def by (simp only:) (cases k, simp_all add: geti32_def get32_def slice_def i32_def)
  qed
  have l: "[1, 0, 0, 0, 0, 0, 0, 0, 0] = 1 # replicate 8 (0 :: int)" by (simp add: numeral_eq_Suc)
  have "fields_at ?as 0x80300000 (1 # replicate 8 0) rw_machine"
    unfolding fields_at_def using rw_writable w by (simp del: upt_rec_numeral)
  then have "rw_state ?as 0x80300000 0 True 0 0 rw_machine" unfolding rw_state_def by (simp del: upt_rec_numeral add: l)
  from rwlock_excludes [OF c this] show ?thesis by simp
qed

end
