(* ===== verification/Shell.thy ===== *)
theory Shell
  imports Prelude Bytes
begin

text \<open>
  The shell (\<open>sh.c\<close>) with \<open>gets\<close> of \<open>ulib.c\<close>: the parser, the commands it builds, and what running them asks of the kernel.

  The line is a list of bytes without its terminating zero; a \<open>char *\<close> into it is a position. A command tree holds its words as pairs of positions, the
  beginning and the end, as the structures of the C code do. \<open>malloc\<close> is taken to succeed. \<open>panic\<close> prints and exits, which is an error value that
  carries what is printed. The mutually recursive parsing routines take fuel.
\<close>

section \<open>Commands\<close>

datatype 'w cmd =
    EXEC "'w list"
  | REDIR "'w cmd" 'w int int
  | PIPE "'w cmd" "'w cmd"
  | LIST "'w cmd" "'w cmd"
  | BACK "'w cmd"

datatype shfail = Panicked "uchar list" | OutOfFuel

definition chars :: "string \<Rightarrow> uchar list" where
  "chars = map of_char"

definition panic :: "string \<Rightarrow> shfail" where
  "panic s = Panicked (chars s @ [10])"

section \<open>Tokens\<close>

definition whitespace :: "uchar list" where
  "whitespace = [32, 9, 13, 10, 11]"

definition symbols :: "uchar list" where
  "symbols = [60, 124, 62, 38, 59, 40, 41]"

definition char_at :: "uchar list \<Rightarrow> nat \<Rightarrow> uchar" where
  "char_at b s = (if s < length b then b ! s else 0)"

text \<open>The loops \<open>while(s < es && strchr(whitespace, *s)) s++\<close> and its counterpart for words.\<close>

function skip_ws :: "uchar list \<Rightarrow> nat \<Rightarrow> nat" where
  "skip_ws b s = (if s < length b \<and> b ! s \<in> set whitespace then skip_ws b (s + 1) else s)"
  by auto

termination
  by (relation "measure (\<lambda>(b, s). length b - s)") auto

function skip_word :: "uchar list \<Rightarrow> nat \<Rightarrow> nat" where
  "skip_word b s = (if s < length b \<and> b ! s \<notin> set whitespace \<and> b ! s \<notin> set symbols then skip_word b (s + 1) else s)"
  by auto

termination
  by (relation "measure (\<lambda>(b, s). length b - s)") auto

declare skip_ws.simps [simp del] skip_word.simps [simp del]

text \<open>The kind of the next token, its beginning and end, and the position behind it and the white space that follows.\<close>

definition gettoken :: "uchar list \<Rightarrow> nat \<Rightarrow> uchar \<times> nat \<times> nat \<times> nat" where
  "gettoken b s =
     (let q = skip_ws b s; c = char_at b q;
          (ret, eq) =
            (if c = 0 then (0, q)
             else if c \<in> {124, 40, 41, 59, 38, 60} then (c, q + 1)
             else if c = 62 then (if char_at b (q + 1) = 62 then (43, q + 2) else (62, q + 1))
             else (97, skip_word b q))
      in (ret, q, eq, skip_ws b eq))"

definition peek :: "uchar list \<Rightarrow> nat \<Rightarrow> uchar list \<Rightarrow> nat \<times> bool" where
  "peek b s toks = (let s = skip_ws b s in (s, char_at b s \<noteq> 0 \<and> char_at b s \<in> set toks))"

section \<open>The parser\<close>

abbreviation MAXARGS :: nat where "MAXARGS \<equiv> 10"

text \<open>\<open>O_RDONLY\<close>, and \<open>O_WRONLY|O_CREATE\<close>.\<close>

abbreviation for_input :: int where "for_input \<equiv> 0"

abbreviation for_output :: int where "for_output \<equiv> 0x201"

function parseredirs :: "(nat \<times> nat) cmd \<Rightarrow> uchar list \<Rightarrow> nat \<Rightarrow> shfail + (nat \<times> nat) cmd \<times> nat" where
  "parseredirs cmd b s =
     (case peek b s [60, 62] of
        (s1, more) \<Rightarrow>
          if \<not> more then Inr (cmd, s1)
          else
            (case gettoken b s1 of
               (tok, _, _, s2) \<Rightarrow>
                 (case gettoken b s2 of
                    (t, q, eq, s3) \<Rightarrow>
                      if t \<noteq> 97 then Inl (panic ''missing file for redirection'')
                      else
                        parseredirs
                          (if tok = 60 then REDIR cmd (q, eq) for_input 0
                           else if tok = 62 then REDIR cmd (q, eq) for_output 1
                           else if tok = 43 then REDIR cmd (q, eq) for_output 1
                           else cmd) b s3)))"
  by pat_completeness auto

termination
proof (relation "measure (\<lambda>(cmd, b, s). length b - s)")
  fix cmd :: "(nat \<times> nat) cmd" and b :: "uchar list" and s x y xa ya xb yb xc yc xd yd xe ye xf yf
  assume a: "(x, y) = peek b s [60, 62]" "\<not> \<not> y" "(xa, ya) = gettoken b x" "(xb, yb) = ya" "(xc, yc) = yb" "(xd, yd) = gettoken b yc" "(xe, ye) = yd" "(xf, yf) = ye"
  have ws: "s \<le> skip_ws b s" for b s by (induction b s rule: skip_ws.induct) (subst skip_ws.simps, force)
  have wd: "s \<le> skip_word b s" for b s by (induction b s rule: skip_word.induct) (subst skip_word.simps, force)
  have x: "s \<le> x" "x < length b" "b ! x = 60 \<or> b ! x = 62" using a(1,2) ws [of s b] by (auto simp: peek_def Let_def char_at_def split: if_splits)
  have "skip_ws b x = x" using x by (subst skip_ws.simps) (auto simp: whitespace_def)
  then have "x + 1 \<le> yc" using a(3-5) x(2,3) ws [of "x + 1" b] ws [of "x + 2" b] by (auto simp: gettoken_def Let_def char_at_def split: if_splits)
  moreover have "yc \<le> skip_ws b yc" by (rule ws)
  then have "yc \<le> yf" using a(6-8) ws [of "skip_ws b yc" b] ws [of "skip_ws b yc + 1" b] ws [of "skip_ws b yc + 2" b] ws [of "skip_word b (skip_ws b yc)" b] wd [of "skip_ws b yc" b]
    by (auto simp: gettoken_def Let_def split: if_splits)
  ultimately have "s < yf" "s < length b" using x by simp_all
  then show "((if xa = 60 then REDIR cmd (xe, xf) for_input 0 else if xa = 62 then REDIR cmd (xe, xf) for_output 1 else if xa = 43 then REDIR cmd (xe, xf) for_output 1 else cmd, b, yf), cmd, b, s)
    \<in> measure (\<lambda>(cmd, b, s). length b - s)" by (simp add: diff_less_mono2)
qed simp

declare parseredirs.simps [simp del]

text \<open>\<open>cmd\<close> of \<open>parseexec\<close> points to the \<open>execcmd\<close> inside of the redirections that \<open>ret\<close> has gathered.\<close>

primrec add_arg :: "'w \<Rightarrow> 'w cmd \<Rightarrow> 'w cmd" where
  "add_arg a (EXEC ws) = EXEC (ws @ [a])"
| "add_arg a (REDIR c f mode fd) = REDIR (add_arg a c) f mode fd"
| "add_arg a (PIPE l r) = PIPE l r"
| "add_arg a (LIST l r) = LIST l r"
| "add_arg a (BACK c) = BACK c"

function exec_args :: "(nat \<times> nat) cmd \<Rightarrow> nat \<Rightarrow> uchar list \<Rightarrow> nat \<Rightarrow> shfail + (nat \<times> nat) cmd \<times> nat" where
  "exec_args ret argc b s =
     (case peek b s [124, 41, 38, 59] of
        (s1, stop) \<Rightarrow>
          if stop then Inr (ret, s1)
          else
            (case gettoken b s1 of
               (tok, q, eq, s2) \<Rightarrow>
                 if tok = 0 then Inr (ret, s2)
                 else if tok \<noteq> 97 then Inl (panic ''syntax'')
                 else if argc + 1 \<ge> MAXARGS then Inl (panic ''too many args'')
                 else
                   (case parseredirs (add_arg (q, eq) ret) b s2 of
                      Inl e \<Rightarrow> Inl e
                    | Inr (ret', s3) \<Rightarrow> exec_args ret' (argc + 1) b s3)))"
  by pat_completeness auto

termination
  by (relation "measure (\<lambda>(ret, argc, b, s). MAXARGS - argc)") auto

declare exec_args.simps [simp del]

function back_loop :: "(nat \<times> nat) cmd \<Rightarrow> uchar list \<Rightarrow> nat \<Rightarrow> (nat \<times> nat) cmd \<times> nat" where
  "back_loop cmd b s =
     (case peek b s [38] of
        (s1, more) \<Rightarrow>
          if more then (case gettoken b s1 of (_, _, _, s2) \<Rightarrow> back_loop (BACK cmd) b s2)
          else (cmd, s1))"
  by pat_completeness auto

termination
proof (relation "measure (\<lambda>(cmd, b, s). length b - s)")
  fix cmd :: "(nat \<times> nat) cmd" and b :: "uchar list" and s x y xa ya xb yb xc yc
  assume a: "(x, y) = peek b s [38]" "y" "(xa, ya) = gettoken b x" "(xb, yb) = ya" "(xc, yc) = yb"
  have ws: "s \<le> skip_ws b s" for b s by (induction b s rule: skip_ws.induct) (subst skip_ws.simps, force)
  have x: "s \<le> x" "x < length b" "b ! x = 38" using a(1,2) ws [of s b] by (auto simp: peek_def Let_def char_at_def split: if_splits)
  have "skip_ws b x = x" using x by (subst skip_ws.simps) (auto simp: whitespace_def)
  then have "x + 1 \<le> yc" using a(3-5) x(2,3) ws [of "x + 1" b] by (auto simp: gettoken_def Let_def char_at_def split: if_splits)
  then show "((BACK cmd, b, yc), cmd, b, s) \<in> measure (\<lambda>(cmd, b, s). length b - s)" using x by (simp add: diff_less_mono2)
qed simp

declare back_loop.simps [simp del]

text \<open>The position behind the next token.\<close>

abbreviation after_token :: "uchar list \<Rightarrow> nat \<Rightarrow> nat" where
  "after_token b s \<equiv> snd (snd (snd (gettoken b s)))"

fun parseline :: "nat \<Rightarrow> uchar list \<Rightarrow> nat \<Rightarrow> shfail + (nat \<times> nat) cmd \<times> nat"
  and parsepipe :: "nat \<Rightarrow> uchar list \<Rightarrow> nat \<Rightarrow> shfail + (nat \<times> nat) cmd \<times> nat"
  and parseexec :: "nat \<Rightarrow> uchar list \<Rightarrow> nat \<Rightarrow> shfail + (nat \<times> nat) cmd \<times> nat"
  and parseblock :: "nat \<Rightarrow> uchar list \<Rightarrow> nat \<Rightarrow> shfail + (nat \<times> nat) cmd \<times> nat" where
  "parseline 0 b s = Inl OutOfFuel"
| "parseline (Suc n) b s =
     (case parsepipe n b s of
        Inl e \<Rightarrow> Inl e
      | Inr (cmd, s1) \<Rightarrow>
        (case back_loop cmd b s1 of
           (cmd, s2) \<Rightarrow>
             (case peek b s2 [59] of
                (s3, more) \<Rightarrow>
                  if more then
                    (case parseline n b (after_token b s3) of
                       Inl e \<Rightarrow> Inl e
                     | Inr (right, s4) \<Rightarrow> Inr (LIST cmd right, s4))
                  else Inr (cmd, s3))))"
| "parsepipe 0 b s = Inl OutOfFuel"
| "parsepipe (Suc n) b s =
     (case parseexec n b s of
        Inl e \<Rightarrow> Inl e
      | Inr (cmd, s1) \<Rightarrow>
        (case peek b s1 [124] of
           (s2, more) \<Rightarrow>
             if more then
               (case parsepipe n b (after_token b s2) of
                  Inl e \<Rightarrow> Inl e
                | Inr (right, s3) \<Rightarrow> Inr (PIPE cmd right, s3))
             else Inr (cmd, s2)))"
| "parseexec 0 b s = Inl OutOfFuel"
| "parseexec (Suc n) b s =
     (case peek b s [40] of
        (s1, block) \<Rightarrow>
          if block then parseblock n b s1
          else
            (case parseredirs (EXEC []) b s1 of
               Inl e \<Rightarrow> Inl e
             | Inr (ret, s2) \<Rightarrow> exec_args ret 0 b s2))"
| "parseblock 0 b s = Inl OutOfFuel"
| "parseblock (Suc n) b s =
     (case peek b s [40] of
        (s1, open1) \<Rightarrow>
          if \<not> open1 then Inl (panic ''parseblock'')
          else
            (case parseline n b (after_token b s1) of
               Inl e \<Rightarrow> Inl e
             | Inr (cmd, s2) \<Rightarrow>
               (case peek b s2 [41] of
                  (s3, close1) \<Rightarrow>
                    if \<not> close1 then Inl (panic ''syntax - missing )'')
                    else parseredirs cmd b (after_token b s3))))"

declare parseline.simps [simp del] parsepipe.simps [simp del] parseexec.simps [simp del] parseblock.simps [simp del]

text \<open>The buffer, with its terminating zero, after a zero has been put behind every word.\<close>

primrec nulterminate :: "(nat \<times> nat) cmd \<Rightarrow> uchar list \<Rightarrow> uchar list" where
  "nulterminate (EXEC ws) m = fold (\<lambda>(q, eq) m. m[eq := 0]) ws m"
| "nulterminate (REDIR c f mode fd) m = (nulterminate c m)[snd f := 0]"
| "nulterminate (PIPE l r) m = nulterminate r (nulterminate l m)"
| "nulterminate (LIST l r) m = nulterminate r (nulterminate l m)"
| "nulterminate (BACK c) m = nulterminate c m"

definition parsecmd :: "uchar list \<Rightarrow> shfail + (nat \<times> nat) cmd \<times> uchar list" where
  "parsecmd b =
     (case parseline (4 * length b + 4) b 0 of
        Inl e \<Rightarrow> Inl e
      | Inr (cmd, s) \<Rightarrow>
        (case peek b s [] of
           (s, _) \<Rightarrow>
             if s \<noteq> length b then Inl (Panicked (chars ''leftovers: '' @ drop s b @ [10] @ chars ''syntax'' @ [10]))
             else Inr (cmd, nulterminate cmd (b @ [0]))))"

section \<open>Running commands\<close>

text \<open>What a process asks of the kernel, and how it goes on with the answer: the returned value and, for \<open>pipe\<close>, the two descriptors. \<open>Halt\<close> is
  \<open>exit()\<close>. A successful \<open>exec\<close> has no answer. \<open>Print\<close> stands for the writes of \<open>printf\<close> to a descriptor.\<close>

datatype sysreq =
    Close int
  | Open "uchar list" int
  | Exec "uchar list list"
  | Fork
  | Wait
  | MkPipe
  | Dup int
  | Chdir "uchar list"
  | Print int "uchar list"

datatype run = Halt | Ask sysreq "int \<times> int \<times> int \<Rightarrow> run"

definition fail :: "shfail \<Rightarrow> run" where
  "fail e = (case e of Panicked out \<Rightarrow> Ask (Print 2 out) (\<lambda>_. Halt) | OutOfFuel \<Rightarrow> Halt)"

definition fork1 :: "(int \<Rightarrow> run) \<Rightarrow> run" where
  "fork1 k = Ask Fork (\<lambda>(pid, _). if pid = -1 then fail (panic ''fork'') else k pid)"

text \<open>The zero-terminated string at a position of the buffer.\<close>

definition cstring :: "uchar list \<Rightarrow> nat \<Rightarrow> uchar list" where
  "cstring m q = takeWhile (\<lambda>c. c \<noteq> 0) (drop q m)"

text \<open>\<open>runcmd\<close> never returns, so that a child does not come back behind the call.\<close>

primrec runcmd :: "uchar list \<Rightarrow> (nat \<times> nat) cmd \<Rightarrow> run" where
  "runcmd m (EXEC ws) =
     (if ws = [] then Halt
      else Ask (Exec (map (\<lambda>(q, _). cstring m q) ws)) (\<lambda>_.
           Ask (Print 2 (chars ''exec '' @ cstring m (fst (hd ws)) @ chars '' failed'' @ [10])) (\<lambda>_. Halt)))"
| "runcmd m (REDIR c f mode fd) =
     Ask (Close fd) (\<lambda>_.
     Ask (Open (cstring m (fst f)) mode) (\<lambda>(r, _).
     if r < 0 then Ask (Print 2 (chars ''open '' @ cstring m (fst f) @ chars '' failed'' @ [10])) (\<lambda>_. Halt)
     else runcmd m c))"
| "runcmd m (PIPE left right) =
     Ask MkPipe (\<lambda>(r, p0, p1).
     if r < 0 then fail (panic ''pipe'')
     else
       fork1 (\<lambda>pid.
       if pid = 0 then
         Ask (Close 1) (\<lambda>_. Ask (Dup p1) (\<lambda>_. Ask (Close p0) (\<lambda>_. Ask (Close p1) (\<lambda>_. runcmd m left))))
       else
         fork1 (\<lambda>pid.
         if pid = 0 then
           Ask (Close 0) (\<lambda>_. Ask (Dup p0) (\<lambda>_. Ask (Close p0) (\<lambda>_. Ask (Close p1) (\<lambda>_. runcmd m right))))
         else
           Ask (Close p0) (\<lambda>_. Ask (Close p1) (\<lambda>_. Ask Wait (\<lambda>_. Ask Wait (\<lambda>_. Halt)))))))"
| "runcmd m (LIST left right) = fork1 (\<lambda>pid. if pid = 0 then runcmd m left else Ask Wait (\<lambda>_. runcmd m right))"
| "runcmd m (BACK c) = fork1 (\<lambda>pid. if pid = 0 then runcmd m c else Halt)"

section \<open>The main loop\<close>

text \<open>\<open>gets\<close>: the bytes that \<open>read(0, &c, 1)\<close> delivers up to and including the end of the line, at most \<open>k\<close>, and the input that is left. The end of the
  input is where \<open>read\<close> returns 0.\<close>

primrec gets :: "nat \<Rightarrow> uchar list \<Rightarrow> uchar list \<times> uchar list" where
  "gets 0 inp = ([], inp)"
| "gets (Suc k) inp =
     (case inp of
        [] \<Rightarrow> ([], [])
      | c # rest \<Rightarrow>
        if c = 10 \<or> c = 13 then ([c], rest)
        else (case gets k rest of (l, rest') \<Rightarrow> (c # l, rest')))"

text \<open>\<open>getcmd\<close> with a buffer of \<open>nbuf\<close> bytes; \<open>None\<close> at the end of the input.\<close>

definition getcmd :: "nat \<Rightarrow> uchar list \<Rightarrow> uchar list option \<times> uchar list" where
  "getcmd nbuf inp =
     (case gets (nbuf - 1) inp of (l, rest) \<Rightarrow> (let s = takeWhile (\<lambda>c. c \<noteq> 0) l in (if s = [] then None else Some s, rest)))"

function main_loop :: "uchar list \<Rightarrow> run" where
  "main_loop inp =
     Ask (Print 2 (chars ''$ '')) (\<lambda>_.
     case getcmd 100 inp of
       (None, _) \<Rightarrow> Halt
     | (Some buf, rest) \<Rightarrow>
       if take 3 buf = chars ''cd '' then
         Ask (Chdir (drop 3 (butlast buf))) (\<lambda>(r, _).
         if r < 0 then Ask (Print 2 (chars ''cannot cd '' @ drop 3 (butlast buf) @ [10])) (\<lambda>_. main_loop rest)
         else main_loop rest)
       else
         fork1 (\<lambda>pid.
         if pid = 0 then (case parsecmd buf of Inl e \<Rightarrow> fail e | Inr (cmd, m) \<Rightarrow> runcmd m cmd)
         else Ask Wait (\<lambda>_. main_loop rest)))"
  by auto

termination
proof -
  have g: "length (snd (gets k inp)) + length (fst (gets k inp)) = length inp" for k inp
  proof (induction k arbitrary: inp)
    case (Suc k)
    show ?case using Suc.IH by (cases inp) (auto split: prod.splits, metis add_Suc_right fst_conv snd_conv)
  qed simp
  have dec: "length rest < length inp" if a: "(x, rest) = getcmd 100 inp" "x = Some buf" for inp buf rest x
  proof -
    obtain l where l: "gets 99 inp = (l, rest)" "takeWhile (\<lambda>c. c \<noteq> 0) l \<noteq> []"
      using a by (cases "gets 99 inp") (auto simp: getcmd_def Let_def split: if_splits)
    then have "l \<noteq> []" by auto
    then show ?thesis using g [of 99 inp] l(1) by (cases l) auto
  qed
  show ?thesis by (relation "measure length") (auto intro: dec)
qed

text \<open>The loop that makes sure that the descriptors 0, 1 and 2 are open. A process has at most 16 open files, so that \<open>open\<close> cannot succeed more than 16
  times, and 17 rounds are enough.\<close>

primrec open_console :: "nat \<Rightarrow> run \<Rightarrow> run" where
  "open_console 0 k = k"
| "open_console (Suc n) k =
     Ask (Open (chars ''console'') 2) (\<lambda>(fd, _).
     if fd < 0 then k
     else if fd \<ge> 3 then Ask (Close fd) (\<lambda>_. k)
     else open_console n k)"

definition sh_main :: "uchar list \<Rightarrow> run" where
  "sh_main inp = open_console 17 (main_loop inp)"

end
