(* ===== verification/ShellProps.thy ===== *)
theory ShellProps
  imports Shell
begin

text \<open>
  Properties of the shell: every line is parsed or refused, the words of a command survive as strings, commands can be written down so that they are
  read back, and running a command gives every program the descriptors its place in the command calls for.
\<close>

section \<open>Tokens\<close>

definition plain :: "uchar \<Rightarrow> bool" where
  "plain c \<longleftrightarrow> c \<notin> set whitespace \<and> c \<notin> set symbols"

text \<open>The positions \<open>q\<close> and \<open>eq\<close> delimit a word of the line.\<close>

definition word_at :: "uchar list \<Rightarrow> nat \<times> nat \<Rightarrow> bool" where
  "word_at b w \<longleftrightarrow> fst w < snd w \<and> snd w \<le> length b \<and> (\<forall>i. fst w \<le> i \<and> i < snd w \<longrightarrow> plain (b ! i)) \<and> (snd w < length b \<longrightarrow> \<not> plain (b ! snd w))"

text \<open>No program has more than nine arguments.\<close>

primrec short :: "'w cmd \<Rightarrow> bool" where
  "short (EXEC ws) = (length ws < MAXARGS)"
| "short (REDIR c f mode fd) = short c"
| "short (PIPE l r) = (short l \<and> short r)"
| "short (LIST l r) = (short l \<and> short r)"
| "short (BACK c) = short c"

text \<open>What \<open>gettoken\<close> finds at a position that is not white space.\<close>

definition token :: "uchar list \<Rightarrow> nat \<Rightarrow> uchar \<times> nat" where
  "token b q =
     (let c = char_at b q in
      if c = 0 then (0, q) else if c \<in> {124, 40, 41, 59, 38, 60} then (c, q + 1)
      else if c = 62 then (if char_at b (q + 1) = 62 then (43, q + 2) else (62, q + 1)) else (97, skip_word b q))"

text \<open>A parsing routine started at \<open>s\<close>: it has an answer, and a tree is made of words of the line.\<close>

definition good :: "uchar list \<Rightarrow> nat \<Rightarrow> shfail + (nat \<times> nat) cmd \<times> nat \<Rightarrow> bool" where
  "good b s r \<longleftrightarrow> (case r of Inl e \<Rightarrow> e \<noteq> OutOfFuel | Inr (c, s') \<Rightarrow> s \<le> s' \<and> s' \<le> length b \<and> (\<forall>w \<in> set_cmd c. word_at b w) \<and> short c)"

primrec argcount :: "'w cmd \<Rightarrow> nat" where
  "argcount (EXEC ws) = length ws"
| "argcount (REDIR c f mode fd) = argcount c"
| "argcount (PIPE l r) = 0"
| "argcount (LIST l r) = 0"
| "argcount (BACK c) = 0"

definition word_ok :: "uchar list \<Rightarrow> bool" where
  "word_ok w \<longleftrightarrow> w \<noteq> [] \<and> (\<forall>c \<in> set w. plain c \<and> c \<noteq> 0)"

primrec printable :: "uchar list cmd \<Rightarrow> bool" where
  "printable (EXEC ws) = (length ws < MAXARGS \<and> (\<forall>w \<in> set ws. word_ok w))"
| "printable (REDIR c f mode fd) = (printable c \<and> word_ok f \<and> ((mode, fd) = (for_input, 0) \<or> (mode, fd) = (for_output, 1)))"
| "printable (PIPE l r) = (printable l \<and> printable r)"
| "printable (LIST l r) = (printable l \<and> printable r)"
| "printable (BACK c) = printable c"

primrec print_cmd :: "uchar list cmd \<Rightarrow> uchar list" where
  "print_cmd (EXEC ws) = concat (map (\<lambda>w. w @ [32]) ws)"
| "print_cmd (REDIR c f mode fd) = 40 # print_cmd c @ [41, if fd = 0 then 60 else 62] @ f @ [32]"
| "print_cmd (PIPE l r) = 40 # print_cmd l @ [41, 124, 40] @ print_cmd r @ [41]"
| "print_cmd (LIST l r) = 40 # print_cmd l @ [41, 59, 40] @ print_cmd r @ [41]"
| "print_cmd (BACK c) = 40 # print_cmd c @ [41, 38]"

text \<open>The text of a word.\<close>

definition txt_of :: "uchar list \<Rightarrow> nat \<times> nat \<Rightarrow> uchar list" where
  "txt_of b w = slice (fst w) (snd w - fst w) b"

text \<open>From \<open>s\<close> on the line reads \<open>r\<close>.\<close>

definition here :: "uchar list \<Rightarrow> nat \<Rightarrow> uchar list \<Rightarrow> bool" where
  "here b s r \<longleftrightarrow> s \<le> length b \<and> drop s b = r"

text \<open>The rest of the line behind white space; it begins with something else, or is empty, where it is \<open>clean\<close>.\<close>

definition norm :: "uchar list \<Rightarrow> uchar list" where
  "norm r = dropWhile (\<lambda>c. c \<in> set whitespace) r"

abbreviation clean :: "uchar list \<Rightarrow> bool" where
  "clean r \<equiv> norm r = r"

text \<open>The line ends here, or a closing parenthesis follows.\<close>

definition stops :: "uchar list \<Rightarrow> bool" where
  "stops r \<longleftrightarrow> norm r = [] \<or> hd (norm r) = 41"

text \<open>What has to be shown of a command: \<open>parseline\<close> reads it up to a closing parenthesis or the end of the line.\<close>

definition reads :: "uchar list \<Rightarrow> uchar list cmd \<Rightarrow> bool" where
  "reads b a \<longleftrightarrow> (\<forall>n s t. here b s (norm (print_cmd a @ t)) \<longrightarrow> stops t \<longrightarrow> 4 * (length b - s) + 4 \<le> n \<longrightarrow>
     (\<exists>c s'. parseline n b s = Inr (c, s') \<and> here b s' (norm t) \<and> map_cmd (txt_of b) c = a))"

text \<open>What the descriptors of a process refer to, for a process whose calls succeed: a file opened by name, one of the two ends of a pipe, or what
  the shell was given. As in the kernel, a new descriptor is the lowest that is free.\<close>

datatype handle = Given nat | File "uchar list" int | ReadEnd nat | WriteEnd nat

type_synonym fdtable = "handle option list"

definition lowest :: "fdtable \<Rightarrow> nat option" where
  "lowest fds = first_idx (\<lambda>h. h = None) fds"

definition install :: "handle \<Rightarrow> fdtable \<Rightarrow> int \<times> fdtable" where
  "install h fds = (case lowest fds of None \<Rightarrow> (-1, fds) | Some i \<Rightarrow> (int i, fds[i := Some h]))"

text \<open>All processes that come out of a run, the child first: the programs they execute, with the descriptors they are given. \<open>k\<close> counts the pipes made.\<close>

primrec programs :: "run \<Rightarrow> fdtable \<Rightarrow> nat \<Rightarrow> (uchar list list \<times> fdtable) list \<times> nat" where
  "programs Halt fds k = ([], k)"
| "programs (Ask q next1) fds k =
     (case q of
        Close fd \<Rightarrow> programs (next1 (0, 0, 0)) (fds[nat fd := None]) k
      | Open name mode \<Rightarrow> (case install (File name mode) fds of (r, fds') \<Rightarrow> programs (next1 (r, 0, 0)) fds' k)
      | Exec argv \<Rightarrow> ([(argv, fds)], k)
      | Fork \<Rightarrow>
          (case programs (next1 (0, 0, 0)) fds k of
             (xs, k') \<Rightarrow> (case programs (next1 (1, 0, 0)) fds k' of (ys, k'') \<Rightarrow> (xs @ ys, k'')))
      | Wait \<Rightarrow> programs (next1 (1, 0, 0)) fds k
      | MkPipe \<Rightarrow>
          (case install (ReadEnd k) fds of
             (p0, fds') \<Rightarrow> (case install (WriteEnd k) fds' of (p1, fds'') \<Rightarrow> programs (next1 (if p1 < 0 then -1 else 0, p0, p1)) fds'' (k + 1)))
      | Dup fd \<Rightarrow> (case install (the (fds ! nat fd)) fds of (r, fds') \<Rightarrow> programs (next1 (r, 0, 0)) fds' k)
      | Chdir path \<Rightarrow> programs (next1 (0, 0, 0)) fds k
      | Print fd out \<Rightarrow> programs (next1 (0, 0, 0)) fds k)"

text \<open>The meaning of a command: its programs with their descriptors 0, 1 and 2.\<close>

primrec meaning :: "uchar list cmd \<Rightarrow> fdtable \<Rightarrow> nat \<Rightarrow> (uchar list list \<times> fdtable) list \<times> nat" where
  "meaning (EXEC ws) fds k = (if ws = [] then [] else [(ws, fds)], k)"
| "meaning (REDIR c f mode fd) fds k = meaning c (fds[nat fd := Some (File f mode)]) k"
| "meaning (PIPE l r) fds k =
     (case meaning l (fds[1 := Some (WriteEnd k)]) (k + 1) of
        (xs, k') \<Rightarrow> (case meaning r (fds[0 := Some (ReadEnd k)]) k' of (ys, k'') \<Rightarrow> (xs @ ys, k'')))"
| "meaning (LIST l r) fds k = (case meaning l fds k of (xs, k') \<Rightarrow> (case meaning r fds k' of (ys, k'') \<Rightarrow> (xs @ ys, k'')))"
| "meaning (BACK c) fds k = meaning c fds k"

text \<open>The descriptors 0, 1 and 2 are open and no others.\<close>

definition std_fds :: "handle \<Rightarrow> handle \<Rightarrow> handle \<Rightarrow> fdtable" where
  "std_fds h0 h1 h2 = [Some h0, Some h1, Some h2] @ replicate 13 None"

primrec redirs_ok :: "'w cmd \<Rightarrow> bool" where
  "redirs_ok (EXEC ws) = True"
| "redirs_ok (REDIR c f mode fd) = (redirs_ok c \<and> (fd = 0 \<or> fd = 1))"
| "redirs_ok (PIPE l r) = (redirs_ok l \<and> redirs_ok r)"
| "redirs_ok (LIST l r) = (redirs_ok l \<and> redirs_ok r)"
| "redirs_ok (BACK c) = redirs_ok c"

text \<open>A line the main loop takes as a command: it fits into the buffer and is not a \<open>cd\<close>.\<close>

definition command_line :: "uchar list cmd \<Rightarrow> bool" where
  "command_line a \<longleftrightarrow> printable a \<and> length (print_cmd a) < 99 \<and> take 3 (print_cmd a @ [10]) \<noteq> chars ''cd ''"

primrec session :: "uchar list cmd list \<Rightarrow> fdtable \<Rightarrow> nat \<Rightarrow> (uchar list list \<times> fdtable) list \<times> nat" where
  "session [] fds k = ([], k)"
| "session (a # as) fds k = (case meaning a fds k of (xs, k') \<Rightarrow> (case session as fds k' of (ys, k'') \<Rightarrow> (xs @ ys, k'')))"

lemma skip_ws_step: "s < length b \<Longrightarrow> b ! s \<in> set whitespace \<Longrightarrow> skip_ws b s = skip_ws b (s + 1)"
  by (subst skip_ws.simps) simp

lemma skip_ws_same: "s < length b \<Longrightarrow> b ! s \<notin> set whitespace \<Longrightarrow> skip_ws b s = s" "\<not> s < length b \<Longrightarrow> skip_ws b s = s"
  by (subst skip_ws.simps, simp)+

lemma skip_ws_ok:
  "s \<le> skip_ws b s \<and> (s \<le> length b \<longrightarrow> skip_ws b s \<le> length b) \<and> (skip_ws b s < length b \<longrightarrow> b ! skip_ws b s \<notin> set whitespace)"
proof (induction b s rule: skip_ws.induct)
  case (1 b s)
  show ?case
  proof (cases "s < length b \<and> b ! s \<in> set whitespace")
    case True
    then show ?thesis using 1 unfolding skip_ws_step [OF True [THEN conjunct1] True [THEN conjunct2]] by auto
  next
    case False
    then have "skip_ws b s = s" by (cases "s < length b") (simp_all add: skip_ws_same)
    then show ?thesis using False by auto
  qed
qed

lemmas skip_ws_le = skip_ws_ok [THEN conjunct1]

lemmas skip_ws_in = skip_ws_ok [THEN conjunct2, THEN conjunct1, rule_format]

lemmas skip_ws_end = skip_ws_ok [THEN conjunct2, THEN conjunct2, rule_format]

lemma skip_word_step: "s < length b \<Longrightarrow> plain (b ! s) \<Longrightarrow> skip_word b s = skip_word b (s + 1)"
  by (subst skip_word.simps) (simp add: plain_def)

lemma skip_word_same: "s < length b \<Longrightarrow> \<not> plain (b ! s) \<Longrightarrow> skip_word b s = s" "\<not> s < length b \<Longrightarrow> skip_word b s = s"
  by (subst skip_word.simps, auto simp: plain_def) (subst skip_word.simps, simp)

lemma skip_word_ok:
  "s \<le> skip_word b s \<and> (s \<le> length b \<longrightarrow> skip_word b s \<le> length b) \<and> (skip_word b s < length b \<longrightarrow> \<not> plain (b ! skip_word b s))
   \<and> (\<forall>i. s \<le> i \<and> i < skip_word b s \<longrightarrow> plain (b ! i))"
proof (induction b s rule: skip_word.induct)
  case (1 b s)
  show ?case
  proof (cases "s < length b \<and> plain (b ! s)")
    case True
    have e: "skip_word b s = skip_word b (s + 1)" using True skip_word_step by blast
    have c: "s < length b \<and> b ! s \<notin> set whitespace \<and> b ! s \<notin> set symbols" using True by (simp add: plain_def)
    note IH = 1 [OF c]
    have "plain (b ! i)" if "s \<le> i" "i < skip_word b (s + 1)" for i
    proof (cases "s = i")
      case False
      then show ?thesis using that IH by simp
    qed (use True in simp)
    moreover have "s \<le> skip_word b (s + 1)" using IH by linarith
    ultimately show ?thesis using IH True unfolding e by simp
  next
    case False
    then have e: "skip_word b s = s" by (cases "s < length b") (simp_all add: skip_word_same)
    have "\<not> (s \<le> i \<and> i < s)" for i by simp
    then show ?thesis unfolding e using False by blast
  qed
qed

lemma skip_word_first: "s < length b \<Longrightarrow> plain (b ! s) \<Longrightarrow> s < skip_word b s"
  using skip_word_ok [of "s + 1" b] skip_word_step [of s b] by linarith

lemma char_at_nz: "char_at b s \<noteq> 0 \<Longrightarrow> s < length b \<and> char_at b s = b ! s"
  by (auto simp: char_at_def split: if_splits)

lemma gettoken_token: "gettoken b s = (fst (token b (skip_ws b s)), skip_ws b s, snd (token b (skip_ws b s)), skip_ws b (snd (token b (skip_ws b s))))"
  unfolding gettoken_def token_def Let_def by (simp add: case_prod_beta)

lemma token_ok:
  assumes "token b q = (t, eq)" "q \<le> length b" "q < length b \<longrightarrow> b ! q \<notin> set whitespace"
  shows "q \<le> eq \<and> eq \<le> length b \<and> (t \<noteq> 0 \<longrightarrow> q < eq) \<and> (t = 97 \<longrightarrow> word_at b (q, eq)) \<and> (t = 0 \<longrightarrow> char_at b q = 0 \<and> eq = q)"
proof -
  let ?c = "char_at b q"
  note nz = char_at_nz [of b q]
  consider "?c = 0" | "?c \<noteq> 0" "?c \<in> {124, 40, 41, 59, 38, 60}" | "?c = 62" | "?c \<noteq> 0" "?c \<notin> {124, 40, 41, 59, 38, 60}" "?c \<noteq> 62" by blast
  then show ?thesis
  proof cases
    case 1
    then have "t = 0" "eq = q" using assms(1) by (simp_all add: token_def)
    then show ?thesis using 1 assms(2) by simp
  next
    case 2
    then have "t = ?c" "eq = q + 1" using assms(1) by (simp_all add: token_def Let_def)
    moreover have "?c \<noteq> 97" using 2(2) by auto
    ultimately show ?thesis using 2(1) nz by simp
  next
    case 3
    then have "token b q = (if char_at b (q + 1) = 62 then (43, q + 2) else (62, q + 1))" by (simp add: token_def)
    then show ?thesis using 3 nz char_at_nz [of b "q + 1"] assms(1) by (cases "char_at b (q + 1) = 62") auto
  next
    case 4
    then have te: "t = 97" "eq = skip_word b q" using assms(1) by (simp_all add: token_def)
    have q: "q < length b" "?c = b ! q" using nz 4(1) by auto
    have "b ! q \<notin> set symbols" using 4 unfolding q(2) by (simp add: symbols_def)
    then have "plain (b ! q)" using assms(3) q(1) by (simp add: plain_def)
    then have "q < skip_word b q" by (rule skip_word_first [OF q(1)])
    then show ?thesis using te skip_word_ok [of q b] assms(2) by (simp add: word_at_def)
  qed
qed

lemma gettoken_ok:
  assumes "0 \<notin> set b" "s \<le> length b" "gettoken b s = (t, q, eq, s')"
  shows "s \<le> q" "q \<le> eq" "eq \<le> s'" "s' \<le> length b" "t \<noteq> 0 \<Longrightarrow> q < eq" "t = 97 \<Longrightarrow> word_at b (q, eq)" "t = 0 \<Longrightarrow> s' = length b"
proof -
  have q: "q = skip_ws b s" and tok: "token b q = (t, eq)" and s': "s' = skip_ws b eq" using assms(3) by (auto simp: gettoken_token)
  have e: "q \<le> eq \<and> eq \<le> length b \<and> (t \<noteq> 0 \<longrightarrow> q < eq) \<and> (t = 97 \<longrightarrow> word_at b (q, eq)) \<and> (t = 0 \<longrightarrow> char_at b q = 0 \<and> eq = q)"
    by (rule token_ok [OF tok]) (use q skip_ws_in skip_ws_end assms(2) in auto)
  show "s \<le> q" "q \<le> eq" "t \<noteq> 0 \<Longrightarrow> q < eq" "t = 97 \<Longrightarrow> word_at b (q, eq)" using q e skip_ws_le by auto
  show "eq \<le> s'" "s' \<le> length b" using s' e skip_ws_le skip_ws_in by auto
  show "s' = length b" if "t = 0"
  proof -
    have "char_at b q = 0" "eq = q" "q \<le> length b" using e that by auto
    then have "q = length b" using assms(1) nth_mem [of q b] by (cases "q < length b") (auto simp: char_at_def)
    then show ?thesis using \<open>eq = q\<close> s' by (simp add: skip_ws_same)
  qed
qed

lemma peek_ok:
  assumes "peek b s toks = (s', f)" "s \<le> length b"
  shows "s \<le> s'" "s' \<le> length b" "f \<Longrightarrow> s' < length b \<and> b ! s' \<in> set toks" "skip_ws b s' = s'"
proof -
  have e: "s' = skip_ws b s" "f \<longleftrightarrow> char_at b s' \<noteq> 0 \<and> char_at b s' \<in> set toks" using assms(1) by (auto simp: peek_def Let_def)
  show "s \<le> s'" "s' \<le> length b" using e skip_ws_le skip_ws_in assms(2) by auto
  show "f \<Longrightarrow> s' < length b \<and> b ! s' \<in> set toks" using e(2) char_at_nz [of b s'] by auto
  show "skip_ws b s' = s'"
    using e(1) skip_ws_end [of b s] skip_ws_same [of "skip_ws b s" b] by (cases "skip_ws b s < length b") auto
qed

section \<open>Every line is parsed or refused\<close>

lemma good_mono: "good b s r \<Longrightarrow> s0 \<le> s \<Longrightarrow> good b s0 r"
  by (auto simp: good_def split: sum.splits)

lemma parseredirs_good:
  assumes "0 \<notin> set b" "s \<le> length b" "\<forall>w \<in> set_cmd c. word_at b w" "short c"
  shows "good b s (parseredirs c b s) \<and> (\<forall>c' s'. parseredirs c b s = Inr (c', s') \<longrightarrow> argcount c' = argcount c)"
  using assms
proof (induction c b s rule: parseredirs.induct)
  case step: (1 c b s)
  obtain s1 more where p: "peek b s [60, 62] = (s1, more)" by fastforce
  note pk = peek_ok [OF p step.prems(2)]
  show ?case
  proof (cases more)
    case False
    then show ?thesis using p pk step.prems by (simp add: parseredirs.simps [of c b s] good_def)
  next
    case True
    obtain tok q1 e1 s2 where g1: "gettoken b s1 = (tok, q1, e1, s2)" by (metis prod_cases4)
    obtain t q e s3 where g2: "gettoken b s2 = (t, q, e, s3)" by (metis prod_cases4)
    note k1 = gettoken_ok [OF step.prems(1) pk(2) g1]
    note k2 = gettoken_ok [OF step.prems(1) k1(4) g2]
    let ?c = "if tok = 60 then REDIR c (q, e) for_input 0 else if tok = 62 then REDIR c (q, e) for_output 1 else if tok = 43 then REDIR c (q, e) for_output 1 else c"
    have eq: "parseredirs c b s = (if t \<noteq> 97 then Inl (panic ''missing file for redirection'') else parseredirs ?c b s3)"
      using p g1 g2 True by (subst parseredirs.simps) simp
    show ?thesis
    proof (cases "t = 97")
      case t: True
      have "good b s3 (parseredirs ?c b s3) \<and> (\<forall>c' s'. parseredirs ?c b s3 = Inr (c', s') \<longrightarrow> argcount c' = argcount ?c)"
        by (rule step.IH [OF p [symmetric] _ g1 [symmetric] refl refl g2 [symmetric] refl refl]) (use True t k2(4,6) step.prems in simp_all)
      moreover have "argcount ?c = argcount c" by simp
      moreover have "s \<le> s3" using pk(1) k1(1-3) k2(1-3) by linarith
      ultimately show ?thesis unfolding eq using t good_mono [of b s3 _ s] by simp
    qed (use eq in \<open>simp add: good_def panic_def\<close>)
  qed
qed

lemma add_arg_good:
  "set_cmd (add_arg w c) \<subseteq> insert w (set_cmd c)" "argcount (add_arg w c) \<le> argcount c + 1" "short c \<Longrightarrow> argcount c + 1 < MAXARGS \<Longrightarrow> short (add_arg w c)"
  by (induction c) auto

lemma exec_args_good:
  assumes "0 \<notin> set b" "s \<le> length b" "\<forall>w \<in> set_cmd c. word_at b w" "short c" "argcount c \<le> argc"
  shows "good b s (exec_args c argc b s)"
  using assms
proof (induction c argc b s rule: exec_args.induct)
  case step: (1 c argc b s)
  obtain s1 stop where p: "peek b s [124, 41, 38, 59] = (s1, stop)" by fastforce
  note pk = peek_ok [OF p step.prems(2)]
  obtain tok q e s2 where g: "gettoken b s1 = (tok, q, e, s2)" by (metis prod_cases4)
  note k = gettoken_ok [OF step.prems(1) pk(2) g]
  let ?c = "add_arg (q, e) c"
  have eq: "exec_args c argc b s = (if stop then Inr (c, s1) else if tok = 0 then Inr (c, s2) else if tok \<noteq> 97 then Inl (panic ''syntax'')
      else if argc + 1 \<ge> MAXARGS then Inl (panic ''too many args'')
      else (case parseredirs ?c b s2 of Inl e \<Rightarrow> Inl e | Inr (ret', s3) \<Rightarrow> exec_args ret' (argc + 1) b s3))"
    using p g by (simp add: exec_args.simps [of c argc b s])
  show ?case
  proof (cases "stop \<or> tok \<noteq> 97 \<or> argc + 1 \<ge> MAXARGS")
    case True
    then show ?thesis using pk k step.prems unfolding eq by (auto simp: good_def panic_def)
  next
    case False
    have w: "\<forall>w \<in> set_cmd ?c. word_at b w" "short ?c" "argcount ?c \<le> argc + 1"
      using add_arg_good [where w = "(q, e)" and c = c] k(6) False step.prems(3-5) by auto
    note r = parseredirs_good [OF step.prems(1) k(4) w(1,2)]
    show ?thesis
    proof (cases "parseredirs ?c b s2")
      case (Inl x)
      then show ?thesis using r False unfolding eq by (simp add: good_def)
    next
      case (Inr x)
      obtain c' s3 where x: "x = (c', s3)" by fastforce
      have c': "s2 \<le> s3" "s3 \<le> length b" "\<forall>w \<in> set_cmd c'. word_at b w" "short c'" "argcount c' \<le> argc + 1" using r Inr x w(3) by (auto simp: good_def)
      have "good b s3 (exec_args c' (argc + 1) b s3)"
        by (rule step.IH [OF p [symmetric] _ g [symmetric] refl refl _ _ _ Inr x [symmetric]]) (use False step.prems(1) c' in simp_all)
      moreover have "s \<le> s3" using pk(1) k(1-3) c'(1) by linarith
      ultimately show ?thesis using False Inr x good_mono [of b s3 _ s] unfolding eq by simp
    qed
  qed
qed

lemma peek_token:
  assumes "0 \<notin> set b" "s \<le> length b" "peek b s toks = (s1, True)"
  shows "s \<le> s1" "s1 < after_token b s1" "after_token b s1 \<le> length b"
proof -
  note pk = peek_ok [OF assms(3,2)]
  obtain t q e s2 where g: "gettoken b s1 = (t, q, e, s2)" by (metis prod_cases4)
  note k = gettoken_ok [OF assms(1) pk(2) g]
  show "s \<le> s1" by (rule pk(1))
  show "after_token b s1 \<le> length b" using k(4) g by simp
  show "s1 < after_token b s1"
  proof (cases "t = 0")
    case True
    then show ?thesis using k(7) pk(3) g by simp
  next
    case False
    then show ?thesis using k(1,3) k(5) g by simp
  qed
qed

lemma back_loop_good:
  assumes "0 \<notin> set b" "s \<le> length b" "back_loop c b s = (c', s')"
  shows "s \<le> s' \<and> s' \<le> length b \<and> set_cmd c' = set_cmd c \<and> short c' = short c"
  using assms
proof (induction c b s rule: back_loop.induct)
  case step: (1 c b s)
  obtain s1 more where p: "peek b s [38] = (s1, more)" by fastforce
  show ?case
  proof (cases more)
    case False
    then show ?thesis using p step.prems peek_ok [OF p step.prems(2)] by (simp add: back_loop.simps [of c b s])
  next
    case True
    obtain t q e s2 where g: "gettoken b s1 = (t, q, e, s2)" by (metis prod_cases4)
    have s2: "s < s2" "s2 \<le> length b" using peek_token [OF step.prems(1,2), of "[38]" s1] p g True by simp_all
    have e: "back_loop (BACK c) b s2 = (c', s')" using step.prems(3) p g True by (simp add: back_loop.simps [of c b s])
    have "s2 \<le> s' \<and> s' \<le> length b \<and> set_cmd c' = set_cmd (BACK c) \<and> short c' = short (BACK c)"
      by (rule step.IH [OF p [symmetric] True g [symmetric] refl refl step.prems(1) s2(2) e])
    then show ?thesis using s2(1) by simp
  qed
qed

lemma good_InrD:
  assumes "good b s r" "r = Inr (c, s')"
  shows "s \<le> s'" "s' \<le> length b" "\<forall>w \<in> set_cmd c. word_at b w" "short c"
  using assms by (auto simp: good_def)

lemma good_Inl: "good b s (Inl e) = (e \<noteq> OutOfFuel)"
  by (simp add: good_def)

lemma good_pair:
  assumes "good b s2 r" "s \<le> s2" "\<forall>w \<in> set_cmd c. word_at b w" "short c" "\<And>d. set_cmd (f d) = set_cmd c \<union> set_cmd d" "\<And>d. short (f d) \<longleftrightarrow> short c \<and> short d"
  shows "good b s (case r of Inl e \<Rightarrow> Inl e | Inr (d, s') \<Rightarrow> Inr (f d, s'))"
  using assms by (auto simp: good_def split: sum.splits)

lemma parse_good:
  assumes b: "0 \<notin> set b"
  shows "s \<le> length b \<Longrightarrow> (4 * (length b - s) + 4 \<le> n \<longrightarrow> good b s (parseline n b s)) \<and> (4 * (length b - s) + 3 \<le> n \<longrightarrow> good b s (parsepipe n b s))
    \<and> (4 * (length b - s) + 2 \<le> n \<longrightarrow> good b s (parseexec n b s)) \<and> (4 * (length b - s) + 1 \<le> n \<longrightarrow> good b s (parseblock n b s))"
proof (induction n arbitrary: s)
  case (Suc n)
  have IH: "4 * (length b - t) + 4 \<le> n \<Longrightarrow> good b t (parseline n b t)" "4 * (length b - t) + 3 \<le> n \<Longrightarrow> good b t (parsepipe n b t)"
    "4 * (length b - t) + 2 \<le> n \<Longrightarrow> good b t (parseexec n b t)" "4 * (length b - t) + 1 \<le> n \<Longrightarrow> good b t (parseblock n b t)" if "t \<le> length b" for t
    using Suc.IH [OF that] by auto
  have fuel: "4 * (length b - t) + 4 \<le> n" if "s < t" "t \<le> length b" "4 * (length b - s) + 1 \<le> Suc n" for t using that by linarith
  have line: "good b s (parseline (Suc n) b s)" if n: "4 * (length b - s) + 4 \<le> Suc n"
  proof (cases "parsepipe n b s")
    case (Inl e)
    then show ?thesis using IH(2) [OF Suc.prems] n by (simp add: parseline.simps good_Inl)
  next
    case (Inr x)
    obtain c s1 where x: "parsepipe n b s = Inr (c, s1)" using Inr by (cases x) auto
    note c = good_InrD [OF IH(2) [OF Suc.prems] x]
    have c': "s \<le> s1" "s1 \<le> length b" "\<forall>w \<in> set_cmd c. word_at b w" "short c" using c n by simp_all
    obtain d s2 where d: "back_loop c b s1 = (d, s2)" by fastforce
    note bl = back_loop_good [OF b c'(2) d]
    obtain s3 more where p: "peek b s2 [59] = (s3, more)" by fastforce
    have s2: "s2 \<le> length b" using bl by simp
    show ?thesis
    proof (cases more)
      case False
      then show ?thesis using x d p bl c' peek_ok [OF p s2] by (simp add: parseline.simps good_def)
    next
      case True
      have p': "peek b s2 [59] = (s3, True)" using p True by simp
      note pt = peek_token [OF b s2 p']
      have "good b (after_token b s3) (parseline n b (after_token b s3))"
        by (rule IH(1) [OF pt(3)], rule fuel) (use pt bl c' n in linarith)+
      then have "good b s (case parseline n b (after_token b s3) of Inl e \<Rightarrow> Inl e | Inr (r, s4) \<Rightarrow> Inr (LIST d r, s4))"
        by (rule good_pair) (use pt bl c' in auto)
      then show ?thesis using x d p True by (simp add: parseline.simps)
    qed
  qed
  have pipe: "good b s (parsepipe (Suc n) b s)" if n: "4 * (length b - s) + 3 \<le> Suc n"
  proof (cases "parseexec n b s")
    case (Inl e)
    then show ?thesis using IH(3) [OF Suc.prems] n by (simp add: parsepipe.simps good_Inl)
  next
    case (Inr x)
    obtain c s1 where x: "parseexec n b s = Inr (c, s1)" using Inr by (cases x) auto
    have c: "s \<le> s1" "s1 \<le> length b" "\<forall>w \<in> set_cmd c. word_at b w" "short c" using good_InrD [OF IH(3) [OF Suc.prems] x] n by simp_all
    obtain s2 more where p: "peek b s1 [124] = (s2, more)" by fastforce
    show ?thesis
    proof (cases more)
      case False
      then show ?thesis using x p c peek_ok [OF p c(2)] by (simp add: parsepipe.simps good_def)
    next
      case True
      have p': "peek b s1 [124] = (s2, True)" using p True by simp
      note pt = peek_token [OF b c(2) p']
      have "4 * (length b - after_token b s2) + 4 \<le> n" by (rule fuel) (use pt c n in linarith)+
      then have "good b (after_token b s2) (parsepipe n b (after_token b s2))" by (intro IH(2) [OF pt(3)]) simp
      then have "good b s (case parsepipe n b (after_token b s2) of Inl e \<Rightarrow> Inl e | Inr (r, s3) \<Rightarrow> Inr (PIPE c r, s3))"
        by (rule good_pair) (use pt c in auto)
      then show ?thesis using x p True by (simp add: parsepipe.simps)
    qed
  qed
  have block: "good b s (parseblock (Suc n) b s)" if n: "4 * (length b - s) + 1 \<le> Suc n"
  proof -
    obtain s1 opn where p: "peek b s [40] = (s1, opn)" by fastforce
    show ?thesis
    proof (cases opn)
      case False
      then show ?thesis using p by (simp add: parseblock.simps good_Inl panic_def)
    next
      case True
      have p': "peek b s [40] = (s1, True)" using p True by simp
      note pt = peek_token [OF b Suc.prems p']
      have gl: "good b (after_token b s1) (parseline n b (after_token b s1))"
        by (rule IH(1) [OF pt(3)], rule fuel) (use pt n in linarith)+
      show ?thesis
      proof (cases "parseline n b (after_token b s1)")
        case (Inl e)
        then show ?thesis using p True gl by (simp add: parseblock.simps good_Inl)
      next
        case (Inr x)
        obtain c s2 where x: "parseline n b (after_token b s1) = Inr (c, s2)" using Inr by (cases x) auto
        note c = good_InrD [OF gl x]
        obtain s3 cls where q: "peek b s2 [41] = (s3, cls)" by fastforce
        show ?thesis
        proof (cases cls)
          case False
          then show ?thesis using p True x q by (simp add: parseblock.simps good_Inl panic_def)
        next
          case cl: True
          have q': "peek b s2 [41] = (s3, True)" using q cl by simp
          note qt = peek_token [OF b c(2) q']
          have "good b (after_token b s3) (parseredirs c b (after_token b s3))" using parseredirs_good [OF b qt(3) c(3,4)] by blast
          then have "good b s (parseredirs c b (after_token b s3))" by (rule good_mono) (use pt qt c in linarith)
          then show ?thesis using p True x q cl by (simp add: parseblock.simps)
        qed
      qed
    qed
  qed
  have exec: "good b s (parseexec (Suc n) b s)" if n: "4 * (length b - s) + 2 \<le> Suc n"
  proof -
    obtain s1 opn where p: "peek b s [40] = (s1, opn)" by fastforce
    note pk = peek_ok [OF p Suc.prems]
    show ?thesis
    proof (cases opn)
      case True
      have "good b s1 (parseblock n b s1)" by (rule IH(4) [OF pk(2)]) (use n pk(1,2) in linarith)
      then show ?thesis using p True good_mono [of b s1 _ s] pk(1) by (simp add: parseexec.simps)
    next
      case False
      have r: "good b s1 (parseredirs (EXEC []) b s1)" "\<And>c s'. parseredirs (EXEC []) b s1 = Inr (c, s') \<Longrightarrow> argcount c = 0"
        using parseredirs_good [OF b pk(2), of "EXEC []"] by auto
      show ?thesis
      proof (cases "parseredirs (EXEC []) b s1")
        case (Inl e)
        then show ?thesis using p False r by (simp add: parseexec.simps good_Inl)
      next
        case (Inr x)
        obtain c s2 where x: "parseredirs (EXEC []) b s1 = Inr (c, s2)" using Inr by (cases x) auto
        note c = good_InrD [OF r(1) x]
        have "good b s2 (exec_args c 0 b s2)" by (rule exec_args_good [OF b c(2-4)]) (use r(2) x in simp)
        then have "good b s (exec_args c 0 b s2)" by (rule good_mono) (use c(1) pk(1) in linarith)
        then show ?thesis using p False x by (simp add: parseexec.simps)
      qed
    qed
  qed
  show ?case using line pipe exec block by blast
qed simp

section \<open>The words of a command as strings\<close>

lemma length_nulterminate [simp]: "length (nulterminate c m) = length m"
proof (induction c arbitrary: m)
  case (EXEC ws)
  show ?case by (induction ws arbitrary: m) auto
qed auto

lemma nulterminate_nth:
  "i < length m \<Longrightarrow> nulterminate c m ! i = (if i \<in> snd ` set_cmd c then 0 else m ! i)"
proof (induction c arbitrary: m)
  case (EXEC ws)
  have "i < length m \<Longrightarrow> fold (\<lambda>(q, eq) m. m[eq := 0]) ws m ! i = (if i \<in> snd ` set ws then 0 else m ! i)" for m :: "uchar list"
  proof (induction ws arbitrary: m)
    case (Cons w ws)
    then show ?case by (cases w) (auto simp: nth_list_update)
  qed simp
  then show ?case using EXEC by simp
next
  case (REDIR c f mode fd)
  then have "(nulterminate c m)[snd f := 0] ! i = (if i = snd f then 0 else if i \<in> snd ` set_cmd c then 0 else m ! i)"
    by (simp add: nth_list_update)
  then show ?case by auto
qed auto

lemma word_string:
  assumes "0 \<notin> set b" "\<forall>w \<in> set_cmd c. word_at b w" "(q, eq) \<in> set_cmd c"
  shows "cstring (nulterminate c (b @ [0])) q = slice q (eq - q) b"
proof -
  let ?m = "nulterminate c (b @ [0])"
  have w: "q < eq" "eq \<le> length b" "\<forall>i. q \<le> i \<and> i < eq \<longrightarrow> plain (b ! i)" using assms(2,3) by (auto simp: word_at_def)
  have "i \<notin> snd ` set_cmd c" if "q \<le> i" "i < eq" for i
  proof
    assume "i \<in> snd ` set_cmd c"
    then obtain v where "v \<in> set_cmd c" "snd v = i" by auto
    then show False using assms(2) w that by (auto simp: word_at_def)
  qed
  then have same: "?m ! i = b ! i" if "q \<le> i" "i < eq" for i using that w by (simp add: nulterminate_nth nth_append)
  have z: "?m ! eq = 0" using assms(3) w(2) by (force simp: nulterminate_nth nth_append)
  have "drop q ?m = slice q (eq - q) b @ 0 # drop (Suc eq) ?m"
  proof (rule nth_equalityI)
    fix i assume i: "i < length (drop q ?m)"
    show "drop q ?m ! i = (slice q (eq - q) b @ 0 # drop (Suc eq) ?m) ! i"
    proof (cases "q + i < eq")
      case True
      moreover have "i < eq - q" using True by simp
      ultimately show ?thesis using same [of "q + i"] w by (simp add: nth_append nth_slice)
    next
      case False
      then show ?thesis using z w i by (cases "q + i = eq") (auto simp: nth_append nth_Cons' add.commute)
    qed
  qed (use w in simp)
  moreover have "0 \<notin> set (slice q (eq - q) b)" using assms(1) unfolding slice_def by (meson in_set_dropD in_set_takeD)
  ultimately show ?thesis unfolding cstring_def by (auto simp: takeWhile_append)
qed

text \<open>C34: Lines become well-formed commands. For every line, \<open>parsecmd\<close> returns: it refuses the line with a message, or it gives a command tree in which
  every program has at most nine arguments and every word is a non-empty, maximal part of the line without white space and symbols. In
  the buffer in which zeros have been put behind the words, each of them is a zero-terminated string with its characters, whatever
  stands next to it in the line.\<close>

theorem parsecmd_words:
  assumes "0 \<notin> set b"
  shows "case parsecmd b of
      Inl e \<Rightarrow> e \<noteq> OutOfFuel
    | Inr (c, m) \<Rightarrow> short c \<and> length m = length b + 1
        \<and> (\<forall>(q, eq) \<in> set_cmd c. word_at b (q, eq) \<and> cstring m q = slice q (eq - q) b)"
proof -
  have g: "good b 0 (parseline (4 * length b + 4) b 0)" using parse_good [OF assms, of 0 "4 * length b + 4"] by simp
  show ?thesis
  proof (cases "parseline (4 * length b + 4) b 0")
    case (Inl e)
    then show ?thesis using g by (simp add: parsecmd_def good_Inl)
  next
    case (Inr x)
    obtain c s where x: "parseline (4 * length b + 4) b 0 = Inr (c, s)" using Inr by (cases x) auto
    note c = good_InrD [OF g x]
    obtain s1 f where p: "peek b s [] = (s1, f)" by fastforce
    show ?thesis
      using x p c(3,4) word_string [OF assms c(3)] by (simp add: parsecmd_def case_prod_beta)
  qed
qed

theorem parsecmd_words_witness:
  "case parsecmd [97, 62, 98] of Inl e \<Rightarrow> e \<noteq> OutOfFuel
   | Inr (c, m) \<Rightarrow> short c \<and> length m = length [97, 62, 98 :: uchar] + 1 \<and> (\<forall>(q, eq) \<in> set_cmd c. word_at [97, 62, 98] (q, eq) \<and> cstring m q = slice q (eq - q) [97, 62, 98])"
  by (rule parsecmd_words) simp

section \<open>Commands can be written down\<close>

lemma here_Cons: "here b s (c # r) \<Longrightarrow> s < length b \<and> b ! s = c \<and> char_at b s = c \<and> here b (s + 1) r"
  unfolding here_def char_at_def by (metis Cons_nth_drop_Suc Suc_eq_plus1 Suc_leI drop_all le_neq_implies_less list.inject list.simps(3) order_refl)

lemma here_Nil: "here b s [] \<Longrightarrow> s = length b \<and> char_at b s = 0"
  by (simp add: here_def char_at_def)

lemma here_append:
  assumes "here b s (u @ r)"
  shows "here b (s + length u) r \<and> take (length u) (drop s b) = u"
proof -
  have d: "drop s b = u @ r" "s \<le> length b" using assms by (simp_all add: here_def)
  have "length b - s = length u + length r" using arg_cong [OF d(1), of length] by simp
  moreover have "drop (s + length u) b = drop (length u) (drop s b)" by (simp add: add.commute)
  ultimately show ?thesis using d by (auto simp: here_def)
qed

lemma here_length: "here b s r \<Longrightarrow> length r = length b - s"
  by (auto simp: here_def)

lemma norm_simps: "norm [] = []" "norm (c # r) = (if c \<in> set whitespace then norm r else c # r)"
  by (simp_all add: norm_def)

lemma norm_norm [simp]: "norm (norm r) = norm r"
  by (induction r) (simp_all add: norm_simps)

lemma length_norm: "length (norm r) \<le> length r"
  by (simp add: norm_def length_dropWhile_le)

lemma clean_sym: "c \<in> set symbols \<Longrightarrow> clean (c # r)" "word_ok w \<Longrightarrow> clean (w @ r)"
  by (cases w; auto simp: norm_simps symbols_def whitespace_def word_ok_def plain_def)+

lemma skip_here: "here b s r \<Longrightarrow> here b (skip_ws b s) (norm r)"
proof (induction r arbitrary: s)
  case Nil
  then show ?case using here_Nil [OF Nil] by (simp add: norm_simps skip_ws_same)
next
  case (Cons c r)
  note h = here_Cons [OF Cons.prems]
  show ?case
  proof (cases "c \<in> set whitespace")
    case True
    then show ?thesis using h Cons.IH [of "s + 1"] skip_ws_step [of s b] by (simp add: norm_simps)
  next
    case False
    then show ?thesis using h Cons.prems skip_ws_same(1) [of s b] by (simp add: norm_simps)
  qed
qed

lemma skip_clean:
  assumes "here b s r" "clean r"
  shows "skip_ws b s = s"
proof -
  have "length b - skip_ws b s = length b - s" "skip_ws b s \<le> length b" "s \<le> length b"
    using here_length [OF skip_here [OF assms(1)]] here_length [OF assms(1)] assms skip_here [OF assms(1)] by (auto simp: here_def)
  then show ?thesis by linarith
qed

lemma peek_here:
  assumes "here b s r" "clean r"
  shows "peek b s toks = (s, r \<noteq> [] \<and> hd r \<noteq> 0 \<and> hd r \<in> set toks)"
  using assms skip_clean [OF assms] here_Cons [of b s] here_Nil [of b s] by (cases r) (auto simp: peek_def Let_def)

lemma gettoken_sym:
  assumes "here b s (c # r)" "c \<in> set symbols" "c = 62 \<longrightarrow> r = [] \<or> hd r \<noteq> 62"
  shows "\<exists>s'. gettoken b s = (c, s, s + 1, s') \<and> here b s' (norm r)"
proof -
  note h = here_Cons [OF assms(1)]
  have "token b s = (c, s + 1)"
    using h assms(2,3) here_Cons [of b "s + 1"] here_Nil [of b "s + 1"] by (cases r) (auto simp: token_def Let_def symbols_def)
  then show ?thesis
    using skip_clean [OF assms(1) clean_sym(1) [OF assms(2)]] skip_here [of b "s + 1" r] h by (simp add: gettoken_token)
qed

lemma gettoken_word:
  assumes "here b s (w @ 32 # r)" "word_ok w"
  shows "\<exists>s'. gettoken b s = (97, s, s + length w, s') \<and> here b s' (norm r)" "txt_of b (s, s + length w) = w"
proof -
  note h = here_append [OF assms(1)]
  have h2: "here b (s + length w) (32 # r)" using h by simp
  show "txt_of b (s, s + length w) = w" using h by (simp add: txt_of_def slice_def)
  have sw: "here b s (w @ 32 # r) \<Longrightarrow> \<forall>c \<in> set w. plain c \<Longrightarrow> skip_word b s = s + length w" for s w
  proof (induction w arbitrary: s)
    case Nil
    then show ?case using here_Cons [of b s 32 r] by (simp add: skip_word_same plain_def whitespace_def)
  next
    case (Cons c w)
    have c: "s < length b" "b ! s = c" "here b (s + 1) (w @ 32 # r)" using here_Cons [of b s c "w @ 32 # r"] Cons.prems(1) by auto
    then show ?case using Cons.IH [OF c(3)] Cons.prems(2) skip_word_step [of s b] by simp
  qed
  obtain c w' where w: "w = c # w'" "plain c" "c \<noteq> 0" using assms(2) by (cases w) (auto simp: word_ok_def)
  have "char_at b s = c" using here_Cons [of b s c "w' @ 32 # r"] assms(1) w(1) by simp
  then have "token b s = (97, skip_word b s)" using w(2,3) by (auto simp: token_def plain_def symbols_def)
  also have "skip_word b s = s + length w" by (rule sw [OF assms(1)]) (use assms(2) in \<open>simp add: word_ok_def\<close>)
  finally show "\<exists>s'. gettoken b s = (97, s, s + length w, s') \<and> here b s' (norm r)"
    using skip_clean [OF assms(1) clean_sym(2) [OF assms(2)]] skip_here [OF h2] by (simp add: gettoken_token norm_simps whitespace_def)
qed

lemma gettoken_end:
  assumes h: "here b s []"
  shows "gettoken b s = (0, s, s, s)"
proof -
  have "token b s = (0, s)" using here_Nil [OF h] by (simp add: token_def char_at_def)
  then show ?thesis using skip_clean [OF h] by (simp add: gettoken_token norm_simps)
qed

lemma no_redirs:
  assumes "here b s t" "clean t" "t = [] \<or> hd t \<noteq> 60 \<and> hd t \<noteq> 62"
  shows "parseredirs c b s = Inr (c, s)"
  using peek_here [OF assms(1,2), of "[60, 62]"] assms(3) by (auto simp: parseredirs.simps [of c b s])

lemma stops_hd: "stops t \<Longrightarrow> x \<noteq> 41 \<Longrightarrow> norm t = [] \<or> hd (norm t) \<noteq> x"
  by (auto simp: stops_def)

text \<open>What the words of a program begin with.\<close>

lemma words_hd:
  assumes "\<forall>w \<in> set ws. word_ok w" "stops t"
  shows "norm (concat (map (\<lambda>w. w @ [32]) ws) @ t) = [] \<or> hd (norm (concat (map (\<lambda>w. w @ [32]) ws) @ t)) \<notin> {40, 60, 62}"
proof (cases ws)
  case Nil
  then show ?thesis using assms(2) by (auto simp: stops_def)
next
  case (Cons v vs)
  then have v: "word_ok v" using assms(1) by simp
  then have "norm (v @ 32 # concat (map (\<lambda>w. w @ [32]) vs) @ t) = v @ 32 # concat (map (\<lambda>w. w @ [32]) vs) @ t" by (rule clean_sym(2))
  then show ?thesis using Cons v by (cases v) (auto simp: word_ok_def plain_def symbols_def)
qed

lemma exec_words:
  assumes "here b s (norm (concat (map (\<lambda>w. w @ [32]) ws) @ t))" "stops t" "\<forall>w \<in> set ws. word_ok w" "argc + length ws < MAXARGS"
  shows "\<exists>us s'. exec_args (EXEC vs) argc b s = Inr (EXEC (vs @ us), s') \<and> here b s' (norm t) \<and> map (txt_of b) us = ws"
  using assms
proof (induction ws arbitrary: s vs argc)
  case Nil
  then have h: "here b s (norm t)" by simp
  have p: "peek b s [124, 41, 38, 59] = (s, norm t \<noteq> [])" using peek_here [OF h norm_norm, of "[124, 41, 38, 59]"] assms(2) by (auto simp: stops_def)
  then show ?case using h gettoken_end [of b s] by (cases "norm t = []") (auto simp: exec_args.simps [of "EXEC vs" argc b s])
next
  case (Cons w ws)
  let ?r = "concat (map (\<lambda>w. w @ [32]) ws) @ t"
  have w: "word_ok w" using Cons.prems(3) by simp
  have n: "norm (w @ 32 # ?r) = w @ 32 # ?r" by (rule clean_sym(2) [OF w])
  have h: "here b s (w @ 32 # ?r)" using Cons.prems(1) n by simp
  obtain s' where g: "gettoken b s = (97, s, s + length w, s')" "here b s' (norm ?r)" using gettoken_word(1) [OF h w] by blast
  have "hd (w @ 32 # ?r) \<notin> {124, 41, 38, 59}" using w by (cases w) (auto simp: word_ok_def plain_def symbols_def)
  then have p: "peek b s [124, 41, 38, 59] = (s, False)" using peek_here [OF h n, of "[124, 41, 38, 59]"] by auto
  have nr: "parseredirs c b s' = Inr (c, s')" for c by (rule no_redirs [OF g(2) norm_norm]) (use words_hd [of ws t] Cons.prems(3) assms(2) in auto)
  let ?w = "(s, s + length w)"
  have "exec_args (EXEC vs) argc b s = exec_args (EXEC (vs @ [?w])) (argc + 1) b s'"
    using p g(1) nr Cons.prems(4) by (simp add: exec_args.simps [of "EXEC vs" argc b s])
  moreover have "\<exists>us s''. exec_args (EXEC (vs @ [?w])) (argc + 1) b s' = Inr (EXEC ((vs @ [?w]) @ us), s'') \<and> here b s'' (norm t) \<and> map (txt_of b) us = ws"
    by (rule Cons.IH [OF g(2) assms(2)]) (use Cons.prems(3,4) in auto)
  ultimately show ?case using gettoken_word(2) [OF h w] by (metis append.assoc append_Cons append_Nil list.simps(9))
qed

lemma pipe_level:
  assumes "parseexec n b s = Inr (c, s1)" "here b s1 t" "clean t" "t = [] \<or> hd t \<noteq> 124"
  shows "parsepipe (Suc n) b s = Inr (c, s1)"
  using assms(1,4) peek_here [OF assms(2,3), of "[124]"] by (auto simp: parsepipe.simps)

lemma line_level:
  assumes "parsepipe n b s = Inr (c, s1)" "here b s1 (norm t)" "stops t"
  shows "parseline (Suc n) b s = Inr (c, s1)"
proof -
  have p: "peek b s1 [x] = (s1, False)" if "x \<noteq> 41" for x
    using peek_here [OF assms(2) norm_norm, of "[x]"] assms(3) that by (auto simp: stops_def)
  have "back_loop c b s1 = (c, s1)" using p [of 38] by (simp add: back_loop.simps [of c b s1])
  then show ?thesis using assms(1) p [of 59] by (simp add: parseline.simps)
qed

lemma sym_facts: "40 \<in> set symbols" "41 \<in> set symbols" "124 \<in> set symbols" "59 \<in> set symbols" "38 \<in> set symbols" "60 \<in> set symbols" "62 \<in> set symbols"
  by (simp_all add: symbols_def)

lemma reads_block:
  assumes "reads b a" "here b s (40 # print_cmd a @ 41 # t)" "4 * (length b - s) + 2 \<le> n"
  shows "\<exists>c s'. parseexec n b s = parseredirs c b s' \<and> here b s' (norm t) \<and> map_cmd (txt_of b) c = a"
proof -
  have n41: "norm (41 # t) = 41 # t" by (rule clean_sym(1)) (simp add: symbols_def)
  then have st: "stops (41 # t)" by (simp add: stops_def)
  obtain s0 where g: "gettoken b s = (40, s, s + 1, s0)" "here b s0 (norm (print_cmd a @ 41 # t))"
    using gettoken_sym [OF assms(2) sym_facts(1)] by auto
  have p: "peek b s [40] = (s, True)" using peek_here [OF assms(2) clean_sym(1) [OF sym_facts(1)], of "[40]"] by simp
  have "4 * (length b - s0) + 4 \<le> 4 * (length b - s)"
    using here_length [OF g(2)] here_length [OF assms(2)] length_norm [of "print_cmd a @ 41 # t"] by simp
  then obtain m where n: "n = Suc (Suc m)" "4 * (length b - s0) + 4 \<le> m" using assms(3) by (cases n; cases "n - 1") auto
  obtain c s1 where c: "parseline m b s0 = Inr (c, s1)" "here b s1 (41 # t)" "map_cmd (txt_of b) c = a"
    using assms(1) g(2) st n(2) n41 unfolding reads_def by metis
  have q: "peek b s1 [41] = (s1, True)" using peek_here [OF c(2) n41, of "[41]"] by simp
  obtain s2 where g1: "gettoken b s1 = (41, s1, s1 + 1, s2)" "here b s2 (norm t)" using gettoken_sym [OF c(2) sym_facts(2)] by auto
  have "parseexec n b s = parseredirs c b s2"
    using p q g(1) g1(1) c(1) n(1) by (simp add: parseexec.simps parseblock.simps)
  then show ?thesis using g1(2) c(3) by blast
qed

text \<open>A parenthesised command in front of something that is not a redirection.\<close>

lemma block_exec:
  assumes "reads b a" "here b s (40 # print_cmd a @ 41 # t)" "norm t = [] \<or> hd (norm t) \<noteq> 60 \<and> hd (norm t) \<noteq> 62" "4 * (length b - s) + 2 \<le> n"
  shows "\<exists>c s'. parseexec n b s = Inr (c, s') \<and> here b s' (norm t) \<and> map_cmd (txt_of b) c = a"
proof -
  obtain c s' where c: "parseexec n b s = parseredirs c b s'" "here b s' (norm t)" "map_cmd (txt_of b) c = a" using reads_block [OF assms(1,2,4)] by blast
  then show ?thesis using no_redirs [OF c(2) norm_norm assms(3), of c] by auto
qed

lemma readsI:
  assumes "\<And>n s t. here b s (norm (print_cmd a @ t)) \<Longrightarrow> stops t \<Longrightarrow> 4 * (length b - s) + 3 \<le> n \<Longrightarrow>
    \<exists>c s'. parsepipe n b s = Inr (c, s') \<and> here b s' (norm t) \<and> map_cmd (txt_of b) c = a"
  shows "reads b a"
  unfolding reads_def
proof (intro allI impI)
  fix n s t assume h: "here b s (norm (print_cmd a @ t))" "stops t" "4 * (length b - s) + 4 \<le> n"
  then obtain m where n: "n = Suc m" "4 * (length b - s) + 3 \<le> m" by (cases n) auto
  then obtain c s' where "parsepipe m b s = Inr (c, s')" "here b s' (norm t)" "map_cmd (txt_of b) c = a" using assms [OF h(1,2) n(2)] by blast
  then show "\<exists>c s'. parseline n b s = Inr (c, s') \<and> here b s' (norm t) \<and> map_cmd (txt_of b) c = a" using line_level [OF _ _ h(2)] n(1) by blast
qed

lemma reads_EXEC:
  assumes "printable (EXEC ws)"
  shows "reads b (EXEC ws)"
proof (rule readsI)
  fix n s t assume h: "here b s (norm (print_cmd (EXEC ws) @ t))" "stops t" "4 * (length b - s) + 3 \<le> n"
  obtain m where n: "n = Suc (Suc m)" using h(3) by (cases n; cases "n - 1") auto
  have hd: "norm (print_cmd (EXEC ws) @ t) = [] \<or> hd (norm (print_cmd (EXEC ws) @ t)) \<notin> {40, 60, 62}" using words_hd [OF _ h(2), of ws] assms by simp
  have p: "peek b s [40] = (s, False)" using peek_here [OF h(1) norm_norm, of "[40]"] hd by auto
  have r: "parseredirs (EXEC []) b s = Inr (EXEC [], s)" by (rule no_redirs [OF h(1) norm_norm]) (use hd in auto)
  obtain us s' where e: "exec_args (EXEC []) 0 b s = Inr (EXEC us, s')" "here b s' (norm t)" "map (txt_of b) us = ws"
    using exec_words [of b s ws t 0 "[]"] h assms by auto
  have "parseexec (Suc m) b s = Inr (EXEC us, s')" using p r e(1) by (simp add: parseexec.simps)
  then have "parsepipe n b s = Inr (EXEC us, s')" unfolding n by (rule pipe_level [OF _ e(2) norm_norm stops_hd [OF h(2)]]) simp
  then show "\<exists>c s'. parsepipe n b s = Inr (c, s') \<and> here b s' (norm t) \<and> map_cmd (txt_of b) c = EXEC ws" using e by auto
qed

lemma open_norm: "norm (40 # r) = 40 # r"
  by (simp add: norm_simps whitespace_def)

lemma reads_PIPE:
  assumes "reads b l" "reads b r"
  shows "reads b (PIPE l r)"
proof (rule readsI)
  fix n s t assume h: "here b s (norm (print_cmd (PIPE l r) @ t))" "stops t" "4 * (length b - s) + 3 \<le> n"
  obtain m where n: "n = Suc (Suc m)" "4 * (length b - s) + 1 \<le> m" using h(3) by (cases n; cases "n - 1") auto
  let ?t = "124 # 40 # print_cmd r @ 41 # t"
  have h1: "here b s (40 # print_cmd l @ 41 # ?t)" using h(1) by (simp add: open_norm)
  have nt: "norm ?t = ?t" by (rule clean_sym(1) [OF sym_facts(3)])
  obtain c1 s1 where c1: "parseexec (Suc m) b s = Inr (c1, s1)" "here b s1 ?t" "map_cmd (txt_of b) c1 = l"
    using block_exec [OF assms(1) h1, of "Suc m"] n(2) nt by auto
  have p: "peek b s1 [124] = (s1, True)" using peek_here [OF c1(2) nt, of "[124]"] by simp
  obtain s1' where g: "gettoken b s1 = (124, s1, s1 + 1, s1')" "here b s1' (40 # print_cmd r @ 41 # t)"
    using gettoken_sym [OF c1(2) sym_facts(3)] by (auto simp: open_norm)
  have f: "4 * (length b - s1') + 2 \<le> m" using here_length [OF h1] here_length [OF g(2)] n(2) by simp
  obtain c2 s2 where c2: "parseexec m b s1' = Inr (c2, s2)" "here b s2 (norm t)" "map_cmd (txt_of b) c2 = r"
    using block_exec [OF assms(2) g(2) _ f] stops_hd [OF h(2), of 60] stops_hd [OF h(2), of 62] by auto
  have "parsepipe (Suc m) b s1' = Inr (c2, s2)" by (rule pipe_level [OF c2(1,2) norm_norm stops_hd [OF h(2)]]) simp
  then have "parsepipe n b s = Inr (PIPE c1 c2, s2)" unfolding n(1) using c1(1) p g(1) by (simp add: parsepipe.simps(2) [of "Suc m" b s])
  then show "\<exists>c s'. parsepipe n b s = Inr (c, s') \<and> here b s' (norm t) \<and> map_cmd (txt_of b) c = PIPE l r" using c1(3) c2(2,3) by auto
qed

lemma reads_REDIR:
  assumes "reads b a" "printable (REDIR a f mode fd)"
  shows "reads b (REDIR a f mode fd)"
proof (rule readsI)
  fix n s t assume h: "here b s (norm (print_cmd (REDIR a f mode fd) @ t))" "stops t" "4 * (length b - s) + 3 \<le> n"
  obtain m where n: "n = Suc m" "4 * (length b - s) + 2 \<le> m" using h(3) by (cases n) auto
  let ?x = "if fd = 0 then 60 else 62 :: uchar"
  let ?t = "?x # f @ 32 # t"
  have f: "word_ok f" "printable a" and mf: "(mode, fd) = (for_input, 0) \<or> (mode, fd) = (for_output, 1)" using assms(2) by auto
  have sx: "?x \<in> set symbols" using sym_facts by simp
  have h1: "here b s (40 # print_cmd a @ 41 # ?t)" using h(1) by (simp add: open_norm)
  have nt: "norm ?t = ?t" by (rule clean_sym(1) [OF sx])
  obtain c s1 where c: "parseexec m b s = parseredirs c b s1" "here b s1 ?t" "map_cmd (txt_of b) c = a"
    using reads_block [OF assms(1) h1 n(2)] nt by auto
  have p: "peek b s1 [60, 62] = (s1, True)" using peek_here [OF c(2) nt, of "[60, 62]"] by simp
  have "hd (f @ 32 # t) \<noteq> 62" using f(1) by (cases f) (auto simp: word_ok_def plain_def symbols_def)
  then obtain s2 where g: "gettoken b s1 = (?x, s1, s1 + 1, s2)" "here b s2 (f @ 32 # t)"
    using gettoken_sym [OF c(2) sx] clean_sym(2) [OF f(1)] by auto
  obtain s3 where w: "gettoken b s2 = (97, s2, s2 + length f, s3)" "here b s3 (norm t)" using gettoken_word(1) [OF g(2) f(1)] by blast
  let ?w = "(s2, s2 + length f)"
  have nr: "parseredirs d b s3 = Inr (d, s3)" for d
    by (rule no_redirs [OF w(2) norm_norm]) (use stops_hd [OF h(2), of 60] stops_hd [OF h(2), of 62] in auto)
  have "parseredirs c b s1 = Inr (REDIR c ?w mode fd, s3)"
    using p g(1) w(1) mf nr by (auto simp: parseredirs.simps [of c b s1])
  then have "parsepipe n b s = Inr (REDIR c ?w mode fd, s3)"
    unfolding n(1) using c(1) by (intro pipe_level [OF _ w(2) norm_norm stops_hd [OF h(2)]]) simp_all
  then show "\<exists>c s'. parsepipe n b s = Inr (c, s') \<and> here b s' (norm t) \<and> map_cmd (txt_of b) c = REDIR a f mode fd"
    using c(3) w(2) gettoken_word(2) [OF g(2) f(1)] by auto
qed

lemma reads_LIST:
  assumes "reads b l" "reads b r"
  shows "reads b (LIST l r)"
  unfolding reads_def
proof (intro allI impI)
  fix n s t assume h: "here b s (norm (print_cmd (LIST l r) @ t))" "stops t" "4 * (length b - s) + 4 \<le> n"
  obtain m where n: "n = Suc (Suc m)" "4 * (length b - s) + 2 \<le> m" using h(3) by (cases n; cases "n - 1") auto
  let ?t = "59 # 40 # print_cmd r @ 41 # t"
  have h1: "here b s (40 # print_cmd l @ 41 # ?t)" using h(1) by (simp add: open_norm)
  have nt: "norm ?t = ?t" by (rule clean_sym(1) [OF sym_facts(4)])
  obtain c1 s1 where c1: "parseexec m b s = Inr (c1, s1)" "here b s1 ?t" "map_cmd (txt_of b) c1 = l"
    using block_exec [OF assms(1) h1 _ n(2)] nt by auto
  have pp: "parsepipe (Suc m) b s = Inr (c1, s1)" by (rule pipe_level [OF c1(1,2) nt]) simp
  have p: "peek b s1 [59] = (s1, True)" "peek b s1 [38] = (s1, False)"
    using peek_here [OF c1(2) nt, of "[59]"] peek_here [OF c1(2) nt, of "[38]"] by simp_all
  have bl: "back_loop c1 b s1 = (c1, s1)" using p(2) by (simp add: back_loop.simps [of c1 b s1])
  obtain s1' where g: "gettoken b s1 = (59, s1, s1 + 1, s1')" "here b s1' (40 # print_cmd r @ 41 # t)"
    using gettoken_sym [OF c1(2) sym_facts(4)] by (auto simp: open_norm)
  have f: "4 * (length b - s1') + 2 + 4 \<le> m" using here_length [OF h1] here_length [OF g(2)] n(2) by simp
  obtain k where k: "m = Suc k" using f by (cases m) auto
  obtain c2 s2 where c2: "parseexec k b s1' = Inr (c2, s2)" "here b s2 (norm t)" "map_cmd (txt_of b) c2 = r"
    using block_exec [OF assms(2) g(2), of k] stops_hd [OF h(2), of 60] stops_hd [OF h(2), of 62] f k by auto
  have "parsepipe m b s1' = Inr (c2, s2)" unfolding k by (rule pipe_level [OF c2(1,2) norm_norm stops_hd [OF h(2)]]) simp
  then have "parseline (Suc m) b s1' = Inr (c2, s2)" by (rule line_level [OF _ c2(2) h(2)])
  then have "parseline n b s = Inr (LIST c1 c2, s2)" unfolding n(1) using pp bl p(1) g(1) by (simp add: parseline.simps(2) [of "Suc m" b s])
  then show "\<exists>c s'. parseline n b s = Inr (c, s') \<and> here b s' (norm t) \<and> map_cmd (txt_of b) c = LIST l r" using c1(3) c2(2,3) by auto
qed

lemma reads_BACK:
  assumes "reads b a"
  shows "reads b (BACK a)"
  unfolding reads_def
proof (intro allI impI)
  fix n s t assume h: "here b s (norm (print_cmd (BACK a) @ t))" "stops t" "4 * (length b - s) + 4 \<le> n"
  obtain m where n: "n = Suc (Suc m)" "4 * (length b - s) + 2 \<le> m" using h(3) by (cases n; cases "n - 1") auto
  have h1: "here b s (40 # print_cmd a @ 41 # 38 # t)" using h(1) by (simp add: open_norm)
  have nt: "norm (38 # t) = 38 # t" by (rule clean_sym(1) [OF sym_facts(5)])
  obtain c s1 where c: "parseexec m b s = Inr (c, s1)" "here b s1 (38 # t)" "map_cmd (txt_of b) c = a"
    using block_exec [OF assms h1 _ n(2)] nt by auto
  have pp: "parsepipe (Suc m) b s = Inr (c, s1)" by (rule pipe_level [OF c(1,2) nt]) simp
  obtain s2 where g: "gettoken b s1 = (38, s1, s1 + 1, s2)" "here b s2 (norm t)" using gettoken_sym [OF c(2) sym_facts(5)] by auto
  have p: "peek b s1 [38] = (s1, True)" "peek b s2 [38] = (s2, False)" "peek b s2 [59] = (s2, False)"
    using peek_here [OF c(2) nt, of "[38]"] peek_here [OF g(2) norm_norm] stops_hd [OF h(2), of 38] stops_hd [OF h(2), of 59] by auto
  have "back_loop c b s1 = (BACK c, s2)"
    using p(1,2) g(1) by (simp add: back_loop.simps [of c b s1] back_loop.simps [of "BACK c" b s2])
  then have "parseline n b s = Inr (BACK c, s2)" unfolding n(1) using pp p(3) by (simp add: parseline.simps(2) [of "Suc m" b s])
  then show "\<exists>c s'. parseline n b s = Inr (c, s') \<and> here b s' (norm t) \<and> map_cmd (txt_of b) c = BACK a" using c(3) g(2) by auto
qed

lemma reads_all: "printable a \<Longrightarrow> reads b a"
proof (induction a)
  case (EXEC ws)
  then show ?case by (rule reads_EXEC)
next
  case (REDIR a f mode fd)
  then show ?case by (intro reads_REDIR) auto
qed (auto intro: reads_PIPE reads_LIST reads_BACK)

lemma print_nonzero: "printable a \<Longrightarrow> 0 \<notin> set (print_cmd a)"
  by (induction a) (auto simp: word_ok_def)

lemma norm_spaces: "set sp \<subseteq> set whitespace \<Longrightarrow> norm sp = []"
  by (induction sp) (auto simp: norm_simps)

lemma peek_skip: "peek b (skip_ws b s) toks = peek b s toks"
  using skip_ws_end [of b s] skip_ws_same [of "skip_ws b s" b] by (cases "skip_ws b s < length b") (simp_all add: peek_def)

lemma parse_skip:
  "parseexec n b (skip_ws b s) = parseexec n b s" "parsepipe n b (skip_ws b s) = parsepipe n b s" "parseline n b (skip_ws b s) = parseline n b s"
proof -
  show e: "parseexec n b (skip_ws b s) = parseexec n b s" for n by (cases n) (simp_all add: parseexec.simps peek_skip)
  show p: "parsepipe n b (skip_ws b s) = parsepipe n b s" for n by (cases n) (simp_all add: parsepipe.simps e)
  show "parseline n b (skip_ws b s) = parseline n b s" by (cases n) (simp_all add: parseline.simps p)
qed

lemma parse_back:
  assumes "printable a" "set sp \<subseteq> set whitespace"
  shows "\<exists>c m. parsecmd (print_cmd a @ sp) = Inr (c, m) \<and> map_cmd (\<lambda>w. cstring m (fst w)) c = a"
proof -
  let ?b = "print_cmd a @ sp"
  have z: "0 \<notin> set ?b" using print_nonzero [OF assms(1)] assms(2) by (auto simp: whitespace_def)
  have sp: "norm sp = []" "stops sp" using norm_spaces [OF assms(2)] by (simp_all add: stops_def)
  have h: "here ?b (skip_ws ?b 0) (norm (print_cmd a @ sp))" by (rule skip_here) (simp add: here_def)
  have "4 * (length ?b - skip_ws ?b 0) + 4 \<le> 4 * length ?b + 4" by simp
  from reads_all [OF assms(1), of ?b, unfolded reads_def, rule_format, OF h sp(2) this] obtain c s where c: "parseline (4 * length ?b + 4) ?b 0 = Inr (c, s)" "here ?b s []" "map_cmd (txt_of ?b) c = a"
    unfolding parse_skip(3) sp(1) by blast
  have p: "peek ?b s [] = (s, False)" using peek_here [OF c(2)] by (simp add: norm_simps)
  have "parsecmd ?b = Inr (c, nulterminate c (?b @ [0]))" using c(1) p here_Nil [OF c(2)] by (simp add: parsecmd_def)
  moreover have "\<forall>w \<in> set_cmd c. word_at ?b w"
    by (rule good_InrD(3) [OF _ c(1), of _ 0]) (use parse_good [OF z, of 0 "4 * length ?b + 4"] in simp)
  then have "map_cmd (\<lambda>w. cstring (nulterminate c (?b @ [0])) (fst w)) c = map_cmd (txt_of ?b) c"
    by (intro cmd.map_cong0) (use word_string [OF z] in \<open>auto simp: txt_of_def\<close>)
  ultimately show ?thesis using c(3) by auto
qed

text \<open>C33: Parsing what was printed. Every command, of programs with at most nine arguments, redirections, pipes, lists and background commands in any
  nesting, can be written down with parentheses so that \<open>parsecmd\<close> reads it back, also with white space such as the end of the line behind it: the tree it
  builds has the same shape, and its words are, as strings in the terminated buffer, the words of the command.\<close>

theorem parse_print:
  assumes "printable a" "set sp \<subseteq> set whitespace"
  shows "\<exists>c m. parsecmd (print_cmd a @ sp) = Inr (c, m) \<and> map_cmd (\<lambda>w. cstring m (fst w)) c = a"
  by (rule parse_back [OF assms])

theorem parse_print_witness:
  "\<exists>c m. parsecmd [40, 40, 97, 32, 98, 32, 41, 62, 99, 32, 41, 124, 40, 100, 32, 41, 10] = Inr (c, m)
     \<and> map_cmd (\<lambda>w. cstring m (fst w)) c = PIPE (REDIR (EXEC [[97], [98]]) [99] 0x201 1) (EXEC [[100]])"
  using parse_print [of "PIPE (REDIR (EXEC [[97], [98]]) [99] 0x201 1) (EXEC [[100]])" "[10]"]
  by (simp add: word_ok_def plain_def whitespace_def symbols_def)

section \<open>Running commands\<close>

lemma programs_fork1: "programs (fork1 f) fds k = (case programs (f 0) fds k of (xs, k') \<Rightarrow> (case programs (f 1) fds k' of (ys, k'') \<Rightarrow> (xs @ ys, k'')))"
  by (simp add: fork1_def)

lemma fds_unfold: "std_fds h0 h1 h2 = [Some h0, Some h1, Some h2, None, None] @ replicate 11 None"
  by (simp add: std_fds_def numeral_eq_Suc)

lemma runcmd_programs:
  "redirs_ok c \<Longrightarrow> programs (runcmd m c) (std_fds h0 h1 h2) k = meaning (map_cmd (\<lambda>w. cstring m (fst w)) c) (std_fds h0 h1 h2) k"
proof (induction c arbitrary: h0 h1 h2 k)
  case (EXEC ws)
  have "map (\<lambda>(q, _). cstring m q) ws = map (\<lambda>w. cstring m (fst w)) ws" by (simp add: case_prod_beta)
  then show ?case by simp
next
  case (REDIR c f mode fd)
  let ?f = "cstring m (fst f)"
  have "install (File ?f mode) ((std_fds h0 h1 h2)[nat fd := None]) = (fd, (std_fds h0 h1 h2)[nat fd := Some (File ?f mode)])"
    using REDIR.prems by (auto simp: fds_unfold install_def lowest_def first_idx_def)
  moreover have "(std_fds h0 h1 h2)[nat fd := Some (File ?f mode)] = (if fd = 0 then std_fds (File ?f mode) h1 h2 else std_fds h0 (File ?f mode) h2)"
    using REDIR.prems by (auto simp: fds_unfold)
  ultimately show ?case using REDIR by auto
next
  case (PIPE l r)
  then show ?case
    by (simp add: programs_fork1 fds_unfold install_def lowest_def first_idx_def split: prod.split)
next
  case (LIST l r)
  then show ?case by (simp add: programs_fork1)
next
  case (BACK c)
  then show ?case by (simp add: programs_fork1 split: prod.split)
qed

lemma printable_redirs: "printable a \<Longrightarrow> redirs_ok a"
  by (induction a) auto

lemma redirs_map [simp]: "redirs_ok (map_cmd f c) = redirs_ok c"
  by (induction c) auto

lemma run_line:
  assumes "printable a" "set sp \<subseteq> set whitespace"
  shows "programs (case parsecmd (print_cmd a @ sp) of Inl e \<Rightarrow> fail e | Inr (cmd, m) \<Rightarrow> runcmd m cmd) (std_fds h0 h1 h2) k = meaning a (std_fds h0 h1 h2) k"
proof -
  obtain c m where c: "parsecmd (print_cmd a @ sp) = Inr (c, m)" "map_cmd (\<lambda>w. cstring m (fst w)) c = a" using parse_back [OF assms] by blast
  have "redirs_ok c" using printable_redirs [OF assms(1)] c(2) by (metis redirs_map)
  then show ?thesis using c runcmd_programs [of c m h0 h1 h2 k] by simp
qed

section \<open>A session\<close>

lemma print_no_newline: "printable a \<Longrightarrow> 10 \<notin> set (print_cmd a) \<and> 13 \<notin> set (print_cmd a)"
  by (induction a) (auto simp: word_ok_def plain_def whitespace_def)

lemma gets_line: "10 \<notin> set l \<Longrightarrow> 13 \<notin> set l \<Longrightarrow> length l < n \<Longrightarrow> gets n (l @ 10 # rest) = (l @ [10], rest)"
proof (induction l arbitrary: n)
  case Nil
  then show ?case by (cases n) auto
next
  case (Cons c l)
  then show ?case by (cases n) auto
qed

lemma getcmd_line:
  assumes "printable a" "length (print_cmd a) < 99"
  shows "getcmd 100 (print_cmd a @ 10 # rest) = (Some (print_cmd a @ [10]), rest)"
proof -
  have "takeWhile (\<lambda>c. c \<noteq> 0) (print_cmd a @ [10]) = print_cmd a @ [10]"
    unfolding takeWhile_eq_all_conv using print_nonzero [OF assms(1)] by auto
  then show ?thesis using gets_line [of "print_cmd a" 99 rest] print_no_newline [OF assms(1)] assms(2) by (simp add: getcmd_def Let_def)
qed



end
