(* ===== verification/Umalloc.thy ===== *)
theory Umalloc
  imports Kalloc
begin

text \<open>
  The allocator of the user library (\<open>umalloc.c\<close>): a circular list of free blocks, kept in the order of their addresses, whose headers lie in the
  blocks themselves. A header is the pointer to the next free block and, four bytes on, the size of the block in units of eight bytes.

  Memory is the byte memory of the process; a pointer is a 32-bit word. The system call \<open>sbrk\<close> is a parameter: a function of its own state and of
  the number of bytes asked for, which returns a pointer or -1. The loops run along the list and need not end on a list that is
  damaged, so they are partial functions.
\<close>

section \<open>Headers\<close>

definition hptr :: "bmem \<Rightarrow> uint \<Rightarrow> uint" where
  "hptr m p = load32 m (unat p)"

definition hsize :: "bmem \<Rightarrow> uint \<Rightarrow> uint" where
  "hsize m p = load32 m (unat p + 4)"

definition set_ptr :: "uint \<Rightarrow> uint \<Rightarrow> bmem \<Rightarrow> bmem" where
  "set_ptr p v m = store32 (unat p) v m"

definition set_size :: "uint \<Rightarrow> uint \<Rightarrow> bmem \<Rightarrow> bmem" where
  "set_size p v m = store32 (unat p + 4) v m"

text \<open>The process: its memory, the pointer \<open>freep\<close>, and what \<open>sbrk\<close> depends on.\<close>

record 'o uheap =
  umem :: bmem
  ufreep :: uint
  uos :: 'o

section \<open>Freeing\<close>

partial_function (option) free_find :: "bmem \<Rightarrow> uint \<Rightarrow> uint \<Rightarrow> uint option" where
  "free_find m bp p =
     (if bp > p \<and> bp < hptr m p then Some p
      else if p \<ge> hptr m p \<and> (bp > p \<or> bp < hptr m p) then Some p
      else free_find m bp (hptr m p))"

text \<open>The block is joined with the one behind it, or linked to it; then with the one in front of it.\<close>

definition free_next :: "uint \<Rightarrow> uint \<Rightarrow> bmem \<Rightarrow> bmem" where
  "free_next bp p m =
     (if bp + 8 * hsize m bp = hptr m p then
        (let m = set_size bp (hsize m bp + hsize m (hptr m p)) m
         in set_ptr bp (hptr m (hptr m p)) m)
      else set_ptr bp (hptr m p) m)"

definition free_prev :: "uint \<Rightarrow> uint \<Rightarrow> bmem \<Rightarrow> bmem" where
  "free_prev bp p m =
     (if p + 8 * hsize m p = bp then
        (let m = set_size p (hsize m p + hsize m bp) m
         in set_ptr p (hptr m bp) m)
      else set_ptr p bp m)"

definition free :: "uint \<Rightarrow> 'o uheap \<Rightarrow> 'o uheap option" where
  "free ap s =
     (let bp = ap - 8 in
      case free_find (umem s) bp (ufreep s) of
        None \<Rightarrow> None
      | Some p \<Rightarrow> Some (s\<lparr>umem := free_prev bp p (free_next bp p (umem s)), ufreep := p\<rparr>))"

section \<open>Allocating\<close>

definition morecore :: "('o \<Rightarrow> uint \<Rightarrow> uint \<times> 'o) \<Rightarrow> uint \<Rightarrow> 'o uheap \<Rightarrow> (uint \<times> 'o uheap) option" where
  "morecore sbrk nu s =
     (let nu = (if nu < 4096 then 4096 else nu) in
      case sbrk (uos s) (nu * 8) of
        (p, os) \<Rightarrow>
          if p = -1 then Some (0, s\<lparr>uos := os\<rparr>)
          else
            (case free (p + 8) (s\<lparr>umem := set_size p nu (umem s), uos := os\<rparr>) of
               None \<Rightarrow> None
             | Some s' \<Rightarrow> Some (ufreep s', s')))"

text \<open>A block \<open>p\<close> that is large enough is taken out of the list, or its tail is cut off.\<close>

definition take_block :: "uint \<Rightarrow> uint \<Rightarrow> uint \<Rightarrow> 'o uheap \<Rightarrow> uint \<times> 'o uheap" where
  "take_block nunits prevp p s =
     (let m = umem s in
      if hsize m p = nunits then (p + 8, s\<lparr>umem := set_ptr prevp (hptr m p) m, ufreep := prevp\<rparr>)
      else
        let m = set_size p (hsize m p - nunits) m;
            p = p + 8 * hsize m p;
            m = set_size p nunits m
        in (p + 8, s\<lparr>umem := m, ufreep := prevp\<rparr>))"

partial_function (option) malloc_loop ::
  "('o \<Rightarrow> uint \<Rightarrow> uint \<times> 'o) \<Rightarrow> uint \<Rightarrow> uint \<Rightarrow> uint \<Rightarrow> 'o uheap \<Rightarrow> (uint \<times> 'o uheap) option" where
  "malloc_loop sbrk nunits prevp p s =
     (if hsize (umem s) p \<ge> nunits then Some (take_block nunits prevp p s)
      else if p = ufreep s then
        (case morecore sbrk nunits s of
           None \<Rightarrow> None
         | Some (q, s') \<Rightarrow> if q = 0 then Some (0, s') else malloc_loop sbrk nunits q (hptr (umem s') q) s')
      else malloc_loop sbrk nunits p (hptr (umem s) p) s)"

text \<open>\<open>base\<close> is the address of the static variable of that name.\<close>

definition malloc :: "('o \<Rightarrow> uint \<Rightarrow> uint \<times> 'o) \<Rightarrow> uint \<Rightarrow> uint \<Rightarrow> 'o uheap \<Rightarrow> (uint \<times> 'o uheap) option" where
  "malloc sbrk base nbytes s =
     (let nunits = (nbytes + 8 - 1) div 8 + 1;
          s = (if ufreep s = 0 then s\<lparr>umem := set_size base 0 (set_ptr base base (umem s)), ufreep := base\<rparr> else s);
          prevp = ufreep s
      in malloc_loop sbrk nunits prevp (hptr (umem s) prevp) s)"

section \<open>The free list\<close>

text \<open>The list from \<open>p\<close> to \<open>q\<close> runs through the blocks \<open>xs\<close>, each an address and a size.\<close>

fun seg :: "bmem \<Rightarrow> uint \<Rightarrow> (uint \<times> uint) list \<Rightarrow> uint \<Rightarrow> bool" where
  "seg m p [] q \<longleftrightarrow> p = q"
| "seg m p ((a, n) # xs) q \<longleftrightarrow> p = a \<and> hsize m a = n \<and> seg m (hptr m a) xs q"

text \<open>The blocks lie behind \<open>lo\<close>, in ascending order, with something between two of them, and below the kernel.\<close>

fun ordered :: "nat \<Rightarrow> (uint \<times> uint) list \<Rightarrow> bool" where
  "ordered lo [] \<longleftrightarrow> lo \<le> 2 ^ 31"
| "ordered lo ((a, n) # xs) \<longleftrightarrow> lo < unat a \<and> 0 < unat n \<and> ordered (unat a + 8 * unat n) xs"

fun cells :: "(uint \<times> uint) list \<Rightarrow> nat set" where
  "cells [] = {}"
| "cells ((a, n) # xs) = {unat a..<unat a + 8 * unat n} \<union> cells xs"

definition ulist_ok :: "uint \<Rightarrow> (uint \<times> uint) list \<Rightarrow> 'o uheap \<Rightarrow> bool" where
  "ulist_ok base bs s \<longleftrightarrow> 0 < unat base \<and> ordered (unat base + 7) bs \<and> seg (umem s) base ((base, 0) # bs) base
     \<and> ufreep s \<in> set (base # map fst bs)"

section \<open>Headers that do not overlap\<close>

definition apart :: "uint \<Rightarrow> uint \<Rightarrow> bool" where
  "apart p q \<longleftrightarrow> unat p + 8 \<le> unat q \<or> unat q + 8 \<le> unat p"

text \<open>Where the last block ends.\<close>

definition fin :: "nat \<Rightarrow> (uint \<times> uint) list \<Rightarrow> nat" where
  "fin lo xs = (if xs = [] then lo else unat (fst (last xs)) + 8 * unat (snd (last xs)))"

text \<open>A block between the blocks \<open>xs\<close> and \<open>ys\<close>.\<close>

definition between :: "nat \<Rightarrow> (uint \<times> uint) list \<Rightarrow> uint \<Rightarrow> uint \<Rightarrow> (uint \<times> uint) list \<Rightarrow> bool" where
  "between lo xs bp n ys \<longleftrightarrow> ordered lo (xs @ ys) \<and> fin lo xs \<le> unat bp \<and> lo < unat bp \<and> 0 < unat n \<and> unat bp + 8 * unat n \<le> 2 ^ 31
     \<and> (ys \<noteq> [] \<longrightarrow> unat bp + 8 * unat n \<le> unat (fst (hd ys)))"

text \<open>The list after a block has been put back: it is joined with its neighbours where they touch.\<close>

definition join_right :: "uint \<Rightarrow> uint \<Rightarrow> (uint \<times> uint) list \<Rightarrow> (uint \<times> uint) list" where
  "join_right bp n ys = (if ys \<noteq> [] \<and> unat bp + 8 * unat n = unat (fst (hd ys)) then (bp, n + snd (hd ys)) # tl ys else (bp, n) # ys)"

definition join_left :: "(uint \<times> uint) list \<Rightarrow> (uint \<times> uint) list \<Rightarrow> (uint \<times> uint) list" where
  "join_left xs r = (if xs \<noteq> [] \<and> fin 0 xs = unat (fst (hd r)) then butlast xs @ (fst (last xs), snd (last xs) + snd (hd r)) # tl r else xs @ r)"

definition block :: "uint \<Rightarrow> uint \<Rightarrow> nat set" where
  "block a n = {unat a..<unat a + 8 * unat n}"

definition given :: "uint \<Rightarrow> (uint \<times> uint) list \<Rightarrow> 'o uheap \<Rightarrow> uint \<Rightarrow> uint \<Rightarrow> (uint \<times> uint) list \<Rightarrow> 'o uheap \<Rightarrow> bool" where
  "given base bs s n a bs' s' \<longleftrightarrow> ulist_ok base bs' s' \<and> hsize (umem s') a = n \<and> block a n \<inter> cells bs' = {} \<and> block a n \<union> cells bs' = cells bs
     \<and> uos s' = uos s \<and> (\<forall>c. c \<notin> cells bs \<union> {unat base..<unat base + 8} \<longrightarrow> umem s' c = umem s c)"

text \<open>The system call hands out memory above the break, below the kernel, or refuses.\<close>

definition sbrk_grows :: "('o \<Rightarrow> uint \<Rightarrow> uint \<times> 'o) \<Rightarrow> ('o \<Rightarrow> nat) \<Rightarrow> bool" where
  "sbrk_grows sbrk brk \<longleftrightarrow> (\<forall>os n p os'. brk os \<le> 2 ^ 31 \<longrightarrow> unat n < 2 ^ 31 \<longrightarrow> sbrk os n = (p, os') \<longrightarrow>
     brk os \<le> brk os' \<and> brk os' \<le> 2 ^ 31 \<and> (p \<noteq> -1 \<longrightarrow> brk os \<le> unat p \<and> unat p + unat n \<le> brk os'))"

fun disjoint_blocks :: "(uint \<times> uint) list \<Rightarrow> bool" where
  "disjoint_blocks [] \<longleftrightarrow> True"
| "disjoint_blocks ((a, n) # bs) \<longleftrightarrow> 0 < unat n \<and> block a n \<inter> cells bs = {} \<and> disjoint_blocks bs"

text \<open>The free blocks \<open>bs\<close> and the blocks in use \<open>live\<close>: none overlaps another, all lie between \<open>base\<close> and the break, and every block in use has its
  size in its header. Before the first call there is no list.\<close>

definition heap_inv :: "uint \<Rightarrow> ('o \<Rightarrow> nat) \<Rightarrow> (uint \<times> uint) list \<Rightarrow> (uint \<times> uint) list \<Rightarrow> 'o uheap \<Rightarrow> bool" where
  "heap_inv base brk bs live s \<longleftrightarrow>
     (if ufreep s = 0 then bs = [] \<and> live = [] \<and> 0 < unat base else ulist_ok base bs s)
     \<and> unat base + 8 \<le> brk (uos s) \<and> brk (uos s) \<le> 2 ^ 31
     \<and> cells bs \<union> cells live \<subseteq> {unat base + 8..<brk (uos s)} \<and> cells bs \<inter> cells live = {}
     \<and> disjoint_blocks live \<and> (\<forall>(a, n) \<in> set live. hsize (umem s) a = n)"

text \<open>The list that the first call sets up.\<close>

definition started :: "uint \<Rightarrow> 'o uheap \<Rightarrow> 'o uheap" where
  "started base s = (if ufreep s = 0 then s\<lparr>umem := set_size base 0 (set_ptr base base (umem s)), ufreep := base\<rparr> else s)"

text \<open>A system that moves the break.\<close>

definition brk_demo :: "nat \<Rightarrow> uint \<Rightarrow> uint \<times> nat" where
  "brk_demo b n = (if b + unat n \<le> 2 ^ 31 then (of_nat b, b + unat n) else (-1, b))"

definition used_demo :: "nat uheap" where
  "used_demo = \<lparr>umem = store32 0x2004 2 (store32 0x1000 0x1000 (\<lambda>_. 0)), ufreep = 0x1000, uos = 0x3000\<rparr>"

lemma header_same [simp]:
  "hptr (set_ptr p v m) p = v" "hsize (set_size p v m) p = v" "hsize (set_ptr p v m) p = hsize m p" "hptr (set_size p v m) p = hptr m p"
  by (simp_all add: hptr_def hsize_def set_ptr_def set_size_def load32_store32_same load32_store32_other)

lemma header_apart:
  assumes "apart p q"
  shows "hptr (set_ptr p v m) q = hptr m q" "hsize (set_size p v m) q = hsize m q" "hsize (set_ptr p v m) q = hsize m q" "hptr (set_size p v m) q = hptr m q"
  using assms by (auto simp: apart_def hptr_def hsize_def set_ptr_def set_size_def load32_store32_other)

lemma header_mem:
  "c < unat p \<or> unat p + 8 \<le> c \<Longrightarrow> set_ptr p v m c = m c" "c < unat p \<or> unat p + 8 \<le> c \<Longrightarrow> set_size p v m c = m c"
  by (auto simp: set_ptr_def set_size_def store32_other)

lemma unat_end: "unat a + 8 * unat n < 2 ^ 32 \<Longrightarrow> unat (a + 8 * n) = unat a + 8 * unat (n :: uint)"
proof -
  assume h: "unat a + 8 * unat n < 2 ^ 32"
  have "unat (8 * n) = 8 * unat n" using h by (simp add: unat_word_ariths)
  then show ?thesis using h by (simp add: unat_word_ariths)
qed

lemma unat_sum: "unat a + unat n < 2 ^ 32 \<Longrightarrow> unat (a + n :: uint) = unat a + unat n"
  by (simp add: unat_word_ariths)

section \<open>Segments of the list\<close>

lemma seg_append: "seg m p (xs @ ys) q \<longleftrightarrow> (\<exists>r. seg m p xs r \<and> seg m r ys q)"
  by (induction m p xs q rule: seg.induct) auto

lemma seg_cong: "\<forall>x \<in> set xs. hptr m' (fst x) = hptr m (fst x) \<and> hsize m' (fst x) = hsize m (fst x) \<Longrightarrow> seg m' p xs q = seg m p xs q"
  by (induction m p xs q rule: seg.induct) auto

lemma seg_last: "seg m p (xs @ [(a, n)]) q \<longleftrightarrow> seg m p xs a \<and> hsize m a = n \<and> hptr m a = q"
  by (auto simp: seg_append)

lemma seg_final: "seg m p xs q \<Longrightarrow> xs \<noteq> [] \<Longrightarrow> hptr m (fst (last xs)) = q"
  by (cases xs rule: rev_cases) (auto simp: seg_append)

lemma cells_append [simp]: "cells (xs @ ys) = cells xs \<union> cells ys"
  by (induction xs rule: cells.induct) auto

lemma ordered_le: "ordered lo xs \<Longrightarrow> lo \<le> 2 ^ 31"
  by (induction lo xs rule: ordered.induct) auto

lemma ordered_append: "ordered lo (xs @ ys) \<longleftrightarrow> ordered lo xs \<and> ordered (fin lo xs) ys"
proof (induction lo xs rule: ordered.induct)
  case (1 lo)
  then show ?case using ordered_le by (auto simp: fin_def)
next
  case (2 lo a n xs)
  then show ?case by (auto simp: fin_def)
qed

lemma fin_Cons: "fin lo ((a, n) # xs) = fin (unat a + 8 * unat n) xs"
  by (simp add: fin_def)

lemma ordered_fin: "ordered lo xs \<Longrightarrow> lo \<le> fin lo xs \<and> fin lo xs \<le> 2 ^ 31"
proof (induction lo xs rule: ordered.induct)
  case (1 lo)
  then show ?case by (simp add: fin_def)
next
  case (2 lo a n xs)
  then show ?case by (simp add: fin_Cons)
qed

lemma ordered_in: "ordered lo xs \<Longrightarrow> (a, n) \<in> set xs \<Longrightarrow> lo < unat a \<and> 0 < unat n \<and> unat a + 8 * unat n \<le> fin lo xs"
proof (induction lo xs rule: ordered.induct)
  case (2 lo b k xs)
  then show ?case using ordered_fin [of "unat b + 8 * unat k" xs] by (auto simp: fin_Cons)
qed simp

lemma ordered_lower: "ordered lo xs \<Longrightarrow> lo' \<le> lo \<Longrightarrow> ordered lo' xs"
  by (cases "(lo, xs)" rule: ordered.cases) auto

lemma cells_bound: "ordered lo xs \<Longrightarrow> c \<in> cells xs \<Longrightarrow> lo < c \<and> c < fin lo xs"
proof (induction xs arbitrary: lo rule: cells.induct)
  case (2 a n xs)
  have "c \<in> cells xs \<Longrightarrow> unat a + 8 * unat n < c \<and> c < fin (unat a + 8 * unat n) xs" using 2 by simp
  then show ?case using ordered_fin [of "unat a + 8 * unat n" xs] "2.prems" by (auto simp: fin_Cons)
qed simp

section \<open>Freeing\<close>

lemma find_between:
  assumes "ordered lo bs" "lo < unat bp" "0 < unat n" "unat bp + 8 * unat n \<le> 2 ^ 31" "{unat bp..<unat bp + 8 * unat n} \<inter> cells bs = {}"
  shows "\<exists>xs ys. bs = xs @ ys \<and> between lo xs bp n ys"
proof (intro exI conjI)
  let ?P = "\<lambda>x :: uint \<times> uint. unat (fst x) < unat bp"
  let ?xs = "takeWhile ?P bs" and ?ys = "dropWhile ?P bs"
  show "bs = ?xs @ ?ys" by simp
  have cell: "c \<in> cells xs" if "(a, k) \<in> set xs" "unat a \<le> c" "c < unat a + 8 * unat k" for a k c xs
    using that by (induction xs rule: cells.induct) auto
  have clash: False if "(a, k) \<in> set bs" "unat a \<le> c" "c < unat a + 8 * unat k" "unat bp \<le> c" "c < unat bp + 8 * unat n" for a k c
    using cell [OF that(1-3)] that(4,5) assms(5) by auto
  have "fin lo ?xs \<le> unat bp"
  proof (cases "?xs = []")
    case False
    obtain a k where l: "last ?xs = (a, k)" by fastforce
    have "(a, k) \<in> set ?xs" using last_in_set [OF False] l by simp
    then have "(a, k) \<in> set bs" "unat a < unat bp" using set_takeWhileD by fastforce+
    then show ?thesis using clash [of a k "unat bp"] False l assms(3) by (fastforce simp: fin_def)
  qed (use assms(2) in \<open>simp add: fin_def\<close>)
  moreover have "unat bp + 8 * unat n \<le> unat (fst (hd ?ys))" if "?ys \<noteq> []"
  proof -
    obtain a k where h: "hd ?ys = (a, k)" by fastforce
    have m: "(a, k) \<in> set bs" using hd_in_set [OF that] h by (metis set_dropWhileD)
    have "unat bp \<le> unat a" using hd_dropWhile [OF that] h by (simp add: not_less)
    then show ?thesis using clash [OF m, of "unat a"] ordered_in [OF assms(1) m] h by fastforce
  qed
  ultimately show "between lo ?xs bp n ?ys" using assms by (simp add: between_def)
qed

text \<open>The search ends at the block in front.\<close>

lemma seg_first: "seg m p (x # xs) q \<Longrightarrow> p = fst x"
  by (cases x) auto

lemma find_up:
  assumes "seg m p xs q" "xs \<noteq> []" "\<forall>x \<in> set xs. unat (fst x) < unat bp" "sorted_wrt (\<lambda>x y. unat (fst x) < unat (fst y)) xs"
    and "unat bp < unat q \<or> unat q \<le> unat (fst (last xs))"
  shows "free_find m bp p = Some (fst (last xs))"
  using assms
proof (induction xs arbitrary: p)
  case (Cons x xs)
  obtain a n where x: "x = (a, n)" by fastforce
  have p: "p = a" "seg m (hptr m a) xs q" using Cons.prems(1) x by auto
  show ?case
  proof (cases "xs = []")
    case True
    then show ?thesis using p x Cons.prems(3,5) by (subst free_find.simps) (auto simp: word_less_nat_alt word_le_nat_alt)
  next
    case False
    then obtain y ys where y: "xs = y # ys" by (cases xs) auto
    have h: "hptr m a = fst y" using seg_first p(2) y by simp
    have "free_find m bp p = free_find m bp (hptr m a)"
      using h p(1) x y Cons.prems(3,4) by (subst free_find.simps) (auto simp: word_less_nat_alt word_le_nat_alt)
    also have "\<dots> = Some (fst (last xs))" using Cons.IH [OF p(2) False] Cons.prems x False by simp
    finally show ?thesis using False by simp
  qed
qed simp

lemma find_round:
  assumes "seg m p ys q" "\<forall>y \<in> set ys. unat bp < unat (fst y)" "sorted_wrt (\<lambda>x y. unat (fst x) < unat (fst y)) ys" "unat q < unat bp"
  shows "free_find m bp p = free_find m bp q"
  using assms
proof (induction ys arbitrary: p)
  case (Cons x xs)
  obtain a n where x: "x = (a, n)" by fastforce
  have p: "p = a" "seg m (hptr m a) xs q" using Cons.prems(1) x by auto
  have "hptr m a = q \<or> unat a < unat (hptr m a)"
  proof (cases xs)
    case (Cons y ys)
    then show ?thesis using seg_first [of m "hptr m a" y ys q] p(2) Cons.prems(3) x by auto
  qed (use p in simp)
  then have "free_find m bp p = free_find m bp (hptr m a)"
    using p(1) x Cons.prems(2,4) by (subst free_find.simps) (auto simp: word_less_nat_alt word_le_nat_alt)
  then show ?case using Cons.IH [OF p(2)] Cons.prems by simp
qed simp

lemma ordered_sorted: "ordered lo xs \<Longrightarrow> sorted_wrt (\<lambda>x y. unat (fst x) < unat (fst y)) xs"
proof (induction lo xs rule: ordered.induct)
  case (2 lo a n xs)
  have "unat a < unat (fst y)" if "y \<in> set xs" for y using ordered_in [of "unat a + 8 * unat n" xs "fst y" "snd y"] that 2(2) by simp
  then show ?case using 2 by simp
qed simp

lemma between_less:
  assumes "between (unat base + 7) xs bp n ys"
  shows "\<forall>x \<in> set ((base, 0) # xs). unat (fst x) < unat bp" "\<forall>y \<in> set ys. unat bp + 8 * unat n \<le> unat (fst y)"
    "sorted_wrt (\<lambda>x y. unat (fst x) < unat (fst y)) ((base, 0) # xs)" "sorted_wrt (\<lambda>x y. unat (fst x) < unat (fst y)) ys"
proof -
  have o: "ordered (unat base + 7) xs" "ordered (fin (unat base + 7) xs) ys" "fin (unat base + 7) xs \<le> unat bp" "unat base + 7 < unat bp"
    using assms by (simp_all add: between_def ordered_append)
  have x: "unat base + 7 < unat (fst x) \<and> 0 < unat (snd x) \<and> unat (fst x) + 8 * unat (snd x) \<le> fin (unat base + 7) xs" if "x \<in> set xs" for x
    using ordered_in [OF o(1), of "fst x" "snd x"] that by simp
  have "unat (fst x) < unat bp" if "x \<in> set xs" for x using x [OF that] o(3) by linarith
  then show "\<forall>x \<in> set ((base, 0) # xs). unat (fst x) < unat bp" using o(4) by simp
  have "unat base < unat (fst x)" if "x \<in> set xs" for x using x [OF that] by linarith
  then show "sorted_wrt (\<lambda>x y. unat (fst x) < unat (fst y)) ((base, 0) # xs)" using ordered_sorted [OF o(1)] by simp
  show s: "sorted_wrt (\<lambda>x y. unat (fst x) < unat (fst y)) ys" by (rule ordered_sorted [OF o(2)])
  show "\<forall>y \<in> set ys. unat bp + 8 * unat n \<le> unat (fst y)"
  proof (cases ys)
    case (Cons y zs)
    have "unat bp + 8 * unat n \<le> unat (fst y)" using assms Cons by (simp add: between_def)
    moreover have "\<forall>z \<in> set zs. unat (fst y) < unat (fst z)" using s Cons by simp
    ultimately show ?thesis using Cons by (simp add: less_imp_le order_trans)
  qed simp
qed

lemma split_node:
  assumes "p \<in> fst ` set xs"
  shows "\<exists>us vs. xs = us @ vs \<and> vs \<noteq> [] \<and> p = fst (hd vs)"
proof -
  obtain x where "x \<in> set xs" "p = fst x" using assms by blast
  moreover obtain us vs where "xs = us @ x # vs" using split_list calculation(1) by fastforce
  ultimately show ?thesis by (intro exI [of _ us] exI [of _ "x # vs"]) simp
qed

lemma find_place:
  assumes h: "ulist_ok base (xs @ ys) s" and b: "between (unat base + 7) xs bp n ys"
  shows "free_find (umem s) bp (ufreep s) = Some (fst (last ((base, 0) # xs)))"
proof -
  let ?m = "umem s" and ?V = "(base, 0) # xs"
  note l = between_less [OF b]
  have "seg ?m base (?V @ ys) base" using h by (simp add: ulist_ok_def)
  then obtain q where q: "seg ?m base ?V q" "seg ?m q ys base" unfolding seg_append by blast
  have "0 < unat n" using b by (simp add: between_def)
  then have lt: "\<forall>y \<in> set ys. unat bp < unat (fst y)" using l(2) by fastforce
  have bl: "unat base \<le> unat (fst (last ?V))" 
  proof (cases "xs = []")
    case False
    then show ?thesis using l(3) last_in_set [OF False] by (simp add: less_imp_le)
  qed simp
  have qb: "unat bp < unat q \<or> unat q \<le> unat (fst (last ?V))"
  proof (cases ys)
    case Nil
    then show ?thesis using q(2) bl by simp
  next
    case (Cons y zs)
    then show ?thesis using seg_first [of ?m q y zs base] q(2) lt by simp
  qed
  have up: "free_find ?m bp (fst (hd vs)) = Some (fst (last ?V))" if v: "?V = us @ vs" "vs \<noteq> []" for us vs
  proof -
    obtain r where r: "seg ?m base us r" "seg ?m r vs q" using q(1) unfolding v(1) seg_append by blast
    have "r = fst (hd vs)" using r(2) v(2) seg_first by (cases vs) auto
    moreover have "last vs = last ?V" using v by simp
    moreover have "\<forall>x \<in> set vs. unat (fst x) < unat bp" "sorted_wrt (\<lambda>x y. unat (fst x) < unat (fst y)) vs"
      using l(1,3) unfolding v(1) by (simp_all add: sorted_wrt_append)
    ultimately show ?thesis using find_up [OF r(2) v(2)] qb by simp
  qed
  have start: "free_find ?m bp base = Some (fst (last ?V))" using up [of "[]" ?V] by simp
  show ?thesis
  proof (cases "ufreep s \<in> fst ` set ?V")
    case True
    obtain us vs where "?V = us @ vs" "vs \<noteq> []" "ufreep s = fst (hd vs)" using split_node [OF True] by blast
    then show ?thesis using up by simp
  next
    case False
    then have y: "ufreep s \<in> fst ` set ys" using h by (auto simp: ulist_ok_def)
    obtain us vs where v: "ys = us @ vs" "vs \<noteq> []" "ufreep s = fst (hd vs)" using split_node [OF y] by blast
    obtain r where r: "seg ?m r vs base" using q(2) unfolding v(1) seg_append by blast
    have "r = ufreep s" using r v seg_first by (cases vs) auto
    moreover have "free_find ?m bp r = free_find ?m bp base"
      by (rule find_round [OF r]) (use lt l(1,4) v(1) in \<open>simp_all add: sorted_wrt_append\<close>)
    ultimately show ?thesis using start by simp
  qed
qed

lemma unat_sizes: "unat a + 8 * (unat n + unat k) \<le> 2 ^ 31 \<Longrightarrow> unat (n + k :: uint) = unat n + unat k"
  by (rule unat_sum) simp

lemma join_right_ordered:
  assumes "between lo xs bp n ys" "lo2 < unat bp"
  shows "ordered lo2 (join_right bp n ys)" "fst (hd (join_right bp n ys)) = bp" "join_right bp n ys \<noteq> []"
    "cells (join_right bp n ys) = {unat bp..<unat bp + 8 * unat n} \<union> cells ys"
proof -
  have b: "ordered (fin lo xs) ys" "0 < unat n" "unat bp + 8 * unat n \<le> 2 ^ 31" "ys \<noteq> [] \<Longrightarrow> unat bp + 8 * unat n \<le> unat (fst (hd ys))"
    using assms(1) by (simp_all add: between_def ordered_append)
  show "fst (hd (join_right bp n ys)) = bp" "join_right bp n ys \<noteq> []" by (simp_all add: join_right_def)
  have "ordered lo2 (join_right bp n ys) \<and> cells (join_right bp n ys) = {unat bp..<unat bp + 8 * unat n} \<union> cells ys"
  proof (cases ys)
    case Nil
    then show ?thesis using b assms(2) by (simp add: join_right_def)
  next
    case (Cons y zs)
    obtain a k where y: "y = (a, k)" by fastforce
    have o: "0 < unat k" "ordered (unat a + 8 * unat k) zs" "unat bp + 8 * unat n \<le> unat a" using b(1,4) Cons y by auto
    show ?thesis
    proof (cases "unat bp + 8 * unat n = unat a")
      case True
      have "unat bp + 8 * (unat n + unat k) \<le> 2 ^ 31" using ordered_le [OF o(2)] True by simp
      note u = unat_sizes [OF this]
      have e: "unat bp + 8 * unat (n + k) = unat a + 8 * unat k" using u True by simp
      have "0 < unat (n + k)" using u b(2) by simp
      moreover have "cells (join_right bp n ys) = {unat bp..<unat a + 8 * unat k} \<union> cells zs" using True Cons y e by (simp add: join_right_def)
      ultimately show ?thesis using True Cons y o(2,3) assms(2) e by (auto simp: join_right_def)
    next
      case False
      then show ?thesis using Cons y o b(2) assms(2) by (auto simp: join_right_def)
    qed
  qed
  then show "ordered lo2 (join_right bp n ys)" "cells (join_right bp n ys) = {unat bp..<unat bp + 8 * unat n} \<union> cells ys" by auto
qed

lemma join_left_ordered:
  assumes "ordered lo xs" "r \<noteq> []" "\<And>lo2. lo2 < unat (fst (hd r)) \<Longrightarrow> ordered lo2 r" "fin lo xs \<le> unat (fst (hd r))" "lo < unat (fst (hd r))"
  shows "ordered lo (join_left xs r)" "cells (join_left xs r) = cells xs \<union> cells r"
proof -
  obtain a k zs where r: "r = (a, k) # zs" using assms(2) by (cases r) auto
  have k: "0 < unat k" "ordered (unat a + 8 * unat k) zs" using assms(3) [of lo] assms(5) r by auto
  have "ordered lo (join_left xs r) \<and> cells (join_left xs r) = cells xs \<union> cells r"
  proof (cases "xs \<noteq> [] \<and> fin 0 xs = unat a")
    case False
    then have "fin lo xs < unat a" using assms(4,5) r by (auto simp: fin_def)
    then show ?thesis using False r assms(1,3) by (auto simp: join_left_def ordered_append)
  next
    case True
    obtain us p n where xs: "xs = us @ [(p, n)]" using True by (metis prod.collapse append_butlast_last_id)
    have o: "ordered lo us" "fin lo us < unat p" "0 < unat n" using assms(1) xs by (simp_all add: ordered_append)
    have e: "unat p + 8 * unat n = unat a" using True xs by (simp add: fin_def)
    have "unat p + 8 * (unat n + unat k) \<le> 2 ^ 31" using ordered_le [OF k(2)] e by simp
    note u = unat_sizes [OF this]
    have e2: "unat p + 8 * unat (n + k) = unat a + 8 * unat k" using u e by simp
    show ?thesis using True xs r o k u e e2 by (auto simp: join_left_def ordered_append)
  qed
  then show "ordered lo (join_left xs r)" "cells (join_left xs r) = cells xs \<union> cells r" by auto
qed

lemma ordered_apart:
  assumes "ordered lo (us @ (a, n) # vs)"
  shows "\<forall>x \<in> set us. apart a (fst x)" "\<forall>x \<in> set vs. apart a (fst x)"
proof -
  have o: "ordered lo us" "fin lo us < unat a" "0 < unat n" "ordered (unat a + 8 * unat n) vs" using assms by (simp_all add: ordered_append)
  show "\<forall>x \<in> set us. apart a (fst x)" using ordered_in [OF o(1)] o(2) by (fastforce simp: apart_def)
  show "\<forall>x \<in> set vs. apart a (fst x)" using ordered_in [OF o(4)] o(3) by (fastforce simp: apart_def)
qed

lemma apart_sym: "apart p q \<Longrightarrow> apart q p"
  by (auto simp: apart_def)

lemma free_next_other:
  "apart bp q \<Longrightarrow> hptr (free_next bp p m) q = hptr m q" "apart bp q \<Longrightarrow> hsize (free_next bp p m) q = hsize m q"
  "c < unat bp \<or> unat bp + 8 \<le> c \<Longrightarrow> free_next bp p m c = m c"
  by (simp_all add: free_next_def Let_def header_apart header_mem)

lemma free_prev_other:
  "apart p q \<Longrightarrow> hptr (free_prev bp p m) q = hptr m q" "apart p q \<Longrightarrow> hsize (free_prev bp p m) q = hsize m q"
  "c < unat p \<or> unat p + 8 \<le> c \<Longrightarrow> free_prev bp p m c = m c"
  by (simp_all add: free_prev_def Let_def header_apart header_mem)

lemma free_next_seg:
  assumes b: "between (unat base + 7) xs bp n ys" and n: "hsize m bp = n" and s: "seg m (hptr m p) ys base" and p: "apart bp p"
  shows "seg (free_next bp p m) bp (join_right bp n ys) base"
proof -
  have o: "0 < unat n" "unat base + 7 < unat bp" "unat bp + 8 * unat n \<le> 2 ^ 31" using b by (simp_all add: between_def)
  have e: "unat (bp + 8 * n) = unat bp + 8 * unat n" using o(3) by (simp add: unat_end)
  have ap: "\<forall>y \<in> set ys. apart bp (fst y)" using between_less(2) [OF b] o(1) by (fastforce simp: apart_def)
  have keep: "seg (free_next bp p m) r zs base = seg m r zs base" if "set zs \<subseteq> set ys" for r zs
    using subsetD [OF that] ap by (intro seg_cong ballI) (simp add: free_next_other)
  show ?thesis
  proof (cases ys)
    case Nil
    have "hptr m p = base" using s Nil by simp
    moreover have "bp + 8 * n \<noteq> base" using e o(2) by auto
    ultimately show ?thesis using Nil n by (simp add: join_right_def free_next_def)
  next
    case (Cons y zs)
    obtain a k where y: "y = (a, k)" by fastforce
    have a: "hptr m p = a" "hsize m a = k" "seg m (hptr m a) zs base" "apart bp a" using s Cons y ap by auto
    have k: "seg (free_next bp p m) (hptr m a) zs base" "seg (free_next bp p m) a ((a, k) # zs) base"
      using keep [of zs] keep [of ys] Cons y a s by auto
    show ?thesis
    proof (cases "unat bp + 8 * unat n = unat a")
      case True
      then have t: "bp + 8 * n = a" using e by (simp add: word_unat_eq_iff)
      have "hptr (free_next bp p m) bp = hptr m a" "hsize (free_next bp p m) bp = n + k"
        using t a n p by (simp_all add: free_next_def Let_def header_apart)
      then show ?thesis using True Cons y k(1) by (simp add: join_right_def)
    next
      case False
      then have t: "bp + 8 * n \<noteq> a" using e by auto
      have "hptr (free_next bp p m) bp = a" "hsize (free_next bp p m) bp = n" using t a n by (simp_all add: free_next_def)
      then show ?thesis using False Cons y k(2) by (simp add: join_right_def)
    qed
  qed
qed

lemma free_prev_seg:
  assumes o: "ordered (unat base + 7) xs" and r: "R = (bp, k) # zs" "ordered (unat base + 7) R"
    and f: "fin (unat base + 7) xs \<le> unat bp" and p: "p = fst (last ((base, 0) # xs))"
    and v: "seg m base ((base, 0) # xs) nxt" and s: "seg m bp R base"
  shows "seg (free_prev bp p m) base ((base, 0) # join_left xs R) base"
proof -
  let ?m = "free_prev bp p m"
  have rz: "\<forall>x \<in> set R. unat bp \<le> unat (fst x)" using r ordered_in [of "unat bp + 8 * unat k" zs] by fastforce
  show ?thesis
  proof (cases "xs = []")
    case True
    have b: "hsize m base = 0" "p = base" using v p True by simp_all
    have "\<forall>x \<in> set R. apart base (fst x)" using rz r by (auto simp: apart_def)
    then have "seg ?m bp R base = seg m bp R base" using b(2) by (intro seg_cong) (simp add: free_prev_other)
    moreover have "bp \<noteq> base" using r by auto
    ultimately show ?thesis using True b s by (simp add: join_left_def) (simp add: free_prev_def)
  next
    case False
    obtain us np where xs: "xs = us @ [(p, np)]" using False p by (metis append_butlast_last_id last.simps prod.collapse)
    have w: "seg m base ((base, 0) # us) p" "hsize m p = np" using v seg_last [of m base "(base, 0) # us" p np nxt] xs by simp_all
    have pos: "unat base + 7 < unat p" "0 < unat np" "unat p + 8 * unat np \<le> unat bp" "unat bp \<le> 2 ^ 31"
      using o f xs r ordered_le [of "unat bp + 8 * unat k" zs] ordered_in [OF o, of p np] by (auto simp: fin_def)
    have "\<forall>x \<in> set us. apart p (fst x)" using ordered_apart(1) [of "unat base + 7" us p np "[]"] o xs by simp
    moreover have "apart p base" using pos(1) by (auto simp: apart_def)
    ultimately have front: "seg ?m base ((base, 0) # us) p" using w(1) seg_cong [of "(base, 0) # us" ?m m base p] by (simp add: free_prev_other)
    have ar: "\<forall>x \<in> set R. apart p (fst x)" using rz pos by (fastforce simp: apart_def)
    then have rest: "seg ?m bp R base" using s seg_cong [of R ?m m bp base] by (simp add: free_prev_other)
    have e: "unat (p + 8 * np) = unat p + 8 * unat np" using pos by (simp add: unat_end)
    have ab: "apart p bp" using ar r by simp
    show ?thesis
    proof (cases "unat p + 8 * unat np = unat bp")
      case True
      then have t: "p + 8 * np = bp" using e by (simp add: word_unat_eq_iff)
      have h: "hptr ?m p = hptr m bp" "hsize ?m p = np + k" using t w(2) s r ab by (simp_all add: free_prev_def Let_def header_apart)
      have "seg ?m (hptr m bp) zs base" using rest r ab by (simp add: free_prev_other)
      then have "seg ?m base (((base, 0) # us) @ (p, np + k) # zs) base" unfolding seg_append using front h by auto
      moreover have "join_left xs R = us @ (p, np + k) # zs" using True xs r by (simp add: join_left_def fin_def)
      ultimately show ?thesis by simp
    next
      case False
      then have t: "p + 8 * np \<noteq> bp" using e by auto
      have h: "hptr ?m p = bp" "hsize ?m p = np" using t w(2) by (simp_all add: free_prev_def)
      have "seg ?m base (((base, 0) # us) @ (p, np) # R) base" unfolding seg_append using front h rest by auto
      moreover have "join_left xs R = us @ (p, np) # R" using False xs r by (simp add: join_left_def fin_def)
      ultimately show ?thesis by simp
    qed
  qed
qed

lemma joined:
  assumes b: "between (unat base + 7) xs bp n ys"
  shows "ordered (unat base + 7) (join_left xs (join_right bp n ys))"
    "cells (join_left xs (join_right bp n ys)) = cells (xs @ ys) \<union> {unat bp..<unat bp + 8 * unat n}"
    "fst (last ((base, 0) # xs)) \<in> set (base # map fst (join_left xs (join_right bp n ys)))"
    "\<exists>x \<in> set (join_left xs (join_right bp n ys)). unat n \<le> unat (snd x)"
proof -
  let ?R = "join_right bp n ys" and ?lo = "unat base + 7"
  have h: "ordered ?lo xs" "fin ?lo xs \<le> unat bp" "?lo < unat bp" "unat bp + 8 * unat n \<le> 2 ^ 31" "0 < unat n" using b by (simp_all add: between_def ordered_append)
  note R = join_right_ordered [OF b]
  have j: "ordered ?lo xs" "?R \<noteq> []" "\<And>lo2. lo2 < unat (fst (hd ?R)) \<Longrightarrow> ordered lo2 ?R" "fin ?lo xs \<le> unat (fst (hd ?R))" "?lo < unat (fst (hd ?R))"
    using h R by (simp_all add: R(2) [OF h(3)])
  show o: "ordered ?lo (join_left xs ?R)" by (rule join_left_ordered(1) [OF j])
  have "cells (join_left xs ?R) = cells xs \<union> cells ?R" by (rule join_left_ordered(2) [OF j])
  then show "cells (join_left xs ?R) = cells (xs @ ys) \<union> {unat bp..<unat bp + 8 * unat n}" using R(4) [OF h(3)] by auto
  show "fst (last ((base, 0) # xs)) \<in> set (base # map fst (join_left xs ?R))" by (cases xs rule: rev_cases) (auto simp: join_left_def)
  obtain k zs where r: "?R = (bp, k) # zs" using R(2,3) [OF h(3)] by (cases ?R) auto
  have rk: "unat n \<le> unat k" 
  proof (cases "ys \<noteq> [] \<and> unat bp + 8 * unat n = unat (fst (hd ys))")
    case True
    obtain a l ws where y: "ys = (a, l) # ws" using True by (cases ys) auto
    have "unat a + 8 * unat l \<le> 2 ^ 31" using b y ordered_le by (fastforce simp: between_def ordered_append)
    then show ?thesis using True y r unat_sizes [of bp n l] by (auto simp: join_right_def)
  qed (use r in \<open>auto simp: join_right_def\<close>)
  show "\<exists>x \<in> set (join_left xs ?R). unat n \<le> unat (snd x)"
  proof (cases "xs \<noteq> [] \<and> fin 0 xs = unat bp")
    case True
    obtain us p m where xs: "xs = us @ [(p, m)]" using True by (metis prod.collapse append_butlast_last_id)
    have j: "join_left xs ?R = us @ (p, m + k) # zs" using True xs r by (simp add: join_left_def)
    have "unat bp + 8 * unat k \<le> 2 ^ 31" using join_right_ordered(1) [OF b h(3)] r ordered_le by fastforce
    then have "unat (m + k) = unat m + unat k" using True xs by (intro unat_sizes [of p]) (simp add: fin_def)
    then show ?thesis using rk j by auto
  next
    case False
    then have "join_left xs ?R = xs @ (bp, k) # zs" using r by (auto simp: join_left_def)
    then show ?thesis using rk by auto
  qed
qed

lemma in_cells: "(a, k) \<in> set xs \<Longrightarrow> unat a \<le> c \<Longrightarrow> c < unat a + 8 * unat k \<Longrightarrow> c \<in> cells xs"
  by (induction xs rule: cells.induct) auto

lemma free_ok:
  assumes h: "ulist_ok base bs s" and n: "hsize (umem s) bp = n" "0 < unat n" "unat base + 7 < unat bp" "unat bp + 8 * unat n \<le> 2 ^ 31"
    and d: "{unat bp..<unat bp + 8 * unat n} \<inter> cells bs = {}"
  shows "\<exists>s' bs'. free (bp + 8) s = Some s' \<and> ulist_ok base bs' s' \<and> cells bs' = cells bs \<union> {unat bp..<unat bp + 8 * unat n} \<and> uos s' = uos s
    \<and> (\<exists>x \<in> set bs'. unat n \<le> unat (snd x))
    \<and> (\<forall>c. c \<notin> cells bs \<union> {unat bp..<unat bp + 8 * unat n} \<union> {unat base..<unat base + 8} \<longrightarrow> umem s' c = umem s c)"
proof -
  have o: "ordered (unat base + 7) bs" "0 < unat base" using h by (simp_all add: ulist_ok_def)
  obtain xs ys where xy: "bs = xs @ ys" "between (unat base + 7) xs bp n ys" using find_between [OF o(1) n(3,2,4) d] by blast
  let ?p = "fst (last ((base, 0) # xs))" and ?m = "umem s"
  let ?m1 = "free_next bp ?p ?m"
  have f: "free_find ?m bp (ufreep s) = Some ?p" using find_place h xy by blast
  have b: "ordered (unat base + 7) xs" "fin (unat base + 7) xs \<le> unat bp" using xy(2) by (simp_all add: between_def ordered_append)
  have "seg ?m base (((base, 0) # xs) @ ys) base" using h xy(1) by (simp add: ulist_ok_def)
  then obtain nxt where q: "seg ?m base ((base, 0) # xs) nxt" "seg ?m nxt ys base" unfolding seg_append by blast
  have np: "nxt = hptr ?m ?p" using seg_final [OF q(1)] by simp
  have x: "apart bp (fst x)" if "x \<in> set ((base, 0) # xs)" for x
    using that n(3) ordered_in [OF b(1), of "fst x" "snd x"] b(2) by (auto simp: apart_def)
  have pin: "last ((base, 0) # xs) \<in> set ((base, 0) # xs)" by (rule last_in_set) simp
  have ap: "apart bp ?p" by (rule x [OF pin])
  have "seg ?m (hptr ?m ?p) ys base" using q(2) np by simp
  note s1 = free_next_seg [OF xy(2) n(1) this ap]
  have v1: "seg ?m1 base ((base, 0) # xs) nxt" using q(1) x seg_cong [of "(base, 0) # xs" ?m1 ?m] by (simp add: free_next_other del: seg.simps)
  obtain k zs where R: "join_right bp n ys = (bp, k) # zs" using join_right_ordered(2,3) [OF xy(2) n(3)] by (cases "join_right bp n ys") auto
  have "seg (free_prev bp ?p ?m1) base ((base, 0) # join_left xs (join_right bp n ys)) base"
    by (rule free_prev_seg [OF b(1) R _ b(2) refl v1 s1]) (rule join_right_ordered(1) [OF xy(2) n(3)])
  moreover have "free_prev bp ?p ?m1 c = ?m c" if "c \<notin> cells bs \<union> {unat bp..<unat bp + 8 * unat n} \<union> {unat base..<unat base + 8}" for c
  proof -
    have "c < unat ?p \<or> unat ?p + 8 \<le> c"
    proof (cases "xs = []")
      case False
      then have "(?p, snd (last xs)) \<in> set bs" using xy(1) by simp
      then show ?thesis using that in_cells [of ?p "snd (last xs)" bs c] ordered_in [OF o(1)] by fastforce
    qed (use that in auto)
    moreover have "c < unat bp \<or> unat bp + 8 \<le> c" using that n(2) by fastforce
    ultimately show ?thesis by (simp add: free_prev_other free_next_other)
  qed
  ultimately show ?thesis using f joined [OF xy(2)] o(2) xy(1)
    by (intro exI [of _ "s\<lparr>umem := free_prev bp ?p ?m1, ufreep := ?p\<rparr>"] exI [of _ "join_left xs (join_right bp n ys)"]) (simp add: free_def ulist_ok_def)
qed

section \<open>Allocating\<close>

lemma node_apart:
  assumes "ordered (unat base + 7) (us @ (p, k) # vs)" "unat p \<le> unat a" "unat a + 8 \<le> unat p + 8 * unat k"
  shows "apart a base" "\<forall>x \<in> set us. apart a (fst x)" "\<forall>x \<in> set vs. apart a (fst x)"
proof -
  have o: "ordered (unat base + 7) us" "fin (unat base + 7) us < unat p" "ordered (unat p + 8 * unat k) vs" using assms(1) by (simp_all add: ordered_append)
  show "apart a base" using ordered_fin [OF o(1)] o(2) assms(2) by (auto simp: apart_def)
  show "\<forall>x \<in> set us. apart a (fst x)" using ordered_in [OF o(1)] o(2) assms(2) by (fastforce simp: apart_def)
  show "\<forall>x \<in> set vs. apart a (fst x)" using ordered_in [OF o(3)] assms(3) by (fastforce simp: apart_def)
qed

text \<open>A node of the list has one predecessor.\<close>

lemma seg_ptrs: "seg m p xs q \<Longrightarrow> xs \<noteq> [] \<Longrightarrow> map (\<lambda>x. hptr m (fst x)) xs = map fst (tl xs) @ [q]"
proof (induction m p xs q rule: seg.induct)
  case (2 m p a n xs q)
  then show ?case by (cases xs) (auto dest: seg_first)
qed simp

lemma ordered_distinct: "ordered (unat base + 7) bs \<Longrightarrow> distinct (base # map fst bs)"
proof -
  assume o: "ordered (unat base + 7) bs"
  have "sorted_wrt (\<lambda>x y. unat (fst x) < unat (fst y)) ((base, 0 :: uint) # bs)" using ordered_sorted [OF o] ordered_in [OF o] by fastforce
  then have "sorted_wrt (<) (map unat (base # map fst bs))" by (simp add: sorted_wrt_map)
  then have "distinct (map unat (base # map fst bs))" using strict_sorted_iff by blast
  then show ?thesis by (simp only: distinct_map)
qed

lemma pred_unique:
  assumes "ulist_ok base bs s" "q \<in> set (base # map fst bs)" "r \<in> set (base # map fst bs)" "hptr (umem s) q = hptr (umem s) r"
  shows "q = r"
proof -
  let ?V = "(base, 0) # bs" and ?g = "hptr (umem s)"
  have "seg (umem s) base ?V base" "ordered (unat base + 7) bs" using assms(1) by (simp_all add: ulist_ok_def)
  then have "map ?g (map fst ?V) = map fst bs @ [base]" "distinct (map fst bs @ [base])" using seg_ptrs [of "umem s" base ?V base] ordered_distinct by (auto simp: comp_def)
  then have "distinct (map ?g (map fst ?V))" by metis
  then have "inj_on ?g (set (map fst ?V))" by (simp only: distinct_map)
  moreover have "q \<in> set (map fst ?V)" "r \<in> set (map fst ?V)" using assms(2,3) by simp_all
  ultimately show ?thesis using inj_onD [of ?g _ q r] assms(4) by blast
qed

lemma take_exact:
  assumes h: "ulist_ok base (us @ (p, n) # vs) s" and q: "q = fst (last ((base, 0) # us))"
  shows "given base (us @ (p, n) # vs) s n p (us @ vs) (s\<lparr>umem := set_ptr q (hptr (umem s) p) (umem s), ufreep := q\<rparr>)"
proof -
  let ?m = "umem s" and ?bs = "us @ (p, n) # vs"
  let ?m' = "set_ptr q (hptr ?m p) ?m"
  have o: "ordered (unat base + 7) ?bs" "0 < unat base" using h by (simp_all add: ulist_ok_def)
  have po: "ordered (unat base + 7) us" "fin (unat base + 7) us < unat p" "0 < unat n" "ordered (unat p + 8 * unat n) vs" using o by (simp_all add: ordered_append)
  obtain fs qn where f: "(base, 0) # us = fs @ [(q, qn)]" using q by (metis append_butlast_last_id list.distinct(1) prod.collapse)
  have "seg ?m base ((fs @ [(q, qn)]) @ (p, n) # vs) base" using h f [symmetric] by (simp add: ulist_ok_def)
  then have sg: "seg ?m base fs q" "hsize ?m q = qn" "hptr ?m q = p" "hsize ?m p = n" "seg ?m (hptr ?m p) vs base" by (auto simp: seg_append)
  have qp: "unat q + 8 \<le> unat p" "apart q p"
  proof -
    show "unat q + 8 \<le> unat p"
    proof (cases "us = []")
      case False
      then have "(q, snd (last us)) \<in> set us" using q by simp
      then show ?thesis using ordered_in [OF po(1)] po(2) by fastforce
    qed (use q po in \<open>simp add: fin_def\<close>)
    then show "apart q p" by (simp add: apart_def)
  qed
  have "\<forall>x \<in> set fs. apart q (fst x)"
  proof (cases us rule: rev_cases)
    case (snoc ws w)
    obtain b where w: "w = (q, b)" using q snoc by (cases w) auto
    have "fs = (base, 0) # ws" using f snoc by auto
    moreover have "ordered (unat base + 7) (ws @ (q, b) # [])" using po(1) snoc w by simp
    moreover then have "0 < unat b" by (simp add: ordered_append)
    ultimately show ?thesis using node_apart(1,2) [of base ws q b "[]" q] by simp
  qed (use f in simp)
  then have "seg ?m' base fs q" using sg(1) seg_cong [of fs ?m' ?m] by (simp add: header_apart)
  moreover have "\<forall>x \<in> set vs. apart q (fst x)" using ordered_in [OF po(4)] qp(1) by (fastforce simp: apart_def)
  then have "seg ?m' (hptr ?m p) vs base" using sg(5) seg_cong [of vs ?m' ?m] by (simp add: header_apart)
  ultimately have "seg ?m' base ((fs @ [(q, qn)]) @ vs) base" using sg by (auto simp: seg_append)
  then have "seg ?m' base ((base, 0) # us @ vs) base" unfolding f [symmetric] by simp
  moreover have "ordered (unat base + 7) (us @ vs)" using po ordered_lower [OF po(4), of "fin (unat base + 7) us"] by (simp add: ordered_append)
  moreover have "q \<in> set (base # map fst (us @ vs))" using q by auto
  ultimately have 1: "ulist_ok base (us @ vs) (s\<lparr>umem := ?m', ufreep := q\<rparr>)" using o(2) by (simp add: ulist_ok_def)
  have 2: "block p n \<inter> cells (us @ vs) = {}" using cells_bound [OF po(1)] cells_bound [OF po(4)] po(2) by (fastforce simp: block_def)
  have "?m' c = ?m c" if "c \<notin> cells ?bs \<union> {unat base..<unat base + 8}" for c
  proof (rule header_mem(1), cases "us = []")
    case False
    then have "(q, snd (last us)) \<in> set us" using q by simp
    then show "c < unat q \<or> unat q + 8 \<le> c" using that in_cells [of q "snd (last us)" us c] ordered_in [OF po(1)] by fastforce
  qed (use that q in auto)
  then show ?thesis using 1 2 sg(4) qp(2) by (auto simp: given_def header_apart block_def)
qed

lemma take_tail:
  assumes h: "ulist_ok base (us @ (p, k) # vs) s" and n: "0 < unat n" "unat n < unat k" and q: "q \<in> set (base # map fst (us @ (p, k) # vs))"
    and a: "a = p + 8 * (k - n)"
  shows "given base (us @ (p, k) # vs) s n a (us @ (p, k - n) # vs) (s\<lparr>umem := set_size a n (set_size p (k - n) (umem s)), ufreep := q\<rparr>)"
proof -
  let ?m = "umem s" and ?bs = "us @ (p, k) # vs" and ?bs' = "us @ (p, k - n) # vs"
  let ?m' = "set_size a n (set_size p (k - n) ?m)"
  have o: "ordered (unat base + 7) ?bs" "0 < unat base" using h by (simp_all add: ulist_ok_def)
  have po: "ordered (unat base + 7) us" "fin (unat base + 7) us < unat p" "ordered (unat p + 8 * unat k) vs" using o by (simp_all add: ordered_append)
  have d: "unat (k - n) = unat k - unat n" using n by (simp add: unat_sub word_le_nat_alt)
  have "unat p + 8 * unat k \<le> 2 ^ 31" by (rule ordered_le [OF po(3)])
  then have ua: "unat a = unat p + 8 * (unat k - unat n)" using d unat_end [of p "k - n"] n a by simp
  have "seg ?m base (((base, 0) # us) @ (p, k) # vs) base" using h by (simp add: ulist_ok_def)
  then have sg: "seg ?m base ((base, 0) # us) p" "hsize ?m p = k" "seg ?m (hptr ?m p) vs base" unfolding seg_append by auto
  note ap = node_apart [OF o(1), of p] and aa = node_apart [OF o(1), of a]
  have pa: "apart a p" using ua n by (auto simp: apart_def)
  have "seg ?m' base ((base, 0) # us) p = seg ?m base ((base, 0) # us) p"
    by (rule seg_cong) (use ap aa ua n in \<open>simp add: header_apart\<close>)
  moreover have "seg ?m' (hptr ?m p) vs base = seg ?m (hptr ?m p) vs base" by (rule seg_cong) (use ap aa ua n in \<open>simp add: header_apart\<close>)
  ultimately have "seg ?m' base (((base, 0) # us) @ (p, k - n) # vs) base" using sg pa unfolding seg_append by (auto simp: header_apart)
  moreover have "ordered (unat base + 7) ?bs'" using po d n ordered_lower [OF po(3), of "unat p + 8 * unat (k - n)"] by (simp add: ordered_append)
  ultimately have 1: "ulist_ok base ?bs' (s\<lparr>umem := ?m', ufreep := q\<rparr>)" using o(2) q by (simp add: ulist_ok_def)
  have 2: "block a n \<inter> cells us = {}" "block a n \<inter> cells vs = {}" "block a n \<inter> {unat p..<unat p + 8 * unat (k - n)} = {}"
    "block a n \<union> {unat p..<unat p + 8 * unat (k - n)} = {unat p..<unat p + 8 * unat k}"
    using cells_bound [OF po(1)] cells_bound [OF po(3)] po(2) ua d n by (fastforce simp: block_def)+
  have "?m' c = ?m c" if "c \<notin> cells ?bs \<union> {unat base..<unat base + 8}" for c
  proof -
    have "c < unat p \<or> unat p + 8 * unat k \<le> c" using that by auto
    then have "c < unat p \<or> unat p + 8 \<le> c" "c < unat a \<or> unat a + 8 \<le> c" using ua n by auto
    then show ?thesis by (simp add: header_mem)
  qed
  moreover have "block a n \<inter> cells ?bs' = {}" "block a n \<union> cells ?bs' = cells ?bs" using 2 by auto
  ultimately show ?thesis using 1 by (simp add: given_def)
qed

lemma take_ok:
  assumes h: "ulist_ok base bs s" and p: "(p, k) \<in> set bs" "n \<le> k" "0 < unat n" and q: "q \<in> set (base # map fst bs)" "hptr (umem s) q = p"
  shows "\<exists>a bs' s'. take_block n q p s = (a + 8, s') \<and> given base bs s n a bs' s'"
proof -
  obtain us vs where b: "bs = us @ (p, k) # vs" using split_list [OF p(1)] by blast
  have "seg (umem s) base (((base, 0) # us) @ (p, k) # vs) base" using h b by (simp add: ulist_ok_def)
  then have sg: "seg (umem s) base ((base, 0) # us) p" "hsize (umem s) p = k" unfolding seg_append by auto
  have "hptr (umem s) (fst (last ((base, 0) # us))) = p" using seg_final [OF sg(1)] by simp
  moreover have "fst (last ((base, 0) # us)) \<in> set (base # map fst bs)" using b by auto
  ultimately have qq: "q = fst (last ((base, 0) # us))" using pred_unique [OF h q(1)] q(2) by blast
  show ?thesis
  proof (cases "k = n")
    case True
    then show ?thesis using take_exact [of base us p n vs s, OF _ qq] h b sg(2) by (auto simp: take_block_def Let_def)
  next
    case False
    then have "unat n < unat k" using p(2) by (simp add: word_le_nat_alt word_unat_eq_iff)
    then show ?thesis using take_tail [of base us p k vs s n q, OF _ p(3) _ _ refl] h b q(1) sg(2) False by (fastforce simp: take_block_def Let_def)
  qed
qed

text \<open>One round of the search: it takes a block that is large enough, or comes back to where it began.\<close>

lemma malloc_walk:
  assumes "seg (umem s) (hptr (umem s) q) W r" "W \<noteq> []" "fst (last W) = ufreep s" "ufreep s \<notin> fst ` set (butlast W)"
  shows "(\<exists>p k q'. (p, k) \<in> set W \<and> n \<le> k \<and> q' \<in> insert q (fst ` set W) \<and> hptr (umem s) q' = p
      \<and> malloc_loop sbrk n q (hptr (umem s) q) s = Some (take_block n q' p s))
    \<or> (\<forall>x \<in> set W. snd x < n) \<and> malloc_loop sbrk n q (hptr (umem s) q) s =
      (case morecore sbrk n s of
         None \<Rightarrow> None
       | Some (q, s') \<Rightarrow> if q = 0 then Some (0, s') else malloc_loop sbrk n q (hptr (umem s') q) s')"
  using assms
proof (induction W arbitrary: q)
  case (Cons x W)
  obtain p k where x: "x = (p, k)" by fastforce
  have p: "hptr (umem s) q = p" "hsize (umem s) p = k" "seg (umem s) (hptr (umem s) p) W r" using Cons.prems(1) x by auto
  show ?case
  proof (cases "n \<le> k")
    case True
    then have "malloc_loop sbrk n q (hptr (umem s) q) s = Some (take_block n q p s)" using p by (subst malloc_loop.simps) simp
    then show ?thesis using True p(1) x by (intro disjI1 exI [of _ p] exI [of _ k] exI [of _ q]) simp
  next
    case False
    show ?thesis
    proof (cases "W = []")
      case True
      then have "p = ufreep s" using Cons.prems(3) x by simp
      then have "malloc_loop sbrk n q (hptr (umem s) q) s =
        (case morecore sbrk n s of None \<Rightarrow> None | Some (q, s') \<Rightarrow> if q = 0 then Some (0, s') else malloc_loop sbrk n q (hptr (umem s') q) s')"
        using False p by (subst malloc_loop.simps) simp
      then show ?thesis using True False x by (intro disjI2) (simp add: not_le)
    next
      case more: False
      then have "p \<noteq> ufreep s" "ufreep s \<notin> fst ` set (butlast W)" "fst (last W) = ufreep s" using Cons.prems(3,4) x by auto
      note IH = Cons.IH [OF p(3) more this(3,2)] and ne = this(1)
      have "malloc_loop sbrk n q (hptr (umem s) q) s = malloc_loop sbrk n p (hptr (umem s) p) s"
        using False p ne by (subst malloc_loop.simps) simp
      then show ?thesis using IH False x by (auto simp: not_le)
    qed
  qed
qed simp

text \<open>The round from \<open>freep\<close>.\<close>

lemma malloc_round:
  assumes h: "ulist_ok base bs s" and n: "0 < unat n"
  shows "(\<exists>a bs' s'. malloc_loop sbrk n (ufreep s) (hptr (umem s) (ufreep s)) s = Some (a + 8, s') \<and> given base bs s n a bs' s')
    \<or> (\<forall>x \<in> set bs. snd x < n) \<and> malloc_loop sbrk n (ufreep s) (hptr (umem s) (ufreep s)) s =
      (case morecore sbrk n s of
         None \<Rightarrow> None
       | Some (q, s') \<Rightarrow> if q = 0 then Some (0, s') else malloc_loop sbrk n q (hptr (umem s') q) s')"
proof -
  let ?V = "(base, 0) # bs" and ?m = "umem s"
  have sg: "seg ?m base ?V base" and o: "ordered (unat base + 7) bs" and f: "ufreep s \<in> fst ` set ?V" using h by (auto simp: ulist_ok_def)
  obtain us vs where v: "?V = us @ vs" "vs \<noteq> []" "ufreep s = fst (hd vs)" using split_node [OF f] by blast
  obtain x ws where w: "vs = x # ws" using v(2) by (cases vs) auto
  obtain k where x: "x = (ufreep s, k)" using v(3) w by (cases x) auto
  obtain r where r: "seg ?m base us r" "seg ?m r vs base" using sg unfolding v(1) seg_append by blast
  let ?W = "ws @ us @ [x]"
  have "r = ufreep s" "seg ?m (hptr ?m (ufreep s)) ws base" "hsize ?m (ufreep s) = k" using r(2) w x by auto
  then have W: "seg ?m (hptr ?m (ufreep s)) ?W (hptr ?m (ufreep s))" using r(1) x by (auto simp: seg_append)
  have "distinct (map fst ?V)" using ordered_distinct [OF o] by simp
  then have d: "ufreep s \<notin> fst ` set (butlast ?W)" unfolding v(1) w x by (auto simp: butlast_append)
  have set: "set ?W = set ?V" using v(1) w by auto
  consider (hit) p l q' where "(p, l) \<in> set ?W" "n \<le> l" "q' \<in> insert (ufreep s) (fst ` set ?W)" "hptr ?m q' = p"
      "malloc_loop sbrk n (ufreep s) (hptr ?m (ufreep s)) s = Some (take_block n q' p s)"
    | (miss) "\<forall>x \<in> set ?W. snd x < n" "malloc_loop sbrk n (ufreep s) (hptr ?m (ufreep s)) s =
      (case morecore sbrk n s of None \<Rightarrow> None | Some (q, s') \<Rightarrow> if q = 0 then Some (0, s') else malloc_loop sbrk n q (hptr (umem s') q) s')"
    using malloc_walk [OF W _ _ d, of n sbrk] x by auto
  then show ?thesis
  proof cases
    case hit
    have "(p, l) \<noteq> (base, 0)" using hit(2) n by auto
    then have p: "(p, l) \<in> set bs" using hit(1) unfolding set by auto
    have "q' \<in> set (base # map fst bs)" using hit(3) f unfolding set by auto
    then show ?thesis using take_ok [OF h p hit(2) n _ hit(4)] hit(5) by fastforce
  next
    case miss
    then show ?thesis unfolding set by simp
  qed
qed

section \<open>The heap and the blocks in use\<close>

lemma sbrk_growsD: "sbrk_grows sbrk brk \<Longrightarrow> brk os \<le> 2 ^ 31 \<Longrightarrow> unat n < 2 ^ 31 \<Longrightarrow> sbrk os n = (p, os') \<Longrightarrow>
  brk os \<le> brk os' \<and> brk os' \<le> 2 ^ 31 \<and> (p \<noteq> -1 \<longrightarrow> brk os \<le> unat p \<and> unat p + unat n \<le> brk os')"
  unfolding sbrk_grows_def by blast

lemma cells_in: "(a, n) \<in> set xs \<Longrightarrow> {unat a..<unat a + 8 * unat n} \<subseteq> cells xs"
  using in_cells by fastforce

lemma block_within: "0 < unat n \<Longrightarrow> {unat a..<unat a + 8 * unat n} \<subseteq> {lo..<hi} \<Longrightarrow> lo \<le> unat a \<and> unat a + 8 * unat n \<le> hi"
  by simp

lemma ulist_ok_cong:
  assumes "ulist_ok base bs s" "ufreep s' = ufreep s" "\<forall>x \<in> set ((base, 0) # bs). hptr (umem s') (fst x) = hptr (umem s) (fst x) \<and> hsize (umem s') (fst x) = hsize (umem s) (fst x)"
  shows "ulist_ok base bs s'"
  using assms seg_cong [OF assms(3), of base base] by (simp add: ulist_ok_def)

lemma morecore_ok:
  assumes h: "ulist_ok base bs s" and g: "sbrk_grows sbrk brk" "unat base + 8 \<le> brk (uos s)" "brk (uos s) \<le> 2 ^ 31" "cells bs \<subseteq> {unat base + 8..<brk (uos s)}"
    and n: "8 * unat n < 2 ^ 31"
  shows "(\<exists>os m. morecore sbrk n s = Some (0, s\<lparr>uos := os\<rparr>) \<and> sbrk (uos s) m = (-1, os) \<and> brk (uos s) \<le> brk os \<and> brk os \<le> 2 ^ 31)
    \<or> (\<exists>s' bs'. morecore sbrk n s = Some (ufreep s', s') \<and> ulist_ok base bs' s' \<and> (\<exists>x \<in> set bs'. n \<le> snd x)
        \<and> cells bs' \<subseteq> cells bs \<union> {brk (uos s)..<brk (uos s')} \<and> brk (uos s) \<le> brk (uos s') \<and> brk (uos s') \<le> 2 ^ 31
        \<and> (\<forall>c < brk (uos s). c \<notin> cells bs \<union> {unat base..<unat base + 8} \<longrightarrow> umem s' c = umem s c))"
proof -
  define nu where "nu = (if n < 4096 then 4096 else n)"
  have nu: "n \<le> nu" "8 * unat nu < 2 ^ 31" "0 < unat nu" using n by (auto simp: nu_def word_less_nat_alt word_le_nat_alt)
  have n8: "unat (nu * 8) = 8 * unat nu" using nu(2) by (simp add: unat_word_ariths)
  obtain p os where p: "sbrk (uos s) (nu * 8) = (p, os)" by fastforce
  have b: "brk (uos s) \<le> brk os" "brk os \<le> 2 ^ 31" "p \<noteq> -1 \<Longrightarrow> brk (uos s) \<le> unat p \<and> unat p + 8 * unat nu \<le> brk os"
    using sbrk_growsD [OF g(1,3) _ p] n8 nu(2) by simp_all
  show ?thesis
  proof (cases "p = -1")
    case True
    then have "morecore sbrk n s = Some (0, s\<lparr>uos := os\<rparr>)" using p by (simp add: morecore_def nu_def Let_def)
    then show ?thesis using b p True by blast
  next
    case False
    let ?s = "s\<lparr>umem := set_size p nu (umem s), uos := os\<rparr>"
    note bp = b(3) [OF False]
    have o: "ordered (unat base + 7) bs" using h by (simp add: ulist_ok_def)
    have "apart p (fst x)" if x: "x \<in> set ((base, 0) # bs)" for x
    proof (cases "x = (base, 0)")
      case True
      then show ?thesis using bp g(2) by (simp add: apart_def)
    next
      case False
      then have x': "(fst x, snd x) \<in> set bs" using x by simp
      have k: "0 < unat (snd x)" using ordered_in [OF o x'] by simp
      have "unat (fst x) + 8 * unat (snd x) \<le> brk (uos s)" using block_within [OF k subset_trans [OF cells_in [OF x'] g(4)]] by simp
      then show ?thesis using k bp by (simp add: apart_def)
    qed
    then have h1: "ulist_ok base bs ?s" by (intro ulist_ok_cong [OF h]) (simp_all add: header_apart)
    have "\<forall>c \<in> cells bs. c < unat p" using subsetD [OF g(4)] bp by fastforce
    then have d: "{unat p..<unat p + 8 * unat nu} \<inter> cells bs = {}" by (meson atLeastLessThan_iff disjoint_iff leD)
    have hn: "hsize (umem ?s) p = nu" and lo: "unat base + 7 < unat p" and hi: "unat p + 8 * unat nu \<le> 2 ^ 31" using bp g(2) b(2) by simp_all
    obtain s' bs' where f: "free (p + 8) ?s = Some s'" "ulist_ok base bs' s'" "cells bs' = cells bs \<union> {unat p..<unat p + 8 * unat nu}" "uos s' = os"
        "\<exists>x \<in> set bs'. unat nu \<le> unat (snd x)"
        "\<forall>c. c \<notin> cells bs \<union> {unat p..<unat p + 8 * unat nu} \<union> {unat base..<unat base + 8} \<longrightarrow> umem s' c = umem ?s c"
      using free_ok [OF h1 hn nu(3) lo hi d] by auto
    have "umem s' c = umem s c" if "c < brk (uos s)" "c \<notin> cells bs \<union> {unat base..<unat base + 8}" for c
      using f(6) that bp by (simp add: header_mem)
    moreover have "morecore sbrk n s = Some (ufreep s', s')" using p False f(1) by (simp add: morecore_def nu_def Let_def)
    moreover have "\<exists>x \<in> set bs'. n \<le> snd x" using f(5) nu(1) unfolding word_le_nat_alt by (meson order_trans)
    moreover have "cells bs' \<subseteq> cells bs \<union> {brk (uos s)..<brk (uos s')}" using f(3,4) bp by auto
    moreover have "brk (uos s) \<le> brk (uos s')" "brk (uos s') \<le> 2 ^ 31" using f(4) b by simp_all
    ultimately show ?thesis using f(2) by (intro disjI2 exI [of _ s'] exI [of _ bs']) simp
  qed
qed

lemma list_started: "ulist_ok base bs s \<Longrightarrow> ufreep s \<noteq> 0"
  using ordered_in [of "unat base + 7" bs] by (fastforce simp: ulist_ok_def)

lemma malloc_loop_ok:
  assumes h: "ulist_ok base bs s" and g: "sbrk_grows sbrk brk" "unat base + 8 \<le> brk (uos s)" "brk (uos s) \<le> 2 ^ 31" "cells bs \<subseteq> {unat base + 8..<brk (uos s)}"
    and n: "8 * unat n < 2 ^ 31" "0 < unat n"
  shows "(\<exists>os m. malloc_loop sbrk n (ufreep s) (hptr (umem s) (ufreep s)) s = Some (0, s\<lparr>uos := os\<rparr>) \<and> brk (uos s) \<le> brk os \<and> brk os \<le> 2 ^ 31
        \<and> (\<forall>x \<in> set bs. snd x < n) \<and> sbrk (uos s) m = (-1, os))
    \<or> (\<exists>a bs' s'. malloc_loop sbrk n (ufreep s) (hptr (umem s) (ufreep s)) s = Some (a + 8, s') \<and> ulist_ok base bs' s' \<and> hsize (umem s') a = n
        \<and> block a n \<inter> cells bs' = {} \<and> block a n \<union> cells bs' \<subseteq> cells bs \<union> {brk (uos s)..<brk (uos s')} \<and> brk (uos s) \<le> brk (uos s') \<and> brk (uos s') \<le> 2 ^ 31
        \<and> (\<forall>c < brk (uos s). c \<notin> cells bs \<union> {unat base..<unat base + 8} \<longrightarrow> umem s' c = umem s c))"
    (is "?fail \<or> ?done")
proof -
  let ?loop = "\<lambda>s. malloc_loop sbrk n (ufreep s) (hptr (umem s) (ufreep s)) s"
  consider (hit) a bs' s' where "?loop s = Some (a + 8, s')" "given base bs s n a bs' s'"
    | (miss) "\<forall>x \<in> set bs. snd x < n" "?loop s = (case morecore sbrk n s of None \<Rightarrow> None
        | Some (q, s') \<Rightarrow> if q = 0 then Some (0, s') else malloc_loop sbrk n q (hptr (umem s') q) s')"
    using malloc_round [OF h n(2), of sbrk] by blast
  then show ?thesis
  proof cases
    case hit
    have ?done by (rule exI [of _ a], rule exI [of _ bs'], rule exI [of _ s']) (use hit g(3) in \<open>auto simp: given_def\<close>)
    then show ?thesis ..
  next
    case miss
    consider (no) os m where "morecore sbrk n s = Some (0, s\<lparr>uos := os\<rparr>)" "sbrk (uos s) m = (-1, os)" "brk (uos s) \<le> brk os" "brk os \<le> 2 ^ 31"
      | (more) s1 bs1 where "morecore sbrk n s = Some (ufreep s1, s1)" "ulist_ok base bs1 s1" "\<exists>x \<in> set bs1. n \<le> snd x"
        "cells bs1 \<subseteq> cells bs \<union> {brk (uos s)..<brk (uos s1)}" "brk (uos s) \<le> brk (uos s1)" "brk (uos s1) \<le> 2 ^ 31"
        "\<forall>c < brk (uos s). c \<notin> cells bs \<union> {unat base..<unat base + 8} \<longrightarrow> umem s1 c = umem s c"
      using morecore_ok [OF h g n(1)] by blast
    then show ?thesis
    proof cases
      case no
      then have "?loop s = Some (0, s\<lparr>uos := os\<rparr>)" using miss(2) by simp
      then have ?fail using no miss(1) by blast
      then show ?thesis ..
    next
      case more
      have "ufreep s1 \<noteq> 0" by (rule list_started [OF more(2)])
      then have r: "?loop s = ?loop s1" using miss(2) more(1) by simp
      have "\<not> (\<forall>x \<in> set bs1. snd x < n)" using more(3) by (auto simp: not_less)
      then obtain a bs' s' where t: "?loop s1 = Some (a + 8, s')" "given base bs1 s1 n a bs' s'" using malloc_round [OF more(2) n(2), of sbrk] by blast
      have u: "ulist_ok base bs' s'" "hsize (umem s') a = n" "block a n \<inter> cells bs' = {}" "block a n \<union> cells bs' = cells bs1" "uos s' = uos s1"
        "\<forall>c. c \<notin> cells bs1 \<union> {unat base..<unat base + 8} \<longrightarrow> umem s' c = umem s1 c" using t(2) by (simp_all add: given_def)
      have "umem s' c = umem s c" if "c < brk (uos s)" "c \<notin> cells bs \<union> {unat base..<unat base + 8}" for c
      proof -
        have "c \<notin> cells bs1" using subsetD [OF more(4), of c] that by auto
        then show ?thesis using u(6) more(7) that by simp
      qed
      then have ?done using r t(1) u more(4-6) by (intro exI [of _ a] exI [of _ bs'] exI [of _ s']) simp
      then show ?thesis ..
    qed
  qed
qed

lemma units: "unat (nbytes :: uint) < 2 ^ 31 - 15 \<Longrightarrow> unat ((nbytes + 8 - 1) div 8 + 1) = (unat nbytes + 7) div 8 + 1"
proof -
  assume n: "unat nbytes < 2 ^ 31 - 15"
  have "unat (nbytes + 7) = unat nbytes + 7" using n by (simp add: unat_sum)
  then have d: "unat ((nbytes + 7) div 8) = (unat nbytes + 7) div 8" by (simp add: unat_div)
  then have "unat ((nbytes + 7) div 8) + unat (1 :: uint) < 2 ^ 32" using n by simp
  note t = unat_sum [OF this]
  have "nbytes + 8 - 1 = nbytes + 7" by simp
  then show ?thesis by (simp only: t d unat_1)
qed

lemma hsize_keep: "\<forall>c. unat a \<le> c \<and> c < unat a + 8 \<longrightarrow> m' c = m c \<Longrightarrow> hsize m' a = hsize m a"
  unfolding hsize_def by (rule load32_cong) simp_all

lemma live_pos: "disjoint_blocks live \<Longrightarrow> (a, n) \<in> set live \<Longrightarrow> 0 < unat n"
  by (induction live rule: disjoint_blocks.induct) auto

lemma live_keep:
  assumes "disjoint_blocks live" "\<forall>c \<in> cells live. m' c = m c" "\<forall>(a, n) \<in> set live. hsize m a = n"
  shows "\<forall>(a, n) \<in> set live. hsize m' a = n"
proof (intro ballI, simp split: prod.splits, intro allI impI)
  fix x a n
  assume x: "x \<in> set live" "x = (a, n)"
  then have "0 < unat n" using live_pos [OF assms(1)] by blast
  then have "m' c = m c" if "unat a \<le> c" "c < unat a + 8" for c using assms(2) in_cells [of a n live c] x that by auto
  then show "hsize m' a = n" using hsize_keep [of a m' m] assms(3) x by auto
qed

lemma started_ok:
  assumes "heap_inv base brk bs live s"
  shows "ulist_ok base bs (started base s)" "uos (started base s) = uos s" "\<forall>c \<in> cells live. umem (started base s) c = umem s c"
proof -
  have "unat base + 7 < 2 ^ 31" "ufreep s = 0 \<Longrightarrow> bs = [] \<and> live = [] \<and> 0 < unat base" using assms by (auto simp: heap_inv_def)
  then show "ulist_ok base bs (started base s)" "uos (started base s) = uos s" "\<forall>c \<in> cells live. umem (started base s) c = umem s c"
    using assms by (auto simp: started_def ulist_ok_def heap_inv_def)
qed

text \<open>A block that leaves the free list or the new memory joins the blocks in use.\<close>

lemma heap_inv_take:
  assumes h: "heap_inv base brk bs live s"
    and y: "ulist_ok base bs' s'" "hsize (umem s') a = n" "block a n \<inter> cells bs' = {}"
      "block a n \<union> cells bs' \<subseteq> cells bs \<union> {brk (uos s)..<brk (uos s')}" "brk (uos s) \<le> brk (uos s')" "brk (uos s') \<le> 2 ^ 31" and n: "0 < unat n"
    and m: "\<forall>c < brk (uos s). c \<notin> cells bs \<union> {unat base..<unat base + 8} \<longrightarrow> c \<in> cells live \<longrightarrow> umem s' c = umem s c"
  shows "heap_inv base brk bs' ((a, n) # live) s'" "a + 8 \<noteq> 0" "\<forall>c \<in> cells live. umem s' c = umem s c"
proof -
  have b: "unat base + 8 \<le> brk (uos s)" "cells bs \<subseteq> {unat base + 8..<brk (uos s)}" "cells live \<subseteq> {unat base + 8..<brk (uos s)}"
    "cells bs \<inter> cells live = {}" "disjoint_blocks live" "\<forall>(a, n) \<in> set live. hsize (umem s) a = n" using h by (auto simp: heap_inv_def)
  show keep: "\<forall>c \<in> cells live. umem s' c = umem s c"
  proof
    fix c assume c: "c \<in> cells live"
    then have "unat base + 8 \<le> c" "c < brk (uos s)" "c \<notin> cells bs" using subsetD [OF b(3), of c] b(4) by auto
    then show "umem s' c = umem s c" using m c by simp
  qed
  have "\<forall>(a, n) \<in> set live. hsize (umem s') a = n" by (rule live_keep [OF b(5) keep b(6)])
  moreover have d: "(block a n \<union> cells bs') \<inter> cells live = {}" "block a n \<union> cells bs' \<subseteq> {unat base + 8..<brk (uos s')}"
    using y(4,5) b(1-4) by fastforce+
  have "unat base + 8 \<le> unat a \<and> unat a + 8 * unat n \<le> brk (uos s')" by (rule block_within [OF n]) (use d(2) in \<open>simp add: block_def\<close>)
  then have "unat (a + 8) = unat a + 8" using y(6) n by (simp add: unat_word_ariths)
  then show "a + 8 \<noteq> 0" by auto
  have "cells bs' \<union> cells ((a, n) # live) \<subseteq> {unat base + 8..<brk (uos s')}" using d(2) b(3) y(5) by (fastforce simp: block_def)
  moreover have "cells bs' \<inter> cells ((a, n) # live) = {}" using d(1) y(3) by (auto simp: block_def)
  moreover have "disjoint_blocks ((a, n) # live)" using n d(1) b(5) by auto
  ultimately show "heap_inv base brk bs' ((a, n) # live) s'" using y(1,2,5,6) list_started [OF y(1)] b(1) by (simp add: heap_inv_def)
qed


lemma brk_demo_grows: "sbrk_grows brk_demo (\<lambda>b. b)"
  by (auto simp: sbrk_grows_def brk_demo_def unat_of_nat split: if_splits)


text \<open>C36: Free takes a block in use back into the free memory, whatever blocks lie beside it; no other block in use changes.\<close>

theorem free_returns:
  assumes h: "heap_inv base brk bs (us @ (a, n) # vs) s"
  shows "\<exists>s' bs'. free (a + 8) s = Some s' \<and> heap_inv base brk bs' (us @ vs) s' \<and> cells bs' = cells bs \<union> block a n
    \<and> (\<forall>c \<in> cells (us @ vs). umem s' c = umem s c)"
proof -
  let ?live = "us @ (a, n) # vs"
  have b: "ulist_ok base bs s" "unat base + 8 \<le> brk (uos s)" "brk (uos s) \<le> 2 ^ 31" "cells bs \<union> cells ?live \<subseteq> {unat base + 8..<brk (uos s)}"
    "cells bs \<inter> cells ?live = {}" "disjoint_blocks ?live" "\<forall>(a, n) \<in> set ?live. hsize (umem s) a = n"
    using h by (simp_all add: heap_inv_def split: if_splits)
  have n: "hsize (umem s) a = n" "0 < unat n" using b(7) live_pos [OF b(6)] by auto
  have w: "unat base + 8 \<le> unat a \<and> unat a + 8 * unat n \<le> brk (uos s)" by (rule block_within [OF n(2)]) (use b(4) in auto)
  have d: "{unat a..<unat a + 8 * unat n} \<inter> cells bs = {}" using b(5) by auto
  obtain s' bs' where f: "free (a + 8) s = Some s'" "ulist_ok base bs' s'" "cells bs' = cells bs \<union> {unat a..<unat a + 8 * unat n}" "uos s' = uos s"
      "\<forall>c. c \<notin> cells bs \<union> {unat a..<unat a + 8 * unat n} \<union> {unat base..<unat base + 8} \<longrightarrow> umem s' c = umem s c"
    using free_ok [OF b(1) n(1,2) _ _ d] w b(3) by auto
  have l: "disjoint_blocks (us @ vs)" "{unat a..<unat a + 8 * unat n} \<inter> cells (us @ vs) = {}" using b(6) by (induction us rule: disjoint_blocks.induct) (auto simp: block_def)
  have keep: "\<forall>c \<in> cells (us @ vs). umem s' c = umem s c"
  proof
    fix c assume c: "c \<in> cells (us @ vs)"
    then have "c \<notin> {unat a..<unat a + 8 * unat n}" "c \<notin> cells bs" "unat base + 8 \<le> c" using l(2) b(4,5) by auto
    then show "umem s' c = umem s c" using f(5) by simp
  qed
  have "\<forall>(a, n) \<in> set (us @ vs). hsize (umem s') a = n" by (rule live_keep [OF l(1) keep]) (use b(7) in auto)
  moreover have "cells bs' \<union> cells (us @ vs) \<subseteq> {unat base + 8..<brk (uos s')}" "cells bs' \<inter> cells (us @ vs) = {}" using f(3,4) b(4,5) l(2) by auto
  ultimately have "heap_inv base brk bs' (us @ vs) s'" using f(2,4) b(2,3) l(1) list_started [OF f(2)] by (simp add: heap_inv_def)
  then show ?thesis using f(1,3) keep by (auto simp: block_def)
qed

theorem free_returns_witness:
  "heap_inv 0x1000 (\<lambda>b. b) [] ([] @ (0x2000, 2) # []) used_demo
   \<and> (\<exists>s' bs'. free 0x2008 used_demo = Some s' \<and> heap_inv 0x1000 (\<lambda>b. b) bs' [] s' \<and> cells bs' = {0x2000..<0x2010})"
proof -
  have h: "heap_inv 0x1000 (\<lambda>b. b) [] ([] @ (0x2000, 2) # []) used_demo"
    by (auto simp: heap_inv_def ulist_ok_def used_demo_def hptr_def hsize_def load32_store32_same load32_store32_other block_def)
       (simp_all add: load32_def)
  show ?thesis using free_returns [OF h] h by (auto simp: block_def)
qed

end
