(* ===== verification/Mkfs.thy ===== *)
theory Mkfs
  imports FileData
begin

text \<open>
  The program that builds the file system image (\<open>mkfs.c\<close>). The image file is a list of blocks; input files are given by the pieces in which the
  host reads them, or are missing. The program ends with an image, or stops at an assertion or a failed read. Its messages are left out, and
  writing the image does not fail.

  \<open>xshort\<close> and \<open>xint\<close> give the bytes that a converted value has in memory, which are the bytes the kernel reads from the disk.
  The layouts of the super block, of an inode and of a directory entry are those of the kernel.
\<close>

section \<open>Parameters\<close>

abbreviation FSSIZE :: nat where "FSSIZE \<equiv> 40000"

abbreviation NINODES :: nat where "NINODES \<equiv> 200"

definition nbitmap :: nat where
  "nbitmap = FSSIZE div (BSIZE * 8) + 1"

definition ninodeblocks :: nat where
  "ninodeblocks = NINODES div IPB + 1"

definition nlog :: nat where
  "nlog = LOGSIZE"

definition nmeta :: nat where
  "nmeta = 2 + nlog + ninodeblocks + nbitmap"

definition mkfs_sb :: superblock where
  "mkfs_sb = \<lparr>sb_size = FSSIZE, sb_nblocks = FSSIZE - nmeta, sb_ninodes = NINODES, sb_nlog = nlog, sb_logstart = 2,
     sb_inodestart = 2 + nlog, sb_bmapstart = 2 + nlog + ninodeblocks\<rparr>"

definition zeroes :: "uchar list" where
  "zeroes = replicate BSIZE 0"

definition xshort :: "nat \<Rightarrow> uchar list" where
  "xshort x = le_bytes 2 x"

definition xint :: "nat \<Rightarrow> uchar list" where
  "xint x = le_bytes 4 x"

text \<open>How the program can stop: an assertion, a failed call of the host, an access outside of an array.\<close>

datatype mkfail = Asserted | Failed | Overrun

record mkfs =
  img :: "uchar list list"
  freeinode :: nat
  freeblock :: nat

definition rbind :: "mkfail + 'a \<Rightarrow> ('a \<Rightarrow> mkfail + 'b) \<Rightarrow> mkfail + 'b" where
  "rbind r f = (case r of Inl e \<Rightarrow> Inl e | Inr x \<Rightarrow> f x)"

section \<open>Sectors and inodes\<close>

definition sector :: "nat \<Rightarrow> nat" where
  "sector sec = sec * BSIZE mod 2 ^ 32 div BSIZE"

definition wsect :: "nat \<Rightarrow> uchar list \<Rightarrow> mkfs \<Rightarrow> mkfs" where
  "wsect sec buf s =
     (let k = sector sec; d = img s in
      s\<lparr>img := (if k < length d then d[k := buf] else d @ replicate (k - length d) zeroes @ [buf])\<rparr>)"

definition rsect :: "nat \<Rightarrow> mkfs \<Rightarrow> mkfail + uchar list" where
  "rsect sec s = (if sector sec < length (img s) then Inr (img s ! sector sec) else Inl Failed)"

definition winode :: "nat \<Rightarrow> dinode \<Rightarrow> mkfs \<Rightarrow> mkfail + mkfs" where
  "winode inum ip s =
     (let bn = IBLOCK inum mkfs_sb in
      rbind (rsect bn s) (\<lambda>buf.
      Inr (wsect bn (put_dinode inum ip buf) s)))"

definition rinode :: "nat \<Rightarrow> mkfs \<Rightarrow> mkfail + dinode" where
  "rinode inum s = rbind (rsect (IBLOCK inum mkfs_sb) s) (\<lambda>buf. Inr (get_dinode buf inum))"

definition ialloc_mkfs :: "int \<Rightarrow> mkfs \<Rightarrow> mkfail + nat \<times> mkfs" where
  "ialloc_mkfs ty s =
     (let inum = freeinode s;
          s = s\<lparr>freeinode := (inum + 1) mod 2 ^ 32\<rparr>;
          din = \<lparr>di_type = ty, di_major = 0, di_minor = 0, di_nlink = 1, di_size = 0, di_addrs = replicate (NDIRECT + 3) 0\<rparr>
      in rbind (winode inum din s) (\<lambda>s. Inr (inum, s)))"

definition bitmap :: "nat \<Rightarrow> uchar list" where
  "bitmap used = fold bit_mark [0..<used] zeroes"

definition balloc_mkfs :: "int \<Rightarrow> mkfs \<Rightarrow> mkfail + mkfs" where
  "balloc_mkfs used s = (if used < int (BSIZE * 8) then Inr (wsect (sb_bmapstart mkfs_sb) (bitmap (nat used)) s) else Inl Asserted)"

section \<open>Appending to a file\<close>

definition new_block :: "mkfs \<Rightarrow> mkfs" where
  "new_block s = s\<lparr>freeblock := (freeblock s + 1) mod 2 ^ 32\<rparr>"

definition alloc_slot :: "nat \<Rightarrow> dinode \<Rightarrow> mkfs \<Rightarrow> dinode \<times> mkfs" where
  "alloc_slot k din s =
     (if di_addrs din ! k = 0 then (din\<lparr>di_addrs := (di_addrs din)[k := freeblock s]\<rparr>, new_block s) else (din, s))"

text \<open>The block of the file that holds its part \<open>fbn\<close>.\<close>

definition iappend_block :: "nat \<Rightarrow> dinode \<Rightarrow> mkfs \<Rightarrow> mkfail + nat \<times> dinode \<times> mkfs" where
  "iappend_block fbn din s =
     (if fbn < NDIRECT then
        (let (din, s) = alloc_slot fbn din s in Inr (di_addrs din ! fbn, din, s))
      else
        (let (din, s) = alloc_slot NDIRECT din s in
         rbind (rsect (di_addrs din ! NDIRECT) s) (\<lambda>indirect.
         if fbn - NDIRECT \<ge> NINDIRECT then Inl Overrun
         else if get32 indirect (4 * (fbn - NDIRECT)) = 0 then
           (let indirect = put32 (4 * (fbn - NDIRECT)) (freeblock s) indirect;
                s = wsect (di_addrs din ! NDIRECT) indirect (new_block s)
            in Inr (get32 indirect (4 * (fbn - NDIRECT)), din, s))
         else Inr (get32 indirect (4 * (fbn - NDIRECT)), din, s))))"

function iappend_loop :: "dinode \<Rightarrow> nat \<Rightarrow> uchar list \<Rightarrow> mkfs \<Rightarrow> mkfail + nat \<times> dinode \<times> mkfs" where
  "iappend_loop din off p s =
     (if p = [] then Inr (off, din, s)
      else
        let fbn = off div BSIZE in
        if \<not> fbn < MAXFILE then Inl Asserted
        else
          case iappend_block fbn din s of
            Inl e \<Rightarrow> Inl e
          | Inr (x, din, s) \<Rightarrow>
            let n1 = min (length p) ((fbn + 1) * BSIZE - off) in
            (case rsect x s of
               Inl e \<Rightarrow> Inl e
             | Inr buf \<Rightarrow> iappend_loop din (off + n1) (drop n1 p) (wsect x (splice (off - fbn * BSIZE) (take n1 p) buf) s)))"
  by pat_completeness auto

termination
proof (relation "measure (\<lambda>(din, off, p, s). length p)", goal_cases)
  case (2 din off p s)
  have "off < (off div BSIZE + 1) * BSIZE" by (simp add: dividend_less_times_div mult.commute)
  then show ?case using 2 by simp
qed simp

definition iappend :: "nat \<Rightarrow> uchar list \<Rightarrow> mkfs \<Rightarrow> mkfail + mkfs" where
  "iappend inum xp s =
     rbind (rinode inum s) (\<lambda>din.
     rbind (iappend_loop din (di_size din) xp s) (\<lambda>(off, din, s).
     winode inum (din\<lparr>di_size := off\<rparr>) s))"

section \<open>The program\<close>

definition dirent_bytes :: "nat \<Rightarrow> uchar list \<Rightarrow> uchar list" where
  "dirent_bytes inum name = xshort inum @ take DIRSIZ (name @ replicate DIRSIZ 0)"

primrec copy_file :: "nat \<Rightarrow> uchar list list \<Rightarrow> mkfs \<Rightarrow> mkfail + mkfs" where
  "copy_file inum [] s = Inr s"
| "copy_file inum (buf # pieces) s = rbind (iappend inum buf s) (copy_file inum pieces)"

text \<open>One argument: its name, and the pieces that the host reads unless the file cannot be opened.\<close>

definition add_file :: "nat \<Rightarrow> uchar list \<times> uchar list list option \<Rightarrow> mkfs \<Rightarrow> mkfail + mkfs" where
  "add_file rootino f s =
     (let (arg, content) = f in
        if 47 \<in> set arg then Inl Asserted
        else
          case content of
            None \<Rightarrow> Inl Failed
          | Some pieces \<Rightarrow>
            let name = (case arg of c # cs \<Rightarrow> if c = 95 then cs else arg | [] \<Rightarrow> arg) in
            rbind (ialloc_mkfs T_FILE s) (\<lambda>(inum, s).
            rbind (iappend rootino (dirent_bytes inum name) s) (
            copy_file inum pieces)))"

primrec add_files :: "nat \<Rightarrow> (uchar list \<times> uchar list list option) list \<Rightarrow> mkfs \<Rightarrow> mkfail + mkfs" where
  "add_files rootino [] s = Inr s"
| "add_files rootino (f # fs) s = rbind (add_file rootino f s) (add_files rootino fs)"

definition sb_bytes :: "uchar list" where
  "sb_bytes = concat (map xint [sb_size mkfs_sb, sb_nblocks mkfs_sb, sb_ninodes mkfs_sb, sb_nlog mkfs_sb, sb_logstart mkfs_sb,
     sb_inodestart mkfs_sb, sb_bmapstart mkfs_sb])"

definition mkfs_start :: mkfs where
  "mkfs_start = wsect 1 (splice 0 sb_bytes zeroes) (fold (\<lambda>i. wsect i zeroes) [0..<FSSIZE] \<lparr>img = [], freeinode = 1, freeblock = nmeta\<rparr>)"

definition mkfs_main :: "(uchar list \<times> uchar list list option) list \<Rightarrow> mkfail + mkfs" where
  "mkfs_main files =
     rbind (ialloc_mkfs T_DIR mkfs_start) (\<lambda>(rootino, s).
     if rootino \<noteq> ROOTINO then Inl Asserted
     else
       rbind (iappend rootino (dirent_bytes rootino [46]) s) (\<lambda>s.
       rbind (iappend rootino (dirent_bytes rootino [46, 46]) s) (\<lambda>s.
       rbind (add_files rootino files s) (\<lambda>s.
       rbind (rinode rootino s) (\<lambda>din.
       let off = (di_size din div BSIZE + 1) * BSIZE mod 2 ^ 32 in
       rbind (winode rootino (din\<lparr>di_size := off\<rparr>) s) (\<lambda>s.
       balloc_mkfs (i32 (int (freeblock s))) s))))))"

section \<open>The image while it is built\<close>

text \<open>The image with the bit map that \<open>balloc\<close> is going to write: the blocks handed out so far are in use. In this view each allocation of
  the program is an allocation of the kernel.\<close>

definition view :: "mkfs \<Rightarrow> nat \<Rightarrow> uchar list" where
  "view s = (\<lambda>b. img s ! b)(sb_bmapstart mkfs_sb := bitmap (freeblock s))"

definition disk_ok :: "mkfs \<Rightarrow> bool" where
  "disk_ok s \<longleftrightarrow> length (img s) = FSSIZE \<and> (\<forall>b < FSSIZE. length (img s ! b) = BSIZE) \<and> nmeta \<le> freeblock s \<and> freeblock s < BPB
     \<and> (\<forall>b < FSSIZE. freeblock s \<le> b \<or> sb_bmapstart mkfs_sb \<le> b \<and> b < nmeta \<longrightarrow> img s ! b = zeroes)"

text \<open>The position \<open>q\<close> of the file has a block now; it is the only one that may have changed.\<close>

definition extended :: "mkfs \<Rightarrow> nat list \<Rightarrow> nat \<times> nat list \<Rightarrow> mkfs \<Rightarrow> nat list \<Rightarrow> bool" where
  "extended s A q s' A' \<longleftrightarrow> disk_ok s' \<and> freeinode s' = freeinode s \<and> tree_ok mkfs_sb (view s') A' \<and> grows mkfs_sb (view s) A (view s') A'
     \<and> ptr (view s') A' q \<noteq> 0 \<and> freeblock s' = freeblock s + (if ptr (view s) A q = 0 then 1 else 0)
     \<and> (\<forall>r. valid_pos r \<longrightarrow> r \<noteq> q \<longrightarrow> ptr (view s') A' r = ptr (view s) A r)"

text \<open>What \<open>iappend_block\<close> does to the positions of the file.\<close>

definition taken :: "nat list \<Rightarrow> mkfs \<Rightarrow> nat \<Rightarrow> nat" where
  "taken A s fbn = (if ptr (view s) A (bpath fbn) = 0 then 1 else 0) + (if NDIRECT \<le> fbn \<and> A ! NDIRECT = 0 then 1 else 0)"

abbreviation MAXMK :: nat where "MAXMK \<equiv> NDIRECT + NINDIRECT"

text \<open>The tree with the slots \<open>A\<close> holds the bytes \<open>cs\<close>, no blocks beyond them, and zeros up to the end of the last block.\<close>

definition filled :: "(nat \<Rightarrow> uchar list) \<Rightarrow> nat list \<Rightarrow> uchar list \<Rightarrow> bool" where
  "filled B A cs \<longleftrightarrow> tree_ok mkfs_sb B A \<and> length cs \<le> MAXMK * BSIZE \<and> (A ! NDIRECT \<noteq> 0 \<longleftrightarrow> NDIRECT * BSIZE < length cs)
     \<and> A ! (NDIRECT + 1) = 0 \<and> A ! (NDIRECT + 2) = 0 \<and> (\<forall>bn < MAXMK. ptr B A (bpath bn) \<noteq> 0 \<longleftrightarrow> bn * BSIZE < length cs)
     \<and> (\<forall>i < MAXMK * BSIZE. fbyte B A i = (if i < length cs then cs ! i else 0))"

text \<open>The number of blocks that a file of \<open>n\<close> bytes takes.\<close>

definition need :: "nat \<Rightarrow> nat" where
  "need n = (n + (BSIZE - 1)) div BSIZE + (if NDIRECT * BSIZE < n then 1 else 0)"

definition node :: "(nat \<Rightarrow> uchar list) \<Rightarrow> nat \<Rightarrow> dinode" where
  "node B inum = get_dinode (B (IBLOCK inum mkfs_sb)) inum"

definition holds :: "(nat \<Rightarrow> uchar list) \<Rightarrow> nat \<Rightarrow> int \<Rightarrow> uchar list \<Rightarrow> bool" where
  "holds B inum ty cs \<longleftrightarrow> dinode_wf (node B inum) \<and> di_type (node B inum) = ty \<and> di_nlink (node B inum) = 1 \<and> di_size (node B inum) = length cs
     \<and> filled B (di_addrs (node B inum)) cs"

definition blocks_used :: "(int \<times> uchar list) list \<Rightarrow> nat" where
  "blocks_used Cs = sum_list (map (\<lambda>c. need (length (snd c))) Cs)"

text \<open>The inodes from 1 on have the types and contents \<open>Cs\<close>, and share no block.\<close>

definition built :: "mkfs \<Rightarrow> (int \<times> uchar list) list \<Rightarrow> bool" where
  "built s Cs \<longleftrightarrow> disk_ok s \<and> freeinode s = length Cs + 1 \<and> length Cs < NINODES \<and> freeblock s = nmeta + blocks_used Cs
     \<and> (\<forall>k < length Cs. holds (view s) (k + 1) (fst (Cs ! k)) (snd (Cs ! k)))
     \<and> (\<forall>j < length Cs. \<forall>k < length Cs. j \<noteq> k \<longrightarrow> (\<forall>c. \<not> (owned (view s) (di_addrs (node (view s) (j + 1))) c \<and> owned (view s) (di_addrs (node (view s) (k + 1))) c)))
     \<and> view s 1 = splice 0 sb_bytes zeroes \<and> (\<forall>b. 2 \<le> b \<and> b < 32 \<longrightarrow> view s b = zeroes)"

definition arg_name :: "uchar list \<times> uchar list list option \<Rightarrow> uchar list" where
  "arg_name f = (case fst f of c # cs \<Rightarrow> if c = 95 then cs else fst f | [] \<Rightarrow> fst f)"

definition arg_data :: "uchar list \<times> uchar list list option \<Rightarrow> uchar list" where
  "arg_data f = (case snd f of None \<Rightarrow> [] | Some pieces \<Rightarrow> concat pieces)"

definition root_entries :: "(uchar list \<times> uchar list list option) list \<Rightarrow> uchar list" where
  "root_entries fs = dirent_bytes ROOTINO [46] @ dirent_bytes ROOTINO [46, 46] @ concat (map (\<lambda>i. dirent_bytes (i + 2) (arg_name (fs ! i))) [0..<length fs])"

text \<open>The types and contents of the inodes from 1 on.\<close>

definition image_of :: "(uchar list \<times> uchar list list option) list \<Rightarrow> (int \<times> uchar list) list" where
  "image_of fs = (T_DIR, root_entries fs) # map (\<lambda>f. (T_FILE, arg_data f)) fs"

text \<open>The files can be read, have plain names, are small enough for the direct and the single indirect blocks, and there are enough inodes and blocks.\<close>

definition fits :: "(uchar list \<times> uchar list list option) list \<Rightarrow> bool" where
  "fits fs \<longleftrightarrow> length fs + 1 < NINODES \<and> nmeta + blocks_used (image_of fs) < BPB
     \<and> (\<forall>f \<in> set fs. 47 \<notin> set (fst f) \<and> snd f \<noteq> None \<and> length (arg_data f) \<le> MAXMK * BSIZE)"

text \<open>What is on the image: the super block, an empty log, the bit map of exactly the blocks handed out, the files with their contents, and the root
  directory with their names.\<close>

definition image_ok :: "(uchar list \<times> uchar list list option) list \<Rightarrow> uchar list list \<Rightarrow> bool" where
  "image_ok files d \<longleftrightarrow> length d = FSSIZE \<and> sb_of_bytes (d ! 1) = mkfs_sb \<and> (\<forall>b. 2 \<le> b \<and> b < 32 \<longrightarrow> d ! b = zeroes) \<and> fs_ok mkfs_sb ((!) d) FSSIZE
     \<and> (\<forall>b < FSSIZE. marked mkfs_sb ((!) d) b \<longleftrightarrow> b < nmeta + blocks_used (image_of files))
     \<and> (\<forall>i < length files. holds ((!) d) (i + 2) T_FILE (arg_data (files ! i)))
     \<and> di_type (node ((!) d) ROOTINO) = T_DIR \<and> di_size (node ((!) d) ROOTINO) = (length (root_entries files) div BSIZE + 1) * BSIZE
     \<and> filled ((!) d) (di_addrs (node ((!) d) ROOTINO)) (root_entries files)
     \<and> (\<forall>i j c. 1 \<le> i \<longrightarrow> i < j \<longrightarrow> j \<le> length files + 1 \<longrightarrow> \<not> (owned ((!) d) (di_addrs (node ((!) d) i)) c \<and> owned ((!) d) (di_addrs (node ((!) d) j)) c))"

text \<open>A program of three bytes and an empty file.\<close>

definition demo_files :: "(uchar list \<times> uchar list list option) list" where
  "demo_files = [([95, 99, 97, 116], Some [[1, 2], [3]]), ([82], Some [])]"

definition mk_machine :: "uchar list list \<Rightarrow> kstate" where
  "mk_machine d = upd_ic (\<lambda>c. c\<lparr>sb := mkfs_sb, inodes := (inodes c)[0 := (inodes c ! 0)\<lparr>i_dev := ROOTDEV, i_inum := 2, i_ref := 1\<rparr>]\<rparr>) (fs_machine d)"

definition thirty_files :: "(uchar list \<times> uchar list list option) list" where
  "thirty_files = replicate 30 ([97], Some [])"

lemma layout [simp]:
  "nmeta = 68" "sb_size mkfs_sb = FSSIZE" "sb_inodestart mkfs_sb = 32" "sb_bmapstart mkfs_sb = 58" "data_start mkfs_sb = 68"
  by (simp_all add: nmeta_def nlog_def ninodeblocks_def nbitmap_def mkfs_sb_def data_start_def)

lemma length_zeroes [simp]: "length zeroes = BSIZE"
  by (simp add: zeroes_def)

lemma length_bitmap [simp]: "length (bitmap n) = BSIZE"
  unfolding bitmap_def by (induction n) simp_all

lemma bit_free_bitmap: "n \<le> BPB \<Longrightarrow> bi < BPB \<Longrightarrow> bit_free (bitmap n) bi \<longleftrightarrow> n \<le> bi"
proof (induction n)
  case 0
  then show ?case by (simp add: bitmap_def zeroes_def bit_free_def div_less_iff_less_mult)
next
  case (Suc n)
  have "bitmap (Suc n) = bit_mark n (bitmap n)" by (simp add: bitmap_def)
  then show ?case using Suc bit_free_mark [of n "bitmap n" bi] by auto
qed

lemma sector_id [simp]: "sec < FSSIZE \<Longrightarrow> sector sec = sec"
  by (simp add: sector_def)

lemma view_marked:
  assumes "disk_ok s" "b < FSSIZE"
  shows "marked mkfs_sb (view s) b \<longleftrightarrow> b < freeblock s"
proof (cases "b < BPB")
  case True
  then have "BBLOCK b mkfs_sb = 58" by (simp add: BBLOCK_def)
  then show ?thesis using True assms(1) bit_free_bitmap [of "freeblock s" b] by (auto simp: marked_def view_def disk_ok_def)
next
  case False
  have "1 \<le> b div BPB" using False by (simp add: less_eq_div_iff_mult_less_eq)
  moreover have "b div BPB < 10" using assms(2) by (simp add: div_less_iff_less_mult)
  ultimately have "view s (BBLOCK b mkfs_sb) = zeroes" using assms(1) by (auto simp: BBLOCK_def view_def disk_ok_def)
  moreover have "b mod BPB div 8 < BSIZE" by (simp add: div_less_iff_less_mult)
  ultimately have "bit_free (view s (BBLOCK b mkfs_sb)) (b mod BPB)" by (simp add: bit_free_def zeroes_def)
  then show ?thesis using False assms(1) by (simp add: marked_def disk_ok_def)
qed

lemma view_ok:
  assumes "disk_ok s"
  shows "fs_ok mkfs_sb (view s) FSSIZE" "first_free mkfs_sb (view s) (freeblock s)"
  using view_marked [OF assms] assms by (auto simp: fs_ok_def first_free_def disk_ok_def view_def)

lemma rsect_view: "disk_ok s \<Longrightarrow> b < FSSIZE \<Longrightarrow> b \<noteq> 58 \<Longrightarrow> rsect b s = Inr (view s b)"
  by (simp add: rsect_def view_def disk_ok_def)

lemma wsect_view:
  assumes "disk_ok s" "b < freeblock s" "b < 58 \<or> 68 \<le> b" "length d = BSIZE"
  shows "view (wsect b d s) = (view s)(b := d)" "disk_ok (wsect b d s)" "freeinode (wsect b d s) = freeinode s" "freeblock (wsect b d s) = freeblock s"
proof -
  have b: "b < FSSIZE" "length (img s) = FSSIZE" using assms(1,2) by (simp_all add: disk_ok_def)
  show "freeinode (wsect b d s) = freeinode s" and f: "freeblock (wsect b d s) = freeblock s" by (simp_all add: wsect_def Let_def)
  have i: "img (wsect b d s) = (img s)[b := d]" using b by (simp add: wsect_def)
  then show "view (wsect b d s) = (view s)(b := d)" using b assms(3) f by (auto simp: view_def)
  show "disk_ok (wsect b d s)" using assms b by (auto simp: disk_ok_def i f nth_list_update)
qed

lemma new_block_view:
  assumes "disk_ok s" "freeblock s + 1 < BPB"
  shows "view (new_block s) = alloc_block mkfs_sb (freeblock s) (view s)" "disk_ok (new_block s)"
    "freeinode (new_block s) = freeinode s" "freeblock (new_block s) = freeblock s + 1"
proof -
  show "freeinode (new_block s) = freeinode s" and f: "freeblock (new_block s) = freeblock s + 1" using assms(2) by (simp_all add: new_block_def)
  have i: "img (new_block s) = img s" by (simp add: new_block_def)
  show "disk_ok (new_block s)" using assms by (auto simp: disk_ok_def f i)
  have z: "img s ! freeblock s = zeroes" "68 \<le> freeblock s" using assms by (auto simp: disk_ok_def)
  have "bitmap (Suc (freeblock s)) = bit_mark (freeblock s) (bitmap (freeblock s))" by (simp add: bitmap_def)
  moreover have "BBLOCK (freeblock s) mkfs_sb = 58" "freeblock s mod BPB = freeblock s" using assms(2) by (simp_all add: BBLOCK_def)
  ultimately show "view (new_block s) = alloc_block mkfs_sb (freeblock s) (view s)"
    using z by (auto simp: view_def alloc_block_def mark_block_def f i zeroes_def)
qed

section \<open>Blocks of a file\<close>

lemma extended_refl: "disk_ok s \<Longrightarrow> tree_ok mkfs_sb (view s) A \<Longrightarrow> ptr (view s) A q \<noteq> 0 \<Longrightarrow> extended s A q s A"
  by (simp add: extended_def grows_refl)

lemma alloc_slot_ok:
  assumes d: "disk_ok s" and t: "tree_ok mkfs_sb (view s) (di_addrs din)" and k: "k < NDIRECT + 3" and room: "di_addrs din ! k = 0 \<Longrightarrow> freeblock s + 1 < BPB"
  shows "\<exists>A' s'. alloc_slot k din s = (din\<lparr>di_addrs := A'\<rparr>, s') \<and> extended s (di_addrs din) (k, []) s' A'"
proof (cases "di_addrs din ! k = 0")
  case True
  let ?A = "(di_addrs din)[k := freeblock s]"
  note nb = new_block_view [OF d room [OF True]]
  have v: "valid_pos (k, [])" using k by (simp add: valid_pos_def)
  have "0 < data_start mkfs_sb" by simp
  note g = slot_grows [OF t view_ok(1) [OF d] view_ok(2) [OF d] k True this]
  have "freeblock s \<noteq> 0" using d by (simp add: disk_ok_def)
  then have "extended s (di_addrs din) (k, []) (new_block s) ?A" using True g(1,2) g(3) nb v ptr_Nil [of "view s" "di_addrs din" k] by (simp add: extended_def)
  then show ?thesis using True by (intro exI [of _ ?A] exI [of _ "new_block s"]) (simp add: alloc_slot_def)
next
  case False
  then have "extended s (di_addrs din) (k, []) s (di_addrs din)" using d t by (simp add: extended_refl ptr_Nil)
  then show ?thesis using False by (intro exI [of _ "di_addrs din"] exI [of _ s]) (simp add: alloc_slot_def)
qed

lemma entry_ok:
  assumes d: "disk_ok s" and t: "tree_ok mkfs_sb (view s) A" and a: "A ! NDIRECT = a" "a \<noteq> 0" and j: "j < NINDIRECT"
    and room: "get32 (view s a) (4 * j) = 0 \<Longrightarrow> freeblock s + 1 < BPB"
  defines "ind \<equiv> put32 (4 * j) (freeblock s) (view s a)"
  shows "rsect a s = Inr (view s a)" "ptr (view s) A (NDIRECT, [j]) = get32 (view s a) (4 * j)"
    "get32 (view s a) (4 * j) = 0 \<Longrightarrow> extended s A (NDIRECT, [j]) (wsect a ind (new_block s)) A
       \<and> get32 ind (4 * j) = ptr (view (wsect a ind (new_block s))) A (NDIRECT, [j])"
proof -
  have v: "valid_pos (NDIRECT, [])" "valid_pos (NDIRECT, [] @ [j])" using j by (simp_all add: valid_pos_def depth_def)
  have pa: "ptr (view s) A (NDIRECT, []) = a" using a(1) by (simp add: ptr_Nil)
  have ar: "68 \<le> a" "a < FSSIZE" "marked mkfs_sb (view s) a" using tree_okD(2) [OF t v(1)] pa a(2) by auto
  have af: "a < freeblock s" "length (view s a) = BSIZE" using view_marked [OF d ar(2)] ar view_ok(1) [OF d] by (simp_all add: fs_ok_def)
  show "rsect a s = Inr (view s a)" using rsect_view [OF d ar(2)] ar(1) by simp
  show e: "ptr (view s) A (NDIRECT, [j]) = get32 (view s a) (4 * j)" using ptr_snoc [of "view s" A NDIRECT "[]" j] pa a(2) by simp
  assume True: "get32 (view s a) (4 * j) = 0"
  let ?s = "wsect a ind (new_block s)"
  note nb = new_block_view [OF d room [OF True]] and fr = fresh_block [OF t view_ok(1) [OF d] view_ok(2) [OF d]]
  have fb: "68 \<le> freeblock s" "freeblock s < BPB" using d by (auto simp: disk_ok_def)
  have ab: "alloc_block mkfs_sb (freeblock s) (view s) a = view s a" using fr(2) [OF v(1)] pa a(2) by simp
  have li: "length ind = BSIZE" using af(2) j by (simp add: ind_def)
  have "a < freeblock (new_block s)" "a < 58 \<or> 68 \<le> a" using af(1) nb(4) ar(1) by simp_all
  note w = wsect_view [OF nb(2) this li]
  have "0 < data_start mkfs_sb" "FSSIZE \<le> 2 ^ 31" by simp_all
  note g = entry_grows [OF t view_ok(1) [OF d] this(2) view_ok(2) [OF d] v(2) this(1) pa a(2) True]
  have vs: "(alloc_block mkfs_sb (freeblock s) (view s))(a := put32 (4 * j) (freeblock s) (alloc_block mkfs_sb (freeblock s) (view s) a)) = view ?s"
    unfolding w(1) nb(1) ab by (simp only: ind_def)
  have "get32 ind (4 * j) = freeblock s" using fb(2) af(2) j by (simp add: ind_def get32_put32_same)
  then show "extended s A (NDIRECT, [j]) ?s A \<and> get32 ind (4 * j) = ptr (view ?s) A (NDIRECT, [j])"
    using True w(2-4) nb(3,4) g(1,2,3) [unfolded vs] v(2) fb(1) e by (simp add: extended_def)
qed

lemma bpath_small: "fbn < NDIRECT \<Longrightarrow> bpath fbn = (fbn, [])" "NDIRECT \<le> fbn \<Longrightarrow> fbn < NDIRECT + NINDIRECT \<Longrightarrow> bpath fbn = (NDIRECT, [fbn - NDIRECT])"
  by (auto simp: bpath_def Let_def)

lemma iappend_block_ok:
  assumes d: "disk_ok s" and t: "tree_ok mkfs_sb (view s) (di_addrs din)" and f: "fbn < NDIRECT + NINDIRECT" and room: "freeblock s + taken (di_addrs din) s fbn < BPB"
  shows "\<exists>A' s'. iappend_block fbn din s = Inr (ptr (view s') A' (bpath fbn), din\<lparr>di_addrs := A'\<rparr>, s') \<and> disk_ok s' \<and> freeinode s' = freeinode s
    \<and> tree_ok mkfs_sb (view s') A' \<and> grows mkfs_sb (view s) (di_addrs din) (view s') A'
    \<and> ptr (view s') A' (bpath fbn) \<noteq> 0 \<and> freeblock s' = freeblock s + taken (di_addrs din) s fbn
    \<and> (\<forall>r. valid_pos r \<longrightarrow> r \<noteq> bpath fbn \<longrightarrow> \<not> (NDIRECT \<le> fbn \<and> r = (NDIRECT, [])) \<longrightarrow> ptr (view s') A' r = ptr (view s) (di_addrs din) r)
    \<and> (NDIRECT \<le> fbn \<longrightarrow> A' ! NDIRECT \<noteq> 0)"
proof (cases "fbn < NDIRECT")
  case True
  note b = bpath_small(1) [OF True]
  have tk: "taken (di_addrs din) s fbn = (if di_addrs din ! fbn = 0 then 1 else 0)" using True b by (simp add: taken_def ptr_Nil)
  have r: "fbn < NDIRECT + 3" "di_addrs din ! fbn = 0 \<Longrightarrow> freeblock s + 1 < BPB" using True room tk by simp_all
  obtain A' s' where x: "alloc_slot fbn din s = (din\<lparr>di_addrs := A'\<rparr>, s')" "extended s (di_addrs din) (fbn, []) s' A'" using alloc_slot_ok [OF d t r] by blast
  have run: "iappend_block fbn din s = Inr (ptr (view s') A' (bpath fbn), din\<lparr>di_addrs := A'\<rparr>, s')" using True x(1) b by (simp add: iappend_block_def ptr_Nil)
  have "freeblock s' = freeblock s + taken (di_addrs din) s fbn" using x(2) tk by (simp add: extended_def ptr_Nil)
  moreover have "\<not> NDIRECT \<le> fbn" using True by simp
  ultimately show ?thesis using b x(2) run unfolding extended_def by (intro exI [of _ A'] exI [of _ s']) (simp only: simp_thms, blast)
next
  case False
  let ?j = "fbn - NDIRECT" and ?A = "di_addrs din"
  have j: "?j < NINDIRECT" "NDIRECT \<le> fbn" using f False by auto
  note b = bpath_small(2) [OF j(2) f]
  have v: "valid_pos (NDIRECT, [?j])" "valid_pos (NDIRECT, [])" using j by (simp_all add: valid_pos_def depth_def)
  have p0: "ptr (view s) ?A (NDIRECT, [?j]) = 0" if "?A ! NDIRECT = 0" using that ptr_snoc [of "view s" ?A NDIRECT "[]" ?j] by (simp add: ptr_Nil)
  have r: "NDIRECT < NDIRECT + 3" "?A ! NDIRECT = 0 \<Longrightarrow> freeblock s + 1 < BPB" using room j by (simp_all add: taken_def)
  obtain A1 s1 where x: "alloc_slot NDIRECT din s = (din\<lparr>di_addrs := A1\<rparr>, s1)" "extended s ?A (NDIRECT, []) s1 A1" using alloc_slot_ok [OF d t r] by blast
  define a where "a = A1 ! NDIRECT"
  have e1: "disk_ok s1" "freeinode s1 = freeinode s" "tree_ok mkfs_sb (view s1) A1" "grows mkfs_sb (view s) ?A (view s1) A1" "a \<noteq> 0"
    "freeblock s1 = freeblock s + (if ?A ! NDIRECT = 0 then 1 else 0)"
    using x(2) by (simp_all add: extended_def ptr_Nil a_def)
  have keep: "ptr (view s1) A1 r = ptr (view s) ?A r" if "valid_pos r" "r \<noteq> (NDIRECT, [])" for r using x(2) that unfolding extended_def by blast
  have pj: "ptr (view s1) A1 (NDIRECT, [?j]) = ptr (view s) ?A (NDIRECT, [?j])" by (rule keep [OF v(1)]) simp
  have ej: "get32 (view s1 a) (4 * ?j) = ptr (view s1) A1 (NDIRECT, [?j])" using ptr_snoc [of "view s1" A1 NDIRECT "[]" ?j] e1(5) by (simp add: ptr_Nil a_def)
  have room1: "freeblock s1 + 1 < BPB" if "get32 (view s1 a) (4 * ?j) = 0" using that room e1(6) ej pj b j(2) by (simp add: taken_def)
  note e = entry_ok [OF e1(1,3) a_def [symmetric] e1(5) j(1) room1]
  define s' where "s' = (if get32 (view s1 a) (4 * ?j) = 0 then wsect a (put32 (4 * ?j) (freeblock s1) (view s1 a)) (new_block s1) else s1)"
  have e2: "extended s1 A1 (NDIRECT, [?j]) s' A1"
    using e(3) extended_refl [OF e1(1,3), of "(NDIRECT, [?j])"] ej by (auto simp: s'_def)
  have run: "iappend_block fbn din s = Inr (ptr (view s') A1 (bpath fbn), din\<lparr>di_addrs := A1\<rparr>, s')"
  proof -
    have i: "iappend_block fbn din s = (if get32 (view s1 a) (4 * ?j) = 0
        then Inr (get32 (put32 (4 * ?j) (freeblock s1) (view s1 a)) (4 * ?j), din\<lparr>di_addrs := A1\<rparr>, s') else Inr (get32 (view s1 a) (4 * ?j), din\<lparr>di_addrs := A1\<rparr>, s'))"
      unfolding iappend_block_def if_not_P [OF False] x(1) using e(1) j(1) by (simp add: rbind_def s'_def Let_def a_def [symmetric])
    show ?thesis unfolding i b using e(3) ej by (simp add: s'_def)
  qed
  have g: "grows mkfs_sb (view s) ?A (view s') A1" by (rule grows_trans [OF t e1(3) _ e1(4)]) (use e2 in \<open>simp_all add: extended_def\<close>)
  have "freeblock s' = freeblock s + taken ?A s fbn" using e2 e1(6) pj b j(2) by (simp add: extended_def taken_def)
  moreover have "\<forall>r. valid_pos r \<longrightarrow> r \<noteq> bpath fbn \<longrightarrow> \<not> (NDIRECT \<le> fbn \<and> r = (NDIRECT, [])) \<longrightarrow> ptr (view s') A1 r = ptr (view s) ?A r"
    using e2 keep b j(2) unfolding extended_def by metis
  ultimately show ?thesis using run e2 e1(2,5) g b by (intro exI [of _ A1] exI [of _ s']) (simp add: extended_def a_def)
qed

section \<open>Contents\<close>

lemma need_step:
  assumes "0 < k" "n mod BSIZE + k \<le> BSIZE"
  shows "need (n + k) = need n + (if n mod BSIZE = 0 then 1 else 0) + (if n = NDIRECT * BSIZE then 1 else 0)"
proof -
  define q r where "q = n div BSIZE" and "r = n mod BSIZE"
  have n: "n = BSIZE * q + r" "r < BSIZE" by (simp_all add: q_def r_def)
  have "n + k + 511 = (r + k - 1) + BSIZE * (q + 1)" "r + k - 1 < BSIZE" using n assms by (simp_all add: r_def)
  then have 1: "(n + k + 511) div BSIZE = q + 1" by (simp only: div_mult_self2 div_less)
  have 2: "(n + 511) div BSIZE = q + (if r = 0 then 0 else 1)"
  proof (cases "r = 0")
    case False
    then have "n + 511 = (r - 1) + BSIZE * (q + 1)" "r - 1 < BSIZE" using n by simp_all
    then have "(n + 511) div BSIZE = q + 1" by (simp only: div_mult_self2 div_less)
    then show ?thesis using False by simp
  qed (use n in simp)
  have 3: "(NDIRECT * BSIZE < n + k) \<longleftrightarrow> NDIRECT * BSIZE < n \<or> n = NDIRECT * BSIZE"
  proof (cases "10 \<le> q")
    case False
    then have "q \<le> 9" by simp
    then have "BSIZE * q \<le> BSIZE * 9" by (rule mult_le_mono2)
    then show ?thesis using n assms(2) unfolding r_def [symmetric] by auto
  next
    case True
    then have "BSIZE * 10 \<le> BSIZE * q" by (rule mult_le_mono2)
    then show ?thesis using n assms(1) by auto
  qed
  show ?thesis using 1 2 3 unfolding need_def r_def by auto
qed

lemma block_part: "n div BSIZE * BSIZE < n \<longleftrightarrow> n mod BSIZE \<noteq> 0"
  using mult_div_mod_eq [of BSIZE n] by (metis less_add_same_cancel1 mult.commute neq0_conv)

lemma filled_taken:
  assumes "filled (view s) A cs" "length cs < MAXMK * BSIZE"
  shows "taken A s (length cs div BSIZE) = (if length cs mod BSIZE = 0 then 1 else 0) + (if length cs = NDIRECT * BSIZE then 1 else 0)"
proof -
  let ?n = "length cs" and ?q = "length cs div BSIZE"
  have e: "?n = BSIZE * ?q + ?n mod BSIZE" by simp
  have "?q < MAXMK" using assms(2) by (simp add: div_less_iff_less_mult)
  then have p: "ptr (view s) A (bpath ?q) \<noteq> 0 \<longleftrightarrow> ?q * BSIZE < ?n" using assms(1) by (simp add: filled_def)
  have "?q * BSIZE < ?n \<longleftrightarrow> ?n mod BSIZE \<noteq> 0" by (rule block_part)
  moreover have "NDIRECT \<le> ?q \<longleftrightarrow> NDIRECT * BSIZE \<le> ?n" by (simp add: less_eq_div_iff_mult_less_eq)
  moreover have "A ! NDIRECT \<noteq> 0 \<longleftrightarrow> NDIRECT * BSIZE < ?n" using assms(1) by (simp add: filled_def)
  ultimately show ?thesis using p unfolding taken_def by auto
qed

lemma fbyte_splice:
  assumes w: "\<And>bn. bn < M \<Longrightarrow> fblock B' A' bn = (if bn = off div BSIZE then splice (off mod BSIZE) bs (fblock B A bn) else fblock B A bn)"
    and l: "\<And>bn. bn < M \<Longrightarrow> length (fblock B A bn) = BSIZE" and fit: "off mod BSIZE + length bs \<le> BSIZE" and i: "i < M * BSIZE"
  shows "fbyte B' A' i = (if off \<le> i \<and> i < off + length bs then bs ! (i - off) else fbyte B A i)"
proof -
  have bn: "i div BSIZE < M" using i by (simp add: less_mult_imp_div_less)
  have eo: "BSIZE * (off div BSIZE) + off mod BSIZE = off" and ei: "BSIZE * (i div BSIZE) + i mod BSIZE = i" by simp_all
  show ?thesis
  proof (cases "i div BSIZE = off div BSIZE")
    case True
    have "off \<le> i \<longleftrightarrow> off mod BSIZE \<le> i mod BSIZE" "i < off + length bs \<longleftrightarrow> i mod BSIZE < off mod BSIZE + length bs" "i - off = i mod BSIZE - off mod BSIZE"
      using eo ei True by linarith+
    then show ?thesis using w [OF bn] True l [OF bn] fit by (simp add: fbyte_def nth_splice)
  next
    case False
    have "\<not> (off \<le> i \<and> i < off + length bs)"
    proof
      assume h: "off \<le> i \<and> i < off + length bs"
      then have "off div BSIZE \<le> i div BSIZE" by (simp add: div_le_mono)
      then have "off div BSIZE + 1 \<le> i div BSIZE" using False by simp
      then have "BSIZE * (off div BSIZE + 1) \<le> BSIZE * (i div BSIZE)" by (rule mult_le_mono2)
      then show False using h eo ei fit by simp
    qed
    then show ?thesis using w [OF bn] False by (auto simp: fbyte_def)
  qed
qed

lemma length_fblock_view: "disk_ok s \<Longrightarrow> tree_ok mkfs_sb (view s) A \<Longrightarrow> bn < MAXFILE \<Longrightarrow> length (fblock (view s) A bn) = BSIZE"
  using view_ok(1) [of s] tree_okD(2) [of mkfs_sb "view s" A "bpath bn"] data_pos_valid [OF bpath_data] by (auto simp: fblock_def Let_def fs_ok_def)

lemma bpath_eq: "bn < MAXMK \<Longrightarrow> fbn < MAXMK \<Longrightarrow> bpath bn = bpath fbn \<longleftrightarrow> bn = fbn" "bn < MAXMK \<Longrightarrow> bpath bn \<noteq> (NDIRECT, [])"
  using bpath_small [of bn] bpath_small [of fbn] by (cases "bn < NDIRECT"; cases "fbn < NDIRECT"; force)+

lemma blocks_step:
  assumes "0 < k" "n mod BSIZE + k \<le> BSIZE"
  shows "bn * BSIZE < n + k \<longleftrightarrow> bn * BSIZE < n \<or> bn = n div BSIZE"
proof -
  define q r where "q = n div BSIZE" and "r = n mod BSIZE"
  have n: "n = BSIZE * q + r" "r < BSIZE" by (simp_all add: q_def r_def)
  have r: "r + k \<le> BSIZE" using assms(2) by (simp add: r_def)
  consider "bn + 1 \<le> q" | "bn = q" | "q + 1 \<le> bn" by linarith
  then show ?thesis
  proof cases
    case 1
    then have "BSIZE * (bn + 1) \<le> BSIZE * q" by (rule mult_le_mono2)
    then have "bn * BSIZE < n" using n by simp
    then show ?thesis by simp
  next
    case 2
    then show ?thesis using n assms(1) unfolding q_def [symmetric] by simp
  next
    case 3
    then have "BSIZE * (q + 1) \<le> BSIZE * bn" by (rule mult_le_mono2)
    then have "n + k \<le> bn * BSIZE" using n r by simp
    then show ?thesis using 3 unfolding q_def [symmetric] by auto
  qed
qed

text \<open>The contents after a block has been found for the next part and the part has been written.\<close>

lemma filled_write:
  assumes f: "filled B A cs" and xs: "xs \<noteq> []" "length cs mod BSIZE + length xs \<le> BSIZE" "length cs + length xs \<le> MAXMK * BSIZE"
    and len: "\<And>bn. bn < MAXFILE \<Longrightarrow> length (fblock B A bn) = BSIZE" and fs: "fs_ok mkfs_sb B' FSSIZE"
    and g: "tree_ok mkfs_sb B' A'" "grows mkfs_sb B A B' A'" "ptr B' A' (bpath (length cs div BSIZE)) \<noteq> 0"
      "\<And>r. valid_pos r \<Longrightarrow> r \<noteq> bpath (length cs div BSIZE) \<Longrightarrow> \<not> (NDIRECT \<le> length cs div BSIZE \<and> r = (NDIRECT, [])) \<Longrightarrow> ptr B' A' r = ptr B A r"
      "NDIRECT \<le> length cs div BSIZE \<Longrightarrow> A' ! NDIRECT \<noteq> 0"
    and x: "x = ptr B' A' (bpath (length cs div BSIZE))" and u: "u = splice (length cs mod BSIZE) xs (B' x)" "length u = BSIZE"
  shows "filled (B'(x := u)) A' (cs @ xs)"
proof -
  let ?n = "length cs"
  let ?q = "?n div BSIZE"
  have k: "0 < length xs" using xs(1) by simp
  then have k: "0 < length xs" "?n < MAXMK * BSIZE" using xs(3) by linarith+
  have q: "?q < MAXMK" using k(2) by (simp add: div_less_iff_less_mult)
  have t: "tree_ok mkfs_sb B A" using f by (simp add: filled_def)
  have mf: "bn < MAXFILE" if "bn < MAXMK" for bn using that by simp
  have fb: "B' x = fblock B' A' ?q" using g(3) by (simp add: fblock_def x Let_def)
  note tw = tree_write [OF g(1) fs bpath_data [OF mf [OF q]] x [symmetric] g(3) [folded x] u(2)]
  have "fblock (B'(x := u)) A' bn = (if bn = ?q then splice (?n mod BSIZE) xs (fblock B A bn) else fblock B A bn)" if "bn < MAXMK" for bn
  proof -
    have "splice (?n mod BSIZE) xs (fblock B A bn) = u" if "bn = ?q" using grows_fblock [OF t g(1,2) mf [OF q]] that by (simp add: u(1) fb)
    then show ?thesis using tw(4) [OF mf [OF that]] bpath_eq(1) [OF that q] grows_fblock [OF t g(1,2) mf [OF that]] by simp
  qed
  then have bt: "fbyte (B'(x := u)) A' i = (if ?n \<le> i \<and> i < ?n + length xs then xs ! (i - ?n) else fbyte B A i)" if "i < MAXMK * BSIZE" for i
    by (rule fbyte_splice [OF _ len [OF mf] xs(2) that])
  have "fbyte (B'(x := u)) A' i = (if i < length (cs @ xs) then (cs @ xs) ! i else 0)" if "i < MAXMK * BSIZE" for i
    using bt [OF that] f that by (auto simp: filled_def nth_append)
  moreover have "ptr (B'(x := u)) A' (bpath bn) \<noteq> 0 \<longleftrightarrow> bn * BSIZE < length (cs @ xs)" if bn: "bn < MAXMK" for bn
  proof -
    have v: "valid_pos (bpath bn)" using bpath_data [OF mf [OF bn]] data_pos_valid by auto
    have "ptr (B'(x := u)) A' (bpath bn) = ptr B' A' (bpath bn)" using tw(3) [OF v] by simp
    then show ?thesis
      using g(3) g(4) [OF v] bpath_eq [OF bn] q f bn blocks_step [OF k(1) xs(2), of bn] by (cases "bn = ?q") (auto simp: filled_def)
  qed
  moreover have "A' ! (NDIRECT + 1) = 0" "A' ! (NDIRECT + 2) = 0"
  proof -
    have z: "A' ! (NDIRECT + l) = A ! (NDIRECT + l)" if "l = 1 \<or> l = 2" for l
      using g(4) [of "(NDIRECT + l, [])"] that bpath_small [of ?q] q by (cases "?q < NDIRECT") (auto simp: ptr_Nil valid_pos_def)
    show "A' ! (NDIRECT + 1) = 0" "A' ! (NDIRECT + 2) = 0" using z [of 1] z [of 2] f by (simp_all add: filled_def)
  qed
  moreover have "A' ! NDIRECT \<noteq> 0 \<longleftrightarrow> NDIRECT * BSIZE < length (cs @ xs)"
  proof (cases "NDIRECT \<le> ?q")
    case True
    then have "NDIRECT * BSIZE \<le> ?n" by (simp add: less_eq_div_iff_mult_less_eq)
    then have "NDIRECT * BSIZE < ?n + length xs" using k(1) by linarith
    then show ?thesis using g(5) [OF True] by simp
  next
    case False
    then have l: "?n < NDIRECT * BSIZE" by (simp add: not_le div_less_iff_less_mult)
    have "A' ! NDIRECT = A ! NDIRECT" using g(4) [of "(NDIRECT, [])"] False bpath_eq(2) [OF q] by (auto simp: ptr_Nil valid_pos_def)
    then have "A' ! NDIRECT = 0" using f l by (simp add: filled_def)
    moreover have "?n + length xs \<le> NDIRECT * BSIZE"
    proof (rule ccontr)
      assume "\<not> ?thesis"
      then have "NDIRECT * BSIZE < ?n + length xs" by simp
      then show False using blocks_step [OF k(1) xs(2), of NDIRECT] l False by auto
    qed
    ultimately show ?thesis by simp
  qed
  ultimately show ?thesis using tw(1) xs(3) by (simp add: filled_def)
qed

text \<open>One round of the loop of \<open>iappend\<close>.\<close>

lemma piece_ok:
  assumes d: "disk_ok s" and f: "filled (view s) (di_addrs din) cs" and xs: "xs \<noteq> []" "length cs mod BSIZE + length xs \<le> BSIZE" "length cs + length xs \<le> MAXMK * BSIZE"
    and room: "freeblock s + need (length cs + length xs) < BPB + need (length cs)"
  shows "\<exists>x A' s' s''. iappend_block (length cs div BSIZE) din s = Inr (x, din\<lparr>di_addrs := A'\<rparr>, s') \<and> rsect x s' = Inr (view s' x)
    \<and> s'' = wsect x (splice (length cs mod BSIZE) xs (view s' x)) s' \<and> disk_ok s'' \<and> freeinode s'' = freeinode s
    \<and> freeblock s'' + need (length cs) = freeblock s + need (length cs + length xs)
    \<and> filled (view s'') A' (cs @ xs) \<and> edits mkfs_sb (view s) (di_addrs din) (view s'') A'"
proof -
  let ?n = "length cs" and ?A = "di_addrs din" and ?B = "view s"
  let ?q = "?n div BSIZE"
  have k: "0 < length xs" using xs(1) by simp
  then have k: "0 < length xs" "?n < MAXMK * BSIZE" using xs(3) by linarith+
  have q: "?q < MAXMK" using k(2) by (simp add: div_less_iff_less_mult)
  have t: "tree_ok mkfs_sb ?B ?A" using f by (simp add: filled_def)
  have tk: "need (?n + length xs) = need ?n + taken ?A s ?q" using filled_taken [OF f k(2)] need_step [OF k(1) xs(2)] by simp
  obtain A' s' where g: "iappend_block ?q din s = Inr (ptr (view s') A' (bpath ?q), din\<lparr>di_addrs := A'\<rparr>, s')" "disk_ok s'" "freeinode s' = freeinode s"
      "tree_ok mkfs_sb (view s') A'" "grows mkfs_sb ?B ?A (view s') A'" "ptr (view s') A' (bpath ?q) \<noteq> 0" "freeblock s' = freeblock s + taken ?A s ?q"
      "\<And>r. valid_pos r \<Longrightarrow> r \<noteq> bpath ?q \<Longrightarrow> \<not> (NDIRECT \<le> ?q \<and> r = (NDIRECT, [])) \<Longrightarrow> ptr (view s') A' r = ptr ?B ?A r" "NDIRECT \<le> ?q \<Longrightarrow> A' ! NDIRECT \<noteq> 0"
    using iappend_block_ok [OF d t q] room tk by auto
  define x where "x = ptr (view s') A' (bpath ?q)"
  define u where "u = splice (?n mod BSIZE) xs (view s' x)"
  have mf: "bn < MAXFILE" if "bn < MAXMK" for bn using that by simp
  have dq: "data_pos (bpath ?q)" "valid_pos (bpath ?q)" using bpath_data [OF mf [OF q]] data_pos_valid by auto
  have xr: "68 \<le> x" "x < FSSIZE" "marked mkfs_sb (view s') x" using tree_okD(2) [OF g(4) dq(2)] g(6) by (auto simp: x_def)
  have xf: "x < freeblock s'" using view_marked [OF g(2) xr(2)] xr(3) by simp
  have fb: "view s' x = fblock (view s') A' ?q" using g(6) by (simp add: fblock_def x_def Let_def)
  have lu: "length u = BSIZE" using length_fblock_view [OF g(2,4) mf [OF q]] xs(2) by (simp add: u_def fb)
  have "x < 58 \<or> 68 \<le> x" using xr(1) by simp
  note w = wsect_view [OF g(2) xf this lu] and tw = tree_write [OF g(4) view_ok(1) [OF g(2)] dq(1) x_def [symmetric] g(6) [folded x_def] lu]
  have "filled (view (wsect x u s')) A' (cs @ xs)"
    unfolding w(1) by (rule filled_write [OF f xs length_fblock_view [OF d t] view_ok(1) [OF g(2)] g(4,5,6,8,9) x_def u_def lu])
  moreover have "edits mkfs_sb ?B ?A (view (wsect x u s')) A'"
    using edits_trans [OF _ grows_edits [OF g(5)]] write_edits [OF g(4) view_ok(1) [OF g(2)] dq(1) x_def [symmetric] g(6) [folded x_def] lu] tw(1) by (simp add: w(1))
  moreover have "rsect x s' = Inr (view s' x)" using rsect_view [OF g(2) xr(2)] xr(1) by simp
  ultimately show ?thesis using g(1,3,7) w tk
    by (intro exI [of _ x] exI [of _ A'] exI [of _ s'] exI [of _ "wsect x u s'"]) (simp add: x_def u_def)
qed

declare iappend_loop.simps [simp del]

lemma need_mono: "m \<le> n \<Longrightarrow> need m \<le> need n"
  unfolding need_def by (intro add_mono div_le_mono) auto

lemma iappend_loop_ok:
  assumes "disk_ok s" "filled (view s) (di_addrs din) cs" "length cs + length p \<le> MAXMK * BSIZE"
    and "freeblock s + need (length cs + length p) < BPB + need (length cs)"
  shows "\<exists>A' s'. iappend_loop din (length cs) p s = Inr (length cs + length p, din\<lparr>di_addrs := A'\<rparr>, s') \<and> disk_ok s' \<and> freeinode s' = freeinode s
    \<and> freeblock s' + need (length cs) = freeblock s + need (length cs + length p)
    \<and> filled (view s') A' (cs @ p) \<and> edits mkfs_sb (view s) (di_addrs din) (view s') A'"
  using assms
proof (induction p arbitrary: cs s din rule: length_induct)
  case step: (1 p)
  show ?case
  proof (cases "p = []")
    case True
    then show ?thesis using step.prems edits_refl by (intro exI [of _ "di_addrs din"] exI [of _ s]) (simp add: iappend_loop.simps [of din "length cs" "[]" s])
  next
    case False
    let ?n = "length cs"
    let ?q = "?n div BSIZE"
    define n1 where "n1 = chunk ?n (length p)"
    define xs where "xs = take n1 p"
    have c: "0 < n1" "n1 \<le> length p" "?n mod BSIZE + n1 \<le> BSIZE" using chunk_props(1-3) [of "length p" ?n] False by (simp_all add: n1_def)
    have xs: "xs \<noteq> []" "length xs = n1" "?n + length xs \<le> MAXMK * BSIZE" using c step.prems(3) by (auto simp: xs_def)
    have e: "?n = BSIZE * ?q + ?n mod BSIZE" by simp
    have "(q + 1) * BSIZE - (BSIZE * q + r) = BSIZE - r" for q r :: nat by simp
    then have "(?q + 1) * BSIZE - ?n = BSIZE - ?n mod BSIZE" using e by metis
    then have n1: "min (length p) ((?q + 1) * BSIZE - ?n) = n1" "?n - ?q * BSIZE = ?n mod BSIZE"
      by (simp_all only: n1_def chunk_def minus_div_mult_eq_mod)
    have q: "?q < MAXFILE" using step.prems(3) False by (simp add: div_less_iff_less_mult)
    have m: "need (?n + length xs) \<le> need (?n + length p)" using xs(2) c(2) by (intro need_mono) simp
    have r1: "freeblock s + need (?n + length xs) < BPB + need ?n" "?n mod BSIZE + length xs \<le> BSIZE" using m step.prems(4) c(3) xs(2) by simp_all
    obtain x A1 s1 s2 where o: "iappend_block ?q din s = Inr (x, din\<lparr>di_addrs := A1\<rparr>, s1)" "rsect x s1 = Inr (view s1 x)"
        "s2 = wsect x (splice (?n mod BSIZE) xs (view s1 x)) s1" "disk_ok s2" "freeinode s2 = freeinode s"
        "freeblock s2 + need ?n = freeblock s + need (?n + length xs)" "filled (view s2) A1 (cs @ xs)" "edits mkfs_sb (view s) (di_addrs din) (view s2) A1"
      using piece_ok [OF step.prems(1,2) xs(1) r1(2) xs(3) r1(1)] by blast
    have run: "iappend_loop din ?n p s = iappend_loop (din\<lparr>di_addrs := A1\<rparr>) (length (cs @ xs)) (drop n1 p) s2"
      using False q o(1,2) n1 xs(2) by (subst iappend_loop.simps) (simp add: Let_def o(3) xs_def)
    have l: "length (cs @ xs) + length (drop n1 p) = ?n + length p" "(cs @ xs) @ drop n1 p = cs @ p" using xs(2) c(2) by (simp_all add: xs_def)
    have h: "length (drop n1 p) < length p" "filled (view s2) (di_addrs (din\<lparr>di_addrs := A1\<rparr>)) (cs @ xs)"
      "length (cs @ xs) + length (drop n1 p) \<le> MAXMK * BSIZE" "freeblock s2 + need (length (cs @ xs) + length (drop n1 p)) < BPB + need (length (cs @ xs))"
      using c False o(6,7) l(1) step.prems(3,4) by simp_all
    obtain A' s' where i: "iappend_loop (din\<lparr>di_addrs := A1\<rparr>) (length (cs @ xs)) (drop n1 p) s2 = Inr (?n + length p, din\<lparr>di_addrs := A'\<rparr>, s')" "disk_ok s'"
        "freeinode s' = freeinode s2" "freeblock s' + need (?n + length xs) = freeblock s2 + need (?n + length p)" "filled (view s') A' (cs @ p)" "edits mkfs_sb (view s2) A1 (view s') A'"
      using step.IH [rule_format, OF h(1) o(4) h(2-4), unfolded l] by auto
    have "tree_ok mkfs_sb (view s') A'" using i(5) by (simp add: filled_def)
    then have "edits mkfs_sb (view s) (di_addrs din) (view s') A'" by (rule edits_trans [OF _ o(8) i(6)])
    moreover have "freeblock s' + need ?n = freeblock s + need (?n + length p)" using i(4) o(6) by simp
    ultimately show ?thesis using run i o(5) by (intro exI [of _ A'] exI [of _ s']) simp
  qed
qed

section \<open>The image as a list of files\<close>

text \<open>Contents do not change as long as the blocks of the file do not.\<close>

lemma filled_frame:
  assumes f: "filled B A cs" and b: "\<And>c. owned B A c \<Longrightarrow> B' c = B c" and m: "\<And>c. c < FSSIZE \<Longrightarrow> marked mkfs_sb B c \<Longrightarrow> marked mkfs_sb B' c"
  shows "filled B' A cs" "owned B' A c = owned B A c"
proof -
  have t: "tree_ok mkfs_sb B A" using f by (simp add: filled_def)
  have "ptr B' A (k, js) = ptr B A (k, js)" if "valid_pos (k, js)" for k js
    by (rule ptr_cong [OF _ that], rule b) (unfold owned_def, blast)
  then have p: "ptr B' A q = ptr B A q" if "valid_pos q" for q using that by (cases q) simp
  then show "owned B' A c = owned B A c" unfolding owned_def by (intro iff_exI conj_cong refl) simp
  have "tree_ok mkfs_sb B' A"
    unfolding tree_ok_def
  proof (intro conjI allI impI)
    show "length A = NDIRECT + 3" by (rule tree_okD(1) [OF t])
    fix q assume q: "valid_pos q" "ptr B' A q \<noteq> 0"
    then have "ptr B A q \<noteq> 0" using p by simp
    note tq = tree_okD(2) [OF t q(1) this] and p [OF q(1)]
    then show "data_start mkfs_sb \<le> ptr B' A q" "ptr B' A q < sb_size mkfs_sb" "marked mkfs_sb B' (ptr B' A q)" using m by simp_all
    fix r assume "valid_pos r" "ptr B' A q = ptr B' A r"
    then show "q = r" using tree_okD(3) [OF t q(1)] p q by simp
  qed
  moreover have v: "valid_pos (bpath bn)" if "bn < MAXMK" for bn using data_pos_valid [OF bpath_data] that by simp
  have "fblock B' A bn = fblock B A bn" if "bn < MAXMK" for bn
  proof (cases "ptr B A (bpath bn) = 0")
    case False
    then have "owned B A (ptr B A (bpath bn))" using v [OF that] unfolding owned_def by blast
    then show ?thesis using p [OF v [OF that]] b by (simp add: fblock_def Let_def)
  qed (use p [OF v [OF that]] in \<open>simp add: fblock_def\<close>)
  then have "fbyte B' A i = fbyte B A i" if "i < MAXMK * BSIZE" for i using that by (simp add: fbyte_def div_less_iff_less_mult)
  then have "\<forall>i < MAXMK * BSIZE. fbyte B' A i = (if i < length cs then cs ! i else 0)" using f by (simp add: filled_def)
  moreover have "\<forall>bn < MAXMK. ptr B' A (bpath bn) \<noteq> 0 \<longleftrightarrow> bn * BSIZE < length cs" using f p [OF v] by (simp add: filled_def)
  ultimately show "filled B' A cs" using f unfolding filled_def by blast
qed

lemma IBLOCK_range: "inum < NINODES \<Longrightarrow> 32 \<le> IBLOCK inum mkfs_sb \<and> IBLOCK inum mkfs_sb < 58"
  using div_le_mono [of inum 199 IPB] by (simp add: IBLOCK_def)

lemma winode_ok:
  assumes d: "disk_ok s" and i: "inum < NINODES" and w: "dinode_wf di"
  defines "b \<equiv> IBLOCK inum mkfs_sb"
  shows "\<exists>s'. winode inum di s = Inr s' \<and> disk_ok s' \<and> freeinode s' = freeinode s \<and> freeblock s' = freeblock s
    \<and> view s' = (view s)(b := put_dinode inum di (view s b)) \<and> (\<forall>k. node (view s') k = (if k = inum then di else node (view s) k))"
proof -
  have b: "32 \<le> b" "b < 58" "b < freeblock s" using IBLOCK_range [OF i] d by (auto simp: b_def disk_ok_def)
  have l: "length (view s b) = BSIZE" "length (put_dinode inum di (view s b)) = BSIZE"
    using view_ok(1) [OF d] b(2) length_put_dinode [OF _ w] by (simp_all add: fs_ok_def)
  have "b < 58 \<or> 68 \<le> b" using b by simp
  note v = wsect_view [OF d b(3) this l(2)]
  let ?s = "wsect b (put_dinode inum di (view s b)) s"
  have "node (view ?s) k = (if k = inum then di else node (view s) k)" for k
  proof (cases "k = inum \<or> IBLOCK k mkfs_sb \<noteq> b")
    case True
    then show ?thesis unfolding v(1) node_def using get_put_dinode [OF l(1) w] by (auto simp: b_def)
  next
    case False
    then have "k div IPB = inum div IPB" by (simp add: b_def IBLOCK_def)
    then have "k mod IPB \<noteq> inum mod IPB" using False by (metis div_mult_mod_eq)
    then show ?thesis unfolding v(1) node_def using False get_put_dinode_other [OF l(1) w] by auto
  qed
  moreover have "winode inum di s = Inr ?s" using rsect_view [OF d, of b] b by (simp add: winode_def rbind_def b_def Let_def)
  ultimately show ?thesis using v by blast
qed

lemma builtD:
  assumes "built s Cs"
  shows "disk_ok s" "freeinode s = length Cs + 1" "length Cs < NINODES" "freeblock s = nmeta + blocks_used Cs"
    "k < length Cs \<Longrightarrow> holds (view s) (k + 1) (fst (Cs ! k)) (snd (Cs ! k))"
    "j < length Cs \<Longrightarrow> k < length Cs \<Longrightarrow> j \<noteq> k \<Longrightarrow> owned (view s) (di_addrs (node (view s) (j + 1))) c \<Longrightarrow> \<not> owned (view s) (di_addrs (node (view s) (k + 1))) c"
    "view s 1 = splice 0 sb_bytes zeroes" "2 \<le> b \<Longrightarrow> b < 32 \<Longrightarrow> view s b = zeroes"
proof -
  note h = assms [unfolded built_def]
  show "disk_ok s" "freeinode s = length Cs + 1" "length Cs < NINODES" "freeblock s = nmeta + blocks_used Cs" "view s 1 = splice 0 sb_bytes zeroes"
    using h by (simp_all only:)
  show "2 \<le> b \<Longrightarrow> b < 32 \<Longrightarrow> view s b = zeroes" "k < length Cs \<Longrightarrow> holds (view s) (k + 1) (fst (Cs ! k)) (snd (Cs ! k))" using h by (simp_all only:)
  show "\<not> owned (view s) (di_addrs (node (view s) (k + 1))) c"
    if "j < length Cs" "k < length Cs" "j \<noteq> k" "owned (view s) (di_addrs (node (view s) (j + 1))) c" using h that by blast
qed

lemma owned_range: "filled B A cs \<Longrightarrow> owned B A c \<Longrightarrow> 68 \<le> c \<and> c < FSSIZE \<and> marked mkfs_sb B c"
  using tree_okD(2) [of mkfs_sb B A] by (auto simp: filled_def owned_def)

lemma holds_keep:
  assumes h: "holds B inum ty cs" and n: "node B' inum = node B inum" and b: "\<And>c. 68 \<le> c \<Longrightarrow> owned B (di_addrs (node B inum)) c \<Longrightarrow> B' c = B c"
    and m: "\<And>c. c < FSSIZE \<Longrightarrow> marked mkfs_sb B c \<Longrightarrow> marked mkfs_sb B' c"
  shows "holds B' inum ty cs" "owned B' (di_addrs (node B' inum)) c = owned B (di_addrs (node B inum)) c"
proof -
  have f: "filled B (di_addrs (node B inum)) cs" using h by (simp add: holds_def)
  have b': "B' c = B c" if "owned B (di_addrs (node B inum)) c" for c using b [OF _ that] owned_range [OF f that] by simp
  have "filled B' (di_addrs (node B inum)) cs" by (rule filled_frame(1) [OF f b' m])
  then show "holds B' inum ty cs" using h unfolding holds_def n by blast
  show "owned B' (di_addrs (node B' inum)) c = owned B (di_addrs (node B inum)) c" unfolding n by (rule filled_frame(2) [OF f b' m])
qed

lemma low_block: "c < 58 \<Longrightarrow> c \<noteq> BBLOCK b mkfs_sb"
  by (simp add: BBLOCK_def)

lemma marked_low: "c < 58 \<Longrightarrow> marked mkfs_sb (B(c := d)) b = marked mkfs_sb B b"
  using low_block [of c b] by (simp add: marked_def)

lemma blocks_used_update:
  assumes "k < length Cs"
  shows "blocks_used (Cs[k := c]) + need (length (snd (Cs ! k))) = blocks_used Cs + need (length (snd c))"
proof -
  let ?f = "\<lambda>c :: int \<times> uchar list. need (length (snd c))"
  have "map ?f Cs ! k \<le> sum_list (map ?f Cs)" using assms by (intro elem_le_sum_list) simp
  then show ?thesis using assms sum_list_update [of k "map ?f Cs" "?f c"] by (simp add: blocks_used_def map_update)
qed

lemma zero_tree: "\<forall>k < NDIRECT + 3. A ! k = 0 \<Longrightarrow> valid_pos q \<Longrightarrow> ptr B A q = 0"
  by (cases "snd q") (simp_all add: ptr_def valid_pos_def split: prod.splits)

lemma filled_empty:
  assumes "length A = NDIRECT + 3" "\<forall>k < NDIRECT + 3. A ! k = 0"
  shows "filled B A []"
proof -
  note z = zero_tree [OF assms(2)]
  have zb: "ptr B A (bpath bn) = 0" if "bn < MAXMK" for bn by (rule z) (use that data_pos_valid [OF bpath_data] in simp)
  have "tree_ok mkfs_sb B A" unfolding tree_ok_def using assms(1) by (intro conjI allI impI) (simp_all add: z)
  moreover have "fbyte B A i = 0" if "i < MAXMK * BSIZE" for i
    using zb [of "i div BSIZE"] that by (simp add: fbyte_def fblock_def div_less_iff_less_mult)
  ultimately show ?thesis using zb assms(2) by (simp add: filled_def)
qed

text \<open>A new inode.\<close>

lemma ialloc_image:
  assumes im: "built s Cs" and n: "length Cs + 1 < NINODES" and ty: "short_range ty"
  shows "\<exists>s'. ialloc_mkfs ty s = Inr (length Cs + 1, s') \<and> built s' (Cs @ [(ty, [])])"
proof -
  let ?i = "length Cs + 1"
  define din where "din = \<lparr>di_type = ty, di_major = 0, di_minor = 0, di_nlink = 1, di_size = 0, di_addrs = replicate (NDIRECT + 3) 0\<rparr>"
  have A: "length (di_addrs din) = NDIRECT + 3" "\<forall>k < NDIRECT + 3. di_addrs din ! k = 0" unfolding din_def by (simp_all del: replicate.simps)
  have wf: "dinode_wf din" using ty A by (simp add: dinode_wf_def short_range_def all_set_conv_all_nth) (simp add: din_def short_range_def)
  note I = builtD [OF im]
  let ?s = "s\<lparr>freeinode := length Cs + 2\<rparr>"
  have v: "view ?s = view s" and d: "disk_ok ?s" using I(1) by (simp_all add: view_def disk_ok_def)
  obtain s' where w: "winode ?i din ?s = Inr s'" "disk_ok s'" "freeinode s' = length Cs + 2" "freeblock s' = freeblock s"
      "view s' = (view s)(IBLOCK ?i mkfs_sb := put_dinode ?i din (view s (IBLOCK ?i mkfs_sb)))" "\<And>k. node (view s') k = (if k = ?i then din else node (view s) k)"
    using winode_ok [OF d n wf] v by auto
  have b: "32 \<le> IBLOCK ?i mkfs_sb" "IBLOCK ?i mkfs_sb < 58" using IBLOCK_range [OF n] by auto
  have hi: "view s' c = view s c" if "68 \<le> c \<or> c < 32" for c using w(5) b that by auto
  have mk: "marked mkfs_sb (view s') c = marked mkfs_sb (view s) c" for c unfolding w(5) by (rule marked_low [OF b(2)])
  have old: "holds (view s') (k + 1) (fst (Cs ! k)) (snd (Cs ! k))"
      "owned (view s') (di_addrs (node (view s') (k + 1))) c = owned (view s) (di_addrs (node (view s) (k + 1))) c" if "k < length Cs" for k c
    using holds_keep [OF I(5) [OF that], of "view s'"] w(6) hi mk that by simp_all
  have new: "holds (view s') ?i ty []" unfolding holds_def w(6) using wf filled_empty [OF A] by (simp add: din_def)
  have no: "\<not> owned (view s') (di_addrs (node (view s') ?i)) c" for c
    using zero_tree [OF A(2)] unfolding owned_def w(6) by auto
  have "built s' (Cs @ [(ty, [])])"
    unfolding built_def
  proof (intro conjI allI impI)
    show "freeblock s' = nmeta + blocks_used (Cs @ [(ty, [])])" using w(4) I(4) by (simp add: blocks_used_def need_def)
    fix k assume k: "k < length (Cs @ [(ty, [])])"
    show "holds (view s') (k + 1) (fst ((Cs @ [(ty, [])]) ! k)) (snd ((Cs @ [(ty, [])]) ! k))"
      using old(1) [of k] new k by (cases "k = length Cs") (simp_all add: nth_append)
    fix j c assume j: "j < length (Cs @ [(ty, [])])" "j \<noteq> k"
    show "\<not> (owned (view s') (di_addrs (node (view s') (j + 1))) c \<and> owned (view s') (di_addrs (node (view s') (k + 1))) c)"
    proof (cases "j = length Cs \<or> k = length Cs")
      case True
      then show ?thesis using no by blast
    next
      case False
      then have "j < length Cs" "k < length Cs" using j k by auto
      then show ?thesis using old(2) I(6) j(2) by blast
    qed
  qed (use w n hi I(7,8) in \<open>auto\<close>)
  moreover have "ialloc_mkfs ty s = Inr (?i, s')"
    using w(1) I(2) n by (simp add: ialloc_mkfs_def rbind_def din_def Let_def)
  ultimately show ?thesis by blast
qed

lemma filled_addrs:
  assumes "filled B A cs"
  shows "length A = NDIRECT + 3" "a \<in> set A \<Longrightarrow> a < 2 ^ 32"
proof -
  have t: "tree_ok mkfs_sb B A" using assms by (simp add: filled_def)
  show l: "length A = NDIRECT + 3" by (rule tree_okD(1) [OF t])
  assume "a \<in> set A"
  then obtain k where k: "k < NDIRECT + 3" "a = A ! k" using l by (auto simp: in_set_conv_nth)
  then have v: "valid_pos (k, [])" "ptr B A (k, []) = a" by (simp_all add: valid_pos_def ptr_Nil)
  show "a < 2 ^ 32" using tree_okD(2) [OF t v(1)] v(2) by (cases "a = 0") simp_all
qed

text \<open>The other files keep their contents while one file is edited.\<close>

lemma others_kept:
  assumes im: "built s Cs" and k: "k < length Cs" and j: "j < length Cs" "j \<noteq> k" and e: "edits mkfs_sb (view s) (di_addrs (node (view s) (k + 1))) B1 A'"
    and hi: "\<And>c. 68 \<le> c \<Longrightarrow> B' c = B1 c" and mk: "\<And>c. marked mkfs_sb B' c = marked mkfs_sb B1 c" and nd: "node B' (j + 1) = node (view s) (j + 1)"
  shows "holds B' (j + 1) (fst (Cs ! j)) (snd (Cs ! j))"
    "owned B' (di_addrs (node B' (j + 1))) c = owned (view s) (di_addrs (node (view s) (j + 1))) c" "owned B' (di_addrs (node B' (j + 1))) c \<Longrightarrow> \<not> owned B1 A' c"
proof -
  note I = builtD [OF im]
  have f: "filled (view s) (di_addrs (node (view s) (j + 1))) (snd (Cs ! j))" using I(5) [OF j(1)] by (simp add: holds_def)
  have b: "B' c = view s c" if o: "68 \<le> c" "owned (view s) (di_addrs (node (view s) (j + 1))) c" for c
  proof -
    have c: "c < FSSIZE" "marked mkfs_sb (view s) c" using owned_range [OF f o(2)] by auto
    then show ?thesis using editsD(3) [OF e] I(6) [OF j(1) k j(2) o(2)] hi o(1) by simp
  qed
  have mm: "c < FSSIZE \<Longrightarrow> marked mkfs_sb (view s) c \<Longrightarrow> marked mkfs_sb B' c" for c using mk editsD(5) [OF e] by simp
  note hk = holds_keep [OF I(5) [OF j(1)] nd b mm]
  show "holds B' (j + 1) (fst (Cs ! j)) (snd (Cs ! j))" by (rule hk(1))
  show o: "owned B' (di_addrs (node B' (j + 1))) c = owned (view s) (di_addrs (node (view s) (j + 1))) c" by (rule hk(2))
  show "\<not> owned B1 A' c" if "owned B' (di_addrs (node B' (j + 1))) c"
    using edits_owned [OF e] owned_range [OF f] I(6) [OF j(1) k j(2)] that unfolding o by blast
qed

text \<open>More bytes at the end of a file.\<close>

lemma iappend_image:
  assumes im: "built s Cs" and k: "k < length Cs" "Cs ! k = (ty, cs)" and len: "length cs + length xs \<le> MAXMK * BSIZE"
    and room: "nmeta + blocks_used (Cs[k := (ty, cs @ xs)]) < BPB"
  shows "\<exists>s'. iappend (k + 1) xs s = Inr s' \<and> built s' (Cs[k := (ty, cs @ xs)])"
proof -
  let ?i = "k + 1" and ?Cs = "Cs[k := (ty, cs @ xs)]"
  note I = builtD [OF im]
  define din where "din = node (view s) ?i"
  let ?A = "di_addrs din"
  have h: "holds (view s) ?i ty cs" using I(5) [OF k(1)] k(2) by simp
  then have f: "filled (view s) ?A cs" "dinode_wf din" "di_type din = ty" "di_nlink din = 1" "di_size din = length cs" by (simp_all add: holds_def din_def)
  have bu: "blocks_used ?Cs + need (length cs) = blocks_used Cs + need (length cs + length xs)" using blocks_used_update [OF k(1), of "(ty, cs @ xs)"] k(2) by simp
  have "freeblock s + need (length cs + length xs) < BPB + need (length cs)" using room I(4) bu by linarith
  then obtain A' s1 where l: "iappend_loop din (length cs) xs s = Inr (length cs + length xs, din\<lparr>di_addrs := A'\<rparr>, s1)" "disk_ok s1" "freeinode s1 = freeinode s"
      "freeblock s1 + need (length cs) = freeblock s + need (length cs + length xs)" "filled (view s1) A' (cs @ xs)" "edits mkfs_sb (view s) ?A (view s1) A'"
    using iappend_loop_ok [OF I(1) f(1) len] by blast
  define din' where "din' = din\<lparr>di_addrs := A', di_size := length cs + length xs\<rparr>"
  have wf: "dinode_wf din'" using f(2) filled_addrs [OF l(5)] len by (simp add: dinode_wf_def din'_def)
  have n: "?i < NINODES" using k(1) I(3) by simp
  obtain s' where w: "winode ?i din' s1 = Inr s'" "disk_ok s'" "freeinode s' = freeinode s1" "freeblock s' = freeblock s1"
      "view s' = (view s1)(IBLOCK ?i mkfs_sb := put_dinode ?i din' (view s1 (IBLOCK ?i mkfs_sb)))" "\<And>j. node (view s') j = (if j = ?i then din' else node (view s1) j)"
    using winode_ok [OF l(2) n wf] by auto
  have b: "32 \<le> IBLOCK ?i mkfs_sb" "IBLOCK ?i mkfs_sb < 58" using IBLOCK_range [OF n] by auto
  have hi: "view s' c = view s1 c" if "68 \<le> c \<or> c < 32" for c using w(5) b that by auto
  have mk: "marked mkfs_sb (view s') c = marked mkfs_sb (view s1) c" for c unfolding w(5) by (rule marked_low [OF b(2)])
  have low: "view s1 c = view s c" if "c < 58" for c using editsD(4) [OF l(6)] low_block [OF that] that by simp
  have nd: "node (view s') (j + 1) = node (view s) (j + 1)" if "j < length Cs" "j \<noteq> k" for j
  proof -
    have "IBLOCK (j + 1) mkfs_sb < 58" using IBLOCK_range [of "j + 1"] that(1) I(3) by simp
    then have "node (view s1) (j + 1) = node (view s) (j + 1)" unfolding node_def by (simp only: low)
    then show ?thesis using that(2) w(6) by simp
  qed
  have old: "holds (view s') (j + 1) (fst (Cs ! j)) (snd (Cs ! j))"
      "owned (view s') (di_addrs (node (view s') (j + 1))) c = owned (view s) (di_addrs (node (view s) (j + 1))) c"
      "owned (view s') (di_addrs (node (view s') (j + 1))) c \<Longrightarrow> \<not> owned (view s1) A' c" if j: "j < length Cs" "j \<noteq> k" for j c
    using others_kept [OF im k(1) j l(6) [unfolded din_def], of "view s'", OF _ mk nd [OF j]] hi by blast+
  have own: "view s' c = view s1 c" if "owned (view s1) A' c" for c using hi owned_range [OF l(5) that] by simp
  note ff = filled_frame [OF l(5) own]
  have new: "holds (view s') ?i ty (cs @ xs)" unfolding holds_def w(6) using wf ff(1) mk f by (simp add: din'_def)
  have no: "\<not> (owned (view s') (di_addrs (node (view s') (j + 1))) c \<and> owned (view s') (di_addrs (node (view s') ?i)) c)" if j: "j < length Cs" "j \<noteq> k" for j c
    using old(3) [OF j, of c] ff(2) mk unfolding w(6) by (auto simp: din'_def)
  have "built s' ?Cs"
    unfolding built_def
  proof (intro conjI allI impI)
    show "freeblock s' = nmeta + blocks_used ?Cs" using w(4) l(4) I(4) bu by linarith
    fix j assume j: "j < length ?Cs"
    show "holds (view s') (j + 1) (fst (?Cs ! j)) (snd (?Cs ! j))" using old(1) [of j] new j k by (cases "j = k") simp_all
    fix i c assume i: "i < length ?Cs" "i \<noteq> j"
    show "\<not> (owned (view s') (di_addrs (node (view s') (i + 1))) c \<and> owned (view s') (di_addrs (node (view s') (j + 1))) c)"
      using no [of j c] no [of i c] old(2) [of i c] old(2) [of j c] I(6) [of i j c] i j by (cases "i = k"; cases "j = k") auto
  qed (use w l(3) I hi low in \<open>auto\<close>)
  moreover have "rinode ?i s = Inr din" using rsect_view [OF I(1), of "IBLOCK ?i mkfs_sb"] b by (simp add: rinode_def rbind_def din_def node_def)
  then have "iappend ?i xs s = Inr s'" using l(1) w(1) f(5) by (simp add: iappend_def rbind_def din'_def)
  ultimately show ?thesis by blast
qed

section \<open>The program\<close>

lemma length_dirent [simp]: "length (dirent_bytes inum name) = 16"
  by (simp add: dirent_bytes_def xshort_def)

lemma length_root: "length (root_entries fs) = 16 * (length fs + 2)"
proof -
  have "length (concat (map (\<lambda>i. dirent_bytes (i + 2) (g i)) [0..<n])) = 16 * n" for g n by (induction n) simp_all
  then show ?thesis by (simp add: root_entries_def)
qed

lemma root_snoc: "root_entries (fs @ [f]) = root_entries fs @ dirent_bytes (length fs + 2) (arg_name f)"
proof -
  have "map (\<lambda>i. dirent_bytes (i + 2) (arg_name ((fs @ [f]) ! i))) [0..<length fs] = map (\<lambda>i. dirent_bytes (i + 2) (arg_name (fs ! i))) [0..<length fs]"
    by (rule map_cong) (simp_all add: nth_append)
  then show ?thesis by (simp add: root_entries_def del: map_eq_conv)
qed

lemma used_cons: "blocks_used (c # Cs) = need (length (snd c)) + blocks_used Cs"
  by (simp add: blocks_used_def)

lemma used_append [simp]: "blocks_used (Cs @ Ds) = blocks_used Cs + blocks_used Ds"
  by (simp add: blocks_used_def)

lemma used_prefix: "blocks_used (image_of fs) \<le> blocks_used (image_of (fs @ gs))"
  unfolding image_of_def used_cons by (simp add: length_root need_mono add_mono)

lemma copy_file_image:
  assumes "built s Cs" "k < length Cs" "Cs ! k = (ty, cs)" "length cs + length (concat pieces) \<le> MAXMK * BSIZE"
    and "nmeta + blocks_used (Cs[k := (ty, cs @ concat pieces)]) < BPB"
  shows "\<exists>s'. copy_file (k + 1) pieces s = Inr s' \<and> built s' (Cs[k := (ty, cs @ concat pieces)])"
  using assms
proof (induction pieces arbitrary: s Cs cs)
  case Nil
  then have "Cs[k := (ty, cs @ concat [])] = Cs" by (metis append_Nil2 concat.simps(1) list_update_id)
  then show ?case using Nil by simp
next
  case (Cons buf pieces)
  let ?Cs = "Cs[k := (ty, cs @ buf)]"
  have "blocks_used ?Cs + need (length cs) = blocks_used Cs + need (length cs + length buf)"
    using blocks_used_update [OF Cons.prems(2), of "(ty, cs @ buf)"] Cons.prems(3) by simp
  moreover have "blocks_used (Cs[k := (ty, cs @ concat (buf # pieces))]) + need (length cs) = blocks_used Cs + need (length cs + length (concat (buf # pieces)))"
    using blocks_used_update [OF Cons.prems(2), of "(ty, cs @ concat (buf # pieces))"] Cons.prems(3) by simp
  moreover have "need (length cs + length buf) \<le> need (length cs + length (concat (buf # pieces)))" by (rule need_mono) simp
  ultimately have "nmeta + blocks_used ?Cs < BPB" using Cons.prems(5) by linarith
  moreover have "length cs + length buf \<le> MAXMK * BSIZE" using Cons.prems(4) by simp
  ultimately obtain s1 where 1: "iappend (k + 1) buf s = Inr s1" "built s1 ?Cs" using iappend_image [OF Cons.prems(1-3)] by blast
  have "k < length ?Cs" "?Cs ! k = (ty, cs @ buf)" "length (cs @ buf) + length (concat pieces) \<le> MAXMK * BSIZE"
      "nmeta + blocks_used (?Cs[k := (ty, (cs @ buf) @ concat pieces)]) < BPB" "?Cs[k := (ty, (cs @ buf) @ concat pieces)] = Cs[k := (ty, cs @ concat (buf # pieces))]"
    using Cons.prems(2,4,5) by simp_all
  then obtain s' where "copy_file (k + 1) pieces s1 = Inr s'" "built s' (Cs[k := (ty, cs @ concat (buf # pieces))])" using Cons.IH [OF 1(2)] by metis
  then show ?case using 1(1) by (simp add: rbind_def)
qed

lemma add_file_image:
  assumes im: "built s (image_of fs)" and f: "fits (fs @ [f])"
  shows "\<exists>s'. add_file ROOTINO f s = Inr s' \<and> built s' (image_of (fs @ [f]))"
proof -
  let ?Cs = "image_of fs" and ?e = "dirent_bytes (length fs + 2) (arg_name f)"
  obtain arg pieces where a: "f = (arg, Some pieces)" using f by (cases f) (auto simp: fits_def)
  have fit: "length fs + 2 < NINODES" "nmeta + blocks_used (image_of (fs @ [f])) < BPB" "47 \<notin> set arg" "length (concat pieces) \<le> MAXMK * BSIZE"
    using f by (simp_all add: fits_def a arg_data_def)
  have n: "length ?Cs = length fs + 1" "?Cs = (T_DIR, root_entries fs) # map (\<lambda>f. (T_FILE, arg_data f)) fs" by (simp_all add: image_of_def)
  have new: "image_of (fs @ [f]) = (T_DIR, root_entries fs @ ?e) # map (\<lambda>f. (T_FILE, arg_data f)) fs @ [(T_FILE, concat pieces)]"
    by (simp add: image_of_def root_snoc a arg_data_def)
  have "length ?Cs + 1 < NINODES" "short_range T_FILE" using fit(1) n by (simp_all add: short_range_def)
  then obtain s1 where 1: "ialloc_mkfs T_FILE s = Inr (length fs + 2, s1)" "built s1 (?Cs @ [(T_FILE, [])])" using ialloc_image [OF im] n(1) by auto
  let ?C1 = "?Cs @ [(T_FILE, [])]"
  let ?C2 = "(T_DIR, root_entries fs @ ?e) # map (\<lambda>f. (T_FILE, arg_data f)) fs @ [(T_FILE, [])]"
  have c1: "0 < length ?C1" "?C1 ! 0 = (T_DIR, root_entries fs)" "?C1[0 := (T_DIR, root_entries fs @ ?e)] = ?C2" by (simp_all add: n(2))
  have u: "blocks_used (image_of (fs @ [f])) = blocks_used ?C2 + need (length (concat pieces))" unfolding new by (simp add: blocks_used_def need_def)
  have r1: "length (root_entries fs) + length ?e \<le> MAXMK * BSIZE" "nmeta + blocks_used (?C1[0 := (T_DIR, root_entries fs @ ?e)]) < BPB"
    using fit(1,2) u unfolding c1(3) by (simp_all add: length_root)
  obtain s2 where 2: "iappend ROOTINO ?e s1 = Inr s2" "built s2 ?C2" using iappend_image [OF 1(2) c1(1,2) r1, unfolded c1(3)] by auto
  have c2: "length fs + 1 < length ?C2" "?C2 ! (length fs + 1) = (T_FILE, [])" "?C2[length fs + 1 := (T_FILE, [] @ concat pieces)] = image_of (fs @ [f])"
    by (simp_all add: new nth_append list_update_append)
  have r2: "length [] + length (concat pieces) \<le> MAXMK * BSIZE" "nmeta + blocks_used (?C2[length fs + 1 := (T_FILE, [] @ concat pieces)]) < BPB"
    using fit(2,4) unfolding c2(3) by simp_all
  obtain s' where 3: "copy_file (length fs + 2) pieces s2 = Inr s'" "built s' (image_of (fs @ [f]))"
    using copy_file_image [OF 2(2) c2(1,2) r2, unfolded c2(3)] by auto
  have "(case arg of c # cs \<Rightarrow> if c = 95 then cs else arg | [] \<Rightarrow> arg) = arg_name f" unfolding arg_name_def a fst_conv ..
  then show ?thesis using 1(1) 2(1) 3 fit(3) by (simp add: add_file_def a rbind_def)
qed

lemma fits_prefix: "fits (fs @ gs) \<Longrightarrow> fits fs"
  using used_prefix [of fs gs] by (auto simp: fits_def)

lemma add_files_image:
  assumes "built s (image_of fs)" "fits (fs @ gs)"
  shows "\<exists>s'. add_files ROOTINO gs s = Inr s' \<and> built s' (image_of (fs @ gs))"
  using assms
proof (induction gs arbitrary: s fs)
  case (Cons f gs)
  have "fits (fs @ [f])" using fits_prefix [of "fs @ [f]" gs] Cons.prems(2) by simp
  then obtain s1 where 1: "add_file ROOTINO f s = Inr s1" "built s1 (image_of (fs @ [f]))" using add_file_image [OF Cons.prems(1)] by blast
  then show ?case using Cons.IH [OF 1(2)] Cons.prems(2) by (auto simp: rbind_def)
qed simp

lemma blank_image: "n \<le> FSSIZE \<Longrightarrow> fold (\<lambda>i. wsect i zeroes) [0..<n] \<lparr>img = [], freeinode = a, freeblock = b\<rparr> = \<lparr>img = replicate n zeroes, freeinode = a, freeblock = b\<rparr>"
  by (induction n) (simp_all add: wsect_def Let_def replicate_append_same del: replicate_Suc, simp add: replicate_append_same)

lemma start_image: "built mkfs_start []"
proof -
  have l: "length sb_bytes = 28" by (simp add: sb_bytes_def xint_def)
  have e: "mkfs_start = \<lparr>img = (replicate FSSIZE zeroes)[1 := splice 0 sb_bytes zeroes], freeinode = 1, freeblock = 68\<rparr>"
    unfolding mkfs_start_def by (subst blank_image) (simp_all add: wsect_def)
  show ?thesis unfolding e using l by (auto simp: built_def disk_ok_def view_def blocks_used_def nth_list_update)
qed

lemma root_image:
  assumes "fits fs"
  shows "\<exists>s1 s2 s3 s. ialloc_mkfs T_DIR mkfs_start = Inr (ROOTINO, s1) \<and> iappend ROOTINO (dirent_bytes ROOTINO [46]) s1 = Inr s2
    \<and> iappend ROOTINO (dirent_bytes ROOTINO [46, 46]) s2 = Inr s3 \<and> add_files ROOTINO fs s3 = Inr s \<and> built s (image_of fs)"
proof -
  have "length ([] :: (int \<times> uchar list) list) + 1 < NINODES" "short_range T_DIR" by (simp_all add: short_range_def)
  then obtain s1 where 1: "ialloc_mkfs T_DIR mkfs_start = Inr (1, s1)" "built s1 [(T_DIR, [])]" using ialloc_image [OF start_image] by auto
  let ?a = "dirent_bytes ROOTINO [46]" and ?b = "dirent_bytes ROOTINO [46, 46]"
  have u: "blocks_used [(T_DIR, xs)] = 1" if "0 < length xs" "length xs \<le> 32" for xs
  proof -
    have "(length xs + 511) div BSIZE = 1" using that by (intro div_nat_eqI) (auto simp: Suc_le_eq)
    then show ?thesis using that by (simp add: blocks_used_def need_def)
  qed
  obtain s2 where 2: "iappend ROOTINO ?a s1 = Inr s2" "built s2 [(T_DIR, ?a)]"
    using iappend_image [OF 1(2), of 0 T_DIR "[]" ?a] u [of ?a] by auto
  obtain s3 where 3: "iappend ROOTINO ?b s2 = Inr s3" "built s3 [(T_DIR, ?a @ ?b)]"
    using iappend_image [OF 2(2), of 0 T_DIR ?a ?b] u [of "?a @ ?b"] by auto
  have "image_of [] = [(T_DIR, ?a @ ?b)]" by (simp add: image_of_def root_entries_def)
  then obtain s where "add_files ROOTINO fs s3 = Inr s" "built s (image_of fs)" using add_files_image [of s3 "[]" fs] 3(2) assms by auto
  then show ?thesis using 1(1) 2(1) 3(1) by auto
qed

text \<open>The end of the program: the size of the root directory is rounded up and the bit map is written.\<close>

lemma finish_image:
  assumes im: "built s (image_of fs)" and u: "nmeta + blocks_used (image_of fs) < BPB"
  shows "\<exists>s' r. rinode ROOTINO s = Inr (node (view s) 1) \<and> winode ROOTINO (node (view s) 1\<lparr>di_size := (di_size (node (view s) 1) div BSIZE + 1) * BSIZE mod 2 ^ 32\<rparr>) s = Inr s'
    \<and> balloc_mkfs (i32 (int (freeblock s'))) s' = Inr r \<and> length (img r) = FSSIZE \<and> (!) (img r) = view s' \<and> disk_ok s' \<and> freeblock s' = freeblock s
    \<and> (\<forall>b. b < 32 \<or> 68 \<le> b \<longrightarrow> view s' b = view s b) \<and> (\<forall>b. marked mkfs_sb (view s') b = marked mkfs_sb (view s) b)
    \<and> (\<forall>k. node (view s') k = (if k = 1 then node (view s) 1\<lparr>di_size := (length (root_entries fs) div BSIZE + 1) * BSIZE\<rparr> else node (view s) k))"
proof -
  note I = builtD [OF im]
  define din where "din = node (view s) 1"
  let ?z = "(length (root_entries fs) div BSIZE + 1) * BSIZE"
  have "holds (view s) 1 T_DIR (root_entries fs)" using I(5) [of 0] by (simp add: image_of_def)
  then have h: "dinode_wf din" "di_size din = length (root_entries fs)" by (simp_all add: holds_def din_def)
  have n: "length fs + 1 < NINODES" using I(3) by (simp add: image_of_def)
  then have "length (root_entries fs) div BSIZE \<le> 6" unfolding length_root by simp
  then have z: "?z < 2 ^ 32" by simp
  then have wf: "dinode_wf (din\<lparr>di_size := ?z\<rparr>)" using h(1) by (simp add: dinode_wf_def)
  have one: "(1 :: nat) < NINODES" by simp
  obtain s' where w: "winode ROOTINO (din\<lparr>di_size := ?z\<rparr>) s = Inr s'" "disk_ok s'" "freeblock s' = freeblock s"
      "view s' = (view s)(IBLOCK 1 mkfs_sb := put_dinode 1 (din\<lparr>di_size := ?z\<rparr>) (view s (IBLOCK 1 mkfs_sb)))"
      "\<And>k. node (view s') k = (if k = 1 then din\<lparr>di_size := ?z\<rparr> else node (view s) k)"
    using winode_ok [OF I(1) one wf] by blast
  have b: "32 \<le> IBLOCK 1 mkfs_sb" "IBLOCK 1 mkfs_sb < 58" using IBLOCK_range [OF one] by auto
  have rd: "rinode ROOTINO s = Inr din" using rsect_view [OF I(1), of "IBLOCK 1 mkfs_sb"] b by (simp add: rinode_def rbind_def din_def node_def)
  let ?r = "wsect 58 (bitmap (freeblock s')) s'"
  have fb: "freeblock s' < BPB" "length (img s') = FSSIZE" using w(2) by (simp_all add: disk_ok_def)
  have "i32 (int (freeblock s')) = int (freeblock s')" using fb(1) by (intro i32_id) (simp add: int_range_def)
  then have ba: "balloc_mkfs (i32 (int (freeblock s'))) s' = Inr ?r" using fb(1) by (simp add: balloc_mkfs_def)
  have im': "img ?r = (img s')[58 := bitmap (freeblock s')]" using fb(2) by (simp add: wsect_def)
  then have "(!) (img ?r) = view s'" using fb(2) by (auto simp: view_def)
  moreover have "length (img ?r) = FSSIZE" using im' fb(2) by simp
  moreover have "\<forall>b. b < 32 \<or> 68 \<le> b \<longrightarrow> view s' b = view s b" using w(4) b by auto
  moreover have "\<forall>b. marked mkfs_sb (view s') b = marked mkfs_sb (view s) b" unfolding w(4) by (intro allI marked_low [OF b(2)])
  moreover have "?z mod 2 ^ 32 = ?z" using z by simp
  ultimately show ?thesis
    using rd w(1,2,3,5) ba h(2) unfolding din_def [symmetric] by (intro exI [of _ s'] exI [of _ ?r]) (simp only: simp_thms)
qed

lemma get_field: "i < length xs \<Longrightarrow> get32 (concat (map xint xs) @ r) (4 * i) = xs ! i mod 2 ^ 32"
proof (induction xs arbitrary: i)
  case (Cons x xs)
  show ?case
  proof (cases i)
    case 0
    then show ?thesis by (simp add: get32_def slice_def xint_def de_le_bytes)
  next
    case (Suc j)
    then have "get32 (concat (map xint (x # xs)) @ r) (4 * i) = get32 (concat (map xint xs) @ r) (4 * j)" by (simp add: get32_def slice_def xint_def)
    then show ?thesis using Cons Suc by simp
  qed
qed simp

lemma sb_stored: "sb_of_bytes (splice 0 sb_bytes zeroes) = mkfs_sb"
proof -
  note g = get_field [of _ "[sb_size mkfs_sb, sb_nblocks mkfs_sb, sb_ninodes mkfs_sb, sb_nlog mkfs_sb, sb_logstart mkfs_sb, sb_inodestart mkfs_sb, sb_bmapstart mkfs_sb]", folded sb_bytes_def]
  show ?thesis unfolding sb_of_bytes_def splice_def
    using g [of 0] g [of 1] g [of 2] g [of 3] g [of 4] g [of 5] g [of 6] by (simp add: mkfs_sb_def nlog_def ninodeblocks_def)
qed

lemma holds_root:
  assumes h: "holds B inum ty cs" and n: "node B' inum = (node B inum)\<lparr>di_size := z\<rparr>" and b: "\<And>c. 68 \<le> c \<Longrightarrow> B' c = B c"
    and m: "\<And>c. marked mkfs_sb B' c = marked mkfs_sb B c"
  shows "filled B' (di_addrs (node B' inum)) cs" "owned B' (di_addrs (node B' inum)) c = owned B (di_addrs (node B inum)) c"
proof -
  have f: "filled B (di_addrs (node B inum)) cs" using h by (simp add: holds_def)
  have o: "B' c = B c" if "owned B (di_addrs (node B inum)) c" for c using b owned_range [OF f that] by simp
  have A: "di_addrs (node B' inum) = di_addrs (node B inum)" using n by simp
  show "filled B' (di_addrs (node B' inum)) cs" unfolding A by (rule filled_frame(1) [OF f o m [THEN iffD2]])
  show "owned B' (di_addrs (node B' inum)) c = owned B (di_addrs (node B inum)) c" unfolding A by (rule filled_frame(2) [OF f o m [THEN iffD2]])
qed

lemma mkfs_main_ok:
  assumes "fits files"
  shows "\<exists>s. mkfs_main files = Inr s \<and> image_ok files (img s)"
proof -
  obtain s1 s2 s3 s where r: "ialloc_mkfs T_DIR mkfs_start = Inr (ROOTINO, s1)" "iappend ROOTINO (dirent_bytes ROOTINO [46]) s1 = Inr s2"
      "iappend ROOTINO (dirent_bytes ROOTINO [46, 46]) s2 = Inr s3" "add_files ROOTINO files s3 = Inr s" "built s (image_of files)" using root_image [OF assms] by blast
  note I = builtD [OF r(5)]
  obtain s' t where e: "rinode ROOTINO s = Inr (node (view s) 1)"
      "winode ROOTINO (node (view s) 1\<lparr>di_size := (di_size (node (view s) 1) div BSIZE + 1) * BSIZE mod 2 ^ 32\<rparr>) s = Inr s'"
      "balloc_mkfs (i32 (int (freeblock s'))) s' = Inr t" "length (img t) = FSSIZE" "(!) (img t) = view s'" "disk_ok s'" "freeblock s' = freeblock s"
      "\<And>b. b < 32 \<or> 68 \<le> b \<Longrightarrow> view s' b = view s b" "\<And>b. marked mkfs_sb (view s') b = marked mkfs_sb (view s) b"
      "\<And>k. node (view s') k = (if k = 1 then node (view s) 1\<lparr>di_size := (length (root_entries files) div BSIZE + 1) * BSIZE\<rparr> else node (view s) k)"
    using finish_image [OF r(5)] assms unfolding fits_def by blast
  have run: "mkfs_main files = Inr t" using r(1-4) e(1-3) by (simp add: mkfs_main_def rbind_def Let_def)
  have root: "holds (view s) 1 T_DIR (root_entries files)" using I(5) [of 0] by (simp add: image_of_def)
  have n1: "node (view s') 1 = node (view s) 1\<lparr>di_size := (length (root_entries files) div BSIZE + 1) * BSIZE\<rparr>" using e(10) by simp
  have hi: "68 \<le> c \<Longrightarrow> view s' c = view s c" for c using e(8) by simp
  note hr = holds_root [OF root n1 hi e(9)]
  have fl: "holds (view s') (i + 2) T_FILE (arg_data (files ! i))" "owned (view s') (di_addrs (node (view s') (i + 2))) c = owned (view s) (di_addrs (node (view s) (i + 2))) c"
    if "i < length files" for i c
  proof -
    have h: "holds (view s) (i + 2) T_FILE (arg_data (files ! i))" using I(5) [of "i + 1"] that by (simp add: image_of_def)
    have n: "node (view s') (i + 2) = node (view s) (i + 2)" using e(10) by simp
    note k = holds_keep [OF h n hi e(9) [THEN iffD2]]
    show "holds (view s') (i + 2) T_FILE (arg_data (files ! i))" by (rule k(1))
    show "owned (view s') (di_addrs (node (view s') (i + 2))) c = owned (view s) (di_addrs (node (view s) (i + 2))) c" by (rule k(2))
  qed
  have own: "owned (view s') (di_addrs (node (view s') i)) c = owned (view s) (di_addrs (node (view s) i)) c" if "1 \<le> i" "i \<le> length files + 1" for i c
  proof (cases "i = 1")
    case True
    then show ?thesis using hr(2) by (simp only:)
  next
    case False
    then have "i - 2 + 2 = i" "i - 2 < length files" using that by simp_all
    then show ?thesis using fl(2) [of "i - 2" c] by (simp only:)
  qed
  have "\<not> (owned (view s') (di_addrs (node (view s') i)) c \<and> owned (view s') (di_addrs (node (view s') j)) c)" if "1 \<le> i" "i < j" "j \<le> length files + 1" for i j c
    using I(6) [of "i - 1" "j - 1" c] own [of i c] own [of j c] that by (simp add: image_of_def)
  moreover have "di_type (node (view s') 1) = T_DIR" "di_size (node (view s') 1) = (length (root_entries files) div BSIZE + 1) * BSIZE"
    using root n1 by (simp_all add: holds_def)
  moreover have "img t ! 1 = view s' 1" "\<And>b. img t ! b = view s' b" using e(5) by (metis)+
  ultimately have "image_ok files (img t)"
    unfolding image_ok_def e(5) using e(4,6,7,8,9) view_ok(1) [OF e(6)] view_marked [OF e(6)] I(4,7,8) sb_stored hr(1) fl(1) by simp
  then show ?thesis using run by blast
qed

lemma demo_fits: "fits demo_files"
  by (simp add: fits_def demo_files_def blocks_used_def image_of_def need_def length_root arg_data_def)

text \<open>C19: Mkfs builds a sound file system. For files that fit, the program ends with an image the kernel accepts: the super block describes the layout,
  the bit map marks exactly the blocks in use, each file is an inode whose tree of blocks holds its bytes, the root directory lists the
  files, and no block belongs to two of them.\<close>

theorem mkfs_image: "fits files \<Longrightarrow> \<exists>s. mkfs_main files = Inr s \<and> image_ok files (img s)"
  by (rule mkfs_main_ok)

theorem mkfs_image_witness: "fits demo_files \<and> (\<exists>s. mkfs_main demo_files = Inr s \<and> image_ok demo_files (img s))"
  using mkfs_image [OF demo_fits] demo_fits by blast

section \<open>The image in the kernel\<close>

lemma holds_bytes: "filled B A cs \<Longrightarrow> fbytes B A 0 (length cs) = cs"
  by (rule nth_equalityI) (auto simp: fbytes_def filled_def)

lemma holds_solid: "filled B A cs \<Longrightarrow> bn * BSIZE < length cs \<Longrightarrow> ptr B A (bpath bn) \<noteq> 0"
proof -
  assume f: "filled B A cs" "bn * BSIZE < length cs"
  then have "bn * BSIZE < MAXMK * BSIZE" by (simp add: filled_def)
  then show ?thesis using f by (simp add: filled_def)
qed

text \<open>C20: What mkfs puts on the image is what the kernel reads. On a machine whose disk is the image, with nothing of it cached, loading the inode of the
  file with number \<open>i\<close> and reading it to its end returns the bytes of the file.\<close>

theorem mkfs_read_back:
  assumes fit: "fits files" and run: "mkfs_main files = Inr m" and i: "i < length files"
    and s: "alone p {} s" "disk s = img m" "blk s = (!) (disk s)" "sb (ic s) = mkfs_sb" "card (logged (lg s)) < NBUF"
    and ip: "ip < length (inodes (ic s))" "i_dev (inodes (ic s) ! ip) = ROOTDEV" "i_inum (inodes (ic s) ! ip) = i + 2"
  shows "wp (kthen (iload ip) (readi ip ToBuf 0 (length (arg_data (files ! i))))) (\<lambda>r t. r = (int (length (arg_data (files ! i))), arg_data (files ! i))) s"
proof -
  let ?cs = "arg_data (files ! i)" and ?n = "inodes (ic s) ! ip" and ?B = "(!) (img m)"
  have d: "image_ok files (img m)" using mkfs_main_ok [OF fit] run by auto
  have fs: "fs_ok mkfs_sb ?B FSSIZE" "length (disk s) = FSSIZE" using d s(2) by (simp_all add: image_ok_def)
  have h: "holds ?B (i + 2) T_FILE ?cs" using d i by (simp add: image_ok_def)
  have st: "stored (i + 2) s = node ?B (i + 2)" using s by (simp add: stored_def node_def)
  have len: "length ?cs \<le> MAXMK * BSIZE" using h by (simp add: holds_def filled_def)
  have n: "i + 2 < NINODES" using fit i by (simp add: fits_def)
  have ib: "IBLOCK (i + 2) mkfs_sb < FSSIZE" using IBLOCK_range [OF n] by simp
  have "wp (iload ip) (\<lambda>_ t. alone p {} t \<and> ic t = (ic s)\<lparr>inodes := (inodes (ic s))[ip := load_inode (stored (i_inum ?n) s) ?n]\<rparr> \<and> blk t = blk s \<and> logged (lg t) = logged (lg s) \<and> disk t = disk s) s"
    by (rule iload_ok [OF s(1) _ ip(1) refl ip(2)]) (use fs s h ip st ib in \<open>simp_all add: holds_def\<close>)
  then show ?thesis
    unfolding wp_kthen
  proof (rule wp_mono, elim conjE)
    fix t assume t: "alone p {} t" "ic t = (ic s)\<lparr>inodes := (inodes (ic s))[ip := load_inode (stored (i_inum ?n) s) ?n]\<rparr>" "blk t = blk s" "logged (lg t) = logged (lg s)" "disk t = disk s"
    have nt: "inodes (ic t) ! ip = load_inode (node ?B (i + 2)) ?n" "sb (ic t) = mkfs_sb" "blk t = ?B" "ip < length (inodes (ic t))"
      using t(2,3) ip st s by simp_all
    have A: "faddrs ip t = di_addrs (node ?B (i + 2))" "fsize ip t = length ?cs" using nt(1) h by (simp_all add: faddrs_def fsize_def load_inode_def holds_def)
    have f: "filled ?B (di_addrs (node ?B (i + 2))) ?cs" using h by (simp add: holds_def)
    have dt: "length (disk t) = FSSIZE" using fs(2) t(5) by simp
    have "file_ok p ip t"
      using t(1) fs(1) dt nt A f ip h holds_solid [OF f] len by (simp add: file_ok_def ready_def filled_def load_inode_def holds_def)
    then show "wp (readi ip ToBuf 0 (length ?cs)) (\<lambda>r t. r = (int (length ?cs), ?cs)) t"
      by (rule wp_mono [OF readi_ok]) (use s(5) t(4) len A nt holds_bytes [OF f] in \<open>simp_all\<close>)
  qed
qed

theorem mkfs_read_back_witness:
  "fits demo_files \<and> (\<exists>m. mkfs_main demo_files = Inr m \<and> wp (kthen (iload 0) (readi 0 ToBuf 0 3)) (\<lambda>r t. r = (3, [1, 2, 3])) (mk_machine (img m)))"
proof -
  obtain m where m: "mkfs_main demo_files = Inr m" "image_ok demo_files (img m)" using mkfs_main_ok [OF demo_fits] by blast
  have l: "\<forall>x \<in> set (img m). length x = BSIZE" "length (img m) \<le> 2 ^ 31" using m(2) by (auto simp: image_ok_def fs_ok_def in_set_conv_nth)
  note f = fs_machine_alone [OF l]
  let ?s = "mk_machine (img m)"
  have b: "alone 0 {} ?s" "disk ?s = img m" "blk ?s = (!) (disk ?s)" "lg ?s = lg (fs_machine (img m))" using f by (simp_all add: mk_machine_def)
  have c: "sb (ic ?s) = mkfs_sb" "0 < length (inodes (ic ?s))" "i_dev (inodes (ic ?s) ! 0) = ROOTDEV" "i_inum (inodes (ic ?s) ! 0) = 0 + 2"
    using f(6) by (simp_all add: mk_machine_def machine_def upd_ic_def)
  have a: "arg_data (demo_files ! 0) = [1, 2, 3]" "0 < length demo_files" by (simp_all add: demo_files_def arg_data_def)
  have "card (logged (lg ?s)) < NBUF" using b(4) f(3) by simp
  then show ?thesis using mkfs_read_back [OF demo_fits m(1) a(2) b(1-3) c(1) _ c(2-4)] demo_fits m(1) a(1) by (auto simp: numeral_3_eq_3)
qed

text \<open>C21: The root directory can end in a hole. Its size is rounded up to a whole number of blocks even when its entries already fill the last one, so that with
  30, 62, ... files its last block does not exist.\<close>

theorem mkfs_root_hole:
  assumes "fits files" "mkfs_main files = Inr s"
  shows "ptr ((!) (img s)) (di_addrs (node ((!) (img s)) ROOTINO)) (bpath (di_size (node ((!) (img s)) ROOTINO) div BSIZE - 1)) = 0 \<longleftrightarrow> (length files + 2) mod 32 = 0"
proof -
  have d: "image_ok files (img s)" using mkfs_main_ok [OF assms(1)] assms(2) by auto
  let ?n = "length (root_entries files)"
  have f: "filled ((!) (img s)) (di_addrs (node ((!) (img s)) ROOTINO)) (root_entries files)" "di_size (node ((!) (img s)) ROOTINO) = (?n div BSIZE + 1) * BSIZE"
    using d by (simp_all add: image_ok_def)
  have n: "?n = 16 * (length files + 2)" by (rule length_root)
  have "?n < MAXMK * BSIZE" using assms(1) unfolding n by (simp add: fits_def)
  then have "?n div BSIZE < MAXMK" by (simp add: div_less_iff_less_mult)
  then have "ptr ((!) (img s)) (di_addrs (node ((!) (img s)) ROOTINO)) (bpath (?n div BSIZE)) \<noteq> 0 \<longleftrightarrow> ?n div BSIZE * BSIZE < ?n"
    using f(1) by (simp add: filled_def)
  moreover have "?n div BSIZE * BSIZE < ?n \<longleftrightarrow> ?n mod BSIZE \<noteq> 0" by (rule block_part)
  moreover have "16 * x mod BSIZE = 16 * (x mod 32)" for x :: nat using mult_mod_right [of 16 x 32] by simp
  then have "?n mod BSIZE = 16 * ((length files + 2) mod 32)" unfolding n .
  moreover have "(?n div BSIZE + 1) * BSIZE div BSIZE - 1 = ?n div BSIZE" by (simp only: div_mult_self_is_m zero_less_numeral add_diff_cancel_right')
  ultimately show ?thesis unfolding f(2) by (simp only: mult_eq_0_iff) auto
qed

theorem mkfs_root_hole_witness:
  "fits thirty_files \<and> (\<exists>s. mkfs_main thirty_files = Inr s
     \<and> ptr ((!) (img s)) (di_addrs (node ((!) (img s)) ROOTINO)) (bpath (di_size (node ((!) (img s)) ROOTINO) div BSIZE - 1)) = 0)"
proof -
  have t: "length thirty_files = 30" "set thirty_files = {([97], Some [])}" by (simp_all add: thirty_files_def)
  have "map (\<lambda>f. need (length (snd (T_FILE, arg_data f)))) thirty_files = replicate 30 0" by (simp add: thirty_files_def arg_data_def need_def)
  then have "blocks_used (map (\<lambda>f. (T_FILE, arg_data f)) thirty_files) = 0" unfolding blocks_used_def by (simp add: comp_def sum_list_replicate)
  then have "blocks_used (image_of thirty_files) = 1" unfolding image_of_def used_cons by (simp add: length_root t(1) need_def)
  then have f: "fits thirty_files" by (simp add: fits_def t arg_data_def)
  obtain s where s: "mkfs_main thirty_files = Inr s" using mkfs_main_ok [OF f] by blast
  have "(length thirty_files + 2) mod 32 = 0" by (simp add: t(1))
  note iffD2 [OF mkfs_root_hole [OF f s] this]
  then show ?thesis using f s by (intro conjI exI [of _ s])
qed

end
