(* ===== verification/Ide.thy ===== *)
theory Ide
  imports Bio
begin

text \<open>
  The disk driver for real disks (\<open>ide.c\<close>), which takes the place of the memory disk of \<open>memide.c\<close> in the ordinary kernel. Requests wait in
  a queue; the first one is the one the controller works on; an interrupt ends it and starts the next.

  The controller is the part of the ATA register interface that the driver uses: task file registers, a status register that reports \<open>BSY\<close> for some time,
  commands to read and to write one sector, and a data port. A controller that never becomes ready is one whose time is \<open>None\<close>. The driver itself is
  written for any controller; \<open>ata_behaves\<close> says what it relies on.

  Every handler runs with \<open>idelock\<close> held up to the point where it sleeps or ends, so that the system is a relation between states with one step for each
  such run: a process calls \<open>iderw\<close>, the disk ends its work and interrupts, a process that was woken goes on. The theorems show that the requests of any
  number of processes take effect one after the other, each like a call of the memory disk, and that none is forgotten.
\<close>

section \<open>The controller\<close>

abbreviation FSBLOCKS :: nat where "FSBLOCKS \<equiv> 40000"

abbreviation SECTOR_SIZE :: nat where "SECTOR_SIZE \<equiv> 512"

abbreviation IDE_BSY :: uchar where "IDE_BSY \<equiv> 0x80"

abbreviation IDE_DRDY :: uchar where "IDE_DRDY \<equiv> 0x40"

abbreviation IDE_DF :: uchar where "IDE_DF \<equiv> 0x20"

abbreviation IDE_ERR :: uchar where "IDE_ERR \<equiv> 0x01"

abbreviation IDE_CMD_READ :: nat where "IDE_CMD_READ \<equiv> 0x20"

abbreviation IDE_CMD_WRITE :: nat where "IDE_CMD_WRITE \<equiv> 0x30"

abbreviation IDE_CMD_RDMUL :: nat where "IDE_CMD_RDMUL \<equiv> 0xc4"

abbreviation IDE_CMD_WRMUL :: nat where "IDE_CMD_WRMUL \<equiv> 0xc5"

text \<open>What the controller is doing: nothing, reading a sector of a drive, offering what it read (or an error), waiting for data, writing.\<close>

datatype ata_phase = Idle | Fetch nat nat | Fetched bool "uchar list" | Want nat nat | Store nat nat "uchar list"

record ata =
  a_reg :: "nat \<Rightarrow> nat"
  a_phase :: ata_phase
  a_busy :: "nat option"
  a_present :: "nat \<Rightarrow> bool"
  a_media :: "nat \<Rightarrow> nat \<Rightarrow> uchar list"

definition drive :: "ata \<Rightarrow> nat" where
  "drive d = a_reg d 0x1f6 div 16 mod 2"

definition lba :: "ata \<Rightarrow> nat" where
  "lba d = a_reg d 0x1f3 + 2 ^ 8 * a_reg d 0x1f4 + 2 ^ 16 * a_reg d 0x1f5 + 2 ^ 24 * (a_reg d 0x1f6 mod 16)"

definition inb_status :: "ata \<Rightarrow> uchar \<times> ata" where
  "inb_status d =
     (if \<not> a_present d (drive d) then (0, d)
      else case a_busy d of
        None \<Rightarrow> (IDE_BSY, d)
      | Some 0 \<Rightarrow> (case a_phase d of Fetched True _ \<Rightarrow> IDE_DRDY OR IDE_ERR | _ \<Rightarrow> IDE_DRDY, d)
      | Some (Suc n) \<Rightarrow> (IDE_BSY, d\<lparr>a_busy := Some n\<rparr>))"

definition outb :: "nat \<Rightarrow> nat \<Rightarrow> ata \<Rightarrow> ata" where
  "outb p v d =
     (if p = 0x1f7 then
        (if v = IDE_CMD_READ then d\<lparr>a_phase := Fetch (drive d) (lba d)\<rparr>
         else if v = IDE_CMD_WRITE then d\<lparr>a_phase := Want (drive d) (lba d)\<rparr>
         else d)
      else d\<lparr>a_reg := (a_reg d)(p := v mod 256)\<rparr>)"

definition insl :: "ata \<Rightarrow> uchar list \<times> ata" where
  "insl d = (case a_phase d of Fetched e bs \<Rightarrow> (bs, d\<lparr>a_phase := Idle\<rparr>) | _ \<Rightarrow> (replicate BSIZE 0, d))"

definition outsl :: "uchar list \<Rightarrow> ata \<Rightarrow> ata" where
  "outsl bs d = (case a_phase d of Want k l \<Rightarrow> d\<lparr>a_phase := Store k l bs\<rparr> | _ \<Rightarrow> d)"

text \<open>The controller ends its work, with or without an error, and will be busy for \<open>n\<close> more looks at the status.\<close>

definition complete :: "bool \<Rightarrow> nat \<Rightarrow> ata \<Rightarrow> ata" where
  "complete e n d =
     (case a_phase d of
        Fetch k l \<Rightarrow> d\<lparr>a_phase := Fetched e (a_media d k l), a_busy := Some n\<rparr>
      | Store k l bs \<Rightarrow> d\<lparr>a_phase := Idle, a_busy := Some n, a_media := (a_media d)(k := (a_media d k)(l := bs))\<rparr>
      | _ \<Rightarrow> d)"

text \<open>The driver reaches the controller through port instructions. They are a parameter of the driver, together with the way the controller ends its work; what the
  driver relies on is that seen through some view the controller behaves as above.\<close>

record 'd hw =
  hw_inb :: "nat \<Rightarrow> 'd \<Rightarrow> uchar \<times> 'd"
  hw_outb :: "nat \<Rightarrow> nat \<Rightarrow> 'd \<Rightarrow> 'd"
  hw_insl :: "nat \<Rightarrow> 'd \<Rightarrow> uchar list \<times> 'd"
  hw_outsl :: "nat \<Rightarrow> uchar list \<Rightarrow> 'd \<Rightarrow> 'd"
  hw_finish :: "bool \<Rightarrow> nat \<Rightarrow> 'd \<Rightarrow> 'd"

definition ata_behaves :: "'d hw \<Rightarrow> ('d \<Rightarrow> ata) \<Rightarrow> bool" where
  "ata_behaves h view \<longleftrightarrow>
     (\<forall>d. apsnd view (hw_inb h 0x1f7 d) = inb_status (view d))
     \<and> (\<forall>p v d. view (hw_outb h p v d) = outb p v (view d))
     \<and> (\<forall>d. apsnd view (hw_insl h 0x1f0 d) = insl (view d))
     \<and> (\<forall>bs d. view (hw_outsl h 0x1f0 bs d) = outsl bs (view d))
     \<and> (\<forall>e n d. view (hw_finish h e n d) = complete e n (view d))"

definition ata_hw :: "ata hw" where
  "ata_hw = \<lparr>hw_inb = \<lambda>_. inb_status, hw_outb = outb, hw_insl = \<lambda>_. insl, hw_outsl = \<lambda>_. outsl, hw_finish = complete\<rparr>"

section \<open>The driver\<close>

text \<open>Where the process is that works on a buffer: outside of the driver, asleep in it, or woken.\<close>

datatype ide_pc = Out | Asleep | Woken

record 'd idest =
  dbuf :: "nat \<Rightarrow> buf"
  dlock :: "nat \<Rightarrow> bool"
  dpc :: "nat \<Rightarrow> ide_pc"
  idequeue :: "nat list"
  havedisk1 :: bool
  ctl :: 'd

datatype 'a iout = IPanic string | IHang | IOk 'a

partial_function (option) idewait :: "'d hw \<Rightarrow> bool \<Rightarrow> 'd \<Rightarrow> (int \<times> 'd) option" where
  "idewait h checkerr d =
     (let (r, d) = hw_inb h 0x1f7 d in
      if r AND (IDE_BSY OR IDE_DRDY) \<noteq> IDE_DRDY then idewait h checkerr d
      else Some (if checkerr \<and> r AND (IDE_DF OR IDE_ERR) \<noteq> 0 then -1 else 0, d))"

primrec probe1 :: "'d hw \<Rightarrow> nat \<Rightarrow> 'd \<Rightarrow> bool \<times> 'd" where
  "probe1 h 0 d = (False, d)"
| "probe1 h (Suc n) d = (let (r, d) = hw_inb h 0x1f7 d in if r \<noteq> 0 then (True, d) else probe1 h n d)"

definition ideinit :: "'d hw \<Rightarrow> 'd idest \<Rightarrow> 'd idest iout" where
  "ideinit h s =
     (case idewait h False (ctl s) of
        None \<Rightarrow> IHang
      | Some (_, d) \<Rightarrow>
        let d = hw_outb h 0x1f6 (0xe0 OR push_bit 4 1) d;
            (found, d) = probe1 h 1000 d;
            d = hw_outb h 0x1f6 (0xe0 OR push_bit 4 0) d
        in IOk (s\<lparr>havedisk1 := (if found then True else havedisk1 s), ctl := d\<rparr>))"

definition idestart :: "'d hw \<Rightarrow> nat \<Rightarrow> 'd idest \<Rightarrow> 'd idest iout" where
  "idestart h b s =
     (let c = dbuf s b in
      if b_blockno c \<ge> FSBLOCKS then IPanic ''incorrect blockno''
      else
        let sector_per_block = BSIZE div SECTOR_SIZE;
            sector = b_blockno c * sector_per_block;
            read_cmd = (if sector_per_block = 1 then IDE_CMD_READ else IDE_CMD_RDMUL);
            write_cmd = (if sector_per_block = 1 then IDE_CMD_WRITE else IDE_CMD_WRMUL) in
        if sector_per_block > 7 then IPanic ''idestart''
        else
          case idewait h False (ctl s) of
            None \<Rightarrow> IHang
          | Some (_, d) \<Rightarrow>
            let d = hw_outb h 0x3f6 0 d;
                d = hw_outb h 0x1f2 sector_per_block d;
                d = hw_outb h 0x1f3 (sector mod 256) d;
                d = hw_outb h 0x1f4 (sector div 2 ^ 8 mod 256) d;
                d = hw_outb h 0x1f5 (sector div 2 ^ 16 mod 256) d;
                d = hw_outb h 0x1f6 (0xe0 OR push_bit 4 (b_dev c mod 2) OR (sector div 2 ^ 24 mod 16)) d;
                d = (if b_dirty c then hw_outsl h 0x1f0 (b_data c) (hw_outb h 0x1f7 write_cmd d) else hw_outb h 0x1f7 read_cmd d)
            in IOk (s\<lparr>ctl := d\<rparr>))"

definition upd_dbuf :: "nat \<Rightarrow> (buf \<Rightarrow> buf) \<Rightarrow> 'd idest \<Rightarrow> 'd idest" where
  "upd_dbuf b f s = s\<lparr>dbuf := (dbuf s)(b := f (dbuf s b))\<rparr>"

definition wake_buf :: "nat \<Rightarrow> 'd idest \<Rightarrow> 'd idest" where
  "wake_buf b s = s\<lparr>dpc := (dpc s)(b := if dpc s b = Asleep then Woken else dpc s b)\<rparr>"

definition ideintr :: "'d hw \<Rightarrow> 'd idest \<Rightarrow> 'd idest iout" where
  "ideintr h s =
     (case idequeue s of
        [] \<Rightarrow> IOk s
      | b # q \<Rightarrow>
        let s = s\<lparr>idequeue := q\<rparr> in
        case (if b_dirty (dbuf s b) then Some s
              else case idewait h True (ctl s) of
                None \<Rightarrow> None
              | Some (r, d) \<Rightarrow>
                if r \<ge> 0 then (let (bs, d) = hw_insl h 0x1f0 d in Some (upd_dbuf b (\<lambda>c. c\<lparr>b_data := bs\<rparr>) (s\<lparr>ctl := d\<rparr>)))
                else Some (s\<lparr>ctl := d\<rparr>)) of
          None \<Rightarrow> IHang
        | Some s \<Rightarrow>
          let s = upd_dbuf b (\<lambda>c. c\<lparr>b_valid := True, b_dirty := False\<rparr>) s;
              s = wake_buf b s
          in case idequeue s of [] \<Rightarrow> IOk s | b' # _ \<Rightarrow> idestart h b' s)"

text \<open>The loop at the end of \<open>iderw\<close>: the process returns or sleeps.\<close>

definition iderw_wait :: "nat \<Rightarrow> 'd idest \<Rightarrow> 'd idest" where
  "iderw_wait b s = s\<lparr>dpc := (dpc s)(b := if b_valid (dbuf s b) \<and> \<not> b_dirty (dbuf s b) then Out else Asleep)\<rparr>"

definition iderw_ide :: "'d hw \<Rightarrow> nat \<Rightarrow> 'd idest \<Rightarrow> 'd idest iout" where
  "iderw_ide h b s =
     (let c = dbuf s b in
      if \<not> dlock s b then IPanic ''iderw: buf not locked''
      else if b_valid c \<and> \<not> b_dirty c then IPanic ''iderw: nothing to do''
      else if b_dev c \<noteq> 0 \<and> \<not> havedisk1 s then IPanic ''iderw: ide disk 1 not present''
      else
        let s = s\<lparr>idequeue := idequeue s @ [b]\<rparr> in
        case (if hd (idequeue s) = b then idestart h b s else IOk s) of
          IOk s \<Rightarrow> IOk (iderw_wait b s)
        | IPanic m \<Rightarrow> IPanic m
        | IHang \<Rightarrow> IHang)"

section \<open>The system\<close>

definition request_ok :: "nat \<Rightarrow> 'd idest \<Rightarrow> bool" where
  "request_ok b s \<longleftrightarrow> dlock s b \<and> \<not> (b_valid (dbuf s b) \<and> \<not> b_dirty (dbuf s b)) \<and> (b_dev (dbuf s b) \<noteq> 0 \<longrightarrow> havedisk1 s) \<and> b_blockno (dbuf s b) < FSBLOCKS"

text \<open>The controller ends its work without an error and interrupts.\<close>

definition serve :: "'d hw \<Rightarrow> nat \<Rightarrow> 'd idest \<Rightarrow> 'd idest iout" where
  "serve h n s = ideintr h (s\<lparr>ctl := hw_finish h False n (ctl s)\<rparr>)"

inductive ide_step :: "'d hw \<Rightarrow> 'd idest \<Rightarrow> 'd idest \<Rightarrow> bool" for h where
  edit: "dpc s b = Out \<Longrightarrow> ide_step h s (s\<lparr>dbuf := (dbuf s)(b := c)\<rparr>)"
| call: "dpc s b = Out \<Longrightarrow> request_ok b s \<Longrightarrow> iderw_ide h b s = IOk s' \<Longrightarrow> ide_step h s s'"
| interrupt: "idequeue s \<noteq> [] \<Longrightarrow> serve h n s = IOk s' \<Longrightarrow> ide_step h s s'"
| resume: "dpc s b = Woken \<Longrightarrow> ide_step h s (iderw_wait b s)"

text \<open>What the controller works on for a buffer.\<close>

definition work :: "buf \<Rightarrow> ata_phase" where
  "work c = (if b_dirty c then Store (b_dev c mod 2) (b_blockno c) (b_data c) else Fetch (b_dev c mod 2) (b_blockno c))"

definition ide_inv :: "ata idest \<Rightarrow> bool" where
  "ide_inv s \<longleftrightarrow> distinct (idequeue s)
     \<and> (\<forall>b \<in> set (idequeue s). dpc s b = Asleep \<and> \<not> (b_valid (dbuf s b) \<and> \<not> b_dirty (dbuf s b)) \<and> b_blockno (dbuf s b) < FSBLOCKS
          \<and> a_present (ctl s) (b_dev (dbuf s b) mod 2))
     \<and> (\<forall>b. dpc s b = Asleep \<longrightarrow> b \<in> set (idequeue s)) \<and> (\<forall>b. dpc s b = Woken \<longrightarrow> b_valid (dbuf s b) \<and> \<not> b_dirty (dbuf s b))
     \<and> a_present (ctl s) 0 \<and> (havedisk1 s \<longrightarrow> a_present (ctl s) 1) \<and> a_present (ctl s) (drive (ctl s)) \<and> a_busy (ctl s) \<noteq> None
     \<and> a_phase (ctl s) = (case idequeue s of [] \<Rightarrow> Idle | b # _ \<Rightarrow> work (dbuf s b))"

text \<open>The specification: buffers, the contents of the disks, and the requests that wait. A request is served in one step, as the memory disk does it.\<close>

definition sync_buf :: "buf \<Rightarrow> (nat \<Rightarrow> nat \<Rightarrow> uchar list) \<Rightarrow> buf" where
  "sync_buf c m = (if b_dirty c then c\<lparr>b_dirty := False, b_valid := True\<rparr> else c\<lparr>b_data := m (b_dev c mod 2) (b_blockno c), b_valid := True\<rparr>)"

definition sync_media :: "buf \<Rightarrow> (nat \<Rightarrow> nat \<Rightarrow> uchar list) \<Rightarrow> nat \<Rightarrow> nat \<Rightarrow> uchar list" where
  "sync_media c m = (if b_dirty c then m(b_dev c mod 2 := (m (b_dev c mod 2))(b_blockno c := b_data c)) else m)"

type_synonym sync_state = "(nat \<Rightarrow> buf) \<times> (nat \<Rightarrow> nat \<Rightarrow> uchar list) \<times> nat set"

inductive sync_step :: "sync_state \<Rightarrow> sync_state \<Rightarrow> bool" where
  sync_edit: "b \<notin> P \<Longrightarrow> sync_step (f, m, P) (f(b := c), m, P)"
| sync_call: "b \<notin> P \<Longrightarrow> sync_step (f, m, P) (f, m, insert b P)"
| sync_serve: "b \<in> P \<Longrightarrow> sync_step (f, m, P) (f(b := sync_buf (f b) m), sync_media (f b) m, P - {b})"

definition requests :: "ata idest \<Rightarrow> sync_state" where
  "requests s = (dbuf s, a_media (ctl s), set (idequeue s))"

definition task_file :: "nat \<Rightarrow> nat \<Rightarrow> ata \<Rightarrow> ata" where
  "task_file x k d = d\<lparr>a_reg := (a_reg d)(0x3f6 := 0, 0x1f2 := 1, 0x1f3 := x mod 256, 0x1f4 := x div 2 ^ 8 mod 256, 0x1f5 := x div 2 ^ 16 mod 256,
     0x1f6 := (0xe0 OR push_bit 4 (k mod 2) OR 0) mod 256)\<rparr>"

text \<open>The machine before \<open>ideinit\<close>: nothing is queued, drive 0 is selected and answers.\<close>

definition powered_on :: "ata idest \<Rightarrow> bool" where
  "powered_on s \<longleftrightarrow> idequeue s = [] \<and> (\<forall>b. dpc s b = Out) \<and> \<not> havedisk1 s \<and> a_phase (ctl s) = Idle \<and> drive (ctl s) = 0 \<and> a_present (ctl s) 0 \<and> a_busy (ctl s) \<noteq> None"

primrec serve_all :: "'d hw \<Rightarrow> nat list \<Rightarrow> 'd idest \<Rightarrow> 'd idest iout" where
  "serve_all h [] s = IOk s"
| "serve_all h (n # ns) s = (case serve h n s of IOk s \<Rightarrow> serve_all h ns s | r \<Rightarrow> r)"

text \<open>Two buffers: the first is to be written to block 7 of the second drive, the second one to be read from block 9.\<close>

definition ide_demo :: "ata idest" where
  "ide_demo = \<lparr>dbuf = (\<lambda>b. \<lparr>b_valid = False, b_dirty = (b = 0), b_dev = 1, b_blockno = (if b = 0 then 7 else 9), b_refcnt = 1, b_data = replicate BSIZE 5\<rparr>),
     dlock = (\<lambda>_. True), dpc = (\<lambda>_. Out), idequeue = [], havedisk1 = False,
     ctl = \<lparr>a_reg = (\<lambda>_. 0), a_phase = Idle, a_busy = Some 2, a_present = (\<lambda>_. True), a_media = (\<lambda>_ _. replicate BSIZE 0)\<rparr>\<rparr>"

definition seen :: "('d \<Rightarrow> ata) \<Rightarrow> 'd idest \<Rightarrow> ata idest" where
  "seen view s = \<lparr>dbuf = dbuf s, dlock = dlock s, dpc = dpc s, idequeue = idequeue s, havedisk1 = havedisk1 s, ctl = view (ctl s)\<rparr>"

fun iseen :: "('d \<Rightarrow> ata) \<Rightarrow> 'd idest iout \<Rightarrow> ata idest iout" where
  "iseen view (IPanic m) = IPanic m"
| "iseen view IHang = IHang"
| "iseen view (IOk s) = IOk (seen view s)"

section \<open>The controller\<close>

lemma ata_hw_simps [simp]:
  "hw_inb ata_hw p d = inb_status d" "hw_outb ata_hw p v d = outb p v d" "hw_insl ata_hw p d = insl d" "hw_outsl ata_hw p bs d = outsl bs d" "hw_finish ata_hw e n d = complete e n d"
  by (simp_all add: ata_hw_def)

lemma status_bits:
  "(IDE_BSY AND (IDE_BSY OR IDE_DRDY) \<noteq> IDE_DRDY)" "IDE_DRDY AND (IDE_BSY OR IDE_DRDY) = IDE_DRDY" "(IDE_DRDY OR IDE_ERR) AND (IDE_BSY OR IDE_DRDY) = IDE_DRDY"
  "IDE_DRDY AND (IDE_DF OR IDE_ERR) = 0" "(IDE_DRDY OR IDE_ERR) AND (IDE_DF OR IDE_ERR) \<noteq> 0"
  by simp_all

lemma idewait_ok:
  assumes "a_busy d = Some n" "a_present d (drive d)"
  shows "idewait ata_hw e d = Some (if e \<and> (\<exists>bs. a_phase d = Fetched True bs) then -1 else 0, d\<lparr>a_busy := Some 0\<rparr>)"
  using assms
proof (induction n arbitrary: d)
  case 0
  then have "d\<lparr>a_busy := Some 0\<rparr> = d" by simp
  then show ?case using 0 by (subst idewait.simps) (auto simp: inb_status_def split: ata_phase.splits bool.splits)
next
  case (Suc n)
  let ?d = "d\<lparr>a_busy := Some n\<rparr>"
  have "idewait ata_hw e d = idewait ata_hw e ?d" using Suc.prems by (subst idewait.simps) (simp add: inb_status_def)
  moreover have "a_present ?d (drive ?d)" using Suc.prems by (simp add: drive_def)
  ultimately show ?case using Suc.IH [of ?d] by simp
qed

lemma lba_bytes: "x < FSBLOCKS \<Longrightarrow> x mod 256 + 2 ^ 8 * (x div 2 ^ 8 mod 256) + 2 ^ 16 * (x div 2 ^ 16 mod 256) = x"
proof -
  assume "x < FSBLOCKS"
  then have "x div 2 ^ 16 = 0" "x div 2 ^ 8 < 256" by (simp_all add: div_less_iff_less_mult)
  then show ?thesis by simp
qed

lemma drive_byte: "(0xe0 OR push_bit 4 (k mod 2) OR 0) mod 256 div 16 mod 2 = k mod (2 :: nat)" "(0xe0 OR push_bit 4 (k mod 2) OR 0) mod 256 mod 16 = (0 :: nat)"
  by (cases "k mod 2 = 0"; simp add: mod2_eq_if)+

lemma task_file_props:
  assumes "x < FSBLOCKS"
  shows "drive (task_file x k d) = k mod 2" "lba (task_file x k d) = x"
proof -
  show "drive (task_file x k d) = k mod 2" unfolding drive_def task_file_def using drive_byte(1) [of k] by simp
  have r: "a_reg (task_file x k d) 0x1f3 = x mod 256" "a_reg (task_file x k d) 0x1f4 = x div 2 ^ 8 mod 256" "a_reg (task_file x k d) 0x1f5 = x div 2 ^ 16 mod 256"
    "a_reg (task_file x k d) 0x1f6 mod 16 = 0" using drive_byte(2) [of k] by (simp_all add: task_file_def)
  show "lba (task_file x k d) = x" unfolding lba_def r using lba_bytes [OF assms] by (simp only: mult_0_right add_0_right)
qed

lemma idestart_ok:
  assumes "b_blockno (dbuf s b) < FSBLOCKS" "a_busy (ctl s) = Some n" "a_present (ctl s) (drive (ctl s))"
  shows "\<exists>d. idestart ata_hw b s = IOk (s\<lparr>ctl := d\<rparr>) \<and> a_phase d = work (dbuf s b) \<and> a_media d = a_media (ctl s) \<and> a_present d = a_present (ctl s)
    \<and> drive d = b_dev (dbuf s b) mod 2 \<and> a_busy d = Some 0"
proof -
  let ?c = "dbuf s b" and ?d0 = "(ctl s)\<lparr>a_busy := Some 0\<rparr>"
  let ?x = "b_blockno ?c"
  let ?t = "task_file ?x (b_dev ?c) ?d0"
  have z: "?x * 1 div 2 ^ 24 mod 16 = 0" using assms(1) by simp
  have one: "BSIZE div SECTOR_SIZE = 1" by simp
  note w = idewait_ok [OF assms(2,3), of False] and p = task_file_props [OF assms(1), of "b_dev ?c" ?d0]
  define d where "d = ?t\<lparr>a_phase := work ?c\<rparr>"
  have o: "outb 0x1f6 (0xe0 OR push_bit 4 (b_dev ?c mod 2) OR 0) (outb 0x1f5 (?x * 1 div 2 ^ 16 mod 256) (outb 0x1f4 (?x * 1 div 2 ^ 8 mod 256) (outb 0x1f3 (?x * 1 mod 256)
      (outb 0x1f2 1 (outb 0x3f6 0 ?d0))))) = ?t"
    by (simp add: outb_def task_file_def del: fun_upd_apply)
  have "outb 0x1f7 IDE_CMD_READ ?t = ?t\<lparr>a_phase := Fetch (b_dev ?c mod 2) ?x\<rparr>" "outsl bs (outb 0x1f7 IDE_CMD_WRITE ?t) = ?t\<lparr>a_phase := Store (b_dev ?c mod 2) ?x bs\<rparr>" for bs
    using p by (simp_all add: outb_def outsl_def)
  then have "idestart ata_hw b s = IOk (s\<lparr>ctl := d\<rparr>)"
    unfolding idestart_def Let_def one z d_def work_def using assms(1) w o by simp
  moreover have "drive d = b_dev ?c mod 2" using p(1) by (simp add: d_def drive_def)
  ultimately show ?thesis by (intro exI [of _ d]) (simp add: d_def task_file_def)
qed

section \<open>The handlers\<close>

lemma ide_invD:
  assumes "ide_inv s"
  shows "distinct (idequeue s)" "b \<in> set (idequeue s) \<Longrightarrow> dpc s b = Asleep" "b \<in> set (idequeue s) \<Longrightarrow> \<not> (b_valid (dbuf s b) \<and> \<not> b_dirty (dbuf s b))"
    "b \<in> set (idequeue s) \<Longrightarrow> b_blockno (dbuf s b) < FSBLOCKS" "b \<in> set (idequeue s) \<Longrightarrow> a_present (ctl s) (b_dev (dbuf s b) mod 2)"
    "dpc s b = Asleep \<Longrightarrow> b \<in> set (idequeue s)" "dpc s b = Woken \<Longrightarrow> b_valid (dbuf s b) \<and> \<not> b_dirty (dbuf s b)" "a_present (ctl s) 0"
    "havedisk1 s \<Longrightarrow> a_present (ctl s) 1" "a_present (ctl s) (drive (ctl s))" "\<exists>n. a_busy (ctl s) = Some n"
    "a_phase (ctl s) = (case idequeue s of [] \<Rightarrow> Idle | b # _ \<Rightarrow> work (dbuf s b))"
  using assms unfolding ide_inv_def by blast+

lemma idest_order:
  "s\<lparr>ctl := d, idequeue := q, dbuf := f, dpc := g\<rparr> = s\<lparr>idequeue := q, dbuf := f, dpc := g, ctl := d\<rparr>"
  "s\<lparr>idequeue := q, ctl := d, dbuf := f, dpc := g\<rparr> = s\<lparr>idequeue := q, dbuf := f, dpc := g, ctl := d\<rparr>"
  by simp_all

text \<open>The end of the active request, before the next one is started.\<close>

lemma serve_first:
  assumes h: "ide_inv s" and q: "idequeue s = b # q"
  shows "\<exists>d. serve ata_hw n s = (case q of [] \<Rightarrow> IOk (s\<lparr>idequeue := q, dbuf := (dbuf s)(b := sync_buf (dbuf s b) (a_media (ctl s))), dpc := (dpc s)(b := Woken), ctl := d\<rparr>)
      | b' # _ \<Rightarrow> idestart ata_hw b' (s\<lparr>idequeue := q, dbuf := (dbuf s)(b := sync_buf (dbuf s b) (a_media (ctl s))), dpc := (dpc s)(b := Woken), ctl := d\<rparr>))
    \<and> a_phase d = Idle \<and> a_media d = sync_media (dbuf s b) (a_media (ctl s)) \<and> a_present d = a_present (ctl s) \<and> drive d = drive (ctl s) \<and> a_busy d \<noteq> None"
proof -
  let ?c = "dbuf s b"
  have pc: "dpc s b = Asleep" using ide_invD(2) [OF h, of b] q by simp
  have ph: "a_phase (ctl s) = work ?c" using ide_invD(12) [OF h] q by simp
  show ?thesis
  proof (cases "b_dirty ?c")
    case True
    let ?d = "complete False n (ctl s)"
    have d: "?d = (ctl s)\<lparr>a_phase := Idle, a_busy := Some n, a_media := sync_media ?c (a_media (ctl s))\<rparr>"
      using ph True by (simp add: complete_def work_def sync_media_def)
    have "?c\<lparr>b_valid := True, b_dirty := False\<rparr> = sync_buf ?c (a_media (ctl s))" using True by (cases ?c) (simp add: sync_buf_def)
    then have "serve ata_hw n s = (case q of [] \<Rightarrow> IOk (s\<lparr>idequeue := q, dbuf := (dbuf s)(b := sync_buf ?c (a_media (ctl s))), dpc := (dpc s)(b := Woken), ctl := ?d\<rparr>)
      | b' # _ \<Rightarrow> idestart ata_hw b' (s\<lparr>idequeue := q, dbuf := (dbuf s)(b := sync_buf ?c (a_media (ctl s))), dpc := (dpc s)(b := Woken), ctl := ?d\<rparr>))"
      using True q pc by (cases q) (simp_all add: serve_def ideintr_def upd_dbuf_def wake_buf_def Let_def idest_order)
    then show ?thesis by (intro exI [of _ ?d]) (simp add: d drive_def)
  next
    case False
    let ?e = "complete False n (ctl s)" and ?d = "(ctl s)\<lparr>a_phase := Idle, a_busy := Some 0\<rparr>"
    let ?bs = "a_media (ctl s) (b_dev ?c mod 2) (b_blockno ?c)"
    have e: "?e = (ctl s)\<lparr>a_phase := Fetched False ?bs, a_busy := Some n\<rparr>" using ph False by (simp add: complete_def work_def)
    have "a_busy ?e = Some n" "a_present ?e (drive ?e)" using ide_invD(10) [OF h] by (simp_all add: e drive_def)
    then have w: "idewait ata_hw True ?e = Some (0, ?e\<lparr>a_busy := Some 0\<rparr>)" using idewait_ok [of ?e n True] by (simp add: e)
    have i: "insl (?e\<lparr>a_busy := Some 0\<rparr>) = (?bs, ?d)" by (simp add: e insl_def)
    have "?c\<lparr>b_data := ?bs, b_valid := True, b_dirty := False\<rparr> = sync_buf ?c (a_media (ctl s))" using False by (cases ?c) (simp add: sync_buf_def)
    then have "serve ata_hw n s = (case q of [] \<Rightarrow> IOk (s\<lparr>idequeue := q, dbuf := (dbuf s)(b := sync_buf ?c (a_media (ctl s))), dpc := (dpc s)(b := Woken), ctl := ?d\<rparr>)
      | b' # _ \<Rightarrow> idestart ata_hw b' (s\<lparr>idequeue := q, dbuf := (dbuf s)(b := sync_buf ?c (a_media (ctl s))), dpc := (dpc s)(b := Woken), ctl := ?d\<rparr>))"
      using False q pc w i by (cases q) (simp_all add: serve_def ideintr_def upd_dbuf_def wake_buf_def Let_def idest_order)
    then show ?thesis using False by (intro exI [of _ ?d]) (simp add: drive_def sync_media_def)
  qed
qed

lemma sync_buf_done [simp]: "b_valid (sync_buf c m)" "\<not> b_dirty (sync_buf c m)"
  by (simp_all add: sync_buf_def)

text \<open>The memory disk of \<open>memide.c\<close>, which has only the second drive, does the step of the specification within the call.\<close>

lemma memide_serves:
  assumes "ctx p {} s" "sl_locked (slocks s (SBuf i))" "sl_pid (slocks s (SBuf i)) = mypid s"
    and "\<not> (b_valid (bufs s ! i) \<and> \<not> b_dirty (bufs s ! i))" "b_dev (bufs s ! i) = ROOTDEV" "b_blockno (bufs s ! i) < length (disk s)" "i < length (bufs s)"
    and "\<forall>k < length (disk s). m 1 k = disk s ! k"
  shows "wp (iderw i) (\<lambda>_ t. bufs t = (bufs s)[i := sync_buf (bufs s ! i) m] \<and> length (disk t) = length (disk s)
    \<and> (\<forall>k < length (disk s). sync_media (bufs s ! i) m 1 k = disk t ! k)) s"
proof (cases "b_dirty (bufs s ! i)")
  case True
  show ?thesis using assms True by (intro wp_mono [OF iderw_writes [OF assms(1-3) True assms(5-7)]]) (auto simp: sync_buf_def sync_media_def)
next
  case False
  then have "\<not> b_valid (bufs s ! i)" using assms(4) by simp
  then show ?thesis using assms False by (intro wp_mono [OF iderw_reads [OF assms(1-3) _ False assms(5-7)]]) (auto simp: sync_buf_def sync_media_def)
qed

lemma serve_ok:
  assumes h: "ide_inv s" and q: "idequeue s = b # q"
  shows "\<exists>s'. serve ata_hw n s = IOk s' \<and> ide_inv s' \<and> idequeue s' = q \<and> dpc s' = (dpc s)(b := Woken) \<and> havedisk1 s' = havedisk1 s
    \<and> dbuf s' = (dbuf s)(b := sync_buf (dbuf s b) (a_media (ctl s))) \<and> a_media (ctl s') = sync_media (dbuf s b) (a_media (ctl s))"
proof -
  let ?f = "(dbuf s)(b := sync_buf (dbuf s b) (a_media (ctl s)))"
  let ?s = "\<lambda>d. s\<lparr>idequeue := q, dbuf := ?f, dpc := (dpc s)(b := Woken), ctl := d\<rparr>"
  obtain d where d: "serve ata_hw n s = (case q of [] \<Rightarrow> IOk (?s d) | b' # _ \<Rightarrow> idestart ata_hw b' (?s d))" "a_phase d = Idle"
      "a_media d = sync_media (dbuf s b) (a_media (ctl s))" "a_present d = a_present (ctl s)" "drive d = drive (ctl s)" "a_busy d \<noteq> None" using serve_first [OF h q] by blast
  have bq: "b \<notin> set q" using ide_invD(1) [OF h] q by simp
  have inv: "ide_inv (?s e)" if "a_present e = a_present (ctl s)" "a_present e (drive e)" "a_busy e \<noteq> None" "a_phase e = (case q of [] \<Rightarrow> Idle | b' # _ \<Rightarrow> work (dbuf s b'))" for e
  proof -
    have o: "dbuf (?s e) c = dbuf s c" "dpc (?s e) c = dpc s c" if "c \<in> set q" for c using that bq by auto
    have "a_phase (ctl (?s e)) = (case idequeue (?s e) of [] \<Rightarrow> Idle | b' # _ \<Rightarrow> work (dbuf (?s e) b'))" using that(4) o(1) by (cases q) simp_all
    moreover have "\<forall>c \<in> set q. dpc (?s e) c = Asleep \<and> \<not> (b_valid (dbuf (?s e) c) \<and> \<not> b_dirty (dbuf (?s e) c)) \<and> b_blockno (dbuf (?s e) c) < FSBLOCKS
        \<and> a_present e (b_dev (dbuf (?s e) c) mod 2)"
      using ide_invD(2-5) [OF h] that(1) q bq by auto
    moreover have "dpc (?s e) c = Asleep \<Longrightarrow> c \<in> set q" "dpc (?s e) c = Woken \<Longrightarrow> b_valid (dbuf (?s e) c) \<and> \<not> b_dirty (dbuf (?s e) c)" for c
      using ide_invD(6,7) [OF h, of c] q by (auto split: if_splits)
    ultimately show ?thesis
      unfolding ide_inv_def using ide_invD(1,8,9) [OF h] that(1-3) q by simp
  qed
  show ?thesis
  proof (cases q)
    case Nil
    have "ide_inv (?s d)" by (rule inv) (use d(2,4-6) ide_invD(10) [OF h] Nil in simp_all)
    then show ?thesis using d(1,3) Nil by simp
  next
    case (Cons b' r)
    then have b': "b' \<in> set (idequeue s)" "b' \<noteq> b" using q bq by auto
    obtain n' where n': "a_busy d = Some n'" using d(6) by blast
    obtain e where e: "idestart ata_hw b' (?s d) = IOk (?s d\<lparr>ctl := e\<rparr>)" "a_phase e = work (dbuf s b')" "a_media e = a_media d" "a_present e = a_present d"
        "drive e = b_dev (dbuf s b') mod 2" "a_busy e = Some 0"
      using idestart_ok [of "?s d" b' n'] ide_invD(4,10) [OF h] b' d(4,5) n' by auto
    have "ide_inv (?s e)" by (rule inv) (use e d(4) ide_invD(5) [OF h b'(1)] Cons in simp_all)
    then show ?thesis using d(1,3) e(1,3) Cons by simp
  qed
qed

lemma call_ok:
  assumes h: "ide_inv s" and b: "dpc s b = Out" and r: "request_ok b s"
  shows "\<exists>d. iderw_ide ata_hw b s = IOk (s\<lparr>idequeue := idequeue s @ [b], ctl := d, dpc := (dpc s)(b := Asleep)\<rparr>) \<and> a_media d = a_media (ctl s)
    \<and> ide_inv (s\<lparr>idequeue := idequeue s @ [b], ctl := d, dpc := (dpc s)(b := Asleep)\<rparr>)"
proof -
  let ?c = "dbuf s b" and ?s = "\<lambda>d. s\<lparr>idequeue := idequeue s @ [b], ctl := d, dpc := (dpc s)(b := Asleep)\<rparr>"
  have c: "dlock s b" "\<not> (b_valid ?c \<and> \<not> b_dirty ?c)" "b_dev ?c \<noteq> 0 \<Longrightarrow> havedisk1 s" "b_blockno ?c < FSBLOCKS" using r by (auto simp: request_ok_def)
  have bq: "b \<notin> set (idequeue s)" using ide_invD(2) [OF h, of b] b by auto
  have pr: "a_present (ctl s) (b_dev ?c mod 2)"
  proof (cases "b_dev ?c mod 2 = 0")
    case False
    then have "b_dev ?c \<noteq> 0" "b_dev ?c mod 2 = 1" by auto
    then show ?thesis using c(3) ide_invD(9) [OF h] by simp
  qed (use ide_invD(8) [OF h] in simp)
  have inv: "ide_inv (?s d)" if "a_present d = a_present (ctl s)" "a_present d (drive d)" "a_busy d \<noteq> None" "a_phase d = (case idequeue s of [] \<Rightarrow> work ?c | c # _ \<Rightarrow> work (dbuf s c))" for d
  proof -
    have "a_phase (ctl (?s d)) = (case idequeue (?s d) of [] \<Rightarrow> Idle | c # _ \<Rightarrow> work (dbuf (?s d) c))" using that(4) by (cases "idequeue s") simp_all
    moreover have "\<forall>x \<in> set (idequeue (?s d)). dpc (?s d) x = Asleep \<and> \<not> (b_valid (dbuf s x) \<and> \<not> b_dirty (dbuf s x)) \<and> b_blockno (dbuf s x) < FSBLOCKS \<and> a_present d (b_dev (dbuf s x) mod 2)"
      using ide_invD(2-5) [OF h] c(2,4) pr that(1) by auto
    moreover have "dpc (?s d) x = Asleep \<Longrightarrow> x \<in> set (idequeue (?s d))" "dpc (?s d) x = Woken \<Longrightarrow> b_valid (dbuf s x) \<and> \<not> b_dirty (dbuf s x)" for x
      using ide_invD(6,7) [OF h, of x] by (auto split: if_splits)
    ultimately show ?thesis unfolding ide_inv_def using ide_invD(1,8,9) [OF h] bq that(1-3) by simp
  qed
  show ?thesis
  proof (cases "idequeue s")
    case Nil
    obtain n where n: "a_busy (ctl s) = Some n" using ide_invD(11) [OF h] by blast
    obtain d where d: "idestart ata_hw b (s\<lparr>idequeue := [b]\<rparr>) = IOk (s\<lparr>idequeue := [b], ctl := d\<rparr>)" "a_phase d = work ?c" "a_media d = a_media (ctl s)"
        "a_present d = a_present (ctl s)" "drive d = b_dev ?c mod 2" "a_busy d = Some 0"
      using idestart_ok [of "s\<lparr>idequeue := [b]\<rparr>" b n] c(4) n ide_invD(10) [OF h] by auto
    have "ide_inv (?s d)" by (rule inv) (use d pr Nil in simp_all)
    moreover have "iderw_ide ata_hw b s = IOk (?s d)" using c(1-3) d(1) Nil by (auto simp: iderw_ide_def iderw_wait_def Let_def)
    ultimately show ?thesis using d(3) by blast
  next
    case (Cons x q)
    then have "x \<noteq> b" using bq by auto
    then have "iderw_ide ata_hw b s = IOk (?s (ctl s))" using c(1-3) Cons by (auto simp: iderw_ide_def iderw_wait_def Let_def)
    moreover have "ide_inv (?s (ctl s))" by (rule inv) (use ide_invD(10,11,12) [OF h] Cons in auto)
    ultimately show ?thesis by blast
  qed
qed

lemma edit_ok: "ide_inv s \<Longrightarrow> dpc s b = Out \<Longrightarrow> ide_inv (s\<lparr>dbuf := (dbuf s)(b := c)\<rparr>)"
proof -
  assume h: "ide_inv s" and b: "dpc s b = Out"
  let ?s = "s\<lparr>dbuf := (dbuf s)(b := c)\<rparr>"
  have bq: "b \<notin> set (idequeue s)" using ide_invD(2) [OF h, of b] b by auto
  then have "a_phase (ctl ?s) = (case idequeue ?s of [] \<Rightarrow> Idle | c # _ \<Rightarrow> work (dbuf ?s c))" using ide_invD(12) [OF h] by (cases "idequeue s") auto
  moreover have "\<forall>x \<in> set (idequeue ?s). dpc ?s x = Asleep \<and> \<not> (b_valid (dbuf ?s x) \<and> \<not> b_dirty (dbuf ?s x)) \<and> b_blockno (dbuf ?s x) < FSBLOCKS \<and> a_present (ctl s) (b_dev (dbuf ?s x) mod 2)"
    using ide_invD(2-5) [OF h] bq by auto
  moreover have "dpc ?s x = Woken \<Longrightarrow> b_valid (dbuf ?s x) \<and> \<not> b_dirty (dbuf ?s x)" for x using ide_invD(7) [OF h, of x] b by auto
  ultimately show ?thesis unfolding ide_inv_def using ide_invD(1,6,8-11) [OF h] by simp
qed

lemma iresume_ok: "ide_inv s \<Longrightarrow> dpc s b = Woken \<Longrightarrow> ide_inv (iderw_wait b s) \<and> iderw_wait b s = s\<lparr>dpc := (dpc s)(b := Out)\<rparr>"
proof -
  assume h: "ide_inv s" and b: "dpc s b = Woken"
  then have w: "iderw_wait b s = s\<lparr>dpc := (dpc s)(b := Out)\<rparr>" using ide_invD(7) [OF h b] by (simp add: iderw_wait_def)
  have "b \<notin> set (idequeue s)" using ide_invD(2) [OF h, of b] b by auto
  then have "ide_inv (s\<lparr>dpc := (dpc s)(b := Out)\<rparr>)" using h unfolding ide_inv_def by (auto split: list.splits)
  then show ?thesis using w by simp
qed

text \<open>Each step is a step of the specification, or none.\<close>

lemma step_ok:
  assumes h: "ide_inv s" and st: "ide_step ata_hw s t"
  shows "ide_inv t" "sync_step\<^sup>*\<^sup>* (requests s) (requests t)" "dpc s b \<noteq> Out \<Longrightarrow> dpc t b = Out \<Longrightarrow> b_valid (dbuf t b) \<and> \<not> b_dirty (dbuf t b)"
proof -
  have "ide_inv t \<and> sync_step\<^sup>*\<^sup>* (requests s) (requests t) \<and> (dpc s b \<noteq> Out \<longrightarrow> dpc t b = Out \<longrightarrow> b_valid (dbuf t b) \<and> \<not> b_dirty (dbuf t b))"
    using st
  proof cases
    case (edit x c)
    have "x \<notin> set (idequeue s)" using ide_invD(2) [OF h, of x] edit by auto
    then have "sync_step (requests s) (requests t)" using sync_edit [of x "set (idequeue s)" "dbuf s" "a_media (ctl s)" c] edit by (simp add: requests_def)
    then show ?thesis using edit edit_ok [OF h] by auto
  next
    case (call x)
    obtain d where d: "t = s\<lparr>idequeue := idequeue s @ [x], ctl := d, dpc := (dpc s)(x := Asleep)\<rparr>" "a_media d = a_media (ctl s)" "ide_inv t"
      using call_ok [OF h call(1,2)] call(3) by auto
    have "x \<notin> set (idequeue s)" using ide_invD(2) [OF h, of x] call by auto
    then have "sync_step (requests s) (requests t)" using sync_call [of x "set (idequeue s)" "dbuf s" "a_media (ctl s)"] d by (simp add: requests_def)
    then show ?thesis using d by auto
  next
    case (interrupt n)
    obtain x q where q: "idequeue s = x # q" using interrupt by (cases "idequeue s") auto
    obtain s' where s': "serve ata_hw n s = IOk s'" "ide_inv s'" "idequeue s' = q" "dpc s' = (dpc s)(x := Woken)"
        "dbuf s' = (dbuf s)(x := sync_buf (dbuf s x) (a_media (ctl s)))" "a_media (ctl s') = sync_media (dbuf s x) (a_media (ctl s))"
      using serve_ok [OF h q] by blast
    have t: "t = s'" using s'(1) interrupt by simp
    have "x \<notin> set q" using ide_invD(1) [OF h] q by simp
    then have "set q = set (idequeue s) - {x}" "x \<in> set (idequeue s)" using q by auto
    then have "sync_step (requests s) (requests t)"
      using sync_serve [of x "set (idequeue s)" "dbuf s" "a_media (ctl s)"] s' by (simp add: requests_def t)
    then show ?thesis using s' by (auto simp: t split: if_splits)
  next
    case (resume x)
    note ro = iresume_ok [OF h resume(2)]
    have r: "ide_inv t" "t = s\<lparr>dpc := (dpc s)(x := Out)\<rparr>" unfolding resume(1) by (rule conjunct1 [OF ro], rule conjunct2 [OF ro])
    then show ?thesis using ide_invD(7) [OF h] resume by (auto simp: requests_def)
  qed
  then show "ide_inv t" "sync_step\<^sup>*\<^sup>* (requests s) (requests t)" "dpc s b \<noteq> Out \<Longrightarrow> dpc t b = Out \<Longrightarrow> b_valid (dbuf t b) \<and> \<not> b_dirty (dbuf t b)" by auto
qed

lemma run_ok: "(ide_step ata_hw)\<^sup>*\<^sup>* s t \<Longrightarrow> ide_inv s \<Longrightarrow> ide_inv t \<and> sync_step\<^sup>*\<^sup>* (requests s) (requests t)"
proof (induction rule: rtranclp_induct)
  case (step t u)
  then show ?case using step_ok(1,2) [of t u] by (meson rtranclp_trans)
qed simp

section \<open>Start\<close>

lemma probe_ok: "a_present d (drive d) \<Longrightarrow> a_busy d = Some n \<Longrightarrow> probe1 ata_hw (Suc k) d = (True, d\<lparr>a_busy := Some (n - 1)\<rparr>)"
  by (cases n) (auto simp: inb_status_def split: ata_phase.splits bool.splits)

lemma probe_none: "\<not> a_present d (drive d) \<Longrightarrow> probe1 ata_hw k d = (False, d)"
  by (induction k) (simp_all add: inb_status_def)

lemma select_drive: "drive (outb 0x1f6 (0xe0 OR push_bit 4 1) d) = 1" "drive (outb 0x1f6 (0xe0 OR push_bit 4 0) d) = 0"
  by (simp_all add: drive_def outb_def)

lemma select_frame: "p \<noteq> 0x1f7 \<Longrightarrow> a_phase (outb p v d) = a_phase d" "p \<noteq> 0x1f7 \<Longrightarrow> a_busy (outb p v d) = a_busy d"
  "a_present (outb p v d) = a_present d" "a_media (outb p v d) = a_media d"
  by (simp_all add: outb_def)

lemma ideinit_ok:
  assumes "powered_on s"
  shows "\<exists>s'. ideinit ata_hw s = IOk s' \<and> ide_inv s' \<and> havedisk1 s' = a_present (ctl s) 1 \<and> requests s' = requests s \<and> dpc s' = dpc s \<and> dlock s' = dlock s"
proof -
  obtain n where n: "a_busy (ctl s) = Some n" using assms by (auto simp: powered_on_def)
  let ?d0 = "(ctl s)\<lparr>a_busy := Some 0\<rparr>"
  let ?d1 = "outb 0x1f6 (0xe0 OR push_bit 4 1) ?d0"
  have w: "idewait ata_hw False (ctl s) = Some (0, ?d0)" using idewait_ok [OF n, of False] assms by (simp add: powered_on_def)
  have d1: "drive ?d1 = 1" "a_busy ?d1 = Some 0" "a_present ?d1 = a_present (ctl s)" "a_phase ?d1 = Idle" "a_media ?d1 = a_media (ctl s)"
    using select_drive(1) assms by (simp_all add: select_frame powered_on_def)
  obtain m where p: "probe1 ata_hw 1000 ?d1 = (a_present (ctl s) 1, ?d1\<lparr>a_busy := Some m\<rparr>)"
  proof (cases "a_present (ctl s) 1")
    case True
    then have "probe1 ata_hw (Suc 999) ?d1 = (True, ?d1\<lparr>a_busy := Some (0 - 1)\<rparr>)" using d1 by (intro probe_ok) simp_all
    moreover have "Suc 999 = 1000" by simp
    ultimately have "probe1 ata_hw 1000 ?d1 = (True, ?d1\<lparr>a_busy := Some (0 - 1)\<rparr>)" by (simp only:)
    then show ?thesis using that True by simp
  next
    case False
    then have "probe1 ata_hw 1000 ?d1 = (False, ?d1)" using d1(1,3) by (intro probe_none) simp
    moreover have "?d1\<lparr>a_busy := Some 0\<rparr> = ?d1" using d1(2) by simp
    ultimately show ?thesis using that [of 0] False by simp
  qed
  let ?d = "outb 0x1f6 (0xe0 OR push_bit 4 0) (?d1\<lparr>a_busy := Some m\<rparr>)"
  let ?s = "s\<lparr>havedisk1 := a_present (ctl s) 1, ctl := ?d\<rparr>"
  have d: "drive ?d = 0" "a_busy ?d = Some m" "a_present ?d = a_present (ctl s)" "a_phase ?d = Idle" "a_media ?d = a_media (ctl s)"
    using select_drive(2) d1 by (simp_all add: select_frame)
  have "ideinit ata_hw s = IOk ?s" using w p assms by (simp add: ideinit_def Let_def powered_on_def)
  moreover have "ide_inv ?s" using d assms by (simp add: ide_inv_def powered_on_def)
  moreover have "requests ?s = requests s" using d(5) by (simp add: requests_def)
  ultimately show ?thesis by (intro exI [of _ ?s]) simp
qed

section \<open>Results\<close>

lemma serve_all_ok:
  assumes "ide_inv s" "length ns \<le> length (idequeue s)"
  shows "\<exists>t. serve_all ata_hw ns s = IOk t \<and> ide_inv t \<and> idequeue t = drop (length ns) (idequeue s) \<and> (\<forall>b \<in> set (take (length ns) (idequeue s)). dpc t b = Woken)
    \<and> (\<forall>b. dpc s b = Woken \<longrightarrow> dpc t b = Woken)"
  using assms
proof (induction ns arbitrary: s)
  case (Cons n ns)
  obtain b q where q: "idequeue s = b # q" using Cons.prems(2) by (cases "idequeue s") auto
  obtain s' where s': "serve ata_hw n s = IOk s'" "ide_inv s'" "idequeue s' = q" "dpc s' = (dpc s)(b := Woken)" using serve_ok [OF Cons.prems(1) q] by blast
  obtain t where t: "serve_all ata_hw ns s' = IOk t" "ide_inv t" "idequeue t = drop (length ns) q" "\<forall>b \<in> set (take (length ns) q). dpc t b = Woken" "\<forall>b. dpc s' b = Woken \<longrightarrow> dpc t b = Woken"
    using Cons.IH [OF s'(2)] s'(3) Cons.prems(2) q by auto
  have "dpc t b = Woken" using t(5) s'(4) by simp
  then show ?case using s' t q by (intro exI [of _ t]) auto
qed simp

lemma reachable_ok:
  assumes "powered_on s0" "ideinit ata_hw s0 = IOk s" "(ide_step ata_hw)\<^sup>*\<^sup>* s t"
  shows "ide_inv t" "sync_step\<^sup>*\<^sup>* (requests s0) (requests t)"
  using ideinit_ok [OF assms(1)] assms(2) run_ok [OF assms(3)] by auto

lemma demo_call:
  assumes "b < 2"
  shows "powered_on ide_demo" "\<exists>s u. ideinit ata_hw ide_demo = IOk s \<and> ide_step ata_hw s u \<and> idequeue u = [b] \<and> dbuf u = dbuf ide_demo \<and> ide_inv u"
proof -
  show p: "powered_on ide_demo" by (simp add: powered_on_def ide_demo_def drive_def)
  obtain s where s: "ideinit ata_hw ide_demo = IOk s" "ide_inv s" "havedisk1 s" "requests s = requests ide_demo" "dpc s = dpc ide_demo" "dlock s = dlock ide_demo"
    using ideinit_ok [OF p] by (auto simp: ide_demo_def)
  have d: "dbuf s = dbuf ide_demo" "idequeue s = []" using s(4) by (auto simp: requests_def ide_demo_def)
  have o: "dpc s b = Out" "request_ok b s" using s(3,5,6) by (auto simp: request_ok_def d ide_demo_def)
  obtain e where e: "iderw_ide ata_hw b s = IOk (s\<lparr>idequeue := idequeue s @ [b], ctl := e, dpc := (dpc s)(b := Asleep)\<rparr>)"
      "ide_inv (s\<lparr>idequeue := idequeue s @ [b], ctl := e, dpc := (dpc s)(b := Asleep)\<rparr>)" using call_ok [OF s(2) o] by blast
  show "\<exists>s u. ideinit ata_hw ide_demo = IOk s \<and> ide_step ata_hw s u \<and> idequeue u = [b] \<and> dbuf u = dbuf ide_demo \<and> ide_inv u"
    using s(1) call [OF o e(1)] e(2) d by (intro exI [of _ s] exI) auto
qed

lemma read_error:
  assumes "ide_inv t" "idequeue t = [b]" "\<not> b_dirty (dbuf t b)"
  shows "\<exists>u. ideintr ata_hw (t\<lparr>ctl := complete True n (ctl t)\<rparr>) = IOk u \<and> b_valid (dbuf u b) \<and> dpc u b = Woken \<and> b_data (dbuf u b) = b_data (dbuf t b)"
proof -
  let ?e = "complete True n (ctl t)" and ?c = "dbuf t b"
  let ?bs = "a_media (ctl t) (b_dev ?c mod 2) (b_blockno ?c)"
  have pc: "dpc t b = Asleep" using ide_invD(2) [OF assms(1), of b] assms(2) by simp
  have e: "?e = (ctl t)\<lparr>a_phase := Fetched True ?bs, a_busy := Some n\<rparr>" using ide_invD(12) [OF assms(1)] assms(2,3) by (simp add: complete_def work_def)
  have "a_busy ?e = Some n" "a_present ?e (drive ?e)" using ide_invD(10) [OF assms(1)] by (simp_all add: e drive_def)
  then have "idewait ata_hw True ?e = Some (-1, ?e\<lparr>a_busy := Some 0\<rparr>)" using idewait_ok [of ?e n True] by (simp add: e)
  then show ?thesis using assms(2,3) pc by (simp add: ideintr_def upd_dbuf_def wake_buf_def Let_def)
qed

section \<open>Other controllers\<close>

lemma seen_simps [simp]:
  "dbuf (seen view s) = dbuf s" "dlock (seen view s) = dlock s" "dpc (seen view s) = dpc s" "idequeue (seen view s) = idequeue s" "havedisk1 (seen view s) = havedisk1 s"
  "ctl (seen view s) = view (ctl s)" "seen view (s\<lparr>ctl := d\<rparr>) = (seen view s)\<lparr>ctl := view d\<rparr>" "seen view (s\<lparr>dbuf := f\<rparr>) = (seen view s)\<lparr>dbuf := f\<rparr>"
  "seen view (s\<lparr>dpc := g\<rparr>) = (seen view s)\<lparr>dpc := g\<rparr>" "seen view (s\<lparr>idequeue := q\<rparr>) = (seen view s)\<lparr>idequeue := q\<rparr>" "seen view (s\<lparr>havedisk1 := x\<rparr>) = (seen view s)\<lparr>havedisk1 := x\<rparr>"
  "seen view (upd_dbuf b u s) = upd_dbuf b u (seen view s)" "seen view (wake_buf b s) = wake_buf b (seen view s)" "seen view (iderw_wait b s) = iderw_wait b (seen view s)"
  "request_ok b (seen view s) = request_ok b s"
  by (simp_all add: seen_def upd_dbuf_def wake_buf_def iderw_wait_def request_ok_def)

lemma ata_behavesD:
  assumes "ata_behaves h view"
  shows "inb_status (view d) = apsnd view (hw_inb h 0x1f7 d)" "view (hw_outb h p v d) = outb p v (view d)" "insl (view d) = apsnd view (hw_insl h 0x1f0 d)"
    "view (hw_outsl h 0x1f0 bs d) = outsl bs (view d)" "view (hw_finish h e n d) = complete e n (view d)"
  using assms by (simp_all add: ata_behaves_def)

lemma idewait_seen1:
  assumes "idewait h e d = Some y"
  shows "ata_behaves h view \<longrightarrow> idewait ata_hw e (view d) = Some (apsnd view y)"
proof (induction rule: idewait.raw_induct [OF _ assms, of "\<lambda>h e d y. ata_behaves h view \<longrightarrow> idewait ata_hw e (view d) = Some (apsnd view y)"])
  case body: (1 f h e d y)
  show ?case
  proof
    assume h: "ata_behaves h view"
    obtain x d1 where x: "hw_inb h 0x1f7 d = (x, d1)" by fastforce
    then have i: "inb_status (view d) = (x, view d1)" using ata_behavesD(1) [OF h, of d] by simp
    show "idewait ata_hw e (view d) = Some (apsnd view y)" using body(1) [of h e d1 y] body(2) h by (subst idewait.simps) (auto simp: i x split: if_splits)
  qed
qed

lemma idewait_seen2:
  assumes "idewait ata_hw e x = Some y" "ata_behaves h view" "x = view d"
  shows "idewait h e d \<noteq> None"
proof -
  have "k = ata_hw \<longrightarrow> (\<forall>d. x = view d \<longrightarrow> idewait h e d \<noteq> None)" if "idewait k e x = Some y" for k
  proof (induction rule: idewait.raw_induct [OF _ that, of "\<lambda>k e x y. k = ata_hw \<longrightarrow> (\<forall>d. x = view d \<longrightarrow> idewait h e d \<noteq> None)"])
    case body: (1 f k e x y)
    show ?case
    proof (intro impI allI)
      fix d assume k: "k = ata_hw" "x = view d"
      obtain r d1 where r: "hw_inb h 0x1f7 d = (r, d1)" by fastforce
      then have i: "inb_status (view d) = (r, view d1)" using ata_behavesD(1) [OF assms(2), of d] by simp
      show "idewait h e d \<noteq> None" using body(1) [of ata_hw e "view d1" y] body(2) k by (subst idewait.simps) (auto simp: i r split: if_splits)
    qed
  qed
  then show ?thesis using assms by blast
qed

lemma idewait_seen:
  assumes "ata_behaves h view"
  shows "idewait ata_hw e (view d) = map_option (apsnd view) (idewait h e d)"
proof (cases "idewait h e d")
  case None
  have "idewait ata_hw e (view d) = None" using idewait_seen2 [OF _ assms refl, of e d] None by (cases "idewait ata_hw e (view d)") auto
  then show ?thesis using None by simp
next
  case (Some y)
  then show ?thesis using idewait_seen1 [OF Some, of view] assms by simp
qed

lemma probe_seen: "ata_behaves h view \<Longrightarrow> probe1 ata_hw n (view d) = apsnd view (probe1 h n d)"
proof (induction n arbitrary: d)
  case (Suc n)
  show ?case
  proof (cases "hw_inb h 0x1f7 d")
    case (Pair x d1)
    then have i: "inb_status (view d) = (x, view d1)" using ata_behavesD(1) [OF Suc.prems, of d] by simp
    show ?thesis using Suc.IH [OF Suc.prems] by (simp add: Pair i)
  qed
qed simp

lemma ideinit_seen:
  assumes "ata_behaves h view"
  shows "ideinit ata_hw (seen view s) = iseen view (ideinit h s)"
  unfolding ideinit_def Let_def
  by (auto simp: idewait_seen [OF assms] probe_seen [OF assms] ata_behavesD(2) [OF assms, symmetric] split: option.splits prod.splits)

lemma idestart_seen:
  assumes "ata_behaves h view"
  shows "idestart ata_hw b (seen view s) = iseen view (idestart h b s)"
  unfolding idestart_def Let_def
  by (simp add: idewait_seen [OF assms] ata_behavesD(2,4) [OF assms] split: option.splits prod.splits)

lemma idequeue_kept [simp]: "idequeue (wake_buf b s) = idequeue s" "idequeue (upd_dbuf b u s) = idequeue s"
  by (simp_all add: wake_buf_def upd_dbuf_def)

lemma ideintr_seen:
  assumes "ata_behaves h view"
  shows "ideintr ata_hw (seen view s) = iseen view (ideintr h s)"
proof (cases "idequeue s")
  case q: (Cons b q)
  define f where "f = (\<lambda>s :: 'a idest. let s = wake_buf b (upd_dbuf b (\<lambda>c. c\<lparr>b_valid := True, b_dirty := False\<rparr>) s) in case idequeue s of [] \<Rightarrow> IOk s | b' # _ \<Rightarrow> idestart h b' s)"
  define g where "g = (\<lambda>s. let s = wake_buf b (upd_dbuf b (\<lambda>c. c\<lparr>b_valid := True, b_dirty := False\<rparr>) s) in case idequeue s of [] \<Rightarrow> IOk s | b' # _ \<Rightarrow> idestart ata_hw b' s)"
  have fg: "iseen view (f s) = g (seen view s)" for s
    unfolding f_def g_def Let_def by (cases "idequeue s") (simp_all add: idestart_seen [OF assms, symmetric])
  have "b_dirty (dbuf s b) \<Longrightarrow> ?thesis" using fg [of "s\<lparr>idequeue := q\<rparr>"] q by (simp add: ideintr_def f_def g_def)
  moreover have ?thesis if c: "\<not> b_dirty (dbuf s b)"
  proof (cases "idewait h True (ctl s)")
    case None
    then show ?thesis using c q by (simp add: ideintr_def idewait_seen [OF assms])
  next
    case (Some y)
    obtain bs d where i: "hw_insl h 0x1f0 (snd y) = (bs, d)" by fastforce
    then have j: "insl (view (snd y)) = (bs, view d)" using ata_behavesD(3) [OF assms, of "snd y"] by simp
    let ?s = "s\<lparr>idequeue := q, ctl := snd y\<rparr>" and ?t = "upd_dbuf b (\<lambda>c. c\<lparr>b_data := bs\<rparr>) (s\<lparr>idequeue := q, ctl := d\<rparr>)"
    have "ideintr h s = f (if fst y \<ge> 0 then ?t else ?s)" "ideintr ata_hw (seen view s) = g (seen view (if fst y \<ge> 0 then ?t else ?s))"
      using c q Some i j by (cases y; simp add: ideintr_def idewait_seen [OF assms] f_def g_def)+
    then show ?thesis using fg by simp
  qed
  ultimately show ?thesis by blast
qed (simp add: ideintr_def)

lemma iderw_seen:
  assumes "ata_behaves h view"
  shows "iderw_ide ata_hw b (seen view s) = iseen view (iderw_ide h b s)"
proof -
  have "idestart ata_hw b ((seen view s)\<lparr>idequeue := q\<rparr>) = iseen view (idestart h b (s\<lparr>idequeue := q\<rparr>))" for q
    using idestart_seen [OF assms, of b "s\<lparr>idequeue := q\<rparr>"] by simp
  then show ?thesis by (auto simp: iderw_ide_def Let_def split: iout.splits)
qed

lemma serve_seen:
  assumes "ata_behaves h view"
  shows "serve ata_hw n (seen view s) = iseen view (serve h n s)"
  using ideintr_seen [OF assms, of "s\<lparr>ctl := hw_finish h False n (ctl s)\<rparr>"] by (simp add: serve_def ata_behavesD(5) [OF assms])

lemma serve_all_seen: "ata_behaves h view \<Longrightarrow> serve_all ata_hw ns (seen view s) = iseen view (serve_all h ns s)"
  by (induction ns arbitrary: s) (auto simp: serve_seen split: iout.splits)

lemma step_seen:
  assumes "ata_behaves h view" "ide_step h s t"
  shows "ide_step ata_hw (seen view s) (seen view t)"
  using assms(2)
proof cases
  case (edit b c)
  then show ?thesis using ide_step.edit [of "seen view s" b ata_hw c] by simp
next
  case (call b)
  then show ?thesis using ide_step.call [of "seen view s" b ata_hw] iderw_seen [OF assms(1), of b s] by simp
next
  case (interrupt n)
  then show ?thesis using ide_step.interrupt [of "seen view s" ata_hw n] serve_seen [OF assms(1), of n s] by simp
next
  case (resume b)
  then show ?thesis using ide_step.resume [of "seen view s" b ata_hw] by simp
qed

lemma steps_seen:
  assumes "ata_behaves h view" "(ide_step h)\<^sup>*\<^sup>* s t"
  shows "(ide_step ata_hw)\<^sup>*\<^sup>* (seen view s) (seen view t)"
  using assms(2) by (induction) (auto intro: rtranclp.rtrancl_into_rtrancl step_seen [OF assms(1)])

lemma reachable_seen:
  assumes "ata_behaves h view" "powered_on (seen view s0)" "ideinit h s0 = IOk s" "(ide_step h)\<^sup>*\<^sup>* s t"
  shows "ide_inv (seen view t)" "sync_step\<^sup>*\<^sup>* (requests (seen view s0)) (requests (seen view t))"
  using reachable_ok [OF assms(2) _ steps_seen [OF assms(1,4)]] ideinit_seen [OF assms(1), of s0] assms(3) by simp_all

lemma ata_hw_behaves: "ata_behaves ata_hw id"
  by (simp add: ata_behaves_def)

lemma seen_id: "seen id s = s"
  by (simp add: seen_def)







end
