(* ===== verification/Spec2Isabelle.thy ===== *)
theory Spec2Isabelle
  imports SchedProps Sysproc Strings FileData Grep PageTable SyncProps ShellProps Umalloc Mkfs Ide
begin

text \<open>
  A verification of the xv6 kernel of this repository (\<open>src/xv6-public\<close>): xv6 with a scheduler that combines
  multi-level feedback queues with stride scheduling, light-weight processes (threads), semaphores and readers-writer locks in user
  memory, a file system with triple indirect blocks, and positional reads and writes.

  \<^bold>\<open>How the kernel is modelled.\<close> A kernel routine is a function from a state to an outcome (\<open>Prelude\<close>): it returns (\<open>Ok\<close>),
  panics (\<open>Panic\<close>), spins for ever (\<open>Spin\<close>), does something undefined in C (\<open>Fault\<close>), or switches to the scheduler (\<open>Switch\<close>) and goes on
  with whatever state it is resumed in. Sequencing is \<open>kbind\<close> and \<open>kthen\<close>; loops are \<open>kiter\<close>, \<open>kfirst\<close> and \<open>kloop\<close>. \<open>wp m P s\<close> says that
  \<open>m\<close>, started in \<open>s\<close>, returns without switching and establishes \<open>P\<close>, so a theorem of that form includes that the routine
  returns and neither panics nor faults. The state is a record that grows by inheritance, layer by layer: CPUs and spin locks, process
  table, sleep locks, buffer cache and disk, log, and the rest of the kernel (\<open>kstate\<close>: console, physical memory, inode cache,
  files and pipes, tick counter). C integers are \<open>int\<close> with the wrap-around written out (\<open>i32\<close>), words (\<open>uint\<close>, \<open>uchar\<close>) where the code works
  on bits, addresses or wraps on purpose, and natural numbers for block numbers and indices.

  \<^bold>\<open>The theories and the code they model.\<close>
  \<^item> \<open>StrideHeap\<close>: the binary heap of pass values of \<open>proc.c\<close> (\<open>push\<close>, \<open>pop\<close>).
  \<^item> \<open>Spinlock\<close>: \<open>spinlock.c\<close>, \<open>mycpu\<close>, \<open>myproc\<close>. \<open>ctx p L s\<close> (\<open>Sleeplock\<close>) is the normal situation of kernel code: process \<open>p\<close> runs on this CPU
    and holds exactly the spin locks \<open>L\<close>.
  \<^item> \<open>ProcTable\<close>: the table, \<open>sched\<close>, \<open>yield\<close>, \<open>sleep\<close>, \<open>wakeup\<close>, \<open>kill\<close>, \<open>cleanup_lwp\<close>, \<open>switchuvm\<close>.
  \<^item> \<open>Sched\<close>, \<open>SchedProps\<close>: \<open>scheduler\<close>, \<open>set_cpu_share\<close>, \<open>priority_boost\<close>, the timer tail of \<open>trap\<close>.
  \<^item> \<open>Sleeplock\<close>: \<open>sleeplock.c\<close>. \<open>Bio\<close>: \<open>bio.c\<close> and the memory disk \<open>memide.c\<close>.
  \<^item> \<open>Bytes\<close>, \<open>Strings\<close>: little-endian fields; \<open>string.c\<close> and the string routines of \<open>ulib.c\<close>.
  \<^item> \<open>Log\<close>, \<open>LogCrash\<close>, \<open>LogTx\<close>: \<open>log.c\<close>; crashes and recovery; the block store as seen inside a transaction.
  \<^item> \<open>Kernel\<close>: the rest of the state and its frame lemmas. \<open>Console\<close>: \<open>console.c\<close>, \<open>uart.c\<close>, \<open>kbd.c\<close>.
  \<^item> \<open>Kalloc\<close>: \<open>kalloc.c\<close>. \<open>Vm\<close>: \<open>vm.c\<close> and the address translation of the processor.
  \<^item> \<open>Inode\<close>, \<open>Fs\<close>: \<open>fs.c\<close> and the console device. \<open>File\<close>: \<open>file.c\<close>, \<open>pipe.c\<close>.
  \<^item> \<open>ProcLife\<close>: process and thread creation, exit and collection (\<open>proc.c\<close>). \<open>Exec\<close>: \<open>exec.c\<close>.
  \<^item> \<open>Sync\<close>: \<open>semaphore.c\<close>, \<open>rwlock.c\<close>. \<open>Sysfile\<close>, \<open>Sysproc\<close>: \<open>syscall.c\<close>, \<open>sysfile.c\<close>, \<open>sysproc.c\<close>, \<open>prac_syscall.c\<close>, \<open>trap.c\<close>.

  \<^bold>\<open>What is shown.\<close> The stride heap sorts. Of every hundred turns the stride clients get exactly the share they asked for, the heap stays equal to the
  multiset of their pass values, the scheduler keeps making progress and hands over the lock as \<open>sched\<close> expects, and the
  feedback levels, quanta and the boost behave as designed; the limit test of \<open>set_cpu_share\<close> wraps around and repeated requests overrun the
  heap array. A crash at any point of a commit leaves all of a transaction or nothing of it after recovery. The page
  allocator is a stack of disjoint pages. Input interrupts implement a line editor, and what is typed is what is read.
  Printing never drives the cursor off the screen. The string routines meet their specifications, also on overlapping ranges and
  with the word-wise fast path of \<open>memset\<close>.

  \<^bold>\<open>Bounds and fuel.\<close> The endless loop of \<open>scheduler\<close> is modelled by its first \<open>n\<close> rounds. The loop of \<open>consoleintr\<close> runs
  as many rounds as there are characters at the devices, plus one. Other loops are structural or have a termination proof.

  \<^bold>\<open>Not modelled.\<close> Interrupt controllers and the IDE driver (\<open>lapic.c\<close>, \<open>ioapic.c\<close>, \<open>picirq.c\<close>, \<open>mp.c\<close>, \<open>ide.c\<close>) only
  exchange values with hardware whose behaviour is not in the sources. Boot code and assembly (\<open>main.c\<close>, \<open>bootmain.c\<close>, the \<open>.S\<close> files)
  set up the state the model starts from; \<open>swtch\<close> is the outcome \<open>Switch\<close>. The builder \<open>mkfs.c\<close> runs on the host. User programs run above
  the system calls. The theorems on a single kernel routine are about one CPU whose process is not interrupted; interleavings
  with other processes are covered where they are made explicit: at \<open>Switch\<close>, at a crash, and by invariants kept by
  each step.
\<close>

end
